(* ===== verification/C_Prelude.thy ===== *)
theory C_Prelude
  imports Main "HOL-Library.Word"
begin

unbundle bit_operations_syntax

text \<open>
  Shared vocabulary for the C components of this development.

  \<^item> \<open>'a cres\<close> is the outcome of running a C fragment: \<open>Ret x\<close> when it returns \<open>x\<close>,
    \<open>Fault\<close> when it reads or writes outside an object, dereferences a null pointer, uses an
    uninitialised variable or overflows a signed integer (the cases the C standard leaves
    undefined), \<open>Diverge\<close> when a loop or a recursion has used up the fuel it was given.
    \<open>cbind\<close> runs two fragments in sequence.
  \<^item> A byte array behind a \<^verbatim>\<open>const unsigned char *\<close> is a \<open>byte list\<close>; \<open>rd\<close> and \<open>rd_bytes\<close>
    are the reads, with the bounds of the object.
  \<^item> \<open>heap\<close> is what the allocator shows of itself: the outcomes of the next allocations and
    the number of live blocks.
  \<^item> \<open>c_int\<close> and \<open>c_int64\<close> are the conversions to \<^verbatim>\<open>int\<close> and \<^verbatim>\<open>int64_t\<close> (two's complement).
  \<^item> \<open>forward_simulation\<close> is the interface of a stateful component and its specification: every call
    returns and is a step of the specification. The client lemma lifts this to sequences of calls.
  \<^item> \<open>varint_code\<close> is the interface of a self-delimiting integer code; its one client lemma,
    that a stream of encoded values is decoded value by value, is proved once in the locale
    and used by every variable-length integer format of the repository.
\<close>

section \<open>Outcomes of C code\<close>

datatype 'a cres = Fault | Diverge | Ret 'a

fun cbind :: "'a cres \<Rightarrow> ('a \<Rightarrow> 'b cres) \<Rightarrow> 'b cres" where
  "cbind Fault f = Fault"
| "cbind Diverge f = Diverge"
| "cbind (Ret x) f = f x"

named_theorems cres_simps \<open>inversion rules for outcomes of C fragments\<close>

lemma cbind_Ret_iff [cres_simps]:
  "cbind m f = Ret y \<longleftrightarrow> (\<exists>x. m = Ret x \<and> f x = Ret y)"
  by (cases m) auto

lemma cbind_RetE:
  assumes "cbind m f = Ret y"
  obtains x where "m = Ret x" "f x = Ret y"
  using assms by (auto simp: cbind_Ret_iff)

lemma cbind_Diverge_iff [cres_simps]:
  "cbind m f = Diverge \<longleftrightarrow> m = Diverge \<or> (\<exists>x. m = Ret x \<and> f x = Diverge)"
  by (cases m) auto

lemma cbind_Fault_iff [cres_simps]:
  "cbind m f = Fault \<longleftrightarrow> m = Fault \<or> (\<exists>x. m = Ret x \<and> f x = Fault)"
  by (cases m) auto

lemma cbind_assoc: "cbind (cbind m f) g = cbind m (\<lambda>x. cbind (f x) g)"
  by (cases m) auto

lemma cbind_cong [fundef_cong]:
  "m = m' \<Longrightarrow> (\<And>x. m' = Ret x \<Longrightarrow> f x = f' x) \<Longrightarrow> cbind m f = cbind m' f'"
  by (cases m') auto

text \<open>The result of a call that reports an error code (\<open>Inl rc\<close>, the out-parameter is not
  written) or success with the value stored through its out-parameter (\<open>Inr v\<close>).\<close>

type_synonym 'a rcres = "(int + 'a) cres"

section \<open>Bytes and machine integers\<close>

type_synonym byte = "8 word"
type_synonym u32 = "32 word"
type_synonym u64 = "64 word"

definition c_int :: "int \<Rightarrow> int" where
  "c_int x = signed_take_bit 31 x"

definition c_int64 :: "int \<Rightarrow> int" where
  "c_int64 x = signed_take_bit 63 x"

abbreviation (input) INT_MAX :: int where "INT_MAX \<equiv> 2147483647"

lemma c_int_range: "- (2 ^ 31) \<le> c_int x" "c_int x < 2 ^ 31"
  using signed_take_bit_int_greater_eq_minus_exp [of 31 x] signed_take_bit_int_less_exp [of 31 x]
  by (simp_all add: c_int_def)

lemma c_int_id: "- (2 ^ 31) \<le> x \<Longrightarrow> x < 2 ^ 31 \<Longrightarrow> c_int x = x"
  by (simp add: c_int_def signed_take_bit_int_eq_self_iff)

lemma c_int64_id: "- (2 ^ 63) \<le> x \<Longrightarrow> x < 2 ^ 63 \<Longrightarrow> c_int64 x = x"
  by (simp add: c_int64_def signed_take_bit_int_eq_self_iff)

text \<open>Big-endian value of a byte string.\<close>

definition be_value :: "byte list \<Rightarrow> int" where
  "be_value bs = foldl (\<lambda>acc b. acc * 256 + uint b) 0 bs"

lemma be_value_Nil [simp]: "be_value [] = 0"
  by (simp add: be_value_def)

lemma be_value_snoc [simp]: "be_value (bs @ [b]) = be_value bs * 256 + uint b"
  by (simp add: be_value_def)

lemma be_value_bounds: "0 \<le> be_value bs" "be_value bs < 256 ^ length bs"
proof (induction bs rule: rev_induct)
  case (snoc b bs)
  have u: "0 \<le> uint b" "uint b < 256"
    using uint_lt2p [of b] by simp_all
  { case 1 show ?case using snoc u by simp }
  { case 2
    have "be_value bs + 1 \<le> 256 ^ length bs"
      using snoc(2) by simp
    then have "(be_value bs + 1) * 256 \<le> 256 ^ length bs * 256"
      by (rule mult_right_mono) simp
    then show ?case using u by simp }
qed simp_all

lemma uint_byte_bounds [simp]: "0 \<le> uint (b :: byte)" "uint (b :: byte) < 256"
  using uint_lt2p [of b] by simp_all

lemma foldl_be: "foldl (\<lambda>acc b. acc * 256 + uint (b :: byte)) a bs =
    a * 256 ^ length bs + foldl (\<lambda>acc b. acc * 256 + uint b) 0 bs" for a :: int
proof (induction bs rule: rev_induct)
  case (snoc b bs)
  show ?case
    unfolding foldl_append length_append
    by (subst snoc) (simp add: algebra_simps)
qed simp

lemma be_value_Cons: "be_value (b # bs) = uint b * 256 ^ length bs + be_value bs"
  using foldl_be [of "uint b" bs] by (simp add: be_value_def)

lemma be_value_append: "be_value (xs @ ys) = be_value xs * 256 ^ length ys + be_value ys"
  using foldl_be [of "be_value xs" ys] by (simp add: be_value_def)

lemma int_or_add: "0 \<le> b \<Longrightarrow> b < 2 ^ n \<Longrightarrow> (a * 2 ^ n) OR b = a * 2 ^ n + (b :: int)"
proof -
  assume b: "0 \<le> b" "b < 2 ^ n"
  have tb: "take_bit n b = b" using b by (simp add: take_bit_int_eq_self_iff)
  have "\<not> bit (a * 2 ^ n) k \<or> \<not> bit b k" for k
  proof (cases "k < n")
    case True then show ?thesis by (simp add: push_bit_eq_mult [symmetric] bit_simps)
  next
    case False
    then have "\<not> bit (take_bit n b) k" by (simp add: bit_take_bit_iff)
    then show ?thesis by (simp only: tb) simp
  qed
  then show ?thesis using disjunctive_add [of "a * 2 ^ n" b] by simp
qed

lemma signed_take_bit_nonneg:
  "0 \<le> v \<Longrightarrow> v < 2 ^ Suc n \<Longrightarrow> signed_take_bit n v = (if v < 2 ^ n then v else v - 2 ^ Suc n)" for v :: int
proof (cases "v < 2 ^ n")
  case True assume "0 \<le> v"
  with True have "- (2 ^ n) \<le> v" using zero_le_power[of "2::int" n] by linarith 
  then show ?thesis using True by (simp add: signed_take_bit_int_eq_self_iff)
next
  case False assume "0 \<le> v" "v < 2 ^ Suc n"
  have "signed_take_bit n v = take_bit (Suc n) (v + 2 ^ n) - 2 ^ n"
    by (rule signed_take_bit_eq_take_bit_shift)
  also have "take_bit (Suc n) (v + 2 ^ n) = v - 2 ^ n"
  proof -
    have "(v + 2 ^ n) = (v - 2 ^ n) + 2 ^ Suc n" by simp
    then have "(v + 2 ^ n) mod 2 ^ Suc n = (v - 2 ^ n) mod 2 ^ Suc n" by (metis mod_add_self2)
    also have "\<dots> = v - 2 ^ n" using False \<open>v < 2 ^ Suc n\<close> by (intro mod_pos_pos_trivial) auto
    finally show ?thesis by (simp add: take_bit_eq_mod)
  qed
  finally show ?thesis using False by simp
qed
lemma sint_byte: "sint (b :: byte) = (if uint b < 128 then uint b else uint b - 256)"
  using signed_take_bit_nonneg[of "uint b" 7] by (simp add: sint_uint)

lemma sint_byte_range: "- 128 \<le> sint (b :: byte)" "sint (b :: byte) \<le> 127"
proof -
  have "sint b = uint b \<and> uint b < 128 \<or> sint b = uint b - 256 \<and> 128 \<le> uint b"
    by (auto simp: sint_byte)
  then show "- 128 \<le> sint b" "sint b \<le> 127" using uint_byte_bounds [of b] by linarith+
qed

lemma sint_be:
  assumes "length bs = n" 
  shows "sint b * 256 ^ n + be_value bs = signed_take_bit (8 * n + 7) (be_value (b # bs))"
proof -
  have p: "(256::int) ^ n = 2 ^ (8 * n)" by (simp add: power_mult)
  have bs: "0 \<le> be_value bs" "be_value bs < 256 ^ n" using be_value_bounds[of bs] assms by auto
  have v: "be_value (b # bs) = uint b * 256 ^ n + be_value bs" using assms by (simp add: be_value_Cons)
  have e: "(2::int) ^ (8 * n + 7) = 128 * 256 ^ n" "(2::int) ^ Suc (8 * n + 7) = 256 * 256 ^ n"
    by (simp_all add: p power_add)
  have ub: "be_value (b # bs) < 2 ^ Suc (8 * n + 7)"
    using be_value_bounds(2)[of "b # bs"] assms unfolding e by simp
  have "(uint b < 128) = (be_value (b # bs) < 128 * 256 ^ n)"
  proof
    assume "uint b < 128"
    then have "uint b + 1 \<le> 128" by simp
    then have "(uint b + 1) * 256 ^ n \<le> 128 * 256 ^ n" by (rule mult_right_mono) simp
    then show "be_value (b # bs) < 128 * 256 ^ n"
      using bs unfolding v distrib_right by linarith
  next
    assume a: "be_value (b # bs) < 128 * 256 ^ n"
    show "uint b < 128"
    proof (rule ccontr)
      assume "\<not> uint b < 128" then have "128 \<le> uint b" by simp
      then have "128 * 256 ^ n \<le> uint b * 256 ^ n" by (rule mult_right_mono) simp
      with a bs show False by (simp add: v)
    qed
  qed
  then show ?thesis
    using signed_take_bit_nonneg[of "be_value (b # bs)" "8 * n + 7"] ub be_value_bounds(1)[of "b # bs"]
    unfolding e by (simp add: sint_byte v algebra_simps)
qed

lemma or_push:
  "0 \<le> x \<Longrightarrow> x < 2 ^ n \<Longrightarrow> push_bit n y OR x = y * 2 ^ n + (x :: int)"
  by (simp add: push_bit_eq_mult int_or_add)

lemma and_pred_power2:
  "0 < x \<Longrightarrow> (x - 1) AND x = 0 \<Longrightarrow> \<exists>k. x = 2 ^ k" for x :: int
proof (induction "nat x" arbitrary: x rule: less_induct)
  case less
  have r: "(x - 1) AND x = 2 * (((x - 1) div 2) AND (x div 2))"
    by (subst and_rec) auto
  show ?case
  proof (cases "even x")
    case True
    then obtain y where y: "x = 2 * y" ..
    then have "(x - 1) div 2 = y - 1" by simp
    then have "(y - 1) AND y = 0" using r y less.prems(2) by simp
    then obtain k where "y = 2 ^ k" using less.hyps [of y] less.prems y by force
    then show ?thesis using y by (intro exI [of _ "Suc k"]) simp
  next
    case False
    then obtain y where y: "x = 2 * y + 1" ..
    then have "y AND y = 0" using r less.prems(2) by simp
    then show ?thesis using y by (intro exI [of _ 0]) simp
  qed
qed
lemma power2_range: "512 \<le> (2::int) ^ k \<Longrightarrow> 2 ^ k \<le> (32767::int) \<Longrightarrow> k \<in> {9 .. 14}"
proof -
  assume a: "512 \<le> (2::int) ^ k" "2 ^ k \<le> (32767::int)"
  then have "(2::int) ^ 9 \<le> 2 ^ k" "(2::int) ^ k < 2 ^ 15" by simp_all
  then have "9 \<le> k" "k < 15" by (simp_all only: power_increasing_iff power_strict_increasing_iff)
  then show ?thesis by simp
qed

text \<open>
  Equations between fixed-width words are decided bit by bit: the rules below turn such an
  equation into one proposition per bit position, which the simplifier computes.
\<close>

lemma byte_bit_False [simp]: "8 \<le> n \<Longrightarrow> \<not> bit (w :: 8 word) n"
  using bit_imp_le_length [of w n] by auto

lemma word32_bit_False [simp]: "32 \<le> n \<Longrightarrow> \<not> bit (w :: 32 word) n"
  using bit_imp_le_length [of w n] by auto

lemma word64_bit_False [simp]: "64 \<le> n \<Longrightarrow> \<not> bit (w :: 64 word) n"
  using bit_imp_le_length [of w n] by auto

lemma bits8: "(\<forall>n \<in> set [0..<8]. bit x n = bit y n) \<Longrightarrow> x = (y :: 8 word)"
  by (rule bit_word_eqI) simp

lemma bits32: "(\<forall>n \<in> set [0..<32]. bit x n = bit y n) \<Longrightarrow> x = (y :: 32 word)"
  by (rule bit_word_eqI) simp

lemma bits64: "(\<forall>n \<in> set [0..<64]. bit x n = bit y n) \<Longrightarrow> x = (y :: 64 word)"
  by (rule bit_word_eqI) simp

lemmas bit_blast = bit_simps upt_conv_Cons numeral_2_eq_2 [symmetric] disj_ac

lemma and_0x80: "(x :: 'a :: len word) AND 0x80 = 0 \<longleftrightarrow> \<not> bit x 7"
  using and_exp_eq_0_iff_not_bit [of x 7] by simp

lemma unat_drop7: "unat (drop_bit 7 (v :: u64)) = unat v div 128"
  by (simp add: unat_drop_bit_eq drop_bit_nat_def)

lemma drop_bit_7_less: "drop_bit 7 v \<noteq> 0 \<Longrightarrow> unat (drop_bit 7 v) < unat (v :: u64)"
proof -
  assume "drop_bit 7 v \<noteq> 0"
  then have "v \<noteq> 0" by auto
  then have "0 < unat v" by (simp add: unat_gt_0)
  then show ?thesis by (simp add: unat_drop7)
qed

section \<open>Reads from an object\<close>

definition rd :: "'a list \<Rightarrow> int \<Rightarrow> 'a cres" where
  "rd xs i = (if 0 \<le> i \<and> i < int (length xs) then Ret (xs ! nat i) else Fault)"

lemma rd_Cons_0 [simp]: "rd (x # xs) 0 = Ret x"
  by (simp add: rd_def)

lemma rd_drop: "p \<le> length buf \<Longrightarrow> 0 \<le> k \<Longrightarrow> rd buf (int p + k) = rd (drop p buf) k"
  by (auto simp: rd_def nat_add_distrib)

text \<open>A read that may run past the end, as an outcome.\<close>

definition oget :: "'a option \<Rightarrow> 'a cres" where
  "oget x = (case x of None \<Rightarrow> Fault | Some y \<Rightarrow> Ret y)"

text \<open>\<^verbatim>\<open>memcpy(dst, src + off, n)\<close>: the bytes read.\<close>

definition rd_bytes :: "'a list \<Rightarrow> int \<Rightarrow> int \<Rightarrow> 'a list cres" where
  "rd_bytes xs off n =
     (if 0 \<le> off \<and> 0 \<le> n \<and> off + n \<le> int (length xs)
      then Ret (take (nat n) (drop (nat off) xs)) else Fault)"

lemma rd_Ret_iff [cres_simps]:
  "rd xs i = Ret x \<longleftrightarrow> 0 \<le> i \<and> i < int (length xs) \<and> x = xs ! nat i"
  by (auto simp: rd_def)

lemma rd_not_Diverge [simp]: "rd xs i \<noteq> Diverge"
  by (simp add: rd_def)

lemma rd_in: "0 \<le> i \<Longrightarrow> i < int (length xs) \<Longrightarrow> rd xs i = Ret (xs ! nat i)"
  by (simp add: rd_def)

lemma rd_app [simp]: "rd (xs @ x # ys) (int (length xs)) = Ret x"
  by (simp add: rd_def)

lemma rd_bytes_Ret_iff [cres_simps]:
  "rd_bytes xs off n = Ret ys \<longleftrightarrow>
     0 \<le> off \<and> 0 \<le> n \<and> off + n \<le> int (length xs) \<and> ys = take (nat n) (drop (nat off) xs)"
  by (auto simp: rd_bytes_def)

lemma rd_bytes_not_Diverge [simp]: "rd_bytes xs off n \<noteq> Diverge"
  by (simp add: rd_bytes_def)

lemma take_length_take: "take (length (take m xs)) xs = take m xs"
  by (cases "m \<le> length xs") auto

lemma take_split: "g \<le> n \<Longrightarrow> take n xs = take g xs @ take (n - g) (drop g xs)"
  using take_add [of g "n - g" xs] by simp

text \<open>\<^verbatim>\<open>memcpy(dst + off, src, n)\<close>: the destination afterwards.\<close>

definition wr_bytes :: "'a list \<Rightarrow> int \<Rightarrow> 'a list \<Rightarrow> 'a list cres" where
  "wr_bytes xs off ys =
     (if 0 \<le> off \<and> off + int (length ys) \<le> int (length xs)
      then Ret (take (nat off) xs @ ys @ drop (nat off + length ys) xs) else Fault)"

lemma wr_bytes_Ret_iff [cres_simps]:
  "wr_bytes xs off ys = Ret zs \<longleftrightarrow> 0 \<le> off \<and> off + int (length ys) \<le> int (length xs) \<and>
     zs = take (nat off) xs @ ys @ drop (nat off + length ys) xs"
  by (auto simp: wr_bytes_def)

lemma wr_bytes_not_Diverge [simp]: "wr_bytes xs off ys \<noteq> Diverge"
  by (simp add: wr_bytes_def)

lemma wr_bytes_length: "wr_bytes xs off ys = Ret zs \<Longrightarrow> length zs = length xs"
  by (auto simp: wr_bytes_def split: if_splits)

section \<open>The allocator\<close>

text \<open>Result codes of SQLite.\<close>

abbreviation (input) SQLITE_OK :: int where "SQLITE_OK \<equiv> 0"
abbreviation (input) SQLITE_NOMEM :: int where "SQLITE_NOMEM \<equiv> 7"

text \<open>Addresses of a store of objects.\<close>

type_synonym addr = nat

record heap =
  outcomes :: "bool list"  \<comment> \<open>whether each of the next allocations succeeds; afterwards all do\<close>
  live :: int              \<comment> \<open>blocks allocated and not yet freed\<close>

definition c_alloc :: "heap \<Rightarrow> bool \<times> heap" where
  "c_alloc h = (case outcomes h of
       [] \<Rightarrow> (True, h\<lparr>live := live h + 1\<rparr>)
     | b # bs \<Rightarrow> (b, h\<lparr>outcomes := bs, live := (if b then live h + 1 else live h)\<rparr>))"

definition c_free :: "heap \<Rightarrow> heap" where
  "c_free h = h\<lparr>live := live h - 1\<rparr>"

lemma c_alloc_live: "c_alloc h = (b, h') \<Longrightarrow> live h' = (if b then live h + 1 else live h)"
  by (auto simp: c_alloc_def split: list.splits)

lemma c_free_live [simp]: "live (c_free h) = live h - 1"
  by (simp add: c_free_def)

lemma c_alloc_no_oom: "outcomes h = [] \<Longrightarrow> c_alloc h = (True, h\<lparr>live := live h + 1\<rparr>)"
  by (simp add: c_alloc_def)

lemma c_free_outcomes [simp]: "outcomes (c_free h) = outcomes h"
  by (simp add: c_free_def)

section \<open>Self-delimiting integer codes\<close>

text \<open>
  \<open>enc\<close> writes a value of the domain \<open>dom\<close>, \<open>dec\<close> reads one value at an offset of a buffer
  and returns it with the number of bytes it used. The law is the round trip inside any
  surrounding bytes; the lemmas for its clients follow from it.
\<close>

locale varint_code =
  fixes enc :: "'v \<Rightarrow> byte list"
    and dec :: "byte list \<Rightarrow> nat \<Rightarrow> ('v \<times> nat) option"
    and vdom :: "'v \<Rightarrow> bool"
  assumes dec_enc: "vdom v \<Longrightarrow> dec (pre @ enc v @ rest) (length pre) = Some (v, length (enc v))"
    and enc_nonempty: "vdom v \<Longrightarrow> enc v \<noteq> []"
begin

primrec dec_list :: "nat \<Rightarrow> byte list \<Rightarrow> nat \<Rightarrow> ('v list \<times> nat) option" where
  "dec_list 0 bs off = Some ([], off)"
| "dec_list (Suc n) bs off =
     (case dec bs off of None \<Rightarrow> None
      | Some (v, k) \<Rightarrow> map_option (\<lambda>(vs, off'). (v # vs, off')) (dec_list n bs (off + k)))"

lemma dec_list_concat:
  "\<forall>v \<in> set vs. vdom v \<Longrightarrow>
   dec_list (length vs) (pre @ concat (map enc vs) @ rest) (length pre) =
     Some (vs, length pre + length (concat (map enc vs)))"
proof (induction vs arbitrary: pre)
  case (Cons v vs)
  have d: "dec (pre @ enc v @ concat (map enc vs) @ rest) (length pre) = Some (v, length (enc v))"
    using Cons.prems by (intro dec_enc) simp
  have "dec_list (length vs) ((pre @ enc v) @ concat (map enc vs) @ rest) (length (pre @ enc v)) =
      Some (vs, length (pre @ enc v) + length (concat (map enc vs)))"
    using Cons.prems by (intro Cons.IH) simp
  then show ?case using d by simp
qed simp

lemma enc_inject: "vdom v \<Longrightarrow> vdom w \<Longrightarrow> enc v = enc w \<Longrightarrow> v = w"
  using dec_enc [of v "[]" "[]"] dec_enc [of w "[]" "[]"] by simp

text \<open>No code word is a proper prefix of another: a reader never needs to look past the end.\<close>

lemma enc_prefix_free:
  assumes "vdom v" "vdom w" "enc w = enc v @ suf"
  shows "suf = []"
proof -
  have "dec (enc v @ suf) 0 = Some (v, length (enc v))"
    using dec_enc [OF assms(1), of "[]" suf] by simp
  moreover have "dec (enc w) 0 = Some (w, length (enc w))"
    using dec_enc [OF assms(2), of "[]" "[]"] by simp
  ultimately show ?thesis using assms(3) by simp
qed

end

section \<open>Runs and specifications\<close>

text \<open>
  Forward simulation for operations that may fault: every step of the program returns and is
  matched by a step of the specification. \<open>rel\<close> also counts the operations that are still allowed.
\<close>

primrec run_steps :: "('o \<Rightarrow> 's \<Rightarrow> ('r \<times> 's) cres) \<Rightarrow> 'o list \<Rightarrow> 's \<Rightarrow> ('r list \<times> 's) cres" where
  "run_steps step [] s = Ret ([], s)"
| "run_steps step (x # xs) s =
     cbind (step x s) (\<lambda>(r, s). cbind (run_steps step xs s) (\<lambda>(rs, s). Ret (r # rs, s)))"

fun spec_steps :: "('o \<Rightarrow> 'a \<Rightarrow> 'r \<Rightarrow> 'a \<Rightarrow> bool) \<Rightarrow> 'o list \<Rightarrow> 'a \<Rightarrow> 'r list \<Rightarrow> 'a \<Rightarrow> bool" where
  "spec_steps spec [] a rs a' \<longleftrightarrow> rs = [] \<and> a' = a"
| "spec_steps spec (x # xs) a rs a'' \<longleftrightarrow>
     (\<exists>r rs' a'. rs = r # rs' \<and> spec x a r a' \<and> spec_steps spec xs a' rs' a'')"

locale forward_simulation =
  fixes step :: "'o \<Rightarrow> 's \<Rightarrow> ('r \<times> 's) cres"
    and spec :: "'o \<Rightarrow> 'a \<Rightarrow> 'r \<Rightarrow> 'a \<Rightarrow> bool"
    and rel :: "nat \<Rightarrow> 's \<Rightarrow> 'a \<Rightarrow> bool"
    and allowed :: "'o \<Rightarrow> bool"
  assumes simulate: "rel (Suc n) s a \<Longrightarrow> allowed x \<Longrightarrow> \<exists>r s' a'. step x s = Ret (r, s') \<and> spec x a r a' \<and> rel n s' a'"
begin

lemma steps_simulate:
  "rel (length xs + n) s a \<Longrightarrow> list_all allowed xs \<Longrightarrow>
   \<exists>rs s' a'. run_steps step xs s = Ret (rs, s') \<and> spec_steps spec xs a rs a' \<and> rel n s' a'"
proof (induction xs arbitrary: s a)
  case (Cons x xs)
  obtain r s1 a1 where s: "step x s = Ret (r, s1)" "spec x a r a1" "rel (length xs + n) s1 a1"
    using simulate [of "length xs + n" s a x] Cons.prems by auto
  obtain rs s' a' where "run_steps step xs s1 = Ret (rs, s')" "spec_steps spec xs a1 rs a'" "rel n s' a'"
    using Cons.IH [OF s(3)] Cons.prems(2) by auto
  then show ?case using s(1,2) by (intro exI [of _ "r # rs"] exI [of _ s'] exI [of _ a']) auto
qed simp

end

end
