(* ===== verification/RK_Util.thy ===== *)
theory RK_Util
  imports C_Prelude
begin

unbundle bit_operations_syntax

text \<open>
  The byte-level readers of SQLiteRepairKit (\<^verbatim>\<open>sqliterk_util.c\<close>): big-endian integers of 1 to 8
  bytes, SQLite variable-length integers, doubles, and the names of the result codes.

  A data pointer is a \<open>byte list option\<close> (\<open>None\<close> is \<^verbatim>\<open>NULL\<close>); every read is bounded by the
  object, so a read past its end is \<open>Fault\<close>. Out-parameters are results, so the tests that
  they are not null have no counterpart. A \<^verbatim>\<open>double\<close> is its 64-bit pattern.
\<close>

section \<open>Result codes\<close>

abbreviation (input) SQLITERK_OK :: int where "SQLITERK_OK \<equiv> 0"
abbreviation (input) SQLITERK_CANTOPEN :: int where "SQLITERK_CANTOPEN \<equiv> 1"
abbreviation (input) SQLITERK_MISUSE :: int where "SQLITERK_MISUSE \<equiv> 2"
abbreviation (input) SQLITERK_IOERR :: int where "SQLITERK_IOERR \<equiv> 3"
abbreviation (input) SQLITERK_NOMEM :: int where "SQLITERK_NOMEM \<equiv> 4"
abbreviation (input) SQLITERK_SHORT_READ :: int where "SQLITERK_SHORT_READ \<equiv> 5"
abbreviation (input) SQLITERK_DAMAGED :: int where "SQLITERK_DAMAGED \<equiv> 6"
abbreviation (input) SQLITERK_DISCARD :: int where "SQLITERK_DISCARD \<equiv> 7"
abbreviation (input) SQLITERK_CANCELLED :: int where "SQLITERK_CANCELLED \<equiv> 8"

definition sqliterkGetResultCodeDescription :: "int \<Rightarrow> string" where
  "sqliterkGetResultCodeDescription result =
     (if result = SQLITERK_OK then ''SQLITERK_OK''
      else if result = SQLITERK_CANTOPEN then ''SQLITERK_CANTOPEN''
      else if result = SQLITERK_MISUSE then ''SQLITERK_MISUSE''
      else if result = SQLITERK_IOERR then ''SQLITERK_IOERR''
      else if result = SQLITERK_NOMEM then ''SQLITERK_NOMEM''
      else if result = SQLITERK_SHORT_READ then ''SQLITERK_SHORT_READ''
      else if result = SQLITERK_DAMAGED then ''SQLITERK_DAMAGED''
      else if result = SQLITERK_DISCARD then ''SQLITERK_DISCARD''
      else ''SQLITERK_UNKNOWN'')"

section \<open>Big-endian integers\<close>

text \<open>\<^verbatim>\<open>(int8_t) p[0]\<close> is \<open>sint\<close>, a promoted \<^verbatim>\<open>unsigned char\<close> is \<open>uint\<close>.\<close>

definition sqliterkParseInt64 :: "byte list option \<Rightarrow> int \<Rightarrow> int \<Rightarrow> int rcres" where
  "sqliterkParseInt64 data offset len =
     (case data of None \<Rightarrow> Ret (Inl SQLITERK_MISUSE)
      | Some d \<Rightarrow>
        let p = (\<lambda>i. rd d (offset + i)) in
        if len = 1 then cbind (p 0) (\<lambda>p0. Ret (Inr (sint p0)))
        else if len = 2 then
          cbind (p 0) (\<lambda>p0. cbind (p 1) (\<lambda>p1. Ret (Inr ((sint p0 * 256) OR uint p1))))
        else if len = 3 then
          cbind (p 0) (\<lambda>p0. cbind (p 1) (\<lambda>p1. cbind (p 2) (\<lambda>p2.
            Ret (Inr ((sint p0 * 65536) OR push_bit 8 (uint p1) OR uint p2)))))
        else if len = 4 then
          cbind (p 0) (\<lambda>p0. cbind (p 1) (\<lambda>p1. cbind (p 2) (\<lambda>p2. cbind (p 3) (\<lambda>p3.
            Ret (Inr ((sint p0 * 16777216) OR push_bit 16 (uint p1) OR push_bit 8 (uint p2)
                       OR uint p3))))))
        else if len = 6 then
          cbind (p 0) (\<lambda>p0. cbind (p 1) (\<lambda>p1. cbind (p 2) (\<lambda>p2. cbind (p 3) (\<lambda>p3.
          cbind (p 4) (\<lambda>p4. cbind (p 5) (\<lambda>p5.
            Ret (Inr (((sint p0 * 256) OR uint p1) * push_bit 32 1 +
                       (push_bit 24 (uint p2) OR push_bit 16 (uint p3) OR push_bit 8 (uint p4)
                        OR uint p5))))))))) 
        else if len = 8 then
          cbind (p 0) (\<lambda>p0. cbind (p 1) (\<lambda>p1. cbind (p 2) (\<lambda>p2. cbind (p 3) (\<lambda>p3.
          cbind (p 4) (\<lambda>p4. cbind (p 5) (\<lambda>p5. cbind (p 6) (\<lambda>p6. cbind (p 7) (\<lambda>p7.
            Ret (Inr (((sint p0 * 16777216) OR push_bit 16 (uint p1) OR push_bit 8 (uint p2)
                        OR uint p3) * push_bit 32 1 +
                       (push_bit 24 (uint p4) OR push_bit 16 (uint p5) OR push_bit 8 (uint p6)
                        OR uint p7)))))))))))
        else Ret (Inl SQLITERK_MISUSE))"

text \<open>\<^verbatim>\<open>length > sizeof(int)\<close> compares as \<^verbatim>\<open>size_t\<close>, so a negative length is refused too.\<close>

definition sqliterkParseInt :: "byte list option \<Rightarrow> int \<Rightarrow> int \<Rightarrow> int rcres" where
  "sqliterkParseInt data offset len =
     (if len > 4 \<or> len < 0 then Ret (Inl SQLITERK_MISUSE)
      else cbind (sqliterkParseInt64 data offset len) (\<lambda>r.
        case r of Inl rc \<Rightarrow> Ret (Inl rc) | Inr out \<Rightarrow> Ret (Inr (c_int out))))"

section \<open>Variable-length integers\<close>

definition sqliterkGetMaxVarintLength :: nat where
  "sqliterkGetMaxVarintLength = 9"

function parse_varint_loop :: "byte list \<Rightarrow> int \<Rightarrow> nat \<Rightarrow> int \<Rightarrow> (int \<times> int) rcres" where
  "parse_varint_loop d offset i out =
     cbind (rd d (offset + int i)) (\<lambda>b.
       if b AND 0x80 \<noteq> 0 \<and> i < sqliterkGetMaxVarintLength then
         (let out = push_bit 7 (out OR uint (b AND 0x7f)); i = Suc i in
          if i \<ge> sqliterkGetMaxVarintLength then Ret (Inl SQLITERK_DAMAGED)
          else parse_varint_loop d offset i out)
       else Ret (Inr (int i + 1, out OR uint b)))"
  by pat_completeness auto
termination
  by (relation "measure (\<lambda>(d, offset, i, out). 10 - i)")
     (auto simp: sqliterkGetMaxVarintLength_def)

declare parse_varint_loop.simps [simp del]

text \<open>The result is the pair of \<^verbatim>\<open>*length\<close> and \<^verbatim>\<open>*value\<close>.\<close>

definition sqliterkParseVarint64 :: "byte list option \<Rightarrow> int \<Rightarrow> (int \<times> int) rcres" where
  "sqliterkParseVarint64 data offset =
     (case data of None \<Rightarrow> Ret (Inl SQLITERK_MISUSE)
      | Some d \<Rightarrow> parse_varint_loop d offset 0 0)"

definition sqliterkParseVarint :: "byte list option \<Rightarrow> int \<Rightarrow> (int \<times> int) rcres" where
  "sqliterkParseVarint data offset =
     cbind (sqliterkParseVarint64 data offset) (\<lambda>r.
       case r of Inl rc \<Rightarrow> Ret (Inl rc) | Inr (len, out) \<Rightarrow> Ret (Inr (len, c_int out)))"

section \<open>Doubles\<close>

text \<open>
  The loop reverses the eight big-endian bytes into \<open>out\<close>; \<^verbatim>\<open>memcpy\<close> then reads \<open>out\<close> as a
  little-endian \<^verbatim>\<open>double\<close>, here its bit pattern.
\<close>

definition le_word64 :: "byte list \<Rightarrow> 64 word" where
  "le_word64 out = word_of_int (be_value (rev out))"

definition sqliterkParseNumber :: "byte list option \<Rightarrow> int \<Rightarrow> (64 word) rcres" where
  "sqliterkParseNumber data offset =
     (case data of None \<Rightarrow> Ret (Inl SQLITERK_MISUSE)
      | Some d \<Rightarrow> cbind (rd_bytes d offset 8) (\<lambda>begin8. Ret (Inr (le_word64 (rev begin8)))))"

section \<open>Values read\<close>

lemma be3: "push_bit 8 (uint (p1 :: byte)) OR uint (p2 :: byte) = be_value [p1, p2]"
  by (subst or_push) (simp_all add: be_value_def)
lemma be4: "push_bit 16 (uint (p1 :: byte)) OR push_bit 8 (uint p2) OR uint (p3 :: byte) = be_value [p1, p2, p3]"
  unfolding be3 using be_value_bounds[of "[p2, p3]"] by (subst or_push) (simp_all add: be_value_def)
lemma be5: "push_bit 24 (uint (p0 :: byte)) OR push_bit 16 (uint (p1 :: byte)) OR push_bit 8 (uint p2) OR uint (p3 :: byte) = be_value [p0, p1, p2, p3]"
  unfolding be4 using be_value_bounds[of "[p1, p2, p3]"] by (subst or_push) (simp_all add: be_value_def)

lemma s2: "(sint p0 * 256) OR uint p1 = sint p0 * 256 + be_value [p1]"
  using int_or_add[of "uint p1" 8 "sint p0"] by (simp add: be_value_def)
lemma s3: "(sint p0 * 65536) OR push_bit 8 (uint p1) OR uint p2 = sint p0 * 65536 + be_value [p1, p2]"
  unfolding be3 using be_value_bounds[of "[p1, p2]"] int_or_add[of "be_value [p1,p2]" 16 "sint p0"] by simp
lemma s4: "(sint p0 * 16777216) OR push_bit 16 (uint p1) OR push_bit 8 (uint p2) OR uint p3 = sint p0 * 16777216 + be_value [p1, p2, p3]"
  unfolding be4 using be_value_bounds[of "[p1, p2, p3]"] int_or_add[of "be_value [p1,p2,p3]" 24 "sint p0"] by simp

lemma parse_int64_value:
  assumes "len \<in> {1, 2, 3, 4, 6, 8}" "off + len \<le> length d"
  shows "sqliterkParseInt64 (Some d) (int off) (int len) =
    Ret (Inr (signed_take_bit (8 * len - 1) (be_value (take len (drop off d)))))"
proof -
  define q where "q i = d ! (off + i)" for i
  have r: "rd d (int off + int i) = Ret (q i)" if "i < len" for i
    using assms that by (simp add: rd_def q_def nat_add_distrib)
  have r': "rd d (int off) = Ret (q 0)" using r[of 0] assms by auto
  have t: "take len (drop off d) = map q [0..<len]"
    using assms by (intro nth_equalityI) (auto simp: q_def)
  from assms(1) consider "len = 1" | "len = 2" | "len = 3" | "len = 4" | "len = 6" | "len = 8" by auto
  then show ?thesis
  proof cases
    case 1 then show ?thesis using t r' sint_be[of "[]" 0 "q 0"] by (simp add: sqliterkParseInt64_def)
  next
    case 2
    then show ?thesis using t r' r[of 1] sint_be[of "[q 1]" 1 "q 0"]
      by (simp add: upt_conv_Cons numeral_2_eq_2 [symmetric] sqliterkParseInt64_def s2)
  next
    case 3
    then show ?thesis using t r' r[of 1] r[of 2] sint_be[of "[q 1, q 2]" 2 "q 0"]
      by (simp add: upt_conv_Cons numeral_2_eq_2 [symmetric] sqliterkParseInt64_def s3)
  next
    case 4
    then show ?thesis using t r' r[of 1] r[of 2] r[of 3] sint_be[of "[q 1, q 2, q 3]" 3 "q 0"]
      by (simp add: upt_conv_Cons numeral_2_eq_2 [symmetric] sqliterkParseInt64_def s4)
  next
    case 5
    then show ?thesis using t r' r[of 1] r[of 2] r[of 3] r[of 4] r[of 5] sint_be[of "[q 1, q 2, q 3, q 4, q 5]" 5 "q 0"]
      be_value_append[of "[q 1]" "[q 2, q 3, q 4, q 5]"]
      by (simp add: upt_conv_Cons numeral_2_eq_2 [symmetric] sqliterkParseInt64_def s2 be5 algebra_simps)
  next
    case 6
    then show ?thesis using t r' r[of 1] r[of 2] r[of 3] r[of 4] r[of 5] r[of 6] r[of 7]
      sint_be[of "[q 1, q 2, q 3, q 4, q 5, q 6, q 7]" 7 "q 0"]
      be_value_append[of "[q 1, q 2, q 3]" "[q 4, q 5, q 6, q 7]"]
      by (simp add: upt_conv_Cons numeral_2_eq_2 [symmetric] sqliterkParseInt64_def s4 be5 algebra_simps)
  qed
qed

end
