(* ===== verification/RK_Os.thy ===== *)
theory RK_Os
  imports RK_Util
begin

text \<open>
  The file layer of SQLiteRepairKit (\<^verbatim>\<open>sqliterk_os.c\<close>).

  An open file is its path, its descriptor and the bytes the operating system holds for it; the
  field \<^verbatim>\<open>error\<close> is only ever written and is left out. The system calls are parameters: \<open>fs\<close>
  answers \<^verbatim>\<open>open\<close> (descriptor and contents, or failure), a list of \<open>read_event\<close> says how each
  successive \<^verbatim>\<open>read\<close> behaves (a short count, an interruption, an error; afterwards full reads).
  Logging has no effect on the result and is not modelled.

  The interface \<open>file_reader\<close> is what the pager relies on; it is interpreted on
  \<^verbatim>\<open>sqliterkOSRead\<close> under any pattern of short and interrupted reads.
\<close>

record sqliterk_file =
  fpath :: "byte list option"
  fd :: int
  fdata :: "byte list"

datatype read_event = Short nat | Interrupted | Failed

section \<open>Open and close\<close>

text \<open>The result lists the descriptors passed to \<^verbatim>\<open>close\<close>.\<close>

definition sqliterkOSClose :: "sqliterk_file option \<Rightarrow> heap \<Rightarrow> int \<times> int list \<times> heap" where
  "sqliterkOSClose file h =
     (case file of None \<Rightarrow> (SQLITERK_MISUSE, [], h)
      | Some f \<Rightarrow>
        let h = (if fpath f \<noteq> None then c_free h else h);
            closed = (if fd f \<ge> 0 then [fd f] else [])
        in (SQLITERK_OK, closed, c_free h))"

text \<open>A path is a null-terminated byte string, given here without its terminator. \<^verbatim>\<open>calloc\<close> clears
  the new object, so its descriptor is 0 until \<^verbatim>\<open>open\<close> has run. On failure the partly built file
  goes through \<^verbatim>\<open>sqliterkOSClose\<close>.\<close>

definition sqliterkOSReadOnlyOpen ::
    "(byte list \<Rightarrow> (int \<times> byte list) option) \<Rightarrow> byte list option \<Rightarrow> heap \<Rightarrow>
     (int + sqliterk_file) \<times> int list \<times> heap" where
  "sqliterkOSReadOnlyOpen fs path h =
     (case path of None \<Rightarrow> (Inl SQLITERK_MISUSE, [], h)
      | Some p \<Rightarrow>
        if p = [] then (Inl SQLITERK_MISUSE, [], h)
        else let (ok, h) = c_alloc h in
        if \<not> ok then (Inl SQLITERK_NOMEM, [], h)
        else let theFile = \<lparr>fpath = None, fd = 0, fdata = []\<rparr>; (ok, h) = c_alloc h in
        if \<not> ok then (let (_, closed, h) = sqliterkOSClose (Some theFile) h in (Inl SQLITERK_NOMEM, closed, h))
        else let theFile = theFile\<lparr>fpath := Some p\<rparr>;
                 theFile = (case fs p of None \<Rightarrow> theFile\<lparr>fd := - 1\<rparr>
                            | Some (d, bytes) \<Rightarrow> theFile\<lparr>fd := d, fdata := bytes\<rparr>) in
        if fd theFile < 0 then
          (let (_, closed, h) = sqliterkOSClose (Some theFile) h in (Inl SQLITERK_CANTOPEN, closed, h))
        else (Inr theFile, [], h))"

section \<open>Read\<close>

text \<open>
  The \<^verbatim>\<open>do ... while (got > 0 && left > 0)\<close> loop at file position \<open>pos\<close>, with \<open>got\<close> bytes in \<open>acc\<close>.
  \<open>Short k\<close> delivers at most \<open>k + 1\<close> bytes (a \<^verbatim>\<open>read\<close> that returns 0 is the end of the file).
  The result is the code, the bytes stored in \<^verbatim>\<open>data\<close> and the count stored in \<^verbatim>\<open>*size\<close>; an error
  leaves \<^verbatim>\<open>*size\<close> unwritten.
\<close>

fun read_loop :: "byte list \<Rightarrow> nat \<Rightarrow> nat \<Rightarrow> byte list \<Rightarrow> read_event list \<Rightarrow> int \<times> byte list" where
  "read_loop bytes pos left acc [] =
     (let chunk = take left (drop pos bytes) in
      (if length chunk < left then SQLITERK_SHORT_READ else SQLITERK_OK, acc @ chunk))"
| "read_loop bytes pos left acc (Failed # es) = (SQLITERK_IOERR, acc)"
| "read_loop bytes pos left acc (Interrupted # es) =
     (if left > 0 then read_loop bytes pos left acc es else (SQLITERK_OK, acc))"
| "read_loop bytes pos left acc (Short k # es) =
     (let chunk = take (min left (Suc k)) (drop pos bytes); got = length chunk;
          left' = left - got; acc = acc @ chunk in
      if got > 0 \<and> left' > 0 then read_loop bytes (pos + got) left' acc es
      else (if left' > 0 then SQLITERK_SHORT_READ else SQLITERK_OK, acc))"

definition sqliterkOSRead ::
    "read_event list \<Rightarrow> sqliterk_file option \<Rightarrow> int \<Rightarrow> nat \<Rightarrow> int \<times> byte list" where
  "sqliterkOSRead es file offset n =
     (case file of None \<Rightarrow> (SQLITERK_MISUSE, [])
      | Some f \<Rightarrow>
        if fd f < 0 then (SQLITERK_MISUSE, [])
        else if offset < 0 then (SQLITERK_IOERR, [])
        else read_loop (fdata f) (nat offset) n [] es)"

text \<open>\<open>stat_ok\<close> says whether \<^verbatim>\<open>fstat\<close> succeeds on the descriptor.\<close>

definition sqliterkOSFileSize :: "(sqliterk_file \<Rightarrow> bool) \<Rightarrow> sqliterk_file option \<Rightarrow> int + nat" where
  "sqliterkOSFileSize stat_ok file =
     (case file of None \<Rightarrow> Inl SQLITERK_MISUSE
      | Some f \<Rightarrow>
        if fd f < 0 then Inl SQLITERK_MISUSE
        else if \<not> stat_ok f then Inl SQLITERK_IOERR
        else Inr (length (fdata f)))"

section \<open>What a reader sees\<close>

lemma read_loop_ok:
  "Failed \<notin> set es \<Longrightarrow> read_loop bytes pos left acc es =
     (if left \<le> length bytes - pos then SQLITERK_OK else SQLITERK_SHORT_READ,
      acc @ take left (drop pos bytes))"
proof (induction bytes pos left acc es rule: read_loop.induct)
  case (1 bytes pos left acc)
  show ?case by (simp add: Let_def min_def)
next
  case (4 bytes pos left acc k es)
  let ?chunk = "take (min left (Suc k)) (drop pos bytes)"
  let ?got = "length ?chunk"
  show ?case
  proof (cases "?got > 0 \<and> left - ?got > 0")
    case True
    then have g: "?got \<le> left" "?got \<le> length bytes - pos" by auto
    have "take left (drop pos bytes) = ?chunk @ take (left - ?got) (drop (pos + ?got) bytes)"
    proof -
      have "?chunk = take ?got (drop pos bytes)"
        by (rule take_length_take [symmetric])
      then show ?thesis using take_split [OF g(1), of "drop pos bytes"] by (simp add: add.commute)
    qed
    moreover have "left - ?got \<le> length bytes - (pos + ?got) \<longleftrightarrow> left \<le> length bytes - pos"
      using g True by linarith
    ultimately show ?thesis using 4 True by (simp add: Let_def)
  next
    case False
    consider "left = 0" | "0 < left" "length bytes \<le> pos" | "0 < left" "pos < length bytes" by linarith
    then show ?thesis
    proof cases
      case 3
      with False have "min left (Suc k) = left" "left \<le> length bytes - pos"
        by (auto simp: min_def split: if_splits)
      then show ?thesis by (simp add: Let_def)
    qed (simp_all add: Let_def)
  qed
qed auto

text \<open>The interface the pager uses: a read delivers the bytes of the file from the offset on, or says
  that the file ends too early.\<close>

locale file_reader =
  fixes osread :: "int \<Rightarrow> nat \<Rightarrow> int \<times> byte list"
    and contents :: "byte list"
  assumes read_full: "0 \<le> off \<Longrightarrow> off + int n \<le> int (length contents) \<Longrightarrow>
      osread off n = (SQLITERK_OK, take n (drop (nat off) contents))"
    and read_short: "0 \<le> off \<Longrightarrow> 0 < n \<Longrightarrow> off + int n > int (length contents) \<Longrightarrow>
      fst (osread off n) = SQLITERK_SHORT_READ"
    and read_before: "off < 0 \<Longrightarrow> fst (osread off n) = SQLITERK_IOERR"
begin

lemma read_ok_bytes:
  assumes "osread off n = (SQLITERK_OK, bs)" "0 < n"
  shows "bs = take n (drop (nat off) contents) \<and> length bs = n \<and> 0 \<le> off"
proof -
  have "0 \<le> off" using assms(1) read_before [of off n] by (cases "off < 0") auto
  moreover have "off + int n \<le> int (length contents)"
    using assms read_short [of off n] \<open>0 \<le> off\<close> by (cases "off + int n > int (length contents)") auto
  ultimately show ?thesis using assms(1) read_full [of off n] by auto
qed

lemma read_deterministic_prefix:
  "0 \<le> off \<Longrightarrow> m \<le> n \<Longrightarrow> osread off n = (SQLITERK_OK, bs) \<Longrightarrow> 0 < n \<Longrightarrow>
     osread off m = (SQLITERK_OK, take m bs)"
  using read_ok_bytes [of off n bs] read_full [of off m] read_short [of off n]
  by (cases "off + int n > int (length contents)") auto

end

lemma os_read_ok:
  "0 \<le> fd f \<Longrightarrow> Failed \<notin> set es \<Longrightarrow> 0 \<le> off \<Longrightarrow>
   sqliterkOSRead es (Some f) off n =
     (if n \<le> length (fdata f) - nat off then SQLITERK_OK else SQLITERK_SHORT_READ,
      take n (drop (nat off) (fdata f)))"
  by (simp add: sqliterkOSRead_def read_loop_ok)

text \<open>Interpretation on the model: a descriptor that is open and a disk without hard errors, with
  whatever short and interrupted reads each call meets.\<close>

definition os_reader :: "(int \<Rightarrow> nat \<Rightarrow> read_event list) \<Rightarrow> byte list \<Rightarrow> int \<Rightarrow> nat \<Rightarrow> int \<times> byte list" where
  "os_reader script bytes off n =
     sqliterkOSRead (filter (\<lambda>e. e \<noteq> Failed) (script off n)) (Some \<lparr>fpath = None, fd = 0, fdata = bytes\<rparr>) off n"

interpretation os_file: file_reader "os_reader script bytes" bytes for script bytes
proof unfold_locales
  fix off :: int and n :: nat
  show "0 \<le> off \<Longrightarrow> off + int n \<le> int (length bytes) \<Longrightarrow>
      os_reader script bytes off n = (SQLITERK_OK, take n (drop (nat off) bytes))"
    unfolding os_reader_def by (subst os_read_ok) auto
  show "0 \<le> off \<Longrightarrow> 0 < n \<Longrightarrow> off + int n > int (length bytes) \<Longrightarrow>
      fst (os_reader script bytes off n) = SQLITERK_SHORT_READ"
    unfolding os_reader_def by (subst os_read_ok) auto
  show "off < 0 \<Longrightarrow> fst (os_reader script bytes off n) = SQLITERK_IOERR"
    by (simp add: os_reader_def sqliterkOSRead_def)
qed

section \<open>Properties\<close>

text \<open>C24: \<^verbatim>\<open>sqliterkOSRead\<close> delivers exactly the requested range of the file, however the system
  splits or interrupts the reads, and reports \<^verbatim>\<open>SQLITERK_SHORT_READ\<close> precisely when the file ends
  before the range does, with the bytes there were.\<close>

theorem os_read_exact:
  "0 \<le> fd f \<Longrightarrow> Failed \<notin> set es \<Longrightarrow> 0 \<le> off \<Longrightarrow>
   sqliterkOSRead es (Some f) off n =
     (if n \<le> length (fdata f) - nat off then SQLITERK_OK else SQLITERK_SHORT_READ,
      take n (drop (nat off) (fdata f)))"
  by (rule os_read_ok)

theorem os_read_exact_witness:
  "sqliterkOSRead [Short 0, Interrupted, Short 1] (Some \<lparr>fpath = Some [1], fd = 3, fdata = [10, 20, 30, 40, 50]\<rparr>) 1 3 =
     (SQLITERK_OK, [20, 30, 40])"
  using os_read_exact [of "\<lparr>fpath = Some [1], fd = 3, fdata = [10, 20, 30, 40, 50]\<rparr>" "[Short 0, Interrupted, Short 1]" 1 3]
  by (simp add: numeral_eq_Suc)

text \<open>Opening is all or nothing in memory: whatever fails, the blocks obtained are given back, and
  on success exactly the file object and its path remain.\<close>

theorem os_open_balanced:
  "sqliterkOSReadOnlyOpen fs path h = (r, closed, h') \<Longrightarrow>
   live h' = live h + (case r of Inl _ \<Rightarrow> 0 | Inr _ \<Rightarrow> 2)"
  by (auto simp: sqliterkOSReadOnlyOpen_def sqliterkOSClose_def Let_def dest!: c_alloc_live
      split: option.splits prod.splits if_splits)

theorem os_open_balanced_witness:
  "\<exists>r closed h'. sqliterkOSReadOnlyOpen (\<lambda>_. Some (5, [1, 2])) (Some [47]) \<lparr>outcomes = [], live = 1\<rparr> = (r, closed, h') \<and>
     live h' = 3"
proof -
  let ?f = "\<lparr>fpath = Some [47], fd = 5, fdata = [1, 2]\<rparr>"
  have o: "sqliterkOSReadOnlyOpen (\<lambda>_. Some (5, [1, 2])) (Some [47]) \<lparr>outcomes = [], live = 1\<rparr> =
      (Inr ?f, [], \<lparr>outcomes = [], live = 3\<rparr>)"
    by (simp add: sqliterkOSReadOnlyOpen_def c_alloc_def)
  from os_open_balanced [OF o] o show ?thesis by simp
qed

text \<open>When memory for the path runs out, the error path closes descriptor 0, which this code
  never opened: the descriptor field is still the zero that \<^verbatim>\<open>calloc\<close> left there.\<close>

theorem os_open_nomem_closes_fd0:
  "p \<noteq> [] \<Longrightarrow> outcomes h = [True, False] \<Longrightarrow>
   fst (sqliterkOSReadOnlyOpen fs (Some p) h) = Inl SQLITERK_NOMEM \<and>
   fst (snd (sqliterkOSReadOnlyOpen fs (Some p) h)) = [0]"
  by (simp add: sqliterkOSReadOnlyOpen_def sqliterkOSClose_def c_alloc_def)

theorem os_open_nomem_closes_fd0_witness:
  "fst (snd (sqliterkOSReadOnlyOpen (\<lambda>_. None) (Some [47]) \<lparr>outcomes = [True, False], live = 0\<rparr>)) = [0]"
  using os_open_nomem_closes_fd0 [of "[47]" "\<lparr>outcomes = [True, False], live = 0\<rparr>" "\<lambda>_. None"] by simp

end
