(* ===== verification/RK_Crypto.thy ===== *)
theory RK_Crypto
  imports RK_Os
begin

text \<open>
  The pager object (\<^verbatim>\<open>struct sqliterk_pager\<close> of \<^verbatim>\<open>sqliterk_pager.h\<close>) and the cipher layer over it
  (\<^verbatim>\<open>sqliterk_crypto.c\<close>).

  The SQLCipher library the layer calls is a parameter, the record \<open>cipher_lib\<close> with one field per
  library function; a codec is a value of the type \<open>'c\<close>. \<open>act\<close> counts \<^verbatim>\<open>sqlcipher_activate\<close>
  minus \<^verbatim>\<open>sqlcipher_deactivate\<close>.
\<close>

section \<open>Data\<close>

datatype status = st_invalid | st_unchecked | st_checking | st_damaged | st_discarded | st_checked

record 'c sqliterk_pager =
  pfile :: "sqliterk_file option"
  pagesStatus :: "status list option"
  pagesize :: int
  freepagecount :: int
  reservedBytes :: int
  pagecount :: int
  usableSize :: int
  integrity :: "32 word"
  codec :: "'c option"

record sqliterk_cipher_conf =
  ckey :: "byte list option"
  key_len :: int
  cipher_name :: "byte list option"
  page_size :: int
  kdf_iter :: int
  use_hmac :: int
  kdf_salt :: "byte list option"

record 'c cipher_lib =
  lib_ctx_init :: "(int \<Rightarrow> int \<Rightarrow> int \<times> byte list) \<Rightarrow> byte list \<Rightarrow> int + 'c"
  lib_set_cipher :: "'c \<Rightarrow> byte list \<Rightarrow> int \<times> 'c"
  lib_set_pagesize :: "'c \<Rightarrow> int \<Rightarrow> int \<times> 'c"
  lib_set_use_hmac :: "'c \<Rightarrow> int \<Rightarrow> int \<times> 'c"
  lib_set_kdf_iter :: "'c \<Rightarrow> int \<Rightarrow> int \<times> 'c"
  lib_get_pagesize :: "'c \<Rightarrow> int"
  lib_get_reservesize :: "'c \<Rightarrow> int"
  lib_key_derive :: "'c \<Rightarrow> int"
  lib_page_decrypt :: "'c \<Rightarrow> int \<Rightarrow> byte list \<Rightarrow> int \<times> byte list"

text \<open>The environment of a run: \<^verbatim>\<open>open\<close>, the behaviour of \<^verbatim>\<open>read\<close> per call, \<^verbatim>\<open>fstat\<close>, the cipher library.\<close>

record 'c rk_env =
  env_fs :: "byte list \<Rightarrow> (int \<times> byte list) option"
  env_script :: "int \<Rightarrow> nat \<Rightarrow> read_event list"
  env_stat :: "sqliterk_file \<Rightarrow> bool"
  env_lib :: "'c cipher_lib"

definition os_read :: "'c rk_env \<Rightarrow> sqliterk_file option \<Rightarrow> int \<Rightarrow> nat \<Rightarrow> int \<times> byte list" where
  "os_read env f off n = sqliterkOSRead (env_script env off n) f off n"

section \<open>Cipher contexts\<close>

text \<open>The redirected \<^verbatim>\<open>xRead\<close> that hands the library the configured salt, or the file.\<close>

definition sqliterkRead ::
    "'c rk_env \<Rightarrow> sqliterk_file option \<Rightarrow> byte list option \<Rightarrow> int \<Rightarrow> int \<Rightarrow> int \<times> byte list" where
  "sqliterkRead env f salt iAmt iOfst =
     (case salt of
        Some s \<Rightarrow> (0, take (nat (if iAmt > 16 then 16 else iAmt)) s)
      | None \<Rightarrow> os_read env f iOfst (nat iAmt))"

text \<open>One optional setting: \<^verbatim>\<open>if (cond) { rc = set(codec, ...); if (rc != SQLITE_OK) goto bail; }\<close>\<close>

definition setting :: "bool \<Rightarrow> ('c \<Rightarrow> int \<times> 'c) \<Rightarrow> (int \<Rightarrow> int) \<Rightarrow> int + 'c \<Rightarrow> int + 'c" where
  "setting cond setf err r =
     (case r of Inl rc \<Rightarrow> Inl rc
      | Inr c \<Rightarrow> if cond then (let (rc, c) = setf c in if rc \<noteq> 0 then Inl (err rc) else Inr c) else Inr c)"

definition make_codec :: "'c rk_env \<Rightarrow> sqliterk_file option \<Rightarrow> sqliterk_cipher_conf \<Rightarrow> byte list \<Rightarrow> int + 'c" where
  "make_codec env f conf key =
     (let lib = env_lib env;
          r = (case lib_ctx_init lib (sqliterkRead env f (kdf_salt conf)) (take (nat (key_len conf)) key) of
                 Inl _ \<Rightarrow> Inl SQLITERK_CANTOPEN | Inr c \<Rightarrow> Inr c);
          r = setting (cipher_name conf \<noteq> None) (\<lambda>c. lib_set_cipher lib c (the (cipher_name conf)))
                (\<lambda>_. SQLITERK_CANTOPEN) r;
          r = setting (page_size conf > 0) (\<lambda>c. lib_set_pagesize lib c (page_size conf))
                (\<lambda>_. SQLITERK_CANTOPEN) r;
          r = setting (use_hmac conf \<ge> 0) (\<lambda>c. lib_set_use_hmac lib c (use_hmac conf))
                (\<lambda>_. SQLITERK_CANTOPEN) r
      in setting (kdf_iter conf > 0) (\<lambda>c. lib_set_kdf_iter lib c (kdf_iter conf)) (\<lambda>rc. rc) r)"

definition install_codec :: "'c option \<Rightarrow> 'c sqliterk_pager \<Rightarrow> int \<Rightarrow> int \<times> 'c sqliterk_pager \<times> int" where
  "install_codec c pager act =
     (SQLITERK_OK, pager\<lparr>codec := c\<rparr>, (if codec pager \<noteq> None then act - 1 else act))"

definition sqliterkCryptoSetCipher ::
    "'c rk_env \<Rightarrow> 'c sqliterk_pager \<Rightarrow> sqliterk_file option \<Rightarrow> sqliterk_cipher_conf option \<Rightarrow> int \<Rightarrow>
     int \<times> 'c sqliterk_pager \<times> int" where
  "sqliterkCryptoSetCipher env pager f conf act =
     (case conf of None \<Rightarrow> install_codec None pager act
      | Some conf \<Rightarrow>
        (case ckey conf of None \<Rightarrow> (SQLITERK_MISUSE, pager, act)
         | Some key \<Rightarrow>
           if key_len conf \<le> 0 then (SQLITERK_MISUSE, pager, act)
           else let act = act + 1 in
             (case make_codec env f conf key of
                Inl rc \<Rightarrow> (rc, pager, act - 1)
              | Inr c \<Rightarrow>
                let pager = pager\<lparr>pagesize := lib_get_pagesize (env_lib env) c,
                                  reservedBytes := lib_get_reservesize (env_lib env) c\<rparr>
                in install_codec (Some c) pager act)))"

definition sqliterkCryptoFreeCodec :: "'c sqliterk_pager \<Rightarrow> int \<Rightarrow> 'c sqliterk_pager \<times> int" where
  "sqliterkCryptoFreeCodec pager act =
     (case codec pager of None \<Rightarrow> (pager, act) | Some _ \<Rightarrow> (pager\<lparr>codec := None\<rparr>, act - 1))"

section \<open>Decoding a page\<close>

text \<open>The sixteen bytes \<^verbatim>\<open>SQLite format 3\<close> with the terminating null.\<close>

definition sqlite_magic :: "byte list" where
  "sqlite_magic = [0x53, 0x51, 0x4c, 0x69, 0x74, 0x65, 0x20, 0x66, 0x6f, 0x72, 0x6d, 0x61, 0x74, 0x20, 0x33, 0x00]"

text \<open>The result is the code and the page as it is afterwards; a failure of the library is returned as
  the library's own code.\<close>

definition sqliterkCryptoDecode ::
    "'c rk_env \<Rightarrow> 'c \<Rightarrow> int \<Rightarrow> byte list \<Rightarrow> (int \<times> byte list) cres" where
  "sqliterkCryptoDecode env c pgno data =
     (let lib = env_lib env; page_sz = lib_get_pagesize lib c; rc = lib_key_derive lib c in
      if rc \<noteq> 0 then Ret (rc, data)
      else let offset = (if pgno = 1 then 16 else 0); prefix = (if pgno = 1 then sqlite_magic else []) in
        cbind (rd_bytes data offset (page_sz - offset)) (\<lambda>inp.
          let (rc, out) = lib_page_decrypt lib c pgno inp in
          if rc \<noteq> 0 then Ret (rc, data)
          else cbind (wr_bytes data 0 (prefix @ out)) (\<lambda>data. Ret (SQLITERK_OK, data))))"

section \<open>Properties\<close>

definition codec_count :: "'c sqliterk_pager \<Rightarrow> int" where
  "codec_count pager = (if codec pager = None then 0 else 1)"

lemma set_cipher_balanced:
  "sqliterkCryptoSetCipher env pager f conf act = (rc, pager', act') \<Longrightarrow>
   act' - act = codec_count pager' - codec_count pager \<and> (rc \<noteq> SQLITERK_OK \<longrightarrow> pager' = pager) \<and>
   pfile pager' = pfile pager \<and> pagesStatus pager' = pagesStatus pager"
  by (auto simp: sqliterkCryptoSetCipher_def install_codec_def codec_count_def Let_def
      split: option.splits if_splits sum.splits)

text \<open>Activations of the cipher library are balanced: after \<^verbatim>\<open>sqliterkCryptoSetCipher\<close>, whether it
  succeeds or fails, the number of activations has changed by exactly the change in the number of
  codecs the pager holds; a failure leaves the pager as it was.\<close>

theorem crypto_activation_balanced:
  "sqliterkCryptoSetCipher env pager f conf act = (rc, pager', act') \<Longrightarrow>
   act' - act = codec_count pager' - codec_count pager \<and> (rc \<noteq> SQLITERK_OK \<longrightarrow> pager' = pager)"
  using set_cipher_balanced by blast

definition sample_lib :: "unit cipher_lib" where
  "sample_lib = \<lparr>lib_ctx_init = (\<lambda>_ _. Inr ()), lib_set_cipher = (\<lambda>c _. (0, c)),
     lib_set_pagesize = (\<lambda>c _. (0, c)), lib_set_use_hmac = (\<lambda>c _. (0, c)),
     lib_set_kdf_iter = (\<lambda>c _. (0, c)), lib_get_pagesize = (\<lambda>_. 1024),
     lib_get_reservesize = (\<lambda>_. 48), lib_key_derive = (\<lambda>_. 0),
     lib_page_decrypt = (\<lambda>_ _ bs. (0, map (\<lambda>b. b + 1) bs))\<rparr>"

definition sample_env :: "unit rk_env" where
  "sample_env = \<lparr>env_fs = (\<lambda>_. None), env_script = (\<lambda>_ _. []), env_stat = (\<lambda>_. True), env_lib = sample_lib\<rparr>"

definition zero_pager :: "'c sqliterk_pager" where
  "zero_pager = \<lparr>pfile = None, pagesStatus = None, pagesize = 0, freepagecount = 0, reservedBytes = 0,
     pagecount = 0, usableSize = 0, integrity = 0, codec = None\<rparr>"

theorem crypto_activation_balanced_witness:
  "\<exists>rc pager' act'. sqliterkCryptoSetCipher sample_env zero_pager None
     (Some \<lparr>ckey = Some [1], key_len = 1, cipher_name = None, page_size = 1024, kdf_iter = 0, use_hmac = 0,
       kdf_salt = None\<rparr>) 0 = (rc, pager', act') \<and> act' = codec_count pager' \<and> codec pager' = Some ()"
proof -
  let ?conf = "Some \<lparr>ckey = Some [1], key_len = 1, cipher_name = None, page_size = 1024, kdf_iter = 0,
    use_hmac = 0, kdf_salt = None\<rparr>"
  let ?p = "zero_pager\<lparr>pagesize := 1024, reservedBytes := 48, codec := Some ()\<rparr>"
  have s: "sqliterkCryptoSetCipher sample_env zero_pager None ?conf 0 = (0, ?p, 1)"
    by (simp add: sqliterkCryptoSetCipher_def make_codec_def setting_def install_codec_def sample_env_def
        sample_lib_def zero_pager_def)
  from crypto_activation_balanced [OF s] s show ?thesis by (simp add: codec_count_def zero_pager_def)
qed

text \<open>Decoding keeps the size of the page, and page 1 always comes out with the SQLite magic
  string in front, when the library returns as many bytes as it is given.\<close>

theorem crypto_decode_shape:
  assumes "sqliterkCryptoDecode env c pgno data = Ret (SQLITERK_OK, data')"
    and "\<And>inp rc out. lib_page_decrypt (env_lib env) c pgno inp = (rc, out) \<Longrightarrow> length out = length inp"
    and "pgno = 1"
  shows "length data' = length data \<and> take 16 data' = sqlite_magic"
proof -
  let ?n = "lib_get_pagesize (env_lib env) c"
  obtain inp out where i: "rd_bytes data 16 (?n - 16) = Ret inp"
    and o: "lib_page_decrypt (env_lib env) c pgno inp = (0, out)"
    and w: "wr_bytes data 0 (sqlite_magic @ out) = Ret data'"
    using assms(1,3)
    by (auto simp: sqliterkCryptoDecode_def Let_def elim!: cbind_RetE split: if_split_asm prod.split_asm)
  have "length sqlite_magic = 16" by (simp add: sqlite_magic_def)
  then show ?thesis using w wr_bytes_length [OF w] by (auto simp: cres_simps)
qed

theorem crypto_decode_shape_witness:
  "\<exists>data'. sqliterkCryptoDecode sample_env () 1 (replicate 1024 0) = Ret (SQLITERK_OK, data') \<and>
     take 16 data' = sqlite_magic"
proof -
  obtain data' where d: "sqliterkCryptoDecode sample_env () 1 (replicate 1024 0) = Ret (SQLITERK_OK, data')"
    by (simp add: sqliterkCryptoDecode_def sample_env_def sample_lib_def rd_bytes_def wr_bytes_def sqlite_magic_def)
  have "take 16 data' = sqlite_magic"
    using crypto_decode_shape [OF d] by (simp add: sample_env_def sample_lib_def)
  then show ?thesis using d by blast
qed

end
