(* ===== verification/RK_Pager.thy ===== *)
theory RK_Pager
  imports RK_Crypto
begin

unbundle bit_operations_syntax

text \<open>
  The pager of SQLiteRepairKit (\<^verbatim>\<open>sqliterk_pager.c\<close>): the database header, the pages and the status
  the repair keeps for each page.

  A \<^verbatim>\<open>sqliterk_pager *\<close> or \<^verbatim>\<open>sqliterk_page *\<close> that the code compares with \<^verbatim>\<open>NULL\<close> is an \<open>option\<close>. An
  \<^verbatim>\<open>int\<close> computation that leaves the range of \<^verbatim>\<open>int\<close> is \<open>Fault\<close>; the page count, computed in
  \<^verbatim>\<open>size_t\<close>, wraps. \<^verbatim>\<open>sqliterkOSMalloc\<close> of a size that was negative before its conversion to
  \<^verbatim>\<open>size_t\<close> fails.

  The section on the header shows what a successfully opened plain database guarantees; the section
  on pages shows that a page acquired is the page of the file; the section on the status gives the
  laws of the status map.
\<close>

section \<open>Data\<close>

datatype page_type = interior_index | interior_table | leaf_index | leaf_table | overflow | unknown

record sqliterk_page =
  pageno :: int
  pdata :: "byte list option"
  ptype :: page_type

abbreviation (input) INTEGRITY_HEADER :: "32 word" where "INTEGRITY_HEADER \<equiv> 1"
abbreviation (input) INTEGRITY_DATA :: "32 word" where "INTEGRITY_DATA \<equiv> 2"
abbreviation (input) INTEGRITY_KDF_SALT :: "32 word" where "INTEGRITY_KDF_SALT \<equiv> 4"
abbreviation (input) DEFAULT_PAGESIZE :: int where "DEFAULT_PAGESIZE \<equiv> 4096"

definition page_type_of :: "int \<Rightarrow> page_type" where
  "page_type_of t = (if t = 2 then interior_index else if t = 5 then interior_table
     else if t = 10 then leaf_index else if t = 13 then leaf_table else unknown)"

text \<open>Arithmetic in \<^verbatim>\<open>int\<close>, and the allocation of a size that may have been negative.\<close>

definition c_arith :: "int \<Rightarrow> int cres" where
  "c_arith x = (if - (2 ^ 31) \<le> x \<and> x < 2 ^ 31 then Ret x else Fault)"

definition os_malloc :: "int \<Rightarrow> heap \<Rightarrow> bool \<times> heap" where
  "os_malloc n h = (if n < 0 then (False, h) else c_alloc h)"

text \<open>The value of an out-parameter that the caller reads without testing the result code.\<close>

definition need :: "'a rcres \<Rightarrow> 'a cres" where
  "need r = cbind r (\<lambda>x. case x of Inl _ \<Rightarrow> Fault | Inr v \<Rightarrow> Ret v)"

section \<open>The database header\<close>

definition clear_header :: "'c sqliterk_pager \<Rightarrow> 'c sqliterk_pager" where
  "clear_header p = p\<lparr>integrity := integrity p AND NOT INTEGRITY_HEADER\<rparr>"

definition header_pagesize :: "int \<Rightarrow> int \<Rightarrow> 'c sqliterk_pager \<Rightarrow> 'c sqliterk_pager" where
  "header_pagesize forcePageSize psz p =
     (if codec p \<noteq> None \<or> forcePageSize \<noteq> 0 then (if psz \<noteq> pagesize p then clear_header p else p)
      else if (psz - 1) AND psz \<noteq> 0 \<or> psz < 512 then clear_header (p\<lparr>pagesize := DEFAULT_PAGESIZE\<rparr>)
      else p\<lparr>pagesize := psz\<rparr>)"

definition header_reserved :: "int \<Rightarrow> 'c sqliterk_pager \<Rightarrow> 'c sqliterk_pager" where
  "header_reserved rb p =
     (if codec p \<noteq> None then (if rb \<noteq> reservedBytes p then clear_header p else p)
      else if rb < 0 \<or> rb > 255 then clear_header (p\<lparr>reservedBytes := 0\<rparr>)
      else p\<lparr>reservedBytes := rb\<rparr>)"

definition header_fields :: "int \<Rightarrow> byte list \<Rightarrow> 'c sqliterk_pager \<Rightarrow> 'c sqliterk_pager cres" where
  "header_fields forcePageSize buffer p =
     (if integrity p AND INTEGRITY_HEADER = 0 then Ret p
      else cbind (rd_bytes buffer 0 16) (\<lambda>magic.
        if magic = sqlite_magic then
          cbind (need (sqliterkParseInt (Some buffer) 16 2)) (\<lambda>psz.
          let p = header_pagesize forcePageSize psz p in
          cbind (need (sqliterkParseInt (Some buffer) 36 4)) (\<lambda>fpc.
          let p = p\<lparr>freepagecount := fpc\<rparr> in
          cbind (need (sqliterkParseInt (Some buffer) 20 1)) (\<lambda>rb.
          Ret (header_reserved rb p))))
        else
          let p = (if codec p = None then p\<lparr>pagesize := DEFAULT_PAGESIZE, reservedBytes := 0\<rparr> else p);
              p = p\<lparr>freepagecount := 0\<rparr>
          in Ret (clear_header p)))"

text \<open>The tail of the function: page count, free pages, usable size.\<close>

definition header_free :: "'c sqliterk_pager \<Rightarrow> 'c sqliterk_pager" where
  "header_free p = (if freepagecount p < 0 \<or> freepagecount p > pagecount p
     then clear_header (p\<lparr>freepagecount := 0\<rparr>) else p)"

definition header_counts :: "'c rk_env \<Rightarrow> 'c sqliterk_pager \<Rightarrow> (int \<times> 'c sqliterk_pager) cres" where
  "header_counts env p =
     (case sqliterkOSFileSize (env_stat env) (pfile p) of Inl rc \<Rightarrow> Ret (rc, p)
      | Inr filesize \<Rightarrow>
        let psz = pagesize p mod 2 ^ 64 in
        if psz = 0 then Fault
        else let count = c_int (((int filesize + psz - 1) mod 2 ^ 64) div psz);
                 p = p\<lparr>pagecount := count\<rparr> in
        if count < 1 then Ret (SQLITERK_DAMAGED, p)
        else let p = header_free p in
        cbind (c_arith (pagesize p - reservedBytes p)) (\<lambda>u.
          Ret (SQLITERK_OK, p\<lparr>usableSize := u\<rparr>)))"

definition header_decode :: "'c rk_env \<Rightarrow> byte list \<Rightarrow> 'c sqliterk_pager \<Rightarrow> ('c sqliterk_pager \<times> byte list) cres" where
  "header_decode env buffer p =
     (case codec p of None \<Rightarrow> Ret (p, buffer)
      | Some c \<Rightarrow> cbind (sqliterkCryptoDecode env c 1 buffer) (\<lambda>(rc, buffer).
          Ret (if rc \<noteq> SQLITERK_OK then clear_header p else p, buffer)))"

definition force_pagesize :: "int \<Rightarrow> 'c sqliterk_pager \<Rightarrow> 'c sqliterk_pager" where
  "force_pagesize forcePageSize p = (if forcePageSize \<noteq> 0 then p\<lparr>pagesize := forcePageSize\<rparr> else p)"

text \<open>The buffer is freed on every path.\<close>

definition sqliterkPagerParseHeader ::
    "'c rk_env \<Rightarrow> 'c sqliterk_pager \<Rightarrow> int \<Rightarrow> heap \<Rightarrow> (int \<times> 'c sqliterk_pager \<times> heap) cres" where
  "sqliterkPagerParseHeader env p forcePageSize h =
     (let p = force_pagesize forcePageSize p;
          n = (if codec p \<noteq> None then pagesize p else 100);
          (ok, h) = os_malloc n h in
      if \<not> ok then Ret (SQLITERK_NOMEM, p, h)
      else let (rc, buffer) = os_read env (pfile p) 0 (nat n) in
      if rc \<noteq> SQLITERK_OK then Ret (rc, clear_header p, c_free h)
      else let p = p\<lparr>integrity := integrity p OR INTEGRITY_HEADER\<rparr> in
      cbind (header_decode env buffer p) (\<lambda>(p, buffer).
      cbind (header_fields forcePageSize buffer p) (\<lambda>p.
      cbind (header_counts env p) (\<lambda>(rc, p). Ret (rc, p, c_free h)))))"

section \<open>Open and close\<close>

text \<open>The result lists the descriptors passed to \<^verbatim>\<open>close\<close>; \<open>act\<close> counts cipher activations.\<close>

definition sqliterkPagerClose ::
    "'c sqliterk_pager option \<Rightarrow> int \<Rightarrow> heap \<Rightarrow> int \<times> int list \<times> int \<times> heap" where
  "sqliterkPagerClose pager act h =
     (case pager of None \<Rightarrow> (SQLITERK_MISUSE, [], act, h)
      | Some p \<Rightarrow>
        let (rc, closed, h) = (if pfile p \<noteq> None then sqliterkOSClose (pfile p) h else (SQLITERK_OK, [], h));
            h = (if pagesStatus p \<noteq> None then c_free h else h);
            (_, act) = sqliterkCryptoFreeCodec p act
        in (rc, closed, act, c_free h))"

definition pager_open_failed ::
    "int \<Rightarrow> 'c sqliterk_pager \<Rightarrow> int list \<Rightarrow> int \<Rightarrow> heap \<Rightarrow> (int + 'c sqliterk_pager) \<times> int list \<times> int \<times> heap" where
  "pager_open_failed rc p closed act h =
     (let (_, closed', act, h) = sqliterkPagerClose (Some p) act h in (Inl rc, closed @ closed', act, h))"

text \<open>The encrypted branch: the salt of the file first, then the configured one. The result code of
  the first parse of the header is dropped, as in the code.\<close>

definition open_encrypted ::
    "'c rk_env \<Rightarrow> sqliterk_cipher_conf \<Rightarrow> 'c sqliterk_pager \<Rightarrow> int \<Rightarrow> heap \<Rightarrow>
     (int \<times> 'c sqliterk_pager \<times> int \<times> heap) cres" where
  "open_encrypted env cipher p act h =
     (let (rc, p, act) = sqliterkCryptoSetCipher env p (pfile p) (Some (cipher\<lparr>kdf_salt := None\<rparr>)) act in
      if rc \<noteq> SQLITERK_OK then Ret (rc, p, act, h)
      else cbind (sqliterkPagerParseHeader env p 0 h) (\<lambda>(_, p, h).
        if integrity p AND INTEGRITY_HEADER \<noteq> 0 then
          Ret (SQLITERK_OK, p\<lparr>integrity := integrity p OR INTEGRITY_KDF_SALT\<rparr>, act, h)
        else if kdf_salt cipher \<noteq> None then
          (let (rc, p, act) = sqliterkCryptoSetCipher env p (pfile p) (Some cipher) act in
           if rc \<noteq> SQLITERK_OK then Ret (rc, p, act, h)
           else cbind (sqliterkPagerParseHeader env p 0 h) (\<lambda>(rc, p, h). Ret (rc, p, act, h)))
        else Ret (SQLITERK_OK, p, act, h)))"

definition mark_salt :: "'c sqliterk_pager \<Rightarrow> 'c sqliterk_pager" where
  "mark_salt p = (if integrity p AND INTEGRITY_HEADER \<noteq> 0
     then p\<lparr>integrity := integrity p OR INTEGRITY_KDF_SALT\<rparr> else p)"

definition open_plain ::
    "'c rk_env \<Rightarrow> int \<Rightarrow> 'c sqliterk_pager \<Rightarrow> int \<Rightarrow> heap \<Rightarrow> (int \<times> 'c sqliterk_pager \<times> int \<times> heap) cres" where
  "open_plain env forcePageSize p act h =
     cbind (sqliterkPagerParseHeader env p forcePageSize h) (\<lambda>(rc, p, h).
       if rc \<noteq> SQLITERK_OK then Ret (rc, p, act, h)
       else Ret (SQLITERK_OK, mark_salt p, act, h))"

definition sqliterkPagerOpen ::
    "'c rk_env \<Rightarrow> byte list option \<Rightarrow> sqliterk_cipher_conf option \<Rightarrow> int \<Rightarrow> heap \<Rightarrow>
     ((int + 'c sqliterk_pager) \<times> int list \<times> int \<times> heap) cres" where
  "sqliterkPagerOpen env path cipher act h =
     (let (forcePageSize, cipher) =
            (case cipher of None \<Rightarrow> (0, None)
             | Some c \<Rightarrow> if ckey c = None then (page_size c, None) else (0, Some c));
          (ok, h) = c_alloc h in
      if \<not> ok then Ret (Inl SQLITERK_NOMEM, [], act, h)
      else let (r, closed, h) = sqliterkOSReadOnlyOpen (env_fs env) path h in
      (case r of
         Inl rc \<Rightarrow> Ret (pager_open_failed rc zero_pager closed act h)
       | Inr f \<Rightarrow>
         let p = zero_pager\<lparr>pfile := Some f\<rparr> in
         cbind (case cipher of Some c \<Rightarrow> open_encrypted env c p act h
                | None \<Rightarrow> open_plain env forcePageSize p act h) (\<lambda>(rc, p, act, h).
         if rc \<noteq> SQLITERK_OK then Ret (pager_open_failed rc p closed act h)
         else cbind (c_arith (pagecount p + 1)) (\<lambda>n.
         let (ok, h) = os_malloc (4 * n) h in
         if \<not> ok then Ret (pager_open_failed SQLITERK_NOMEM p closed act h)
         else Ret (Inr (p\<lparr>pagesStatus := Some (replicate (nat n) st_unchecked)\<rparr>), closed, act, h)))))"

section \<open>Pages\<close>

definition sqliterkPagerGetPageCount :: "'c sqliterk_pager option \<Rightarrow> int" where
  "sqliterkPagerGetPageCount pager = (case pager of None \<Rightarrow> 0 | Some p \<Rightarrow> pagecount p)"

definition sqliterkPagerIsPagenoValid :: "'c sqliterk_pager option \<Rightarrow> int \<Rightarrow> int" where
  "sqliterkPagerIsPagenoValid pager no =
     (case pager of None \<Rightarrow> SQLITERK_MISUSE
      | Some p \<Rightarrow> if no < 1 \<or> no > pagecount p then SQLITERK_MISUSE else SQLITERK_OK)"

definition sqliterkPagerGetSize :: "'c sqliterk_pager option \<Rightarrow> int" where
  "sqliterkPagerGetSize pager = (case pager of None \<Rightarrow> 0 | Some p \<Rightarrow> pagesize p)"

definition sqliterkPagerGetUsableSize :: "'c sqliterk_pager option \<Rightarrow> int" where
  "sqliterkPagerGetUsableSize pager = (case pager of None \<Rightarrow> 0 | Some p \<Rightarrow> usableSize p)"

definition sqliterkPagenoHeaderOffset :: "int \<Rightarrow> int" where
  "sqliterkPagenoHeaderOffset no = (if no = 1 then 100 else 0)"

definition sqliterkPageHeaderOffset :: "sqliterk_page option \<Rightarrow> int" where
  "sqliterkPageHeaderOffset page =
     (case page of None \<Rightarrow> 0 | Some pg \<Rightarrow> sqliterkPagenoHeaderOffset (pageno pg))"

definition sqliterkPageGetData :: "sqliterk_page option \<Rightarrow> byte list option" where
  "sqliterkPageGetData page = (case page of None \<Rightarrow> None | Some pg \<Rightarrow> pdata pg)"

definition sqliterkPageGetPageno :: "sqliterk_page option \<Rightarrow> int" where
  "sqliterkPageGetPageno page = (case page of None \<Rightarrow> 0 | Some pg \<Rightarrow> pageno pg)"

definition sqliterkPageGetType :: "sqliterk_page option \<Rightarrow> page_type" where
  "sqliterkPageGetType page = (case page of None \<Rightarrow> unknown | Some pg \<Rightarrow> ptype pg)"

definition sqliterkPageGetTypeName :: "page_type \<Rightarrow> string" where
  "sqliterkPageGetTypeName t = (case t of
     interior_index \<Rightarrow> ''interior-index btree'' | interior_table \<Rightarrow> ''interior-table btree''
   | leaf_index \<Rightarrow> ''leaf-index btree'' | leaf_table \<Rightarrow> ''leaf-table btree'' | _ \<Rightarrow> ''unknown page'')"

definition sqliterkPageClearData :: "sqliterk_page option \<Rightarrow> heap \<Rightarrow> int \<times> sqliterk_page option \<times> heap" where
  "sqliterkPageClearData page h =
     (case page of None \<Rightarrow> (SQLITERK_MISUSE, None, h)
      | Some pg \<Rightarrow> (SQLITERK_OK, Some (pg\<lparr>pdata := None\<rparr>), if pdata pg \<noteq> None then c_free h else h))"

definition sqliterkPageRelease :: "sqliterk_page option \<Rightarrow> heap \<Rightarrow> int \<times> heap" where
  "sqliterkPageRelease page h =
     (case page of None \<Rightarrow> (SQLITERK_MISUSE, h)
      | Some pg \<Rightarrow> (SQLITERK_OK, c_free (if pdata pg \<noteq> None then c_free h else h)))"

text \<open>The offset of a page in the file, computed in \<^verbatim>\<open>int\<close>.\<close>

definition page_offset :: "'c sqliterk_pager \<Rightarrow> int \<Rightarrow> int cres" where
  "page_offset p no = c_arith ((no - 1) * pagesize p)"

text \<open>The result is the code with the type stored through \<^verbatim>\<open>type\<close>, when it is stored.\<close>

definition sqliterkPageAcquireType ::
    "'c rk_env \<Rightarrow> 'c sqliterk_pager option \<Rightarrow> int \<Rightarrow> (int \<times> page_type option) cres" where
  "sqliterkPageAcquireType env pager no =
     (case pager of None \<Rightarrow> Ret (SQLITERK_MISUSE, None)
      | Some p \<Rightarrow>
        if sqliterkPagerIsPagenoValid pager no \<noteq> SQLITERK_OK then Ret (SQLITERK_MISUSE, None)
        else cbind (page_offset p no) (\<lambda>off.
          cbind (c_arith (sqliterkPagenoHeaderOffset no + off)) (\<lambda>off.
          let (rc, typedata) = os_read env (pfile p) off 1 in
          if rc \<noteq> SQLITERK_OK then Ret (rc, Some unknown)
          else cbind (need (sqliterkParseInt (Some typedata) 0 1)) (\<lambda>theType.
            Ret (SQLITERK_OK, Some (page_type_of theType))))))"

definition acquire_failed ::
    "int \<Rightarrow> sqliterk_page option \<Rightarrow> heap \<Rightarrow> (int + sqliterk_page) \<times> heap" where
  "acquire_failed rc page h =
     (Inl rc, if page \<noteq> None then snd (sqliterkPageRelease page h) else h)"

definition sqliterkPageAcquireOne ::
    "'c rk_env \<Rightarrow> 'c sqliterk_pager option \<Rightarrow> int \<Rightarrow> page_type \<Rightarrow> heap \<Rightarrow>
     ((int + sqliterk_page) \<times> heap) cres" where
  "sqliterkPageAcquireOne env pager no type h =
     (case pager of None \<Rightarrow> Ret (Inl SQLITERK_MISUSE, h)
      | Some p \<Rightarrow>
        if sqliterkPagerIsPagenoValid pager no \<noteq> SQLITERK_OK then Ret (Inl SQLITERK_MISUSE, h)
        else let (ok, h) = c_alloc h in
        if \<not> ok then Ret (acquire_failed SQLITERK_NOMEM None h)
        else let thePage = \<lparr>pageno = no, pdata = None, ptype = unknown\<rparr>; (ok, h) = os_malloc (pagesize p) h in
        if \<not> ok then Ret (acquire_failed SQLITERK_NOMEM (Some thePage) h)
        else cbind (page_offset p no) (\<lambda>off.
        let (rc, bytes) = os_read env (pfile p) off (nat (pagesize p));
            thePage = thePage\<lparr>pdata := Some bytes\<rparr> in
        if rc \<noteq> SQLITERK_OK then Ret (acquire_failed rc (Some thePage) h)
        else cbind (case codec p of None \<Rightarrow> Ret (SQLITERK_OK, bytes)
                    | Some c \<Rightarrow> sqliterkCryptoDecode env c no bytes) (\<lambda>(rc, bytes).
        let thePage = thePage\<lparr>pdata := Some bytes\<rparr> in
        if rc \<noteq> SQLITERK_OK then Ret (acquire_failed rc (Some thePage) h)
        else if type = unknown then
          cbind (need (sqliterkParseInt (Some bytes) (sqliterkPageHeaderOffset (Some thePage)) 1)) (\<lambda>t.
            Ret (Inr (thePage\<lparr>ptype := page_type_of t\<rparr>), h))
        else Ret (Inr (thePage\<lparr>ptype := type\<rparr>), h))))"

definition sqliterkPageAcquire ::
    "'c rk_env \<Rightarrow> 'c sqliterk_pager option \<Rightarrow> int \<Rightarrow> heap \<Rightarrow> ((int + sqliterk_page) \<times> heap) cres" where
  "sqliterkPageAcquire env pager no h = sqliterkPageAcquireOne env pager no unknown h"

definition sqliterkPageAcquireOverflow ::
    "'c rk_env \<Rightarrow> 'c sqliterk_pager option \<Rightarrow> int \<Rightarrow> heap \<Rightarrow> ((int + sqliterk_page) \<times> heap) cres" where
  "sqliterkPageAcquireOverflow env pager no h = sqliterkPageAcquireOne env pager no overflow h"

section \<open>Page status\<close>

text \<open>The array has \<^verbatim>\<open>pagecount + 1\<close> entries, so a valid page number is inside it.\<close>

definition sqliterkPagerSetStatus ::
    "'c sqliterk_pager option \<Rightarrow> int \<Rightarrow> status \<Rightarrow> 'c sqliterk_pager option cres" where
  "sqliterkPagerSetStatus pager no st =
     (case pager of None \<Rightarrow> Ret None
      | Some p \<Rightarrow>
        (case pagesStatus p of None \<Rightarrow> Ret pager
         | Some sts \<Rightarrow>
           if sqliterkPagerIsPagenoValid pager no \<noteq> SQLITERK_OK then Ret pager
           else cbind (wr_bytes sts (no - 1) [st]) (\<lambda>sts.
             let p = p\<lparr>pagesStatus := Some sts\<rparr> in
             Ret (Some (if st = st_checked
                        then p\<lparr>integrity := integrity p OR INTEGRITY_DATA\<rparr> else p)))))"

definition sqliterkPagerGetStatus :: "'c sqliterk_pager option \<Rightarrow> int \<Rightarrow> status cres" where
  "sqliterkPagerGetStatus pager no =
     (case pager of None \<Rightarrow> Ret st_invalid
      | Some p \<Rightarrow>
        (case pagesStatus p of None \<Rightarrow> Ret st_invalid
         | Some sts \<Rightarrow>
           if sqliterkPagerIsPagenoValid pager no \<noteq> SQLITERK_OK then Ret st_invalid
           else rd sts (no - 1)))"

fun count_loop :: "status list \<Rightarrow> nat \<Rightarrow> nat \<Rightarrow> int \<Rightarrow> int cres" where
  "count_loop sts i 0 count = Ret count"
| "count_loop sts i (Suc n) count =
     cbind (rd sts (int i)) (\<lambda>st.
       count_loop sts (Suc i) n (if st = st_checked then count + 1 else count))"

definition sqliterkPagerGetParsedPageCount :: "'c sqliterk_pager option \<Rightarrow> int cres" where
  "sqliterkPagerGetParsedPageCount pager =
     (case pager of None \<Rightarrow> Ret 0
      | Some p \<Rightarrow> (case pagesStatus p of None \<Rightarrow> Ret 0
                   | Some sts \<Rightarrow> count_loop sts 0 (nat (pagecount p)) 0))"

definition sqliterkPagerGetValidPageCount :: "'c sqliterk_pager option \<Rightarrow> int" where
  "sqliterkPagerGetValidPageCount pager =
     (case pager of None \<Rightarrow> 0 | Some p \<Rightarrow> pagecount p - freepagecount p)"

definition sqliterkPagerGetIntegrity :: "'c sqliterk_pager option \<Rightarrow> 32 word" where
  "sqliterkPagerGetIntegrity pager = (case pager of None \<Rightarrow> 0 | Some p \<Rightarrow> integrity p)"

section \<open>The status map\<close>

definition pager_wf :: "'c sqliterk_pager \<Rightarrow> bool" where
  "pager_wf p = (0 \<le> pagecount p \<and>
     (case pagesStatus p of None \<Rightarrow> False | Some sts \<Rightarrow> int (length sts) = pagecount p + 1))"

definition valid_pageno :: "'c sqliterk_pager \<Rightarrow> int \<Rightarrow> bool" where
  "valid_pageno p no = (1 \<le> no \<and> no \<le> pagecount p)"

definition status_of :: "'c sqliterk_pager \<Rightarrow> int \<Rightarrow> status" where
  "status_of p no = (case sqliterkPagerGetStatus (Some p) no of Ret st \<Rightarrow> st | _ \<Rightarrow> st_invalid)"

definition set_status :: "'c sqliterk_pager \<Rightarrow> int \<Rightarrow> status \<Rightarrow> 'c sqliterk_pager" where
  "set_status p no st = (case sqliterkPagerSetStatus (Some p) no st of Ret (Some p') \<Rightarrow> p' | _ \<Rightarrow> p)"

text \<open>The interface the tree walk relies on: a total map from the valid page numbers to statuses.\<close>

locale status_store =
  fixes gets :: "'s \<Rightarrow> int \<Rightarrow> status"
    and sets :: "'s \<Rightarrow> int \<Rightarrow> status \<Rightarrow> 's"
    and valid :: "'s \<Rightarrow> int \<Rightarrow> bool"
    and ok :: "'s \<Rightarrow> bool"
  assumes ok_sets: "ok s \<Longrightarrow> ok (sets s no st)"
    and valid_sets: "ok s \<Longrightarrow> valid (sets s no st) m = valid s m"
    and gets_sets: "ok s \<Longrightarrow> gets (sets s no st) m = (if valid s no \<and> m = no then st else gets s m)"
begin

lemma ok_fold: "ok s \<Longrightarrow> ok (fold (\<lambda>no s. sets s no st) nos s)"
  by (induction nos arbitrary: s) (auto simp: ok_sets)

lemma gets_fold:
  "ok s \<Longrightarrow> gets (fold (\<lambda>no s. sets s no st) nos s) m =
     (if valid s m \<and> m \<in> set nos then st else gets s m)"
proof (induction nos arbitrary: s)
  case (Cons a nos)
  then show ?case by (auto simp: ok_sets valid_sets gets_sets)
qed simp

end

lemma is_valid [simp]:
  "sqliterkPagerIsPagenoValid (Some p) no = (if valid_pageno p no then SQLITERK_OK else SQLITERK_MISUSE)"
  by (auto simp: sqliterkPagerIsPagenoValid_def valid_pageno_def)

lemma get_status: "pager_wf p \<Longrightarrow> sqliterkPagerGetStatus (Some p) no = Ret (status_of p no)"
  by (auto simp: status_of_def sqliterkPagerGetStatus_def pager_wf_def rd_def valid_pageno_def
      split: option.splits)

lemma set_status_Ret:
  "pager_wf p \<Longrightarrow> sqliterkPagerSetStatus (Some p) no st = Ret (Some (set_status p no st))"
  by (auto simp: set_status_def sqliterkPagerSetStatus_def pager_wf_def valid_pageno_def wr_bytes_def Let_def
      split: option.splits)

text \<open>What a change of status leaves alone.\<close>

lemma set_status_frame [simp]:
  "pagecount (set_status p no st) = pagecount p" "pagesize (set_status p no st) = pagesize p"
  "pfile (set_status p no st) = pfile p" "codec (set_status p no st) = codec p"
  "usableSize (set_status p no st) = usableSize p" "freepagecount (set_status p no st) = freepagecount p"
  "reservedBytes (set_status p no st) = reservedBytes p"
  by (auto simp: set_status_def sqliterkPagerSetStatus_def wr_bytes_def Let_def split: option.splits)

lemma set_status_integrity [simp]:
  "pager_wf p \<Longrightarrow> integrity (set_status p no st) =
     (if valid_pageno p no \<and> st = st_checked then integrity p OR INTEGRITY_DATA else integrity p)"
  by (auto simp: set_status_def sqliterkPagerSetStatus_def pager_wf_def valid_pageno_def wr_bytes_def Let_def
      split: option.splits)

lemma set_status_sts:
  assumes "pager_wf p"
  shows "pagesStatus (set_status p no st) =
    (if valid_pageno p no then Some ((the (pagesStatus p))[nat (no - 1) := st]) else pagesStatus p)"
proof -
  obtain sts where s: "pagesStatus p = Some sts" "int (length sts) = pagecount p + 1"
    using assms by (auto simp: pager_wf_def split: option.splits)
  have "take (nat (no - 1)) sts @ [st] @ drop (nat (no - 1) + 1) sts = sts[nat (no - 1) := st]"
    if "valid_pageno p no"
    using that s(2) by (subst upd_conv_take_nth_drop) (auto simp: valid_pageno_def)
  then show ?thesis
    using s by (auto simp: set_status_def sqliterkPagerSetStatus_def wr_bytes_def Let_def valid_pageno_def)
qed

interpretation page_status: status_store status_of set_status valid_pageno pager_wf
proof unfold_locales
  fix p :: "'a sqliterk_pager" and no st m
  assume wf: "pager_wf p"
  then show "pager_wf (set_status p no st)"
    by (auto simp: pager_wf_def set_status_sts [OF wf] split: option.splits)
  show "valid_pageno (set_status p no st) m = valid_pageno p m"
    by (simp add: valid_pageno_def)
  show "status_of (set_status p no st) m = (if valid_pageno p no \<and> m = no then st else status_of p m)"
    using wf by (auto simp: status_of_def sqliterkPagerGetStatus_def set_status_sts [OF wf] pager_wf_def
        valid_pageno_def rd_def nth_list_update split: option.splits)
qed

lemma count_loop_value:
  "i + n \<le> length sts \<Longrightarrow>
   count_loop sts i n count = Ret (count + int (card {k. i \<le> k \<and> k < i + n \<and> sts ! k = st_checked}))"
proof (induction n arbitrary: i count)
  case (Suc n)
  let ?S = "{k. Suc i \<le> k \<and> k < Suc i + n \<and> sts ! k = st_checked}"
  have "{k. i \<le> k \<and> k < i + Suc n \<and> sts ! k = st_checked} =
      (if sts ! i = st_checked then insert i ?S else ?S)"
    by (auto simp: not_less_eq_eq order.order_iff_strict)
  moreover have "finite ?S" "i \<notin> ?S" by auto
  ultimately show ?case using Suc by (simp add: rd_def)
qed simp

text \<open>the status map behaves as a map: setting the status of a valid page number changes that
  page only, any other page number changes nothing, no access leaves the array, and the parsed page
  count is the number of valid pages whose status is \<^verbatim>\<open>checked\<close>.\<close>

theorem pager_status_map:
  assumes "pager_wf p"
  shows "\<exists>p'. sqliterkPagerSetStatus (Some p) no st = Ret (Some p') \<and> pager_wf p' \<and>
      (\<forall>m. sqliterkPagerGetStatus (Some p') m =
         (if valid_pageno p no \<and> m = no then Ret st else sqliterkPagerGetStatus (Some p) m)) \<and>
      sqliterkPagerGetParsedPageCount (Some p') =
        Ret (int (card {m. valid_pageno p' m \<and> status_of p' m = st_checked}))"
proof -
  let ?p = "set_status p no st"
  have wf: "pager_wf ?p" using assms by (rule page_status.ok_sets)
  then obtain sts where s: "pagesStatus ?p = Some sts" "int (length sts) = pagecount p + 1" "0 \<le> pagecount p"
    by (auto simp: pager_wf_def split: option.splits)
  have st: "status_of ?p m = sts ! nat (m - 1)" if "valid_pageno ?p m" for m
    using that s by (auto simp: status_of_def sqliterkPagerGetStatus_def rd_def valid_pageno_def)
  have "{m. valid_pageno ?p m \<and> status_of ?p m = st_checked} =
      (\<lambda>k. int k + 1) ` {k. k < nat (pagecount p) \<and> sts ! k = st_checked}" (is "?L = ?R")
  proof
    show "?L \<subseteq> ?R"
    proof
      fix m assume "m \<in> ?L"
      then have "valid_pageno ?p m" "sts ! nat (m - 1) = st_checked" using st by auto
      then show "m \<in> ?R" by (intro image_eqI [of _ _ "nat (m - 1)"]) (auto simp: valid_pageno_def)
    qed
  next
    show "?R \<subseteq> ?L" using st by (auto simp: valid_pageno_def)
  qed
  then have "card ?L = card {k. k < nat (pagecount p) \<and> sts ! k = st_checked}"
    by (simp add: card_image inj_on_def)
  then have "sqliterkPagerGetParsedPageCount (Some ?p) = Ret (int (card ?L))"
    using s count_loop_value [of 0 "nat (pagecount p)" sts 0]
    by (simp add: sqliterkPagerGetParsedPageCount_def)
  then show ?thesis
    using assms wf by (intro exI [of _ ?p]) (simp add: set_status_Ret get_status page_status.gets_sets)
qed

theorem pager_status_map_witness:
  "\<exists>p'. sqliterkPagerSetStatus (Some (zero_pager\<lparr>pagecount := 2,
      pagesStatus := Some [st_unchecked, st_unchecked, st_unchecked]\<rparr> :: unit sqliterk_pager)) 2 st_checked = Ret (Some p') \<and>
     sqliterkPagerGetStatus (Some p') 2 = Ret st_checked"
proof -
  let ?p = "zero_pager\<lparr>pagecount := 2, pagesStatus := Some [st_unchecked, st_unchecked, st_unchecked]\<rparr> :: unit sqliterk_pager"
  have "pager_wf ?p" "valid_pageno ?p 2" by (simp_all add: pager_wf_def valid_pageno_def)
  with pager_status_map [of ?p 2 st_checked] show ?thesis by auto
qed

section \<open>Acquiring pages\<close>

definition disk_ok :: "'c rk_env \<Rightarrow> bool" where
  "disk_ok env = (\<forall>off n. Failed \<notin> set (env_script env off n))"

lemma os_read_reader:
  "disk_ok env \<Longrightarrow> 0 \<le> fd f \<Longrightarrow> os_read env (Some f) off n = os_reader (env_script env) (fdata f) off n"
  by (cases "off < 0")
    (auto simp: os_read_def os_reader_def disk_ok_def sqliterkOSRead_def read_loop_ok)

lemma need_Ret [cres_simps]: "need r = Ret v \<longleftrightarrow> r = Ret (Inr v)"
  by (cases r) (auto simp: need_def split: sum.splits)

lemma c_arith_Ret [cres_simps]: "c_arith x = Ret y \<longleftrightarrow> y = x \<and> - (2 ^ 31) \<le> x \<and> x < 2 ^ 31"
  by (auto simp: c_arith_def)

lemma os_malloc_live: "os_malloc n h = (b, h') \<Longrightarrow> live h' = (if b then live h + 1 else live h)"
  by (auto simp: os_malloc_def dest: c_alloc_live split: if_splits)

lemma parse_int1: "0 \<le> off \<Longrightarrow> sqliterkParseInt (Some d) off 1 = Ret r \<Longrightarrow>
    off < int (length d) \<and> r = Inr (sint (d ! nat off))"
  using sint_range_size [where w = "d ! nat off"]
  by (auto simp: sqliterkParseInt_def sqliterkParseInt64_def cres_simps c_int_id word_size)

lemma acquire_balanced:
  "sqliterkPageAcquireOne env pager no ty h = Ret (r, h') \<Longrightarrow>
   live h' = live h + (case r of Inl _ \<Rightarrow> 0 | Inr _ \<Rightarrow> 2)"
  by (auto simp: sqliterkPageAcquireOne_def acquire_failed_def sqliterkPageRelease_def Let_def
      elim!: cbind_RetE dest!: c_alloc_live os_malloc_live split: option.split_asm prod.split_asm if_split_asm)

lemma acquire_Inr:
  assumes "sqliterkPageAcquireOne env (Some p) no ty h = Ret (Inr page, h')"
    and "codec p = None" "pfile p = Some f" "0 \<le> fd f" "disk_ok env" "0 < pagesize p"
  shows "valid_pageno p no \<and> pageno page = no \<and> (no - 1) * pagesize p < 2 ^ 31 \<and>
    pdata page = Some (take (nat (pagesize p)) (drop (nat ((no - 1) * pagesize p)) (fdata f))) \<and>
    no * pagesize p \<le> int (length (fdata f)) \<and>
    (if ty = unknown then sqliterkPagenoHeaderOffset no < pagesize p \<and> 
       ptype page = page_type_of (sint (the (pdata page) ! nat (sqliterkPagenoHeaderOffset no)))
     else ptype page = ty)"
proof -
  obtain bytes where v: "valid_pageno p no" and o: "(no - 1) * pagesize p < 2 ^ 31"
    and r: "os_read env (Some f) ((no - 1) * pagesize p) (nat (pagesize p)) = (SQLITERK_OK, bytes)"
    and pg: "pageno page = no" "pdata page = Some bytes"
    and t: "if ty = unknown then
        \<exists>t. sqliterkParseInt (Some bytes) (sqliterkPagenoHeaderOffset no) 1 = Ret (Inr t) \<and> ptype page = page_type_of t
      else ptype page = ty"
    using assms(1-3)
    by (auto simp: sqliterkPageAcquireOne_def acquire_failed_def Let_def page_offset_def cres_simps
        sqliterkPageHeaderOffset_def split: prod.split_asm if_split_asm)
  have b: "bytes = take (nat (pagesize p)) (drop (nat ((no - 1) * pagesize p)) (fdata f))"
      "length bytes = nat (pagesize p)" "0 \<le> (no - 1) * pagesize p"
    using os_file.read_ok_bytes [of "env_script env" "fdata f" "(no - 1) * pagesize p" "nat (pagesize p)" bytes]
      r assms(4-6) by (auto simp: os_read_reader)
  have "no * pagesize p \<le> int (length (fdata f))"
    using b assms(6) by (auto simp: algebra_simps min_def split: if_splits)
  then show ?thesis
    using v o pg t b assms(6) parse_int1 [of "sqliterkPagenoHeaderOffset no" bytes]
    by (auto simp: sqliterkPagenoHeaderOffset_def split: if_splits)
qed

text \<open>C22: a page acquired from a plain database is the page of the file: number, bytes and type
  are those found at \<open>(pageno - 1) * pagesize\<close>, whatever short or interrupted reads the system
  makes; acquiring it takes two blocks of memory and releasing it gives both back.\<close>

theorem page_acquire_exact:
  assumes "sqliterkPageAcquire env (Some p) no h = Ret (Inr page, h')"
    and "codec p = None" "pfile p = Some f" "0 \<le> fd f" "disk_ok env" "0 < pagesize p"
  shows "pageno page = no \<and> 1 \<le> no \<and> no \<le> pagecount p \<and>
    pdata page = Some (take (nat (pagesize p)) (drop (nat ((no - 1) * pagesize p)) (fdata f))) \<and>
    ptype page = page_type_of (sint (the (pdata page) ! nat (sqliterkPagenoHeaderOffset no))) \<and>
    live h' = live h + 2 \<and> live (snd (sqliterkPageRelease (Some page) h')) = live h"
  using acquire_Inr [of env p no unknown h page h'] acquire_balanced [of env "Some p" no unknown h "Inr page" h'] assms
  by (simp add: sqliterkPageAcquire_def valid_pageno_def sqliterkPageRelease_def)

definition sample_pager :: "unit sqliterk_pager" where
  "sample_pager = zero_pager\<lparr>pfile := Some \<lparr>fpath = Some [47], fd = 3, fdata = [1, 2, 3, 4, 13, 6]\<rparr>,
     pagesize := 2, pagecount := 3\<rparr>"

lemma sample_disk_ok: "disk_ok sample_env"
  by (simp add: disk_ok_def sample_env_def)

theorem page_acquire_exact_witness:
  "\<exists>page h'. sqliterkPageAcquire sample_env (Some sample_pager) 3 \<lparr>outcomes = [], live = 0\<rparr> = Ret (Inr page, h') \<and>
     pdata page = Some [13, 6] \<and> ptype page = leaf_table"
proof -
  let ?p = "\<lparr>pageno = 3, pdata = Some [13, 6], ptype = leaf_table\<rparr>"
  have a: "sqliterkPageAcquire sample_env (Some sample_pager) 3 \<lparr>outcomes = [], live = 0\<rparr> =
      Ret (Inr ?p, \<lparr>outcomes = [], live = 2\<rparr>)"
    by (simp add: sqliterkPageAcquire_def sqliterkPageAcquireOne_def sample_pager_def zero_pager_def
        valid_pageno_def c_alloc_def os_malloc_def page_offset_def c_arith_def os_read_def sample_env_def
        sqliterkOSRead_def need_def sqliterkPageHeaderOffset_def sqliterkPagenoHeaderOffset_def
        sqliterkParseInt_def sqliterkParseInt64_def page_type_of_def c_int_id numeral_eq_Suc)
  have "pdata ?p = Some (take 2 (drop 4 [1, 2, 3, 4, 13, 6]))"
    using page_acquire_exact [OF a] sample_disk_ok by (simp add: sample_pager_def zero_pager_def)
  then show ?thesis using a by simp
qed

text \<open>the file offset of a page is computed in \<^verbatim>\<open>int\<close>, so acquiring a valid page that starts at
  or beyond 2 GiB is undefined behaviour, although the database may be larger.\<close>

theorem page_acquire_beyond_2G:
  assumes "valid_pageno p no" "0 \<le> pagesize p" "2 ^ 31 \<le> (no - 1) * pagesize p" "outcomes h = []"
  shows "sqliterkPageAcquire env (Some p) no h = Fault"
  using assms
  by (simp add: sqliterkPageAcquire_def sqliterkPageAcquireOne_def c_alloc_def os_malloc_def page_offset_def
      c_arith_def)

theorem page_acquire_beyond_2G_witness:
  "sqliterkPageAcquire sample_env (Some (sample_pager\<lparr>pagesize := 4096, pagecount := 600000\<rparr>)) 524289
     \<lparr>outcomes = [], live = 0\<rparr> = Fault"
  by (rule page_acquire_beyond_2G) (simp_all add: valid_pageno_def)

section \<open>Opening a database\<close>

definition same_frame :: "'c sqliterk_pager \<Rightarrow> 'c sqliterk_pager \<Rightarrow> bool" where
  "same_frame p p' = (codec p' = codec p \<and> pfile p' = pfile p \<and> pagesStatus p' = pagesStatus p)"

lemma clear_header_simps [simp]:
  "codec (clear_header p) = codec p" "pfile (clear_header p) = pfile p"
  "pagesStatus (clear_header p) = pagesStatus p" "pagesize (clear_header p) = pagesize p"
  "pagecount (clear_header p) = pagecount p" "freepagecount (clear_header p) = freepagecount p"
  "reservedBytes (clear_header p) = reservedBytes p" "usableSize (clear_header p) = usableSize p"
  by (simp_all add: clear_header_def)

lemma same_frame_trans: "same_frame p q \<Longrightarrow> same_frame q r \<Longrightarrow> same_frame p r"
  by (simp add: same_frame_def)

lemma header_frames [simp]:
  "same_frame p (header_pagesize force psz p)" "same_frame p (header_reserved rb p)"
  "same_frame p (header_free p)" "same_frame p (force_pagesize force p)" "same_frame p (clear_header p)"
  "same_frame p (p\<lparr>integrity := w\<rparr>)" "same_frame p (p\<lparr>pagecount := n\<rparr>)" "same_frame p (p\<lparr>usableSize := n\<rparr>)"
  "same_frame p (p\<lparr>freepagecount := n\<rparr>)" "same_frame p (p\<lparr>pagesize := n, reservedBytes := m\<rparr>)" "same_frame p p"
  by (simp_all add: same_frame_def header_pagesize_def header_reserved_def header_free_def force_pagesize_def)

lemma header_fields_frame: "header_fields force buffer p = Ret p' \<Longrightarrow> same_frame p p'"
  by (auto simp: header_fields_def Let_def elim!: cbind_RetE split: if_split_asm)
    (simp_all add: same_frame_def header_pagesize_def header_reserved_def)

lemma header_counts_frame: "header_counts env p = Ret (rc, p') \<Longrightarrow> same_frame p p'"
  by (auto simp: header_counts_def Let_def elim!: cbind_RetE split: if_split_asm sum.split_asm)
    (simp_all add: same_frame_def header_free_def)

lemma header_decode_frame: "header_decode env buffer p = Ret (p', buffer') \<Longrightarrow> same_frame p p'"
  by (auto simp: header_decode_def elim!: cbind_RetE split: option.split_asm prod.split_asm)

lemma parse_header_cases:
  assumes "sqliterkPagerParseHeader env p force h = Ret (rc, p', h')"
  obtains "rc = SQLITERK_NOMEM" "p' = force_pagesize force p" "live h' = live h"
  | "rc \<noteq> SQLITERK_OK" "p' = clear_header (force_pagesize force p)" "live h' = live h"
  | q buffer q' buffer' q'' where "q = force_pagesize force p"
      "os_read env (pfile q) 0 (nat (if codec q \<noteq> None then pagesize q else 100)) = (SQLITERK_OK, buffer)"
      "header_decode env buffer (q\<lparr>integrity := integrity q OR INTEGRITY_HEADER\<rparr>) = Ret (q', buffer')"
      "header_fields force buffer' q' = Ret q''" "header_counts env q'' = Ret (rc, p')" "live h' = live h"
  using assms
  by (auto simp: sqliterkPagerParseHeader_def Let_def elim!: cbind_RetE dest!: os_malloc_live
      split: prod.split_asm if_split_asm)

lemma parse_header_balanced:
  assumes "sqliterkPagerParseHeader env p force h = Ret (rc, p', h')"
  shows "live h' = live h \<and> same_frame p p'"
  using assms
proof (cases rule: parse_header_cases)
  case (3 q buffer q' buffer' q'')
  then show ?thesis
    using header_decode_frame [OF 3(3)] header_fields_frame [OF 3(4)] header_counts_frame [OF 3(5)]
    by (simp add: same_frame_def force_pagesize_def split: if_splits)
qed (simp_all add: same_frame_def force_pagesize_def)

lemma mark_salt_simps [simp]:
  "codec (mark_salt p) = codec p" "pfile (mark_salt p) = pfile p"
  "pagesStatus (mark_salt p) = pagesStatus p" "pagesize (mark_salt p) = pagesize p"
  "pagecount (mark_salt p) = pagecount p" "freepagecount (mark_salt p) = freepagecount p"
  "reservedBytes (mark_salt p) = reservedBytes p" "usableSize (mark_salt p) = usableSize p"
  by (simp_all add: mark_salt_def)

lemma same_codec_count: "codec p' = codec p \<Longrightarrow> codec_count p' = codec_count p"
  by (simp add: codec_count_def)

lemma codec_count_status [simp]: "codec_count (p\<lparr>pagesStatus := s\<rparr>) = codec_count p"
  by (simp add: codec_count_def)

lemma open_encrypted_balanced:
  assumes "open_encrypted env c p act h = Ret (rc, p', act', h')"
  shows "live h' = live h \<and> act' - act = codec_count p' - codec_count p \<and>
    pfile p' = pfile p \<and> pagesStatus p' = pagesStatus p"
proof -
  obtain rc1 p1 act1 where c1: "sqliterkCryptoSetCipher env p (pfile p) (Some (c\<lparr>kdf_salt := None\<rparr>)) act = (rc1, p1, act1)"
    by (metis prod_cases3)
  note b1 = set_cipher_balanced [OF c1]
  show ?thesis
  proof (cases "rc1 = SQLITERK_OK")
    case False
    then show ?thesis using assms c1 b1 by (auto simp: open_encrypted_def)
  next
    case True
    then obtain rc2 p2 h2 where h2: "sqliterkPagerParseHeader env p1 0 h = Ret (rc2, p2, h2)"
      using assms c1 by (auto simp: open_encrypted_def elim!: cbind_RetE)
    note b2 = parse_header_balanced [OF h2]
    obtain rc3 p3 act3 where c3: "sqliterkCryptoSetCipher env p2 (pfile p2) (Some c) act1 = (rc3, p3, act3)"
      by (metis prod_cases3)
    note b3 = set_cipher_balanced [OF c3]
    show ?thesis
    proof (cases "integrity p2 AND INTEGRITY_HEADER = 0 \<and> kdf_salt c \<noteq> None \<and> rc3 = SQLITERK_OK")
      case True
      then obtain h4 where "sqliterkPagerParseHeader env p3 0 h2 = Ret (rc, p', h4)" "act' = act3" "h' = h4"
        using assms c1 h2 c3 \<open>rc1 = SQLITERK_OK\<close> by (auto simp: open_encrypted_def elim!: cbind_RetE)
      then show ?thesis using b1 b2 b3 parse_header_balanced [of env p3 0 h2 rc p' h4]
          same_codec_count [of p2 p1] same_codec_count [of p' p3]
        by (auto simp: same_frame_def)
    next
      case False
      then have "act' = act1 \<and> h' = h2 \<and> codec p' = codec p2 \<and> pfile p' = pfile p2 \<and> pagesStatus p' = pagesStatus p2
        \<or> p' = p3 \<and> act' = act3 \<and> h' = h2"
        using assms c1 h2 c3 \<open>rc1 = SQLITERK_OK\<close>
        by (auto simp: open_encrypted_def split: if_split_asm)
      then show ?thesis using b1 b2 b3 same_codec_count [of p2 p1] same_codec_count [of p' p2]
        by (auto simp: same_frame_def)
    qed
  qed
qed

lemma open_plain_balanced:
  "open_plain env force p act h = Ret (rc, p', act', h') \<Longrightarrow>
   live h' = live h \<and> act' = act \<and> same_frame p p'"
  by (auto simp: open_plain_def elim!: cbind_RetE dest!: parse_header_balanced split: if_split_asm)
    (simp_all add: same_frame_def)

lemma pager_close_balanced:
  "sqliterkPagerClose (Some p) act h = (rc, closed, act', h') \<Longrightarrow>
   act' = act - codec_count p \<and>
   live h' = live h - 1 - (case pfile p of None \<Rightarrow> 0 | Some f \<Rightarrow> if fpath f = None then 1 else 2) -
     (if pagesStatus p = None then 0 else 1)"
  by (auto simp: sqliterkPagerClose_def sqliterkOSClose_def sqliterkCryptoFreeCodec_def codec_count_def Let_def
      split: option.splits if_splits)

lemma os_open_result:
  "sqliterkOSReadOnlyOpen fs path h = (r, closed, h') \<Longrightarrow>
   (case r of Inl rc \<Rightarrow> live h' = live h
    | Inr f \<Rightarrow> live h' = live h + 2 \<and> fpath f \<noteq> None \<and> 0 \<le> fd f \<and> closed = [])"
  by (auto simp: sqliterkOSReadOnlyOpen_def sqliterkOSClose_def Let_def dest!: c_alloc_live
      split: option.split_asm prod.split_asm if_split_asm)

text \<open>C23: opening and closing a database balance: a failed open, at whatever step, with or without a
  cipher, gives back every block of memory and every activation of the cipher library; a successful
  one holds four blocks and one activation per codec, and closing the pager gives them all back.\<close>

theorem pager_open_balanced:
  assumes "sqliterkPagerOpen env path cipher act h = Ret (r, closed, act', h')"
  shows "case r of
      Inl rc \<Rightarrow> live h' = live h \<and> act' = act
    | Inr p \<Rightarrow> live h' = live h + 4 \<and> act' = act + codec_count p \<and>
        (\<forall>rc cl act'' h''. sqliterkPagerClose (Some p) act' h' = (rc, cl, act'', h'') \<longrightarrow>
           act'' = act \<and> live h'' = live h)"
proof -
  obtain force cipher' where fc: "(case cipher of None \<Rightarrow> (0, None)
      | Some c \<Rightarrow> if ckey c = None then (page_size c, None) else (0, Some c)) = (force, cipher')" by force
  obtain ok1 h1 where a1: "c_alloc h = (ok1, h1)" by force
  obtain fr cl1 h2 where o2: "sqliterkOSReadOnlyOpen (env_fs env) path h1 = (fr, cl1, h2)" by (metis prod_cases3)
  note l = c_alloc_live [OF a1] os_open_result [OF o2]
  let ?p0 = "\<lambda>f. zero_pager\<lparr>pfile := Some f\<rparr>"
  consider "\<not> ok1" | rc where "ok1" "fr = Inl rc" | f where "ok1" "fr = Inr f" by (cases fr) auto
  then show ?thesis
  proof cases
    case 1
    then show ?thesis using assms fc a1 l by (auto simp: sqliterkPagerOpen_def)
  next
    case 2
    then show ?thesis using assms fc a1 o2 l
      by (auto simp: sqliterkPagerOpen_def pager_open_failed_def zero_pager_def codec_count_def
          dest!: pager_close_balanced split: prod.split_asm)
  next
    case 3
    let ?m = "case cipher' of Some c \<Rightarrow> open_encrypted env c (?p0 f) act h2
                | None \<Rightarrow> open_plain env force (?p0 f) act h2"
    from 3 assms fc a1 o2 obtain rc3 p3 act3 h3 where m: "?m = Ret (rc3, p3, act3, h3)"
      by (auto simp: sqliterkPagerOpen_def Let_def elim!: cbind_RetE)
    have b3: "live h3 = live h2" "act3 - act = codec_count p3" "pfile p3 = Some f" "pagesStatus p3 = None"
      by (cases cipher'; use m in \<open>auto dest!: open_encrypted_balanced open_plain_balanced
            simp: same_frame_def zero_pager_def codec_count_def\<close>)+
    show ?thesis
      using assms fc a1 o2 3 m b3 l
      by (auto simp: sqliterkPagerOpen_def pager_open_failed_def Let_def elim!: cbind_RetE
          dest!: pager_close_balanced os_malloc_live split: prod.split_asm if_split_asm)
  qed
qed

lemma header_pagesize_range:
  assumes "codec p = None" "psz \<le> 32767"
  shows "\<exists>k \<in> {9 .. 14}. pagesize (header_pagesize 0 psz p) = 2 ^ k"
proof (cases "(psz - 1) AND psz \<noteq> 0 \<or> psz < 512")
  case True
  then show ?thesis using assms by (intro bexI [of _ 12]) (auto simp: header_pagesize_def)
next
  case False
  then obtain k where "psz = 2 ^ k" using and_pred_power2 [of psz] by auto
  then show ?thesis using False assms power2_range [of k] by (auto simp: header_pagesize_def)
qed

lemma parse_int2_le: "sqliterkParseInt (Some d) off 2 = Ret (Inr v) \<Longrightarrow> v \<le> 32767"
proof -
  assume "sqliterkParseInt (Some d) off 2 = Ret (Inr v)"
  then obtain p0 p1 :: byte where v: "v = c_int (sint p0 * 256 + uint p1)"
    by (auto simp: sqliterkParseInt_def sqliterkParseInt64_def cres_simps s2 be_value_def split: sum.split_asm)
  have "sint p0 * 256 + uint p1 \<le> 32767" "- 32768 \<le> sint p0 * 256 + uint p1"
    using uint_byte_bounds [of p1] sint_byte_range [of p0] by linarith+
  then show ?thesis unfolding v by (simp add: c_int_id)
qed

lemma header_fields_plain:
  assumes "header_fields 0 buffer p = Ret p'" "codec p = None" "integrity p AND INTEGRITY_HEADER \<noteq> 0"
  shows "(\<exists>k \<in> {9 .. 14}. pagesize p' = 2 ^ k) \<and> 0 \<le> reservedBytes p' \<and> reservedBytes p' \<le> 127"
proof (cases "take 16 buffer = sqlite_magic")
  case True
  then obtain psz fpc rb where i: "sqliterkParseInt (Some buffer) 16 2 = Ret (Inr psz)"
      "sqliterkParseInt (Some buffer) 20 1 = Ret (Inr rb)"
    and p': "p' = header_reserved rb ((header_pagesize 0 psz p)\<lparr>freepagecount := fpc\<rparr>)"
    using assms by (auto simp: header_fields_def cres_simps Let_def)
  have "rb \<le> 127" using parse_int1 [OF _ i(2)] sint_byte_range [of "buffer ! 20"] by auto
  moreover have "pagesize p' = pagesize (header_pagesize 0 psz p)"
    by (simp add: p' header_reserved_def)
  moreover have "codec (header_pagesize 0 psz p) = None"
    using header_frames(1) [of p 0 psz] assms(2) by (simp add: same_frame_def)
  ultimately show ?thesis
    using header_pagesize_range [OF assms(2) parse_int2_le [OF i(1)]]
    by (auto simp: p' header_reserved_def)
next
  case False
  then have "pagesize p' = 2 ^ 12" "reservedBytes p' = 0"
    using assms by (auto simp: header_fields_def cres_simps Let_def)
  then show ?thesis by (intro conjI bexI [of _ 12]) auto
qed

lemma header_counts_ok:
  assumes "header_counts env p = Ret (SQLITERK_OK, p')" "pfile p = Some f" "0 \<le> fd f" "512 \<le> pagesize p" "pagesize p \<le> 2 ^ 14"
  shows "pagesize p' = pagesize p \<and> reservedBytes p' = reservedBytes p \<and>
    usableSize p' = pagesize p - reservedBytes p \<and> 1 \<le> pagecount p' \<and>
    0 \<le> freepagecount p' \<and> freepagecount p' \<le> pagecount p' \<and>
    (length (fdata f) \<le> 2 ^ 39 \<longrightarrow> pagecount p' = (int (length (fdata f)) + pagesize p - 1) div pagesize p)"
proof -
  let ?n = "int (length (fdata f))"
  define c where "c = c_int (((?n + pagesize p - 1) mod 2 ^ 64) div pagesize p)"
  define q where "q = header_free (p\<lparr>pagecount := c\<rparr>)"
  have "pagesize p mod 2 ^ 64 = pagesize p" using assms(4,5) by (simp add: mod_pos_pos_trivial)
  then have c: "1 \<le> c" and p': "p' = q\<lparr>usableSize := pagesize q - reservedBytes q\<rparr>"
    using assms(1-4)
    by (auto simp: header_counts_def sqliterkOSFileSize_def Let_def cres_simps c_def q_def not_less split: if_split_asm)
  have q: "pagesize q = pagesize p" "reservedBytes q = reservedBytes p" "pagecount q = c"
    "0 \<le> freepagecount q" "freepagecount q \<le> c"
    using c by (auto simp: q_def header_free_def)
  have "c = (?n + pagesize p - 1) div pagesize p" if "length (fdata f) \<le> 2 ^ 39"
  proof -
    let ?m = "?n + pagesize p - 1"
    have m: "0 \<le> ?m" "?m < 2 ^ 39 + 2 ^ 14" using that assms(4,5) by auto
    have "?m div pagesize p \<le> ?m div 512" using m assms(4) by (intro zdiv_mono2) auto
    also have "\<dots> < 2 ^ 31" using m by simp
    finally have "?m div pagesize p < 2 ^ 31" .
    moreover have "0 \<le> ?m div pagesize p" using m assms(4) by (simp add: pos_imp_zdiv_nonneg_iff)
    moreover have "?m mod 2 ^ 64 = ?m" using m by (intro mod_pos_pos_trivial) auto
    ultimately show ?thesis unfolding c_def by (simp add: c_int_id)
  qed
  then show ?thesis using q c by (simp add: p')
qed

lemma open_plain_file:
  "sqliterkOSReadOnlyOpen fs path h = (Inr f, closed, h') \<Longrightarrow>
   \<exists>name. path = Some name \<and> fs name = Some (fd f, fdata f) \<and> 0 \<le> fd f"
  by (auto simp: sqliterkOSReadOnlyOpen_def sqliterkOSClose_def Let_def
      split: option.split_asm prod.split_asm if_split_asm)

lemma pager_open_plain_cases:
  assumes "sqliterkPagerOpen env path None act h = Ret (Inr p, closed, act', h')"
  obtains name f h1 q h2 where "path = Some name" "env_fs env name = Some (fd f, fdata f)" "0 \<le> fd f"
    "sqliterkPagerParseHeader env (zero_pager\<lparr>pfile := Some f\<rparr>) 0 h1 = Ret (SQLITERK_OK, q, h2)"
    "p = (mark_salt q)\<lparr>pagesStatus := Some (replicate (nat (pagecount q + 1)) st_unchecked)\<rparr>"
proof -
  obtain f cl h0 h1 where f: "sqliterkOSReadOnlyOpen (env_fs env) path h0 = (Inr f, cl, h1)"
    and m: "cbind (open_plain env 0 (zero_pager\<lparr>pfile := Some f\<rparr>) act h1) (\<lambda>(rc, p, act, h).
         if rc \<noteq> SQLITERK_OK then Ret (pager_open_failed rc p cl act h)
         else cbind (c_arith (pagecount p + 1)) (\<lambda>n.
         let (ok, h) = os_malloc (4 * n) h in
         if \<not> ok then Ret (pager_open_failed SQLITERK_NOMEM p cl act h)
         else Ret (Inr (p\<lparr>pagesStatus := Some (replicate (nat n) st_unchecked)\<rparr>), cl, act, h))) =
       Ret (Inr p, closed, act', h')"
    using assms by (auto simp: sqliterkPagerOpen_def Let_def pager_open_failed_def
        split: prod.split_asm if_split_asm sum.split_asm)
  from m obtain q h2 where
    "sqliterkPagerParseHeader env (zero_pager\<lparr>pfile := Some f\<rparr>) 0 h1 = Ret (SQLITERK_OK, q, h2)"
    "p = (mark_salt q)\<lparr>pagesStatus := Some (replicate (nat (pagecount q + 1)) st_unchecked)\<rparr>"
    by (auto simp: open_plain_def pager_open_failed_def c_arith_Ret Let_def elim!: cbind_RetE
        split: prod.split_asm if_split_asm)
  then show thesis using that open_plain_file [OF f] by blast
qed

lemma integrity_or_header [simp]: "(w OR INTEGRITY_HEADER) AND INTEGRITY_HEADER = INTEGRITY_HEADER"
  by (rule bits32) (simp add: bit_blast)

lemma parse_header_plain:
  assumes "sqliterkPagerParseHeader env p 0 h = Ret (SQLITERK_OK, q, h')" "codec p = None"
    "pfile p = Some f" "0 \<le> fd f"
  shows "(\<exists>k \<in> {9 .. 14}. pagesize q = 2 ^ k) \<and> 0 \<le> reservedBytes q \<and> reservedBytes q \<le> 127 \<and>
    usableSize q = pagesize q - reservedBytes q \<and> 1 \<le> pagecount q \<and>
    0 \<le> freepagecount q \<and> freepagecount q \<le> pagecount q \<and> pfile q = Some f \<and>
    (length (fdata f) \<le> 2 ^ 39 \<longrightarrow> pagecount q = (int (length (fdata f)) + pagesize q - 1) div pagesize q)"
  using assms(1)
proof (cases rule: parse_header_cases)
  case (3 q0 buffer q1 buffer' q2)
  then have q1: "q1 = p\<lparr>integrity := integrity p OR INTEGRITY_HEADER\<rparr>"
    using assms(2) by (simp add: force_pagesize_def header_decode_def)
  have f: "header_fields 0 buffer' q1 = Ret q2" using 3 by simp
  have r: "(\<exists>k \<in> {9 .. 14}. pagesize q2 = 2 ^ k) \<and> 0 \<le> reservedBytes q2 \<and> reservedBytes q2 \<le> 127"
    by (rule header_fields_plain [OF f]) (simp_all add: q1 assms)
  then obtain k where k: "k \<in> {9 .. 14}" "pagesize q2 = 2 ^ k" by blast
  have "(2 :: int) ^ 9 \<le> 2 ^ k" "(2 :: int) ^ k \<le> 2 ^ 14"
    using k(1) by (intro power_increasing; simp)+
  then have "512 \<le> pagesize q2" "pagesize q2 \<le> 2 ^ 14" using k(2) by simp_all
  moreover have "pfile q2 = Some f" "pfile q = Some f"
    using header_fields_frame [OF f] header_counts_frame [OF 3(5)] by (simp_all add: same_frame_def q1 assms)
  ultimately show ?thesis using header_counts_ok [OF 3(5), of f] r assms(4) by auto
qed simp_all

text \<open>C7: what a plain database guarantees once it is open, however corrupt its header: the page size
  is a power of two from 512 to 16384 (larger sizes are replaced by the default 4096), the page
  count is the size of the file in pages, rounded up, and at least one, the number of free pages
  lies between 0 and the page count, the usable size is the page size less at most 127 reserved
  bytes, and every page is still unchecked.\<close>

theorem pager_open_plain_header:
  assumes "sqliterkPagerOpen env path None act h = Ret (Inr p, closed, act', h')"
  shows "\<exists>name bytes d. path = Some name \<and> env_fs env name = Some (d, bytes) \<and>
    (\<exists>k \<in> {9 .. 14}. pagesize p = 2 ^ k) \<and>
    0 \<le> reservedBytes p \<and> reservedBytes p \<le> 127 \<and> usableSize p = pagesize p - reservedBytes p \<and>
    1 \<le> pagecount p \<and> 0 \<le> freepagecount p \<and> freepagecount p \<le> pagecount p \<and>
    (length bytes \<le> 2 ^ 39 \<longrightarrow> pagecount p = (int (length bytes) + pagesize p - 1) div pagesize p) \<and>
    pager_wf p \<and> (\<forall>no. valid_pageno p no \<longrightarrow> status_of p no = st_unchecked)"
proof -
  from assms obtain name f h1 q h2 where n: "path = Some name" "env_fs env name = Some (fd f, fdata f)" "0 \<le> fd f"
    and q: "sqliterkPagerParseHeader env (zero_pager\<lparr>pfile := Some f\<rparr>) 0 h1 = Ret (SQLITERK_OK, q, h2)"
    and p: "p = (mark_salt q)\<lparr>pagesStatus := Some (replicate (nat (pagecount q + 1)) st_unchecked)\<rparr>"
    by (elim pager_open_plain_cases) blast
  note g = parse_header_plain [OF q, of f]
  have "1 \<le> pagecount q" using g n(3) by (simp add: zero_pager_def)
  then have "pager_wf p" "\<forall>no. valid_pageno p no \<longrightarrow> status_of p no = st_unchecked"
    by (auto simp: p pager_wf_def status_of_def sqliterkPagerGetStatus_def rd_def valid_pageno_def)
  then show ?thesis using g n by (intro exI [of _ name] exI [of _ "fdata f"] exI [of _ "fd f"])
    (simp add: p zero_pager_def)
qed

text \<open>A one-page database with page size 512: its file, and the pager after opening it.\<close>

definition sample_header :: "byte list" where
  "sample_header = sqlite_magic @ [2, 0, 1, 1, 0, 64, 32, 32] @ replicate 12 0 @ [0, 0, 0, 0] @ replicate 60 0"

definition sample_db :: "byte list" where
  "sample_db = sample_header @ 13 # replicate 411 0"

definition db_env :: "unit rk_env" where
  "db_env = sample_env\<lparr>env_fs := (\<lambda>_. Some (3, sample_db))\<rparr>"

definition db_pager :: "unit sqliterk_pager" where
  "db_pager = \<lparr>pfile = Some \<lparr>fpath = Some [47], fd = 3, fdata = sample_db\<rparr>,
     pagesStatus = Some [st_unchecked, st_unchecked], pagesize = 512, freepagecount = 0, reservedBytes = 0,
     pagecount = 1, usableSize = 512, integrity = 5, codec = None\<rparr>"

lemma db_open:
  "sqliterkPagerOpen db_env (Some [47]) None 0 \<lparr>outcomes = [], live = 0\<rparr> =
     Ret (Inr db_pager, [], 0, \<lparr>outcomes = [], live = 4\<rparr>)"
  by code_simp

theorem pager_open_plain_header_witness:
  "\<exists>p closed act' h'. sqliterkPagerOpen db_env (Some [47]) None 0 \<lparr>outcomes = [], live = 0\<rparr> =
     Ret (Inr p, closed, act', h') \<and> pagecount p = 1 \<and> status_of p 1 = st_unchecked"
proof -
  have "valid_pageno db_pager 1" by (simp add: valid_pageno_def db_pager_def)
  then have "status_of db_pager 1 = st_unchecked" using pager_open_plain_header [OF db_open] by blast
  then show ?thesis using db_open by (auto simp: db_pager_def)
qed

theorem pager_open_balanced_witness:
  "\<exists>p closed act' h'. sqliterkPagerOpen db_env (Some [47]) None 0 \<lparr>outcomes = [], live = 0\<rparr> =
     Ret (Inr p, closed, act', h') \<and> live h' = 4"
  using pager_open_balanced [OF db_open] db_open by auto

end
