(* ===== verification/RK_Values.thy ===== *)
theory RK_Values
  imports RK_Util
begin

text \<open>
  The growable array of column values of SQLiteRepairKit (\<^verbatim>\<open>sqliterk_values.c\<close>).

  A pointer to a \<^verbatim>\<open>sqliterk_values\<close> is a \<open>values option\<close>. \<open>slots\<close> is the allocated array
  (\<open>capacity + 1\<close> elements), of which the first \<open>count\<close> are in use; an index outside it is
  \<open>Fault\<close>. The union \<^verbatim>\<open>sqliterk_any\<close> is a datatype with one constructor per member that can
  be stored (\<open>AnyNull\<close> is the null pointer). Every call of \<^verbatim>\<open>sqliterkOSMalloc\<close> asks the
  \<open>heap\<close> whether it succeeds, so each out-of-memory branch of the code is a branch here, and
  \<open>live\<close> counts the blocks so that leaks show.

  The model is followed by the invariant \<open>values_wf\<close>, the abstraction \<open>items\<close> to the list of
  stored values, the interface \<open>value_sink\<close> with its interpretation on the model, and the
  properties: refinement of the list, memory accounting, and the two defects the code has when
  an allocation fails.
\<close>

section \<open>Data\<close>

datatype value_type = vt_null | vt_integer | vt_number | vt_text | vt_binary

datatype any = AnyNull | AnyInteger int | AnyNumber "64 word"
  | AnyText "byte list option" int | AnyBinary "byte list option" int

record sqliterk_value =
  vtype :: value_type
  vany :: any

record sqliterk_values =
  vcount :: int
  vcapacity :: int
  slots :: "sqliterk_value list option"

definition zero_value :: sqliterk_value where
  "zero_value = \<lparr>vtype = vt_null, vany = AnyNull\<rparr>"

section \<open>Releasing values\<close>

definition sqliterkValueClear :: "sqliterk_value \<Rightarrow> heap \<Rightarrow> (sqliterk_value \<times> heap) cres" where
  "sqliterkValueClear v h =
     (if vany v = AnyNull then Ret (v\<lparr>vtype := vt_null\<rparr>, h)
      else cbind
        (case vtype v of
           vt_text \<Rightarrow> (case vany v of AnyText t s \<Rightarrow> Ret (if t \<noteq> None then c_free h else h)
                     | _ \<Rightarrow> Fault)
         | vt_binary \<Rightarrow> (case vany v of AnyBinary b s \<Rightarrow> Ret (if b \<noteq> None then c_free h else h)
                     | _ \<Rightarrow> Fault)
         | _ \<Rightarrow> Ret h)
        (\<lambda>h. Ret (v\<lparr>vtype := vt_null, vany := AnyNull\<rparr>, c_free h)))"

text \<open>\<^verbatim>\<open>for (i = 0; i < values->count; i++) sqliterkValueClear(&values->values[i]);\<close> with \<open>n\<close> rounds
  left.\<close>

fun clear_loop :: "nat \<Rightarrow> nat \<Rightarrow> sqliterk_value list option \<Rightarrow> heap \<Rightarrow>
    (sqliterk_value list option \<times> heap) cres" where
  "clear_loop 0 i xs h = Ret (xs, h)"
| "clear_loop (Suc n) i xs h =
     (case xs of None \<Rightarrow> Fault
      | Some ys \<Rightarrow> cbind (rd ys (int i)) (\<lambda>v. cbind (sqliterkValueClear v h) (\<lambda>(v, h).
          clear_loop n (Suc i) (Some (ys[i := v])) h)))"

definition sqliterkValuesClear ::
    "sqliterk_values option \<Rightarrow> heap \<Rightarrow> (int \<times> sqliterk_values option \<times> heap) cres" where
  "sqliterkValuesClear values h =
     (case values of None \<Rightarrow> Ret (SQLITERK_MISUSE, None, h)
      | Some vs \<Rightarrow> cbind (clear_loop (nat (vcount vs)) 0 (slots vs) h) (\<lambda>(xs, h).
          Ret (SQLITERK_OK, Some (vs\<lparr>slots := xs, vcount := 0\<rparr>), h)))"

definition sqliterkValuesFree :: "sqliterk_values option \<Rightarrow> heap \<Rightarrow> (int \<times> heap) cres" where
  "sqliterkValuesFree values h =
     (case values of None \<Rightarrow> Ret (SQLITERK_MISUSE, h)
      | Some vs \<Rightarrow> cbind (clear_loop (nat (vcount vs)) 0 (slots vs) h) (\<lambda>(xs, h).
          let h = (if xs \<noteq> None then c_free h else h) in Ret (SQLITERK_OK, c_free h)))"

section \<open>Growing and adding\<close>

definition sqliterkValuesAutoGrow ::
    "sqliterk_values option \<Rightarrow> heap \<Rightarrow> (int \<times> sqliterk_values option \<times> heap) cres" where
  "sqliterkValuesAutoGrow values h =
     (case values of None \<Rightarrow> Ret (SQLITERK_MISUSE, None, h)
      | Some vs \<Rightarrow>
        if vcount vs \<ge> vcapacity vs then
          let oldCapacity = vcapacity vs in
          cbind (if oldCapacity \<le> 0 then Ret 4
                 else if oldCapacity * 2 > INT_MAX then Fault else Ret (oldCapacity * 2)) (\<lambda>cap.
          let vs = vs\<lparr>vcapacity := cap\<rparr>; (ok, h) = c_alloc h in
          if \<not> ok then Ret (SQLITERK_NOMEM, Some vs, h)
          else let newValues = replicate (nat (cap + 1)) zero_value in
            case slots vs of
              None \<Rightarrow> Ret (SQLITERK_OK, Some (vs\<lparr>slots := Some newValues\<rparr>), h)
            | Some old \<Rightarrow> cbind (rd_bytes old 0 oldCapacity) (\<lambda>ys.
                cbind (wr_bytes newValues 0 ys) (\<lambda>newValues.
                  Ret (SQLITERK_OK, Some (vs\<lparr>slots := Some newValues\<rparr>), c_free h))))
        else Ret (SQLITERK_OK, Some vs, h))"

definition sqliterkValuesAlloc :: "heap \<Rightarrow> ((int + sqliterk_values) \<times> heap) cres" where
  "sqliterkValuesAlloc h =
     (let (ok, h) = c_alloc h in
      if \<not> ok then Ret (Inl SQLITERK_NOMEM, h)
      else cbind (sqliterkValuesAutoGrow (Some \<lparr>vcount = 0, vcapacity = 0, slots = None\<rparr>) h)
        (\<lambda>(rc, theValues, h).
          if rc \<noteq> SQLITERK_OK then cbind (sqliterkValuesFree theValues h) (\<lambda>(_, h). Ret (Inl rc, h))
          else case theValues of None \<Rightarrow> Fault | Some vs \<Rightarrow> Ret (Inr vs, h)))"

text \<open>\<^verbatim>\<open>value = &values->values[values->count]\<close> and the stores through it.\<close>

definition put_slot :: "sqliterk_values \<Rightarrow> sqliterk_value \<Rightarrow> sqliterk_values cres" where
  "put_slot vs v =
     (case slots vs of None \<Rightarrow> Fault
      | Some xs \<Rightarrow> if 0 \<le> vcount vs \<and> vcount vs < int (length xs)
                  then Ret (vs\<lparr>slots := Some (xs[nat (vcount vs) := v])\<rparr>) else Fault)"

text \<open>
  The frame shared by the five adders: grow, then run \<open>store\<close> on the array that has room. A
  store answers with the value left in the slot and the result code; the count goes up only
  when the code is \<^verbatim>\<open>SQLITERK_OK\<close>.
\<close>

definition values_add :: "(heap \<Rightarrow> (int \<times> sqliterk_value \<times> heap) cres) \<Rightarrow>
    sqliterk_values option \<Rightarrow> heap \<Rightarrow> (int \<times> sqliterk_values option \<times> heap) cres" where
  "values_add store values h =
     (case values of None \<Rightarrow> Ret (SQLITERK_MISUSE, None, h)
      | Some _ \<Rightarrow> cbind (sqliterkValuesAutoGrow values h) (\<lambda>(rc, values, h).
          if rc \<noteq> SQLITERK_OK then Ret (rc, values, h)
          else case values of None \<Rightarrow> Fault
            | Some vs \<Rightarrow> cbind (store h) (\<lambda>(rc, v, h). cbind (put_slot vs v) (\<lambda>vs.
                Ret (rc, Some (if rc = SQLITERK_OK then vs\<lparr>vcount := vcount vs + 1\<rparr> else vs), h)))))"

definition store_integer :: "int \<Rightarrow> heap \<Rightarrow> (int \<times> sqliterk_value \<times> heap) cres" where
  "store_integer i h =
     (let (ok, h) = c_alloc h in
      if \<not> ok then cbind (sqliterkValueClear \<lparr>vtype = vt_integer, vany = AnyNull\<rparr> h) (\<lambda>(v, h).
        Ret (SQLITERK_NOMEM, v, h))
      else Ret (SQLITERK_OK, \<lparr>vtype = vt_integer, vany = AnyInteger i\<rparr>, h))"

definition sqliterkValuesAddInteger64 ::
    "sqliterk_values option \<Rightarrow> int \<Rightarrow> heap \<Rightarrow> (int \<times> sqliterk_values option \<times> heap) cres" where
  "sqliterkValuesAddInteger64 values i h = values_add (store_integer i) values h"

definition sqliterkValuesAddInteger ::
    "sqliterk_values option \<Rightarrow> int \<Rightarrow> heap \<Rightarrow> (int \<times> sqliterk_values option \<times> heap) cres" where
  "sqliterkValuesAddInteger values i h = sqliterkValuesAddInteger64 values i h"

definition store_number :: "64 word \<Rightarrow> heap \<Rightarrow> (int \<times> sqliterk_value \<times> heap) cres" where
  "store_number d h =
     (let (ok, h) = c_alloc h in
      if \<not> ok then cbind (sqliterkValueClear \<lparr>vtype = vt_number, vany = AnyNull\<rparr> h) (\<lambda>(v, h).
        Ret (SQLITERK_NOMEM, v, h))
      else Ret (SQLITERK_OK, \<lparr>vtype = vt_number, vany = AnyNumber d\<rparr>, h))"

definition sqliterkValuesAddNumber ::
    "sqliterk_values option \<Rightarrow> 64 word \<Rightarrow> heap \<Rightarrow> (int \<times> sqliterk_values option \<times> heap) cres" where
  "sqliterkValuesAddNumber values d h = values_add (store_number d) values h"

definition store_text :: "byte list \<Rightarrow> int \<Rightarrow> heap \<Rightarrow> (int \<times> sqliterk_value \<times> heap) cres" where
  "store_text t s h =
     (let (ok, h) = c_alloc h in
      if \<not> ok then cbind (sqliterkValueClear \<lparr>vtype = vt_text, vany = AnyNull\<rparr> h) (\<lambda>(v, h).
        Ret (SQLITERK_NOMEM, v, h))
      else if s \<ge> INT_MAX then Fault
      else let (ok, h) = c_alloc h in
      if \<not> ok then cbind (sqliterkValueClear \<lparr>vtype = vt_text, vany = AnyText None s\<rparr> h) (\<lambda>(v, h).
        Ret (SQLITERK_NOMEM, v, h))
      else cbind (rd_bytes t 0 s) (\<lambda>cs.
        Ret (SQLITERK_OK, \<lparr>vtype = vt_text, vany = AnyText (Some (cs @ [0])) s\<rparr>, h)))"

definition sqliterkValuesAddNoTerminatorText ::
    "sqliterk_values option \<Rightarrow> byte list option \<Rightarrow> int \<Rightarrow> heap \<Rightarrow>
     (int \<times> sqliterk_values option \<times> heap) cres" where
  "sqliterkValuesAddNoTerminatorText values t s h =
     (case t of None \<Rightarrow> Ret (SQLITERK_MISUSE, values, h)
      | Some t \<Rightarrow> values_add (store_text t s) values h)"

text \<open>\<^verbatim>\<open>strlen\<close> of the object behind a \<^verbatim>\<open>char *\<close>: \<open>Fault\<close> when it is null or has no terminator.\<close>

definition c_strlen :: "byte list option \<Rightarrow> int cres" where
  "c_strlen t = (case t of None \<Rightarrow> Fault
     | Some t \<Rightarrow> if 0 \<in> set t then Ret (int (length (takeWhile (\<lambda>c. c \<noteq> 0) t))) else Fault)"

definition sqliterkValuesAddText ::
    "sqliterk_values option \<Rightarrow> byte list option \<Rightarrow> heap \<Rightarrow>
     (int \<times> sqliterk_values option \<times> heap) cres" where
  "sqliterkValuesAddText values t h =
     cbind (c_strlen t) (\<lambda>n. sqliterkValuesAddNoTerminatorText values t (c_int n) h)"

text \<open>
  The buffer has \<^verbatim>\<open>sizeof(void *) * s\<close> bytes. When its allocation fails the code returns at once,
  without \<^verbatim>\<open>sqliterkValueClear\<close>: the slot keeps the descriptor block.
\<close>

definition store_binary :: "byte list \<Rightarrow> int \<Rightarrow> heap \<Rightarrow> (int \<times> sqliterk_value \<times> heap) cres" where
  "store_binary b s h =
     (let (ok, h) = c_alloc h in
      if \<not> ok then cbind (sqliterkValueClear \<lparr>vtype = vt_binary, vany = AnyNull\<rparr> h) (\<lambda>(v, h).
        Ret (SQLITERK_NOMEM, v, h))
      else let (ok, h) = c_alloc h in
      if \<not> ok then Ret (SQLITERK_NOMEM, \<lparr>vtype = vt_binary, vany = AnyBinary None s\<rparr>, h)
      else cbind (rd_bytes b 0 s) (\<lambda>cs.
        Ret (SQLITERK_OK,
          \<lparr>vtype = vt_binary, vany = AnyBinary (Some (cs @ replicate (7 * nat s) 0)) s\<rparr>, h)))"

definition sqliterkValuesAddBinary ::
    "sqliterk_values option \<Rightarrow> byte list option \<Rightarrow> int \<Rightarrow> heap \<Rightarrow>
     (int \<times> sqliterk_values option \<times> heap) cres" where
  "sqliterkValuesAddBinary values b s h =
     (case b of None \<Rightarrow> Ret (SQLITERK_MISUSE, values, h)
      | Some b \<Rightarrow> values_add (store_binary b s) values h)"

definition sqliterkValuesAddNull ::
    "sqliterk_values option \<Rightarrow> heap \<Rightarrow> (int \<times> sqliterk_values option \<times> heap) cres" where
  "sqliterkValuesAddNull values h =
     values_add (\<lambda>h. Ret (SQLITERK_OK, \<lparr>vtype = vt_null, vany = AnyNull\<rparr>, h)) values h"

section \<open>Reading values\<close>

text \<open>
  The C library functions the getters use: \<^verbatim>\<open>atol\<close> (as \<^verbatim>\<open>strtol\<close>, saturating) and the conversion
  from \<^verbatim>\<open>double\<close> to \<^verbatim>\<open>int64_t\<close>, which truncates and is undefined when the value does not fit.
\<close>

definition c_isspace :: "byte \<Rightarrow> bool" where
  "c_isspace c \<longleftrightarrow> c = 0x20 \<or> (0x09 \<le> c \<and> c \<le> 0x0d)"

definition c_isdigit :: "byte \<Rightarrow> bool" where
  "c_isdigit c \<longleftrightarrow> 0x30 \<le> c \<and> c \<le> 0x39"

definition c_atol :: "byte list \<Rightarrow> int cres" where
  "c_atol t =
     (let r = dropWhile c_isspace t;
          (neg, r) = (case r of [] \<Rightarrow> (False, [])
                      | c # cs \<Rightarrow> if c = 0x2d then (True, cs) else if c = 0x2b then (False, cs)
                                 else (False, c # cs));
          ds = takeWhile c_isdigit r;
          v = foldl (\<lambda>acc c. acc * 10 + (uint c - 48)) 0 ds;
          v = (if neg then - v else v)
      in if dropWhile c_isdigit r = [] then Fault
         else Ret (max (- (2 ^ 63)) (min (2 ^ 63 - 1) v)))"

definition double_to_int64 :: "64 word \<Rightarrow> int cres" where
  "double_to_int64 d =
     (let e = unat (drop_bit 52 d AND 0x7ff); m = uint (d AND 0xfffffffffffff);
          mag = (if e = 0 then 0
                 else if e \<ge> 1075 then (2 ^ 52 + m) * 2 ^ (e - 1075)
                 else (2 ^ 52 + m) div 2 ^ (1075 - e));
          v = (if bit d 63 then - mag else mag)
      in if e = 2047 \<or> v < - (2 ^ 63) \<or> v \<ge> 2 ^ 63 then Fault else Ret v)"

definition sqliterkValuesGetCount :: "sqliterk_values option \<Rightarrow> int" where
  "sqliterkValuesGetCount values = (case values of None \<Rightarrow> 0 | Some vs \<Rightarrow> vcount vs)"

text \<open>\<^verbatim>\<open>if (values && index < sqliterkValuesGetCount(values)) value = &values->values[index];\<close>\<close>

definition value_at :: "sqliterk_values option \<Rightarrow> int \<Rightarrow> sqliterk_value option cres" where
  "value_at values index =
     (case values of None \<Rightarrow> Ret None
      | Some vs \<Rightarrow> if index < sqliterkValuesGetCount values
          then (case slots vs of None \<Rightarrow> Fault | Some xs \<Rightarrow> cbind (rd xs index) (\<lambda>v. Ret (Some v)))
          else Ret None)"

definition sqliterkValuesGetType :: "sqliterk_values option \<Rightarrow> int \<Rightarrow> value_type cres" where
  "sqliterkValuesGetType values index =
     cbind (value_at values index) (\<lambda>v. Ret (case v of None \<Rightarrow> vt_null | Some v \<Rightarrow> vtype v))"

definition sqliterkValuesGetInteger64 :: "sqliterk_values option \<Rightarrow> int \<Rightarrow> int cres" where
  "sqliterkValuesGetInteger64 values index =
     cbind (value_at values index) (\<lambda>v.
       case v of None \<Rightarrow> Ret 0
       | Some v \<Rightarrow> (case vtype v of
           vt_integer \<Rightarrow> (case vany v of AnyInteger i \<Rightarrow> Ret i | _ \<Rightarrow> Fault)
         | vt_number \<Rightarrow> (case vany v of AnyNumber d \<Rightarrow> double_to_int64 d | _ \<Rightarrow> Fault)
         | vt_text \<Rightarrow> (case vany v of AnyText (Some t) s \<Rightarrow> c_atol t | _ \<Rightarrow> Fault)
         | _ \<Rightarrow> Ret 0))"

definition sqliterkValuesGetInteger :: "sqliterk_values option \<Rightarrow> int \<Rightarrow> int cres" where
  "sqliterkValuesGetInteger values index =
     cbind (sqliterkValuesGetInteger64 values index) (\<lambda>i. Ret (c_int i))"

text \<open>\<open>i2d\<close> is the conversion \<^verbatim>\<open>(double) int64\<close> and \<open>atof\<close> the C library function; both only pass
  a value through.\<close>

definition sqliterkValuesGetNumber ::
    "(int \<Rightarrow> 64 word) \<Rightarrow> (byte list \<Rightarrow> 64 word) \<Rightarrow> sqliterk_values option \<Rightarrow> int \<Rightarrow> (64 word) cres"
  where
  "sqliterkValuesGetNumber i2d atof values index =
     cbind (value_at values index) (\<lambda>v.
       case v of None \<Rightarrow> Ret 0
       | Some v \<Rightarrow> (case vtype v of
           vt_integer \<Rightarrow> (case vany v of AnyInteger i \<Rightarrow> Ret (i2d i) | _ \<Rightarrow> Fault)
         | vt_number \<Rightarrow> (case vany v of AnyNumber d \<Rightarrow> Ret d | _ \<Rightarrow> Fault)
         | vt_text \<Rightarrow> (case vany v of AnyText (Some t) s \<Rightarrow> Ret (atof t) | _ \<Rightarrow> Fault)
         | _ \<Rightarrow> Ret 0))"

definition sqliterkValuesGetText :: "sqliterk_values option \<Rightarrow> int \<Rightarrow> byte list option cres" where
  "sqliterkValuesGetText values index =
     cbind (value_at values index) (\<lambda>v.
       case v of None \<Rightarrow> Ret None
       | Some v \<Rightarrow> (case vtype v of
           vt_text \<Rightarrow> (case vany v of AnyText t s \<Rightarrow> Ret t | _ \<Rightarrow> Fault)
         | _ \<Rightarrow> Ret None))"

definition sqliterkValuesGetBinary :: "sqliterk_values option \<Rightarrow> int \<Rightarrow> byte list option cres" where
  "sqliterkValuesGetBinary values index =
     cbind (value_at values index) (\<lambda>v.
       case v of None \<Rightarrow> Ret None
       | Some v \<Rightarrow> (case vtype v of
           vt_binary \<Rightarrow> (case vany v of AnyBinary b s \<Rightarrow> Ret b | _ \<Rightarrow> Fault)
         | _ \<Rightarrow> Ret None))"

definition sqliterkValuesGetBytes :: "sqliterk_values option \<Rightarrow> int \<Rightarrow> int cres" where
  "sqliterkValuesGetBytes values index =
     cbind (value_at values index) (\<lambda>v.
       case v of None \<Rightarrow> Ret 0
       | Some v \<Rightarrow> (case vtype v of
           vt_binary \<Rightarrow> (case vany v of AnyBinary b s \<Rightarrow> Ret s | _ \<Rightarrow> Fault)
         | vt_text \<Rightarrow> (case vany v of AnyText t s \<Rightarrow> Ret s | _ \<Rightarrow> Fault)
         | _ \<Rightarrow> Ret 0))"

section \<open>Invariant and abstraction\<close>

datatype item = INull | IInt int | INum "64 word" | IText "byte list" | IBlob "byte list"

text \<open>The value a well-formed slot stands for; \<open>None\<close> when type and union member disagree.\<close>

fun item_of :: "sqliterk_value \<Rightarrow> item option" where
  "item_of v = (case (vtype v, vany v) of
       (vt_null, AnyNull) \<Rightarrow> Some INull
     | (vt_integer, AnyInteger i) \<Rightarrow> Some (IInt i)
     | (vt_number, AnyNumber d) \<Rightarrow> Some (INum d)
     | (vt_text, AnyText (Some t) s) \<Rightarrow>
         if 0 \<le> s \<and> length t = nat s + 1 \<and> last t = 0 then Some (IText (butlast t)) else None
     | (vt_binary, AnyBinary (Some b) s) \<Rightarrow>
         if 0 \<le> s \<and> length b = 8 * nat s then Some (IBlob (take (nat s) b)) else None
     | _ \<Rightarrow> None)"

declare item_of.simps [simp del]

definition values_wf :: "sqliterk_values \<Rightarrow> bool" where
  "values_wf vs \<longleftrightarrow> 0 \<le> vcount vs \<and> vcount vs \<le> vcapacity vs \<and> 4 \<le> vcapacity vs \<and>
     (case slots vs of None \<Rightarrow> False
      | Some xs \<Rightarrow> int (length xs) = vcapacity vs + 1 \<and>
                  (\<forall>v \<in> set (take (nat (vcount vs)) xs). item_of v \<noteq> None))"

definition items :: "sqliterk_values \<Rightarrow> item list" where
  "items vs = map (the \<circ> item_of) (take (nat (vcount vs)) (the (slots vs)))"

text \<open>Allocated blocks: the array object, its slots, and those of the stored values.\<close>

definition value_blocks :: "sqliterk_value \<Rightarrow> int" where
  "value_blocks v = (case vany v of AnyNull \<Rightarrow> 0 | AnyInteger _ \<Rightarrow> 1 | AnyNumber _ \<Rightarrow> 1
     | AnyText t _ \<Rightarrow> (if t = None then 1 else 2) | AnyBinary b _ \<Rightarrow> (if b = None then 1 else 2))"

definition blocks :: "sqliterk_values \<Rightarrow> int" where
  "blocks vs = (case slots vs of None \<Rightarrow> 1
     | Some xs \<Rightarrow> 2 + sum_list (map value_blocks (take (nat (vcount vs)) xs)))"

section \<open>Adding a value\<close>

lemma autogrow_ok:
  assumes "values_wf vs" "sqliterkValuesAutoGrow (Some vs) h = Ret (0, r, h')"
  shows "\<exists>vs'. r = Some vs' \<and> values_wf vs' \<and> vcount vs' = vcount vs \<and> vcount vs' < vcapacity vs' \<and>
    items vs' = items vs \<and> blocks vs' = blocks vs \<and> live h' = live h"
proof -
  obtain xs where xs: "slots vs = Some xs" "int (length xs) = vcapacity vs + 1"
    "0 \<le> vcount vs" "vcount vs \<le> vcapacity vs" "4 \<le> vcapacity vs"
    "\<forall>v \<in> set (take (nat (vcount vs)) xs). item_of v \<noteq> None"
    using assms(1) by (auto simp: values_wf_def split: option.splits)
  show ?thesis
  proof (cases "vcount vs \<ge> vcapacity vs")
    case False
    then show ?thesis using assms by (auto simp: sqliterkValuesAutoGrow_def)
  next
    case True
    then have eq: "vcount vs = vcapacity vs" using xs by simp
    obtain ok h1 where al: "c_alloc h = (ok, h1)" by fastforce
    let ?c = "vcapacity vs"
    let ?new = "take (nat ?c) xs @ replicate (nat (?c + 1)) zero_value"
    have r: "ok" "\<not> ?c * 2 > INT_MAX" "h' = c_free h1"
      "r = Some (vs\<lparr>vcapacity := ?c * 2, slots := Some ?new\<rparr>)"
    proof -
      have n: "nat (?c * 2 + 1) - nat ?c = nat (?c + 1)" "min (nat ?c) (length xs) = nat ?c"
        using xs by linarith+
      show "ok" "\<not> ?c * 2 > INT_MAX" "h' = c_free h1"
        "r = Some (vs\<lparr>vcapacity := ?c * 2, slots := Some ?new\<rparr>)"
        using assms(2) True xs al n
        by (auto simp: sqliterkValuesAutoGrow_def Let_def cres_simps split: if_splits)
    qed
    have "live h1 = live h + 1" using c_alloc_live [OF al] r(1) by simp
    moreover have "length ?new = nat (2 * ?c + 1)" using xs by (simp add: nat_add_distrib)
    moreover have "take (nat ?c) ?new = take (nat ?c) xs" using xs by simp
    ultimately show ?thesis
      using xs r by (auto simp: values_wf_def items_def blocks_def eq)
  qed
qed

lemma values_add_ok:
  assumes "values_wf vs" "values_add store (Some vs) h = Ret (0, r, h')"
    and store: "\<And>h v h'. store h = Ret (0, v, h') \<Longrightarrow> item_of v = Some x \<and> live h' = live h + value_blocks v"
  shows "\<exists>vs'. r = Some vs' \<and> values_wf vs' \<and> items vs' = items vs @ [x] \<and>
    live h' - live h = blocks vs' - blocks vs"
proof -
  from assms(2) obtain vs1 h1 v h2 vs2 where
    g: "sqliterkValuesAutoGrow (Some vs) h = Ret (0, Some vs1, h1)" and
    s: "store h1 = Ret (0, v, h')" and p: "put_slot vs1 v = Ret vs2" and
    r: "r = Some (vs2\<lparr>vcount := vcount vs2 + 1\<rparr>)"
    by (auto simp: values_add_def cres_simps split: if_splits option.splits)
  from autogrow_ok [OF assms(1) g] have vs1: "values_wf vs1" "vcount vs1 < vcapacity vs1"
    "items vs1 = items vs" "blocks vs1 = blocks vs" "live h1 = live h" by auto
  then obtain xs where xs: "slots vs1 = Some xs" "int (length xs) = vcapacity vs1 + 1" "0 \<le> vcount vs1"
    "\<forall>v \<in> set (take (nat (vcount vs1)) xs). item_of v \<noteq> None" "4 \<le> vcapacity vs1"
    by (auto simp: values_wf_def split: option.splits)
  let ?n = "nat (vcount vs1)"
  have n: "?n < length xs" "nat (vcount vs1 + 1) = Suc ?n" using xs vs1(2) by linarith+
  have tk: "take (Suc ?n) (xs[?n := v]) = take ?n xs @ [v]"
    using n by (simp add: take_Suc_conv_app_nth)
  have vs2: "vs2 = vs1\<lparr>slots := Some (xs[?n := v])\<rparr>"
    using p xs by (auto simp: put_slot_def split: if_splits)
  show ?thesis
    using store [OF s] xs vs1 n tk
    by (auto simp: r vs2 values_wf_def items_def blocks_def)
qed

lemma store_ok:
  "store_integer i h = Ret (0, v, h') \<Longrightarrow> item_of v = Some (IInt i) \<and> live h' = live h + value_blocks v"
  "store_number d h = Ret (0, v, h') \<Longrightarrow> item_of v = Some (INum d) \<and> live h' = live h + value_blocks v"
  "store_text t (int (length t)) h = Ret (0, v, h') \<Longrightarrow> item_of v = Some (IText t) \<and> live h' = live h + value_blocks v"
  "store_binary t (int (length t)) h = Ret (0, v, h') \<Longrightarrow> item_of v = Some (IBlob t) \<and> live h' = live h + value_blocks v"
  by (auto simp: store_integer_def store_number_def store_text_def store_binary_def cres_simps item_of.simps
    value_blocks_def Let_def dest!: c_alloc_live split: prod.splits if_splits)

definition add_item :: "item \<Rightarrow> sqliterk_values \<Rightarrow> heap \<Rightarrow> (int \<times> sqliterk_values option \<times> heap) cres" where
  "add_item x vs h = (case x of
       INull \<Rightarrow> sqliterkValuesAddNull (Some vs) h
     | IInt i \<Rightarrow> sqliterkValuesAddInteger64 (Some vs) i h
     | INum d \<Rightarrow> sqliterkValuesAddNumber (Some vs) d h
     | IText t \<Rightarrow> sqliterkValuesAddNoTerminatorText (Some vs) (Some t) (int (length t)) h
     | IBlob b \<Rightarrow> sqliterkValuesAddBinary (Some vs) (Some b) (int (length b)) h)"

lemma add_item_ok:
  assumes "values_wf vs" "add_item x vs h = Ret (0, r, h')"
  shows "\<exists>vs'. r = Some vs' \<and> values_wf vs' \<and> items vs' = items vs @ [x] \<and>
    live h' - live h = blocks vs' - blocks vs"
proof (cases x)
  case INull
  show ?thesis
    using assms unfolding add_item_def INull sqliterkValuesAddNull_def
    by (auto intro!: values_add_ok simp: item_of.simps value_blocks_def)
next
  case (IInt i)
  show ?thesis
    using assms unfolding add_item_def IInt sqliterkValuesAddInteger64_def
    by (auto intro!: values_add_ok dest: store_ok)
next
  case (INum i)
  show ?thesis
    using assms unfolding add_item_def INum sqliterkValuesAddNumber_def
    by (auto intro!: values_add_ok dest: store_ok)
next
  case (IText i)
  show ?thesis
    using assms unfolding add_item_def IText sqliterkValuesAddNoTerminatorText_def
    by (auto intro!: values_add_ok dest: store_ok)
next
  case (IBlob i)
  show ?thesis
    using assms unfolding add_item_def IBlob sqliterkValuesAddBinary_def
    by (auto intro!: values_add_ok dest: store_ok)
qed

section \<open>The interface of the record parser\<close>

text \<open>
  What a consumer of the array relies on: a push that returns \<^verbatim>\<open>SQLITERK_OK\<close> appends the value,
  keeps the invariant and is accounted for in the allocated blocks. Pushing a list of values
  with the error handling of the callers then appends them all.
\<close>

locale value_sink =
  fixes push :: "'a \<Rightarrow> 's \<Rightarrow> heap \<Rightarrow> (int \<times> 's option \<times> heap) cres"
    and contents :: "'s \<Rightarrow> 'a list"
    and inv :: "'s \<Rightarrow> bool"
    and cost :: "'s \<Rightarrow> int"
  assumes push_ok: "inv s \<Longrightarrow> push x s h = Ret (0, r, h') \<Longrightarrow>
    \<exists>s'. r = Some s' \<and> inv s' \<and> contents s' = contents s @ [x] \<and> live h' - live h = cost s' - cost s"
begin

primrec push_all :: "'a list \<Rightarrow> 's option \<Rightarrow> heap \<Rightarrow> (int \<times> 's option \<times> heap) cres" where
  "push_all [] s h = Ret (0, s, h)"
| "push_all (x # xs) s h =
     (case s of None \<Rightarrow> Fault
      | Some s \<Rightarrow> cbind (push x s h) (\<lambda>(rc, s, h). if rc \<noteq> 0 then Ret (rc, s, h) else push_all xs s h))"

lemma push_all_ok:
  "inv s \<Longrightarrow> push_all xs (Some s) h = Ret (0, r, h') \<Longrightarrow>
    \<exists>s'. r = Some s' \<and> inv s' \<and> contents s' = contents s @ xs \<and> live h' - live h = cost s' - cost s"
proof (induction xs arbitrary: s h)
  case (Cons x xs)
  from Cons.prems(2) obtain r1 h1 where p: "push x s h = Ret (0, r1, h1)" and
    rest: "push_all xs r1 h1 = Ret (0, r, h')"
    by (auto simp: cres_simps split: if_splits)
  from push_ok [OF Cons.prems(1) p] obtain s1 where s1: "r1 = Some s1" "inv s1"
    "contents s1 = contents s @ [x]" "live h1 - live h = cost s1 - cost s" by blast
  from Cons.IH [OF s1(2) rest [unfolded s1(1)]] s1 show ?case by auto
qed auto

end

interpretation rk_values: value_sink add_item items values_wf blocks
  by unfold_locales (rule add_item_ok)

section \<open>Releasing the array\<close>

lemma value_clear_ok:
  assumes "item_of v \<noteq> None"
  shows "\<exists>h'. sqliterkValueClear v h = Ret (zero_value, h') \<and> live h' = live h - value_blocks v"
  using assms
  by (auto simp: sqliterkValueClear_def item_of.simps value_blocks_def zero_value_def
      split: value_type.splits any.splits option.splits if_splits)

lemma clear_loop_ok:
  "i + n \<le> length xs \<Longrightarrow> \<forall>v \<in> set (take n (drop i xs)). item_of v \<noteq> None \<Longrightarrow>
   \<exists>xs' h'. clear_loop n i (Some xs) h = Ret (Some xs', h') \<and> length xs' = length xs \<and>
     live h' = live h - sum_list (map value_blocks (take n (drop i xs)))"
proof (induction n arbitrary: i xs h)
  case (Suc n)
  then have i: "i < length xs" by simp
  have d: "take (Suc n) (drop i xs) = xs ! i # take n (drop (Suc i) xs)"
    using i by (simp add: Cons_nth_drop_Suc [symmetric])
  obtain h1 where c: "sqliterkValueClear (xs ! i) h = Ret (zero_value, h1)"
    "live h1 = live h - value_blocks (xs ! i)"
    using value_clear_ok [of "xs ! i" h] Suc.prems d by auto
  have "drop (Suc i) (xs[i := zero_value]) = drop (Suc i) xs" by simp
  moreover have "\<exists>xs' h'. clear_loop n (Suc i) (Some (xs[i := zero_value])) h1 = Ret (Some xs', h') \<and>
      length xs' = length (xs[i := zero_value]) \<and>
      live h' = live h1 - sum_list (map value_blocks (take n (drop (Suc i) (xs[i := zero_value]))))"
    using Suc.prems d by (intro Suc.IH) auto
  ultimately show ?case using i c by (auto simp: d rd_def)
qed simp

lemma values_free_ok:
  assumes "values_wf vs"
  shows "\<exists>h'. sqliterkValuesFree (Some vs) h = Ret (SQLITERK_OK, h') \<and> live h' = live h - blocks vs"
proof -
  obtain xs where xs: "slots vs = Some xs" "nat (vcount vs) \<le> length xs"
    "\<forall>v \<in> set (take (nat (vcount vs)) xs). item_of v \<noteq> None"
    using assms by (auto simp: values_wf_def split: option.splits)
  then show ?thesis
    using clear_loop_ok [of 0 "nat (vcount vs)" xs h]
    by (auto simp: sqliterkValuesFree_def blocks_def Let_def)
qed

lemma values_clear_ok:
  assumes "values_wf vs"
  shows "\<exists>vs' h'. sqliterkValuesClear (Some vs) h = Ret (SQLITERK_OK, Some vs', h') \<and>
    values_wf vs' \<and> items vs' = [] \<and> live h' - live h = blocks vs' - blocks vs"
proof -
  obtain xs where xs: "slots vs = Some xs" "nat (vcount vs) \<le> length xs"
    "\<forall>v \<in> set (take (nat (vcount vs)) xs). item_of v \<noteq> None"
    using assms by (auto simp: values_wf_def split: option.splits)
  then show ?thesis
    using clear_loop_ok [of 0 "nat (vcount vs)" xs h] assms
    by (auto simp: sqliterkValuesClear_def blocks_def values_wf_def items_def)
qed

lemma values_alloc_ok:
  "sqliterkValuesAlloc h = Ret (Inr vs, h') \<Longrightarrow>
     values_wf vs \<and> items vs = [] \<and> live h' = live h + blocks vs"
  by (auto simp: sqliterkValuesAlloc_def sqliterkValuesAutoGrow_def Let_def cres_simps values_wf_def
      items_def blocks_def dest!: c_alloc_live split: prod.splits if_splits option.splits)

lemma values_alloc_fail:
  "sqliterkValuesAlloc h = Ret (Inl rc, h') \<Longrightarrow> rc = SQLITERK_NOMEM \<and> live h' = live h"
  by (auto simp: sqliterkValuesAlloc_def sqliterkValuesAutoGrow_def sqliterkValuesFree_def Let_def cres_simps
      dest!: c_alloc_live split: prod.splits if_splits option.splits)

section \<open>Reading back\<close>

lemma value_at_item:
  assumes "values_wf vs" "i < length (items vs)"
  obtains v where "value_at (Some vs) (int i) = Ret (Some v)" "item_of v = Some (items vs ! i)"
proof -
  obtain xs where xs: "slots vs = Some xs" "int (length xs) = vcapacity vs + 1"
    "0 \<le> vcount vs" "vcount vs \<le> vcapacity vs"
    "\<forall>v \<in> set (take (nat (vcount vs)) xs). item_of v \<noteq> None"
    using assms by (auto simp: values_wf_def split: option.splits)
  have i: "i < nat (vcount vs)" "i < length xs"
    using assms(2) xs by (auto simp: items_def)
  then have "xs ! i \<in> set (take (nat (vcount vs)) xs)"
    by (auto simp: in_set_conv_nth intro!: exI [of _ i])
  then have "item_of (xs ! i) = Some (items vs ! i)" using xs i by (auto simp: items_def)
  moreover have "value_at (Some vs) (int i) = Ret (Some (xs ! i))"
    using xs i by (simp add: value_at_def sqliterkValuesGetCount_def rd_def)
  ultimately show ?thesis using that by blast
qed

lemmas getter_defs = sqliterkValuesGetType_def sqliterkValuesGetInteger64_def
  sqliterkValuesGetText_def sqliterkValuesGetBinary_def sqliterkValuesGetBytes_def

lemma values_get:
  assumes "values_wf vs" "i < length (items vs)"
  shows "case items vs ! i of
      INull \<Rightarrow> sqliterkValuesGetType (Some vs) (int i) = Ret vt_null \<and>
               sqliterkValuesGetInteger64 (Some vs) (int i) = Ret 0
    | IInt n \<Rightarrow> sqliterkValuesGetType (Some vs) (int i) = Ret vt_integer \<and>
               sqliterkValuesGetInteger64 (Some vs) (int i) = Ret n
    | INum d \<Rightarrow> sqliterkValuesGetType (Some vs) (int i) = Ret vt_number \<and>
               sqliterkValuesGetInteger64 (Some vs) (int i) = double_to_int64 d
    | IText t \<Rightarrow> sqliterkValuesGetType (Some vs) (int i) = Ret vt_text \<and>
               sqliterkValuesGetText (Some vs) (int i) = Ret (Some (t @ [0])) \<and>
               sqliterkValuesGetBytes (Some vs) (int i) = Ret (int (length t))
    | IBlob b \<Rightarrow> sqliterkValuesGetType (Some vs) (int i) = Ret vt_binary \<and>
               (\<exists>pad. sqliterkValuesGetBinary (Some vs) (int i) = Ret (Some (b @ pad))) \<and>
               sqliterkValuesGetBytes (Some vs) (int i) = Ret (int (length b))"
proof -
  obtain v where v: "value_at (Some vs) (int i) = Ret (Some v)" "item_of v = Some (items vs ! i)"
    using value_at_item [OF assms] .
  show ?thesis
  proof (cases "items vs ! i")
    case (IText t)
    with v obtain t' s where v': "vtype v = vt_text" "vany v = AnyText (Some t') s" "0 \<le> s"
      "length t' = nat s + 1" "last t' = 0" "t = butlast t'"
      by (auto simp: item_of.simps split: value_type.splits any.splits option.splits if_splits)
    then have "t' \<noteq> []" by auto
    then have "t @ [0] = t'" using v' append_butlast_last_id [of t'] by simp
    with v v' IText show ?thesis by (simp add: getter_defs)
  next
    case (IBlob b)
    with v obtain b' s where v': "vtype v = vt_binary" "vany v = AnyBinary (Some b') s" "0 \<le> s"
      "length b' = 8 * nat s" "b = take (nat s) b'"
      by (auto simp: item_of.simps split: value_type.splits any.splits option.splits if_splits)
    then have "\<exists>pad. b' = b @ pad" by (metis append_take_drop_id)
    with v v' IBlob show ?thesis by (auto simp: getter_defs)
  qed (use v in \<open>auto simp: getter_defs item_of.simps split: value_type.splits any.splits option.splits if_splits\<close>)
qed

section \<open>When memory suffices, and when it does not\<close>

lemma autogrow_total:
  assumes "values_wf vs" "2 * vcapacity vs \<le> INT_MAX" "outcomes h = []"
  shows "\<exists>r h'. sqliterkValuesAutoGrow (Some vs) h = Ret (0, r, h') \<and> outcomes h' = []"
  using assms
  by (auto simp: sqliterkValuesAutoGrow_def values_wf_def c_alloc_no_oom Let_def rd_bytes_def wr_bytes_def
      split: option.splits)

lemma values_add_total:
  assumes "values_wf vs" "2 * vcapacity vs \<le> INT_MAX" "outcomes h = []"
    and store: "\<And>h. outcomes h = [] \<Longrightarrow> \<exists>v h'. store h = Ret (0, v, h')"
  shows "\<exists>r h'. values_add store (Some vs) h = Ret (0, r, h')"
proof -
  obtain r1 h1 where g: "sqliterkValuesAutoGrow (Some vs) h = Ret (0, r1, h1)" "outcomes h1 = []"
    using autogrow_total [OF assms(1-3)] by blast
  obtain vs1 where vs1: "r1 = Some vs1" "values_wf vs1" "vcount vs1 < vcapacity vs1"
    using autogrow_ok [OF assms(1) g(1)] by blast
  obtain v h2 where s: "store h1 = Ret (0, v, h2)" using store [OF g(2)] by blast
  have "\<exists>vs2. put_slot vs1 v = Ret vs2"
    using vs1 by (auto simp: put_slot_def values_wf_def split: option.splits)
  with g vs1 s show ?thesis by (auto simp: values_add_def)
qed

lemma add_item_total:
  assumes "values_wf vs" "2 * vcapacity vs \<le> INT_MAX" "outcomes h = []"
    and "case x of IText t \<Rightarrow> int (length t) < INT_MAX | _ \<Rightarrow> True"
  shows "\<exists>r h'. add_item x vs h = Ret (0, r, h')"
  using assms(4)
  by (cases x)
     (auto intro!: values_add_total [OF assms(1-3)] simp: add_item_def sqliterkValuesAddNull_def
       sqliterkValuesAddInteger64_def sqliterkValuesAddNumber_def sqliterkValuesAddNoTerminatorText_def
       sqliterkValuesAddBinary_def store_integer_def store_number_def store_text_def store_binary_def
       c_alloc_no_oom rd_bytes_def)

lemma add_null_room:
  "vcount vs < vcapacity vs \<Longrightarrow>
   sqliterkValuesAddNull (Some vs) h =
     cbind (put_slot vs zero_value) (\<lambda>vs. Ret (0, Some (vs\<lparr>vcount := vcount vs + 1\<rparr>), h))"
  by (simp add: sqliterkValuesAddNull_def values_add_def sqliterkValuesAutoGrow_def zero_value_def)

lemma growth_failure_overflow:
  assumes "values_wf vs" "vcount vs = vcapacity vs" "2 * vcapacity vs \<le> INT_MAX" "outcomes h = [False]"
  shows "\<exists>vs1 h1 vs2. sqliterkValuesAddNull (Some vs) h = Ret (SQLITERK_NOMEM, Some vs1, h1) \<and>
     sqliterkValuesAddNull (Some vs1) h1 = Ret (SQLITERK_OK, Some vs2, h1) \<and>
     sqliterkValuesAddNull (Some vs2) h1 = Fault"
proof -
  obtain xs where xs: "slots vs = Some xs" "int (length xs) = vcapacity vs + 1" "4 \<le> vcapacity vs"
    using assms by (auto simp: values_wf_def split: option.splits)
  let ?vs1 = "vs\<lparr>vcapacity := vcapacity vs * 2\<rparr>"
  let ?vs2 = "?vs1\<lparr>slots := Some (xs[nat (vcount vs) := zero_value]), vcount := vcount vs + 1\<rparr>"
  have 1: "sqliterkValuesAddNull (Some vs) h = Ret (SQLITERK_NOMEM, Some ?vs1, h\<lparr>outcomes := []\<rparr>)"
    using assms xs
    by (simp add: sqliterkValuesAddNull_def values_add_def sqliterkValuesAutoGrow_def c_alloc_def)
  have 2: "sqliterkValuesAddNull (Some ?vs1) h1 = Ret (SQLITERK_OK, Some ?vs2, h1)" for h1
    using assms(2) xs by (simp add: add_null_room put_slot_def)
  have 3: "sqliterkValuesAddNull (Some ?vs2) h1 = Fault" for h1
    using assms(2) xs by (simp add: add_null_room put_slot_def)
  show ?thesis using 1 2 3 by blast
qed

lemma binary_leak:
  assumes "values_wf vs" "vcount vs < vcapacity vs" "outcomes h = [True, False]"
  shows "\<exists>vs' h'. sqliterkValuesAddBinary (Some vs) (Some b) s h = Ret (SQLITERK_NOMEM, Some vs', h') \<and>
     items vs' = items vs \<and> values_wf vs' \<and> blocks vs' = blocks vs \<and> live h' = live h + 1"
proof -
  obtain xs where xs: "slots vs = Some xs" "int (length xs) = vcapacity vs + 1" "0 \<le> vcount vs"
    using assms by (auto simp: values_wf_def split: option.splits)
  then show ?thesis
    using assms
    by (auto simp: sqliterkValuesAddBinary_def values_add_def sqliterkValuesAutoGrow_def store_binary_def
        put_slot_def c_alloc_def values_wf_def items_def blocks_def)
qed

section \<open>Properties\<close>

text \<open>C6: refinement of a list. Each adder of the array that returns \<^verbatim>\<open>SQLITERK_OK\<close> keeps the
  invariant and appends exactly the value it was given to the stored list, with every block it
  allocated accounted for.\<close>

theorem values_add_refines:
  "values_wf vs \<Longrightarrow> add_item x vs h = Ret (SQLITERK_OK, r, h') \<Longrightarrow>
   \<exists>vs'. r = Some vs' \<and> values_wf vs' \<and> items vs' = items vs @ [x] \<and>
     live h' - live h = blocks vs' - blocks vs"
  by (rule add_item_ok)

theorem values_add_refines_witness:
  "\<exists>vs r h'. values_wf vs \<and> add_item (IInt 7) vs \<lparr>outcomes = [], live = 0\<rparr> = Ret (SQLITERK_OK, r, h') \<and>
     (\<exists>vs'. r = Some vs' \<and> items vs' = items vs @ [IInt 7])"
proof -
  let ?vs = "\<lparr>vcount = 0, vcapacity = 4, slots = Some (replicate 5 zero_value)\<rparr>"
  have w: "values_wf ?vs" by (simp add: values_wf_def)
  obtain r h' where a: "add_item (IInt 7) ?vs \<lparr>outcomes = [], live = 0\<rparr> = Ret (SQLITERK_OK, r, h')"
    using add_item_total [OF w, of "\<lparr>outcomes = [], live = 0\<rparr>" "IInt 7"] by auto
  from values_add_refines [OF w a] w a show ?thesis by blast
qed

text \<open>C39: with memory available and room for the doubled capacity in an \<^verbatim>\<open>int\<close>, every adder returns
  \<^verbatim>\<open>SQLITERK_OK\<close>: it neither faults nor reports an error.\<close>

theorem values_add_returns:
  assumes "values_wf vs" "2 * vcapacity vs \<le> INT_MAX" "outcomes h = []"
    and "case x of IText t \<Rightarrow> int (length t) < INT_MAX | _ \<Rightarrow> True"
  shows "\<exists>r h'. add_item x vs h = Ret (SQLITERK_OK, r, h')"
  by (rule add_item_total [OF assms])

theorem values_add_returns_witness:
  "\<exists>r h'. add_item (IText [104, 105]) \<lparr>vcount = 0, vcapacity = 4, slots = Some (replicate 5 zero_value)\<rparr>
     \<lparr>outcomes = [], live = 3\<rparr> = Ret (SQLITERK_OK, r, h')"
  by (rule values_add_returns) (simp_all add: values_wf_def)

definition sample_values :: sqliterk_values where
  "sample_values = \<lparr>vcount = 1, vcapacity = 4,
     slots = Some (\<lparr>vtype = vt_text, vany = AnyText (Some [104, 105, 0]) 2\<rparr> # replicate 4 zero_value)\<rparr>"

text \<open>Life cycle without leaks. An array that was allocated, filled by adders that all returned
  \<^verbatim>\<open>SQLITERK_OK\<close>, holds exactly the pushed values, and freeing it succeeds and releases
  every block allocated since.\<close>

theorem values_lifecycle:
  assumes "sqliterkValuesAlloc h = Ret (Inr vs, h1)"
    and "rk_values.push_all xs (Some vs) h1 = Ret (SQLITERK_OK, r, h2)"
  shows "\<exists>vs' h3. r = Some vs' \<and> items vs' = xs \<and>
     sqliterkValuesFree (Some vs') h2 = Ret (SQLITERK_OK, h3) \<and> live h3 = live h"
proof -
  have v: "values_wf vs" "items vs = []" "live h1 = live h + blocks vs"
    using values_alloc_ok [OF assms(1)] by simp_all
  obtain vs' where v': "r = Some vs'" "values_wf vs'" "items vs' = xs" "live h2 - live h1 = blocks vs' - blocks vs"
    using rk_values.push_all_ok [OF v(1) assms(2)] v(2) by auto
  then show ?thesis using values_free_ok [OF v'(2), of h2] v(3) by auto
qed

theorem values_lifecycle_witness:
  "\<exists>vs h1 r h2. sqliterkValuesAlloc \<lparr>outcomes = [], live = 0\<rparr> = Ret (Inr vs, h1) \<and>
     rk_values.push_all [IInt 1, INull] (Some vs) h1 = Ret (SQLITERK_OK, r, h2) \<and>
     (\<exists>vs' h3. r = Some vs' \<and> items vs' = [IInt 1, INull] \<and>
       sqliterkValuesFree (Some vs') h2 = Ret (SQLITERK_OK, h3) \<and> live h3 = 0)"
proof -
  let ?vs = "\<lparr>vcount = 0, vcapacity = 4, slots = Some (replicate 5 zero_value)\<rparr>"
  have a: "sqliterkValuesAlloc \<lparr>outcomes = [], live = 0\<rparr> = Ret (Inr ?vs, \<lparr>outcomes = [], live = 2\<rparr>)"
    by (simp add: sqliterkValuesAlloc_def sqliterkValuesAutoGrow_def c_alloc_def)
  obtain r h2 where p: "rk_values.push_all [IInt 1, INull] (Some ?vs) \<lparr>outcomes = [], live = 2\<rparr> = Ret (SQLITERK_OK, r, h2)"
    by (simp add: add_item_def sqliterkValuesAddInteger64_def sqliterkValuesAddNull_def values_add_def
        sqliterkValuesAutoGrow_def store_integer_def c_alloc_def put_slot_def)
  from values_lifecycle [OF a p] a p show ?thesis by auto
qed

text \<open>C40: an allocation failure while the array grows leaves \<^verbatim>\<open>capacity\<close> doubled but the old buffer
  in place: the adder reports \<^verbatim>\<open>SQLITERK_NOMEM\<close>, the next one still fits in the spare slot, and
  the one after that writes past the end of the buffer.\<close>

theorem values_growth_failure_overflow:
  assumes "values_wf vs" "vcount vs = vcapacity vs" "2 * vcapacity vs \<le> INT_MAX" "outcomes h = [False]"
  shows "\<exists>vs1 h1 vs2. sqliterkValuesAddNull (Some vs) h = Ret (SQLITERK_NOMEM, Some vs1, h1) \<and>
     sqliterkValuesAddNull (Some vs1) h1 = Ret (SQLITERK_OK, Some vs2, h1) \<and>
     sqliterkValuesAddNull (Some vs2) h1 = Fault"
  by (rule growth_failure_overflow [OF assms])

theorem values_growth_failure_overflow_witness:
  "\<exists>vs1 h1 vs2. sqliterkValuesAddNull (Some \<lparr>vcount = 4, vcapacity = 4, slots = Some (replicate 5 zero_value)\<rparr>)
       \<lparr>outcomes = [False], live = 2\<rparr> = Ret (SQLITERK_NOMEM, Some vs1, h1) \<and>
     sqliterkValuesAddNull (Some vs1) h1 = Ret (SQLITERK_OK, Some vs2, h1) \<and>
     sqliterkValuesAddNull (Some vs2) h1 = Fault"
  by (rule values_growth_failure_overflow)
     (simp_all add: values_wf_def zero_value_def item_of.simps)

text \<open>When the second allocation of \<^verbatim>\<open>sqliterkValuesAddBinary\<close> fails, the stored list is as before
  but the first block is still allocated and no longer accounted for by the array: it leaks.\<close>

theorem values_binary_leak:
  assumes "values_wf vs" "vcount vs < vcapacity vs" "outcomes h = [True, False]"
  shows "\<exists>vs' h'. sqliterkValuesAddBinary (Some vs) (Some b) s h = Ret (SQLITERK_NOMEM, Some vs', h') \<and>
     items vs' = items vs \<and> values_wf vs' \<and> blocks vs' = blocks vs \<and> live h' = live h + 1"
  by (rule binary_leak [OF assms])

theorem values_binary_leak_witness:
  "\<exists>vs' h'. sqliterkValuesAddBinary (Some sample_values) (Some [1, 2]) 2 \<lparr>outcomes = [True, False], live = 4\<rparr> =
       Ret (SQLITERK_NOMEM, Some vs', h') \<and>
     items vs' = items sample_values \<and> values_wf vs' \<and> blocks vs' = blocks sample_values \<and> live h' = 5"
  using values_binary_leak [of sample_values "\<lparr>outcomes = [True, False], live = 4\<rparr>" "[1, 2]" 2]
  by (simp add: values_wf_def sample_values_def item_of.simps)

end
