(* ===== verification/RK_Column.thy ===== *)
theory RK_Column
  imports RK_Values
begin

text \<open>
  One row under construction (\<^verbatim>\<open>sqliterk_column.c\<close>): its rowid, its values and the numbers of the
  overflow pages it was read from. A pointer to a column is a \<open>sqliterk_column option\<close>; each of
  the two arrays is a pointer again.
\<close>

record sqliterk_column =
  crowid :: int
  cvalues :: "sqliterk_values option"
  coverflow :: "sqliterk_values option"

definition sqliterkColumnFree :: "sqliterk_column option \<Rightarrow> heap \<Rightarrow> (int \<times> heap) cres" where
  "sqliterkColumnFree column h =
     (case column of None \<Rightarrow> Ret (SQLITERK_MISUSE, h)
      | Some c \<Rightarrow>
        cbind (if coverflow c \<noteq> None then sqliterkValuesFree (coverflow c) h else Ret (0, h)) (\<lambda>(_, h).
        cbind (if cvalues c \<noteq> None then sqliterkValuesFree (cvalues c) h else Ret (0, h)) (\<lambda>(_, h).
          Ret (SQLITERK_OK, c_free h))))"

definition sqliterkColumnAlloc :: "heap \<Rightarrow> ((int + sqliterk_column) \<times> heap) cres" where
  "sqliterkColumnAlloc h =
     (let (ok, h) = c_alloc h in
      if \<not> ok then Ret (Inl SQLITERK_NOMEM, h)
      else let theColumn = \<lparr>crowid = 0, cvalues = None, coverflow = None\<rparr> in
      cbind (sqliterkValuesAlloc h) (\<lambda>(r, h).
        case r of
          Inl rc \<Rightarrow> cbind (sqliterkColumnFree (Some theColumn) h) (\<lambda>(_, h). Ret (Inl rc, h))
        | Inr vs \<Rightarrow>
          let theColumn = theColumn\<lparr>cvalues := Some vs\<rparr> in
          cbind (sqliterkValuesAlloc h) (\<lambda>(r, h).
            case r of
              Inl rc \<Rightarrow> cbind (sqliterkColumnFree (Some theColumn) h) (\<lambda>(_, h). Ret (Inl rc, h))
            | Inr os \<Rightarrow> Ret (Inr (theColumn\<lparr>coverflow := Some os\<rparr>), h))))"

definition sqliterkColumnGetValues :: "sqliterk_column option \<Rightarrow> sqliterk_values option" where
  "sqliterkColumnGetValues column = (case column of None \<Rightarrow> None | Some c \<Rightarrow> cvalues c)"

definition sqliterkColumnSetRowId :: "sqliterk_column option \<Rightarrow> int \<Rightarrow> sqliterk_column option" where
  "sqliterkColumnSetRowId column rowid = map_option (\<lambda>c. c\<lparr>crowid := rowid\<rparr>) column"

definition sqliterkColumnGetRowId :: "sqliterk_column option \<Rightarrow> int" where
  "sqliterkColumnGetRowId column = (case column of None \<Rightarrow> 0 | Some c \<Rightarrow> crowid c)"

definition sqliterkColumnGetOverflowPages :: "sqliterk_column option \<Rightarrow> sqliterk_values option" where
  "sqliterkColumnGetOverflowPages column = (case column of None \<Rightarrow> None | Some c \<Rightarrow> coverflow c)"

definition sqliterkColumnClear ::
    "sqliterk_column option \<Rightarrow> heap \<Rightarrow> (int \<times> sqliterk_column option \<times> heap) cres" where
  "sqliterkColumnClear column h =
     (case column of None \<Rightarrow> Ret (SQLITERK_MISUSE, None, h)
      | Some c \<Rightarrow>
        cbind (sqliterkValuesClear (coverflow c) h) (\<lambda>(_, os, h).
        cbind (sqliterkValuesClear (cvalues c) h) (\<lambda>(_, vs, h).
          Ret (SQLITERK_OK, Some (c\<lparr>crowid := 0, coverflow := os, cvalues := vs\<rparr>), h))))"

section \<open>Invariant\<close>

definition column_wf :: "sqliterk_column \<Rightarrow> bool" where
  "column_wf c \<longleftrightarrow> (\<exists>vs os. cvalues c = Some vs \<and> coverflow c = Some os \<and> values_wf vs \<and> values_wf os)"

definition column_items :: "sqliterk_column \<Rightarrow> item list" where
  "column_items c = items (the (cvalues c))"

definition column_blocks :: "sqliterk_column \<Rightarrow> int" where
  "column_blocks c = 1 + blocks (the (cvalues c)) + blocks (the (coverflow c))"

lemma column_clear_ok:
  assumes "column_wf c"
  shows "\<exists>c' h'. sqliterkColumnClear (Some c) h = Ret (SQLITERK_OK, Some c', h') \<and>
     column_wf c' \<and> crowid c' = 0 \<and> column_items c' = [] \<and>
     items (the (coverflow c')) = [] \<and> live h' - live h = column_blocks c' - column_blocks c"
proof -
  obtain vs os where c: "cvalues c = Some vs" "coverflow c = Some os" "values_wf vs" "values_wf os"
    using assms by (auto simp: column_wf_def)
  obtain os' h1 where o: "sqliterkValuesClear (Some os) h = Ret (SQLITERK_OK, Some os', h1)"
    "values_wf os'" "items os' = []" "live h1 - live h = blocks os' - blocks os"
    using values_clear_ok [OF c(4)] by blast
  obtain vs' h2 where v: "sqliterkValuesClear (Some vs) h1 = Ret (SQLITERK_OK, Some vs', h2)"
    "values_wf vs'" "items vs' = []" "live h2 - live h1 = blocks vs' - blocks vs"
    using values_clear_ok [OF c(3)] by blast
  show ?thesis
    using c o v by (auto simp: sqliterkColumnClear_def column_wf_def column_items_def column_blocks_def)
qed

lemma column_free_ok:
  assumes "column_wf c"
  shows "\<exists>h'. sqliterkColumnFree (Some c) h = Ret (SQLITERK_OK, h') \<and> live h' = live h - column_blocks c"
proof -
  obtain vs os where c: "cvalues c = Some vs" "coverflow c = Some os" "values_wf vs" "values_wf os"
    using assms by (auto simp: column_wf_def)
  obtain h1 where o: "sqliterkValuesFree (Some os) h = Ret (SQLITERK_OK, h1)" "live h1 = live h - blocks os"
    using values_free_ok [OF c(4)] by blast
  obtain h2 where v: "sqliterkValuesFree (Some vs) h1 = Ret (SQLITERK_OK, h2)" "live h2 = live h1 - blocks vs"
    using values_free_ok [OF c(3)] by blast
  show ?thesis
    using c o v by (auto simp: sqliterkColumnFree_def column_blocks_def)
qed

lemma column_alloc_ok:
  assumes "sqliterkColumnAlloc h = Ret (Inr c, h')"
  shows "column_wf c \<and> column_items c = [] \<and> items (the (coverflow c)) = [] \<and> crowid c = 0 \<and>
    live h' = live h + column_blocks c"
proof -
  obtain h1 h2 vs os where a: "c_alloc h = (True, h1)"
    "sqliterkValuesAlloc h1 = Ret (Inr vs, h2)" "sqliterkValuesAlloc h2 = Ret (Inr os, h')"
    "c = \<lparr>crowid = 0, cvalues = Some vs, coverflow = Some os\<rparr>"
    using assms
    by (auto simp: sqliterkColumnAlloc_def Let_def elim!: cbind_RetE
        split: prod.split_asm if_split_asm sum.split_asm)
  show ?thesis
    using a(4) values_alloc_ok [OF a(2)] values_alloc_ok [OF a(3)] c_alloc_live [OF a(1)]
    by (auto simp: column_wf_def column_items_def column_blocks_def)
qed

lemma column_alloc_fail:
  assumes "sqliterkColumnAlloc h = Ret (Inl rc, h')"
  shows "rc = SQLITERK_NOMEM \<and> live h' = live h"
proof -
  obtain ok h1 where al: "c_alloc h = (ok, h1)" by fastforce
  note l = c_alloc_live [OF al]
  show ?thesis
  proof (cases ok)
    case False
    then show ?thesis using assms al l by (simp add: sqliterkColumnAlloc_def)
  next
    case True
    then consider h2 where "sqliterkValuesAlloc h1 = Ret (Inl rc, h2)" "h' = c_free h2"
      | vs h2 h3 where "sqliterkValuesAlloc h1 = Ret (Inr vs, h2)" "sqliterkValuesAlloc h2 = Ret (Inl rc, h3)"
          "sqliterkColumnFree (Some \<lparr>crowid = 0, cvalues = Some vs, coverflow = None\<rparr>) h3 = Ret (0, h')"
      using assms al
      by (auto simp: sqliterkColumnAlloc_def sqliterkColumnFree_def Let_def elim!: cbind_RetE
          split: prod.split_asm if_split_asm sum.split_asm)
    then show ?thesis
    proof cases
      case 1
      then show ?thesis using values_alloc_fail [OF 1(1)] l True by simp
    next
      case 2
      then show ?thesis
        using values_alloc_ok [OF 2(1)] values_alloc_fail [OF 2(2)] values_free_ok [of vs h3] l True
        by (auto simp: sqliterkColumnFree_def cres_simps)
    qed
  qed
qed

section \<open>Properties\<close>

text \<open>Allocating a column is all or nothing. On success both arrays are valid and empty; on
  any allocation failure, at whichever of the up to five allocations, every block that was
  obtained is given back and \<^verbatim>\<open>SQLITERK_NOMEM\<close> is returned.\<close>

theorem column_alloc_all_or_nothing:
  "sqliterkColumnAlloc h = Ret (r, h') \<Longrightarrow>
   (case r of Inl rc \<Rightarrow> rc = SQLITERK_NOMEM \<and> live h' = live h
    | Inr c \<Rightarrow> column_wf c \<and> column_items c = [] \<and> crowid c = 0 \<and> live h' = live h + column_blocks c)"
  using column_alloc_ok column_alloc_fail by (cases r) auto

theorem column_alloc_all_or_nothing_witness:
  "\<exists>h'. sqliterkColumnAlloc \<lparr>outcomes = [True, True, True, True, False], live = 9\<rparr> =
     Ret (Inl SQLITERK_NOMEM, h') \<and> live h' = 9"
proof -
  let ?h = "\<lparr>outcomes = [True, True, True, True, False], live = 9\<rparr>"
  obtain h' where a: "sqliterkColumnAlloc ?h = Ret (Inl SQLITERK_NOMEM, h')"
    by (simp add: sqliterkColumnAlloc_def sqliterkValuesAlloc_def sqliterkValuesAutoGrow_def
        c_alloc_def sqliterkValuesFree_def sqliterkColumnFree_def)
  from column_alloc_all_or_nothing [OF a] a show ?thesis by auto
qed

end
