(* ===== verification/Sqlite_Varint.thy ===== *)
theory Sqlite_Varint
  imports C_Prelude RK_Util
begin

unbundle bit_operations_syntax

text \<open>
  The variable-length integers of the SQLite core (\<^verbatim>\<open>WCDBOptimizedSQLCipher/src/util.c\<close>): the
  writer \<^verbatim>\<open>sqlite3PutVarint\<close>, the unrolled reader \<^verbatim>\<open>sqlite3GetVarint\<close> over 32-bit
  halves, its 32-bit variant, the length function and the four-byte big-endian accessors.

  A writer returns the bytes it stores (their number is what the C function returns); a reader
  takes the buffer and the position of \<^verbatim>\<open>p\<close> and returns the byte count and the value.
\<close>

section \<open>Writer\<close>

text \<open>\<open>put9_loop i v acc\<close>: \<^verbatim>\<open>for(i=7; i>=0; i--)\<close>, the bytes from position \<open>i\<close> on are in \<open>acc\<close>.\<close>

fun put9_loop :: "nat \<Rightarrow> u64 \<Rightarrow> byte list \<Rightarrow> byte list" where
  "put9_loop 0 v acc = acc"
| "put9_loop (Suc i) v acc = put9_loop i (drop_bit 7 v) (ucast ((v AND 0x7f) OR 0x80) # acc)"

text \<open>\<^verbatim>\<open>do{ buf[n++] = ...; v >>= 7; }while( v!=0 );\<close>\<close>

function put_buf_loop :: "u64 \<Rightarrow> byte list" where
  "put_buf_loop v = ucast ((v AND 0x7f) OR 0x80) #
     (if drop_bit 7 v \<noteq> 0 then put_buf_loop (drop_bit 7 v) else [])"
  by pat_completeness auto
termination
  by (relation "measure unat") (auto simp: drop_bit_7_less)

declare put_buf_loop.simps [simp del]

definition putVarint64 :: "u64 \<Rightarrow> byte list" where
  "putVarint64 v =
     (if v AND push_bit 32 0xff000000 \<noteq> 0 then put9_loop 8 (drop_bit 8 v) [ucast v]
      else rev ((put_buf_loop v)[0 := put_buf_loop v ! 0 AND 0x7f]))"

definition sqlite3PutVarint :: "u64 \<Rightarrow> byte list" where
  "sqlite3PutVarint v =
     (if v \<le> 0x7f then [ucast (v AND 0x7f)]
      else if v \<le> 0x3fff then
        [ucast ((drop_bit 7 v AND 0x7f) OR 0x80), ucast (v AND 0x7f)]
      else putVarint64 v)"

section \<open>Reader\<close>

abbreviation (input) SLOT_2_0 :: u32 where "SLOT_2_0 \<equiv> 0x001fc07f"
abbreviation (input) SLOT_4_2_0 :: u32 where "SLOT_4_2_0 \<equiv> 0xf01fc07f"

definition sqlite3GetVarint :: "byte list \<Rightarrow> int \<Rightarrow> (nat \<times> u64) cres" where
  "sqlite3GetVarint buf p =
     cbind (rd buf p) (\<lambda>p0. let a = ucast p0 :: u32 in
     if a AND 0x80 = 0 then Ret (1, ucast a)
     else cbind (rd buf (p + 1)) (\<lambda>p1. let b = ucast p1 :: u32 in
     if b AND 0x80 = 0 then
       (let a = a AND 0x7f; a = push_bit 7 a; a = a OR b in Ret (2, ucast a))
     else cbind (rd buf (p + 2)) (\<lambda>p2. let a = push_bit 14 a; a = a OR ucast p2 in
     if a AND 0x80 = 0 then
       (let a = a AND SLOT_2_0; b = b AND 0x7f; b = push_bit 7 b; a = a OR b in Ret (3, ucast a))
     else let a = a AND SLOT_2_0 in
     cbind (rd buf (p + 3)) (\<lambda>p3. let b = push_bit 14 b; b = b OR ucast p3 in
     if b AND 0x80 = 0 then
       (let b = b AND SLOT_2_0; a = push_bit 7 a; a = a OR b in Ret (4, ucast a))
     else let b = b AND SLOT_2_0; s = a in
     cbind (rd buf (p + 4)) (\<lambda>p4. let a = push_bit 14 a; a = a OR ucast p4 in
     if a AND 0x80 = 0 then
       (let b = push_bit 7 b; a = a OR b; s = drop_bit 18 s in
        Ret (5, push_bit 32 (ucast s) OR ucast a))
     else let s = push_bit 7 s; s = s OR b in
     cbind (rd buf (p + 5)) (\<lambda>p5. let b = push_bit 14 b; b = b OR ucast p5 in
     if b AND 0x80 = 0 then
       (let a = a AND SLOT_2_0; a = push_bit 7 a; a = a OR b; s = drop_bit 18 s in
        Ret (6, push_bit 32 (ucast s) OR ucast a))
     else cbind (rd buf (p + 6)) (\<lambda>p6. let a = push_bit 14 a; a = a OR ucast p6 in
     if a AND 0x80 = 0 then
       (let a = a AND SLOT_4_2_0; b = b AND SLOT_2_0; b = push_bit 7 b; a = a OR b;
            s = drop_bit 11 s in
        Ret (7, push_bit 32 (ucast s) OR ucast a))
     else let a = a AND SLOT_2_0 in
     cbind (rd buf (p + 7)) (\<lambda>p7. let b = push_bit 14 b; b = b OR ucast p7 in
     if b AND 0x80 = 0 then
       (let b = b AND SLOT_4_2_0; a = push_bit 7 a; a = a OR b; s = drop_bit 4 s in
        Ret (8, push_bit 32 (ucast s) OR ucast a))
     else cbind (rd buf (p + 8)) (\<lambda>p8.
       let a = push_bit 15 a; a = a OR ucast p8;
           b = b AND SLOT_2_0; b = push_bit 8 b; a = a OR b;
           s = push_bit 4 s in
       cbind (rd buf (p + 8 - 4)) (\<lambda>pm4.
         let b = ucast pm4; b = b AND 0x7f; b = drop_bit 3 b; s = s OR b in
         Ret (9, push_bit 32 (ucast s) OR ucast a)))))))))))"

text \<open>
  \<^verbatim>\<open>sqlite3GetVarint32\<close>, as compiled with the \<^verbatim>\<open>getVarint32\<close> macro defined: the caller has
  already handled the one-byte case.
\<close>

definition sqlite3GetVarint32 :: "byte list \<Rightarrow> int \<Rightarrow> (nat \<times> u32) cres" where
  "sqlite3GetVarint32 buf p =
     cbind (rd buf p) (\<lambda>p0. let a = ucast p0 :: u32 in
     cbind (rd buf (p + 1)) (\<lambda>p1. let b = ucast p1 :: u32 in
     if b AND 0x80 = 0 then
       (let a = a AND 0x7f; a = push_bit 7 a in Ret (2, a OR b))
     else cbind (rd buf (p + 2)) (\<lambda>p2. let a = push_bit 14 a; a = a OR ucast p2 in
     if a AND 0x80 = 0 then
       (let a = a AND (push_bit 14 0x7f OR 0x7f); b = b AND 0x7f; b = push_bit 7 b in
        Ret (3, a OR b))
     else cbind (sqlite3GetVarint buf p) (\<lambda>(n, v64).
       if v64 AND 0xffffffff \<noteq> v64 then Ret (n, 0xffffffff) else Ret (n, ucast v64)))))"

section \<open>Length and four-byte accessors\<close>

function varint_len_loop :: "nat \<Rightarrow> u64 \<Rightarrow> nat" where
  "varint_len_loop i v =
     (let v = drop_bit 7 v in if v \<noteq> 0 then varint_len_loop (Suc i) v else i)"
  by pat_completeness auto
termination
  by (relation "measure (\<lambda>(i, v). unat v)") (auto simp: drop_bit_7_less)

declare varint_len_loop.simps [simp del]

definition sqlite3VarintLen :: "u64 \<Rightarrow> nat" where
  "sqlite3VarintLen v = varint_len_loop 1 v"

definition sqlite3Get4byte :: "byte list \<Rightarrow> int \<Rightarrow> u32 cres" where
  "sqlite3Get4byte buf p =
     cbind (rd buf p) (\<lambda>p0. cbind (rd buf (p + 1)) (\<lambda>p1.
     cbind (rd buf (p + 2)) (\<lambda>p2. cbind (rd buf (p + 3)) (\<lambda>p3.
       Ret (push_bit 24 (ucast p0) OR push_bit 16 (ucast p1) OR push_bit 8 (ucast p2) OR ucast p3)))))"

definition sqlite3Put4byte :: "u32 \<Rightarrow> byte list" where
  "sqlite3Put4byte v =
     [ucast (drop_bit 24 v), ucast (drop_bit 16 v), ucast (drop_bit 8 v), ucast v]"

section \<open>Reference reader\<close>

fun varint_ref :: "nat \<Rightarrow> u64 \<Rightarrow> byte list \<Rightarrow> (nat \<times> u64) option" where
  "varint_ref i acc [] = None"
| "varint_ref i acc (b # bs) =
     (if i = 8 then Some (9, push_bit 8 acc OR ucast b)
      else if \<not> bit b 7 then Some (Suc i, push_bit 7 acc OR ucast b)
      else varint_ref (Suc i) (push_bit 7 acc OR (ucast b AND 0x7f)) bs)"

lemmas get_unfold = sqlite3GetVarint_def rd_def oget_def Let_def and_0x80

lemma get_branch_1: "\<not> bit p0 7 \<Longrightarrow> 
    sqlite3GetVarint (p0 # xs) 0 = oget (varint_ref 0 0 (p0 # xs))"
  by (simp add: get_unfold bit_simps) (rule bits64, simp add: bit_blast)

lemma get_branch_2: "bit p0 7 \<Longrightarrow> \<not> bit p1 7 \<Longrightarrow> 
    sqlite3GetVarint (p0 # p1 # xs) 0 = oget (varint_ref 0 0 (p0 # p1 # xs))"
  by (simp add: get_unfold bit_simps) (rule bits64, simp add: bit_blast)

lemma get_branch_3: "bit p0 7 \<Longrightarrow> bit p1 7 \<Longrightarrow> \<not> bit p2 7 \<Longrightarrow> 
    sqlite3GetVarint (p0 # p1 # p2 # xs) 0 = oget (varint_ref 0 0 (p0 # p1 # p2 # xs))"
  by (simp add: get_unfold bit_simps) (rule bits64, simp add: bit_blast)

lemma get_branch_4: "bit p0 7 \<Longrightarrow> bit p1 7 \<Longrightarrow> bit p2 7 \<Longrightarrow> \<not> bit p3 7 \<Longrightarrow> 
    sqlite3GetVarint (p0 # p1 # p2 # p3 # xs) 0 = oget (varint_ref 0 0 (p0 # p1 # p2 # p3 # xs))"
  by (simp add: get_unfold bit_simps) (rule bits64, simp add: bit_blast)

lemma get_branch_5: "bit p0 7 \<Longrightarrow> bit p1 7 \<Longrightarrow> bit p2 7 \<Longrightarrow> bit p3 7 \<Longrightarrow> \<not> bit p4 7 \<Longrightarrow> 
    sqlite3GetVarint (p0 # p1 # p2 # p3 # p4 # xs) 0 = oget (varint_ref 0 0 (p0 # p1 # p2 # p3 # p4 # xs))"
  by (simp add: get_unfold bit_simps) (rule bits64, simp add: bit_blast)

lemma get_branch_6: "bit p0 7 \<Longrightarrow> bit p1 7 \<Longrightarrow> bit p2 7 \<Longrightarrow> bit p3 7 \<Longrightarrow> bit p4 7 \<Longrightarrow> \<not> bit p5 7 \<Longrightarrow> 
    sqlite3GetVarint (p0 # p1 # p2 # p3 # p4 # p5 # xs) 0 = oget (varint_ref 0 0 (p0 # p1 # p2 # p3 # p4 # p5 # xs))"
  by (simp add: get_unfold bit_simps) (rule bits64, simp add: bit_blast)

lemma get_branch_7: "bit p0 7 \<Longrightarrow> bit p1 7 \<Longrightarrow> bit p2 7 \<Longrightarrow> bit p3 7 \<Longrightarrow> bit p4 7 \<Longrightarrow> bit p5 7 \<Longrightarrow> \<not> bit p6 7 \<Longrightarrow> 
    sqlite3GetVarint (p0 # p1 # p2 # p3 # p4 # p5 # p6 # xs) 0 = oget (varint_ref 0 0 (p0 # p1 # p2 # p3 # p4 # p5 # p6 # xs))"
  by (simp add: get_unfold bit_simps) (rule bits64, simp add: bit_blast)

lemma get_branch_8: "bit p0 7 \<Longrightarrow> bit p1 7 \<Longrightarrow> bit p2 7 \<Longrightarrow> bit p3 7 \<Longrightarrow> bit p4 7 \<Longrightarrow> bit p5 7 \<Longrightarrow> bit p6 7 \<Longrightarrow> \<not> bit p7 7 \<Longrightarrow> 
    sqlite3GetVarint (p0 # p1 # p2 # p3 # p4 # p5 # p6 # p7 # xs) 0 = oget (varint_ref 0 0 (p0 # p1 # p2 # p3 # p4 # p5 # p6 # p7 # xs))"
  by (simp add: get_unfold bit_simps) (rule bits64, simp add: bit_blast)

lemma get_branch_9: "bit p0 7 \<Longrightarrow> bit p1 7 \<Longrightarrow> bit p2 7 \<Longrightarrow> bit p3 7 \<Longrightarrow> bit p4 7 \<Longrightarrow> bit p5 7 \<Longrightarrow> bit p6 7 \<Longrightarrow> bit p7 7 \<Longrightarrow> 
    sqlite3GetVarint (p0 # p1 # p2 # p3 # p4 # p5 # p6 # p7 # p8 # xs) 0 = oget (varint_ref 0 0 (p0 # p1 # p2 # p3 # p4 # p5 # p6 # p7 # p8 # xs))"
  by (simp add: get_unfold bit_simps) (rule bits64, simp add: bit_blast)


lemma cont_prefix: "\<exists>cs tl. xs = cs @ tl \<and> (\<forall>c \<in> set cs. bit (c :: byte) 7) \<and> (tl = [] \<or> \<not> bit (hd tl) 7)"
  by (rule exI [of _ "takeWhile (\<lambda>c. bit c 7) xs"], rule exI [of _ "dropWhile (\<lambda>c. bit c 7) xs"])
     (use hd_dropWhile [of "\<lambda>c. bit c 7" xs] in \<open>auto dest: set_takeWhileD\<close>)

section \<open>The writer and the reference reader\<close>

lemma put_buf_loop_nonempty [simp]: "put_buf_loop v \<noteq> []"
  by (subst put_buf_loop.simps) simp

lemma word_split7: "push_bit 7 (drop_bit 7 v) OR (v AND 0x7f) = (v :: u64)"
  by (rule bits64) (simp add: bit_blast)

lemma bit_cont: "bit (ucast (((v :: u64) AND 0x7f) OR 0x80) :: byte) 7" 
  by (simp add: bit_simps)
lemma cont_payload: "(ucast (ucast (((v :: u64) AND 0x7f) OR 0x80) :: byte) AND 0x7f :: u64) = v AND 0x7f"
  by (rule bits64) (simp add: bit_simps upt_conv_Cons)

lemma ref_put_buf:
  "i + length (put_buf_loop v) \<le> 8 \<Longrightarrow>
   varint_ref i acc (rev (put_buf_loop v) @ ys) =
   varint_ref (i + length (put_buf_loop v)) (push_bit (7 * length (put_buf_loop v)) acc OR v) ys"
proof (induction v arbitrary: ys rule: put_buf_loop.induct)
  case (1 v)
  let ?b = "ucast ((v AND 0x7f) OR 0x80) :: byte"
  show ?case
  proof (cases "drop_bit 7 v = 0")
    case True
    then have e: "put_buf_loop v = [?b]" by (subst put_buf_loop.simps) simp
    have "varint_ref i acc (?b # ys) = varint_ref (Suc i) (push_bit 7 acc OR (v AND 0x7f)) ys"
      using 1(2) by (simp add: e bit_cont cont_payload)
    moreover have "v AND 0x7f = v" using word_split7[of v] True by simp
    ultimately show ?thesis by (simp add: e)
  next
    case False
    then have e: "put_buf_loop v = ?b # put_buf_loop (drop_bit 7 v)"
      by (subst put_buf_loop.simps) simp
    let ?n = "length (put_buf_loop (drop_bit 7 v))"
    have n: "i + Suc ?n \<le> 8" using 1(2) by (simp add: e)
    have a: "push_bit 7 (push_bit (7 * ?n) acc OR drop_bit 7 v) OR (v AND 0x7f) = push_bit (7 * Suc ?n) acc OR v"
    proof -
      have "push_bit 7 (push_bit (7 * ?n) acc OR drop_bit 7 v) OR (v AND 0x7f) =
          push_bit (7 * Suc ?n) acc OR (push_bit 7 (drop_bit 7 v) OR (v AND 0x7f))"
        by (simp add: push_bit_or or.assoc)
      then show ?thesis by (simp only: word_split7)
    qed
    have "varint_ref i acc (rev (put_buf_loop v) @ ys) =
       varint_ref i acc (rev (put_buf_loop (drop_bit 7 v)) @ ?b # ys)" by (simp add: e)
    also have "\<dots> = varint_ref (i + ?n) (push_bit (7 * ?n) acc OR drop_bit 7 v) (?b # ys)"
      using False n by (intro 1(1)) simp_all
    also have "\<dots> = varint_ref (i + Suc ?n) (push_bit (7 * Suc ?n) acc OR v) ys"
      using n a by (simp add: bit_cont cont_payload del: push_bit_or)
    finally show ?thesis by (simp add: e)
  qed
qed

lemma put_buf_length: "unat v < 128 ^ Suc n \<Longrightarrow> length (put_buf_loop v) \<le> Suc n"
proof (induction n arbitrary: v)
  case 0
  then have "drop_bit 7 v = 0" 
    by (simp add: unat_drop7 unat_eq_zero [symmetric] del: unat_eq_zero)
  then show ?case by (subst put_buf_loop.simps) simp
next
  case (Suc n)
  have "unat (drop_bit 7 v) < 128 ^ Suc n"
    using Suc.prems by (simp add: unat_drop7 less_mult_imp_div_less)
  then have "length (put_buf_loop (drop_bit 7 v)) \<le> Suc n" by (rule Suc.IH)
  then show ?case by (subst put_buf_loop.simps) simp
qed

lemma mask56: "v AND push_bit 32 0xff000000 = 0 \<longleftrightarrow> unat v < 2 ^ 56" for v :: u64
proof -
  have "v AND push_bit 32 0xff000000 = 0 \<longleftrightarrow> drop_bit 56 v = 0"
  proof
    assume "v AND push_bit 32 0xff000000 = 0"
    then have "bit (v AND push_bit 32 0xff000000) n = False" for n by simp
    from this[of 56] this[of 57] this[of 58] this[of 59] this[of 60] this[of 61] this[of 62] this[of 63]
    show "drop_bit 56 v = 0" by (intro bits64) (simp add: bit_blast)
  next
    assume "drop_bit 56 v = 0"
    then have "bit (drop_bit 56 v) n = False" for n by simp
    from this[of 0] this[of 1] this[of 2] this[of 3] this[of 4] this[of 5] this[of 6] this[of 7]
    show "v AND push_bit 32 0xff000000 = 0" by (intro bits64) (simp add: bit_blast)
  qed
  also have "\<dots> \<longleftrightarrow> unat (drop_bit 56 v) = 0" by (simp only: unat_eq_zero)
  also have "\<dots> \<longleftrightarrow> unat v < 2 ^ 56" by (simp add: unat_drop_bit_eq drop_bit_nat_def div_eq_0_iff)
  finally show ?thesis .
qed

lemma put_small: "v AND push_bit 32 0xff000000 = 0 \<Longrightarrow>
   putVarint64 v = (if drop_bit 7 v \<noteq> 0 then rev (put_buf_loop (drop_bit 7 v)) else []) @ [ucast (v AND 0x7f)]"
proof -
  assume "v AND push_bit 32 0xff000000 = 0"
  moreover have "(ucast ((v AND 0x7f) OR 0x80) :: byte) AND 0x7f = ucast (v AND 0x7f)"
    by (rule bits8) (simp add: bit_blast)
  ultimately show ?thesis 
    unfolding putVarint64_def by (subst (1 2) put_buf_loop.simps) simp
qed
lemma last_payload: "\<not> bit (ucast (v AND 0x7f) :: byte) 7" "ucast (ucast ((v :: u64) AND 0x7f) :: byte) = v AND 0x7f"
   apply (simp add: bit_simps)
  by (rule bits64) (simp add: bit_blast)

lemma put9_expand: "put9_loop 8 w acc =
    [ucast ((drop_bit 49 w AND 0x7f) OR 0x80), ucast ((drop_bit 42 w AND 0x7f) OR 0x80),
     ucast ((drop_bit 35 w AND 0x7f) OR 0x80), ucast ((drop_bit 28 w AND 0x7f) OR 0x80),
     ucast ((drop_bit 21 w AND 0x7f) OR 0x80), ucast ((drop_bit 14 w AND 0x7f) OR 0x80),
     ucast ((drop_bit 7 w AND 0x7f) OR 0x80), ucast ((w AND 0x7f) OR 0x80)] @ acc"
  by (simp add: numeral_eq_Suc)

lemma ref_put: "varint_ref 0 0 (putVarint64 v @ rest) = Some (length (putVarint64 v), v)"
proof (cases "v AND push_bit 32 0xff000000 = 0")
  case True
  show ?thesis
  proof (cases "drop_bit 7 v = 0")
    case z: True
    moreover have "v AND 0x7f = v" using word_split7[of v] z by simp
    ultimately show ?thesis using last_payload[of v] by (simp add: put_small[OF True])
  next
    case False
    let ?n = "length (put_buf_loop (drop_bit 7 v))"
    have "unat (drop_bit 7 v) < 128 ^ Suc 6" using True unfolding mask56 unat_drop7 by simp
    then have n: "?n \<le> 7" using put_buf_length[of "drop_bit 7 v" 6] by simp
    then have "varint_ref 0 0 (putVarint64 v @ rest) =
        varint_ref ?n (drop_bit 7 v) (ucast (v AND 0x7f) # rest)"
      using False ref_put_buf[of 0 "drop_bit 7 v" 0] by (simp add: put_small[OF True])
    then show ?thesis using n False last_payload[of v] word_split7[of v] by (simp add: put_small[OF True])
  qed
next
  case False
  then have e: "putVarint64 v = put9_loop 8 (drop_bit 8 v) [ucast v]" by (simp add: putVarint64_def)
  show ?thesis
    unfolding e put9_expand
    by (simp add: bit_cont cont_payload) (rule bits64, simp add: bit_blast)
qed

lemma put_fast: "sqlite3PutVarint v = putVarint64 v"
proof -
  consider "v \<le> 0x7f" | "\<not> v \<le> 0x7f" "v \<le> 0x3fff" | "\<not> v \<le> 0x3fff" by blast
  then show ?thesis
  proof cases
    case 1
    then have "unat v < 128" by (simp add: word_le_nat_alt)
    then show ?thesis using 1 mask56[of v] put_small[of v] by (simp add: sqlite3PutVarint_def unat_drop7 unat_eq_zero [symmetric] del: unat_eq_zero)
  next
    case 2
    then have v: "unat v < 128 * 128" "128 \<le> unat v" by (simp_all add: word_le_nat_alt)
    then have "drop_bit 7 v \<noteq> 0" "drop_bit 7 (drop_bit 7 v) = 0"
      by (simp_all add: unat_drop7 unat_eq_zero [symmetric] div_eq_0_iff del: unat_eq_zero drop_bit_drop_bit)
    then have "put_buf_loop (drop_bit 7 v) = [ucast ((drop_bit 7 v AND 0x7f) OR 0x80)]"
      by (subst put_buf_loop.simps) simp
    then show ?thesis using v 2 \<open>drop_bit 7 v \<noteq> 0\<close> mask56[of v] put_small[of v] by (simp add: sqlite3PutVarint_def)
  next
    case 3 
    then have "\<not> v \<le> 0x7f" by (simp add: word_le_nat_alt)
    with 3 show ?thesis by (simp add: sqlite3PutVarint_def)
  qed
qed

section \<open>The unrolled reader\<close>

lemma length_less_8: "length cs < 8 \<Longrightarrow>
    cs = [] \<or>
    (\<exists>p0. cs = [p0]) \<or>
    (\<exists>p0 p1. cs = [p0, p1]) \<or>
    (\<exists>p0 p1 p2. cs = [p0, p1, p2]) \<or>
    (\<exists>p0 p1 p2 p3. cs = [p0, p1, p2, p3]) \<or>
    (\<exists>p0 p1 p2 p3 p4. cs = [p0, p1, p2, p3, p4]) \<or>
    (\<exists>p0 p1 p2 p3 p4 p5. cs = [p0, p1, p2, p3, p4, p5]) \<or>
    (\<exists>p0 p1 p2 p3 p4 p5 p6. cs = [p0, p1, p2, p3, p4, p5, p6])"
proof -
  assume "length cs < 8"
  then have "length cs = 0 \<or> length cs = Suc 0 \<or> length cs = Suc (Suc 0) \<or>
    length cs = Suc (Suc (Suc 0)) \<or> length cs = Suc (Suc (Suc (Suc 0))) \<or>
    length cs = Suc (Suc (Suc (Suc (Suc 0)))) \<or> length cs = Suc (Suc (Suc (Suc (Suc (Suc 0))))) \<or>
    length cs = Suc (Suc (Suc (Suc (Suc (Suc (Suc 0))))))"
    by arith
  then show ?thesis by (auto simp: length_Suc_conv)
qed

lemmas get_branches = get_branch_1 get_branch_2 get_branch_3 get_branch_4 get_branch_5
  get_branch_6 get_branch_7 get_branch_8 get_branch_9

lemma get_stop:
  assumes "length cs < 8" "\<forall>c \<in> set cs. bit c 7" "\<not> bit q 7"
  shows "sqlite3GetVarint (cs @ q # ys) 0 = oget (varint_ref 0 0 (cs @ q # ys))"
  using length_less_8 [OF assms(1)] assms(2,3)
  by (elim disjE exE) (simp_all add: get_branches del: varint_ref.simps)

lemma get_short:
  assumes "length cs \<le> 8" "\<forall>c \<in> set cs. bit c 7"
  shows "sqlite3GetVarint cs 0 = oget (varint_ref 0 0 cs)"
proof (cases "length cs < 8")
  case True
  show ?thesis
    using length_less_8 [OF True] assms(2)
    by (elim disjE exE) (simp_all add: get_unfold bit_simps)
next
  case False
  then obtain c ds where cs: "cs = c # ds" and ds: "length ds = 7"
    using assms(1) by (cases cs) auto
  then show ?thesis
    using length_less_8 [of ds, unfolded ds, simplified] ds assms(2) unfolding cs
    by (elim disjE exE) (simp_all add: get_unfold bit_simps)
qed

lemma get_0: "sqlite3GetVarint xs 0 = oget (varint_ref 0 0 xs)"
proof -
  obtain cs tl where x: "xs = cs @ tl" "\<forall>c \<in> set cs. bit c 7" "tl = [] \<or> \<not> bit (hd tl) 7"
    using cont_prefix by blast
  consider "length cs \<ge> 8" "length xs \<ge> 9" | "length cs \<le> 8" "tl = []" | "length cs < 8" "tl \<noteq> []"
    using x(1) by (cases tl) fastforce+
  then show ?thesis
  proof cases
    case 1
    then obtain c ds where t: "take 8 cs = c # ds" and ds: "length ds = 7"
      using length_Suc_conv [of "take 8 cs" 7] by auto
    have "drop 8 cs @ tl \<noteq> []" using 1 x(1) by auto
    then obtain q ys where d: "drop 8 cs @ tl = q # ys" by (cases "drop 8 cs @ tl") auto
    have xs: "xs = c # ds @ q # ys"
      using append_take_drop_id [of 8 cs] by (simp add: x(1) t flip: d)
    have "\<forall>c \<in> set (c # ds). bit c 7"
      using x(2) set_take_subset [of 8 cs] unfolding t by blast
    then show ?thesis
      using length_less_8 [of ds, unfolded ds, simplified] ds unfolding xs
      by (elim disjE exE) (simp_all add: get_branch_9 del: varint_ref.simps)
  next
    case 2
    then show ?thesis using get_short x by simp
  next
    case 3
    then obtain q ys where tl: "tl = q # ys" "\<not> bit q 7" using x(3) by (cases tl) auto
    show ?thesis unfolding x(1) tl(1) using 3(1) x(2) tl(2) by (rule get_stop)
  qed
qed

lemma get_off: "sqlite3GetVarint buf (int p) = oget (varint_ref 0 0 (drop p buf))"
proof (cases "p \<le> length buf")
  case True
  have r: "rd buf (int p) = rd (drop p buf) 0" "rd buf (int p + 8 - 4) = rd (drop p buf) (0 + 8 - 4)"
    "rd buf (int p + numeral k) = rd (drop p buf) (0 + numeral k)"
    "rd buf (int p + 1) = rd (drop p buf) (0 + 1)" for k
    using rd_drop [OF True, of 0] rd_drop [OF True, of 4] rd_drop [OF True, of 1]
      rd_drop [OF True, of "numeral k"] by (simp_all add: algebra_simps)
  have "sqlite3GetVarint buf (int p) = sqlite3GetVarint (drop p buf) 0"
    unfolding sqlite3GetVarint_def r ..
  then show ?thesis by (simp add: get_0)
next
  case False
  then show ?thesis by (simp add: sqlite3GetVarint_def rd_def oget_def)
qed

lemma len_loop: "varint_len_loop i v + 1 = i + length (put_buf_loop v)"
proof (induction i v rule: varint_len_loop.induct)
  case (1 i v)
  then show ?case
    by (subst varint_len_loop.simps, subst put_buf_loop.simps) (auto simp: Let_def)
qed

lemma put_buf_length_ge: "128 ^ n \<le> unat v \<Longrightarrow> n < length (put_buf_loop v)"
proof (induction n arbitrary: v)
  case (Suc n)
  then have "128 ^ n \<le> unat (drop_bit 7 v)" by (simp add: unat_drop7 less_eq_div_iff_mult_less_eq)
  moreover from this have "drop_bit 7 v \<noteq> 0" 
    by (metis less_le_trans not_le unat_0 zero_less_numeral zero_less_power)
  ultimately show ?case using Suc.IH by (subst put_buf_loop.simps) simp
qed simp

lemma length_put: "length (sqlite3PutVarint v) = (if unat v < 2 ^ 56 then length (put_buf_loop v) else 9)"
proof (cases "unat v < 2 ^ 56")
  case True
  then show ?thesis unfolding put_fast putVarint64_def mask56 by simp
next
  case False
  then have "putVarint64 v = put9_loop 8 (drop_bit 8 v) [ucast v]" unfolding putVarint64_def mask56 by simp
  then show ?thesis using False by (simp add: put_fast put9_expand)
qed

lemma varint_len_correct: "unat v < 2 ^ 63 \<Longrightarrow> sqlite3VarintLen v = length (sqlite3PutVarint v)"
proof (cases "unat v < 2 ^ 56")
  case True
  then show ?thesis using len_loop [of 1 v] by (simp add: sqlite3VarintLen_def length_put)
next
  case False assume "unat v < 2 ^ 63"
  then have "length (put_buf_loop v) = 9"
    using False put_buf_length_ge [of 8 v] put_buf_length [of v 8] by simp
  then show ?thesis using False len_loop [of 1 v] by (simp add: sqlite3VarintLen_def length_put)
qed

lemma varint_len_top: "2 ^ 63 \<le> unat v \<Longrightarrow> sqlite3VarintLen v = 10 \<and> length (sqlite3PutVarint v) = 9"
proof -
  assume a: "2 ^ 63 \<le> unat v"
  have "unat v < 128 ^ Suc 9" using unsigned_less [of v, where 'a = nat] by simp
  then have "length (put_buf_loop v) = 10"
    using a put_buf_length_ge [of 9 v] put_buf_length [of v 9] by simp
  then show ?thesis using a len_loop [of 1 v] by (simp add: sqlite3VarintLen_def length_put)
qed

lemma get4_put4: "sqlite3Get4byte (pre @ sqlite3Put4byte v @ rest) (int (length pre)) = Ret v"
proof -
  have "rd (pre @ sqlite3Put4byte v @ rest) (int (length pre) + k) = rd (sqlite3Put4byte v @ rest) k" if "0 \<le> k" for k
    using that rd_drop [of "length pre" "pre @ sqlite3Put4byte v @ rest" k] by simp
  from this [of 0] this [of 1] this [of 2] this [of 3] show ?thesis
    by (simp add: sqlite3Get4byte_def sqlite3Put4byte_def rd_def) (rule bits32, simp add: bit_blast)
qed

lemma get32: "varint_ref 0 0 (drop p buf) = Some (n, v) \<Longrightarrow> 1 < n \<Longrightarrow>
   sqlite3GetVarint32 buf (int p) = Ret (n, if unat v < 2 ^ 32 then ucast v else 0xffffffff)"
proof -
  assume a: "varint_ref 0 0 (drop p buf) = Some (n, v)" "1 < n"
  then have p: "p \<le> length buf" by (cases "p \<le> length buf") auto
  have m: "v AND 0xffffffff = v \<longleftrightarrow> unat v < 2 ^ 32"
  proof -
    have "v AND 0xffffffff = take_bit 32 v" by (simp add: take_bit_eq_mask mask_eq_exp_minus_1)
    then show ?thesis
      by (simp only: word_unat_eq_iff unsigned_take_bit_eq take_bit_nat_eq_self_iff) 
  qed
  obtain p0 xs where d: "drop p buf = p0 # xs" and p0: "bit p0 7" 
    using a by (cases "drop p buf") (auto split: if_splits)
  then obtain p1 ys where d1: "xs = p1 # ys" using a by (cases xs) auto
  have r: "rd buf (int p) = Ret p0" "rd buf (int p + 1) = Ret p1" "rd buf (int p + 2) = rd ys 0"
    using rd_drop [OF p, of 0] rd_drop [OF p, of 1] rd_drop [OF p, of 2] by (simp_all add: d d1 rd_def)
  note g = get_off [of buf p, unfolded a(1) oget_def, simplified]
  consider "\<not> bit p1 7" | p2 zs where "bit p1 7" "ys = p2 # zs" "\<not> bit p2 7" | p2 zs where "bit p1 7" "ys = p2 # zs" "bit p2 7"
    using a d d1 p0 by (cases ys) (auto split: if_splits)
  then show ?thesis
  proof cases
    case 1
    then have v: "n = 2" "v = push_bit 7 (ucast p0 AND 0x7f) OR ucast p1" using a d d1 p0 by simp_all
    have "v AND 0xffffffff = v" unfolding v by (rule bits64) (simp add: bit_blast)
    moreover have "push_bit 7 (ucast p0 AND 0x7f) OR ucast p1 = (ucast v :: u32)"
      unfolding v by (rule bits32) (simp add: bit_blast)
    ultimately show ?thesis using 1 m v(1) by (simp add: sqlite3GetVarint32_def r and_0x80 bit_simps Let_def del: push_bit_and)
  next
    case 2
    then have v: "n = 3" "v = push_bit 7 (push_bit 7 (ucast p0 AND 0x7f) OR (ucast p1 AND 0x7f)) OR ucast p2" using a d d1 p0 by simp_all
    have "v AND 0xffffffff = v" unfolding v by (rule bits64) (simp add: bit_blast)
    moreover have "(push_bit 14 (ucast p0) OR ucast p2) AND (push_bit 14 0x7f OR 0x7f) OR push_bit 7 (ucast p1 AND 0x7f) = (ucast v :: u32)"
      unfolding v by (rule bits32) (simp add: bit_blast 2)
    ultimately show ?thesis using 2 m v(1) by (simp add: sqlite3GetVarint32_def r and_0x80 bit_simps Let_def del: push_bit_and)
  next
    case 3
    then show ?thesis using m g by (simp add: sqlite3GetVarint32_def r and_0x80 bit_simps Let_def)
  qed
qed

section \<open>The reader of SQLiteRepairKit\<close>

lemma uint_shift7: "uint acc < 2 ^ 57 \<Longrightarrow> uint (push_bit 7 acc OR x) = push_bit 7 (uint acc) OR uint (x :: u64)"
proof -
  assume "uint acc < 2 ^ 57"
  then have "uint (push_bit 7 acc) = push_bit 7 (uint acc)"
    by (simp add: unsigned_push_bit_eq take_bit_int_eq_self_iff push_bit_eq_mult [where 'a = int])
  then show ?thesis by (simp add: uint_or)
qed

lemma uint_shift7_bound: "uint acc < 2 ^ (7 * i) \<Longrightarrow> i \<le> 8 \<Longrightarrow> uint x < 128 \<Longrightarrow>
   uint (push_bit 7 acc OR x) < 2 ^ (7 * Suc i)" for x :: u64
proof -
  assume a: "uint acc < 2 ^ (7 * i)" "i \<le> 8" "uint x < 128"
  have "uint acc < 2 ^ 57"
    using a(1) power_increasing [of "7 * i" 57 "2 :: int"] a(2) by linarith
  then have "uint (push_bit 7 acc OR x) = uint acc * 128 + uint x"
    using a(3) or_push [of "uint x" 7 "uint acc"] by (simp add: uint_shift7)
  moreover have "(uint acc + 1) * 128 \<le> 2 ^ (7 * i) * 128"
    using a(1) by (intro mult_right_mono) auto
  ultimately show ?thesis using a(3) by (simp add: power_add)
qed

lemma payload_small: "uint (x AND 0x7f :: u64) < 128" "uint (y AND 0x7f :: byte) < 128"
  using word_and_le1 [of x "0x7f"] word_and_le1 [of y "0x7f"]
  by (simp_all add: word_le_def)

lemma uint_ucast_byte: "uint (ucast (b :: byte) :: u64) = uint b"
proof -
  have "uint b < 2 ^ 64" by (rule order.strict_trans [OF uint_byte_bounds(2)]) simp
  then show ?thesis by (simp add: unsigned_ucast_eq take_bit_int_eq_self_iff)
qed

lemma uint_payload: "uint (ucast b AND 0x7f :: u64) = uint ((b :: byte) AND 0x7f)"
proof -
  have "(ucast b AND 0x7f :: u64) = ucast (b AND 0x7f)" by (rule bits64) (simp add: bit_blast)
  then show ?thesis by (simp add: uint_ucast_byte)
qed

lemma rk_ref:
  assumes "varint_ref i acc bs = Some (n, v)" "bs = drop (off + i) d" "i \<le> 8" "uint acc < 2 ^ (7 * i)"
  shows "parse_varint_loop d (int off) i (push_bit 7 (uint acc)) =
    (if n \<le> 8 then Ret (Inr (int n, uint v))
     else if bit v 7 then Ret (Inl SQLITERK_DAMAGED)
     else Ret (Inr (9, uint v div 256 * 128 + uint v mod 256)))"
  using assms
proof (induction i acc bs rule: varint_ref.induct)
  case (2 i acc b bs)
  have l: "off + i < length d" using 2(3) by (metis drop_all leI list.discI)
  have r: "rd d (int off + int i) = Ret b"
    using 2(3) l by (simp add: rd_def nat_add_distrib Cons_nth_drop_Suc [symmetric])
  have bs: "bs = drop (off + Suc i) d" using 2(3) l by (simp add: Cons_nth_drop_Suc [symmetric])
  have "uint acc < 2 ^ (7 * i)" by fact
  then have a57: "uint acc < 2 ^ 57"
    using power_increasing [of "7 * i" 57 "2 :: int"] 2(4) by linarith
  show ?case
  proof (cases "i = 8")
    case True
    then have v: "n = 9" "v = push_bit 8 acc OR ucast b" using 2(2) by simp_all
    have "uint acc < 2 ^ 56" using 2(5) True by simp
    then have "uint (push_bit 8 acc) = push_bit 8 (uint acc)"
      by (simp add: unsigned_push_bit_eq take_bit_int_eq_self_iff push_bit_eq_mult [where 'a = int])
    then have uv: "uint v = uint acc * 256 + uint b"
      using or_push [of "uint b" 8 "uint acc"] by (simp add: v uint_or uint_ucast_byte)
    have bv: "bit v 7 = bit b 7" by (simp add: v bit_simps)
    show ?thesis
    proof (cases "bit b 7")
      case t: True
      then show ?thesis using True v(1) bv
        by (subst parse_varint_loop.simps) (use r in \<open>simp add: and_0x80 sqliterkGetMaxVarintLength_def\<close>)
    next
      case f: False
      then have "uint b < 128" 
        using sint_byte [of b] bit_last_iff [of b] by (simp split: if_splits)
      then show ?thesis using True v(1) bv f or_push [of "uint b" 7 "uint acc"] uv
        by (subst parse_varint_loop.simps) (use r in \<open>simp add: and_0x80 sqliterkGetMaxVarintLength_def\<close>)
    qed
  next
    case False
    show ?thesis
    proof (cases "bit b 7")
      case False
      then show ?thesis using 2(2) \<open>i \<noteq> 8\<close> 2(4)
        by (subst parse_varint_loop.simps) (auto simp: r and_0x80 uint_shift7 [OF a57] uint_ucast_byte)
    next
      case True
      let ?acc = "push_bit 7 acc OR (ucast b AND 0x7f)"
      have "uint ?acc < 2 ^ (7 * Suc i)"
        using uint_shift7_bound [OF 2(5) 2(4) payload_small(1)] .
      then have "parse_varint_loop d (int off) (Suc i) (push_bit 7 (uint ?acc)) = (if n \<le> 8 then Ret (Inr (int n, uint v))
     else if bit v 7 then Ret (Inl SQLITERK_DAMAGED)
     else Ret (Inr (9, uint v div 256 * 128 + uint v mod 256)))"
        using 2(1) 2(2) 2(4) True \<open>i \<noteq> 8\<close> bs by simp
      moreover have "uint ?acc = push_bit 7 (uint acc) OR uint (b AND 0x7f)"
        using a57 by (simp add: uint_shift7 uint_payload)
      ultimately show ?thesis using True \<open>i \<noteq> 8\<close> 2(4)
        by (subst parse_varint_loop.simps) (simp add: r and_0x80 sqliterkGetMaxVarintLength_def)
    qed
  qed
qed simp

lemma rk_parse_put:
  "sqliterkParseVarint64 (Some (pre @ sqlite3PutVarint v @ rest)) (int (length pre)) =
     (if length (sqlite3PutVarint v) \<le> 8 then Ret (Inr (int (length (sqlite3PutVarint v)), uint v))
      else if bit v 7 then Ret (Inl SQLITERK_DAMAGED)
      else Ret (Inr (9, uint v div 256 * 128 + uint v mod 256)))"
  using rk_ref [of 0 0 "sqlite3PutVarint v @ rest" "length (sqlite3PutVarint v)" v "length pre"
      "pre @ sqlite3PutVarint v @ rest"] ref_put [of v rest]
  by (simp add: sqliterkParseVarint64_def put_fast)

lemma length_put_le_8: "length (sqlite3PutVarint v) \<le> 8 \<longleftrightarrow> unat v < 2 ^ 56"
  using put_buf_length [of v 7] by (simp add: length_put)

section \<open>Both readers as a variable-length code\<close>

definition get_varint_at :: "byte list \<Rightarrow> nat \<Rightarrow> (u64 \<times> nat) option" where
  "get_varint_at buf p =
     (case sqlite3GetVarint buf (int p) of Ret (n, v) \<Rightarrow> Some (v, n) | _ \<Rightarrow> None)"

definition rk_varint_at :: "byte list \<Rightarrow> nat \<Rightarrow> (u64 \<times> nat) option" where
  "rk_varint_at buf p =
     (case sqliterkParseVarint64 (Some buf) (int p) of
        Ret (Inr (n, v)) \<Rightarrow> Some (word_of_int v, nat n) | _ \<Rightarrow> None)"

lemma put_nonempty: "sqlite3PutVarint v \<noteq> []"
proof -
  have "length (sqlite3PutVarint v) \<noteq> 0" by (simp add: length_put)
  then show ?thesis by (simp only: length_0_conv not_False_eq_True)
qed

interpretation sqlite_code: varint_code sqlite3PutVarint get_varint_at "\<lambda>_. True"
  by unfold_locales
     (simp_all add: get_varint_at_def get_off put_fast ref_put oget_def put_nonempty [unfolded put_fast])

interpretation rk_code: varint_code sqlite3PutVarint rk_varint_at "\<lambda>v. unat v < 2 ^ 56"
  by unfold_locales (auto simp: rk_varint_at_def rk_parse_put length_put_le_8 put_nonempty)

section \<open>Properties\<close>

text \<open>C4: the unrolled reader \<^verbatim>\<open>sqlite3GetVarint\<close>, with its masked 32-bit halves, computes
  exactly the byte-at-a-time definition of the format, on every buffer and at every position;
  it reads out of bounds precisely when the buffer ends inside the integer.\<close>

theorem get_varint_unrolled:
  "sqlite3GetVarint buf (int p) =
     (case varint_ref 0 0 (drop p buf) of None \<Rightarrow> Fault | Some r \<Rightarrow> Ret r)"
  using get_off by (simp add: oget_def)

text \<open>C5: what \<^verbatim>\<open>sqlite3PutVarint\<close> writes, \<^verbatim>\<open>sqlite3GetVarint\<close> reads back, for every 64-bit
  value and inside any surrounding bytes, using exactly the bytes written.\<close>

theorem get_put_varint:
  "sqlite3GetVarint (pre @ sqlite3PutVarint v @ rest) (int (length pre)) =
     Ret (length (sqlite3PutVarint v), v)"
  by (simp add: get_off put_fast ref_put oget_def)

text \<open>A sequence of integers written one after another is read back in order by repeated
  calls of \<^verbatim>\<open>sqlite3GetVarint\<close>, and the last call ends where the encoding ends.\<close>

theorem get_varint_stream:
  "sqlite_code.dec_list (length vs) (pre @ concat (map sqlite3PutVarint vs) @ rest) (length pre) =
     Some (vs, length pre + length (concat (map sqlite3PutVarint vs)))"
  by (rule sqlite_code.dec_list_concat) simp

text \<open>C37: the reader of SQLiteRepairKit agrees with SQLite's writer on every integer below
  \<open>2 ^ 56\<close>: \<^verbatim>\<open>sqliterkParseVarint64\<close> returns the value and the length that were written.\<close>

theorem rk_varint_roundtrip:
  "unat v < 2 ^ 56 \<Longrightarrow>
   sqliterkParseVarint64 (Some (pre @ sqlite3PutVarint v @ rest)) (int (length pre)) =
     Ret (Inr (int (length (sqlite3PutVarint v)), uint v))"
  by (simp only: rk_parse_put length_put_le_8 if_True)

theorem rk_varint_roundtrip_witness:
  "sqliterkParseVarint64 (Some ([7] @ sqlite3PutVarint 300 @ [9])) 1 = Ret (Inr (2, 300))"
  using rk_varint_roundtrip [of 300 "[7]" "[9]"] by (simp add: sqlite3PutVarint_def)

text \<open>C38: from \<open>2 ^ 56\<close> on, where SQLite's nine-byte form begins (every negative rowid has it),
  the reader of SQLiteRepairKit never returns the value that was written: it reports damage
  when the low byte has its top bit set, and a wrong value otherwise.\<close>

theorem rk_varint_nine_bytes_wrong:
  "2 ^ 56 \<le> unat v \<Longrightarrow>
   sqliterkParseVarint64 (Some (pre @ sqlite3PutVarint v @ rest)) (int (length pre)) =
     (if bit v 7 then Ret (Inl SQLITERK_DAMAGED)
      else Ret (Inr (9, uint v div 256 * 128 + uint v mod 256)))
   \<and> uint v div 256 * 128 + uint v mod 256 \<noteq> uint v"
proof -
  assume a: "2 ^ 56 \<le> unat v"
  then have "\<not> length (sqlite3PutVarint v) \<le> 8"
    unfolding length_put_le_8 by linarith
  then have 1: "sqliterkParseVarint64 (Some (pre @ sqlite3PutVarint v @ rest)) (int (length pre)) =
      (if bit v 7 then Ret (Inl SQLITERK_DAMAGED)
       else Ret (Inr (9, uint v div 256 * 128 + uint v mod 256)))"
    by (simp only: rk_parse_put if_False)
  have "(2 :: nat) ^ 56 \<ge> 256" by simp
  then have "256 \<le> int (unat v)" using a by linarith
  then have "0 < uint v div 256" by (simp add: pos_imp_zdiv_pos_iff)
  moreover have "uint v = uint v div 256 * 256 + uint v mod 256"
    by (simp only: div_mult_mod_eq)
  ultimately show ?thesis using 1 by linarith
qed

theorem rk_varint_nine_bytes_wrong_witness:
  "sqliterkParseVarint64 (Some (sqlite3PutVarint (- 1))) 0 = Ret (Inl SQLITERK_DAMAGED)"
proof -
  have "unat (- 1 :: u64) = 2 ^ 64 - 1" by (simp add: unsigned_minus_1_eq_mask mask_eq_exp_minus_1)
  then show ?thesis using rk_varint_nine_bytes_wrong [of "- 1" "[]" "[]"] by simp
qed

text \<open>\<^verbatim>\<open>sqlite3VarintLen\<close> is the number of bytes \<^verbatim>\<open>sqlite3PutVarint\<close> stores for every value
  below \<open>2 ^ 63\<close>; at and above \<open>2 ^ 63\<close> it returns 10 although 9 bytes are stored.\<close>

theorem varint_len:
  "sqlite3VarintLen v = (if unat v < 2 ^ 63 then length (sqlite3PutVarint v) else 10)
   \<and> (unat v < 2 ^ 63 \<or> length (sqlite3PutVarint v) = 9)"
  using varint_len_correct [of v] varint_len_top [of v] by auto

text \<open>\<^verbatim>\<open>sqlite3GetVarint32\<close> (called when the one-byte case is excluded) reads the same integer
  as \<^verbatim>\<open>sqlite3GetVarint\<close>, clamped to \<open>0xffffffff\<close> when it does not fit in 32 bits.\<close>

theorem get_varint32_clamps:
  "sqlite3GetVarint buf (int p) = Ret (n, v) \<Longrightarrow> 1 < n \<Longrightarrow>
   sqlite3GetVarint32 buf (int p) = Ret (n, if unat v < 2 ^ 32 then ucast v else 0xffffffff)"
  by (rule get32) (auto simp: get_off oget_def split: option.splits)

theorem get_varint32_clamps_witness:
  "sqlite3GetVarint32 [0x81, 0] 0 = Ret (2, 128)"
proof -
  have "sqlite3GetVarint [0x81, 0] (int 0) = Ret (2, 128)"
    unfolding get_off by (simp add: oget_def bit_simps)
  from get_varint32_clamps [OF this] show ?thesis by simp
qed

text \<open>Four-byte big-endian integers written by \<^verbatim>\<open>sqlite3Put4byte\<close> are read back by
  \<^verbatim>\<open>sqlite3Get4byte\<close>.\<close>

theorem get4byte_put4byte:
  "sqlite3Get4byte (pre @ sqlite3Put4byte v @ rest) (int (length pre)) = Ret v"
  by (rule get4_put4)

end
