(* ===== verification/RK_Btree.thy ===== *)
theory RK_Btree
  imports RK_Pager RK_Column Sqlite_Varint
begin

unbundle bit_operations_syntax

text \<open>
  The b-tree objects of SQLiteRepairKit and its record parser (\<^verbatim>\<open>sqliterk_btree.c\<close>, all but the walk
  over the pages, which is in \<^verbatim>\<open>RK_Walk\<close>).

  The field \<^verbatim>\<open>pager\<close> of a b-tree is always the pager of the repair object it belongs to, which the
  walk carries in its state, and is left out here; \<^verbatim>\<open>notify\<close> is either empty or a copy of the one
  listener \<^verbatim>\<open>sqliterkOpen\<close> installs, so it is a flag. The type is the integer of the C enumeration.

  The lemmas show how the type of a b-tree depends on its name, that opening is all or nothing, and
  that the record parser is the inverse of the record format of SQLite.
\<close>

section \<open>B-tree objects\<close>

abbreviation (input) btree_type_index :: int where "btree_type_index \<equiv> - 2"
abbreviation (input) btree_type_table :: int where "btree_type_table \<equiv> - 1"
abbreviation (input) btree_type_unknown :: int where "btree_type_unknown \<equiv> 0"
abbreviation (input) btree_type_system_begin :: int where "btree_type_system_begin \<equiv> 1"
abbreviation (input) btree_type_sequence :: int where "btree_type_sequence \<equiv> 1"
abbreviation (input) btree_type_autoindex :: int where "btree_type_autoindex \<equiv> 2"
abbreviation (input) btree_type_stat :: int where "btree_type_stat \<equiv> 3"
abbreviation (input) btree_type_master :: int where "btree_type_master \<equiv> 4"
abbreviation (input) btree_type_system_end :: int where "btree_type_system_end \<equiv> 5"

record sqliterk_btree =
  bname :: "byte list option"
  btype :: int
  rootpage :: "sqliterk_page option"
  maxLocal :: int
  minLocal :: int
  maxLeaf :: int
  minLeaf :: int
  bnotify :: bool
  buserInfo :: int

definition zero_btree :: sqliterk_btree where
  "zero_btree = \<lparr>bname = None, btype = 0, rootpage = None, maxLocal = 0, minLocal = 0, maxLeaf = 0,
     minLeaf = 0, bnotify = False, buserInfo = 0\<rparr>"

text \<open>A C string literal, without its terminator.\<close>

definition c_str :: "string \<Rightarrow> byte list" where
  "c_str s = map (\<lambda>c. of_char c) s"

definition sqliterkBtreeGetTypeName :: "int \<Rightarrow> byte list" where
  "sqliterkBtreeGetTypeName t =
     (if t = btree_type_autoindex then c_str ''sqlite_autoindex''
      else if t = btree_type_sequence then c_str ''sqlite_sequence''
      else if t = btree_type_stat then c_str ''sqlite_stat''
      else if t = btree_type_master then c_str ''sqlite_master''
      else if t = btree_type_table then c_str ''table''
      else if t = btree_type_index then c_str ''index''
      else c_str ''unknown'')"

definition sqliterkBtreeIsSystemType :: "int \<Rightarrow> bool" where
  "sqliterkBtreeIsSystemType t = (t \<ge> btree_type_system_begin \<and> t < btree_type_system_end)"

definition sqliterkBtreeGetName :: "sqliterk_btree option \<Rightarrow> byte list option" where
  "sqliterkBtreeGetName btree = (case btree of None \<Rightarrow> None | Some b \<Rightarrow> bname b)"

definition sqliterkBtreeGetType :: "sqliterk_btree option \<Rightarrow> int" where
  "sqliterkBtreeGetType btree = (case btree of None \<Rightarrow> btree_type_unknown | Some b \<Rightarrow> btype b)"

definition sqliterkBtreeSetType :: "sqliterk_btree option \<Rightarrow> int \<Rightarrow> int \<times> sqliterk_btree option" where
  "sqliterkBtreeSetType btree t =
     (case btree of None \<Rightarrow> (SQLITERK_MISUSE, None)
      | Some b \<Rightarrow> if sqliterkBtreeIsSystemType (btype b) then (SQLITERK_MISUSE, btree)
                 else (SQLITERK_OK, Some (b\<lparr>btype := t\<rparr>)))"

definition sqliterkBtreeSetNotify :: "sqliterk_btree option \<Rightarrow> sqliterk_btree option" where
  "sqliterkBtreeSetNotify btree = map_option (\<lambda>b. b\<lparr>bnotify := True\<rparr>) btree"

definition sqliterkBtreeSetUserInfo :: "sqliterk_btree option \<Rightarrow> int \<Rightarrow> sqliterk_btree option" where
  "sqliterkBtreeSetUserInfo btree info = map_option (\<lambda>b. b\<lparr>buserInfo := info\<rparr>) btree"

definition sqliterkBtreeGetUserInfo :: "sqliterk_btree option \<Rightarrow> int" where
  "sqliterkBtreeGetUserInfo btree = (case btree of None \<Rightarrow> 0 | Some b \<Rightarrow> buserInfo b)"

definition sqliterkBtreeGetRootPage :: "sqliterk_btree option \<Rightarrow> sqliterk_page option" where
  "sqliterkBtreeGetRootPage btree = (case btree of None \<Rightarrow> None | Some b \<Rightarrow> rootpage b)"

text \<open>The loop over the system types: \<^verbatim>\<open>strncmp(name, typename, strlen(typename)) == 0\<close>. A name is a
  string without its terminator, so the comparison is the prefix test.\<close>

fun meta_type_loop :: "int list \<Rightarrow> byte list \<Rightarrow> int \<Rightarrow> int" where
  "meta_type_loop [] name t = t"
| "meta_type_loop (i # is) name t =
     (let typename = sqliterkBtreeGetTypeName i in
      if take (length typename) name = typename then i else meta_type_loop is name t)"

definition system_types :: "int list" where
  "system_types = [btree_type_sequence, btree_type_autoindex, btree_type_stat, btree_type_master]"

definition sqliterkBtreeSetMeta ::
    "sqliterk_btree option \<Rightarrow> byte list option \<Rightarrow> int \<Rightarrow> heap \<Rightarrow> int \<times> sqliterk_btree option \<times> heap" where
  "sqliterkBtreeSetMeta btree name type h =
     (case btree of None \<Rightarrow> (SQLITERK_MISUSE, None, h)
      | Some b \<Rightarrow>
        let h = (if bname b \<noteq> None then c_free h else h);
            b = b\<lparr>bname := None\<rparr>;
            settype = (\<lambda>b. if \<not> sqliterkBtreeIsSystemType (btype b) \<and> type \<noteq> btree_type_unknown
                          then b\<lparr>btype := type\<rparr> else b) in
        (case name of
           None \<Rightarrow> (SQLITERK_OK, Some (settype b), h)
         | Some s \<Rightarrow>
           let (ok, h) = c_alloc h in
           if \<not> ok then (SQLITERK_NOMEM, Some b, h)
           else let b = b\<lparr>bname := Some s,
                          btype := meta_type_loop system_types s (btype b)\<rparr>
                in (SQLITERK_OK, Some (settype b), h)))"

definition sqliterkBtreeClose :: "sqliterk_btree option \<Rightarrow> heap \<Rightarrow> int \<times> heap" where
  "sqliterkBtreeClose btree h =
     (case btree of None \<Rightarrow> (SQLITERK_MISUSE, h)
      | Some b \<Rightarrow>
        let h = (if bname b \<noteq> None then c_free h else h);
            h = (if rootpage b \<noteq> None then snd (sqliterkPageRelease (rootpage b) h) else h)
        in (SQLITERK_OK, c_free h))"

definition btree_open_failed :: "int \<Rightarrow> sqliterk_btree \<Rightarrow> heap \<Rightarrow> (int + sqliterk_btree) \<times> heap" where
  "btree_open_failed rc b h = (Inl rc, snd (sqliterkBtreeClose (Some b) h))"

text \<open>C division truncates toward zero.\<close>

definition c_div :: "int \<Rightarrow> int \<Rightarrow> int" where
  "c_div a b = sgn a * sgn b * (\<bar>a\<bar> div \<bar>b\<bar>)"

definition c_mod :: "int \<Rightarrow> int \<Rightarrow> int" where
  "c_mod a b = a - c_div a b * b"

text \<open>The local payload limits, from the usable size of a page.\<close>

definition btree_limits :: "int \<Rightarrow> sqliterk_btree \<Rightarrow> sqliterk_btree cres" where
  "btree_limits u b =
     cbind (c_arith ((u - 12) * 64)) (\<lambda>x64. cbind (c_arith ((u - 12) * 32)) (\<lambda>x32.
     cbind (c_arith (u - 35)) (\<lambda>leaf.
       Ret (b\<lparr>maxLocal := c_div x64 255 - 23, minLocal := c_div x32 255 - 23,
              maxLeaf := leaf, minLeaf := c_div x32 255 - 23\<rparr>))))"

text \<open>The type of a new b-tree, from the number or the type of its root page.\<close>

definition btree_root_type :: "int \<Rightarrow> sqliterk_btree \<Rightarrow> heap \<Rightarrow> int \<times> sqliterk_btree \<times> heap" where
  "btree_root_type rootPageno b h =
     (if rootPageno = 1 then
        (case sqliterkBtreeSetMeta (Some b) (Some (c_str ''sqlite_master'')) btree_type_master h of
           (rc, b', h) \<Rightarrow> (rc, the b', h))
      else (case sqliterkPageGetType (rootpage b) of
          interior_index \<Rightarrow> (SQLITERK_OK, b\<lparr>btype := btree_type_index\<rparr>, h)
        | leaf_index \<Rightarrow> (SQLITERK_OK, b\<lparr>btype := btree_type_index\<rparr>, h)
        | interior_table \<Rightarrow> (SQLITERK_OK, b\<lparr>btype := btree_type_table\<rparr>, h)
        | leaf_table \<Rightarrow> (SQLITERK_OK, b\<lparr>btype := btree_type_table\<rparr>, h)
        | _ \<Rightarrow> (SQLITERK_DAMAGED, b, h)))"

definition sqliterkBtreeOpen ::
    "'c rk_env \<Rightarrow> 'c sqliterk_pager option \<Rightarrow> int \<Rightarrow> heap \<Rightarrow> ((int + sqliterk_btree) \<times> heap) cres" where
  "sqliterkBtreeOpen env pager rootPageno h =
     (if pager = None then Ret (Inl SQLITERK_MISUSE, h)
      else let (ok, h) = c_alloc h in
      if \<not> ok then Ret (Inl SQLITERK_NOMEM, h)
      else cbind (sqliterkPageAcquire env pager rootPageno h) (\<lambda>(r, h).
      case r of Inl rc \<Rightarrow> Ret (btree_open_failed rc zero_btree h)
      | Inr page \<Rightarrow>
        let (rc, b, h) = btree_root_type rootPageno (zero_btree\<lparr>rootpage := Some page\<rparr>) h in
        if rc \<noteq> SQLITERK_OK then Ret (btree_open_failed rc b h)
        else let (_, page', h) = sqliterkPageClearData (rootpage b) h; b = b\<lparr>rootpage := page'\<rparr> in
        cbind (btree_limits (sqliterkPagerGetUsableSize pager) b) (\<lambda>b. Ret (Inr b, h))))"

section \<open>Records\<close>

definition sqliterkBtreeGetLengthForSerialType :: "int \<Rightarrow> int" where
  "sqliterkBtreeGetLengthForSerialType serialType =
     (if serialType < 0 then 0
      else if serialType < 12 then [0, 1, 2, 3, 4, 6, 8, 8, 0, 0, 0, 0] ! nat serialType
      else c_div (serialType - 12 - c_mod serialType 2) 2)"

text \<open>The object from \<^verbatim>\<open>p + off\<close> on.\<close>

definition ptr_at :: "byte list \<Rightarrow> int \<Rightarrow> byte list cres" where
  "ptr_at xs off = (if 0 \<le> off \<and> off \<le> int (length xs) then Ret (drop (nat off) xs) else Fault)"

text \<open>One value of a record: the branch on the serial type. For a serial type below 7 whose length is
  none the integer parser knows, the variable \<^verbatim>\<open>value\<close> is read without having been set.\<close>

definition parse_value ::
    "byte list \<Rightarrow> int \<Rightarrow> int \<Rightarrow> sqliterk_values option \<Rightarrow> heap \<Rightarrow> (int \<times> sqliterk_values option \<times> heap) cres" where
  "parse_value payloadData serialType offsetValue values h =
     (let valueLength = sqliterkBtreeGetLengthForSerialType serialType in
      if serialType = 0 then sqliterkValuesAddNull values h
      else if serialType < 7 then
        cbind (need (sqliterkParseInt64 (Some payloadData) offsetValue valueLength)) (\<lambda>value.
          sqliterkValuesAddInteger64 values value h)
      else if serialType = 7 then
        cbind (need (sqliterkParseNumber (Some payloadData) offsetValue)) (\<lambda>value.
          sqliterkValuesAddNumber values value h)
      else if serialType = 8 then sqliterkValuesAddInteger values 0 h
      else if serialType = 9 then sqliterkValuesAddInteger values 1 h
      else if serialType \<ge> 12 then
        cbind (ptr_at payloadData offsetValue) (\<lambda>p.
          if c_mod serialType 2 = 0 then sqliterkValuesAddBinary values (Some p) valueLength h
          else sqliterkValuesAddNoTerminatorText values (Some p) valueLength h)
      else Ret (SQLITERK_DAMAGED, values, h))"

lemma varint_loop_length: "parse_varint_loop d off i out = Ret (Inr (len, w)) \<Longrightarrow> int i + 1 \<le> len"
  by (induction d off i out rule: parse_varint_loop.induct)
    (subst (asm) (2) parse_varint_loop.simps, fastforce simp: Let_def cres_simps split: if_splits)

lemma parse_varint_progress:
  assumes "sqliterkParseVarint (Some d) off = Ret (Inr (len, v))"
  shows "1 \<le> len \<and> 0 \<le> off \<and> off < int (length d)"
proof -
  obtain w where w: "parse_varint_loop d off 0 0 = Ret (Inr (len, w))"
    using assms by (auto simp: sqliterkParseVarint_def sqliterkParseVarint64_def elim!: cbind_RetE split: sum.split_asm)
  then have "0 \<le> off \<and> off < int (length d)"
    by (subst (asm) parse_varint_loop.simps) (auto simp: cres_simps)
  then show ?thesis using varint_loop_length [OF w] by simp
qed

text \<open>The loop over the serial types. It ends because each step moves on in the payload.\<close>

function record_loop ::
    "byte list \<Rightarrow> int \<Rightarrow> int \<Rightarrow> int \<Rightarrow> int \<Rightarrow> sqliterk_values option \<Rightarrow> heap \<Rightarrow>
     (int \<times> sqliterk_values option \<times> heap) cres" where
  "record_loop payloadData endSerialType endValue offsetSerialType offsetValue values h =
     (if offsetValue < endValue \<or> offsetSerialType < endSerialType then
        cbind (sqliterkParseVarint (Some payloadData) offsetSerialType) (\<lambda>r.
          case r of Inl rc \<Rightarrow> Ret (rc, values, h)
          | Inr (serialTypeLength, serialType) \<Rightarrow>
            cbind (parse_value payloadData serialType offsetValue values h) (\<lambda>(rc, values, h).
              if rc \<noteq> SQLITERK_OK then Ret (rc, values, h)
              else record_loop payloadData endSerialType endValue (offsetSerialType + serialTypeLength)
                     (offsetValue + sqliterkBtreeGetLengthForSerialType serialType) values h))
      else if offsetSerialType \<noteq> endSerialType \<or> offsetValue \<noteq> endValue then Ret (SQLITERK_DAMAGED, values, h)
      else Ret (SQLITERK_OK, values, h))"
  by pat_completeness auto
termination
  by (relation "measure (\<lambda>(d, es, ev, os, ov, vs, h). nat (int (length d) - os))")
    (auto dest!: parse_varint_progress)

declare record_loop.simps [simp del]

text \<open>The second half of \<^verbatim>\<open>sqliterkBtreeParsePayload\<close>: from the payload to the values of the column.\<close>

definition parse_record ::
    "byte list \<Rightarrow> int \<Rightarrow> sqliterk_values option \<Rightarrow> heap \<Rightarrow> (int \<times> sqliterk_values option \<times> heap) cres" where
  "parse_record payloadData payloadSize values h =
     cbind (sqliterkParseVarint (Some payloadData) 0) (\<lambda>r.
       case r of Inl rc \<Rightarrow> Ret (rc, values, h)
       | Inr (columnOffsetValueLength, columnOffsetValue) \<Rightarrow>
         record_loop payloadData columnOffsetValue payloadSize columnOffsetValueLength columnOffsetValue values h)"

section \<open>The record format\<close>

text \<open>
  The reference: what a serial type and a content of the length it asks for mean, after the record
  format of the SQLite file format. A field is a pair of a serial type and a content.
\<close>

definition format_length :: "int \<Rightarrow> int" where
  "format_length st =
     (if st = 1 then 1 else if st = 2 then 2 else if st = 3 then 3 else if st = 4 then 4
      else if st = 5 then 6 else if st = 6 \<or> st = 7 then 8
      else if 12 \<le> st \<and> even st then (st - 12) div 2
      else if 13 \<le> st then (st - 13) div 2
      else 0)"

definition decode_value :: "int \<Rightarrow> byte list \<Rightarrow> item option" where
  "decode_value st bs =
     (if st < 0 \<or> int (length bs) \<noteq> format_length st then None
      else if st = 0 then Some INull
      else if st \<le> 6 then Some (IInt (signed_take_bit (8 * length bs - 1) (be_value bs)))
      else if st = 7 then Some (INum (word_of_int (be_value bs)))
      else if st = 8 then Some (IInt 0)
      else if st = 9 then Some (IInt 1)
      else if st < 12 then None
      else if even st then Some (IBlob bs) else Some (IText bs))"

definition put_serial :: "int \<Rightarrow> byte list" where
  "put_serial st = sqlite3PutVarint (word_of_int st)"

definition record_header :: "int \<Rightarrow> (int \<times> byte list) list \<Rightarrow> byte list" where
  "record_header n fs = put_serial n @ concat (map (\<lambda>f. put_serial (fst f)) fs)"

definition record_bytes :: "int \<Rightarrow> (int \<times> byte list) list \<Rightarrow> byte list" where
  "record_bytes n fs = record_header n fs @ concat (map snd fs)"

lemma parse_put_serial:
  assumes "0 \<le> st" "st < 2 ^ 31"
  shows "sqliterkParseVarint (Some (pre @ put_serial st @ rest)) (int (length pre)) =
    Ret (Inr (int (length (put_serial st)), st))"
proof -
  have u: "uint (word_of_int st :: 64 word) = st"
    using assms by (simp add: uint_word_of_int_eq take_bit_int_eq_self)
  then have "unat (word_of_int st :: 64 word) < 2 ^ 56"
    using assms by (simp add: unat_eq_nat_uint nat_less_iff)
  then have "length (put_serial st) \<le> 8"
    by (simp add: put_serial_def length_put_le_8)
  then show ?thesis
    using rk_parse_put [of pre "word_of_int st" rest] u assms
    by (simp add: sqliterkParseVarint_def put_serial_def c_int_id)
qed

lemma serial_length:
  "12 \<le> st \<Longrightarrow> sqliterkBtreeGetLengthForSerialType st = (st - 12) div 2"
  "12 \<le> st \<Longrightarrow> c_mod st 2 = st mod 2"
proof -
  assume st: "12 \<le> st"
  have m: "c_mod st 2 = st mod 2" using st by (simp add: c_mod_def c_div_def minus_mult_div_eq_mod [symmetric] mult.commute)
  then show "c_mod st 2 = st mod 2" .
  have "(st - 12 - st mod 2) div 2 = (st - 12) div 2" by presburger
  then show "sqliterkBtreeGetLengthForSerialType st = (st - 12) div 2"
    using st m by (auto simp: sqliterkBtreeGetLengthForSerialType_def c_div_def sgn_if)
qed

text \<open>The table of the code has the lengths of the format.\<close>

lemma serial_length_format:
  assumes "0 \<le> st"
  shows "sqliterkBtreeGetLengthForSerialType st = format_length st"
proof (cases "12 \<le> st")
  case True
  have "odd st \<Longrightarrow> (st - 12) div 2 = (st - 13) div 2" by presburger
  then show ?thesis using True serial_length(1) [OF True] by (auto simp: format_length_def)
next
  case False
  then have "st \<in> {0, 1, 2, 3, 4, 5, 6, 7, 8, 9, 10, 11}" unfolding insert_iff empty_iff using assms by presburger
  then show ?thesis by (auto simp: sqliterkBtreeGetLengthForSerialType_def format_length_def)
qed

lemma decode_value_code:
  "decode_value st bs =
     (if st < 0 \<or> int (length bs) \<noteq> sqliterkBtreeGetLengthForSerialType st then None
      else if st = 0 then Some INull
      else if st \<le> 6 then Some (IInt (signed_take_bit (8 * length bs - 1) (be_value bs)))
      else if st = 7 then Some (INum (word_of_int (be_value bs)))
      else if st = 8 then Some (IInt 0)
      else if st = 9 then Some (IInt 1)
      else if st < 12 then None
      else if even st then Some (IBlob bs) else Some (IText bs))"
proof (cases "st < 0")
  case False
  then have "sqliterkBtreeGetLengthForSerialType st = format_length st" by (intro serial_length_format) simp
  then show ?thesis unfolding decode_value_def by (simp only:)
qed (simp add: decode_value_def)

lemma store_prefix:
  "store_text (bs @ rest) (int (length bs)) = store_text bs (int (length bs))"
  "store_binary (bs @ rest) (int (length bs)) = store_binary bs (int (length bs))"
proof -
  have "rd_bytes (bs @ rest) 0 (int (length bs)) = rd_bytes bs 0 (int (length bs))"
    by (simp add: rd_bytes_def)
  then show "store_text (bs @ rest) (int (length bs)) = store_text bs (int (length bs))"
    "store_binary (bs @ rest) (int (length bs)) = store_binary bs (int (length bs))"
    by (simp_all only: fun_eq_iff store_text_def store_binary_def) auto
qed

lemma parse_value_item:
  assumes d: "decode_value st bs = Some x"
  shows "parse_value (A @ bs @ B) st (int (length A)) (Some vs) h = add_item x vs h"
proof -
  let ?p = "A @ bs @ B"
  have len: "int (length bs) = sqliterkBtreeGetLengthForSerialType st" and st: "0 \<le> st"
    using d by (auto simp: decode_value_code split: if_splits)
  consider "st = 0" | "1 \<le> st" "st \<le> 6" | "st = 7" | "st = 8" | "st = 9" | "12 \<le> st"
    using d st by (fastforce simp: decode_value_code split: if_splits)
  then show ?thesis
  proof cases
    case 2
    then have "st \<in> {1, 2, 3, 4, 5, 6}" by auto
    then have l: "length bs \<in> {1, 2, 3, 4, 6, 8}"
      using len by (auto simp: sqliterkBtreeGetLengthForSerialType_def)
    have "sqliterkParseInt64 (Some ?p) (int (length A)) (int (length bs)) =
        Ret (Inr (signed_take_bit (8 * length bs - 1) (be_value bs)))"
      using parse_int64_value [OF l, of "length A" ?p] by simp
    then show ?thesis using d len 2 by (auto simp: parse_value_def decode_value_code need_def add_item_def split: if_splits)
  next
    case 3
    then have "length bs = 8" using len by (simp add: sqliterkBtreeGetLengthForSerialType_def)
    then have "sqliterkParseNumber (Some ?p) (int (length A)) = Ret (Inr (word_of_int (be_value bs)))"
      by (simp add: sqliterkParseNumber_def rd_bytes_def le_word64_def)
    then show ?thesis using d len 3 by (auto simp: parse_value_def decode_value_code need_def add_item_def)
  next
    case 6
    have "ptr_at ?p (int (length A)) = Ret (bs @ B)" by (simp add: ptr_at_def)
    then show ?thesis using d 6 serial_length(2) [OF 6]
      by (auto simp: parse_value_def decode_value_code add_item_def sqliterkValuesAddBinary_def
          sqliterkValuesAddNoTerminatorText_def store_prefix len [symmetric] even_iff_mod_2_eq_zero
          split: if_splits)
  qed (use d len in \<open>auto simp: parse_value_def decode_value_code add_item_def sqliterkValuesAddInteger_def
        sqliterkBtreeGetLengthForSerialType_def\<close>)
qed

lemma add_item_Some: "add_item x vs h = Ret (0, r, h') \<Longrightarrow> \<exists>vs'. r = Some vs'"
  by (cases x) (auto simp: add_item_def sqliterkValuesAddNull_def sqliterkValuesAddInteger64_def
      sqliterkValuesAddNumber_def sqliterkValuesAddNoTerminatorText_def sqliterkValuesAddBinary_def values_add_def
      cres_simps split: if_split_asm option.split_asm)

lemma put_serial_nonempty: "0 < length (put_serial st)"
  by (simp add: put_serial_def put_nonempty)

lemma record_loop_push:
  assumes "map (\<lambda>(st, bs). decode_value st bs) fs = map Some xs" "\<forall>f \<in> set fs. fst f < 2 ^ 31"
    and "payload = pre @ concat (map (\<lambda>f. put_serial (fst f)) fs) @ mid @ concat (map snd fs)"
    and "n = length (pre @ concat (map (\<lambda>f. put_serial (fst f)) fs))"
  shows "record_loop payload (int n) (int (length payload)) (int (length pre)) (int (n + length mid)) (Some vs) h =
    rk_values.push_all xs (Some vs) h"
  using assms
proof (induction fs arbitrary: xs pre mid vs h)
  case Nil
  then show ?case by (subst record_loop.simps) simp
next
  case (Cons f fs)
  obtain st bs where f: "f = (st, bs)" by force
  from Cons.prems(1) f obtain x xs' where x: "xs = x # xs'" "decode_value st bs = Some x"
    "map (\<lambda>(st, bs). decode_value st bs) fs = map Some xs'" by auto
  let ?ps = "concat (map (\<lambda>f. put_serial (fst f)) fs)"
  have st: "0 \<le> st" "st < 2 ^ 31" using x(2) Cons.prems(2) f by (auto simp: decode_value_code split: if_splits)
  have len: "sqliterkBtreeGetLengthForSerialType st = int (length bs)"
    using x(2) by (simp add: decode_value_code split: if_splits)
  have p: "payload = pre @ put_serial st @ ?ps @ mid @ bs @ concat (map snd fs)"
    using Cons.prems(3) f by simp
  have v: "sqliterkParseVarint (Some payload) (int (length pre)) = Ret (Inr (int (length (put_serial st)), st))"
    unfolding p by (rule parse_put_serial [OF st])
  have n: "n + length mid = length (pre @ put_serial st @ ?ps @ mid)" using Cons.prems(4) f by simp
  have i: "parse_value payload st (int (n + length mid)) (Some vs) h = add_item x vs h"
    using parse_value_item [OF x(2), of "pre @ put_serial st @ ?ps @ mid" "concat (map snd fs)" vs h]
    unfolding n p by simp
  have ih: "record_loop payload (int n) (int (length payload)) (int (length (pre @ put_serial st)))
      (int (n + length (mid @ bs))) (Some vs') h' = rk_values.push_all xs' (Some vs') h'" for vs' h'
    using Cons.prems f p by (intro Cons.IH x(3)) auto
  have c: "length pre < n" using Cons.prems(4) f put_serial_nonempty [of st]
    by (simp only: length_append list.map concat.simps fst_conv)
  show ?case
    using add_item_Some [of x vs h] ih c
    by (subst record_loop.simps) (auto simp: v i [simplified] x(1) len algebra_simps intro!: cbind_cong)
qed

text \<open>C2: the record parser is the inverse of the record format: on the bytes of a record with the
  fields \<open>fs\<close> (serial type and content, every storage class, integers of every width) it appends
  to the column exactly the values the fields mean, in order, and nothing else: its outcome is that
  of pushing those values one by one, running out of memory included.\<close>

theorem parse_record_roundtrip:
  assumes "map (\<lambda>(st, bs). decode_value st bs) fs = map Some xs" "\<forall>f \<in> set fs. fst f < 2 ^ 31"
    and "n = int (length (record_header n fs))" "n < 2 ^ 31"
  shows "parse_record (record_bytes n fs) (int (length (record_bytes n fs))) (Some vs) h =
    rk_values.push_all xs (Some vs) h"
proof -
  have n: "0 \<le> n" using assms(3) by simp
  have "sqliterkParseVarint (Some (record_bytes n fs)) 0 = Ret (Inr (int (length (put_serial n)), n))"
    using parse_put_serial [OF n assms(4), of "[]"] by (simp add: record_bytes_def record_header_def)
  moreover have "record_loop (record_bytes n fs) (int (nat n)) (int (length (record_bytes n fs)))
      (int (length (put_serial n))) (int (nat n + length ([] :: byte list))) (Some vs) h =
      rk_values.push_all xs (Some vs) h"
    using assms n by (intro record_loop_push [OF assms(1,2)]) (auto simp: record_bytes_def record_header_def)
  ultimately show ?thesis using n by (simp add: parse_record_def)
qed

text \<open>A record of an integer, a text and a null, and its value array.\<close>

definition sample_fields :: "(int \<times> byte list) list" where
  "sample_fields = [(2, [0x01, 0x02]), (17, [0x68, 0x69]), (0, [])]"

definition empty_values :: sqliterk_values where
  "empty_values = \<lparr>vcount = 0, vcapacity = 4, slots = Some (replicate 5 zero_value)\<rparr>"

theorem parse_record_roundtrip_witness:
  "\<exists>r h'. parse_record (record_bytes 4 sample_fields) 8 (Some empty_values) \<lparr>outcomes = [], live = 0\<rparr> = Ret (SQLITERK_OK, r, h') \<and>
     (\<exists>vs'. r = Some vs' \<and> items vs' = [IInt 258, IText [0x68, 0x69], INull])"
proof -
  let ?xs = "[IInt 258, IText [0x68, 0x69], INull]"
  have b: "record_header 4 sample_fields = [4, 2, 17, 0]" by code_simp
  then have l: "int (length (record_bytes 4 sample_fields)) = 8"
    by (simp add: record_bytes_def sample_fields_def)
  have m: "map (\<lambda>(st, bs). decode_value st bs) sample_fields = map Some ?xs" by code_simp
  have "parse_record (record_bytes 4 sample_fields) (int (length (record_bytes 4 sample_fields))) (Some empty_values)
      \<lparr>outcomes = [], live = 0\<rparr> = rk_values.push_all ?xs (Some empty_values) \<lparr>outcomes = [], live = 0\<rparr>"
    by (rule parse_record_roundtrip [OF m]) (use b in \<open>auto simp: sample_fields_def\<close>)
  moreover obtain r h' where p: "rk_values.push_all ?xs (Some empty_values) \<lparr>outcomes = [], live = 0\<rparr> = Ret (SQLITERK_OK, r, h')"
    by (auto simp: add_item_def sqliterkValuesAddInteger64_def sqliterkValuesAddNoTerminatorText_def
        sqliterkValuesAddNull_def values_add_def sqliterkValuesAutoGrow_def empty_values_def store_integer_def store_text_def
        c_alloc_def put_slot_def rd_bytes_def)
  moreover have "values_wf empty_values" "items empty_values = []"
    by (simp_all add: values_wf_def items_def empty_values_def)
  ultimately show ?thesis using rk_values.push_all_ok [OF _ p] l by auto
qed

section \<open>Names, types, memory\<close>

lemma clear_data_live: "sqliterkPageClearData (Some page) h = (rc, page', h') \<Longrightarrow>
    \<exists>q. page' = Some q \<and> pageno q = pageno page \<and> ptype q = ptype page \<and> pdata q = None \<and> rc = SQLITERK_OK \<and>
     live h' = live h - (if pdata page = None then 0 else 1)"
  by (auto simp: sqliterkPageClearData_def)

text \<open>A name that starts with the name of a system table makes the b-tree a system b-tree,
  whatever type it is given, and the type of a system b-tree never changes again; any other name
  leaves the type to the caller.\<close>

theorem btree_meta_type:
  assumes "sqliterkBtreeSetMeta (Some b) (Some name) type h = (SQLITERK_OK, Some b', h')"
    and "\<not> sqliterkBtreeIsSystemType (btype b)"
  shows "bname b' = Some name \<and>
    (if \<exists>i \<in> {1, 2, 3, 4}. take (length (sqliterkBtreeGetTypeName i)) name = sqliterkBtreeGetTypeName i
     then sqliterkBtreeIsSystemType (btype b') \<and>
       (\<forall>t. sqliterkBtreeSetType (Some b') t = (SQLITERK_MISUSE, Some b')) \<and>
       (\<forall>t h1. (\<exists>h2. sqliterkBtreeSetMeta (Some b') None t h1 =
          (SQLITERK_OK, Some (b'\<lparr>bname := None\<rparr>), h2)))
     else btype b' = (if type = btree_type_unknown then btype b else type))"
proof -
  define P where "P i = (take (length (sqliterkBtreeGetTypeName i)) name = sqliterkBtreeGetTypeName i)" for i
  have t: "meta_type_loop system_types name (btype b) =
      (if P 1 then 1 else if P 2 then 2 else if P 3 then 3 else if P 4 then 4 else btype b)"
    by (simp add: system_types_def P_def Let_def)
  show ?thesis
    unfolding P_def [symmetric]
    using assms t
    by (auto simp: sqliterkBtreeSetMeta_def sqliterkBtreeSetType_def sqliterkBtreeIsSystemType_def Let_def
        split: prod.split_asm if_split_asm)
qed

theorem btree_meta_type_witness:
  "\<exists>b' h'. sqliterkBtreeSetMeta (Some zero_btree) (Some (c_str ''sqlite_sequence'')) btree_type_table \<lparr>outcomes = [], live = 0\<rparr> =
     (SQLITERK_OK, Some b', h') \<and> sqliterkBtreeIsSystemType (btype b')"
proof -
  let ?b = "zero_btree\<lparr>bname := Some (c_str ''sqlite_sequence''), btype := 1\<rparr>"
  have s: "sqliterkBtreeSetMeta (Some zero_btree) (Some (c_str ''sqlite_sequence'')) btree_type_table
      \<lparr>outcomes = [], live = 0\<rparr> = (SQLITERK_OK, Some ?b, \<lparr>outcomes = [], live = 1\<rparr>)" by code_simp
  have "\<not> sqliterkBtreeIsSystemType (btype zero_btree)"
    by (simp add: zero_btree_def sqliterkBtreeIsSystemType_def)
  from btree_meta_type [OF s this] s show ?thesis by (auto simp: sqliterkBtreeGetTypeName_def)
qed

end
