(* ===== verification/RK_Walk.thy ===== *)
theory RK_Walk
  imports RK_Btree
begin

unbundle bit_operations_syntax

text \<open>
  The walk over the pages of a database (\<^verbatim>\<open>sqliterk_btree.c\<close>: pages, cells, payloads, overflow
  chains) and the repair object that drives it (\<^verbatim>\<open>sqliterk.c\<close>).

  The state \<open>('c, 'u) sqliterk\<close> is \<^verbatim>\<open>struct sqliterk\<close> with the heap and the memory \<open>'u\<close> of the user's
  callbacks. A user callback is a function on that memory; what it reads of the table and the column
  it gets as arguments, and \<^verbatim>\<open>sqliterk_table_set_user_info\<close> called from a callback is part of its
  memory. Callbacks do not call back into the parser.

  The function pointers of \<^verbatim>\<open>struct sqliterk_btree_notify\<close> are arguments where following them would
  make a cycle: the cell parser gets the column handler, the column handler gets the page parser.
  The page parser ties the knot; its first argument bounds the depth of the recursion and, in
  \<^verbatim>\<open>overflow_loop\<close>, the number of overflow pages followed. \<open>Diverge\<close> says that the bound was reached.
\<close>

section \<open>State\<close>

record 'u sqliterk_notify =
  onBeginParseTable :: "('u \<Rightarrow> sqliterk_btree \<Rightarrow> 'u) option"
  onEndParseTable :: "('u \<Rightarrow> sqliterk_btree \<Rightarrow> 'u) option"
  onParseColumn :: "('u \<Rightarrow> sqliterk_btree \<Rightarrow> sqliterk_column \<Rightarrow> int \<times> 'u) option"
  didParsePage :: "('u \<Rightarrow> int \<Rightarrow> 'u) option"

record ('c, 'u) sqliterk =
  rpager :: "'c sqliterk_pager option"
  rnotify :: "'u sqliterk_notify"
  ruserInfo :: int
  recursive :: bool
  userdata :: 'u
  rheap :: heap

section \<open>Notifications\<close>

definition set_page_status :: "int \<Rightarrow> status \<Rightarrow> ('c, 'u) sqliterk \<Rightarrow> ('c, 'u) sqliterk cres" where
  "set_page_status no st rk =
     cbind (sqliterkPagerSetStatus (rpager rk) no st) (\<lambda>p. Ret (rk\<lparr>rpager := p\<rparr>))"

definition sqliterkNotify_onBeginParsePage :: "int \<Rightarrow> ('c, 'u) sqliterk \<Rightarrow> (int \<times> ('c, 'u) sqliterk) cres" where
  "sqliterkNotify_onBeginParsePage no rk =
     cbind (sqliterkPagerGetStatus (rpager rk) no) (\<lambda>st.
       if st = st_checking then Ret (SQLITERK_MISUSE, rk)
       else cbind (set_page_status no st_checking rk) (\<lambda>rk. Ret (SQLITERK_OK, rk)))"

definition sqliterkNotify_onEndParsePage :: "int \<Rightarrow> int \<Rightarrow> ('c, 'u) sqliterk \<Rightarrow> ('c, 'u) sqliterk cres" where
  "sqliterkNotify_onEndParsePage no result rk =
     cbind (if result = SQLITERK_OK then set_page_status no st_checked rk
            else if result = SQLITERK_DAMAGED then set_page_status no st_damaged rk
            else if result = SQLITERK_CANCELLED then Ret rk
            else set_page_status no st_invalid rk) (\<lambda>rk.
       Ret (case didParsePage (rnotify rk) of None \<Rightarrow> rk
            | Some f \<Rightarrow> rk\<lparr>userdata := f (userdata rk) no\<rparr>))"

definition sqliterkNotify_onBeginParseBtree :: "sqliterk_btree \<Rightarrow> ('c, 'u) sqliterk \<Rightarrow> ('c, 'u) sqliterk" where
  "sqliterkNotify_onBeginParseBtree btree rk =
     (case onBeginParseTable (rnotify rk) of None \<Rightarrow> rk
      | Some f \<Rightarrow> rk\<lparr>userdata := f (userdata rk) btree\<rparr>)"

definition sqliterkNotify_onEndParseBtree :: "sqliterk_btree \<Rightarrow> int \<Rightarrow> ('c, 'u) sqliterk \<Rightarrow> ('c, 'u) sqliterk" where
  "sqliterkNotify_onEndParseBtree btree result rk =
     (case onEndParseTable (rnotify rk) of None \<Rightarrow> rk
      | Some f \<Rightarrow> rk\<lparr>userdata := f (userdata rk) btree\<rparr>)"

text \<open>A b-tree whose listener is not installed has null function pointers.\<close>

definition notify_begin_page :: "sqliterk_btree \<Rightarrow> int \<Rightarrow> ('c, 'u) sqliterk \<Rightarrow> (int \<times> ('c, 'u) sqliterk) cres" where
  "notify_begin_page btree no rk =
     (if bnotify btree then sqliterkNotify_onBeginParsePage no rk else Ret (SQLITERK_OK, rk))"

definition notify_end_page :: "sqliterk_btree \<Rightarrow> int \<Rightarrow> int \<Rightarrow> ('c, 'u) sqliterk \<Rightarrow> ('c, 'u) sqliterk cres" where
  "notify_end_page btree no result rk =
     (if bnotify btree then sqliterkNotify_onEndParsePage no result rk else Ret rk)"

section \<open>Payloads\<close>

text \<open>The number of payload bytes on the leaf page itself.\<close>

definition local_size :: "sqliterk_btree \<Rightarrow> int \<Rightarrow> int \<Rightarrow> int cres" where
  "local_size btree usable payloadSize =
     (if payloadSize \<le> maxLeaf btree then Ret payloadSize
      else if usable - 4 = 0 then Fault
      else cbind (c_arith (payloadSize - minLocal btree)) (\<lambda>d.
        let surplus = minLocal btree + c_mod d (usable - 4) in
        Ret (if surplus \<le> maxLeaf btree then surplus else minLocal btree)))"

primrec overflow_loop ::
    "nat \<Rightarrow> 'c rk_env \<Rightarrow> sqliterk_btree \<Rightarrow> int \<Rightarrow> int \<Rightarrow> byte list \<Rightarrow> int \<Rightarrow> sqliterk_column \<Rightarrow> ('c, 'u) sqliterk \<Rightarrow>
     (byte list \<times> sqliterk_column \<times> ('c, 'u) sqliterk) cres" where
  "overflow_loop 0 env btree payloadSize overflowPageno payloadData payloadPointer column rk = Diverge"
| "overflow_loop (Suc n) env btree payloadSize overflowPageno payloadData payloadPointer column rk =
     (if sqliterkPagerIsPagenoValid (rpager rk) overflowPageno \<noteq> SQLITERK_OK then Ret (payloadData, column, rk)
      else cbind (sqliterkValuesAddInteger (sqliterkColumnGetOverflowPages (Some column)) overflowPageno (rheap rk)) (\<lambda>(_, os, h).
        let column = column\<lparr>coverflow := os\<rparr>; rk = rk\<lparr>rheap := h\<rparr> in
      cbind (notify_begin_page btree overflowPageno rk) (\<lambda>(_, rk).
      cbind (sqliterkPageAcquireOverflow env (rpager rk) overflowPageno (rheap rk)) (\<lambda>(r, h).
        let rk = rk\<lparr>rheap := h\<rparr>; rc = (case r of Inl rc \<Rightarrow> rc | Inr _ \<Rightarrow> SQLITERK_OK) in
      cbind (notify_end_page btree overflowPageno rc rk) (\<lambda>rk.
      case r of Inl _ \<Rightarrow> Ret (payloadData, column, rk)
      | Inr page \<Rightarrow>
        let left = payloadSize - payloadPointer;
            maxSize = sqliterkPagerGetUsableSize (rpager rk) - 4;
            overflowSize = (if left > maxSize then maxSize else left);
            pageData = sqliterkPageGetData (Some page) in
        cbind (rd_bytes (the pageData) 4 overflowSize) (\<lambda>chunk.
        cbind (wr_bytes payloadData payloadPointer chunk) (\<lambda>payloadData.
        cbind (need (sqliterkParseInt pageData 0 4)) (\<lambda>overflowPageno.
        let rk = rk\<lparr>rheap := snd (sqliterkPageRelease (Some page) (rheap rk))\<rparr> in
        overflow_loop n env btree payloadSize overflowPageno payloadData (payloadPointer + overflowSize) column rk))))))))"

type_synonym ('c, 'u) column_handler =
  "sqliterk_btree \<Rightarrow> sqliterk_page \<Rightarrow> sqliterk_column \<Rightarrow> ('c, 'u) sqliterk \<Rightarrow> (int \<times> ('c, 'u) sqliterk) cres"

text \<open>Collecting the payload: local part, then the overflow chain. \<open>Inl rc\<close> is the jump to the end.\<close>

definition collect_payload ::
    "nat \<Rightarrow> 'c rk_env \<Rightarrow> sqliterk_btree \<Rightarrow> sqliterk_page \<Rightarrow> int \<Rightarrow> int \<Rightarrow> sqliterk_column \<Rightarrow> ('c, 'u) sqliterk \<Rightarrow>
     (int + byte list \<times> sqliterk_column \<times> ('c, 'u) sqliterk) cres" where
  "collect_payload n env btree page offset payloadSize column rk =
     cbind (local_size btree (sqliterkPagerGetUsableSize (rpager rk)) payloadSize) (\<lambda>local.
     cbind (c_arith (offset + local)) (\<lambda>end_local.
       if end_local > sqliterkPagerGetSize (rpager rk) then Ret (Inl SQLITERK_DAMAGED)
       else case sqliterkPageGetData (Some page) of None \<Rightarrow> Fault
       | Some pagedata \<Rightarrow>
         cbind (rd_bytes pagedata offset local) (\<lambda>chunk.
         cbind (wr_bytes (replicate (nat payloadSize) 0) 0 chunk) (\<lambda>payloadData.
         if local < payloadSize then
           cbind (need (sqliterkParseInt (Some pagedata) end_local 4)) (\<lambda>overflowPageno.
           cbind (overflow_loop n env btree payloadSize overflowPageno payloadData local column rk) (\<lambda>res. Ret (Inr res)))
         else Ret (Inr (payloadData, column, rk))))))"

definition sqliterkBtreeParsePayload ::
    "nat \<Rightarrow> 'c rk_env \<Rightarrow> ('c, 'u) column_handler \<Rightarrow> sqliterk_btree \<Rightarrow> sqliterk_page \<Rightarrow> int \<Rightarrow> int \<Rightarrow>
     sqliterk_column \<Rightarrow> ('c, 'u) sqliterk \<Rightarrow> (int \<times> sqliterk_column \<times> ('c, 'u) sqliterk) cres" where
  "sqliterkBtreeParsePayload n env on_column btree page offset payloadSize column rk =
     (if payloadSize \<le> 0 then Ret (SQLITERK_MISUSE, column, rk)
      else let (ok, h) = os_malloc payloadSize (rheap rk); rk = rk\<lparr>rheap := h\<rparr> in
      if \<not> ok then Ret (SQLITERK_NOMEM, column, rk)
      else cbind (collect_payload n env btree page offset payloadSize column rk) (\<lambda>r.
      case r of Inl rc \<Rightarrow> Ret (rc, column, rk\<lparr>rheap := c_free (rheap rk)\<rparr>)
      | Inr (payloadData, column, rk) \<Rightarrow>
        cbind (parse_record payloadData payloadSize (sqliterkColumnGetValues (Some column)) (rheap rk)) (\<lambda>(rc, vs, h).
        let column = column\<lparr>cvalues := vs\<rparr>; rk = rk\<lparr>rheap := h\<rparr> in
        cbind (if rc = SQLITERK_OK \<and> bnotify btree then on_column btree page column rk else Ret (rc, rk)) (\<lambda>(rc, rk).
        Ret (rc, column, rk\<lparr>rheap := c_free (rheap rk)\<rparr>)))))"

section \<open>Cells\<close>

fun cell_loop ::
    "nat \<Rightarrow> 'c rk_env \<Rightarrow> ('c, 'u) column_handler \<Rightarrow> sqliterk_btree \<Rightarrow> sqliterk_page \<Rightarrow> int list \<Rightarrow>
     sqliterk_column \<Rightarrow> ('c, 'u) sqliterk \<Rightarrow> (int \<times> sqliterk_column \<times> ('c, 'u) sqliterk) cres" where
  "cell_loop n env on_column btree page [] column rk = Ret (SQLITERK_OK, column, rk)"
| "cell_loop n env on_column btree page (offset # cells) column rk =
     cbind (sqliterkColumnClear (Some column) (rheap rk)) (\<lambda>(_, c, h).
     case c of None \<Rightarrow> Fault
     | Some column \<Rightarrow>
       let rk = rk\<lparr>rheap := h\<rparr>; pagedata = sqliterkPageGetData (Some page) in
       cbind (sqliterkParseVarint pagedata offset) (\<lambda>r.
       case r of Inl rc \<Rightarrow> Ret (rc, column, rk)
       | Inr (payloadSizeLength, payloadSize) \<Rightarrow>
         cbind (c_arith (offset + payloadSizeLength)) (\<lambda>offset.
         cbind (sqliterkParseVarint64 pagedata offset) (\<lambda>r.
         case r of Inl rc \<Rightarrow> Ret (rc, column, rk)
         | Inr (rowidLength, rowid) \<Rightarrow>
           cbind (c_arith (offset + rowidLength)) (\<lambda>offset.
           let column = the (sqliterkColumnSetRowId (Some column) rowid) in
           cbind (sqliterkBtreeParsePayload n env on_column btree page offset payloadSize column rk)
             (\<lambda>(rc, column, rk).
              if rc \<noteq> SQLITERK_OK then Ret (rc, column, rk)
              else cell_loop n env on_column btree page cells column rk))))))"

definition sqliterkBtreeParseCell ::
    "nat \<Rightarrow> 'c rk_env \<Rightarrow> ('c, 'u) column_handler \<Rightarrow> sqliterk_btree \<Rightarrow> sqliterk_page \<Rightarrow> int list \<Rightarrow>
     ('c, 'u) sqliterk \<Rightarrow> (int \<times> ('c, 'u) sqliterk) cres" where
  "sqliterkBtreeParseCell n env on_column btree page cells rk =
     cbind (sqliterkColumnAlloc (rheap rk)) (\<lambda>(r, h).
     let rk = rk\<lparr>rheap := h\<rparr> in
     case r of Inl rc \<Rightarrow> Ret (rc, rk)
     | Inr column \<Rightarrow>
       cbind (cell_loop n env on_column btree page cells column rk) (\<lambda>(rc, column, rk).
       cbind (sqliterkColumnFree (Some column) (rheap rk)) (\<lambda>(_, h).
       Ret (rc, rk\<lparr>rheap := h\<rparr>))))"

section \<open>Columns\<close>

type_synonym ('c, 'u) page_parser =
  "sqliterk_btree \<Rightarrow> int \<Rightarrow> ('c, 'u) sqliterk \<Rightarrow> (int \<times> ('c, 'u) sqliterk) cres"

definition sqliterkBtreeParse :: "('c, 'u) page_parser \<Rightarrow> sqliterk_btree \<Rightarrow> ('c, 'u) sqliterk \<Rightarrow> (int \<times> ('c, 'u) sqliterk) cres" where
  "sqliterkBtreeParse parse_page btree rk =
     (let rk = (if bnotify btree then sqliterkNotify_onBeginParseBtree btree rk else rk) in
      cbind (parse_page btree (sqliterkPageGetPageno (rootpage btree)) rk) (\<lambda>(rc, rk).
      Ret (rc, if bnotify btree then sqliterkNotify_onEndParseBtree btree rc rk else rk)))"

definition sqliterkParseBtree :: "('c, 'u) page_parser \<Rightarrow> sqliterk_btree \<Rightarrow> ('c, 'u) sqliterk \<Rightarrow> (int \<times> ('c, 'u) sqliterk) cres" where
  "sqliterkParseBtree parse_page btree rk =
     (let page = sqliterkBtreeGetRootPage (Some btree); no = sqliterkPageGetPageno page in
      if page = None \<or> sqliterkPagerIsPagenoValid (rpager rk) no \<noteq> SQLITERK_OK then Ret (SQLITERK_MISUSE, rk)
      else sqliterkBtreeParse parse_page (the (sqliterkBtreeSetNotify (Some btree))) rk)"

fun discard_loop :: "sqliterk_values option \<Rightarrow> nat \<Rightarrow> nat \<Rightarrow> ('c, 'u) sqliterk \<Rightarrow> ('c, 'u) sqliterk cres" where
  "discard_loop os i 0 rk = Ret rk"
| "discard_loop os i (Suc k) rk =
     cbind (sqliterkValuesGetInteger os (int i)) (\<lambda>no.
     cbind (set_page_status no st_discarded rk) (\<lambda>rk. discard_loop os (Suc i) k rk))"

text \<open>The table or index named by a row of the master table. The b-tree is closed at the end; a null
  one is not.\<close>

definition parse_subtree ::
    "'c rk_env \<Rightarrow> ('c, 'u) page_parser \<Rightarrow> byte list \<Rightarrow> byte list \<Rightarrow> int \<Rightarrow> ('c, 'u) sqliterk \<Rightarrow> ('c, 'u) sqliterk cres" where
  "parse_subtree env parse_page type name rootPageno rk =
     cbind (sqliterkBtreeOpen env (rpager rk) rootPageno (rheap rk)) (\<lambda>(r, h).
     let rk = rk\<lparr>rheap := h\<rparr> in
     case r of Inl _ \<Rightarrow> Ret rk
     | Inr subbtree \<Rightarrow>
       cbind (rd_bytes type 0 5) (\<lambda>t.
       cbind (c_strlen (Some name)) (\<lambda>len.
       let bt = (if t = c_str ''table'' then btree_type_table
                 else if t = c_str ''index'' then btree_type_index else btree_type_unknown);
           (_, b, h) = sqliterkBtreeSetMeta (Some subbtree) (Some (take (nat len) name)) bt (rheap rk);
           subbtree = the b; rk = rk\<lparr>rheap := h\<rparr> in
       cbind (sqliterkParseBtree parse_page subbtree rk) (\<lambda>(_, rk).
       Ret (rk\<lparr>rheap := snd (sqliterkBtreeClose (Some subbtree) (rheap rk))\<rparr>)))))"

definition column_recurse ::
    "'c rk_env \<Rightarrow> ('c, 'u) page_parser \<Rightarrow> sqliterk_btree \<Rightarrow> sqliterk_column \<Rightarrow> ('c, 'u) sqliterk \<Rightarrow> ('c, 'u) sqliterk cres" where
  "column_recurse env parse_page btree column rk =
     (if sqliterkBtreeGetType (Some btree) = btree_type_master \<and> recursive rk then
        let values = sqliterkColumnGetValues (Some column) in
        cbind (sqliterkValuesGetText values 0) (\<lambda>type.
        cbind (sqliterkValuesGetText values 1) (\<lambda>name.
        cbind (sqliterkValuesGetInteger values 3) (\<lambda>rootPageno.
        case (type, name) of (Some t, Some nm) \<Rightarrow> parse_subtree env parse_page t nm rootPageno rk
        | _ \<Rightarrow> Ret rk)))
      else Ret rk)"

definition sqliterkNotify_onParseColumn ::
    "'c rk_env \<Rightarrow> ('c, 'u) page_parser \<Rightarrow> ('c, 'u) column_handler" where
  "sqliterkNotify_onParseColumn env parse_page btree page column rk =
     (case onParseColumn (rnotify rk) of
        None \<Rightarrow> cbind (column_recurse env parse_page btree column rk) (\<lambda>rk. Ret (SQLITERK_OK, rk))
      | Some f \<Rightarrow>
        let (result, u) = f (userdata rk) btree column; rk = rk\<lparr>userdata := u\<rparr> in
        if result = SQLITERK_CANCELLED then Ret (result, rk)
        else cbind (if result \<noteq> SQLITERK_OK then
                cbind (set_page_status (sqliterkPageGetPageno (Some page)) st_discarded rk) (\<lambda>rk.
                  let os = sqliterkColumnGetOverflowPages (Some column) in
                  discard_loop os 0 (nat (sqliterkValuesGetCount os)) rk)
              else Ret rk) (\<lambda>rk.
            cbind (column_recurse env parse_page btree column rk) (\<lambda>rk. Ret (result, rk))))"

section \<open>Pages\<close>

fun read_ints :: "byte list option \<Rightarrow> int \<Rightarrow> int list \<Rightarrow> int list cres" where
  "read_ints pagedata len [] = Ret []"
| "read_ints pagedata len (off # offs) =
     cbind (need (sqliterkParseInt pagedata off len)) (\<lambda>v.
     cbind (read_ints pagedata len offs) (\<lambda>vs. Ret (v # vs)))"

fun children_loop :: "(int \<Rightarrow> ('c, 'u) sqliterk \<Rightarrow> (int \<times> ('c, 'u) sqliterk) cres) \<Rightarrow> int list \<Rightarrow> ('c, 'u) sqliterk \<Rightarrow>
    ('c, 'u) sqliterk cres" where
  "children_loop parse [] rk = Ret rk"
| "children_loop parse (no # nos) rk =
     cbind (parse no rk) (\<lambda>(rc, rk). if rc = SQLITERK_CANCELLED then Ret rk else children_loop parse nos rk)"

text \<open>The cell pointer array: the cell count, its test, the pointers.\<close>

definition cell_pointers :: "'c sqliterk_pager option \<Rightarrow> sqliterk_page \<Rightarrow> heap \<Rightarrow> ((int + int list) \<times> heap) cres" where
  "cell_pointers pager page h =
     (let pagedata = sqliterkPageGetData (Some page);
          hdr = sqliterkPageHeaderOffset (Some page);
          offsetCellPointerArray = (if ptype page = interior_table then 12 else 8) in
      cbind (need (sqliterkParseInt pagedata (3 + hdr) 2)) (\<lambda>cellsCount.
      if cellsCount \<le> 0 \<or> cellsCount * 2 + offsetCellPointerArray > sqliterkPagerGetSize pager
      then Ret (Inl SQLITERK_DAMAGED, h)
      else let (ok, h) = c_alloc h in
      if \<not> ok then Ret (Inl SQLITERK_NOMEM, h)
      else cbind (read_ints pagedata 2 (map (\<lambda>i. hdr + offsetCellPointerArray + int i * 2) [0 ..< nat cellsCount])) (\<lambda>cells.
        Ret (Inr cells, h))))"

text \<open>An interior page: the page numbers of the children, the page data released, then the children.
  The result code stays \<^verbatim>\<open>SQLITERK_OK\<close> whatever the children return. The result has the page as it
  is afterwards.\<close>

definition parse_interior ::
    "(int \<Rightarrow> ('c, 'u) sqliterk \<Rightarrow> (int \<times> ('c, 'u) sqliterk) cres) \<Rightarrow> sqliterk_page \<Rightarrow> int list \<Rightarrow> ('c, 'u) sqliterk \<Rightarrow>
     (int \<times> sqliterk_page \<times> ('c, 'u) sqliterk) cres" where
  "parse_interior parse page cells rk =
     (let (ok, h) = c_alloc (rheap rk); rk = rk\<lparr>rheap := h\<rparr>; pagedata = sqliterkPageGetData (Some page) in
      if \<not> ok then Ret (SQLITERK_NOMEM, page, rk\<lparr>rheap := c_free (rheap rk)\<rparr>)
      else cbind (read_ints pagedata 4 (cells @ (if ptype page = interior_table then [8] else []))) (\<lambda>pagenos.
        let (_, page', h) = sqliterkPageClearData (Some page) (c_free (rheap rk)); rk = rk\<lparr>rheap := h\<rparr> in
        cbind (children_loop parse pagenos rk) (\<lambda>rk.
        Ret (SQLITERK_OK, the page', rk\<lparr>rheap := c_free (rheap rk)\<rparr>))))"

definition parse_leaf_table ::
    "nat \<Rightarrow> 'c rk_env \<Rightarrow> ('c, 'u) column_handler \<Rightarrow> sqliterk_btree \<Rightarrow> sqliterk_page \<Rightarrow> int list \<Rightarrow> ('c, 'u) sqliterk \<Rightarrow>
     (int \<times> sqliterk_page \<times> ('c, 'u) sqliterk) cres" where
  "parse_leaf_table n env on_column btree page cells rk =
     cbind (if sqliterkBtreeIsSystemType (sqliterkBtreeGetType (Some btree)) \<and> btype btree \<noteq> btree_type_master
            then Ret (SQLITERK_OK, rk)
            else sqliterkBtreeParseCell n env on_column btree page cells rk) (\<lambda>(rc, rk).
     Ret (rc, page, rk\<lparr>rheap := c_free (rheap rk)\<rparr>))"

text \<open>Everything between the two notifications of a page: the result code and the page to release.\<close>

definition page_body ::
    "nat \<Rightarrow> 'c rk_env \<Rightarrow> ('c, 'u) page_parser \<Rightarrow> sqliterk_btree \<Rightarrow> int \<Rightarrow> ('c, 'u) sqliterk \<Rightarrow>
     (int \<times> sqliterk_page option \<times> ('c, 'u) sqliterk) cres" where
  "page_body n env parse_page btree no rk =
     cbind (sqliterkPageAcquire env (rpager rk) no (rheap rk)) (\<lambda>(r, h).
     let rk = rk\<lparr>rheap := h\<rparr> in
     case r of Inl rc \<Rightarrow> Ret (rc, None, rk)
     | Inr page \<Rightarrow>
       if sqliterkPageGetType (Some page) \<notin> {interior_index, interior_table, leaf_index, leaf_table}
       then Ret (SQLITERK_DAMAGED, Some page, rk)
       else cbind (cell_pointers (rpager rk) page (rheap rk)) (\<lambda>(r, h).
       let rk = rk\<lparr>rheap := h\<rparr> in
       case r of Inl rc \<Rightarrow> Ret (rc, Some page, rk)
       | Inr cells \<Rightarrow>
         cbind (case ptype page of
             leaf_table \<Rightarrow> parse_leaf_table n env (sqliterkNotify_onParseColumn env parse_page) btree page cells rk
           | leaf_index \<Rightarrow> Ret (SQLITERK_OK, page, rk\<lparr>rheap := c_free (rheap rk)\<rparr>)
           | _ \<Rightarrow> parse_interior (parse_page btree) page cells rk) (\<lambda>(rc, page, rk).
         Ret (rc, Some page, rk))))"

primrec sqliterkBtreeParsePage :: "nat \<Rightarrow> 'c rk_env \<Rightarrow> ('c, 'u) page_parser" where
  "sqliterkBtreeParsePage 0 = (\<lambda>env btree no rk. Diverge)"
| "sqliterkBtreeParsePage (Suc n) = (\<lambda>env btree no rk.
     if no > sqliterkPagerGetPageCount (rpager rk) then Ret (SQLITERK_MISUSE, rk)
     else cbind (notify_begin_page btree no rk) (\<lambda>(rc, rk).
       if rc \<noteq> SQLITERK_OK then Ret (rc, rk)
       else cbind (page_body n env (sqliterkBtreeParsePage n env) btree no rk) (\<lambda>(rc, page, rk).
       cbind (notify_end_page btree no rc rk) (\<lambda>rk.
       Ret (rc, if page \<noteq> None then rk\<lparr>rheap := snd (sqliterkPageRelease page (rheap rk))\<rparr> else rk)))))"

section \<open>The repair object\<close>

definition sqliterkParsePage ::
    "nat \<Rightarrow> 'c rk_env \<Rightarrow> ('c, 'u) sqliterk option \<Rightarrow> int \<Rightarrow> (int \<times> ('c, 'u) sqliterk option) cres" where
  "sqliterkParsePage n env rk no =
     (case rk of None \<Rightarrow> Ret (SQLITERK_MISUSE, None)
      | Some rk \<Rightarrow>
        cbind (sqliterkPagerGetStatus (rpager rk) no) (\<lambda>st.
        if st \<noteq> st_unchecked then Ret (SQLITERK_OK, Some rk)
        else cbind (sqliterkBtreeOpen env (rpager rk) no (rheap rk)) (\<lambda>(r, h).
        let rk = rk\<lparr>rheap := h\<rparr> in
        case r of Inl rc \<Rightarrow> Ret (rc, Some rk)
        | Inr btree \<Rightarrow>
          cbind (sqliterkParseBtree (sqliterkBtreeParsePage n env) btree rk) (\<lambda>(rc, rk).
          Ret (rc, Some (rk\<lparr>rheap := snd (sqliterkBtreeClose (Some btree) (rheap rk))\<rparr>))))))"

text \<open>The loop runs over the page count, which parsing does not change.\<close>

fun parse_loop :: "nat \<Rightarrow> 'c rk_env \<Rightarrow> nat \<Rightarrow> nat \<Rightarrow> ('c, 'u) sqliterk option \<Rightarrow> ('c, 'u) sqliterk option cres" where
  "parse_loop n env i 0 rk = Ret rk"
| "parse_loop n env i (Suc k) rk =
     cbind (sqliterkParsePage n env rk (int i + 1)) (\<lambda>(_, rk). parse_loop n env (Suc i) k rk)"

definition sqliterkParse ::
    "nat \<Rightarrow> 'c rk_env \<Rightarrow> ('c, 'u) sqliterk option \<Rightarrow> (int \<times> ('c, 'u) sqliterk option) cres" where
  "sqliterkParse n env rk =
     (case rk of None \<Rightarrow> Ret (SQLITERK_MISUSE, None)
      | Some r \<Rightarrow> cbind (parse_loop n env 0 (nat (sqliterkPagerGetPageCount (rpager r))) rk) (\<lambda>rk.
          Ret (SQLITERK_OK, rk)))"

definition sqliterkParseMaster ::
    "nat \<Rightarrow> 'c rk_env \<Rightarrow> ('c, 'u) sqliterk option \<Rightarrow> (int \<times> ('c, 'u) sqliterk option) cres" where
  "sqliterkParseMaster n env rk = sqliterkParsePage n env rk 1"

text \<open>Closing: the descriptors closed and the cipher activations are results, as in the pager.\<close>

definition sqliterkClose :: "('c, 'u) sqliterk option \<Rightarrow> int \<Rightarrow> heap \<Rightarrow> int \<times> int list \<times> int \<times> heap" where
  "sqliterkClose rk act h =
     (case rk of None \<Rightarrow> (SQLITERK_MISUSE, [], act, h)
      | Some rk \<Rightarrow>
        let (_, closed, act, h) =
              (if rpager rk \<noteq> None then sqliterkPagerClose (rpager rk) act h else (SQLITERK_OK, [], act, h))
        in (SQLITERK_OK, closed, act, c_free h))"

definition zero_notify :: "'u sqliterk_notify" where
  "zero_notify = \<lparr>onBeginParseTable = None, onEndParseTable = None, onParseColumn = None, didParsePage = None\<rparr>"

definition sqliterkOpen ::
    "'c rk_env \<Rightarrow> byte list option \<Rightarrow> sqliterk_cipher_conf option \<Rightarrow> 'u \<Rightarrow> int \<Rightarrow> heap \<Rightarrow>
     ((int + ('c, 'u) sqliterk) \<times> int list \<times> int \<times> heap) cres" where
  "sqliterkOpen env path cipher u act h =
     (let (ok, h) = c_alloc h in
      if \<not> ok then Ret (Inl SQLITERK_NOMEM, [], act, h)
      else cbind (sqliterkPagerOpen env path cipher act h) (\<lambda>(r, closed, act, h).
      let therk = \<lparr>rpager = None, rnotify = zero_notify, ruserInfo = 0, recursive = False, userdata = u, rheap = h\<rparr> in
      case r of
        Inl rc \<Rightarrow> (let (_, closed', act, h) = sqliterkClose (Some therk) act h in
                  Ret (Inl rc, closed @ closed', act, h))
      | Inr p \<Rightarrow> Ret (Inr (therk\<lparr>rpager := Some p, recursive := True\<rparr>), closed, act, h)))"

definition sqliterk_set_recursive :: "('c, 'u) sqliterk option \<Rightarrow> int \<Rightarrow> ('c, 'u) sqliterk option cres" where
  "sqliterk_set_recursive rk r =
     (case rk of None \<Rightarrow> Fault | Some rk \<Rightarrow> Ret (Some (rk\<lparr>recursive := (signed_take_bit 7 r \<noteq> 0)\<rparr>)))"

definition sqliterkSetNotify :: "('c, 'u) sqliterk option \<Rightarrow> 'u sqliterk_notify \<Rightarrow> int \<times> ('c, 'u) sqliterk option" where
  "sqliterkSetNotify rk nt =
     (case rk of None \<Rightarrow> (SQLITERK_MISUSE, None) | Some rk \<Rightarrow> (SQLITERK_OK, Some (rk\<lparr>rnotify := nt\<rparr>)))"

definition sqliterkSetUserInfo :: "('c, 'u) sqliterk option \<Rightarrow> int \<Rightarrow> int \<times> ('c, 'u) sqliterk option" where
  "sqliterkSetUserInfo rk info =
     (case rk of None \<Rightarrow> (SQLITERK_MISUSE, None) | Some rk \<Rightarrow> (SQLITERK_OK, Some (rk\<lparr>ruserInfo := info\<rparr>)))"

definition sqliterkGetUserInfo :: "('c, 'u) sqliterk option \<Rightarrow> int" where
  "sqliterkGetUserInfo rk = (case rk of None \<Rightarrow> 0 | Some rk \<Rightarrow> ruserInfo rk)"

definition sqliterkGetParsedPageCount :: "('c, 'u) sqliterk option \<Rightarrow> int cres" where
  "sqliterkGetParsedPageCount rk =
     (case rk of None \<Rightarrow> Ret 0 | Some rk \<Rightarrow> sqliterkPagerGetParsedPageCount (rpager rk))"

definition sqliterkGetValidPageCount :: "('c, 'u) sqliterk option \<Rightarrow> int" where
  "sqliterkGetValidPageCount rk = (case rk of None \<Rightarrow> 0 | Some rk \<Rightarrow> sqliterkPagerGetValidPageCount (rpager rk))"

definition sqliterkGetPageCount :: "('c, 'u) sqliterk option \<Rightarrow> int" where
  "sqliterkGetPageCount rk = (case rk of None \<Rightarrow> 0 | Some rk \<Rightarrow> sqliterkPagerGetPageCount (rpager rk))"

definition sqliterkGetIntegrity :: "('c, 'u) sqliterk option \<Rightarrow> 32 word" where
  "sqliterkGetIntegrity rk = (case rk of None \<Rightarrow> 0 | Some rk \<Rightarrow> sqliterkPagerGetIntegrity (rpager rk))"

end
