(* ===== verification/RK_Safety.thy ===== *)
theory RK_Safety
  imports RK_Walk
begin

text \<open>
  What the walk over the pages leaves behind. The relation \<open>rk_rel k X\<close> between the repair object before
  and after a step says that the database is untouched but for the page statuses, that the number of
  live blocks has changed by \<open>k\<close>, and that every page in the state \<^verbatim>\<open>checking\<close> was in it before or is in
  \<open>X\<close>. It composes, so each function of the walk has one lemma, and the recursion through the function
  pointers is closed by two predicates on handlers, \<open>handler_ok\<close> and \<open>parser_ok\<close>.

  The lemmas assume that memory does not run out (\<open>outcomes h = []\<close>): with allocation failures the code
  does leak (the value arrays lose a block when a blob cannot be copied).
\<close>

section \<open>Without memory shortage\<close>

lemma autogrow_quiet:
  assumes "values_wf vs" "outcomes h = []" "sqliterkValuesAutoGrow (Some vs) h = Ret (rc, r, h')"
  shows "rc = 0 \<and> outcomes h' = []"
  using assms
  by (auto simp: sqliterkValuesAutoGrow_def values_wf_def c_alloc_no_oom Let_def rd_bytes_def wr_bytes_def
      split: option.split_asm if_split_asm)

lemma values_add_split:
  assumes "values_wf vs" "outcomes h = []" "values_add store (Some vs) h = Ret (rc, r, h')"
  obtains h1 v where "outcomes h1 = []" "store h1 = Ret (rc, v, h')"
proof -
  from assms(3) obtain rc1 r1 h1 where g: "sqliterkValuesAutoGrow (Some vs) h = Ret (rc1, r1, h1)"
    by (auto simp: values_add_def elim!: cbind_RetE)
  note q = autogrow_quiet [OF assms(1,2) g]
  then obtain vs1 v where "store h1 = Ret (rc, v, h')"
    using assms(3) g by (auto simp: values_add_def elim!: cbind_RetE split: option.split_asm)
  then show thesis using q that by blast
qed

lemma store_quiet:
  "outcomes h = [] \<Longrightarrow> store_integer i h = Ret (rc, v, h') \<Longrightarrow> rc = 0 \<and> outcomes h' = []"
  "outcomes h = [] \<Longrightarrow> store_number d h = Ret (rc, v, h') \<Longrightarrow> rc = 0 \<and> outcomes h' = []"
  "outcomes h = [] \<Longrightarrow> store_text t s h = Ret (rc, v, h') \<Longrightarrow> rc = 0 \<and> outcomes h' = [] \<and> 0 \<le> s \<and> s \<le> int (length t)"
  "outcomes h = [] \<Longrightarrow> store_binary t s h = Ret (rc, v, h') \<Longrightarrow> rc = 0 \<and> outcomes h' = [] \<and> 0 \<le> s \<and> s \<le> int (length t)"
  by (auto simp: store_integer_def store_number_def store_text_def store_binary_def c_alloc_no_oom cres_simps
      split: if_split_asm)

lemma quiet_add:
  assumes "values_wf vs" "outcomes h = []" "values_add store (Some vs) h = Ret (rc, r, h')"
    and "\<And>h rc v h'. outcomes h = [] \<Longrightarrow> store h = Ret (rc, v, h') \<Longrightarrow> rc = 0 \<and> outcomes h' = []"
  shows "rc = 0 \<and> outcomes h' = []"
proof -
  obtain h1 v where "outcomes h1 = []" "store h1 = Ret (rc, v, h')" by (rule values_add_split [OF assms(1-3)])
  then show ?thesis by (rule assms(4))
qed

lemmas add_defs = add_item_def sqliterkValuesAddNull_def sqliterkValuesAddInteger64_def
  sqliterkValuesAddNumber_def sqliterkValuesAddNoTerminatorText_def sqliterkValuesAddBinary_def

lemma add_item_quiet:
  assumes "values_wf vs" "outcomes h = []" "add_item x vs h = Ret (rc, r, h')"
  shows "rc = 0 \<and> outcomes h' = []"
proof (cases x)
  case INull
  with assms(3) show ?thesis unfolding add_defs by (auto dest!: quiet_add [OF assms(1,2)])
next
  case (IInt i)
  with assms(3) have "values_add (store_integer i) (Some vs) h = Ret (rc, r, h')" by (simp add: add_defs)
  then show ?thesis by (rule quiet_add [OF assms(1,2)]) (rule store_quiet)
next
  case (INum i)
  with assms(3) have "values_add (store_number i) (Some vs) h = Ret (rc, r, h')" by (simp add: add_defs)
  then show ?thesis by (rule quiet_add [OF assms(1,2)]) (rule store_quiet)
next
  case (IText t)
  with assms(3) have "values_add (store_text t (int (length t))) (Some vs) h = Ret (rc, r, h')" by (simp add: add_defs)
  then show ?thesis by (rule quiet_add [OF assms(1,2)]) (blast dest: store_quiet(3))
next
  case (IBlob t)
  with assms(3) have "values_add (store_binary t (int (length t))) (Some vs) h = Ret (rc, r, h')" by (simp add: add_defs)
  then show ?thesis by (rule quiet_add [OF assms(1,2)]) (blast dest: store_quiet(4))
qed

lemma values_add_prefix:
  assumes "values_wf vs" "outcomes h = []" "0 \<le> s"
  shows "sqliterkValuesAddNoTerminatorText (Some vs) (Some p) s h = Ret (rc, r, h') \<Longrightarrow>
      add_item (IText (take (nat s) p)) vs h = Ret (rc, r, h')"
    and "sqliterkValuesAddBinary (Some vs) (Some p) s h = Ret (rc, r, h') \<Longrightarrow>
      add_item (IBlob (take (nat s) p)) vs h = Ret (rc, r, h')"
proof -
  have e: "store_text p s = store_text (take (nat s) p) s \<and> store_binary p s = store_binary (take (nat s) p) s \<and>
      s = int (length (take (nat s) p))" if "s \<le> int (length p)"
    using store_prefix [of "take (nat s) p" "drop (nat s) p"] that assms(3) by simp
  { assume a: "sqliterkValuesAddNoTerminatorText (Some vs) (Some p) s h = Ret (rc, r, h')"
    then have v: "values_add (store_text p s) (Some vs) h = Ret (rc, r, h')"
      by (simp add: sqliterkValuesAddNoTerminatorText_def)
    then have "s \<le> int (length p)" using values_add_split [OF assms(1,2) v] store_quiet(3) by metis
    then show "add_item (IText (take (nat s) p)) vs h = Ret (rc, r, h')"
      using v e by (simp add: sqliterkValuesAddNoTerminatorText_def add_item_def) }
  { assume a: "sqliterkValuesAddBinary (Some vs) (Some p) s h = Ret (rc, r, h')"
    then have v: "values_add (store_binary p s) (Some vs) h = Ret (rc, r, h')"
      by (simp add: sqliterkValuesAddBinary_def)
    then have "s \<le> int (length p)" using values_add_split [OF assms(1,2) v] store_quiet(4) by metis
    then show "add_item (IBlob (take (nat s) p)) vs h = Ret (rc, r, h')"
      using v e by (simp add: sqliterkValuesAddBinary_def add_item_def) }
qed

definition vstep :: "sqliterk_values \<Rightarrow> heap \<Rightarrow> sqliterk_values option \<Rightarrow> heap \<Rightarrow> bool" where
  "vstep vs h r h' = (\<exists>vs'. r = Some vs' \<and> values_wf vs' \<and> outcomes h' = [] \<and>
     live h' - live h = blocks vs' - blocks vs)"

lemma add_item_vstep:
  "values_wf vs \<Longrightarrow> outcomes h = [] \<Longrightarrow> add_item x vs h = Ret (rc, r, h') \<Longrightarrow> rc = 0 \<and> vstep vs h r h'"
  using add_item_quiet [of vs h x rc r h'] add_item_ok [of vs x h r h'] by (auto simp: vstep_def)

lemma serial_length_nonneg: "0 \<le> sqliterkBtreeGetLengthForSerialType st"
proof (cases "12 \<le> st")
  case False
  have "[0, 1, 2, 3, 4, 6, 8, 8, 0, 0, 0, 0] ! k \<ge> (0 :: int)" if "k < 12" for k
    using that by (auto simp: less_Suc_eq numeral_eq_Suc)
  then show ?thesis using False by (simp add: sqliterkBtreeGetLengthForSerialType_def)
qed (simp add: serial_length)

lemma parse_value_vstep:
  assumes "values_wf vs" "outcomes h = []" "parse_value d st off (Some vs) h = Ret (rc, r, h')"
  shows "rc \<in> {SQLITERK_OK, SQLITERK_DAMAGED} \<and> vstep vs h r h'"
proof -
  note pre = values_add_prefix [OF assms(1,2) serial_length_nonneg [of st]]
  have "(\<exists>x. add_item x vs h = Ret (rc, r, h')) \<or> rc = SQLITERK_DAMAGED \<and> r = Some vs \<and> h' = h"
  proof (cases "12 \<le> st")
    case True
    then obtain p where "(if c_mod st 2 = 0
        then sqliterkValuesAddBinary (Some vs) (Some p) (sqliterkBtreeGetLengthForSerialType st) h
        else sqliterkValuesAddNoTerminatorText (Some vs) (Some p) (sqliterkBtreeGetLengthForSerialType st) h) = Ret (rc, r, h')"
      using assms(3) by (auto simp: parse_value_def Let_def elim!: cbind_RetE)
    then show ?thesis using pre by (metis (full_types))
  next
    case False
    have "add_item INull vs h = sqliterkValuesAddNull (Some vs) h"
      "\<And>i. add_item (IInt i) vs h = sqliterkValuesAddInteger64 (Some vs) i h"
      "\<And>d. add_item (INum d) vs h = sqliterkValuesAddNumber (Some vs) d h" by (simp_all add: add_item_def)
    note a = this [symmetric]
    show ?thesis using assms(3) False
      by (auto simp: parse_value_def Let_def sqliterkValuesAddInteger_def a elim!: cbind_RetE split: if_split_asm)
  qed
  then show ?thesis using assms add_item_vstep by (auto simp: vstep_def)
qed

lemma vstep_trans: "vstep vs h (Some vs') h' \<Longrightarrow> vstep vs' h' r h'' \<Longrightarrow> vstep vs h r h''"
  by (auto simp: vstep_def)

lemma parse_varint_error:
  "sqliterkParseVarint64 d off = Ret (Inl e) \<Longrightarrow> e \<in> {SQLITERK_MISUSE, SQLITERK_DAMAGED}"
  "sqliterkParseVarint d off = Ret (Inl e) \<Longrightarrow> e \<in> {SQLITERK_MISUSE, SQLITERK_DAMAGED}"
proof -
  have l: "parse_varint_loop d off i out = Ret (Inl e) \<Longrightarrow> e = SQLITERK_DAMAGED" for d i out
    by (induction d off i out rule: parse_varint_loop.induct)
      (subst (asm) (2) parse_varint_loop.simps, fastforce simp: Let_def cres_simps split: if_splits)
  show "sqliterkParseVarint64 d off = Ret (Inl e) \<Longrightarrow> e \<in> {SQLITERK_MISUSE, SQLITERK_DAMAGED}"
    using l by (auto simp: sqliterkParseVarint64_def split: option.split_asm)
  then show "sqliterkParseVarint d off = Ret (Inl e) \<Longrightarrow> e \<in> {SQLITERK_MISUSE, SQLITERK_DAMAGED}"
    by (auto simp: sqliterkParseVarint_def elim!: cbind_RetE split: sum.split_asm)
qed

lemma record_loop_vstep:
  "values_wf vs \<Longrightarrow> outcomes h = [] \<Longrightarrow> record_loop d es ev os ov (Some vs) h = Ret (rc, r, h') \<Longrightarrow>
   rc \<noteq> SQLITERK_CANCELLED \<and> vstep vs h r h'"
proof (induction "nat (int (length d) - os)" arbitrary: os ov vs h rule: less_induct)
  case less
  show ?case
  proof (cases "ov < ev \<or> os < es")
    case False
    then show ?thesis using less.prems by (subst (asm) record_loop.simps) (auto simp: vstep_def split: if_split_asm)
  next
    case True
    note l = less.prems(3) [unfolded record_loop.simps [of d es ev os]]
    from l True obtain v where v: "sqliterkParseVarint (Some d) os = Ret v" by (auto elim!: cbind_RetE)
    show ?thesis
    proof (cases v)
      case (Inl e)
      then have "e \<noteq> SQLITERK_CANCELLED" using parse_varint_error [of "Some d" os e] v by auto
      then show ?thesis using l v True Inl less.prems by (auto simp: vstep_def)
    next
      case (Inr q)
      then obtain len st where q: "v = Inr (len, st)" by (cases q) simp
      from l True v q obtain rc1 r1 h1 where p: "parse_value d st ov (Some vs) h = Ret (rc1, r1, h1)"
        by (auto elim!: cbind_RetE)
      note s = parse_value_vstep [OF less.prems(1,2) p]
      then obtain vs1 where vs1: "r1 = Some vs1" "values_wf vs1" "outcomes h1 = []" by (auto simp: vstep_def)
      show ?thesis
      proof (cases "rc1 = SQLITERK_OK")
        case False
        then show ?thesis using l True v q p s by auto
      next
        case ok: True
        have rl: "record_loop d es ev (os + len) (ov + sqliterkBtreeGetLengthForSerialType st) (Some vs1) h1 = Ret (rc, r, h')"
          using l True v q p ok vs1 by simp
        have dec: "nat (int (length d) - (os + len)) < nat (int (length d) - os)"
          using parse_varint_progress [of d os len st] v q by auto
        show ?thesis using less.hyps [OF dec vs1(2,3) rl] s vs1(1) vstep_trans [of vs h vs1 h1 r h'] by blast
      qed
    qed
  qed
qed


section \<open>Invariant of the walk\<close>

definition being_checked :: "('c, 'u) sqliterk \<Rightarrow> int set" where
  "being_checked rk = {m. status_of (the (rpager rk)) m = st_checking}"

definition rk_ok :: "('c, 'u) sqliterk \<Rightarrow> bool" where
  "rk_ok rk = (outcomes (rheap rk) = [] \<and>
     (case rpager rk of None \<Rightarrow> False | Some p \<Rightarrow> pager_wf p \<and> codec p = None) \<and>
     (case onParseColumn (rnotify rk) of None \<Rightarrow> True
      | Some f \<Rightarrow> (\<forall>u b c. fst (f u b c) \<noteq> SQLITERK_CANCELLED)))"

text \<open>The same open database: of the fields of the pager only the page statuses may differ, and the integrity
  flags by the bit that \<^verbatim>\<open>sqliterkPagerSetStatus\<close> sets when a page is found intact.\<close>

definition same_db :: "'c sqliterk_pager \<Rightarrow> 'c sqliterk_pager \<Rightarrow> bool" where
  "same_db p p' = (pfile p' = pfile p \<and> pagesize p' = pagesize p \<and> pagecount p' = pagecount p \<and>
     usableSize p' = usableSize p \<and> freepagecount p' = freepagecount p \<and>
     reservedBytes p' = reservedBytes p \<and> codec p' = codec p \<and>
     (integrity p' = integrity p \<or> integrity p' = integrity p OR INTEGRITY_DATA))"

lemma same_db_refl [simp]: "same_db p p"
  by (simp add: same_db_def)

lemma same_db_trans: "same_db p q \<Longrightarrow> same_db q r \<Longrightarrow> same_db p r"
  by (auto simp: same_db_def or.assoc)

lemma same_db_set_status: "pager_wf q \<Longrightarrow> same_db p q \<Longrightarrow> same_db p (set_status q no st)"
  by (auto simp: same_db_def or.assoc)

definition rk_rel :: "int \<Rightarrow> int set \<Rightarrow> ('c, 'u) sqliterk \<Rightarrow> ('c, 'u) sqliterk \<Rightarrow> bool" where
  "rk_rel k X rk rk' = (rk_ok rk' \<and> rnotify rk' = rnotify rk \<and> recursive rk' = recursive rk \<and>
     ruserInfo rk' = ruserInfo rk \<and> same_db (the (rpager rk)) (the (rpager rk')) \<and>
     live (rheap rk') = live (rheap rk) + k \<and> being_checked rk' \<subseteq> being_checked rk \<union> X)"

lemma rk_rel_refl: "rk_ok rk \<Longrightarrow> rk_rel 0 {} rk rk"
  by (simp add: rk_rel_def)

lemma rk_rel_trans: "rk_rel a X r s \<Longrightarrow> rk_rel b Y s t \<Longrightarrow> rk_rel (a + b) (X \<union> Y) r t"
  by (auto simp: rk_rel_def intro: same_db_trans)

lemma rk_rel_weaken: "rk_rel k X r s \<Longrightarrow> X \<subseteq> Y \<Longrightarrow> rk_rel k Y r s"
  by (auto simp: rk_rel_def)

lemma rk_ok_heap: "rk_ok rk \<Longrightarrow> outcomes h = [] \<Longrightarrow> rk_rel (live h - live (rheap rk)) {} rk (rk\<lparr>rheap := h\<rparr>)"
  by (auto simp: rk_rel_def rk_ok_def same_db_def being_checked_def)

lemma rk_rel_heap:
  "rk_rel k X r s \<Longrightarrow> outcomes h = [] \<Longrightarrow> rk_rel (k + live h - live (rheap s)) X r (s\<lparr>rheap := h\<rparr>)"
  by (auto simp: rk_rel_def rk_ok_def same_db_def being_checked_def)

lemma rk_rel_free: "rk_rel k X r s \<Longrightarrow> rk_rel (k - 1) X r (s\<lparr>rheap := c_free (rheap s)\<rparr>)"
proof -
  assume a: "rk_rel k X r s"
  then have "outcomes (rheap s) = []" by (simp add: rk_rel_def rk_ok_def)
  then show ?thesis using rk_rel_heap [OF a, of "c_free (rheap s)"] by simp
qed

lemma rk_rel_user: "rk_rel k X r s \<Longrightarrow> rk_rel k X r (s\<lparr>userdata := u\<rparr>)"
  by (auto simp: rk_rel_def rk_ok_def being_checked_def)

lemma rk_relD [dest]: "rk_rel k X r s \<Longrightarrow> rk_ok s" by (simp add: rk_rel_def)

lemma rk_okE:
  assumes "rk_ok rk" obtains p where "rpager rk = Some p" "pager_wf p" "codec p = None" "outcomes (rheap rk) = []"
  using assms by (auto simp: rk_ok_def split: option.splits)

text \<open>Status changes.\<close>

lemma set_page_status_rel:
  assumes "rk_ok rk" "set_page_status no st rk = Ret rk'"
  shows "rk_rel 0 (if st = st_checking then {no} else {}) rk rk' \<and>
    (st \<noteq> st_checking \<longrightarrow> no \<notin> being_checked rk')"
proof -
  obtain p where p: "rpager rk = Some p" "pager_wf p" "codec p = None" "outcomes (rheap rk) = []"
    using assms(1) by (rule rk_okE)
  have r: "rk' = rk\<lparr>rpager := Some (set_status p no st)\<rparr>"
    using assms(2) p by (simp add: set_page_status_def set_status_Ret)
  have i: "st_checking \<noteq> status_of p no" if "\<not> valid_pageno p no"
    using that by (simp add: status_of_def sqliterkPagerGetStatus_def split: option.splits)
  show ?thesis
    using assms(1) p i page_status.ok_sets [OF p(2)]
    by (auto simp: r rk_rel_def rk_ok_def same_db_def being_checked_def page_status.gets_sets split: if_splits)
qed

lemma begin_page_rel:
  assumes "rk_ok rk" "notify_begin_page btree no rk = Ret (rc, rk')"
  shows "rk_rel 0 (if rc = SQLITERK_OK \<and> bnotify btree then {no} else {}) rk rk' \<and> rc \<noteq> SQLITERK_CANCELLED"
proof (cases "bnotify btree")
  case False
  then show ?thesis using assms rk_rel_refl by (auto simp: notify_begin_page_def)
next
  case True
  obtain p where p: "rpager rk = Some p" "pager_wf p" using assms(1) by (rule rk_okE)
  show ?thesis
  proof (cases "status_of p no = st_checking")
    case c: True
    then have "rc = SQLITERK_MISUSE" "rk' = rk"
      using assms(2) p True by (simp_all add: notify_begin_page_def sqliterkNotify_onBeginParsePage_def get_status)
    then show ?thesis using rk_rel_refl [OF assms(1)] by simp
  next
    case False
    then have "rc = SQLITERK_OK" "set_page_status no st_checking rk = Ret rk'"
      using assms(2) p True
      by (auto simp: notify_begin_page_def sqliterkNotify_onBeginParsePage_def get_status elim!: cbind_RetE)
    then show ?thesis using set_page_status_rel [OF assms(1), of no st_checking rk'] True by simp
  qed
qed

lemma end_page_rel:
  assumes "rk_ok rk" "notify_end_page btree no rc rk = Ret rk'" "rc \<noteq> SQLITERK_CANCELLED"
  shows "rk_rel 0 {} rk rk' \<and> (bnotify btree \<longrightarrow> no \<notin> being_checked rk')"
proof (cases "bnotify btree")
  case False
  then show ?thesis using assms rk_rel_refl by (simp add: notify_end_page_def)
next
  case True
  then obtain st rk1 where s: "set_page_status no st rk = Ret rk1" "st \<noteq> st_checking"
    and r: "rk' = (case didParsePage (rnotify rk1) of None \<Rightarrow> rk1
            | Some f \<Rightarrow> rk1\<lparr>userdata := f (userdata rk1) no\<rparr>)"
    using assms(2,3)
    by (auto simp: notify_end_page_def sqliterkNotify_onEndParsePage_def elim!: cbind_RetE split: if_split_asm)
  then show ?thesis
    using set_page_status_rel [OF assms(1) s(1)] rk_rel_user [of 0 "{}" rk rk1]
    by (auto simp: being_checked_def split: option.split)
qed


lemma rk_rel_remove: "rk_rel k X r s \<Longrightarrow> no \<notin> being_checked s \<Longrightarrow> rk_rel k (X - {no}) r s"
  by (auto simp: rk_rel_def)

lemma read_loop_code: "fst (read_loop bytes pos left acc es) \<in> {SQLITERK_OK, SQLITERK_IOERR, SQLITERK_SHORT_READ}"
  by (induction bytes pos left acc es rule: read_loop.induct) (auto simp: Let_def)

lemma os_read_code: "os_read env f off n = (SQLITERK_CANCELLED, bytes) \<Longrightarrow> False"
  using read_loop_code [of "fdata (the f)" "nat off" n "[]" "env_script env off n"]
  by (auto simp: os_read_def sqliterkOSRead_def split: option.split_asm if_split_asm)

lemma os_malloc_quiet: "os_malloc n h = (ok, h') \<Longrightarrow> outcomes h = [] \<longrightarrow> outcomes h' = []"
  by (auto simp: os_malloc_def c_alloc_no_oom split: if_splits)

lemma acquire_quiet:
  assumes "outcomes h = []" "sqliterkPageAcquireOne env (Some p) no ty h = Ret (r, h')" "codec p = None"
  shows "outcomes h' = [] \<and> live h' = live h + (case r of Inl _ \<Rightarrow> 0 | Inr _ \<Rightarrow> 2) \<and>
    (case r of Inl rc \<Rightarrow> rc \<noteq> SQLITERK_OK \<and> rc \<noteq> SQLITERK_CANCELLED
     | Inr page \<Rightarrow> pdata page \<noteq> None \<and> pageno page = no)"
proof -
  have "(case r of Inl rc \<Rightarrow> rc \<noteq> SQLITERK_OK \<and> rc \<noteq> SQLITERK_CANCELLED
     | Inr page \<Rightarrow> pdata page \<noteq> None \<and> pageno page = no) \<and> outcomes h' = []"
    using assms
    by (auto simp: sqliterkPageAcquireOne_def acquire_failed_def sqliterkPageRelease_def Let_def c_alloc_no_oom
        elim!: cbind_RetE dest!: os_malloc_quiet dest: os_read_code split: prod.split_asm if_split_asm sum.split)
  then show ?thesis using acquire_balanced [OF assms(2)] by simp
qed

lemma release_live:
  "snd (sqliterkPageRelease (Some page) h) = c_free (if pdata page \<noteq> None then c_free h else h)"
  by (simp add: sqliterkPageRelease_def)

lemma overflow_add:
  assumes "column_wf column" "outcomes h = []"
    "sqliterkValuesAddInteger (sqliterkColumnGetOverflowPages (Some column)) no h = Ret (rc, os, h')"
  shows "column_wf (column\<lparr>coverflow := os\<rparr>) \<and> outcomes h' = [] \<and>
    live h' - live h = column_blocks (column\<lparr>coverflow := os\<rparr>) - column_blocks column"
proof -
  obtain vs o0 where c: "cvalues column = Some vs" "coverflow column = Some o0" "values_wf vs" "values_wf o0"
    using assms(1) by (auto simp: column_wf_def)
  then have "add_item (IInt no) o0 h = Ret (rc, os, h')"
    using assms(3) by (simp add: sqliterkColumnGetOverflowPages_def sqliterkValuesAddInteger_def add_item_def)
  then show ?thesis using add_item_vstep [OF c(4) assms(2)] c
    by (fastforce simp: vstep_def column_wf_def column_blocks_def)
qed

lemma overflow_loop_step:
  assumes "rk_ok rk" "column_wf column"
    and l: "overflow_loop (Suc n) env btree psize no buf ptr column rk = Ret (buf', column', rk')"
  obtains (stop) "\<not> valid_pageno (the (rpager rk)) no" "column' = column" "rk' = rk"
  | (fail) q h h' rc where "same_db (the (rpager rk)) q" "outcomes h = []" "valid_pageno q no"
      "sqliterkPageAcquireOne env (Some q) no overflow h = Ret (Inl rc, h')"
      "rk_rel (column_blocks column' - column_blocks column) {} rk rk'" "column_wf column'"
  | (forward) q h h' page no1 buf1 ptr1 column1 rk1 where "same_db (the (rpager rk)) q" "outcomes h = []" "valid_pageno q no"
      "sqliterkPageAcquireOne env (Some q) no overflow h = Ret (Inr page, h')"
      "sqliterkParseInt (pdata page) 0 4 = Ret (Inr no1)"
      "rk_rel (column_blocks column1 - column_blocks column) {} rk rk1" "column_wf column1"
      "overflow_loop n env btree psize no1 buf1 ptr1 column1 rk1 = Ret (buf', column', rk')"
proof -
  obtain p where p: "rpager rk = Some p" "pager_wf p" "codec p = None" "outcomes (rheap rk) = []"
    using assms(1) by (rule rk_okE)
  show thesis
  proof (cases "valid_pageno p no")
    case False
    then have e: "column' = column" "rk' = rk" using l p by auto
    show ?thesis by (rule stop) (use e p False in simp_all)
  next
    case True
    from l p True obtain rc0 os h0 where
      a: "sqliterkValuesAddInteger (sqliterkColumnGetOverflowPages (Some column)) no (rheap rk) = Ret (rc0, os, h0)"
      by (auto elim!: cbind_RetE)
    let ?c1 = "column\<lparr>coverflow := os\<rparr>" and ?rk1 = "rk\<lparr>rheap := h0\<rparr>"
    note c1 = overflow_add [OF assms(2) p(4) a]
    have r1: "rk_rel (column_blocks ?c1 - column_blocks column) {} rk ?rk1"
      using rk_ok_heap [OF assms(1), of h0] c1 by simp
    from l p True a obtain rc1 rk2 where b: "notify_begin_page btree no ?rk1 = Ret (rc1, rk2)"
      by (auto simp: Let_def elim!: cbind_RetE)
    note r2 = begin_page_rel [OF rk_relD [OF r1] b]
    then obtain p2 where p2: "rpager rk2 = Some p2" "codec p2 = None" "outcomes (rheap rk2) = []"
      using rk_okE [of rk2] by blast
    have db: "same_db p p2" using r1 r2 p2 p by (auto simp: rk_rel_def intro: same_db_trans)
    from l p True a b obtain r h3 where
      q: "sqliterkPageAcquireOne env (Some p2) no overflow (rheap rk2) = Ret (r, h3)"
      using p2(1) by (auto simp: Let_def sqliterkPageAcquireOverflow_def elim!: cbind_RetE)
    note q3 = acquire_quiet [OF p2(3) q p2(2)]
    let ?rk3 = "rk2\<lparr>rheap := h3\<rparr>" and ?rc = "case r of Inl rc \<Rightarrow> rc | Inr _ \<Rightarrow> SQLITERK_OK"
    have r3: "rk_rel (case r of Inl _ \<Rightarrow> 0 | Inr _ \<Rightarrow> 2) {} rk2 ?rk3"
      using rk_ok_heap [of rk2 h3] r2 q3 by auto
    from l p True a b q obtain rk4 where e: "notify_end_page btree no ?rc ?rk3 = Ret rk4"
      using p2(1) by (auto simp: Let_def sqliterkPageAcquireOverflow_def elim!: cbind_RetE)
    have rc: "?rc \<noteq> SQLITERK_CANCELLED" using q3 by (auto split: sum.split)
    note r4 = end_page_rel [OF rk_relD [OF r3] e rc]
    have r14: "rk_rel (column_blocks ?c1 - column_blocks column + (case r of Inl _ \<Rightarrow> 0 | Inr _ \<Rightarrow> 2)) {} rk rk4"
    proof -
      have "rk_rel (column_blocks ?c1 - column_blocks column + 0 + (case r of Inl _ \<Rightarrow> 0 | Inr _ \<Rightarrow> 2) + 0)
          ({} \<union> (if rc1 = SQLITERK_OK \<and> bnotify btree then {no} else {}) \<union> {} \<union> {}) rk rk4"
        using r1 r2 r3 r4 by (intro rk_rel_trans) blast+
      then show ?thesis using rk_rel_remove r4 by (fastforce split: if_splits)
    qed
    have v: "valid_pageno p2 no" using True db by (simp add: valid_pageno_def same_db_def)
    have db': "same_db (the (rpager rk)) p2" using db p(1) by simp
    show ?thesis
    proof (cases r)
      case (Inl rc)
      then have "column' = ?c1" "rk' = rk4" using l p True a b q e p2(1)
        by (auto simp: Let_def sqliterkPageAcquireOverflow_def)
      then show ?thesis using fail [OF db' p2(3) v] q Inl r14 c1 by simp
    next
      case (Inr page)
      let ?rk5 = "rk4\<lparr>rheap := snd (sqliterkPageRelease (Some page) (rheap rk4))\<rparr>"
      obtain no1 buf1 ptr1 where n: "overflow_loop n env btree psize no1 buf1 ptr1 ?c1 ?rk5 = Ret (buf', column', rk')"
        "sqliterkParseInt (pdata page) 0 4 = Ret (Inr no1)"
        using l p True a b q e p2(1) Inr
        by (auto simp: Let_def sqliterkPageAcquireOverflow_def sqliterkPageGetData_def need_Ret elim!: cbind_RetE)
      have r5: "rk_rel (column_blocks ?c1 - column_blocks column) {} rk ?rk5"
        using rk_rel_free [OF rk_rel_free [OF r14]] q3 Inr by (simp add: release_live)
      show ?thesis using forward [OF db' p2(3) v q [unfolded Inr] n(2) r5 conjunct1 [OF c1] n(1)] .
    qed
  qed
qed

lemma overflow_loop_rel:
  "rk_ok rk \<Longrightarrow> column_wf column \<Longrightarrow>
   overflow_loop n env btree psize no buf ptr column rk = Ret (buf', column', rk') \<Longrightarrow>
   rk_rel (column_blocks column' - column_blocks column) {} rk rk' \<and> column_wf column'"
proof (induction n arbitrary: no buf ptr column rk)
  case (Suc n)
  from Suc.prems show ?case
  proof (cases rule: overflow_loop_step)
    case stop
    then show ?thesis using Suc.prems rk_rel_refl by simp
  next
    case (forward q h h' page no1 buf1 ptr1 column1 rk1)
    note ih = Suc.IH [OF rk_relD [OF forward(6)] forward(7,8)]
    then show ?thesis using rk_rel_trans [OF forward(6) conjunct1 [OF ih]] by simp
  qed simp
qed simp

lemma collect_payload_rel:
  assumes "rk_ok rk" "column_wf column"
    "collect_payload n env btree page off psize column rk = Ret r"
  shows "case r of Inl rc \<Rightarrow> rc = SQLITERK_DAMAGED
    | Inr (buf, column', rk') \<Rightarrow> rk_rel (column_blocks column' - column_blocks column) {} rk rk' \<and> column_wf column'"
  using assms overflow_loop_rel [OF assms(1,2)] rk_rel_refl [OF assms(1)]
  by (auto simp: collect_payload_def elim!: cbind_RetE split: if_split_asm option.split_asm)

lemma parse_record_vstep:
  assumes "values_wf vs" "outcomes h = []" "parse_record d psize (Some vs) h = Ret (rc, r, h')"
  shows "rc \<noteq> SQLITERK_CANCELLED \<and> vstep vs h r h'"
  using assms(3)
  by (auto simp: parse_record_def elim!: cbind_RetE dest!: record_loop_vstep [OF assms(1,2)] parse_varint_error(2)
      split: sum.split_asm) (use assms(1,2) in \<open>auto simp: vstep_def\<close>)

text \<open>What is asked of a column handler.\<close>

definition handler_ok :: "('c, 'u) column_handler \<Rightarrow> bool" where
  "handler_ok f = (\<forall>btree page column rk rc rk'. rk_ok rk \<longrightarrow> column_wf column \<longrightarrow>
     f btree page column rk = Ret (rc, rk') \<longrightarrow> rk_rel 0 {} rk rk' \<and> rc \<noteq> SQLITERK_CANCELLED)"

lemma parse_payload_rel:
  assumes "rk_ok rk" "column_wf column" "handler_ok on_column"
    "sqliterkBtreeParsePayload n env on_column btree page off psize column rk = Ret (rc, column', rk')"
  shows "rk_rel (column_blocks column' - column_blocks column) {} rk rk' \<and> column_wf column' \<and> rc \<noteq> SQLITERK_CANCELLED"
proof -
  obtain ok h where m: "os_malloc psize (rheap rk) = (ok, h)" by force
  have h: "outcomes h = []" "live h = live (rheap rk) + (if ok then 1 else 0)"
    using os_malloc_quiet [OF m] os_malloc_live [OF m] assms(1) by (auto simp: rk_ok_def)
  let ?rk = "rk\<lparr>rheap := h\<rparr>"
  have r0: "rk_rel (if ok then 1 else 0) {} rk ?rk" using rk_ok_heap [OF assms(1) h(1)] h(2) by simp
  consider "psize \<le> 0" | "0 < psize" "\<not> ok" | "0 < psize" "ok" by linarith
  then show ?thesis
  proof cases
    case 1
    then show ?thesis using assms rk_rel_refl by (simp add: sqliterkBtreeParsePayload_def)
  next
    case 2
    then show ?thesis using assms m r0 by (simp add: sqliterkBtreeParsePayload_def)
  next
    case 3
    from assms(4) 3 m obtain r where c: "collect_payload n env btree page off psize column ?rk = Ret r"
      by (auto simp: sqliterkBtreeParsePayload_def elim!: cbind_RetE)
    note cr = collect_payload_rel [OF rk_relD [OF r0] assms(2) c]
    show ?thesis
    proof (cases r)
      case (Inl e)
      then have "rc = e" "column' = column" "rk' = ?rk\<lparr>rheap := c_free h\<rparr>" "e = SQLITERK_DAMAGED"
        using assms(4) 3 m c cr by (auto simp: sqliterkBtreeParsePayload_def)
      then show ?thesis using rk_rel_free [OF r0] assms(2) 3 by simp
    next
      case (Inr q)
      then obtain buf col1 rk1 where q: "r = Inr (buf, col1, rk1)" by (cases q) auto
      have r1: "rk_rel (column_blocks col1 - column_blocks column) {} ?rk rk1" "column_wf col1" using cr q by auto
      then obtain vs os where vs: "cvalues col1 = Some vs" "coverflow col1 = Some os" "values_wf vs" "values_wf os"
        by (auto simp: column_wf_def)
      have o1: "outcomes (rheap rk1) = []" using r1(1) by (auto simp: rk_rel_def rk_ok_def)
      from assms(4) 3 m c q vs obtain rc2 v2 h2 where p: "parse_record buf psize (Some vs) (rheap rk1) = Ret (rc2, v2, h2)"
        by (auto simp: sqliterkBtreeParsePayload_def Let_def sqliterkColumnGetValues_def elim!: cbind_RetE)
      note v = parse_record_vstep [OF vs(3) o1 p]
      let ?col = "col1\<lparr>cvalues := v2\<rparr>" and ?rk2 = "rk1\<lparr>rheap := h2\<rparr>"
      have c2: "column_wf ?col" "live h2 - live (rheap rk1) = column_blocks ?col - column_blocks col1" "outcomes h2 = []"
        using v vs by (auto simp: vstep_def column_wf_def column_blocks_def)
      have r2: "rk_rel (column_blocks ?col - column_blocks col1) {} rk1 ?rk2"
        using rk_ok_heap [OF rk_relD [OF r1(1)] c2(3)] c2(2) by simp
      have "\<exists>rk3. rk' = rk3\<lparr>rheap := c_free (rheap rk3)\<rparr> \<and> column' = ?col \<and>
          ((if rc2 = SQLITERK_OK \<and> bnotify btree then on_column btree page ?col ?rk2 else Ret (rc2, ?rk2)) = Ret (rc, rk3))"
        using assms(4) 3 m c q vs p
        by (auto simp: sqliterkBtreeParsePayload_def Let_def sqliterkColumnGetValues_def elim!: cbind_RetE)
      then obtain rk3 where rk3: "rk' = rk3\<lparr>rheap := c_free (rheap rk3)\<rparr>" "column' = ?col" and
        hd: "(if rc2 = SQLITERK_OK \<and> bnotify btree then on_column btree page ?col ?rk2 else Ret (rc2, ?rk2)) = Ret (rc, rk3)"
        by blast
      have r3: "rk_rel 0 {} ?rk2 rk3 \<and> rc \<noteq> SQLITERK_CANCELLED"
        using hd assms(3) c2(1) v rk_rel_refl [OF rk_relD [OF r2]] rk_relD [OF r2]
        unfolding handler_ok_def by (auto split: if_split_asm)
      have "rk_rel (1 + (column_blocks col1 - column_blocks column) + (column_blocks ?col - column_blocks col1) + 0) 
          ({} \<union> {} \<union> {} \<union> {}) rk rk3"
        using r0 r1(1) r2 r3 3 by (intro rk_rel_trans) auto
      from rk_rel_free [OF this] show ?thesis using rk3 c2(1) r3 by (simp add: algebra_simps)
    qed
  qed
qed

lemma set_rowid_wf: "column_wf column \<Longrightarrow> column_wf (the (sqliterkColumnSetRowId (Some column) r)) \<and>
    column_blocks (the (sqliterkColumnSetRowId (Some column) r)) = column_blocks column"
  by (simp add: sqliterkColumnSetRowId_def column_wf_def column_blocks_def)

lemma value_clear_outcomes: "sqliterkValueClear v h = Ret (v', h') \<Longrightarrow> outcomes h' = outcomes h"
  by (auto simp: sqliterkValueClear_def Let_def elim!: cbind_RetE
      split: if_split_asm value_type.split_asm any.split_asm)

lemma clear_loop_outcomes: "clear_loop n i xs h = Ret (ys, h') \<Longrightarrow> outcomes h' = outcomes h"
  by (induction n i xs h rule: clear_loop.induct)
    (auto elim!: cbind_RetE dest: value_clear_outcomes split: option.split_asm)

lemma values_clear_outcomes: "sqliterkValuesClear vs h = Ret (rc, vs', h') \<Longrightarrow> outcomes h' = outcomes h"
  by (auto simp: sqliterkValuesClear_def elim!: cbind_RetE dest: clear_loop_outcomes split: option.split_asm)

lemma values_free_outcomes: "sqliterkValuesFree vs h = Ret (rc, h') \<Longrightarrow> outcomes h' = outcomes h"
  by (auto simp: sqliterkValuesFree_def Let_def elim!: cbind_RetE dest: clear_loop_outcomes split: option.split_asm)

lemma column_clear_quiet: "sqliterkColumnClear c h = Ret (rc, c', h') \<Longrightarrow> outcomes h' = outcomes h"
  by (auto simp: sqliterkColumnClear_def elim!: cbind_RetE dest!: values_clear_outcomes split: option.split_asm)

lemma column_free_quiet: "sqliterkColumnFree c h = Ret (rc, h') \<Longrightarrow> outcomes h' = outcomes h"
  by (auto simp: sqliterkColumnFree_def elim!: cbind_RetE dest!: values_free_outcomes
      split: option.split_asm if_split_asm)

lemma cell_loop_rel:
  "rk_ok rk \<Longrightarrow> column_wf column \<Longrightarrow> handler_ok on_column \<Longrightarrow>
   cell_loop n env on_column btree page cells column rk = Ret (rc, column', rk') \<Longrightarrow>
   rk_rel (column_blocks column' - column_blocks column) {} rk rk' \<and> column_wf column' \<and> rc \<noteq> SQLITERK_CANCELLED"
proof (induction cells arbitrary: column rk)
  case Nil then show ?case using rk_rel_refl by simp
next
  case (Cons off cells)
  have o: "outcomes (rheap rk) = []" using Cons.prems(1) by (simp add: rk_ok_def)
  obtain c1 h1 where cl: "sqliterkColumnClear (Some column) (rheap rk) = Ret (SQLITERK_OK, Some c1, h1)"
    and c1: "column_wf c1" "live h1 - live (rheap rk) = column_blocks c1 - column_blocks column"
    using column_clear_ok [OF Cons.prems(2)] by blast
  have h1: "outcomes h1 = []" using column_clear_quiet [OF cl] o by simp
  let ?rk1 = "rk\<lparr>rheap := h1\<rparr>" and ?d = "sqliterkPageGetData (Some page)"
  have r1: "rk_rel (column_blocks c1 - column_blocks column) {} rk ?rk1"
    using rk_ok_heap [OF Cons.prems(1) h1] c1(2) by simp
  from Cons.prems(4) cl obtain v where v: "sqliterkParseVarint ?d off = Ret v" by (auto simp: Let_def elim!: cbind_RetE)
  show ?case
  proof (cases v)
    case (Inl e)
    then show ?thesis using Cons.prems(4) cl v r1 c1(1) parse_varint_error(2) [of ?d off e] by (auto simp: Let_def)
  next
    case (Inr q)
    obtain l1 psize where q: "q = (l1, psize)" by force
    from Cons.prems(4) cl v Inr q obtain w where w: "sqliterkParseVarint64 ?d (off + l1) = Ret w"
      by (auto simp: Let_def c_arith_Ret elim!: cbind_RetE)
    show ?thesis
    proof (cases w)
      case (Inl e)
      then show ?thesis using Cons.prems(4) cl v \<open>v = Inr q\<close> q w r1 c1(1) parse_varint_error(1) [of ?d "off + l1" e]
        by (auto simp: Let_def c_arith_Ret elim!: cbind_RetE)
    next
      case w2: (Inr z)
      obtain l2 rowid where z: "z = (l2, rowid)" by force
      let ?c2 = "the (sqliterkColumnSetRowId (Some c1) rowid)"
      from Cons.prems(4) cl v Inr q w w2 z obtain rc3 c3 rk3 where
        p: "sqliterkBtreeParsePayload n env on_column btree page (off + l1 + l2) psize ?c2 ?rk1 = Ret (rc3, c3, rk3)" and
        rest: "(if rc3 \<noteq> SQLITERK_OK then Ret (rc3, c3, rk3)
              else cell_loop n env on_column btree page cells c3 rk3) = Ret (rc, column', rk')"
        by (auto simp: Let_def c_arith_Ret elim!: cbind_RetE)
      note c2 = set_rowid_wf [OF c1(1), of rowid]
      note r3 = parse_payload_rel [OF rk_relD [OF r1] conjunct1 [OF c2] Cons.prems(3) p]
      have r13: "rk_rel (column_blocks c3 - column_blocks column) {} rk rk3"
        using rk_rel_trans [OF r1 conjunct1 [OF r3]] c2 by simp
      show ?thesis
      proof (cases "rc3 = SQLITERK_OK")
        case False
        then show ?thesis using rest r13 r3 by auto
      next
        case True
        then have "cell_loop n env on_column btree page cells c3 rk3 = Ret (rc, column', rk')" using rest by simp
        from Cons.IH [OF rk_relD [OF r13] _ Cons.prems(3) this] r3
        show ?thesis using rk_rel_trans [OF r13] by fastforce
      qed
    qed
  qed
qed


lemma column_alloc_quiet:
  "outcomes h = [] \<Longrightarrow> sqliterkColumnAlloc h = Ret (r, h') \<Longrightarrow> outcomes h' = [] \<and> (\<exists>c. r = Inr c)"
  by (auto simp: sqliterkColumnAlloc_def sqliterkValuesAlloc_def sqliterkValuesAutoGrow_def c_alloc_no_oom Let_def
      elim!: cbind_RetE split: if_split_asm)

lemma parse_cell_rel:
  assumes "rk_ok rk" "handler_ok on_column"
    "sqliterkBtreeParseCell n env on_column btree page cells rk = Ret (rc, rk')"
  shows "rk_rel 0 {} rk rk' \<and> rc \<noteq> SQLITERK_CANCELLED"
proof -
  have o: "outcomes (rheap rk) = []" using assms(1) by (simp add: rk_ok_def)
  from assms(3) obtain r h1 where "sqliterkColumnAlloc (rheap rk) = Ret (r, h1)"
    by (auto simp: sqliterkBtreeParseCell_def elim!: cbind_RetE)
  then obtain c where c: "sqliterkColumnAlloc (rheap rk) = Ret (Inr c, h1)" and h1: "outcomes h1 = []"
    using column_alloc_quiet [OF o] by blast
  note c1 = column_alloc_ok [OF c]
  let ?rk1 = "rk\<lparr>rheap := h1\<rparr>"
  have r1: "rk_rel (column_blocks c) {} rk ?rk1" using rk_ok_heap [OF assms(1) h1] c1 by simp
  from assms(3) c obtain col2 rk2 where l: "cell_loop n env on_column btree page cells c ?rk1 = Ret (rc, col2, rk2)"
    by (auto simp: sqliterkBtreeParseCell_def Let_def elim!: cbind_RetE)
  note r2 = cell_loop_rel [OF rk_relD [OF r1] conjunct1 [OF c1] assms(2) l]
  obtain h3 where f: "sqliterkColumnFree (Some col2) (rheap rk2) = Ret (SQLITERK_OK, h3)"
    "live h3 = live (rheap rk2) - column_blocks col2"
    using column_free_ok [of col2] r2 by blast
  have rk': "rk' = rk2\<lparr>rheap := h3\<rparr>"
    using assms(3) c l f by (auto simp: sqliterkBtreeParseCell_def Let_def)
  have r12: "rk_rel (column_blocks col2) {} rk rk2" using rk_rel_trans [OF r1 conjunct1 [OF r2]] by simp
  have "outcomes h3 = []" using column_free_quiet [OF f(1)] r12 by (simp add: rk_rel_def rk_ok_def)
  then show ?thesis using rk_rel_heap [OF r12, of h3] f(2) r2 by (simp add: rk')
qed

text \<open>Memory of b-tree objects.\<close>

definition btree_blocks :: "sqliterk_btree \<Rightarrow> int" where
  "btree_blocks b = 1 + (if bname b = None then 0 else 1) +
     (case rootpage b of None \<Rightarrow> 0 | Some page \<Rightarrow> if pdata page = None then 1 else 2)"

lemma btree_close_live: "live (snd (sqliterkBtreeClose (Some b) h)) = live h - btree_blocks b"
  by (auto simp: sqliterkBtreeClose_def btree_blocks_def Let_def sqliterkPageRelease_def split: option.split)

lemma btree_close_outcomes [simp]: "outcomes (snd (sqliterkBtreeClose b h)) = outcomes h"
  by (auto simp: sqliterkBtreeClose_def Let_def sqliterkPageRelease_def split: option.split)

lemma set_meta_quiet:
  "outcomes h = [] \<Longrightarrow> sqliterkBtreeSetMeta (Some b) name type h = (rc, b', h') \<Longrightarrow>
   rc = SQLITERK_OK \<and> outcomes h' = [] \<and> (\<exists>b2. b' = Some b2 \<and> rootpage b2 = rootpage b \<and> bnotify b2 = bnotify b \<and>
     live h' - live h = btree_blocks b2 - btree_blocks b)"
  by (auto simp: sqliterkBtreeSetMeta_def Let_def c_alloc_no_oom btree_blocks_def split: option.split_asm if_split_asm)

lemma btree_limits_frame: "btree_limits u b = Ret b' \<Longrightarrow> btree_blocks b' = btree_blocks b \<and> rootpage b' = rootpage b"
  by (auto simp: btree_limits_def btree_blocks_def elim!: cbind_RetE)

lemma btree_open_quiet:
  assumes "outcomes h = []" "codec p = None" "sqliterkBtreeOpen env (Some p) no h = Ret (r, h')"
  shows "outcomes h' = [] \<and> live h' = live h + (case r of Inl _ \<Rightarrow> 0 | Inr b \<Rightarrow> btree_blocks b) \<and>
    (case r of Inl rc \<Rightarrow> rc \<noteq> SQLITERK_CANCELLED | Inr b \<Rightarrow> True)"
proof -
  let ?h1 = "h\<lparr>live := live h + 1\<rparr>"
  have a: "c_alloc h = (True, ?h1)" using assms(1) by (rule c_alloc_no_oom)
  from assms(3) a obtain q h2 where q: "sqliterkPageAcquireOne env (Some p) no unknown ?h1 = Ret (q, h2)"
    by (auto simp: sqliterkBtreeOpen_def sqliterkPageAcquire_def elim!: cbind_RetE)
  note aq = acquire_quiet [OF _ q assms(2)]
  show ?thesis
  proof (cases q)
    case (Inl rc)
    then have "r = Inl rc" "h' = snd (sqliterkBtreeClose (Some zero_btree) h2)"
      using assms(3) a q by (auto simp: sqliterkBtreeOpen_def sqliterkPageAcquire_def btree_open_failed_def)
    then show ?thesis using aq Inl assms(1) by (simp add: btree_close_live btree_blocks_def zero_btree_def)
  next
    case (Inr page)
    let ?b = "zero_btree\<lparr>rootpage := Some page\<rparr>"
    have pg: "pdata page \<noteq> None" "outcomes h2 = []" "live h2 = live h + 3" using aq Inr assms(1) by auto
    obtain rc b h3 where b: "btree_root_type no ?b h2 = (rc, b, h3)" by (metis prod_cases3)
    have b3: "rc \<noteq> SQLITERK_CANCELLED \<and> outcomes h3 = [] \<and> rootpage b = Some page \<and> live h3 = live h + btree_blocks b"
    proof (cases "no = 1")
      case True
      then obtain b' where s: "sqliterkBtreeSetMeta (Some ?b) (Some (c_str ''sqlite_master'')) btree_type_master h2 = (rc, b', h3)" "b = the b'"
        using b by (auto simp: btree_root_type_def split: prod.split_asm)
      then show ?thesis using set_meta_quiet [OF pg(2) s(1)] pg by (auto simp: btree_blocks_def zero_btree_def)
    next
      case False
      then show ?thesis using b pg by (auto simp: btree_root_type_def btree_blocks_def zero_btree_def split: page_type.split_asm)
    qed
    show ?thesis
    proof (cases "rc = SQLITERK_OK")
      case False
      then have "r = Inl rc" "h' = snd (sqliterkBtreeClose (Some b) h3)"
        using assms(3) a q Inr b
        by (auto simp: sqliterkBtreeOpen_def sqliterkPageAcquire_def btree_open_failed_def Let_def sqliterkPageGetType_def)
      then show ?thesis using b3 by (simp add: btree_close_live)
    next
      case True
      then obtain b' where l: "btree_limits (usableSize p) (b\<lparr>rootpage := Some (page\<lparr>pdata := None\<rparr>)\<rparr>) = Ret b'"
        "r = Inr b'" "h' = c_free h3"
        using assms(3) a q Inr b b3 pg
        by (auto simp: sqliterkBtreeOpen_def sqliterkPageAcquire_def Let_def sqliterkPageGetType_def
            sqliterkPageClearData_def sqliterkPagerGetUsableSize_def elim!: cbind_RetE)
      then show ?thesis using b3 pg btree_limits_frame [OF l(1)]
        by (auto simp: btree_blocks_def split: if_splits)
    qed
  qed
qed


text \<open>What is asked of a page parser.\<close>

definition parser_ok :: "('c, 'u) page_parser \<Rightarrow> bool" where
  "parser_ok f = (\<forall>btree no rk rc rk'. rk_ok rk \<longrightarrow> bnotify btree \<longrightarrow>
     f btree no rk = Ret (rc, rk') \<longrightarrow> rk_rel 0 {} rk rk' \<and> rc \<noteq> SQLITERK_CANCELLED)"

lemma parser_okD:
  "parser_ok f \<Longrightarrow> rk_ok rk \<Longrightarrow> bnotify btree \<Longrightarrow> f btree no rk = Ret (rc, rk') \<Longrightarrow>
   rk_rel 0 {} rk rk' \<and> rc \<noteq> SQLITERK_CANCELLED"
  by (simp add: parser_ok_def)

lemma parse_btree_rel:
  assumes "parser_ok f" "rk_ok rk" "sqliterkParseBtree f btree rk = Ret (rc, rk')"
  shows "rk_rel 0 {} rk rk' \<and> rc \<noteq> SQLITERK_CANCELLED"
proof -
  let ?b = "btree\<lparr>bnotify := True\<rparr>"
  have "rc = SQLITERK_MISUSE \<and> rk' = rk \<or> sqliterkBtreeParse f ?b rk = Ret (rc, rk')"
    using assms(3) unfolding sqliterkParseBtree_def sqliterkBtreeSetNotify_def Let_def by (simp split: if_split_asm)
  then show ?thesis
  proof (elim disjE)
    assume "rc = SQLITERK_MISUSE \<and> rk' = rk" then show ?thesis using rk_rel_refl [OF assms(2)] by simp
  next
    assume 2: "sqliterkBtreeParse f ?b rk = Ret (rc, rk')"
    let ?rk1 = "sqliterkNotify_onBeginParseBtree ?b rk"
    have r1: "rk_rel 0 {} rk ?rk1"
      using rk_rel_refl [OF assms(2)] rk_rel_user
      by (auto simp: sqliterkNotify_onBeginParseBtree_def split: option.split)
    from 2 obtain rk2 where p: "f ?b (sqliterkPageGetPageno (rootpage ?b)) ?rk1 = Ret (rc, rk2)"
      and rk': "rk' = sqliterkNotify_onEndParseBtree ?b rc rk2"
      by (auto simp: sqliterkBtreeParse_def elim!: cbind_RetE)
    have r2: "rk_rel 0 {} ?rk1 rk2 \<and> rc \<noteq> SQLITERK_CANCELLED"
      using parser_okD [OF assms(1) rk_relD [OF r1] _ p] by simp
    then have "rk_rel 0 {} rk rk2" using rk_rel_trans [OF r1] by fastforce
    then show ?thesis using r2 rk_rel_user
      by (auto simp: rk' sqliterkNotify_onEndParseBtree_def split: option.split)
  qed
qed

lemma parse_subtree_rel:
  assumes "parser_ok f" "rk_ok rk" "parse_subtree env f type name no rk = Ret rk'"
  shows "rk_rel 0 {} rk rk'"
proof -
  obtain p where p: "rpager rk = Some p" "pager_wf p" "codec p = None" "outcomes (rheap rk) = []"
    using assms(2) by (rule rk_okE)
  from assms(3) p obtain r h1 where o: "sqliterkBtreeOpen env (Some p) no (rheap rk) = Ret (r, h1)"
    by (auto simp: parse_subtree_def elim!: cbind_RetE)
  note q = btree_open_quiet [OF p(4,3) o]
  let ?rk1 = "rk\<lparr>rheap := h1\<rparr>"
  have r1: "rk_rel (case r of Inl _ \<Rightarrow> 0 | Inr b \<Rightarrow> btree_blocks b) {} rk ?rk1"
    using rk_ok_heap [OF assms(2), of h1] q by simp
  show ?thesis
  proof (cases r)
    case (Inl rc)
    then show ?thesis using assms(3) p o r1 by (auto simp: parse_subtree_def)
  next
    case (Inr b)
    from assms(3) p o Inr obtain t len where t: "rd_bytes type 0 5 = Ret t" "c_strlen (Some name) = Ret len"
      by (auto simp: parse_subtree_def Let_def elim!: cbind_RetE)
    define bt where "bt = (if t = c_str ''table'' then btree_type_table
                 else if t = c_str ''index'' then btree_type_index else btree_type_unknown)"
    obtain rc2 b2 h2 where s: "sqliterkBtreeSetMeta (Some b) (Some (take (nat len) name)) bt h1 = (rc2, b2, h2)"
      by (metis prod_cases3)
    from assms(3) p o Inr t s obtain rc3 rk3 where 
      pb: "sqliterkParseBtree f (the b2) (?rk1\<lparr>rheap := h2\<rparr>) = Ret (rc3, rk3)" and
      rk': "rk' = rk3\<lparr>rheap := snd (sqliterkBtreeClose (Some (the b2)) (rheap rk3))\<rparr>"
      unfolding bt_def [symmetric] by (auto simp: parse_subtree_def Let_def bt_def [symmetric] elim!: cbind_RetE)
    note m = set_meta_quiet [OF conjunct1 [OF q] s]
    then obtain b3 where b3: "b2 = Some b3" "live h2 - live h1 = btree_blocks b3 - btree_blocks b" "outcomes h2 = []" by blast
    have r2: "rk_rel (btree_blocks b3) {} rk (?rk1\<lparr>rheap := h2\<rparr>)"
    proof -
      have "btree_blocks b + live h2 - live h1 = btree_blocks b3" using b3(2) by simp
      then show ?thesis using rk_rel_heap [OF r1, of h2] b3(3) Inr by simp
    qed
    have r3: "rk_rel (btree_blocks b3) {} rk rk3"
      using rk_rel_trans [OF r2 conjunct1 [OF parse_btree_rel [OF assms(1) rk_relD [OF r2] pb]]] by simp
    then show ?thesis
      using rk_rel_heap [OF r3, of "snd (sqliterkBtreeClose (Some b3) (rheap rk3))"] r3 b3
      by (simp add: rk' btree_close_live rk_rel_def rk_ok_def)
  qed
qed


lemma column_recurse_rel:
  assumes "parser_ok f" "rk_ok rk" "column_recurse env f btree column rk = Ret rk'"
  shows "rk_rel 0 {} rk rk'"
  using assms(3) rk_rel_refl [OF assms(2)]
  by (auto simp: column_recurse_def Let_def elim!: cbind_RetE
      intro: parse_subtree_rel [OF assms(1,2)] split: if_split_asm option.split_asm)

lemma discard_loop_rel:
  "rk_ok rk \<Longrightarrow> discard_loop os i k rk = Ret rk' \<Longrightarrow> rk_rel 0 {} rk rk'"
proof (induction os i k rk rule: discard_loop.induct)
  case (1 os i rk)
  then show ?case using rk_rel_refl by simp
next
  case (2 os i k rk)
  from 2(3) obtain no rk1 where s: "set_page_status no st_discarded rk = Ret rk1" "discard_loop os (Suc i) k rk1 = Ret rk'"
    "sqliterkValuesGetInteger os (int i) = Ret no"
    by (auto elim!: cbind_RetE)
  have r: "rk_rel 0 {} rk rk1" using set_page_status_rel [OF 2(2) s(1)] by simp
  have "rk_rel 0 {} rk1 rk'" using "2.IH" s r by blast
  then show ?case using rk_rel_trans [OF r] by fastforce
qed

lemma on_column_ok: "parser_ok f \<Longrightarrow> handler_ok (sqliterkNotify_onParseColumn env f)"
  unfolding handler_ok_def
proof (intro allI impI)
  fix btree page column rk rc rk'
  assume f: "parser_ok f" and rk: "rk_ok rk" and h: "sqliterkNotify_onParseColumn env f btree page column rk = Ret (rc, rk')"
  show "rk_rel 0 {} rk rk' \<and> rc \<noteq> SQLITERK_CANCELLED"
  proof (cases "onParseColumn (rnotify rk)")
    case None
    then have "column_recurse env f btree column rk = Ret rk'" "rc = SQLITERK_OK"
      using h by (auto simp: sqliterkNotify_onParseColumn_def elim!: cbind_RetE)
    then show ?thesis using column_recurse_rel [OF f rk] by simp
  next
    case (Some g)
    obtain result u where g: "g (userdata rk) btree column = (result, u)" by (cases "g (userdata rk) btree column")
    have "\<forall>u b c. fst (g u b c) \<noteq> SQLITERK_CANCELLED" using rk Some by (simp add: rk_ok_def)
    then have "fst (g (userdata rk) btree column) \<noteq> SQLITERK_CANCELLED" by blast
    then have c: "result \<noteq> SQLITERK_CANCELLED" using g by simp
    let ?rk1 = "rk\<lparr>userdata := u\<rparr>"
    have r1: "rk_rel 0 {} rk ?rk1" using rk_rel_user [OF rk_rel_refl [OF rk]] .
    from h Some g c obtain rk2 where
      d: "(if result \<noteq> SQLITERK_OK then
                cbind (set_page_status (sqliterkPageGetPageno (Some page)) st_discarded ?rk1) (\<lambda>rk.
                  let os = sqliterkColumnGetOverflowPages (Some column) in
                  discard_loop os 0 (nat (sqliterkValuesGetCount os)) rk)
              else Ret ?rk1) = Ret rk2" (is "?d = _")
      and e: "column_recurse env f btree column rk2 = Ret rk'" "rc = result"
      by (auto simp: sqliterkNotify_onParseColumn_def Let_def elim!: cbind_RetE)
    have r2: "rk_rel 0 {} ?rk1 rk2"
    proof (cases "result = SQLITERK_OK")
      case True
      then show ?thesis using d rk_rel_refl [OF rk_relD [OF r1]] by simp
    next
      case False
      then obtain rk3 where s: "set_page_status (sqliterkPageGetPageno (Some page)) st_discarded ?rk1 = Ret rk3" and
        l: "discard_loop (sqliterkColumnGetOverflowPages (Some column)) 0
          (nat (sqliterkValuesGetCount (sqliterkColumnGetOverflowPages (Some column)))) rk3 = Ret rk2"
        using d by (auto simp: Let_def elim!: cbind_RetE)
      have r3: "rk_rel 0 {} ?rk1 rk3" using set_page_status_rel [OF rk_relD [OF r1] s] by simp
      show ?thesis using rk_rel_trans [OF r3 discard_loop_rel [OF rk_relD [OF r3] l]] by simp
    qed
    have "rk_rel 0 {} rk2 rk'" using column_recurse_rel [OF f rk_relD [OF r2] e(1)] .
    then have "rk_rel (0 + 0 + 0) ({} \<union> {} \<union> {}) rk rk'" using r1 r2 by (intro rk_rel_trans) auto
    then show ?thesis using c e(2) by simp
  qed
qed

lemma children_loop_rel:
  "parser_ok f \<Longrightarrow> bnotify btree \<Longrightarrow> rk_ok rk \<Longrightarrow> children_loop (f btree) nos rk = Ret rk' \<Longrightarrow> rk_rel 0 {} rk rk'"
proof (induction nos arbitrary: rk)
  case Nil then show ?case using rk_rel_refl by simp
next
  case (Cons no nos)
  from Cons.prems(4) obtain rc rk1 where p: "f btree no rk = Ret (rc, rk1)"
    and l: "(if rc = SQLITERK_CANCELLED then Ret rk1 else children_loop (f btree) nos rk1) = Ret rk'"
    by (auto elim!: cbind_RetE)
  note r1 = parser_okD [OF Cons.prems(1) Cons.prems(3) Cons.prems(2) p]
  have "rk_rel 0 {} rk1 rk'" using l r1 Cons.IH [OF Cons.prems(1,2), of rk1] by auto
  then show ?case using rk_rel_trans [OF conjunct1 [OF r1]] by fastforce
qed

lemma parse_interior_rel:
  assumes "parser_ok f" "bnotify btree" "rk_ok rk" "pdata page \<noteq> None"
    "parse_interior (f btree) page cells rk = Ret (rc, page', rk')"
  shows "rk_rel (- 2) {} rk rk' \<and> rc = SQLITERK_OK \<and> pdata page' = None"
proof -
  have o: "outcomes (rheap rk) = []" using assms(3) by (simp add: rk_ok_def)
  let ?h1 = "(rheap rk)\<lparr>live := live (rheap rk) + 1\<rparr>"
  let ?rk1 = "rk\<lparr>rheap := c_free (c_free ?h1)\<rparr>"
  from assms(4,5) obtain rk2 nos where l: "children_loop (f btree) nos ?rk1 = Ret rk2"
    and rk': "rk' = rk2\<lparr>rheap := c_free (rheap rk2)\<rparr>" "rc = SQLITERK_OK" "page' = page\<lparr>pdata := None\<rparr>"
    by (auto simp: parse_interior_def c_alloc_no_oom [OF o] Let_def sqliterkPageClearData_def elim!: cbind_RetE)
  have r1: "rk_rel (- 1) {} rk ?rk1" using rk_ok_heap [OF assms(3), of "c_free (c_free ?h1)"] o by simp
  have "rk_rel (- 1 + 0) ({} \<union> {}) rk rk2"
    using r1 children_loop_rel [OF assms(1,2) rk_relD [OF r1] l] by (rule rk_rel_trans)
  from rk_rel_free [OF this] show ?thesis by (simp add: rk')
qed

lemma cell_pointers_quiet:
  assumes "outcomes h = []" "cell_pointers pager page h = Ret (r, h')"
  shows "outcomes h' = [] \<and> (case r of Inl rc \<Rightarrow> rc = SQLITERK_DAMAGED \<and> live h' = live h | Inr cells \<Rightarrow> live h' = live h + 1)"
  using assms by (auto simp: cell_pointers_def Let_def c_alloc_no_oom elim!: cbind_RetE split: if_split_asm)

definition page_blocks :: "sqliterk_page option \<Rightarrow> int" where
  "page_blocks page = (case page of None \<Rightarrow> 0 | Some pg \<Rightarrow> if pdata pg = None then 1 else 2)"

lemma page_body_rel:
  assumes "parser_ok f" "bnotify btree" "rk_ok rk" "page_body n env f btree no rk = Ret (rc, page, rk')"
  shows "rk_rel (page_blocks page) {} rk rk' \<and> rc \<noteq> SQLITERK_CANCELLED"
proof -
  obtain p where p: "rpager rk = Some p" "pager_wf p" "codec p = None" "outcomes (rheap rk) = []"
    using assms(3) by (rule rk_okE)
  from assms(4) p obtain r h1 where a: "sqliterkPageAcquireOne env (Some p) no unknown (rheap rk) = Ret (r, h1)"
    by (auto simp: page_body_def sqliterkPageAcquire_def elim!: cbind_RetE)
  note q = acquire_quiet [OF p(4) a p(3)]
  let ?rk1 = "rk\<lparr>rheap := h1\<rparr>"
  have r1: "rk_rel (case r of Inl _ \<Rightarrow> 0 | Inr _ \<Rightarrow> 2) {} rk ?rk1"
    using rk_ok_heap [OF assms(3), of h1] q by simp
  show ?thesis
  proof (cases r)
    case (Inl e)
    then show ?thesis using assms(4) p a r1 q by (auto simp: page_body_def sqliterkPageAcquire_def page_blocks_def)
  next
    case (Inr pg)
    have pd: "pdata pg \<noteq> None" using q Inr by simp
    show ?thesis
    proof (cases "ptype pg \<in> {interior_index, interior_table, leaf_index, leaf_table}")
      case False
      then have "rc = SQLITERK_DAMAGED" "page = Some pg" "rk' = ?rk1"
        using assms(4) p a Inr by (auto simp: page_body_def sqliterkPageAcquire_def sqliterkPageGetType_def)
      then show ?thesis using r1 Inr pd by (auto simp: page_blocks_def)
    next
      case True
      from assms(4) p a Inr True obtain r2 h2 where c: "cell_pointers (Some p) pg h1 = Ret (r2, h2)"
        by (auto simp: page_body_def sqliterkPageAcquire_def sqliterkPageGetType_def Let_def elim!: cbind_RetE)
      note cq = cell_pointers_quiet [OF conjunct1 [OF q] c]
      let ?rk2 = "rk\<lparr>rheap := h2\<rparr>"
      have r2: "rk_rel (case r2 of Inl _ \<Rightarrow> 2 | Inr _ \<Rightarrow> 3) {} rk ?rk2"
        using rk_ok_heap [OF assms(3), of h2] q cq Inr by (auto split: sum.splits)
      show ?thesis
      proof (cases r2)
        case e: (Inl e)
        then have "rc = e" "page = Some pg" "rk' = ?rk2"
          using assms(4) p a Inr True c by (auto simp: page_body_def sqliterkPageAcquire_def sqliterkPageGetType_def Let_def)
        then show ?thesis using r2 cq e pd by (auto simp: page_blocks_def)
      next
        case cells: (Inr cells)
        note ok2 = rk_relD [OF r2]
        from assms(4) p a Inr True c cells obtain pg' where
          m: "(case ptype pg of
             leaf_table \<Rightarrow> parse_leaf_table n env (sqliterkNotify_onParseColumn env f) btree pg cells ?rk2
           | leaf_index \<Rightarrow> Ret (SQLITERK_OK, pg, ?rk2\<lparr>rheap := c_free (rheap ?rk2)\<rparr>)
           | _ \<Rightarrow> parse_interior (f btree) pg cells ?rk2) = Ret (rc, pg', rk')" and pg': "page = Some pg'"
          by (auto simp: page_body_def sqliterkPageAcquire_def sqliterkPageGetType_def Let_def elim!: cbind_RetE)
        have li: "rk_rel (- 1) {} ?rk2 (?rk2\<lparr>rheap := c_free (rheap ?rk2)\<rparr>)"
          using rk_rel_free [OF rk_rel_refl [OF ok2]] by simp
        have lt: "rk_rel (- 1) {} ?rk2 rk' \<and> rc \<noteq> SQLITERK_CANCELLED \<and> pg' = pg"
          if lf: "parse_leaf_table n env (sqliterkNotify_onParseColumn env f) btree pg cells ?rk2 = Ret (rc, pg', rk')"
        proof -
          obtain rk3 where "(if sqliterkBtreeIsSystemType (sqliterkBtreeGetType (Some btree)) \<and> btype btree \<noteq> btree_type_master
            then Ret (SQLITERK_OK, ?rk2)
            else sqliterkBtreeParseCell n env (sqliterkNotify_onParseColumn env f) btree pg cells ?rk2) = Ret (rc, rk3)"
            and rk3: "rk' = rk3\<lparr>rheap := c_free (rheap rk3)\<rparr>" "pg' = pg"
            using lf by (auto simp: parse_leaf_table_def elim!: cbind_RetE)
          then have "rk_rel 0 {} ?rk2 rk3 \<and> rc \<noteq> SQLITERK_CANCELLED"
            using rk_rel_refl [OF ok2] parse_cell_rel [OF ok2 on_column_ok [OF assms(1)]] by (auto split: if_split_asm)
          then show ?thesis using rk_rel_free [of 0 "{}" ?rk2 rk3] rk3 by simp
        qed
        have "rk_rel (page_blocks (Some pg') - 3) {} ?rk2 rk' \<and> rc \<noteq> SQLITERK_CANCELLED"
          using m True lt li parse_interior_rel [OF assms(1,2) ok2 pd, of cells rc pg' rk'] pd
          by (auto simp: page_blocks_def)
        then show ?thesis using rk_rel_trans [OF r2] cells pg' by fastforce
      qed
    qed
  qed
qed

lemma parse_page_ok: "parser_ok (sqliterkBtreeParsePage n env :: ('c, 'u) page_parser)"
proof (induction n)
  case 0
  then show ?case by (simp add: parser_ok_def)
next
  case (Suc n)
  show ?case unfolding parser_ok_def
  proof (intro allI impI)
    fix btree no rc and rk rk' :: "('c, 'u) sqliterk"
    assume rk: "rk_ok rk" and b: "bnotify btree" and h: "sqliterkBtreeParsePage (Suc n) env btree no rk = Ret (rc, rk')"
    show "rk_rel 0 {} rk rk' \<and> rc \<noteq> SQLITERK_CANCELLED"
    proof (cases "no > sqliterkPagerGetPageCount (rpager rk)")
      case True
      then show ?thesis using h rk_rel_refl [OF rk] by simp
    next
      case False
      then obtain rc1 rk1 where n1: "notify_begin_page btree no rk = Ret (rc1, rk1)"
        using h by (auto elim!: cbind_RetE)
      note r1 = begin_page_rel [OF rk n1]
      show ?thesis
      proof (cases "rc1 = SQLITERK_OK")
        case e: False
        then show ?thesis using h False n1 r1 by auto
      next
        case True
        then obtain rc2 page rk2 rk3 where p: "page_body n env (sqliterkBtreeParsePage n env) btree no rk1 = Ret (rc2, page, rk2)"
          and e: "notify_end_page btree no rc2 rk2 = Ret rk3"
          and rk': "rk' = (if page \<noteq> None then rk3\<lparr>rheap := snd (sqliterkPageRelease page (rheap rk3))\<rparr> else rk3)" "rc = rc2"
          using h False n1 by (auto elim!: cbind_RetE)
        note r2 = page_body_rel [OF Suc.IH b rk_relD [OF conjunct1 [OF r1]] p]
        note r3 = end_page_rel [OF rk_relD [OF conjunct1 [OF r2]] e conjunct2 [OF r2]]
        have "rk_rel (0 + page_blocks page + 0) ({no} \<union> {} \<union> {}) rk rk3"
          using r1 r2 r3 True b by (intro rk_rel_trans) auto
        then have "rk_rel (page_blocks page) {} rk rk3" using rk_rel_remove r3 b by fastforce
        then have "rk_rel 0 {} rk rk'"
          using rk_rel_free [of "page_blocks page" "{}" rk rk3]
            rk_rel_free [of "page_blocks page - 1" "{}" rk "rk3\<lparr>rheap := c_free (rheap rk3)\<rparr>"]
          by (auto simp: rk' page_blocks_def release_live split: option.split_asm if_split_asm)
        then show ?thesis using rk' r2 by simp
      qed
    qed
  qed
qed


lemma rk_parse_page_rel:
  assumes "rk_ok rk" "sqliterkParsePage n env (Some rk) no = Ret (rc, r)"
  shows "\<exists>rk'. r = Some rk' \<and> rk_rel 0 {} rk rk' \<and> rc \<noteq> SQLITERK_CANCELLED"
proof -
  obtain p where p: "rpager rk = Some p" "pager_wf p" "codec p = None" "outcomes (rheap rk) = []"
    using assms(1) by (rule rk_okE)
  show ?thesis
  proof (cases "status_of p no = st_unchecked")
    case False
    then have "r = Some rk" "rc = SQLITERK_OK" using assms p by (auto simp: sqliterkParsePage_def get_status)
    then show ?thesis using rk_rel_refl [OF assms(1)] by simp
  next
    case True
    from assms(2) p True obtain q h1 where o: "sqliterkBtreeOpen env (Some p) no (rheap rk) = Ret (q, h1)"
      by (auto simp: sqliterkParsePage_def get_status elim!: cbind_RetE)
    note oq = btree_open_quiet [OF p(4,3) o]
    let ?rk1 = "rk\<lparr>rheap := h1\<rparr>"
    have r1: "rk_rel (case q of Inl _ \<Rightarrow> 0 | Inr b \<Rightarrow> btree_blocks b) {} rk ?rk1"
      using rk_ok_heap [OF assms(1), of h1] oq by simp
    show ?thesis
    proof (cases q)
      case (Inl e)
      then show ?thesis using assms(2) p True o r1 oq by (auto simp: sqliterkParsePage_def get_status)
    next
      case (Inr b)
      from assms(2) p True o Inr obtain rk2 where
        pb: "sqliterkParseBtree (sqliterkBtreeParsePage n env) b ?rk1 = Ret (rc, rk2)" and
        r: "r = Some (rk2\<lparr>rheap := snd (sqliterkBtreeClose (Some b) (rheap rk2))\<rparr>)"
        by (auto simp: sqliterkParsePage_def get_status elim!: cbind_RetE)
      note r2 = parse_btree_rel [OF parse_page_ok rk_relD [OF r1] pb]
      have r12: "rk_rel (btree_blocks b) {} rk rk2" using rk_rel_trans [OF r1 conjunct1 [OF r2]] Inr by simp
      then have "outcomes (rheap rk2) = []" by (simp add: rk_rel_def rk_ok_def)
      then show ?thesis
        using rk_rel_heap [OF r12, of "snd (sqliterkBtreeClose (Some b) (rheap rk2))"] r r2
        by (simp add: btree_close_live)
    qed
  qed
qed

lemma parse_loop_rel:
  "rk_ok rk \<Longrightarrow> parse_loop n env i k (Some rk) = Ret r \<Longrightarrow> \<exists>rk'. r = Some rk' \<and> rk_rel 0 {} rk rk'"
proof (induction k arbitrary: i rk)
  case 0 then show ?case using rk_rel_refl [of rk] by auto
next
  case (Suc k)
  from Suc.prems(2) obtain rc r1 where p: "sqliterkParsePage n env (Some rk) (int i + 1) = Ret (rc, r1)"
    and l: "parse_loop n env (Suc i) k r1 = Ret r" by (auto elim!: cbind_RetE)
  from rk_parse_page_rel [OF Suc.prems(1) p] obtain rk1 where r1: "r1 = Some rk1" "rk_rel 0 {} rk rk1" by blast
  from Suc.IH [OF rk_relD [OF r1(2)] l [unfolded r1(1)]] show ?case using rk_rel_trans [OF r1(2)] by fastforce
qed

section \<open>The bound plays no part\<close>

text \<open>The bound on the depth and on the overflow chains decides only whether the walk comes to an end: with a larger bound a
  function of the walk either still gives what it gave or it had reached the bound before.\<close>

definition bounded_by :: "'a cres \<Rightarrow> 'a cres \<Rightarrow> bool" where
  "bounded_by x y = (x = Diverge \<or> y = x)"

lemma bounded_refl [simp]: "bounded_by x x" "bounded_by Diverge x"
  by (simp_all add: bounded_by_def)

lemma bounded_bind: "bounded_by x y \<Longrightarrow> (\<And>v. bounded_by (f v) (g v)) \<Longrightarrow> bounded_by (cbind x f) (cbind y g)"
  by (cases x) (auto simp: bounded_by_def)

named_theorems bound_intros

lemma bounded_cases [bound_intros]:
  "(b \<Longrightarrow> bounded_by x x') \<Longrightarrow> (\<not> b \<Longrightarrow> bounded_by y y') \<Longrightarrow> bounded_by (if b then x else y) (if b then x' else y')"
  "bounded_by e e' \<Longrightarrow> (\<And>v. bounded_by (f v) (f' v)) \<Longrightarrow>
    bounded_by (case ov of None \<Rightarrow> e | Some v \<Rightarrow> f v) (case ov of None \<Rightarrow> e' | Some v \<Rightarrow> f' v)"
  "(\<And>v. bounded_by (h v) (h' v)) \<Longrightarrow> (\<And>v. bounded_by (k v) (k' v)) \<Longrightarrow>
    bounded_by (case s of Inl v \<Rightarrow> h v | Inr v \<Rightarrow> k v) (case s of Inl v \<Rightarrow> h' v | Inr v \<Rightarrow> k' v)"
  "(\<And>u w. bounded_by (m u w) (m' u w)) \<Longrightarrow> bounded_by (case p of (u, w) \<Rightarrow> m u w) (case p of (u, w) \<Rightarrow> m' u w)"
  "bounded_by x1 y1 \<Longrightarrow> bounded_by x2 y2 \<Longrightarrow> bounded_by x3 y3 \<Longrightarrow> bounded_by x4 y4 \<Longrightarrow> bounded_by x5 y5 \<Longrightarrow>
    bounded_by x6 y6 \<Longrightarrow>
    bounded_by
      (case t of interior_index \<Rightarrow> x1 | interior_table \<Rightarrow> x2 | leaf_index \<Rightarrow> x3 | leaf_table \<Rightarrow> x4 | overflow \<Rightarrow> x5 | unknown \<Rightarrow> x6)
      (case t of interior_index \<Rightarrow> y1 | interior_table \<Rightarrow> y2 | leaf_index \<Rightarrow> y3 | leaf_table \<Rightarrow> y4 | overflow \<Rightarrow> y5 | unknown \<Rightarrow> y6)"
  by (auto split: option.split sum.split prod.split page_type.split)

lemmas [bound_intros] = bounded_refl bounded_bind

lemma overflow_bound:
  "bounded_by (overflow_loop n env btree payloadSize no data ptr column rk)
     (overflow_loop (Suc n) env btree payloadSize no data ptr column rk)"
proof (induction n arbitrary: no data ptr column rk)
  case (Suc n)
  note [simp del] = overflow_loop.simps(2)
  show ?case by (subst (1 2) overflow_loop.simps(2), unfold Let_def) (intro bound_intros Suc.IH)
qed simp

lemma payload_bound:
  assumes "\<And>b page c rk. bounded_by (f b page c rk) (g b page c rk)"
  shows "bounded_by (sqliterkBtreeParsePayload n env f btree page offset payloadSize column rk)
    (sqliterkBtreeParsePayload (Suc n) env g btree page offset payloadSize column rk)"
  unfolding sqliterkBtreeParsePayload_def collect_payload_def Let_def
  by (intro bound_intros overflow_bound assms)

lemma cell_bound:
  assumes "\<And>b page c rk. bounded_by (f b page c rk) (g b page c rk)"
  shows "bounded_by (cell_loop n env f btree page cells column rk) (cell_loop (Suc n) env g btree page cells column rk)"
proof (induction cells arbitrary: column rk)
  case (Cons offset cells)
  show ?case unfolding cell_loop.simps Let_def by (intro bound_intros payload_bound assms Cons.IH)
qed simp

lemma leaf_bound:
  assumes "\<And>b page c rk. bounded_by (f b page c rk) (g b page c rk)"
  shows "bounded_by (parse_leaf_table n env f btree page cells rk) (parse_leaf_table (Suc n) env g btree page cells rk)"
  unfolding parse_leaf_table_def sqliterkBtreeParseCell_def Let_def
  by (intro bound_intros cell_bound assms)

lemma children_bound:
  assumes "\<And>no rk. bounded_by (f no rk) (g no rk)"
  shows "bounded_by (children_loop f nos rk) (children_loop g nos rk)"
proof (induction nos arbitrary: rk)
  case (Cons no nos)
  show ?case unfolding children_loop.simps by (intro bound_intros assms Cons.IH)
qed simp

lemma btree_bound:
  assumes "\<And>b no rk. bounded_by (f b no rk) (g b no rk)"
  shows "bounded_by (sqliterkParseBtree f btree rk) (sqliterkParseBtree g btree rk)"
  unfolding sqliterkParseBtree_def sqliterkBtreeParse_def Let_def by (intro bound_intros assms)

lemma column_bound:
  assumes "\<And>b no rk. bounded_by (f b no rk) (g b no rk)"
  shows "bounded_by (sqliterkNotify_onParseColumn env f btree page column rk)
    (sqliterkNotify_onParseColumn env g btree page column rk)"
  unfolding sqliterkNotify_onParseColumn_def column_recurse_def parse_subtree_def Let_def
  by (intro bound_intros btree_bound assms)

lemma page_bound:
  assumes "\<And>b no rk. bounded_by (f b no rk) (g b no rk)"
  shows "bounded_by (page_body n env f btree no rk) (page_body (Suc n) env g btree no rk)"
  unfolding page_body_def parse_interior_def Let_def
  by (intro bound_intros leaf_bound column_bound children_bound assms)

lemma parse_page_bound:
  "bounded_by (sqliterkBtreeParsePage n env btree no rk) (sqliterkBtreeParsePage (Suc n) env btree no rk)"
proof (induction n arbitrary: btree no rk)
  case (Suc n)
  note [simp del] = sqliterkBtreeParsePage.simps(2)
  show ?case by (subst (1 2) sqliterkBtreeParsePage.simps(2)) (intro bound_intros page_bound Suc.IH)
qed simp

lemma parse_loop_bound: "bounded_by (parse_loop n env i k rk) (parse_loop (Suc n) env i k rk)"
proof (induction k arbitrary: i rk)
  case (Suc k)
  show ?case unfolding parse_loop.simps sqliterkParsePage_def Let_def
    by (intro bound_intros btree_bound parse_page_bound Suc.IH)
qed simp

lemma parse_bound_step: "bounded_by (sqliterkParse n env rk) (sqliterkParse (Suc n) env rk)"
  unfolding sqliterkParse_def by (intro bound_intros parse_loop_bound)

lemma parse_bound_irrelevant:
  assumes "sqliterkParse n env rk = Ret r" "n \<le> m"
  shows "sqliterkParse m env rk = Ret r"
  using assms(2)
proof (induction m rule: dec_induct)
  case (step m)
  then show ?case using parse_bound_step [of m env rk] by (simp add: bounded_by_def)
qed (rule assms(1))

section \<open>The whole database\<close>

text \<open>C3: parsing a whole plain database, whatever its bytes, keeps the repair object intact, under three
  conditions: memory does not run out, the user's callback, if there is one, does not cancel, and the run returns (the
  code follows an overflow chain that is a cycle for ever and reads past the end of a short \<^verbatim>\<open>type\<close> text, so not every
  run does; the bound \<open>n\<close> of the model plays no part, every larger one gives the same run). Such a run has released every block it allocated, has left the settings of the object and the pager of the
  database as they were but for the page statuses and the integrity flag \<^verbatim>\<open>SQLITERK_INTEGRITY_DATA\<close>, which it may set
  and never resets, and has left no page in the state \<^verbatim>\<open>checking\<close> that was not in it before.\<close>

theorem parse_safe:
  assumes "outcomes (rheap rk) = []" "rpager rk = Some p" "pager_wf p" "codec p = None"
    and "\<And>f u b c. onParseColumn (rnotify rk) = Some f \<Longrightarrow> fst (f u b c) \<noteq> SQLITERK_CANCELLED"
    and "sqliterkParse n env (Some rk) = Ret (rc, r)"
  shows "\<exists>rk' p'. r = Some rk' \<and> rc = SQLITERK_OK \<and> rpager rk' = Some p' \<and> pager_wf p' \<and> same_db p p' \<and>
    rnotify rk' = rnotify rk \<and> recursive rk' = recursive rk \<and> ruserInfo rk' = ruserInfo rk \<and>
    live (rheap rk') = live (rheap rk) \<and>
    (\<forall>no. status_of p' no = st_checking \<longrightarrow> status_of p no = st_checking) \<and>
    (\<forall>m \<ge> n. sqliterkParse m env (Some rk) = Ret (rc, r))"
proof -
  have ok: "rk_ok rk" using assms(1-5) by (auto simp: rk_ok_def split: option.split)
  obtain r1 where l: "parse_loop n env 0 (nat (sqliterkPagerGetPageCount (rpager rk))) (Some rk) = Ret r1" "r = r1" "rc = SQLITERK_OK"
    using assms(6) by (auto simp: sqliterkParse_def elim!: cbind_RetE)
  from parse_loop_rel [OF ok l(1)] obtain rk' where "r = Some rk'" "rk_rel 0 {} rk rk'" using l by blast
  moreover from this obtain p' where "rpager rk' = Some p'" "pager_wf p'" using rk_okE by blast
  moreover have "\<forall>m \<ge> n. sqliterkParse m env (Some rk) = Ret (rc, r)"
    using parse_bound_irrelevant [OF assms(6)] by blast
  ultimately show ?thesis using l assms(2) by (auto simp: rk_rel_def being_checked_def)
qed

text \<open>The one-page database of \<^verbatim>\<open>RK_Pager\<close>, opened, without callbacks. Its only page has no cells, which
  the page parser reports as damage.\<close>

definition sample_rk :: "(unit, unit) sqliterk" where
  "sample_rk = \<lparr>rpager = Some db_pager, rnotify = zero_notify, ruserInfo = 0, recursive = True,
     userdata = (), rheap = \<lparr>outcomes = [], live = 5\<rparr>\<rparr>"

lemma sample_parse:
  "(case sqliterkParse 5 db_env (Some sample_rk) of
      Ret (rc, Some rk) \<Rightarrow> Option.bind (rpager rk) pagesStatus | _ \<Rightarrow> None) =
    Some [st_damaged, st_unchecked]"
  by code_simp

theorem parse_safe_witness:
  "\<exists>rk' p'. sqliterkParse 5 db_env (Some sample_rk) = Ret (SQLITERK_OK, Some rk') \<and> rpager rk' = Some p' \<and>
     live (rheap rk') = 5 \<and> status_of p' 1 = st_damaged \<and> integrity p' \<in> {integrity db_pager, integrity db_pager OR 2}"
proof -
  obtain rc rk p where r: "sqliterkParse 5 db_env (Some sample_rk) = Ret (rc, Some rk)"
    and p: "rpager rk = Some p" "pagesStatus p = Some [st_damaged, st_unchecked]"
    using sample_parse
    by (auto simp: bind_eq_Some_conv split: cres.split_asm prod.split_asm option.split_asm)
  have "pager_wf db_pager" by (simp add: pager_wf_def db_pager_def)
  then show ?thesis
    using parse_safe [OF _ _ _ _ _ r, of db_pager] r p
    by (auto simp: sample_rk_def zero_notify_def db_pager_def status_of_def sqliterkPagerGetStatus_def
        same_db_def rd_def valid_pageno_def)
qed

end
