(* ===== verification/RK_Recover.thy ===== *)
theory RK_Recover
  imports RK_Safety
begin

unbundle bit_operations_syntax

text \<open>
  What the walk over the pages delivers. The first section describes how a table lies in a database file,
  after the SQLite file format: interior pages, leaf pages, cells, records and overflow chains, as executable predicates
  on the bytes of the pages. The lemmas that follow go through the functions of \<^verbatim>\<open>RK_Walk\<close> one by one and show that
  each returns and what it has then delivered, as the relation \<open>walked\<close>: the rows handed to the
  callback, and the pages marked as checked. They rest on the same assumptions as \<^verbatim>\<open>RK_Safety\<close>: memory does
  not run out, reads do not fail and the callback does not cancel.
\<close>

section \<open>A table in the file\<close>

definition page_bytes :: "'c sqliterk_pager \<Rightarrow> int \<Rightarrow> byte list" where
  "page_bytes p no = take (nat (pagesize p)) (drop (nat ((no - 1) * pagesize p)) (fdata (the (pfile p))))"

definition bytes_at :: "byte list \<Rightarrow> int \<Rightarrow> byte list \<Rightarrow> bool" where
  "bytes_at d off bs = (0 \<le> off \<and> off + int (length bs) \<le> int (length d) \<and> take (length bs) (drop (nat off) d) = bs)"

text \<open>The big-endian number in the \<open>n\<close> bytes at an offset.\<close>

definition be_at :: "byte list \<Rightarrow> nat \<Rightarrow> int \<Rightarrow> int" where
  "be_at d n off = be_value (take n (drop (nat off) d))"

text \<open>A row: its rowid, the header size and the fields of its record, and the overflow pages its
  payload goes on to.\<close>

record row =
  row_id :: int
  row_header :: int
  row_fields :: "(int \<times> byte list) list"
  row_chain :: "int list"

definition payload :: "row \<Rightarrow> byte list" where
  "payload r = record_bytes (row_header r) (row_fields r)"

definition row_items :: "row \<Rightarrow> item list" where
  "row_items r = map (\<lambda>(st, bs). the (decode_value st bs)) (row_fields r)"

definition row_ok :: "row \<Rightarrow> bool" where
  "row_ok r = (0 \<le> row_id r \<and> row_id r < 2 ^ 56 \<and> length (payload r) < 2 ^ 30 \<and>
     row_header r = int (length (record_header (row_header r) (row_fields r))) \<and>
     list_all (\<lambda>(st, bs). st < 2 ^ 31 \<and> decode_value st bs \<noteq> None) (row_fields r) \<and>
     length (row_fields r) < 2 ^ 25 \<and> length (row_chain r) < 2 ^ 25)"

text \<open>How much of a payload of \<open>P\<close> bytes stays on a leaf page with \<open>U\<close> usable bytes.\<close>

definition local_bytes :: "int \<Rightarrow> int \<Rightarrow> int" where
  "local_bytes U P =
     (if P \<le> U - 35 then P
      else let M = (U - 12) * 32 div 255 - 23; K = M + (P - M) mod (U - 4) in
        if K \<le> U - 35 then K else M)"

definition on_disk :: "'c sqliterk_pager \<Rightarrow> int \<Rightarrow> bool" where
  "on_disk p no = (valid_pageno p no \<and> no * pagesize p \<le> int (length (fdata (the (pfile p)))) \<and> (no - 1) * pagesize p < 2 ^ 31)"

text \<open>The overflow pages \<open>nos\<close> hold \<open>bs\<close>; \<open>next\<close> is the page number that leads to the first of them.\<close>

fun chain_at :: "'c sqliterk_pager \<Rightarrow> int list \<Rightarrow> byte list \<Rightarrow> int \<Rightarrow> bool" where
  "chain_at p [] bs next = (bs = [] \<and> next = 0)"
| "chain_at p (no # nos) bs next =
     (let d = page_bytes p no; m = nat (usableSize p - 4) in
      next = no \<and> on_disk p no \<and> bs \<noteq> [] \<and> bytes_at d 4 (take m bs) \<and> be_at d 4 0 < 2 ^ 31 \<and>
      chain_at p nos (drop m bs) (be_at d 4 0))"

definition cell_prefix :: "row \<Rightarrow> byte list" where
  "cell_prefix r = put_serial (int (length (payload r))) @ put_serial (row_id r)"

definition cell_at :: "'c sqliterk_pager \<Rightarrow> byte list \<Rightarrow> int \<Rightarrow> row \<Rightarrow> bool" where
  "cell_at p d off r =
     (let P = int (length (payload r)); L = local_bytes (usableSize p) P;
          end_local = off + int (length (cell_prefix r)) + L in
      bytes_at d off (cell_prefix r @ take (nat L) (payload r)) \<and>
      (if L < P then end_local + 4 \<le> int (length d) \<and> be_at d 4 end_local < 2 ^ 31 \<and>
         chain_at p (row_chain r) (drop (nat L) (payload r)) (be_at d 4 end_local)
       else row_chain r = []))"

datatype table = Leaf int "row list" | Node int "table list"

fun root_of :: "table \<Rightarrow> int" where
  "root_of (Leaf no rows) = no"
| "root_of (Node no ts) = no"

fun rows_of :: "table \<Rightarrow> row list" where
  "rows_of (Leaf no rows) = rows"
| "rows_of (Node no ts) = concat (map rows_of ts)"

fun pages_of :: "table \<Rightarrow> int list" where
  "pages_of (Leaf no rows) = no # concat (map row_chain rows)"
| "pages_of (Node no ts) = no # concat (map pages_of ts)"

definition leaf_at :: "'c sqliterk_pager \<Rightarrow> int \<Rightarrow> row list \<Rightarrow> bool" where
  "leaf_at p no rows =
     (let d = page_bytes p no; h = sqliterkPagenoHeaderOffset no in
      on_disk p no \<and> rows \<noteq> [] \<and> d ! nat h = 13 \<and> be_at d 2 (h + 3) = int (length rows) \<and>
      h + 8 + 2 * int (length rows) \<le> pagesize p \<and>
      list_all (\<lambda>(i, r). row_ok r \<and> cell_at p d (be_at d 2 (h + 8 + int i * 2)) r) (enumerate 0 rows))"

definition node_at :: "'c sqliterk_pager \<Rightarrow> int \<Rightarrow> int list \<Rightarrow> bool" where
  "node_at p no children =
     (let d = page_bytes p no in
      on_disk p no \<and> no \<noteq> 1 \<and> 2 \<le> length children \<and> d ! 0 = 5 \<and> be_at d 2 3 = int (length children - 1) \<and>
      12 + 2 * int (length children - 1) \<le> pagesize p \<and> be_at d 4 8 = last children \<and> last children < 2 ^ 31 \<and>
      list_all (\<lambda>(i, c). let off = be_at d 2 (12 + int i * 2) in
        off + 4 \<le> pagesize p \<and> be_at d 4 off = c \<and> c < 2 ^ 31) (enumerate 0 (butlast children)))"

fun stored :: "'c sqliterk_pager \<Rightarrow> table \<Rightarrow> bool" where
  "stored p (Leaf no rows) = leaf_at p no rows"
| "stored p (Node no ts) = (node_at p no (map root_of ts) \<and> list_all (stored p) ts)"

text \<open>What the walk needs of the pager: a plain file with a page size as opening leaves it.\<close>

definition plain_pager :: "'c sqliterk_pager \<Rightarrow> bool" where
  "plain_pager p = (pager_wf p \<and> codec p = None \<and> pfile p \<noteq> None \<and> 0 \<le> fd (the (pfile p)) \<and>
     512 \<le> pagesize p \<and> pagesize p \<le> 16384 \<and> 0 \<le> reservedBytes p \<and> reservedBytes p \<le> 127 \<and>
     usableSize p = pagesize p - reservedBytes p)"

section \<open>Reading numbers\<close>

lemma bytes_atE:
  assumes "bytes_at d off bs"
  obtains pre post where "d = pre @ bs @ post" "off = int (length pre)"
proof
  show "d = take (nat off) d @ bs @ drop (length bs) (drop (nat off) d)"
    using assms by (metis append_take_drop_id bytes_at_def)
  show "off = int (length (take (nat off) d))" using assms by (auto simp: bytes_at_def min_def)
qed

lemma bytes_at_append: "bytes_at d off (xs @ ys) \<Longrightarrow> bytes_at d off xs \<and> bytes_at d (off + int (length xs)) ys"
proof
  assume a: "bytes_at d off (xs @ ys)"
  then obtain pre post where d: "d = pre @ (xs @ ys) @ post" "off = int (length pre)" by (rule bytes_atE)
  show "bytes_at d off xs" using d by (simp add: bytes_at_def)
  have "nat (int (length pre) + int (length xs)) = length (pre @ xs)" by simp
  then show "bytes_at d (off + int (length xs)) ys" using d by (simp add: bytes_at_def)
qed

lemma parse_be:
  assumes "n \<in> {1, 2, 4}" "0 \<le> off" "off + int n \<le> int (length d)" "be_at d n off < 2 ^ (8 * n - 1)"
  shows "sqliterkParseInt (Some d) off (int n) = Ret (Inr (be_at d n off))"
proof -
  have "sqliterkParseInt64 (Some d) (int (nat off)) (int n) = Ret (Inr (signed_take_bit (8 * n - 1) (be_at d n off)))"
    unfolding be_at_def by (rule parse_int64_value) (use assms in auto)
  moreover have b: "0 \<le> be_at d n off" by (simp add: be_at_def be_value_bounds)
  moreover have "signed_take_bit (8 * n - 1) (be_at d n off) = be_at d n off"
    using b assms(4) by (intro signed_take_bit_int_eq_self) auto
  moreover have "c_int (be_at d n off) = be_at d n off"
  proof (rule c_int_id)
    have "(2::int) ^ (8 * n - 1) \<le> 2 ^ 31" using assms(1) by auto
    then show "be_at d n off < 2 ^ 31" using assms(4) by linarith
  qed (use b in auto)
  ultimately show ?thesis using assms by (auto simp: sqliterkParseInt_def)
qed

lemma be_at_bound: "be_at d n off < 256 ^ n"
proof -
  have "be_at d n off < 256 ^ length (take n (drop (nat off) d))" unfolding be_at_def by (rule be_value_bounds)
  also have "\<dots> \<le> 256 ^ n" by (intro power_increasing) auto
  finally show ?thesis .
qed

lemma page_bytes_length: "on_disk p no \<Longrightarrow> 0 < pagesize p \<Longrightarrow> length (page_bytes p no) = nat (pagesize p)"
proof -
  assume o: "on_disk p no" and s: "0 < pagesize p"
  have "0 \<le> (no - 1) * pagesize p" using o s by (simp add: on_disk_def valid_pageno_def)
  moreover have "(no - 1) * pagesize p + pagesize p \<le> int (length (fdata (the (pfile p))))"
    using o by (simp add: on_disk_def algebra_simps)
  ultimately show ?thesis by (simp add: page_bytes_def nat_le_iff)
qed

lemma acquire_stored:
  assumes "plain_pager p" "disk_ok env" "on_disk p no" "outcomes h = []"
  shows "sqliterkPageAcquireOne env (Some p) no ty h =
    Ret (Inr \<lparr>pageno = no, pdata = Some (page_bytes p no),
       ptype = (if ty = unknown then page_type_of (sint (page_bytes p no ! nat (sqliterkPagenoHeaderOffset no))) else ty)\<rparr>,
      h\<lparr>live := live h + 2\<rparr>)"
proof -
  obtain f where f: "pfile p = Some f" "0 \<le> fd f" using assms(1) by (auto simp: plain_pager_def)
  let ?off = "(no - 1) * pagesize p"
  have s: "0 < pagesize p" "512 \<le> pagesize p" using assms(1) by (auto simp: plain_pager_def)
  have o: "0 \<le> ?off" "?off < 2 ^ 31" "?off + pagesize p \<le> int (length (fdata f))" "valid_pageno p no"
    using assms(3) s f by (auto simp: on_disk_def valid_pageno_def algebra_simps)
  have r: "os_read env (Some f) ?off (nat (pagesize p)) = (SQLITERK_OK, page_bytes p no)"
    using os_file.read_full [of ?off "nat (pagesize p)" "fdata f" "env_script env"] o s f
    by (simp add: os_read_reader [OF assms(2) f(2)] page_bytes_def)
  have h: "nat (sqliterkPagenoHeaderOffset no) < length (page_bytes p no)" "0 \<le> sqliterkPagenoHeaderOffset no"
    using page_bytes_length [OF assms(3) s(1)] s by (auto simp: sqliterkPagenoHeaderOffset_def)
  have t: "sqliterkParseInt (Some (page_bytes p no)) (sqliterkPagenoHeaderOffset no) 1 =
      Ret (Inr (sint (page_bytes p no ! nat (sqliterkPagenoHeaderOffset no))))"
    using h sint_byte_range [of "page_bytes p no ! nat (sqliterkPagenoHeaderOffset no)"]
    by (simp add: sqliterkParseInt_def sqliterkParseInt64_def rd_def c_int_id nat_less_iff)
  have cd: "codec p = None" using assms(1) by (simp add: plain_pager_def)
  show ?thesis
    using assms(4) o s f r t cd
    by (simp add: sqliterkPageAcquireOne_def c_alloc_no_oom os_malloc_def page_offset_def c_arith_def
        sqliterkPageHeaderOffset_def need_def)
qed

section \<open>Values and columns\<close>

text \<open>An array that can grow without passing the range of \<^verbatim>\<open>int\<close>: the capacity stays below twice the
  largest count.\<close>

definition roomy :: "sqliterk_values \<Rightarrow> bool" where
  "roomy vs = (values_wf vs \<and> vcapacity vs \<le> 2 ^ 26)"

lemma items_length: "values_wf vs \<Longrightarrow> length (items vs) = nat (vcount vs)"
  by (auto simp: items_def values_wf_def split: option.splits)

lemma autogrow_capacity:
  assumes "values_wf vs" "sqliterkValuesAutoGrow (Some vs) h = Ret (0, Some vs', h')"
  shows "vcapacity vs' = (if vcount vs < vcapacity vs then vcapacity vs else 2 * vcapacity vs)"
proof -
  obtain ok h1 where "c_alloc h = (ok, h1)" by force
  then show ?thesis using assms
    by (auto simp: sqliterkValuesAutoGrow_def values_wf_def Let_def elim!: cbind_RetE
        split: if_split_asm option.split_asm)
qed

lemma values_add_capacity:
  assumes "values_wf vs" "values_add store (Some vs) h = Ret (0, Some vs', h')"
  shows "vcapacity vs' = (if vcount vs < vcapacity vs then vcapacity vs else 2 * vcapacity vs)"
proof -
  obtain vs1 h1 v h2 vs2 where g: "sqliterkValuesAutoGrow (Some vs) h = Ret (0, Some vs1, h1)"
    "put_slot vs1 v = Ret vs2" "vs' = vs2\<lparr>vcount := vcount vs2 + 1\<rparr>"
    using assms(2) by (auto simp: values_add_def elim!: cbind_RetE split: if_split_asm option.split_asm)
  then have "vcapacity vs' = vcapacity vs1" by (auto simp: put_slot_def split: option.split_asm if_split_asm)
  then show ?thesis using autogrow_capacity [OF assms(1) g(1)] by simp
qed

lemma add_item_roomy:
  assumes "roomy vs" "length (items vs) < 2 ^ 25" "outcomes h = []"
    and "case x of IText t \<Rightarrow> int (length t) < INT_MAX | _ \<Rightarrow> True"
  obtains vs' h' where "add_item x vs h = Ret (0, Some vs', h')" "roomy vs'" "items vs' = items vs @ [x]" "outcomes h' = []"
proof -
  have wf: "values_wf vs" and cap: "vcapacity vs \<le> 2 ^ 26" using assms(1) by (simp_all add: roomy_def)
  then have "2 * vcapacity vs \<le> INT_MAX" by simp
  from add_item_total [OF wf this assms(3,4)] obtain r h' where a: "add_item x vs h = Ret (0, r, h')" by blast
  from add_item_ok [OF wf a] obtain vs' where vs': "r = Some vs'" "values_wf vs'" "items vs' = items vs @ [x]" by blast
  have "\<exists>store. values_add store (Some vs) h = Ret (0, Some vs', h')"
    using a vs'(1) by (cases x) (auto simp: add_defs)
  then have c: "vcapacity vs' = (if vcount vs < vcapacity vs then vcapacity vs else 2 * vcapacity vs)"
    using values_add_capacity [OF wf] by blast
  have "vcount vs < 2 ^ 25" using assms(2) items_length [OF wf] by (simp add: nat_less_iff)
  then have "roomy vs'" using c cap vs'(2) by (auto simp: roomy_def)
  then show thesis using that a vs' add_item_quiet [OF wf assms(3) a] by blast
qed

lemma push_all_roomy:
  "roomy vs \<Longrightarrow> length (items vs) + length xs \<le> 2 ^ 25 \<Longrightarrow> outcomes h = [] \<Longrightarrow>
   list_all (\<lambda>x. case x of IText t \<Rightarrow> int (length t) < INT_MAX | _ \<Rightarrow> True) xs \<Longrightarrow>
   \<exists>vs' h'. rk_values.push_all xs (Some vs) h = Ret (0, Some vs', h') \<and> roomy vs' \<and> items vs' = items vs @ xs \<and> outcomes h' = []"
proof (induction xs arbitrary: vs h)
  case (Cons x xs)
  obtain vs1 h1 where a: "add_item x vs h = Ret (0, Some vs1, h1)" "roomy vs1" "items vs1 = items vs @ [x]" "outcomes h1 = []"
    by (rule add_item_roomy [OF Cons.prems(1) _ Cons.prems(3), of x]) (use Cons.prems in auto)
  have "\<exists>vs' h'. rk_values.push_all xs (Some vs1) h1 = Ret (0, Some vs', h') \<and> roomy vs' \<and> items vs' = items vs1 @ xs \<and> outcomes h' = []"
    using a Cons.prems by (intro Cons.IH) auto
  then show ?case using a by auto
qed simp

definition column_roomy :: "sqliterk_column \<Rightarrow> bool" where
  "column_roomy c = (\<exists>vs os. cvalues c = Some vs \<and> coverflow c = Some os \<and> roomy vs \<and> roomy os)"

lemma column_roomy_wf: "column_roomy c \<Longrightarrow> column_wf c"
  by (auto simp: column_roomy_def column_wf_def roomy_def)

lemma values_clear_capacity:
  "sqliterkValuesClear (Some vs) h = Ret (rc, Some vs', h') \<Longrightarrow> vcapacity vs' = vcapacity vs"
  by (auto simp: sqliterkValuesClear_def Let_def elim!: cbind_RetE split: option.split_asm if_split_asm)

lemma column_clear_roomy:
  assumes "column_roomy c" "outcomes h = []"
  obtains c' h' where "sqliterkColumnClear (Some c) h = Ret (SQLITERK_OK, Some c', h')" "column_roomy c'"
    "column_items c' = []" "items (the (coverflow c')) = []" "outcomes h' = []"
proof -
  obtain c' h' where cl: "sqliterkColumnClear (Some c) h = Ret (SQLITERK_OK, Some c', h')" "column_wf c'"
    "column_items c' = []" "items (the (coverflow c')) = []"
    using column_clear_ok [OF column_roomy_wf [OF assms(1)]] by blast
  have "column_roomy c'" using cl(1,2) assms(1)
    by (auto simp: sqliterkColumnClear_def column_roomy_def column_wf_def roomy_def elim!: cbind_RetE
        dest!: values_clear_capacity)
  then show thesis using that cl column_clear_quiet [OF cl(1)] assms(2) by simp
qed

lemma values_alloc_roomy:
  "outcomes h = [] \<Longrightarrow> \<exists>vs h'. sqliterkValuesAlloc h = Ret (Inr vs, h') \<and> roomy vs \<and> outcomes h' = []"
  by (simp add: sqliterkValuesAlloc_def sqliterkValuesAutoGrow_def c_alloc_no_oom roomy_def values_wf_def)

lemma column_alloc_roomy:
  assumes "outcomes h = []"
  obtains c h' where "sqliterkColumnAlloc h = Ret (Inr c, h')" "column_roomy c" "outcomes h' = []"
proof -
  let ?h = "h\<lparr>live := live h + 1\<rparr>"
  obtain vs h1 where v: "sqliterkValuesAlloc ?h = Ret (Inr vs, h1)" "roomy vs" "outcomes h1 = []"
    using values_alloc_roomy [of ?h] assms by auto
  obtain os h2 where o: "sqliterkValuesAlloc h1 = Ret (Inr os, h2)" "roomy os" "outcomes h2 = []"
    using values_alloc_roomy [OF v(3)] by auto
  show thesis by (rule that [of "\<lparr>crowid = 0, cvalues = Some vs, coverflow = Some os\<rparr>" h2])
    (use v o assms in \<open>auto simp: sqliterkColumnAlloc_def c_alloc_no_oom column_roomy_def\<close>)
qed

lemma length_concat_mem: "x \<in> set xs \<Longrightarrow> length (g x) \<le> length (concat (map g xs))"
  by (induction xs) auto

text \<open>The record of a row into the values of a column.\<close>

lemma parse_record_row:
  assumes "row_ok r" "roomy vs" "items vs = []" "outcomes h = []"
  obtains vs' h' where "parse_record (payload r) (int (length (payload r))) (Some vs) h = Ret (0, Some vs', h')"
    "roomy vs'" "items vs' = row_items r" "outcomes h' = []"
proof -
  let ?fs = "row_fields r" and ?n = "row_header r"
  have fs: "map (\<lambda>(st, bs). decode_value st bs) ?fs = map Some (row_items r)" "\<forall>f \<in> set ?fs. fst f < 2 ^ 31"
    using assms(1) by (auto simp: row_ok_def row_items_def list_all_iff)
  have n: "?n = int (length (record_header ?n ?fs))" using assms(1) by (simp add: row_ok_def)
  have len: "length (payload r) = length (record_header ?n ?fs) + length (concat (map snd ?fs))"
    by (simp add: payload_def record_bytes_def)
  have small: "length (payload r) < 2 ^ 30" using assms(1) by (simp add: row_ok_def)
  have "?n < 2 ^ 30" using n len small by simp
  then have n31: "0 \<le> ?n" "?n < 2 ^ 31" using n by simp_all
  have "sqliterkParseVarint (Some (payload r)) 0 = Ret (Inr (int (length (put_serial ?n)), ?n))"
    using parse_put_serial [OF n31, of "[]"] by (simp add: payload_def record_bytes_def record_header_def)
  moreover have "record_loop (payload r) (int (nat ?n)) (int (length (payload r))) (int (length (put_serial ?n)))
      (int (nat ?n + length ([] :: byte list))) (Some vs) h = rk_values.push_all (row_items r) (Some vs) h"
    using n n31 by (intro record_loop_push [OF fs]) (auto simp: payload_def record_bytes_def record_header_def)
  ultimately have e: "parse_record (payload r) (int (length (payload r))) (Some vs) h = rk_values.push_all (row_items r) (Some vs) h"
    using n31 by (simp add: parse_record_def)
  have "list_all (\<lambda>x. case x of IText t \<Rightarrow> int (length t) < INT_MAX | _ \<Rightarrow> True) (row_items r)"
    unfolding list_all_iff
  proof
    fix x assume "x \<in> set (row_items r)"
    then obtain st bs where f: "(st, bs) \<in> set ?fs" "x = the (decode_value st bs)" "decode_value st bs \<noteq> None"
      using assms(1) by (fastforce simp: row_items_def row_ok_def list_all_iff)
    have "length bs \<le> length (concat (map snd ?fs))" using length_concat_mem [OF f(1), of snd] by simp
    then have "int (length bs) < INT_MAX" using len small by simp
    then show "case x of IText t \<Rightarrow> int (length t) < INT_MAX | _ \<Rightarrow> True"
      using f(2,3) by (auto simp: decode_value_def split: if_split_asm)
  qed
  moreover have "length (items vs) + length (row_items r) \<le> 2 ^ 25" using assms(1,3) by (simp add: row_ok_def row_items_def)
  ultimately show thesis using push_all_roomy [OF assms(2) _ assms(4), of "row_items r"] that e assms(3) by auto
qed

section \<open>Steps of the walk\<close>

text \<open>The callback of an application that reads rows: it sees the rowid and the values.\<close>

definition collector :: "('u \<Rightarrow> int \<times> item list \<Rightarrow> 'u) \<Rightarrow> 'u sqliterk_notify" where
  "collector g = zero_notify\<lparr>onParseColumn := Some (\<lambda>u b c. (SQLITERK_OK, g u (crowid c, column_items c)))\<rparr>"

definition row_value :: "row \<Rightarrow> int \<times> item list" where
  "row_value r = (row_id r, row_items r)"

definition based :: "'c sqliterk_pager \<Rightarrow> ('u \<Rightarrow> int \<times> item list \<Rightarrow> 'u) \<Rightarrow> ('c, 'u) sqliterk \<Rightarrow> bool" where
  "based p g rk = (rk_ok rk \<and> rnotify rk = collector g \<and> same_db p (the (rpager rk)))"

definition walked :: "('u \<Rightarrow> int \<times> item list \<Rightarrow> 'u) \<Rightarrow> int set \<Rightarrow> row list \<Rightarrow> ('c, 'u) sqliterk \<Rightarrow> ('c, 'u) sqliterk \<Rightarrow> bool" where
  "walked g S rs rk rk' = (rk_ok rk' \<and> rnotify rk' = rnotify rk \<and> recursive rk' = recursive rk \<and>
     same_db (the (rpager rk)) (the (rpager rk')) \<and> userdata rk' = foldl g (userdata rk) (map row_value rs) \<and>
     (\<forall>m. status_of (the (rpager rk')) m = (if m \<in> S then st_checked else status_of (the (rpager rk)) m)))"

lemma walked_refl: "rk_ok rk \<Longrightarrow> walked g {} [] rk rk"
  by (simp add: walked_def)

lemma walked_trans: "walked g S rs a b \<Longrightarrow> walked g T ts b c \<Longrightarrow> walked g (S \<union> T) (rs @ ts) a c"
  by (auto simp: walked_def intro: same_db_trans)

lemma walked_heap: "walked g S rs a b \<Longrightarrow> outcomes h = [] \<Longrightarrow> walked g S rs a (b\<lparr>rheap := h\<rparr>)"
  by (auto simp: walked_def rk_ok_def)

lemma walked_based: "based p g a \<Longrightarrow> walked g S rs a b \<Longrightarrow> based p g b"
  by (auto simp: walked_def based_def intro: same_db_trans)

lemma walked_quiet: "walked g S rs a b \<Longrightarrow> outcomes (rheap b) = []"
  by (simp add: walked_def rk_ok_def)

lemma basedE:
  assumes "based p g rk"
  obtains q where "rpager rk = Some q" "pager_wf q" "same_db p q" "outcomes (rheap rk) = []" "rnotify rk = collector g" "rk_ok rk"
  using assms by (auto simp: based_def elim!: rk_okE)

lemma same_db_simps:
  assumes "same_db p q"
  shows "page_bytes q no = page_bytes p no" "on_disk q no = on_disk p no" "usableSize q = usableSize p" "pagesize q = pagesize p"
    "valid_pageno q no = valid_pageno p no" "pagecount q = pagecount p" "pager_wf q \<Longrightarrow> plain_pager p \<Longrightarrow> plain_pager q"
  using assms by (simp_all add: same_db_def page_bytes_def on_disk_def valid_pageno_def plain_pager_def)

lemma begin_page_eq:
  assumes "rpager rk = Some q" "pager_wf q" "bnotify btree"
  shows "notify_begin_page btree no rk =
    Ret (if status_of q no = st_checking then (SQLITERK_MISUSE, rk)
         else (SQLITERK_OK, rk\<lparr>rpager := Some (set_status q no st_checking)\<rparr>))"
  using assms by (simp add: notify_begin_page_def sqliterkNotify_onBeginParsePage_def get_status set_page_status_def set_status_Ret)

lemma end_page_eq:
  assumes "rpager rk = Some q" "pager_wf q" "bnotify btree" "rnotify rk = collector g"
  shows "notify_end_page btree no SQLITERK_OK rk = Ret (rk\<lparr>rpager := Some (set_status q no st_checked)\<rparr>)"
  using assms by (simp add: notify_end_page_def sqliterkNotify_onEndParsePage_def set_page_status_def set_status_Ret
      collector_def zero_notify_def)

text \<open>A page between its two notifications: whatever happens to the heap and to other pages, its status
  ends as checked.\<close>

lemma begin_walked:
  assumes "based p g rk" "bnotify btree" "notify_begin_page btree no rk = Ret (rc, rk1)"
  shows "based p g rk1 \<and> rheap rk1 = rheap rk \<and> userdata rk1 = userdata rk \<and> recursive rk1 = recursive rk \<and>
    same_db (the (rpager rk)) (the (rpager rk1)) \<and>
    (\<forall>m. m \<noteq> no \<longrightarrow> status_of (the (rpager rk1)) m = status_of (the (rpager rk)) m)"
proof -
  obtain q where q: "rpager rk = Some q" "pager_wf q" "same_db p q" "rk_ok rk" "rnotify rk = collector g" using assms(1) by (rule basedE)
  have "rk1 = rk \<or> rk1 = rk\<lparr>rpager := Some (set_status q no st_checking)\<rparr>"
    using assms(3) begin_page_eq [OF q(1,2) assms(2), of no] by (auto split: if_split_asm)
  then show ?thesis
  proof
    assume "rk1 = rk"
    then show ?thesis using assms(1) by (simp add: same_db_def)
  next
    assume e: "rk1 = rk\<lparr>rpager := Some (set_status q no st_checking)\<rparr>"
    show ?thesis using q page_status.ok_sets [OF q(2)] page_status.gets_sets [OF q(2)]
      by (auto simp: e based_def rk_ok_def same_db_def)
  qed
qed

lemma end_walked:
  assumes "walked g S rs rk1 rk2" "based p g rk1" "bnotify btree" "valid_pageno p no"
    "same_db (the (rpager rk)) (the (rpager rk1))" "\<forall>m. m \<noteq> no \<longrightarrow> status_of (the (rpager rk1)) m = status_of (the (rpager rk)) m"
    "userdata rk1 = userdata rk" "recursive rk1 = recursive rk" "rnotify rk1 = rnotify rk"
  obtains rk3 where "notify_end_page btree no SQLITERK_OK rk2 = Ret rk3" "walked g (insert no S) rs rk rk3" "rheap rk3 = rheap rk2"
proof -
  obtain q where q: "rpager rk2 = Some q" "pager_wf q" "same_db p q" "rk_ok rk2" "rnotify rk2 = collector g"
    using walked_based [OF assms(2,1)] by (rule basedE)
  have v: "valid_pageno q no" using assms(4) same_db_simps(5) [OF q(3)] by simp
  have "same_db (the (rpager rk)) q" using assms(1,5) q(1) by (auto simp: walked_def intro: same_db_trans)
  note db = same_db_set_status [OF q(2) this, of no st_checked]
  show thesis
    by (rule that [OF end_page_eq [OF q(1,2) assms(3) q(5)]])
       (use assms q v db page_status.ok_sets [OF q(2)] page_status.gets_sets [OF q(2)] in
         \<open>auto simp: walked_def rk_ok_def\<close>)
qed

lemma plain_limits: "plain_pager p \<Longrightarrow> 385 \<le> usableSize p \<and> usableSize p \<le> pagesize p \<and> pagesize p \<le> 16384 \<and> 512 \<le> pagesize p"
  by (simp add: plain_pager_def)

lemma overflow_walk:
  "based p g rk \<Longrightarrow> plain_pager p \<Longrightarrow> disk_ok env \<Longrightarrow> bnotify btree \<Longrightarrow> column_roomy column \<Longrightarrow>
   length (items (the (coverflow column))) + length nos \<le> 2 ^ 25 \<Longrightarrow> chain_at p nos rest next \<Longrightarrow> length nos < n \<Longrightarrow>
   length junk = length rest \<Longrightarrow>
   \<exists>column' rk'. overflow_loop n env btree (int (length (before @ rest))) next (before @ junk) (int (length before)) column rk =
      Ret (before @ rest, column', rk') \<and> column_roomy column' \<and> cvalues column' = cvalues column \<and>
      crowid column' = crowid column \<and> walked g (set nos) [] rk rk'"
proof (induction nos arbitrary: n rk column rest junk before "next")
  case Nil
  obtain q where q: "rpager rk = Some q" "same_db p q" "rk_ok rk" using Nil.prems(1) by (rule basedE)
  obtain k where "n = Suc k" using Nil.prems(8) by (cases n) auto
  moreover have "\<not> valid_pageno q 0" by (simp add: valid_pageno_def)
  ultimately show ?case using Nil q walked_refl [OF q(3)] by auto
next
  case (Cons no nos)
  obtain k where n: "n = Suc k" using Cons.prems(8) by (cases n) auto
  obtain q where q: "rpager rk = Some q" "pager_wf q" "same_db p q" "outcomes (rheap rk) = []" "rnotify rk = collector g" "rk_ok rk"
    using Cons.prems(1) by (rule basedE)
  let ?d = "page_bytes p no" and ?m = "nat (usableSize p - 4)"
  have c: "next = no" "on_disk p no" "rest \<noteq> []" "bytes_at ?d 4 (take ?m rest)" "be_at ?d 4 0 < 2 ^ 31"
    "chain_at p nos (drop ?m rest) (be_at ?d 4 0)" using Cons.prems(7) by (auto simp: Let_def)
  have v: "valid_pageno q no" "valid_pageno p no" using c(2) same_db_simps(5) [OF q(3)] by (simp_all add: on_disk_def)
  obtain vs os where cv: "cvalues column = Some vs" "coverflow column = Some os" "roomy vs" "roomy os"
    using Cons.prems(5) by (auto simp: column_roomy_def)
  obtain os1 h1 where a: "add_item (IInt no) os (rheap rk) = Ret (0, Some os1, h1)" "roomy os1" "items os1 = items os @ [IInt no]" "outcomes h1 = []"
    by (rule add_item_roomy [OF cv(4) _ q(4), of "IInt no"]) (use Cons.prems(6) cv(2) in auto)
  let ?c1 = "column\<lparr>coverflow := Some os1\<rparr>" and ?rk1 = "rk\<lparr>rheap := h1\<rparr>"
  have add: "sqliterkValuesAddInteger (sqliterkColumnGetOverflowPages (Some column)) no (rheap rk) = Ret (0, Some os1, h1)"
    using a(1) cv(2) by (simp add: sqliterkColumnGetOverflowPages_def sqliterkValuesAddInteger_def add_item_def)
  have b1: "based p g ?rk1" using walked_based [OF Cons.prems(1) walked_heap [OF walked_refl [OF q(6)] a(4)]] .
  obtain rc2 rk2 where bg: "notify_begin_page btree no ?rk1 = Ret (rc2, rk2)"
    using begin_page_eq [of ?rk1 q btree no] q Cons.prems(4) by (cases "status_of q no = st_checking") simp_all
  note b2 = begin_walked [OF b1 Cons.prems(4) bg]
  obtain q2 where q2: "rpager rk2 = Some q2" "pager_wf q2" "same_db p q2" "outcomes (rheap rk2) = []" "rk_ok rk2"
    using conjunct1 [OF b2] by (rule basedE)
  let ?page = "\<lparr>pageno = no, pdata = Some ?d, ptype = overflow\<rparr>" and ?h3 = "h1\<lparr>live := live h1 + 2\<rparr>"
  have aq: "sqliterkPageAcquireOverflow env (rpager rk2) no (rheap rk2) = Ret (Inr ?page, ?h3)"
    using acquire_stored [of q2 env no "rheap rk2" overflow] same_db_simps [OF q2(3)] q2 c(2) Cons.prems(2,3) b2
    by (simp add: sqliterkPageAcquireOverflow_def)
  let ?rk3 = "rk2\<lparr>rheap := ?h3\<rparr>"
  have w3: "walked g {} [] rk2 ?rk3" using walked_heap [OF walked_refl [OF q2(5)]] a(4) by simp
  obtain rk4 where e4: "notify_end_page btree no SQLITERK_OK ?rk3 = Ret rk4" "walked g (insert no {}) [] ?rk1 rk4" "rheap rk4 = rheap ?rk3"
    by (rule end_walked [OF w3 conjunct1 [OF b2] Cons.prems(4) v(2), of ?rk1]) (use b2 b1 in \<open>auto simp: based_def\<close>)
  let ?rk5 = "rk4\<lparr>rheap := snd (sqliterkPageRelease (Some ?page) (rheap rk4))\<rparr>"
  have w5: "walked g {no} [] rk ?rk5"
    using walked_heap [OF e4(2), of "snd (sqliterkPageRelease (Some ?page) (rheap rk4))"] a(4) e4(3)
    by (simp add: release_live walked_def)
  have u4: "sqliterkPagerGetUsableSize (rpager rk4) = usableSize p"
    using walked_based [OF b1 e4(2)] by (auto elim!: basedE simp: sqliterkPagerGetUsableSize_def same_db_def)
  have lim: "385 \<le> usableSize p" using plain_limits [OF Cons.prems(2)] by simp
  let ?chunk = "take ?m rest" and ?junk = "drop (length (take ?m rest)) junk"
  have len: "int (length (before @ rest)) - int (length before) = int (length rest)" by simp
  define sz where "sz = (if int (length rest) > usableSize p - 4 then usableSize p - 4 else int (length rest))"
  have sz: "sz = int (length ?chunk)" using lim by (auto simp: sz_def)
  have rd: "rd_bytes ?d 4 sz = Ret ?chunk" using c(4) sz by (auto simp: rd_bytes_def bytes_at_def)
  have wr: "wr_bytes (before @ junk) (int (length before)) ?chunk = Ret ((before @ ?chunk) @ ?junk)"
    using Cons.prems(9) by (auto simp: wr_bytes_def)
  have len: "length ?d = nat (pagesize p)" using page_bytes_length [OF c(2)] plain_limits [OF Cons.prems(2)] by simp
  have nx: "need (sqliterkParseInt (Some ?d) 0 4) = Ret (be_at ?d 4 0)"
    using parse_be [of 4 0 ?d] c(5) len plain_limits [OF Cons.prems(2)] by (simp add: need_def)
  have "\<exists>column' rk'. overflow_loop k env btree (int (length ((before @ ?chunk) @ drop ?m rest))) (be_at ?d 4 0)
      ((before @ ?chunk) @ ?junk) (int (length (before @ ?chunk))) ?c1 ?rk5 =
      Ret ((before @ ?chunk) @ drop ?m rest, column', rk') \<and> column_roomy column' \<and> cvalues column' = cvalues ?c1 \<and>
      crowid column' = crowid ?c1 \<and> walked g (set nos) [] ?rk5 rk'"
  proof (rule Cons.IH)
    show "based p g ?rk5" using walked_based [OF Cons.prems(1) w5] .
    show "column_roomy ?c1" using cv a(2) by (simp add: column_roomy_def)
  qed (use Cons.prems c a cv n in auto)
  then obtain column' rk' where ih: "overflow_loop k env btree (int (length (before @ rest))) (be_at ?d 4 0)
      ((before @ ?chunk) @ ?junk) (int (length before) + sz) ?c1 ?rk5 = Ret (before @ rest, column', rk')"
    "column_roomy column'" "cvalues column' = cvalues column" "crowid column' = crowid column" "walked g (set nos) [] ?rk5 rk'"
    by (auto simp: sz)
  have "overflow_loop n env btree (int (length (before @ rest))) next (before @ junk) (int (length before)) column rk =
      Ret (before @ rest, column', rk')"
    using q v c(1) add bg aq e4(1) u4 rd wr nx ih(1) sz_def by (simp add: n sqliterkPageGetData_def)
  then show ?case using ih walked_trans [OF w5 ih(5)] by auto
qed

section \<open>Payloads and cells\<close>

definition limits_ok :: "int \<Rightarrow> sqliterk_btree \<Rightarrow> bool" where
  "limits_ok U b = (maxLeaf b = U - 35 \<and> minLocal b = (U - 12) * 32 div 255 - 23)"

lemma c_div_nonneg: "0 \<le> a \<Longrightarrow> 0 < b \<Longrightarrow> c_div a b = a div b"
  by (cases "a = 0") (auto simp: c_div_def sgn_if)

lemma c_mod_nonneg: "0 \<le> a \<Longrightarrow> 0 < b \<Longrightarrow> c_mod a b = a mod b"
  by (simp add: c_mod_def c_div_nonneg minus_div_mult_eq_mod)

lemma min_local_range: "385 \<le> U \<Longrightarrow> 0 \<le> (U - 12) * 32 div 255 - 23 \<and> (U - 12) * 32 div 255 - 23 \<le> U - (35 :: int)"
  using zdiv_mono1 [of "23 * 255" "(U - 12) * 32" 255] zdiv_mono1 [of "(U - 12) * 32" "(U - 12) * 255" 255] by simp

lemma local_size_eq:
  assumes "limits_ok U b" "385 \<le> U" "U \<le> 16384" "0 \<le> P" "P < 2 ^ 30"
  shows "local_size b U P = Ret (local_bytes U P)"
proof (cases "P \<le> U - 35")
  case True
  then show ?thesis using assms by (simp add: local_size_def local_bytes_def limits_ok_def)
next
  case False
  let ?M = "(U - 12) * 32 div 255 - 23"
  have M: "?M \<le> U - 35" "0 \<le> ?M" using min_local_range [OF assms(2)] by auto
  then have m: "0 \<le> P - ?M" "P - ?M < 2 ^ 31" using False assms(5) by simp_all
  then show ?thesis using assms False c_mod_nonneg [OF m(1), of "U - 4"]
    by (simp add: local_size_def local_bytes_def limits_ok_def c_arith_def Let_def)
qed

lemma local_bytes_range:
  assumes "385 \<le> U" "0 < P"
  shows "0 \<le> local_bytes U P \<and> local_bytes U P \<le> P \<and> local_bytes U P \<le> U - 35"
proof (cases "P \<le> U - 35")
  case True
  then show ?thesis using assms by (simp add: local_bytes_def)
next
  case False
  let ?M = "(U - 12) * 32 div 255 - 23"
  have M: "?M \<le> U - 35" "0 \<le> ?M" using min_local_range [OF assms(1)] by auto
  have "0 \<le> (P - ?M) mod (U - 4)" "(P - ?M) mod (U - 4) \<le> P - ?M"
    using assms M False by (auto intro: zmod_le_nonneg_dividend)
  then show ?thesis using M False by (auto simp: local_bytes_def Let_def)
qed


definition keeps_column :: "sqliterk_column \<Rightarrow> sqliterk_column \<Rightarrow> bool" where
  "keeps_column c c' = (column_roomy c' \<and> cvalues c' = cvalues c \<and> crowid c' = crowid c)"

lemma payload_pos: "0 < length (payload r)"
  using put_serial_nonempty [of "row_header r"] by (simp add: payload_def record_bytes_def record_header_def)

lemma collect_walk:
  assumes "based p g rk" "plain_pager p" "disk_ok env" "bnotify btree" "limits_ok (usableSize p) btree"
    and "column_roomy column" "items (the (coverflow column)) = []" "row_ok r" "cell_at p d off r" "length d = nat (pagesize p)"
    and "pdata page = Some d" "length (row_chain r) < n"
  shows "\<exists>column' rk'. collect_payload n env btree page (off + int (length (cell_prefix r))) (int (length (payload r))) column rk =
      Ret (Inr (payload r, column', rk')) \<and> keeps_column column column' \<and> walked g (set (row_chain r)) [] rk rk'"
proof -
  let ?P = "int (length (payload r))" and ?o = "off + int (length (cell_prefix r))"
  define L where "L = local_bytes (usableSize p) ?P"
  note lim = plain_limits [OF assms(2)]
  obtain q where q: "rpager rk = Some q" "same_db p q" "rk_ok rk" using assms(1) by (rule basedE)
  have P: "0 < ?P" "?P < 2 ^ 30" using assms(8) payload_pos [of r] by (simp_all add: row_ok_def)
  have L: "0 \<le> L" "L \<le> ?P" using local_bytes_range [of "usableSize p" ?P] lim P(1) by (auto simp: L_def)
  have ls: "local_size btree (sqliterkPagerGetUsableSize (rpager rk)) ?P = Ret L"
    using local_size_eq [OF assms(5)] lim P q same_db_simps(3) [OF q(2)] by (simp add: L_def sqliterkPagerGetUsableSize_def)
  have ca: "bytes_at d off (cell_prefix r @ take (nat L) (payload r))"
    "L < ?P \<Longrightarrow> ?o + L + 4 \<le> int (length d) \<and> be_at d 4 (?o + L) < 2 ^ 31 \<and>
       chain_at p (row_chain r) (drop (nat L) (payload r)) (be_at d 4 (?o + L))"
    "\<not> L < ?P \<Longrightarrow> row_chain r = []"
    using assms(9) unfolding cell_at_def Let_def L_def [symmetric] by (auto split: if_split_asm)
  have b: "bytes_at d ?o (take (nat L) (payload r))" using bytes_at_append [OF ca(1)] by simp
  have ltk: "length (take (nat L) (payload r)) = nat L" using L by simp
  have rd: "rd_bytes d ?o L = Ret (take (nat L) (payload r))" using b L ltk by (auto simp: rd_bytes_def bytes_at_def)
  have e: "0 \<le> ?o" "?o + L \<le> pagesize p" using b L ltk assms(10) lim by (auto simp: bytes_at_def)
  have wr: "wr_bytes (replicate (nat ?P) 0) 0 (take (nat L) (payload r)) =
      Ret (take (nat L) (payload r) @ replicate (nat (?P - L)) 0)"
    using L by (auto simp: wr_bytes_def nat_diff_distrib)
  have ar: "c_arith (?o + L) = Ret (?o + L)" using e L lim by (simp add: c_arith_def)
  have sz: "sqliterkPagerGetSize (rpager rk) = pagesize p" using q same_db_simps(4) [OF q(2)] by (simp add: sqliterkPagerGetSize_def)
  show ?thesis
  proof (cases "L < ?P")
    case False
    then have "take (nat L) (payload r) = payload r" "nat (?P - L) = 0" using L by auto
    then show ?thesis using False ls ar sz e(2) assms(11) rd wr ca(3) assms(6) walked_refl [OF q(3)]
      by (auto simp: collect_payload_def sqliterkPageGetData_def keeps_column_def)
  next
    case True
    note c = ca(2) [OF True]
    have nx: "need (sqliterkParseInt (Some d) (?o + L) 4) = Ret (be_at d 4 (?o + L))"
      using parse_be [of 4 "?o + L" d] c e L by (simp add: need_def)
    have "\<exists>column' rk'. overflow_loop n env btree (int (length (take (nat L) (payload r) @ drop (nat L) (payload r))))
        (be_at d 4 (?o + L)) (take (nat L) (payload r) @ replicate (nat (?P - L)) 0) (int (length (take (nat L) (payload r)))) column rk =
      Ret (take (nat L) (payload r) @ drop (nat L) (payload r), column', rk') \<and> column_roomy column' \<and> cvalues column' = cvalues column \<and>
      crowid column' = crowid column \<and> walked g (set (row_chain r)) [] rk rk'"
      by (rule overflow_walk [OF assms(1-4,6)]) (use assms(7,8,12) c L in \<open>auto simp: row_ok_def nat_diff_distrib\<close>)
    then obtain column' rk' where "overflow_loop n env btree ?P
        (be_at d 4 (?o + L)) (take (nat L) (payload r) @ replicate (nat (?P - L)) 0) L column rk =
      Ret (payload r, column', rk')" "keeps_column column column'" "walked g (set (row_chain r)) [] rk rk'"
      using ltk L by (auto simp: keeps_column_def)
    then show ?thesis using True ls ar sz e(2) assms(11) rd wr nx
      by (auto simp: collect_payload_def sqliterkPageGetData_def)
  qed
qed

text \<open>The handler of a row when nothing recurses.\<close>

definition plain_tree :: "sqliterk_btree \<Rightarrow> ('c, 'u) sqliterk \<Rightarrow> bool" where
  "plain_tree b rk = (bnotify b \<and> (sqliterkBtreeIsSystemType (btype b) \<longrightarrow> btype b = btree_type_master) \<and>
     (btype b = btree_type_master \<longrightarrow> \<not> recursive rk))"

lemma on_column_walk:
  assumes "based p g rk" "plain_tree btree rk" "crowid column = row_id r" "column_items column = row_items r"
  shows "\<exists>rk'. sqliterkNotify_onParseColumn env f btree page column rk = Ret (SQLITERK_OK, rk') \<and> walked g {} [r] rk rk' \<and> rheap rk' = rheap rk"
proof -
  obtain q where q: "rk_ok rk" "rnotify rk = collector g" using assms(1) by (rule basedE)
  let ?rk = "rk\<lparr>userdata := g (userdata rk) (row_value r)\<rparr>"
  have "sqliterkNotify_onParseColumn env f btree page column rk = Ret (SQLITERK_OK, ?rk)"
    using assms q by (auto simp: sqliterkNotify_onParseColumn_def collector_def zero_notify_def column_recurse_def
        plain_tree_def sqliterkBtreeGetType_def row_value_def Let_def)
  moreover have "walked g {} [r] rk ?rk" using q(1) by (simp add: walked_def rk_ok_def same_db_def)
  ultimately show ?thesis by auto
qed

lemma payload_walk:
  assumes "based p g rk" "plain_pager p" "disk_ok env" "plain_tree btree rk" "limits_ok (usableSize p) btree"
    and "column_roomy column" "items (the (coverflow column)) = []" "column_items column = []" "crowid column = row_id r"
    and "row_ok r" "cell_at p d off r" "length d = nat (pagesize p)" "pdata page = Some d" "length (row_chain r) < n"
  shows "\<exists>column' rk'. sqliterkBtreeParsePayload n env (sqliterkNotify_onParseColumn env f) btree page
      (off + int (length (cell_prefix r))) (int (length (payload r))) column rk = Ret (SQLITERK_OK, column', rk') \<and>
    column_roomy column' \<and> walked g (set (row_chain r)) [r] rk rk'"
proof -
  obtain q where q: "rk_ok rk" "outcomes (rheap rk) = []" using assms(1) by (rule basedE)
  let ?h = "(rheap rk)\<lparr>live := live (rheap rk) + 1\<rparr>" let ?rk = "rk\<lparr>rheap := ?h\<rparr>"
  have m: "os_malloc (int (length (payload r))) (rheap rk) = (True, ?h)" using q(2) by (simp add: os_malloc_def c_alloc_no_oom)
  have w0: "walked g {} [] rk ?rk" using walked_heap [OF walked_refl [OF q(1)]] q(2) by simp
  have bn: "bnotify btree" using assms(4) by (simp add: plain_tree_def)
  obtain c1 rk1 where c1: "collect_payload n env btree page (off + int (length (cell_prefix r))) (int (length (payload r))) column ?rk =
      Ret (Inr (payload r, c1, rk1))" "keeps_column column c1" "walked g (set (row_chain r)) [] ?rk rk1"
    using collect_walk [OF walked_based [OF assms(1) w0] assms(2,3) bn assms(5-7,10-14)] by blast
  have w1: "walked g (set (row_chain r)) [] rk rk1" using walked_trans [OF w0 c1(3)] by simp
  obtain vs where vs: "cvalues c1 = Some vs" "roomy vs" "items vs = []" "crowid c1 = row_id r" "column_roomy c1"
  proof -
    have "column_roomy c1" "cvalues c1 = cvalues column" "crowid c1 = row_id r" using c1(2) assms(9) by (simp_all add: keeps_column_def)
    moreover from this obtain vs where "cvalues c1 = Some vs" "roomy vs" by (auto simp: column_roomy_def)
    moreover have "items vs = []" using calculation assms(8) by (metis column_items_def option.sel)
    ultimately show thesis using that [of vs] by simp
  qed
  obtain vs2 h2 where pr: "parse_record (payload r) (int (length (payload r))) (Some vs) (rheap rk1) = Ret (0, Some vs2, h2)"
    "roomy vs2" "items vs2 = row_items r" "outcomes h2 = []"
    by (rule parse_record_row [OF assms(10) vs(2,3) walked_quiet [OF w1]])
  let ?c2 = "c1\<lparr>cvalues := Some vs2\<rparr>" and ?rk2 = "rk1\<lparr>rheap := h2\<rparr>"
  have w2: "walked g (set (row_chain r)) [] rk ?rk2" using walked_heap [OF w1 pr(4)] .
  have pt: "plain_tree btree ?rk2" using assms(4) w2 by (simp add: plain_tree_def walked_def)
  obtain rk3 where oc: "sqliterkNotify_onParseColumn env f btree page ?c2 ?rk2 = Ret (SQLITERK_OK, rk3)" "walked g {} [r] ?rk2 rk3"
    using on_column_walk [OF walked_based [OF assms(1) w2] pt, of ?c2 r env f page] vs pr(3) by (auto simp: column_items_def)
  have w3: "walked g (set (row_chain r)) [r] rk rk3" using walked_trans [OF w2 oc(2)] by simp
  have "walked g (set (row_chain r)) [r] rk (rk3\<lparr>rheap := c_free (rheap rk3)\<rparr>)"
    using walked_heap [OF w3] walked_quiet [OF w3] by simp
  moreover have "column_roomy ?c2" using vs pr(2) by (auto simp: column_roomy_def)
  moreover have "sqliterkBtreeParsePayload n env (sqliterkNotify_onParseColumn env f) btree page
      (off + int (length (cell_prefix r))) (int (length (payload r))) column rk = Ret (SQLITERK_OK, ?c2, rk3\<lparr>rheap := c_free (rheap rk3)\<rparr>)"
    using m c1(1) pr(1) oc(1) bn vs(1) payload_pos [of r]
    by (simp add: sqliterkBtreeParsePayload_def sqliterkColumnGetValues_def)
  ultimately show ?thesis by blast
qed

lemma parse_row_id:
  assumes "0 \<le> v" "v < 2 ^ 56"
  shows "sqliterkParseVarint64 (Some (pre @ put_serial v @ post)) (int (length pre)) = Ret (Inr (int (length (put_serial v)), v))"
proof -
  have u: "uint (word_of_int v :: 64 word) = v" using assms by (simp add: uint_word_of_int_eq take_bit_int_eq_self)
  then have "unat (word_of_int v :: 64 word) < 2 ^ 56" using assms by (simp add: unat_eq_nat_uint nat_less_iff)
  then have "length (put_serial v) \<le> 8" by (simp add: put_serial_def length_put_le_8)
  then show ?thesis using rk_parse_put [of pre "word_of_int v" post] u by (simp add: put_serial_def)
qed

lemma cell_walk:
  "based p g rk \<Longrightarrow> plain_pager p \<Longrightarrow> disk_ok env \<Longrightarrow> plain_tree btree rk \<Longrightarrow> limits_ok (usableSize p) btree \<Longrightarrow>
   column_roomy column \<Longrightarrow> length d = nat (pagesize p) \<Longrightarrow> pdata page = Some d \<Longrightarrow>
   list_all2 (\<lambda>off r. row_ok r \<and> cell_at p d off r \<and> length (row_chain r) < n) offs rows \<Longrightarrow>
   \<exists>column' rk'. cell_loop n env (sqliterkNotify_onParseColumn env f) btree page offs column rk = Ret (SQLITERK_OK, column', rk') \<and>
     column_roomy column' \<and> walked g (set (concat (map row_chain rows))) rows rk rk'"
proof (induction offs arbitrary: rows column rk)
  case Nil
  then show ?case using walked_refl by (auto elim!: basedE)
next
  case (Cons off offs)
  obtain r rs where rows: "rows = r # rs" "row_ok r" "cell_at p d off r" "length (row_chain r) < n"
    "list_all2 (\<lambda>off r. row_ok r \<and> cell_at p d off r \<and> length (row_chain r) < n) offs rs"
    using Cons.prems(9) by (auto simp: list_all2_Cons1)
  obtain q where q: "rk_ok rk" "outcomes (rheap rk) = []" using Cons.prems(1) by (rule basedE)
  obtain c1 h1 where c1: "sqliterkColumnClear (Some column) (rheap rk) = Ret (SQLITERK_OK, Some c1, h1)" "column_roomy c1"
    "column_items c1 = []" "items (the (coverflow c1)) = []" "outcomes h1 = []"
    by (rule column_clear_roomy [OF Cons.prems(6) q(2)])
  let ?rk1 = "rk\<lparr>rheap := h1\<rparr>" and ?P = "int (length (payload r))"
  have w1: "walked g {} [] rk ?rk1" using walked_heap [OF walked_refl [OF q(1)] c1(5)] .
  have "bytes_at d off (cell_prefix r)" using rows(3) bytes_at_append by (auto simp: cell_at_def Let_def)
  then obtain pre post where d: "d = pre @ cell_prefix r @ post" "off = int (length pre)" by (rule bytes_atE)
  have P: "0 \<le> ?P" "?P < 2 ^ 31" using rows(2) by (auto simp: row_ok_def)
  have v1: "sqliterkParseVarint (Some d) off = Ret (Inr (int (length (put_serial ?P)), ?P))"
    using parse_put_serial [OF P, of pre "put_serial (row_id r) @ post"] d by (simp add: cell_prefix_def)
  have v2: "sqliterkParseVarint64 (Some d) (off + int (length (put_serial ?P))) = Ret (Inr (int (length (put_serial (row_id r))), row_id r))"
    using parse_row_id [of "row_id r" "pre @ put_serial ?P" post] rows(2) d by (simp add: cell_prefix_def row_ok_def)
  have ar: "c_arith (off + int (length (put_serial ?P))) = Ret (off + int (length (put_serial ?P)))"
    "c_arith (off + int (length (put_serial ?P)) + int (length (put_serial (row_id r)))) = Ret (off + int (length (cell_prefix r)))"
  proof -
    have "int (length pre + length (cell_prefix r)) \<le> 16384" 
    proof -
      have "length pre + length (cell_prefix r) \<le> nat (pagesize p)" using Cons.prems(7) d(1) by simp
      then show ?thesis using plain_limits [OF Cons.prems(2)] by linarith
    qed
    then show "c_arith (off + int (length (put_serial ?P))) = Ret (off + int (length (put_serial ?P)))"
      "c_arith (off + int (length (put_serial ?P)) + int (length (put_serial (row_id r)))) = Ret (off + int (length (cell_prefix r)))"
      using d(2) by (simp_all add: c_arith_def cell_prefix_def)
  qed
  let ?c2 = "c1\<lparr>crowid := row_id r\<rparr>"
  have c2: "the (sqliterkColumnSetRowId (Some c1) (row_id r)) = ?c2" by (simp add: sqliterkColumnSetRowId_def)
  have pt: "plain_tree btree ?rk1" using Cons.prems(4) by (simp add: plain_tree_def)
  obtain c3 rk3 where p: "sqliterkBtreeParsePayload n env (sqliterkNotify_onParseColumn env f) btree page
      (off + int (length (cell_prefix r))) ?P ?c2 ?rk1 = Ret (SQLITERK_OK, c3, rk3)" "column_roomy c3"
    "walked g (set (row_chain r)) [r] ?rk1 rk3"
    using payload_walk [OF walked_based [OF Cons.prems(1) w1] Cons.prems(2,3) pt Cons.prems(5), of ?c2 r d off page n f]
      c1 rows Cons.prems(7,8) by (auto simp: column_roomy_def column_items_def)
  have w3: "walked g (set (row_chain r)) [r] rk rk3" using walked_trans [OF w1 p(3)] by simp
  have pt3: "plain_tree btree rk3" using Cons.prems(4) w3 by (simp add: plain_tree_def walked_def)
  obtain c4 rk4 where ih: "cell_loop n env (sqliterkNotify_onParseColumn env f) btree page offs c3 rk3 = Ret (SQLITERK_OK, c4, rk4)"
    "column_roomy c4" "walked g (set (concat (map row_chain rs))) rs rk3 rk4"
    using Cons.IH [OF walked_based [OF Cons.prems(1) w3] Cons.prems(2,3) pt3 Cons.prems(5) p(2) Cons.prems(7,8) rows(5)] by blast
  have "cell_loop n env (sqliterkNotify_onParseColumn env f) btree page (off # offs) column rk = Ret (SQLITERK_OK, c4, rk4)"
    using c1(1) v1 v2 ar c2 p(1) ih(1) Cons.prems(8) by (simp add: sqliterkPageGetData_def)
  then show ?case using ih(2) walked_trans [OF w3 ih(3)] rows(1) by auto
qed

section \<open>Pages\<close>

lemma parse_cell_walk:
  assumes "based p g rk" "plain_pager p" "disk_ok env" "plain_tree btree rk" "limits_ok (usableSize p) btree"
    and "length d = nat (pagesize p)" "pdata page = Some d"
    and "list_all2 (\<lambda>off r. row_ok r \<and> cell_at p d off r \<and> length (row_chain r) < n) offs rows"
  shows "\<exists>rk'. sqliterkBtreeParseCell n env (sqliterkNotify_onParseColumn env f) btree page offs rk = Ret (SQLITERK_OK, rk') \<and>
     walked g (set (concat (map row_chain rows))) rows rk rk'"
proof -
  obtain q where q: "rk_ok rk" "outcomes (rheap rk) = []" using assms(1) by (rule basedE)
  obtain c h1 where c: "sqliterkColumnAlloc (rheap rk) = Ret (Inr c, h1)" "column_roomy c" "outcomes h1 = []"
    by (rule column_alloc_roomy [OF q(2)])
  let ?rk1 = "rk\<lparr>rheap := h1\<rparr>"
  have w1: "walked g {} [] rk ?rk1" using walked_heap [OF walked_refl [OF q(1)] c(3)] .
  have pt: "plain_tree btree ?rk1" using assms(4) by (simp add: plain_tree_def)
  obtain c2 rk2 where l: "cell_loop n env (sqliterkNotify_onParseColumn env f) btree page offs c ?rk1 = Ret (SQLITERK_OK, c2, rk2)"
    "column_roomy c2" "walked g (set (concat (map row_chain rows))) rows ?rk1 rk2"
    using cell_walk [OF walked_based [OF assms(1) w1] assms(2,3) pt assms(5) c(2) assms(6-8)] by blast
  obtain h3 where fr: "sqliterkColumnFree (Some c2) (rheap rk2) = Ret (SQLITERK_OK, h3)"
    using column_free_ok [OF column_roomy_wf [OF l(2)]] by blast
  have w2: "walked g (set (concat (map row_chain rows))) rows rk rk2" using walked_trans [OF w1 l(3)] by simp
  have "outcomes h3 = []" using column_free_quiet [OF fr] walked_quiet [OF w2] by simp
  then show ?thesis using walked_heap [OF w2, of h3] c(1) l(1) fr by (simp add: sqliterkBtreeParseCell_def)
qed

lemma read_ints_eq:
  assumes "n \<in> {1, 2, 4}"
  shows "list_all (\<lambda>off. 0 \<le> off \<and> off + int n \<le> int (length d) \<and> be_at d n off < 2 ^ (8 * n - 1)) offs \<Longrightarrow>
   read_ints (Some d) (int n) offs = Ret (map (be_at d n) offs)"
  by (induction offs) (auto simp: need_def parse_be [OF assms])

lemma cell_pointers_eq:
  assumes "rpager rk = Some q" "pdata page = Some d" "length d = nat (pagesize q)" "outcomes h = []"
    and "hdr = sqliterkPagenoHeaderOffset (pageno page)" "a = (if ptype page = interior_table then 12 else 8)"
    and "be_at d 2 (hdr + 3) = int k" "0 < k" "hdr + a + 2 * int k \<le> pagesize q" "pagesize q \<le> 16384"
    and "\<And>i. i < k \<Longrightarrow> be_at d 2 (hdr + a + int i * 2) < 2 ^ 15"
  shows "cell_pointers (rpager rk) page h =
    Ret (Inr (map (\<lambda>i. be_at d 2 (hdr + a + int i * 2)) [0..<k]), h\<lparr>live := live h + 1\<rparr>)"
proof -
  have h0: "0 \<le> hdr" using assms(5) by (simp add: sqliterkPagenoHeaderOffset_def)
  have a0: "a = 12 \<or> a = 8" using assms(6) by simp
  have cnt: "sqliterkParseInt (Some d) (3 + hdr) 2 = Ret (Inr (int k))"
    using parse_be [of 2 "3 + hdr" d] assms(3,7,9,10) h0 a0 by (auto simp: add.commute)
  have rd: "read_ints (Some d) (int 2) (map (\<lambda>i. hdr + a + int i * 2) [0..<k]) = Ret (map (be_at d 2) (map (\<lambda>i. hdr + a + int i * 2) [0..<k]))"
  proof (rule read_ints_eq)
    show "list_all (\<lambda>off. 0 \<le> off \<and> off + int 2 \<le> int (length d) \<and> be_at d 2 off < 2 ^ (8 * 2 - 1)) (map (\<lambda>i. hdr + a + int i * 2) [0..<k])"
      unfolding list_all_iff using assms(3,9,11) h0 a0 by auto
  qed simp
  have hd: "sqliterkPageHeaderOffset (Some page) = hdr" by (simp add: sqliterkPageHeaderOffset_def assms(5))
  have "\<not> (int k \<le> 0 \<or> int k * 2 + a > pagesize q)" using assms(8,9) h0 by auto
  then show ?thesis
    using cnt rd assms(1,2,4) unfolding cell_pointers_def Let_def hd assms(6) [symmetric]
    by (simp add: need_def sqliterkPageGetData_def c_alloc_no_oom sqliterkPagerGetSize_def comp_def)
qed

lemma leaf_body_walk:
  assumes "based p g rk" "plain_pager p" "disk_ok env" "plain_tree btree rk" "limits_ok (usableSize p) btree"
    and "leaf_at p no rows" "list_all (\<lambda>r. length (row_chain r) < n) rows"
  shows "\<exists>page rk'. page_body n env f btree no rk = Ret (SQLITERK_OK, Some page, rk') \<and>
    walked g (set (concat (map row_chain rows))) rows rk rk'"
proof -
  let ?d = "page_bytes p no" and ?h = "sqliterkPagenoHeaderOffset no" and ?k = "length rows"
  let ?page = "\<lparr>pageno = no, pdata = Some ?d, ptype = leaf_table\<rparr>"
  obtain q where q: "rpager rk = Some q" "pager_wf q" "same_db p q" "rk_ok rk" "outcomes (rheap rk) = []" using assms(1) by (rule basedE)
  note sd = same_db_simps [OF q(3)] note lim = plain_limits [OF assms(2)]
  have l: "on_disk p no" "rows \<noteq> []" "?d ! nat ?h = 13" "be_at ?d 2 (?h + 3) = int ?k" "?h + 8 + 2 * int ?k \<le> pagesize p"
    "list_all (\<lambda>(i, r). row_ok r \<and> cell_at p ?d (be_at ?d 2 (?h + 8 + int i * 2)) r) (enumerate 0 rows)"
    using assms(6) by (auto simp: leaf_at_def Let_def)
  have cell: "row_ok (rows ! i) \<and> cell_at p ?d (be_at ?d 2 (?h + 8 + int i * 2)) (rows ! i)" if "i < ?k" for i
    using l(6) that unfolding list_all_length by (auto dest!: spec [of _ i] simp: nth_enumerate_eq)
  have len: "length ?d = nat (pagesize p)" using page_bytes_length [OF l(1)] lim by simp
  have off: "be_at ?d 2 (?h + 8 + int i * 2) < 2 ^ 15" if "i < ?k" for i
    using cell [OF that] len lim by (auto simp: cell_at_def bytes_at_def Let_def)
  have aq: "sqliterkPageAcquire env (rpager rk) no (rheap rk) = Ret (Inr ?page, (rheap rk)\<lparr>live := live (rheap rk) + 2\<rparr>)"
    using acquire_stored [of q env no "rheap rk" unknown] q sd assms(2,3) l(1,3)
    by (simp add: sqliterkPageAcquire_def page_type_of_def)
  let ?h2 = "(rheap rk)\<lparr>live := live (rheap rk) + 2\<rparr>" and ?h3 = "(rheap rk)\<lparr>live := live (rheap rk) + 3\<rparr>"
  let ?offs = "map (\<lambda>i. be_at ?d 2 (?h + 8 + int i * 2)) [0..<?k]"
  have cp: "cell_pointers (rpager rk) ?page ?h2 = Ret (Inr ?offs, ?h3)"
    using cell_pointers_eq [OF q(1), of ?page ?d ?h2 ?h 8 ?k] len lim sd q(5) l(2,4,5) off by simp
  let ?rk3 = "rk\<lparr>rheap := ?h3\<rparr>"
  have w3: "walked g {} [] rk ?rk3" using walked_heap [OF walked_refl [OF q(4)]] q(5) by simp
  have pt: "plain_tree btree ?rk3" using assms(4) by (simp add: plain_tree_def)
  have la: "list_all2 (\<lambda>off r. row_ok r \<and> cell_at p ?d off r \<and> length (row_chain r) < n) ?offs rows"
    using cell assms(7) by (auto simp: list_all2_conv_all_nth list_all_length)
  obtain rk4 where pc: "sqliterkBtreeParseCell n env (sqliterkNotify_onParseColumn env f) btree ?page ?offs ?rk3 = Ret (SQLITERK_OK, rk4)"
    "walked g (set (concat (map row_chain rows))) rows ?rk3 rk4"
    using parse_cell_walk [where page = ?page and f = f, OF walked_based [OF assms(1) w3] assms(2,3) pt assms(5) len _ la] by auto
  have w4: "walked g (set (concat (map row_chain rows))) rows rk rk4" using walked_trans [OF w3 pc(2)] by simp
  have "walked g (set (concat (map row_chain rows))) rows rk (rk4\<lparr>rheap := c_free (rheap rk4)\<rparr>)"
    using walked_heap [OF w4] walked_quiet [OF w4] by simp
  moreover have "page_body n env f btree no rk = Ret (SQLITERK_OK, Some ?page, rk4\<lparr>rheap := c_free (rheap rk4)\<rparr>)"
    using aq cp pc(1) assms(4)
    by (auto simp: page_body_def sqliterkPageGetType_def parse_leaf_table_def plain_tree_def sqliterkBtreeGetType_def Let_def)
  ultimately show ?thesis by blast
qed

lemma children_walk:
  assumes step: "\<And>t rk. t \<in> set ts \<Longrightarrow> based p g rk \<Longrightarrow> plain_tree btree rk \<Longrightarrow>
      \<forall>m \<in> set (pages_of t). status_of (the (rpager rk)) m \<noteq> st_checking \<Longrightarrow>
      \<exists>rk'. parse (root_of t) rk = Ret (SQLITERK_OK, rk') \<and> walked g (set (pages_of t)) (rows_of t) rk rk'"
  shows "based p g rk \<Longrightarrow> plain_tree btree rk \<Longrightarrow>
      \<forall>t \<in> set ts. \<forall>m \<in> set (pages_of t). status_of (the (rpager rk)) m \<noteq> st_checking \<Longrightarrow>
    \<exists>rk'. children_loop parse (map root_of ts) rk = Ret rk' \<and>
      walked g (set (concat (map pages_of ts))) (concat (map rows_of ts)) rk rk'"
  using step
proof (induction ts arbitrary: rk)
  case Nil
  then show ?case using walked_refl by (auto elim!: basedE)
next
  case (Cons t ts)
  obtain rk1 where r1: "parse (root_of t) rk = Ret (SQLITERK_OK, rk1)" "walked g (set (pages_of t)) (rows_of t) rk rk1"
    using Cons.prems(4) [of t rk] Cons.prems(1-3) by auto
  have "plain_tree btree rk1" using Cons.prems(2) r1(2) by (simp add: plain_tree_def walked_def)
  moreover have "\<forall>t' \<in> set ts. \<forall>m \<in> set (pages_of t'). status_of (the (rpager rk1)) m \<noteq> st_checking"
    using Cons.prems(3) r1(2) by (auto simp: walked_def)
  ultimately obtain rk2 where r2: "children_loop parse (map root_of ts) rk1 = Ret rk2"
    "walked g (set (concat (map pages_of ts))) (concat (map rows_of ts)) rk1 rk2"
    using Cons.IH [OF walked_based [OF Cons.prems(1) r1(2)]] Cons.prems(4) by auto
  show ?case using r1(1) r2(1) walked_trans [OF r1(2) r2(2)] by auto
qed

lemma node_body_walk:
  assumes "based p g rk" "plain_pager p" "disk_ok env" "plain_tree btree rk" "node_at p no (map root_of ts)"
    and "\<forall>t \<in> set ts. \<forall>m \<in> set (pages_of t). status_of (the (rpager rk)) m \<noteq> st_checking"
    and "\<And>t rk. t \<in> set ts \<Longrightarrow> based p g rk \<Longrightarrow> plain_tree btree rk \<Longrightarrow>
      \<forall>m \<in> set (pages_of t). status_of (the (rpager rk)) m \<noteq> st_checking \<Longrightarrow>
      \<exists>rk'. f btree (root_of t) rk = Ret (SQLITERK_OK, rk') \<and> walked g (set (pages_of t)) (rows_of t) rk rk'"
  shows "\<exists>page rk'. page_body n env f btree no rk = Ret (SQLITERK_OK, Some page, rk') \<and>
    walked g (set (concat (map pages_of ts))) (concat (map rows_of ts)) rk rk'"
proof -
  let ?d = "page_bytes p no" and ?k = "length ts - 1" and ?page = "\<lparr>pageno = no, pdata = Some (page_bytes p no), ptype = interior_table\<rparr>"
  obtain q where q: "rpager rk = Some q" "pager_wf q" "same_db p q" "rk_ok rk" "outcomes (rheap rk) = []" using assms(1) by (rule basedE)
  note sd = same_db_simps [OF q(3)] note lim = plain_limits [OF assms(2)]
  have l: "on_disk p no" "no \<noteq> 1" "2 \<le> length ts" "?d ! 0 = 5" "be_at ?d 2 3 = int ?k" "12 + 2 * int ?k \<le> pagesize p"
    "be_at ?d 4 8 = last (map root_of ts)" "last (map root_of ts) < 2 ^ 31"
    "list_all (\<lambda>(i, c). be_at ?d 2 (12 + int i * 2) + 4 \<le> pagesize p \<and> be_at ?d 4 (be_at ?d 2 (12 + int i * 2)) = c \<and> c < 2 ^ 31)
       (enumerate 0 (butlast (map root_of ts)))"
    using assms(5) by (auto simp: node_at_def Let_def)
  let ?off = "\<lambda>i. be_at ?d 2 (12 + int i * 2)"
  have child: "?off i + 4 \<le> pagesize p \<and> be_at ?d 4 (?off i) = root_of (ts ! i) \<and> root_of (ts ! i) < 2 ^ 31" if "i < ?k" for i
    using l(9) that unfolding list_all_length by (auto dest!: spec [of _ i] simp: nth_enumerate_eq nth_butlast)
  have len: "length ?d = nat (pagesize p)" using page_bytes_length [OF l(1)] lim by simp
  have h0: "sqliterkPagenoHeaderOffset no = 0" using l(2) by (simp add: sqliterkPagenoHeaderOffset_def)
  let ?h2 = "(rheap rk)\<lparr>live := live (rheap rk) + 2\<rparr>" and ?h3 = "(rheap rk)\<lparr>live := live (rheap rk) + 3\<rparr>"
  have aq: "sqliterkPageAcquire env (rpager rk) no (rheap rk) = Ret (Inr ?page, ?h2)"
    using acquire_stored [of q env no "rheap rk" unknown] q sd assms(2,3) l(1,4) h0
    by (simp add: sqliterkPageAcquire_def page_type_of_def)
  let ?offs = "map ?off [0..<?k]"
  have cp: "cell_pointers (rpager rk) ?page ?h2 = Ret (Inr ?offs, ?h3)"
    using cell_pointers_eq [OF q(1), of ?page ?d ?h2 0 12 ?k] len lim sd q(5) l(3,5,6) child h0 by fastforce
  have nos: "read_ints (Some ?d) (int 4) (?offs @ [8]) = Ret (map (be_at ?d 4) (?offs @ [8]))"
  proof (rule read_ints_eq)
    show "list_all (\<lambda>off. 0 \<le> off \<and> off + int 4 \<le> int (length ?d) \<and> be_at ?d 4 off < 2 ^ (8 * 4 - 1)) (?offs @ [8])"
      using child len lim l(7,8) by (auto simp: list_all_iff be_at_def be_value_bounds)
  qed simp
  have lt: "last (map root_of ts) = root_of (ts ! (length ts - Suc 0))" using l(3) by (subst last_conv_nth) auto
  have ch: "map (be_at ?d 4) (?offs @ [8]) = map root_of ts"
  proof (rule nth_equalityI)
    fix i assume "i < length (map (be_at ?d 4) (?offs @ [8]))"
    then show "map (be_at ?d 4) (?offs @ [8]) ! i = map root_of ts ! i"
      using child [of i] l(3,7) lt by (auto simp: nth_append not_less less_Suc_eq)
  qed (use l(3) in simp)
  let ?rk3 = "rk\<lparr>rheap := c_free (c_free (?h3\<lparr>live := live ?h3 + 1\<rparr>))\<rparr>"
  have w3: "walked g {} [] rk ?rk3" using walked_heap [OF walked_refl [OF q(4)]] q(5) by simp
  have "plain_tree btree ?rk3" using assms(4) by (simp add: plain_tree_def)
  then obtain rk4 where c4: "children_loop (f btree) (map root_of ts) ?rk3 = Ret rk4"
    "walked g (set (concat (map pages_of ts))) (concat (map rows_of ts)) ?rk3 rk4"
    using children_walk [of ts p g btree "f btree" ?rk3] assms(6,7) walked_based [OF assms(1) w3] by auto
  have w4: "walked g (set (concat (map pages_of ts))) (concat (map rows_of ts)) rk rk4" using walked_trans [OF w3 c4(2)] by simp
  have "walked g (set (concat (map pages_of ts))) (concat (map rows_of ts)) rk (rk4\<lparr>rheap := c_free (rheap rk4)\<rparr>)"
    using walked_heap [OF w4] walked_quiet [OF w4] by simp
  moreover have "page_body n env f btree no rk = Ret (SQLITERK_OK, Some (?page\<lparr>pdata := None\<rparr>), rk4\<lparr>rheap := c_free (rheap rk4)\<rparr>)"
    using aq cp c4(1) nos q(5) unfolding ch
    by (simp add: page_body_def sqliterkPageGetType_def parse_interior_def sqliterkPageGetData_def c_alloc_no_oom sqliterkPageClearData_def Let_def)
  ultimately show ?thesis by blast
qed

lemma page_walk:
  assumes "based p g rk" "plain_tree btree rk" "on_disk p no" "status_of (the (rpager rk)) no \<noteq> st_checking" "no \<notin> S"
    and body: "\<And>rk1. based p g rk1 \<Longrightarrow> plain_tree btree rk1 \<Longrightarrow>
      (\<And>m. m \<noteq> no \<Longrightarrow> status_of (the (rpager rk1)) m = status_of (the (rpager rk)) m) \<Longrightarrow>
      \<exists>page rk2. page_body n env (sqliterkBtreeParsePage n env) btree no rk1 = Ret (SQLITERK_OK, Some page, rk2) \<and> walked g S rs rk1 rk2"
  shows "\<exists>rk'. sqliterkBtreeParsePage (Suc n) env btree no rk = Ret (SQLITERK_OK, rk') \<and> walked g (insert no S) rs rk rk'"
proof -
  obtain q where q: "rpager rk = Some q" "pager_wf q" "same_db p q" using assms(1) by (rule basedE)
  have bn: "bnotify btree" using assms(2) by (simp add: plain_tree_def)
  have v: "valid_pageno p no" using assms(3) by (simp add: on_disk_def)
  let ?rk1 = "rk\<lparr>rpager := Some (set_status q no st_checking)\<rparr>"
  have bg: "notify_begin_page btree no rk = Ret (SQLITERK_OK, ?rk1)" using begin_page_eq [OF q(1,2) bn] assms(4) q(1) by simp
  note b1 = begin_walked [OF assms(1) bn bg]
  have pt: "plain_tree btree ?rk1" using assms(2) by (simp add: plain_tree_def)
  obtain page rk2 where pb: "page_body n env (sqliterkBtreeParsePage n env) btree no ?rk1 = Ret (SQLITERK_OK, Some page, rk2)"
    "walked g S rs ?rk1 rk2" using body [OF conjunct1 [OF b1] pt] b1 by blast
  obtain rk3 where e: "notify_end_page btree no SQLITERK_OK rk2 = Ret rk3" "walked g (insert no S) rs rk rk3"
    by (rule end_walked [OF pb(2) conjunct1 [OF b1] bn v, of rk]) (use b1 in auto)
  have "walked g (insert no S) rs rk (rk3\<lparr>rheap := snd (sqliterkPageRelease (Some page) (rheap rk3))\<rparr>)"
    using walked_heap [OF e(2)] walked_quiet [OF e(2)] by (simp add: release_live)
  moreover have "\<not> no > sqliterkPagerGetPageCount (rpager rk)"
    using v q same_db_simps(6) [OF q(3)] by (simp add: sqliterkPagerGetPageCount_def valid_pageno_def)
  ultimately show ?thesis using bg pb(1) e(1) by auto
qed

lemma stored_on_disk: "stored p t \<Longrightarrow> on_disk p (root_of t)"
  by (cases t) (auto simp: leaf_at_def node_at_def Let_def)

lemma table_walk:
  "based p g rk \<Longrightarrow> plain_pager p \<Longrightarrow> disk_ok env \<Longrightarrow> plain_tree btree rk \<Longrightarrow> limits_ok (usableSize p) btree \<Longrightarrow>
   stored p t \<Longrightarrow> distinct (pages_of t) \<Longrightarrow> \<forall>m \<in> set (pages_of t). status_of (the (rpager rk)) m \<noteq> st_checking \<Longrightarrow>
   length (pages_of t) < n \<Longrightarrow>
   \<exists>rk'. sqliterkBtreeParsePage n env btree (root_of t) rk = Ret (SQLITERK_OK, rk') \<and>
     walked g (set (pages_of t)) (rows_of t) rk rk'"
proof (induction t arbitrary: n rk)
  case (Leaf no rows)
  obtain k where n: "n = Suc k" using Leaf.prems(9) by (cases n) auto
  have ch: "list_all (\<lambda>r. length (row_chain r) < k) rows"
  proof -
    have "length (row_chain r) < k" if "r \<in> set rows" for r
      using length_concat_mem [OF that, of row_chain] Leaf.prems(9) n by simp
    then show ?thesis by (simp add: list_all_iff)
  qed
  have "\<exists>rk'. sqliterkBtreeParsePage (Suc k) env btree no rk = Ret (SQLITERK_OK, rk') \<and>
      walked g (insert no (set (concat (map row_chain rows)))) rows rk rk'"
  proof (rule page_walk [OF Leaf.prems(1,4)])
    show "on_disk p no" using stored_on_disk [OF Leaf.prems(6)] by simp
  next
    fix rk1 assume "based p g rk1" "plain_tree btree rk1"
    then show "\<exists>page rk2. page_body k env (sqliterkBtreeParsePage k env) btree no rk1 = Ret (SQLITERK_OK, Some page, rk2) \<and>
        walked g (set (concat (map row_chain rows))) rows rk1 rk2"
      using leaf_body_walk [OF _ Leaf.prems(2,3) _ Leaf.prems(5) _ ch] Leaf.prems(6) by simp
  qed (use Leaf.prems(7,8) in auto)
  then show ?case using n by simp
next
  case (Node no ts)
  obtain k where n: "n = Suc k" using Node.prems(9) by (cases n) auto
  have st: "node_at p no (map root_of ts)" "\<And>t. t \<in> set ts \<Longrightarrow> stored p t" using Node.prems(6) by (auto simp: list_all_iff)
  have len: "length (pages_of t) < k" if "t \<in> set ts" for t
    using length_concat_mem [OF that, of pages_of] Node.prems(9) n by simp
  have di: "distinct (pages_of t)" "no \<notin> set (pages_of t)" if "t \<in> set ts" for t
    using Node.prems(7) that by (auto simp: distinct_concat_iff)
  have "\<exists>rk'. sqliterkBtreeParsePage (Suc k) env btree no rk = Ret (SQLITERK_OK, rk') \<and>
      walked g (insert no (set (concat (map pages_of ts)))) (concat (map rows_of ts)) rk rk'"
  proof (rule page_walk [OF Node.prems(1,4)])
    show "on_disk p no" using stored_on_disk [OF Node.prems(6)] by simp
    show "no \<notin> set (concat (map pages_of ts))" using Node.prems(7) by simp
  next
    fix rk1 assume rk1: "based p g rk1" "plain_tree btree rk1"
      "\<And>m. m \<noteq> no \<Longrightarrow> status_of (the (rpager rk1)) m = status_of (the (rpager rk)) m"
    show "\<exists>page rk2. page_body k env (sqliterkBtreeParsePage k env) btree no rk1 = Ret (SQLITERK_OK, Some page, rk2) \<and>
        walked g (set (concat (map pages_of ts))) (concat (map rows_of ts)) rk1 rk2"
    proof (rule node_body_walk [OF rk1(1) Node.prems(2,3) rk1(2) st(1)])
      show "\<forall>t \<in> set ts. \<forall>m \<in> set (pages_of t). status_of (the (rpager rk1)) m \<noteq> st_checking"
        using Node.prems(8) rk1(3) di(2) by (auto, metis)
    next
      fix t and rk2 :: "('a, 'b) sqliterk"
      assume "t \<in> set ts" "based p g rk2" "plain_tree btree rk2" "\<forall>m \<in> set (pages_of t). status_of (the (rpager rk2)) m \<noteq> st_checking"
      then show "\<exists>rk'. sqliterkBtreeParsePage k env btree (root_of t) rk2 = Ret (SQLITERK_OK, rk') \<and>
          walked g (set (pages_of t)) (rows_of t) rk2 rk'"
        using Node.IH [of t rk2 k] Node.prems(2,3,5) st(2) di(1) len by blast
    qed
  qed (use Node.prems(8) in auto)
  then show ?case using n by simp
qed

section \<open>Opening the b-tree\<close>

lemma btree_limits_ok:
  assumes "385 \<le> U" "U \<le> 16384"
  obtains b' where "btree_limits U b = Ret b'" "limits_ok U b'" "btype b' = btype b" "rootpage b' = rootpage b"
proof -
  let ?b = "b\<lparr>maxLocal := c_div ((U - 12) * 64) 255 - 23, minLocal := c_div ((U - 12) * 32) 255 - 23,
    maxLeaf := U - 35, minLeaf := c_div ((U - 12) * 32) 255 - 23\<rparr>"
  have "btree_limits U b = Ret ?b" using assms by (simp add: btree_limits_def c_arith_def)
  then show thesis by (rule that) (use assms in \<open>auto simp: limits_ok_def c_div_nonneg\<close>)
qed

lemma root_page_type:
  assumes "stored p t"
  shows "page_type_of (sint (page_bytes p (root_of t) ! nat (sqliterkPagenoHeaderOffset (root_of t)))) \<in> {leaf_table, interior_table}"
  using assms by (cases t) (auto simp: leaf_at_def node_at_def Let_def page_type_of_def sqliterkPagenoHeaderOffset_def)

lemma meta_master: "meta_type_loop system_types (c_str ''sqlite_master'') t = btree_type_master"
  by code_simp

lemma btree_open_stored:
  assumes "plain_pager q" "disk_ok env" "stored q t" "outcomes h = []"
  obtains b h' where "sqliterkBtreeOpen env (Some q) (root_of t) h = Ret (Inr b, h')" "outcomes h' = []"
    "limits_ok (usableSize q) b" "btype b = (if root_of t = 1 then btree_type_master else btree_type_table)"
    "\<exists>pg. rootpage b = Some pg \<and> pageno pg = root_of t"
proof -
  let ?no = "root_of t" and ?h1 = "h\<lparr>live := live h + 1\<rparr>"
  let ?ty = "page_type_of (sint (page_bytes q ?no ! nat (sqliterkPagenoHeaderOffset ?no)))"
  let ?page = "\<lparr>pageno = ?no, pdata = Some (page_bytes q ?no), ptype = ?ty\<rparr>"
  let ?b = "zero_btree\<lparr>rootpage := Some ?page\<rparr>"
  have aq: "sqliterkPageAcquire env (Some q) ?no ?h1 = Ret (Inr ?page, ?h1\<lparr>live := live ?h1 + 2\<rparr>)"
    using acquire_stored [OF assms(1,2) stored_on_disk [OF assms(3)], of ?h1 unknown] assms(4) by (simp add: sqliterkPageAcquire_def)
  obtain rc b h3 where rt: "btree_root_type ?no ?b (?h1\<lparr>live := live ?h1 + 2\<rparr>) = (rc, b, h3)" by (metis prod_cases3)
  have b: "rc = 0 \<and> outcomes h3 = [] \<and> rootpage b = Some ?page \<and> btype b = (if ?no = 1 then btree_type_master else btree_type_table)"
  proof (cases "?no = 1")
    case True
    then show ?thesis using rt assms(4)
      by (auto simp: btree_root_type_def sqliterkBtreeSetMeta_def zero_btree_def c_alloc_no_oom sqliterkBtreeIsSystemType_def
          meta_master Let_def)
  next
    case False
    then show ?thesis using rt assms(4) root_page_type [OF assms(3)]
      by (auto simp: btree_root_type_def sqliterkPageGetType_def)
  qed
  let ?b2 = "b\<lparr>rootpage := Some (?page\<lparr>pdata := None\<rparr>)\<rparr>"
  obtain b' where b': "btree_limits (usableSize q) ?b2 = Ret b'" "limits_ok (usableSize q) b'" "btype b' = btype ?b2" "rootpage b' = rootpage ?b2"
    by (rule btree_limits_ok [of "usableSize q" ?b2]) (use plain_limits [OF assms(1)] in auto)
  show thesis
    by (rule that [of b' "c_free h3"])
       (use b b' aq rt assms(4) in \<open>auto simp: sqliterkBtreeOpen_def c_alloc_no_oom sqliterkPageClearData_def sqliterkPagerGetUsableSize_def Let_def\<close>)
qed

section \<open>A table is delivered\<close>

lemma parse_page_walk:
  assumes "based p g rk" "rpager rk = Some p" "plain_pager p" "disk_ok env" "stored p t" "distinct (pages_of t)"
    and "\<forall>m \<in> set (pages_of t). status_of p m \<noteq> st_checking" "status_of p (root_of t) = st_unchecked"
    and "root_of t = 1 \<longrightarrow> \<not> recursive rk" "length (pages_of t) < n"
  shows "\<exists>rk'. sqliterkParsePage n env (Some rk) (root_of t) = Ret (SQLITERK_OK, Some rk') \<and>
     walked g (set (pages_of t)) (rows_of t) rk rk'"
proof -
  have wf: "pager_wf p" using assms(3) by (simp add: plain_pager_def)
  have q: "rk_ok rk" "outcomes (rheap rk) = []" "rnotify rk = collector g" using assms(1) by (auto elim!: basedE)
  obtain b h1 where b: "sqliterkBtreeOpen env (Some p) (root_of t) (rheap rk) = Ret (Inr b, h1)" "outcomes h1 = []"
    "limits_ok (usableSize p) b" "btype b = (if root_of t = 1 then btree_type_master else btree_type_table)"
    "\<exists>pg. rootpage b = Some pg \<and> pageno pg = root_of t"
    by (rule btree_open_stored [OF assms(3-5) q(2)])
  let ?rk1 = "rk\<lparr>rheap := h1\<rparr>" and ?b = "b\<lparr>bnotify := True\<rparr>"
  have w1: "walked g {} [] rk ?rk1" using walked_heap [OF walked_refl [OF q(1)] b(2)] .
  have pt: "plain_tree ?b ?rk1" using b(4) assms(9) by (auto simp: plain_tree_def sqliterkBtreeIsSystemType_def)
  have lb: "limits_ok (usableSize p) ?b" using b(3) by (simp add: limits_ok_def)
  have st: "\<forall>m \<in> set (pages_of t). status_of (the (rpager ?rk1)) m \<noteq> st_checking" using assms(2,7) by simp
  obtain rk2 where r2: "sqliterkBtreeParsePage n env ?b (root_of t) ?rk1 = Ret (SQLITERK_OK, rk2)"
    "walked g (set (pages_of t)) (rows_of t) ?rk1 rk2"
    using table_walk [OF walked_based [OF assms(1) w1] assms(3,4) pt lb assms(5,6) st assms(10)] by blast
  have w2: "walked g (set (pages_of t)) (rows_of t) rk rk2" using walked_trans [OF w1 r2(2)] by simp
  have v: "valid_pageno p (root_of t)" using stored_on_disk [OF assms(5)] by (simp add: on_disk_def)
  have n2: "rnotify rk2 = collector g" using w2 q(3) by (simp add: walked_def)
  have pb: "sqliterkParseBtree (sqliterkBtreeParsePage n env) b ?rk1 = Ret (SQLITERK_OK, rk2)"
    using b(5) v assms(2) r2(1) q(3) n2
    by (auto simp: sqliterkParseBtree_def sqliterkBtreeGetRootPage_def sqliterkPageGetPageno_def sqliterkBtreeSetNotify_def
        sqliterkBtreeParse_def sqliterkNotify_onBeginParseBtree_def sqliterkNotify_onEndParseBtree_def collector_def zero_notify_def Let_def)
  have "walked g (set (pages_of t)) (rows_of t) rk (rk2\<lparr>rheap := snd (sqliterkBtreeClose (Some b) (rheap rk2))\<rparr>)"
    using walked_heap [OF w2] walked_quiet [OF w2] by simp
  then show ?thesis using b(1) pb assms(2,8) get_status [OF wf] by (simp add: sqliterkParsePage_def)
qed

text \<open>C1: What is in the file reaches the application. A table stored at any depth of interior pages, with
  rows of any number of values and payloads that go on in chains of overflow pages, is delivered to the row
  callback completely and in order, each row with its rowid and its values, when the root page is given to
  \<^verbatim>\<open>sqliterkParsePage\<close>. The call returns \<^verbatim>\<open>SQLITERK_OK\<close>, the status of every page of the table, overflow pages
  included, is then checked and that of every other page unchanged, and every block of memory is
  released. The bound on the recursion is the number of pages of the table.\<close>

theorem table_recovered:
  assumes "rpager rk = Some p" "plain_pager p" "disk_ok env" "outcomes (rheap rk) = []" "rnotify rk = collector g"
    and "stored p t" "distinct (pages_of t)" "\<forall>m \<in> set (pages_of t). status_of p m \<noteq> st_checking"
    and "status_of p (root_of t) = st_unchecked" "root_of t = 1 \<longrightarrow> \<not> recursive rk" "length (pages_of t) < n"
  shows "\<exists>rk' p'. sqliterkParsePage n env (Some rk) (root_of t) = Ret (SQLITERK_OK, Some rk') \<and> rpager rk' = Some p' \<and>
    userdata rk' = foldl g (userdata rk) (map row_value (rows_of t)) \<and> live (rheap rk') = live (rheap rk) \<and>
    (\<forall>m. status_of p' m = (if m \<in> set (pages_of t) then st_checked else status_of p m))"
proof -
  have ok: "rk_ok rk" using assms(1,2,4,5) by (auto simp: rk_ok_def plain_pager_def collector_def zero_notify_def)
  then have "based p g rk" using assms(1,5) by (simp add: based_def same_db_def)
  from parse_page_walk [OF this assms(1-3,6-11)] obtain rk' where
    r: "sqliterkParsePage n env (Some rk) (root_of t) = Ret (SQLITERK_OK, Some rk')" "walked g (set (pages_of t)) (rows_of t) rk rk'" by blast
  have "live (rheap rk') = live (rheap rk)" using rk_parse_page_rel [OF ok r(1)] by (auto simp: rk_rel_def)
  moreover obtain p' where "rpager rk' = Some p'" using r(2) by (auto simp: walked_def elim!: rk_okE)
  ultimately show ?thesis using r assms(1) by (auto simp: walked_def)
qed

text \<open>A database of six pages of 512 bytes: page 2 is the root of a table with the leaves 3 and 4; the row of
  page 4 has a text of 1000 bytes that goes on in pages 6 and 5.\<close>

definition sample_row :: row where
  "sample_row = \<lparr>row_id = 7, row_header = 4, row_fields = [(1, [42]), (0, []), (17, [0x68, 0x69])], row_chain = []\<rparr>"

definition sample_long_row :: row where
  "sample_long_row = \<lparr>row_id = 300, row_header = 3, row_fields = [(2013, replicate 1000 0x61)], row_chain = [6, 5]\<rparr>"

definition sample_table :: table where
  "sample_table = Node 2 [Leaf 3 [sample_row], Leaf 4 [sample_long_row]]"

definition pad :: "byte list \<Rightarrow> byte list" where
  "pad bs = bs @ replicate (512 - length bs) 0"

definition table_db :: "byte list" where
  "table_db = concat (map pad [sample_header,
     [5, 0, 0, 0, 1, 0, 0, 0, 0, 0, 0, 4, 0, 14] @ [0, 0, 0, 3],
     [13, 0, 0, 0, 1, 0, 0, 0, 0, 10] @ cell_prefix sample_row @ payload sample_row,
     [13, 0, 0, 0, 1, 0, 0, 0, 0, 10] @ cell_prefix sample_long_row @ take 39 (payload sample_long_row) @ [0, 0, 0, 6],
     [0, 0, 0, 0] @ drop 508 (drop 39 (payload sample_long_row)),
     [0, 0, 0, 5] @ take 508 (drop 39 (payload sample_long_row))])"

definition table_pager :: "unit sqliterk_pager" where
  "table_pager = db_pager\<lparr>pfile := Some \<lparr>fpath = Some [47], fd = 3, fdata = table_db\<rparr>,
     pagesStatus := Some (replicate 7 st_unchecked), pagecount := 6\<rparr>"

definition table_rk :: "(unit, (int \<times> item list) list) sqliterk" where
  "table_rk = \<lparr>rpager = Some table_pager, rnotify = collector (\<lambda>u r. u @ [r]), ruserInfo = 0, recursive = True,
     userdata = [], rheap = \<lparr>outcomes = [], live = 5\<rparr>\<rparr>"

lemma bytes_atI: "d = pre @ bs @ post \<Longrightarrow> off = int (length pre) \<Longrightarrow> bytes_at d off bs"
  by (simp add: bytes_at_def)

lemma sample_bytes:
  "payload sample_row = [4, 1, 0, 17, 42, 0x68, 0x69]" "cell_prefix sample_row = [7, 7]"
  "payload sample_long_row = [3, 0x8f, 0x5d] @ replicate 1000 0x61" "cell_prefix sample_long_row = [0x87, 0x6b, 0x82, 0x2c]"
proof -
  have p: "put_serial 4 = [4]" "put_serial 1 = [1]" "put_serial 0 = [0]" "put_serial 17 = [17]" "put_serial 7 = [7]" "put_serial 3 = [3]"
    "put_serial 2013 = [0x8f, 0x5d]" "put_serial 1003 = [0x87, 0x6b]" "put_serial 300 = [0x82, 0x2c]" by code_simp+
  show s: "payload sample_row = [4, 1, 0, 17, 42, 0x68, 0x69]"
    and l: "payload sample_long_row = [3, 0x8f, 0x5d] @ replicate 1000 0x61"
    by (simp_all add: payload_def record_bytes_def record_header_def sample_row_def sample_long_row_def p)
  show "cell_prefix sample_row = [7, 7]" unfolding cell_prefix_def s by (simp add: sample_row_def p)
  show "cell_prefix sample_long_row = [0x87, 0x6b, 0x82, 0x2c]" unfolding cell_prefix_def l
    by (simp add: sample_long_row_def p)
qed

lemma pad_pages:
  "list_all (\<lambda>b. length b \<le> 512) ps \<Longrightarrow> k < length ps \<Longrightarrow> take 512 (drop (512 * k) (concat (map pad ps))) = pad (ps ! k)"
proof (induction ps arbitrary: k)
  case (Cons b ps)
  have l: "length (pad b) = 512" using Cons.prems(1) by (simp add: pad_def)
  show ?case
  proof (cases k)
    case 0
    then show ?thesis using l by simp
  next
    case (Suc j)
    then have "drop (512 * k) (concat (map pad (b # ps))) = drop (512 * j) (concat (map pad ps))" using l by simp
    then show ?thesis using Cons Suc by simp
  qed
qed simp

lemma length_table_db: "length table_db = 3072"
  by (simp add: table_db_def pad_def sample_bytes sample_header_def sqlite_magic_def)

lemma table_page_bytes:
  "page_bytes table_pager 2 = pad [5, 0, 0, 0, 1, 0, 0, 0, 0, 0, 0, 4, 0, 14, 0, 0, 0, 3]"
  "page_bytes table_pager 3 = pad ([13, 0, 0, 0, 1, 0, 0, 0, 0, 10] @ cell_prefix sample_row @ payload sample_row)"
  "page_bytes table_pager 4 = pad ([13, 0, 0, 0, 1, 0, 0, 0, 0, 10] @ cell_prefix sample_long_row @ take 39 (payload sample_long_row) @ [0, 0, 0, 6])"
  "page_bytes table_pager 5 = pad ([0, 0, 0, 0] @ drop 508 (drop 39 (payload sample_long_row)))"
  "page_bytes table_pager 6 = pad ([0, 0, 0, 5] @ take 508 (drop 39 (payload sample_long_row)))"
proof -
  let ?ps = "[sample_header,
     [5, 0, 0, 0, 1, 0, 0, 0, 0, 0, 0, 4, 0, 14] @ [0, 0, 0, 3],
     [13, 0, 0, 0, 1, 0, 0, 0, 0, 10] @ cell_prefix sample_row @ payload sample_row,
     [13, 0, 0, 0, 1, 0, 0, 0, 0, 10] @ cell_prefix sample_long_row @ take 39 (payload sample_long_row) @ [0, 0, 0, 6],
     [0, 0, 0, 0] @ drop 508 (drop 39 (payload sample_long_row)),
     [0, 0, 0, 5] @ take 508 (drop 39 (payload sample_long_row))] :: byte list list"
  have l: "list_all (\<lambda>b. length b \<le> 512) ?ps" by (simp add: sample_bytes sample_header_def sqlite_magic_def)
  have e: "page_bytes table_pager (int k + 1) = pad (?ps ! k)" if "k < 6" for k
    using pad_pages [OF l, of k] that
    by (simp add: page_bytes_def table_pager_def db_pager_def table_db_def nat_mult_distrib mult.commute)
  show "page_bytes table_pager 2 = pad [5, 0, 0, 0, 1, 0, 0, 0, 0, 0, 0, 4, 0, 14, 0, 0, 0, 3]" using e [of 1] by simp
  show "page_bytes table_pager 3 = pad ([13, 0, 0, 0, 1, 0, 0, 0, 0, 10] @ cell_prefix sample_row @ payload sample_row)" using e [of 2] by simp
  show "page_bytes table_pager 4 = pad ([13, 0, 0, 0, 1, 0, 0, 0, 0, 10] @ cell_prefix sample_long_row @ take 39 (payload sample_long_row) @ [0, 0, 0, 6])" using e [of 3] by simp
  show "page_bytes table_pager 5 = pad ([0, 0, 0, 0] @ drop 508 (drop 39 (payload sample_long_row)))" using e [of 4] by simp
  show "page_bytes table_pager 6 = pad ([0, 0, 0, 5] @ take 508 (drop 39 (payload sample_long_row)))" using e [of 5] by simp
qed

lemma pad_at:
  "off + n \<le> length bs \<Longrightarrow> be_at (pad bs) n (int off) = be_value (take n (drop off bs))"
  "bytes_at bs i xs \<Longrightarrow> bytes_at (pad bs) i xs" "k < length bs \<Longrightarrow> pad bs ! k = bs ! k" "length bs \<le> 512 \<Longrightarrow> length (pad bs) = 512"
  by (auto simp: be_at_def pad_def bytes_at_def nth_append)

lemma table_on_disk: "no \<in> {1, 2, 3, 4, 5, 6} \<Longrightarrow> on_disk table_pager no"
  by (auto simp: on_disk_def valid_pageno_def table_pager_def db_pager_def length_table_db)

lemma table_pager_simps: "usableSize table_pager = 512" "pagesize table_pager = 512"
  by (simp_all add: table_pager_def db_pager_def)

lemma sample_rows_ok: "row_ok sample_row" "row_ok sample_long_row"
proof -
  have "record_header 4 (row_fields sample_row) = [4, 1, 0, 17]" by code_simp
  then show "row_ok sample_row" unfolding row_ok_def sample_bytes
    by (simp add: sample_row_def decode_value_def format_length_def)
  have "record_header 3 [(2013, xs)] = [3, 0x8f, 0x5d]" for xs
  proof -
    have "record_header 3 [(2013, xs)] = record_header 3 [(2013, [])]" by (simp add: record_header_def)
    also have "\<dots> = [3, 0x8f, 0x5d]" by code_simp
    finally show ?thesis .
  qed
  then show "row_ok sample_long_row" unfolding row_ok_def sample_bytes
    by (simp add: sample_long_row_def decode_value_def format_length_def)
qed

lemma be_value_small: "be_value [a, b] = uint a * 256 + uint b" "be_value [a, b, c, d] = ((uint a * 256 + uint b) * 256 + uint c) * 256 + uint d"
  by (simp_all add: be_value_def)

lemma sample_leaf: "leaf_at table_pager 3 [sample_row]"
proof -
  let ?bs = "[13, 0, 0, 0, 1, 0, 0, 0, 0, 10] @ cell_prefix sample_row @ payload sample_row"
  have "be_at (pad ?bs) 2 3 = 1" "be_at (pad ?bs) 2 8 = 10" "pad ?bs ! 0 = 13" "length (pad ?bs) = 512"
    using pad_at(1) [of 3 2 ?bs] pad_at(1) [of 8 2 ?bs] pad_at(3) [of 0 ?bs] pad_at(4) [of ?bs]
    by (simp_all add: sample_bytes be_value_small)
  moreover have "bytes_at (pad ?bs) 10 (cell_prefix sample_row @ payload sample_row)"
    by (rule pad_at(2), rule bytes_atI [of _ "[13, 0, 0, 0, 1, 0, 0, 0, 0, 10]" _ "[]"]) simp_all
  moreover have "local_bytes 512 7 = 7" "row_chain sample_row = []" "length (payload sample_row) = 7"
    by (simp_all add: local_bytes_def sample_row_def sample_bytes [unfolded sample_row_def])
  ultimately show ?thesis using sample_rows_ok(1) table_on_disk [of 3]
    by (simp add: leaf_at_def table_page_bytes sqliterkPagenoHeaderOffset_def table_pager_simps cell_at_def Let_def)
qed

lemma sample_chain: "chain_at table_pager [6, 5] (drop 39 (payload sample_long_row)) 6"
proof -
  let ?r = "drop 39 (payload sample_long_row)"
  let ?a = "[0, 0, 0, 5] @ take 508 ?r" and ?b = "[0, 0, 0, 0] @ drop 508 ?r"
  have l: "length ?r = 964" by (simp add: sample_bytes)
  have "be_at (pad ?a) 4 0 = 5" "be_at (pad ?b) 4 0 = 0"
    using pad_at(1) [of 0 4 ?a] pad_at(1) [of 0 4 ?b] by (simp_all add: be_value_small)
  moreover have "bytes_at (pad ?a) 4 (take 508 ?r)" "bytes_at (pad ?b) 4 (drop 508 ?r)"
    by (rule pad_at(2), rule bytes_atI [of _ "[0, 0, 0, 5]" _ "[]"], simp_all)
       (rule pad_at(2), rule bytes_atI [of _ "[0, 0, 0, 0]" _ "[]"], simp_all)
  ultimately show ?thesis using table_on_disk [of 5] table_on_disk [of 6] l
    by (simp add: table_page_bytes table_pager_simps Let_def del: drop_drop)
qed

lemma sample_long_leaf: "leaf_at table_pager 4 [sample_long_row]"
proof -
  let ?t = "take 39 (payload sample_long_row)"
  let ?bs = "[13, 0, 0, 0, 1, 0, 0, 0, 0, 10] @ cell_prefix sample_long_row @ ?t @ [0, 0, 0, 6]"
  have l: "length (payload sample_long_row) = 1003" "length (cell_prefix sample_long_row) = 4" by (simp_all add: sample_bytes)
  have "be_at (pad ?bs) 2 3 = 1" "be_at (pad ?bs) 2 8 = 10" "pad ?bs ! 0 = 13" "length (pad ?bs) = 512" "be_at (pad ?bs) 4 53 = 6"
    using pad_at(1) [of 3 2 ?bs] pad_at(1) [of 8 2 ?bs] pad_at(1) [of 53 4 ?bs] pad_at(3) [of 0 ?bs] pad_at(4) [of ?bs] l
    by (simp_all add: be_value_small)
  moreover have "bytes_at (pad ?bs) 10 (cell_prefix sample_long_row @ ?t)"
    by (rule pad_at(2), rule bytes_atI [of _ "[13, 0, 0, 0, 1, 0, 0, 0, 0, 10]" _ "[0, 0, 0, 6]"]) simp_all
  moreover have "local_bytes 512 1003 = 39" "row_chain sample_long_row = [6, 5]" by (simp_all add: local_bytes_def sample_long_row_def)
  ultimately show ?thesis using sample_rows_ok(2) table_on_disk [of 4] sample_chain l
    by (simp add: leaf_at_def table_page_bytes sqliterkPagenoHeaderOffset_def table_pager_simps cell_at_def Let_def)
qed

lemma sample_stored: "stored table_pager sample_table"
proof -
  let ?bs = "[5, 0, 0, 0, 1, 0, 0, 0, 0, 0, 0, 4, 0, 14, 0, 0, 0, 3] :: byte list"
  have "be_at (pad ?bs) 2 3 = 1" "be_at (pad ?bs) 2 12 = 14" "be_at (pad ?bs) 4 8 = 4" "be_at (pad ?bs) 4 14 = 3" "pad ?bs ! 0 = 5"
    using pad_at(1) [of 3 2 ?bs] pad_at(1) [of 12 2 ?bs] pad_at(1) [of 8 4 ?bs] pad_at(1) [of 14 4 ?bs] pad_at(3) [of 0 ?bs]
    by (simp_all add: be_value_small)
  then show ?thesis using table_on_disk [of 2] sample_leaf sample_long_leaf
    by (simp add: sample_table_def node_at_def table_page_bytes table_pager_simps)
qed

theorem table_recovered_witness:
  "\<exists>rk'. sqliterkParsePage 6 db_env (Some table_rk) 2 = Ret (SQLITERK_OK, Some rk') \<and>
     userdata rk' = [(7, [IInt 42, INull, IText [0x68, 0x69]]), (300, [IText (replicate 1000 0x61)])]"
proof -
  have p: "plain_pager table_pager" by (simp add: plain_pager_def pager_wf_def table_pager_def db_pager_def)
  have d: "disk_ok db_env" by (simp add: disk_ok_def db_env_def sample_env_def)
  have pg: "pages_of sample_table = [2, 3, 4, 6, 5]" "root_of sample_table = 2"
    by (simp_all add: sample_table_def sample_row_def sample_long_row_def)
  have st: "status_of table_pager m = st_unchecked" if "1 \<le> m" "m \<le> 6" for m
    using that by (simp add: status_of_def sqliterkPagerGetStatus_def table_pager_def db_pager_def valid_pageno_def rd_def)
  have v: "map row_value (rows_of sample_table) = [(7, [IInt 42, INull, IText [0x68, 0x69]]), (300, [IText (replicate 1000 0x61)])]"
    by (simp add: sample_table_def row_value_def row_items_def sample_row_def sample_long_row_def decode_value_def
        format_length_def be_value_def)
  show ?thesis
    using table_recovered [of table_rk table_pager db_env "\<lambda>u r. u @ [r]" sample_table 6] p d pg st sample_stored v
    by (auto simp: table_rk_def)
qed

end
