(* ===== verification/RK_Api.thy ===== *)
theory RK_Api
  imports RK_Walk
begin

text \<open>
  The public interface of SQLiteRepairKit (\<^verbatim>\<open>sqliterk_api.c\<close>): the functions an application calls, each
  a call of the internal one. A table of the interface is a b-tree, a column of it a row. The
  registration of a log function has no effect on the model and is left out.

  The property of this theory says what an application reads from a row through the interface.
\<close>

section \<open>Operations\<close>

definition sqliterk_register_notify :: "('c, 'u) sqliterk option \<Rightarrow> 'u sqliterk_notify \<Rightarrow> int \<times> ('c, 'u) sqliterk option" where
  "sqliterk_register_notify rk nt = sqliterkSetNotify rk nt"

definition sqliterk_open ::
    "'c rk_env \<Rightarrow> byte list option \<Rightarrow> sqliterk_cipher_conf option \<Rightarrow> 'u \<Rightarrow> int \<Rightarrow> heap \<Rightarrow>
     ((int + ('c, 'u) sqliterk) \<times> int list \<times> int \<times> heap) cres" where
  "sqliterk_open env path cipher u act h = sqliterkOpen env path cipher u act h"

definition sqliterk_user_info :: "('c, 'u) sqliterk option \<Rightarrow> int" where
  "sqliterk_user_info rk = sqliterkGetUserInfo rk"

definition sqliterk_parse :: "nat \<Rightarrow> 'c rk_env \<Rightarrow> ('c, 'u) sqliterk option \<Rightarrow> (int \<times> ('c, 'u) sqliterk option) cres" where
  "sqliterk_parse n env rk = sqliterkParse n env rk"

definition sqliterk_parse_page ::
    "nat \<Rightarrow> 'c rk_env \<Rightarrow> ('c, 'u) sqliterk option \<Rightarrow> int \<Rightarrow> (int \<times> ('c, 'u) sqliterk option) cres" where
  "sqliterk_parse_page n env rk no = sqliterkParsePage n env rk no"

definition sqliterk_parse_master :: "nat \<Rightarrow> 'c rk_env \<Rightarrow> ('c, 'u) sqliterk option \<Rightarrow> (int \<times> ('c, 'u) sqliterk option) cres" where
  "sqliterk_parse_master n env rk = sqliterkParseMaster n env rk"

definition sqliterk_close :: "('c, 'u) sqliterk option \<Rightarrow> int \<Rightarrow> heap \<Rightarrow> int \<times> int list \<times> int \<times> heap" where
  "sqliterk_close rk act h = sqliterkClose rk act h"

definition sqliterk_get_user_info :: "('c, 'u) sqliterk option \<Rightarrow> int" where
  "sqliterk_get_user_info rk = sqliterkGetUserInfo rk"

definition sqliterk_set_user_info :: "('c, 'u) sqliterk option \<Rightarrow> int \<Rightarrow> ('c, 'u) sqliterk option" where
  "sqliterk_set_user_info rk info = snd (sqliterkSetUserInfo rk info)"

definition sqliterk_column_count :: "sqliterk_column option \<Rightarrow> int" where
  "sqliterk_column_count column = sqliterkValuesGetCount (sqliterkColumnGetValues column)"

definition sqliterk_column_type :: "sqliterk_column option \<Rightarrow> int \<Rightarrow> value_type cres" where
  "sqliterk_column_type column index = sqliterkValuesGetType (sqliterkColumnGetValues column) index"

definition sqliterk_column_integer :: "sqliterk_column option \<Rightarrow> int \<Rightarrow> int cres" where
  "sqliterk_column_integer column index = sqliterkValuesGetInteger (sqliterkColumnGetValues column) index"

definition sqliterk_column_integer64 :: "sqliterk_column option \<Rightarrow> int \<Rightarrow> int cres" where
  "sqliterk_column_integer64 column index = sqliterkValuesGetInteger64 (sqliterkColumnGetValues column) index"

definition sqliterk_column_number ::
    "(int \<Rightarrow> 64 word) \<Rightarrow> (byte list \<Rightarrow> 64 word) \<Rightarrow> sqliterk_column option \<Rightarrow> int \<Rightarrow> (64 word) cres" where
  "sqliterk_column_number i2d atof column index =
     sqliterkValuesGetNumber i2d atof (sqliterkColumnGetValues column) index"

definition sqliterk_column_text :: "sqliterk_column option \<Rightarrow> int \<Rightarrow> byte list option cres" where
  "sqliterk_column_text column index = sqliterkValuesGetText (sqliterkColumnGetValues column) index"

definition sqliterk_column_binary :: "sqliterk_column option \<Rightarrow> int \<Rightarrow> byte list option cres" where
  "sqliterk_column_binary column index = sqliterkValuesGetBinary (sqliterkColumnGetValues column) index"

definition sqliterk_column_bytes :: "sqliterk_column option \<Rightarrow> int \<Rightarrow> int cres" where
  "sqliterk_column_bytes column index = sqliterkValuesGetBytes (sqliterkColumnGetValues column) index"

definition sqliterk_column_rowid :: "sqliterk_column option \<Rightarrow> int" where
  "sqliterk_column_rowid column = sqliterkColumnGetRowId column"

definition sqliterk_table_name :: "sqliterk_btree option \<Rightarrow> byte list option" where
  "sqliterk_table_name table = sqliterkBtreeGetName table"

definition sqliterk_table_set_user_info :: "sqliterk_btree option \<Rightarrow> int \<Rightarrow> sqliterk_btree option" where
  "sqliterk_table_set_user_info table info = sqliterkBtreeSetUserInfo table info"

definition sqliterk_table_get_user_info :: "sqliterk_btree option \<Rightarrow> int" where
  "sqliterk_table_get_user_info table = sqliterkBtreeGetUserInfo table"

definition sqliterk_table_type :: "sqliterk_btree option \<Rightarrow> int" where
  "sqliterk_table_type table = sqliterkBtreeGetType table"

definition sqliterk_table_root :: "sqliterk_btree option \<Rightarrow> int" where
  "sqliterk_table_root table = sqliterkPageGetPageno (sqliterkBtreeGetRootPage table)"

definition sqliterk_description :: "int \<Rightarrow> string" where
  "sqliterk_description result = sqliterkGetResultCodeDescription result"

definition sqliterk_parsed_page_count :: "('c, 'u) sqliterk option \<Rightarrow> int cres" where
  "sqliterk_parsed_page_count rk = sqliterkGetParsedPageCount rk"

definition sqliterk_valid_page_count :: "('c, 'u) sqliterk option \<Rightarrow> int" where
  "sqliterk_valid_page_count rk = sqliterkGetValidPageCount rk"

definition sqliterk_page_count :: "('c, 'u) sqliterk option \<Rightarrow> int" where
  "sqliterk_page_count rk = sqliterkGetPageCount rk"

definition sqliterk_integrity :: "('c, 'u) sqliterk option \<Rightarrow> 32 word" where
  "sqliterk_integrity rk = sqliterkGetIntegrity rk"

definition sqliterk_cipher_conf_set_key ::
    "sqliterk_cipher_conf option \<Rightarrow> byte list option \<Rightarrow> int \<Rightarrow> sqliterk_cipher_conf option" where
  "sqliterk_cipher_conf_set_key conf key len = map_option (\<lambda>c. c\<lparr>ckey := key, key_len := len\<rparr>) conf"

section \<open>Reading a row\<close>

lemma column_api_defs: "column_wf c \<Longrightarrow> \<exists>vs. sqliterkColumnGetValues (Some c) = Some vs \<and> values_wf vs \<and> column_items c = items vs \<and>
    sqliterk_column_count (Some c) = int (length (items vs))"
  by (auto simp: column_wf_def sqliterkColumnGetValues_def column_items_def sqliterk_column_count_def
      sqliterkValuesGetCount_def values_wf_def items_def split: option.splits)

text \<open>An application sees the values of a row as they are. On a column as the parser keeps it, the count is
  the number of its values, and for every index below it the interface gives type, integer, text with its
  terminator, blob and byte count of the value at that place; from the count on every function
  answers like for a null.\<close>

theorem column_api_reads:
  assumes "column_wf c"
  shows "sqliterk_column_count (Some c) = int (length (column_items c)) \<and>
    (if i < length (column_items c) then
       case column_items c ! i of
         INull \<Rightarrow> sqliterk_column_type (Some c) (int i) = Ret vt_null \<and> sqliterk_column_integer64 (Some c) (int i) = Ret 0
       | IInt n \<Rightarrow> sqliterk_column_type (Some c) (int i) = Ret vt_integer \<and> sqliterk_column_integer64 (Some c) (int i) = Ret n
       | INum d \<Rightarrow> sqliterk_column_type (Some c) (int i) = Ret vt_number \<and>
           sqliterk_column_integer64 (Some c) (int i) = double_to_int64 d
       | IText t \<Rightarrow> sqliterk_column_type (Some c) (int i) = Ret vt_text \<and>
           sqliterk_column_text (Some c) (int i) = Ret (Some (t @ [0])) \<and>
           sqliterk_column_bytes (Some c) (int i) = Ret (int (length t))
       | IBlob b \<Rightarrow> sqliterk_column_type (Some c) (int i) = Ret vt_binary \<and>
           (\<exists>pad. sqliterk_column_binary (Some c) (int i) = Ret (Some (b @ pad))) \<and>
           sqliterk_column_bytes (Some c) (int i) = Ret (int (length b))
     else sqliterk_column_type (Some c) (int i) = Ret vt_null \<and> sqliterk_column_integer64 (Some c) (int i) = Ret 0 \<and>
       sqliterk_column_text (Some c) (int i) = Ret None \<and> sqliterk_column_binary (Some c) (int i) = Ret None \<and>
       sqliterk_column_bytes (Some c) (int i) = Ret 0)"
proof -
  obtain vs where vs: "sqliterkColumnGetValues (Some c) = Some vs" "values_wf vs" "column_items c = items vs"
    "sqliterk_column_count (Some c) = int (length (items vs))" using column_api_defs [OF assms] by blast
  show ?thesis
  proof (cases "i < length (column_items c)")
    case True
    then show ?thesis using values_get [OF vs(2), of i] vs
      by (cases "items vs ! i") (simp_all add: sqliterk_column_type_def sqliterk_column_integer64_def sqliterk_column_text_def
          sqliterk_column_bytes_def sqliterk_column_binary_def)
  next
    case False
    then have "\<not> int i < vcount vs" using vs by (simp add: sqliterk_column_count_def sqliterkValuesGetCount_def)
    then have "value_at (Some vs) (int i) = Ret None" by (simp add: value_at_def sqliterkValuesGetCount_def)
    then show ?thesis using False vs
      by (simp add: sqliterk_column_type_def sqliterk_column_integer64_def sqliterk_column_text_def sqliterk_column_bytes_def
          sqliterk_column_binary_def getter_defs)
  qed
qed

definition sample_column :: sqliterk_column where
  "sample_column = \<lparr>crowid = 9, cvalues = Some sample_values, coverflow = Some empty_values\<rparr>"

theorem column_api_reads_witness:
  "sqliterk_column_count (Some sample_column) = 1 \<and> sqliterk_column_text (Some sample_column) 0 = Ret (Some [104, 105, 0]) \<and>
   sqliterk_column_bytes (Some sample_column) 0 = Ret 2 \<and> sqliterk_column_type (Some sample_column) 1 = Ret vt_null"
proof -
  have "values_wf sample_values" "values_wf empty_values" by (simp_all add: values_wf_def sample_values_def empty_values_def item_of.simps)
  then have w: "column_wf sample_column" by (simp add: column_wf_def sample_column_def)
  have i: "column_items sample_column = [IText [104, 105]]"
    by (simp add: column_items_def items_def sample_column_def sample_values_def item_of.simps)
  show ?thesis using column_api_reads [OF w, of 0] column_api_reads [OF w, of 1] i by simp
qed

end
