(* ===== verification/Sqlite_Bitvec.thy ===== *)
theory Sqlite_Bitvec
  imports C_Prelude
begin

unbundle bit_operations_syntax

text \<open>
  The bitmaps of SQLite (\<^verbatim>\<open>bitvec.c\<close>): a set of integers from 1 to \<^verbatim>\<open>iSize\<close> in one of three
  representations, a plain bitmap, a hash table with linear probing, or an array of sub-bitmaps.

  A pointer to a \<^verbatim>\<open>Bitvec\<close> is the tree below it; the union is a datatype whose constructor is the view
  last written, and reading another view is \<open>Fault\<close>. Fresh zeroed memory is given the view that the
  size selects. The \<^verbatim>\<open>u32\<close> fields are natural numbers; the one subtraction that can wrap is
  \<open>u32_dec\<close>. Sizes are those of 64-bit pointers: \<^verbatim>\<open>BITVEC_USIZE\<close> is 496.

  The loops that probe the hash table end only because the table is never full, and
  \<^verbatim>\<open>sqlite3BitvecSet\<close> calls itself when it splits a table, so both have fuel; the theorems show that
  124 probes and 9 nested calls are always enough.
\<close>

section \<open>State\<close>

abbreviation (input) BITVEC_NELEM :: nat where "BITVEC_NELEM \<equiv> 496"
abbreviation (input) BITVEC_NBIT :: nat where "BITVEC_NBIT \<equiv> 3968"
abbreviation (input) BITVEC_NINT :: nat where "BITVEC_NINT \<equiv> 124"
abbreviation (input) BITVEC_MXHASH :: nat where "BITVEC_MXHASH \<equiv> 62"
abbreviation (input) BITVEC_NPTR :: nat where "BITVEC_NPTR \<equiv> 62"

datatype bitvec = Bitvec (iSize: nat) (nSet: nat) (iDivisor: nat) (bv_u: bitvec_u)
  and bitvec_u = aBitmap "byte list" | aHash "nat list" | apSub "bitvec option list"

definition u32_dec :: "nat \<Rightarrow> nat" where
  "u32_dec i = (i + 2 ^ 32 - 1) mod 2 ^ 32"

definition zero_bitvec :: "nat \<Rightarrow> bitvec" where
  "zero_bitvec n = Bitvec n 0 0
     (if n \<le> BITVEC_NBIT then aBitmap (replicate BITVEC_NELEM 0) else aHash (replicate BITVEC_NINT 0))"

definition sqlite3BitvecCreate :: "nat \<Rightarrow> heap \<Rightarrow> bitvec option \<times> heap" where
  "sqlite3BitvecCreate n h =
     (let (ok, h) = c_alloc h in if ok then (Some (zero_bitvec n), h) else (None, h))"

section \<open>Test\<close>

definition BITVEC_HASH :: "nat \<Rightarrow> nat" where
  "BITVEC_HASH x = x mod BITVEC_NINT"

fun hash_test :: "nat \<Rightarrow> nat list \<Rightarrow> nat \<Rightarrow> nat \<Rightarrow> bool cres" where
  "hash_test 0 a h i = Diverge"
| "hash_test (Suc n) a h i =
     cbind (rd a (int h)) (\<lambda>v.
       if v = 0 then Ret False else if v = i then Ret True
       else hash_test n a ((h + 1) mod BITVEC_NINT) i)"

definition bitmap_test :: "byte list \<Rightarrow> nat \<Rightarrow> bool cres" where
  "bitmap_test a i = cbind (rd a (int (i div 8))) (\<lambda>b. Ret (b AND push_bit (i mod 8) 1 \<noteq> 0))"

lemma sub_size: "Some q \<in> set subs \<Longrightarrow> size q < size (Bitvec s n d (apSub subs))"
  by (induction subs) auto

lemma rd_mem: "rd xs i = Ret x \<Longrightarrow> x \<in> set xs"
  by (auto simp: rd_Ret_iff)

function test_at :: "bitvec \<Rightarrow> nat \<Rightarrow> bool cres" where
  "test_at p i =
     (if iDivisor p \<noteq> 0 then
        (case bv_u p of
           apSub subs \<Rightarrow> cbind (rd subs (int (i div iDivisor p))) (\<lambda>s.
             case s of None \<Rightarrow> Ret False | Some q \<Rightarrow> test_at q (i mod iDivisor p))
         | _ \<Rightarrow> Fault)
      else if iSize p \<le> BITVEC_NBIT then
        (case bv_u p of aBitmap a \<Rightarrow> bitmap_test a i | _ \<Rightarrow> Fault)
      else
        (case bv_u p of aHash a \<Rightarrow> hash_test BITVEC_NINT a (BITVEC_HASH i) (i + 1) | _ \<Rightarrow> Fault))"
  by pat_completeness auto
termination
proof (relation "measure (\<lambda>(p, i). size p)")
  fix p i subs s q
  assume "bv_u p = apSub subs" "rd subs (int (i div iDivisor p)) = Ret s" "s = Some q"
  then show "((q, i mod iDivisor p), p, i) \<in> measure (\<lambda>(p, i). size p)"
    using sub_size [of q subs "iSize p" "nSet p" "iDivisor p"] rd_mem
    by (cases p) fastforce
qed simp

declare test_at.simps [simp del]

definition sqlite3BitvecTestNotNull :: "bitvec \<Rightarrow> nat \<Rightarrow> bool cres" where
  "sqlite3BitvecTestNotNull p i =
     (let i = u32_dec i in if i \<ge> iSize p then Ret False else test_at p i)"

definition sqlite3BitvecTest :: "bitvec option \<Rightarrow> nat \<Rightarrow> bool cres" where
  "sqlite3BitvecTest p i = (case p of None \<Rightarrow> Ret False | Some p \<Rightarrow> sqlite3BitvecTestNotNull p i)"

section \<open>Set\<close>

text \<open>The loop after a collision: \<open>None\<close> when the value is there, otherwise the first free slot.\<close>

fun hash_probe :: "nat \<Rightarrow> nat list \<Rightarrow> nat \<Rightarrow> nat \<Rightarrow> nat option cres" where
  "hash_probe 0 a h i = Diverge"
| "hash_probe (Suc n) a h i =
     cbind (rd a (int h)) (\<lambda>v.
       if v = i then Ret None
       else let h = h + 1; h = (if h \<ge> BITVEC_NINT then 0 else h) in
       cbind (rd a (int h)) (\<lambda>w. if w = 0 then Ret (Some h) else hash_probe n a h i))"

definition bitmap_set :: "bitvec \<Rightarrow> nat \<Rightarrow> bitvec cres" where
  "bitmap_set p i =
     (case bv_u p of
        aBitmap a \<Rightarrow> cbind (rd a (int (i div 8))) (\<lambda>b.
          Ret (Bitvec (iSize p) (nSet p) (iDivisor p) (aBitmap (a[i div 8 := b OR push_bit (i mod 8) 1]))))
      | _ \<Rightarrow> Fault)"

definition hash_put :: "bitvec \<Rightarrow> nat list \<Rightarrow> nat \<Rightarrow> nat \<Rightarrow> bitvec" where
  "hash_put p a h i = Bitvec (iSize p) (nSet p + 1) (iDivisor p) (aHash (a[h := i]))"

definition divided :: "bitvec \<Rightarrow> bitvec" where
  "divided p = Bitvec (iSize p) (nSet p) ((iSize p + BITVEC_NPTR - 1) div BITVEC_NPTR)
     (apSub (replicate BITVEC_NPTR None))"

type_synonym set_result = "(int \<times> bitvec \<times> heap) cres"

fun rehash_loop :: "(bitvec \<Rightarrow> nat \<Rightarrow> heap \<Rightarrow> set_result) \<Rightarrow> nat list \<Rightarrow> int \<Rightarrow> bitvec \<Rightarrow> heap \<Rightarrow> set_result" where
  "rehash_loop f [] rc p h = Ret (rc, p, h)"
| "rehash_loop f (v # vs) rc p h =
     (if v \<noteq> 0 then cbind (f p v h) (\<lambda>(rc', p, h). rehash_loop f vs (rc OR rc') p h)
      else rehash_loop f vs rc p h)"

definition bitvec_set_rehash :: "(bitvec \<Rightarrow> nat \<Rightarrow> heap \<Rightarrow> set_result) \<Rightarrow> bitvec \<Rightarrow> nat list \<Rightarrow> nat \<Rightarrow> heap \<Rightarrow> set_result" where
  "bitvec_set_rehash f p a i h =
     (let (ok, h) = c_alloc h in
      if \<not> ok then Ret (SQLITE_NOMEM, p, h)
      else cbind (f (divided p) i h) (\<lambda>(rc, p, h).
        cbind (rehash_loop f a rc p h) (\<lambda>(rc, p, h). Ret (rc, p, c_free h))))"

definition hash_set :: "(bitvec \<Rightarrow> nat \<Rightarrow> heap \<Rightarrow> set_result) \<Rightarrow> bitvec \<Rightarrow> nat \<Rightarrow> heap \<Rightarrow> set_result" where
  "hash_set f p i h =
     (case bv_u p of
        aHash a \<Rightarrow>
          let k = BITVEC_HASH i; i = i + 1 in
          cbind (rd a (int k)) (\<lambda>v.
          if v = 0 \<and> nSet p < BITVEC_NINT - 1 then Ret (SQLITE_OK, hash_put p a k i, h)
          else cbind (if v = 0 then Ret (Some k) else hash_probe BITVEC_NINT a k i) (\<lambda>slot.
            case slot of None \<Rightarrow> Ret (SQLITE_OK, p, h)
            | Some k \<Rightarrow>
              if nSet p \<ge> BITVEC_MXHASH then bitvec_set_rehash f p a i h
              else Ret (SQLITE_OK, hash_put p a k i, h)))
      | _ \<Rightarrow> Fault)"

text \<open>A set in a divided bitmap: the sub-bitmap is created when it is not there yet.\<close>

definition sub_set :: "(bitvec \<Rightarrow> nat \<Rightarrow> heap \<Rightarrow> set_result) \<Rightarrow> bitvec \<Rightarrow> nat \<Rightarrow> heap \<Rightarrow> set_result" where
  "sub_set f p i h =
     (case bv_u p of
        apSub subs \<Rightarrow>
          let bin = i div iDivisor p; i = i mod iDivisor p in
          cbind (rd subs (int bin)) (\<lambda>s.
          case (case s of None \<Rightarrow> sqlite3BitvecCreate (iDivisor p) h | Some q \<Rightarrow> (Some q, h)) of
            (None, h) \<Rightarrow> Ret (SQLITE_NOMEM, p, h)
          | (Some q, h) \<Rightarrow> cbind (f q i h) (\<lambda>(rc, q, h).
              Ret (rc, Bitvec (iSize p) (nSet p) (iDivisor p) (apSub (subs[bin := Some q])), h)))
      | _ \<Rightarrow> Fault)"

primrec set_at :: "nat \<Rightarrow> bitvec \<Rightarrow> nat \<Rightarrow> heap \<Rightarrow> set_result" where
  "set_at 0 p i h = Diverge"
| "set_at (Suc n) p i h =
     (if iSize p > BITVEC_NBIT \<and> iDivisor p \<noteq> 0 then sub_set (set_at n) p i h
      else if iSize p \<le> BITVEC_NBIT then cbind (bitmap_set p i) (\<lambda>p. Ret (SQLITE_OK, p, h))
      else hash_set (\<lambda>p i. set_at n p (u32_dec i)) p i h)"

definition sqlite3BitvecSet :: "bitvec option \<Rightarrow> nat \<Rightarrow> heap \<Rightarrow> (int \<times> bitvec option \<times> heap) cres" where
  "sqlite3BitvecSet p i h =
     (case p of None \<Rightarrow> Ret (SQLITE_OK, None, h)
      | Some p \<Rightarrow> cbind (set_at 9 p (u32_dec i) h) (\<lambda>(rc, p, h). Ret (rc, Some p, h)))"

section \<open>Clear\<close>

fun hash_free :: "nat \<Rightarrow> nat list \<Rightarrow> nat \<Rightarrow> nat cres" where
  "hash_free 0 a h = Diverge"
| "hash_free (Suc n) a h =
     cbind (rd a (int h)) (\<lambda>v.
       if v = 0 then Ret h
       else let h = h + 1; h = (if h \<ge> BITVEC_NINT then 0 else h) in hash_free n a h)"

fun clear_hash_loop :: "nat list \<Rightarrow> nat \<Rightarrow> nat \<Rightarrow> nat list \<Rightarrow> (nat \<times> nat list) cres" where
  "clear_hash_loop [] i n a = Ret (n, a)"
| "clear_hash_loop (v # vs) i n a =
     (if v \<noteq> 0 \<and> v \<noteq> i + 1 then
        cbind (hash_free BITVEC_NINT a (BITVEC_HASH (v - 1))) (\<lambda>h. clear_hash_loop vs i (n + 1) (a[h := v]))
      else clear_hash_loop vs i n a)"

function clear_at :: "bitvec \<Rightarrow> nat \<Rightarrow> bitvec cres" where
  "clear_at p i =
     (if iDivisor p \<noteq> 0 then
        (case bv_u p of
           apSub subs \<Rightarrow> cbind (rd subs (int (i div iDivisor p))) (\<lambda>s.
             case s of None \<Rightarrow> Ret p
             | Some q \<Rightarrow> cbind (clear_at q (i mod iDivisor p)) (\<lambda>q.
                 Ret (Bitvec (iSize p) (nSet p) (iDivisor p) (apSub (subs[i div iDivisor p := Some q])))))
         | _ \<Rightarrow> Fault)
      else if iSize p \<le> BITVEC_NBIT then
        (case bv_u p of
           aBitmap a \<Rightarrow> cbind (rd a (int (i div 8))) (\<lambda>b.
             Ret (Bitvec (iSize p) (nSet p) 0 (aBitmap (a[i div 8 := b AND NOT (push_bit (i mod 8) 1)]))))
         | _ \<Rightarrow> Fault)
      else
        (case bv_u p of
           aHash a \<Rightarrow> cbind (clear_hash_loop a i 0 (replicate BITVEC_NINT 0)) (\<lambda>(n, a).
             Ret (Bitvec (iSize p) n 0 (aHash a)))
         | _ \<Rightarrow> Fault))"
  by pat_completeness auto
termination
proof (relation "measure (\<lambda>(p, i). size p)")
  fix p i subs s q
  assume "bv_u p = apSub subs" "rd subs (int (i div iDivisor p)) = Ret s" "s = Some q"
  then show "((q, i mod iDivisor p), p, i) \<in> measure (\<lambda>(p, i). size p)"
    using sub_size [of q subs "iSize p" "nSet p" "iDivisor p"] rd_mem
    by (cases p) fastforce
qed simp

declare clear_at.simps [simp del]

definition sqlite3BitvecClear :: "bitvec option \<Rightarrow> nat \<Rightarrow> bitvec option cres" where
  "sqlite3BitvecClear p i =
     (case p of None \<Rightarrow> Ret None | Some p \<Rightarrow> cbind (clear_at p (u32_dec i)) (\<lambda>p. Ret (Some p)))"

section \<open>Destroy and size\<close>

fun destroy_list :: "(heap \<Rightarrow> heap cres) option list \<Rightarrow> heap \<Rightarrow> heap cres" where
  "destroy_list [] h = Ret h"
| "destroy_list (None # fs) h = destroy_list fs h"
| "destroy_list (Some f # fs) h = cbind (f h) (destroy_list fs)"

primrec bitvec_destroy :: "bitvec \<Rightarrow> heap \<Rightarrow> heap cres"
  and destroy_u :: "bitvec_u \<Rightarrow> heap \<Rightarrow> heap cres" where
  "bitvec_destroy (Bitvec s n d u) = (\<lambda>h.
     cbind (if d \<noteq> 0 then destroy_u u h else Ret h) (\<lambda>h. Ret (c_free h)))"
| "destroy_u (aBitmap a) = (\<lambda>h. Fault)"
| "destroy_u (aHash a) = (\<lambda>h. Fault)"
| "destroy_u (apSub subs) = destroy_list (map (map_option bitvec_destroy) subs)"

definition sqlite3BitvecDestroy :: "bitvec option \<Rightarrow> heap \<Rightarrow> heap cres" where
  "sqlite3BitvecDestroy p h = (case p of None \<Rightarrow> Ret h | Some p \<Rightarrow> bitvec_destroy p h)"

definition sqlite3BitvecSize :: "bitvec \<Rightarrow> nat" where
  "sqlite3BitvecSize p = iSize p"

section \<open>Linear probing\<close>

text \<open>\<open>free_run a h e\<close>: the first free slot from \<open>h\<close> on is \<open>e\<close> steps away, around the end.\<close>

definition slot :: "nat \<Rightarrow> nat \<Rightarrow> nat" where
  "slot h e = (h + e) mod BITVEC_NINT"

definition free_run :: "nat list \<Rightarrow> nat \<Rightarrow> nat \<Rightarrow> bool" where
  "free_run a h e = (length a = BITVEC_NINT \<and> h < BITVEC_NINT \<and> a ! slot h e = 0 \<and> (\<forall>d < e. a ! slot h d \<noteq> 0))"

definition home :: "nat \<Rightarrow> nat" where
  "home v = (v - 1) mod BITVEC_NINT"

definition hash_ok :: "nat \<Rightarrow> nat \<Rightarrow> nat list \<Rightarrow> bool" where
  "hash_ok s n a = (length a = BITVEC_NINT \<and> n = card {k. k < BITVEC_NINT \<and> a ! k \<noteq> 0} \<and> n < BITVEC_NINT \<and>
     (\<forall>v \<in> set a. v \<le> s) \<and>
     (\<forall>j < BITVEC_NINT. \<forall>k < BITVEC_NINT. a ! j \<noteq> 0 \<and> a ! j = a ! k \<longrightarrow> j = k) \<and>
     (\<forall>k < BITVEC_NINT. a ! k \<noteq> 0 \<longrightarrow> (\<exists>e. k = slot (home (a ! k)) e \<and> (\<forall>d < e. a ! slot (home (a ! k)) d \<noteq> 0))))"

lemma slot_less [simp]: "slot h e < BITVEC_NINT"
  by (simp add: slot_def)

lemma home_less [simp]: "home v < BITVEC_NINT"
  by (simp add: home_def)

lemma slot_0: "h < BITVEC_NINT \<Longrightarrow> slot h 0 = h"
  by (simp add: slot_def)

lemma slot_Suc: "slot (slot h (Suc 0)) d = slot h (Suc d)"
  by (simp add: slot_def mod_simps)

lemma next_slot: "h < BITVEC_NINT \<Longrightarrow> (if BITVEC_NINT \<le> Suc h then 0 else Suc h) = slot h (Suc 0)"
  by (auto simp: slot_def not_le le_Suc_eq)

lemma free_run_Suc: "free_run a h (Suc e) \<Longrightarrow> a ! h \<noteq> 0 \<and> free_run a (slot h (Suc 0)) e"
  unfolding free_run_def slot_Suc by (metis Suc_mono slot_0 slot_less zero_less_Suc)

lemma all_less_Suc0: "(\<exists>d < Suc e. P d) \<longleftrightarrow> P 0 \<or> (\<exists>d < e. P (Suc d))"
  using less_Suc_eq_0_disj by auto

lemma rd_free: "free_run a h e \<Longrightarrow> rd a (int h) = Ret (a ! h)"
  by (simp add: rd_def free_run_def)

lemma hash_free_run: "free_run a h e \<Longrightarrow> e < n \<Longrightarrow> hash_free n a h = Ret (slot h e)"
proof (induction e arbitrary: h n)
  case 0
  then show ?case by (cases n) (auto simp: rd_free slot_0 free_run_def rd_def)
next
  case (Suc e)
  note f = free_run_Suc [OF Suc.prems(1)]
  obtain m where m: "n = Suc m" using Suc.prems(2) by (cases n) auto
  have h: "h < BITVEC_NINT" using Suc.prems(1) by (simp add: free_run_def)
  show ?case using Suc.IH [of "slot h (Suc 0)" m] f Suc.prems m next_slot [OF h]
    by (cases "123 \<le> h") (simp_all add: rd_free [OF Suc.prems(1)] slot_Suc Let_def)
qed

lemma hash_test_run:
  "free_run a h e \<Longrightarrow> e < n \<Longrightarrow> i \<noteq> 0 \<Longrightarrow> hash_test n a h i = Ret (\<exists>d < e. a ! slot h d = i)"
proof (induction e arbitrary: h n)
  case 0
  then show ?case by (cases n) (auto simp: slot_0 free_run_def rd_def)
next
  case (Suc e)
  note f = free_run_Suc [OF Suc.prems(1)]
  obtain m where m: "n = Suc m" using Suc.prems(2) by (cases n) auto
  have h: "h < BITVEC_NINT" using Suc.prems(1) by (simp add: free_run_def)
  have n1: "Suc h mod BITVEC_NINT = slot h (Suc 0)" by (simp add: slot_def)
  show ?case using Suc.IH [of "slot h (Suc 0)" m] f Suc.prems m
    by (simp add: rd_free [OF Suc.prems(1)] slot_Suc n1 all_less_Suc0 slot_0 [OF h])
qed

lemma hash_probe_run:
  "free_run a h e \<Longrightarrow> a ! h \<noteq> 0 \<Longrightarrow> e \<le> n \<Longrightarrow>
   hash_probe n a h i = Ret (if \<exists>d < e. a ! slot h d = i then None else Some (slot h e))"
proof (induction e arbitrary: h n)
  case 0
  then show ?case using slot_0 [of h] by (auto simp: free_run_def)
next
  case (Suc e)
  note f = free_run_Suc [OF Suc.prems(1)]
  obtain m where m: "n = Suc m" using Suc.prems(3) by (cases n) auto
  have h: "h < BITVEC_NINT" using Suc.prems(1) by (simp add: free_run_def)
  have e0: "a ! slot h (Suc 0) = 0 \<longleftrightarrow> e = 0"
    using f by (cases e) (auto simp: free_run_def slot_0 slot_Suc dest: free_run_Suc)
  show ?case
    using Suc.IH [of "slot h (Suc 0)" m] f Suc.prems m next_slot [OF h] e0 rd_free [of a "slot h (Suc 0)" e]
    by (cases "e = 0") (auto simp: rd_free [OF Suc.prems(1)] slot_Suc Let_def all_less_Suc0 slot_0 [OF h])
qed

lemma free_run_ex:
  assumes "length a = BITVEC_NINT" "k < BITVEC_NINT" "a ! k = 0" "h < BITVEC_NINT"
  obtains e where "free_run a h e" "e < BITVEC_NINT"
proof -
  define g where "g = (k + BITVEC_NINT - h) mod BITVEC_NINT"
  have "slot h g = k"
  proof -
    have "(h + (k + BITVEC_NINT - h) mod BITVEC_NINT) mod BITVEC_NINT = (h + (k + BITVEC_NINT - h)) mod BITVEC_NINT"
      by (rule mod_add_right_eq)
    also have "\<dots> = (k + BITVEC_NINT) mod BITVEC_NINT" using assms(4) by (intro arg_cong2 [where f = "(mod)"]) auto
    finally show ?thesis using assms(2) by (simp add: slot_def g_def)
  qed
  then have z: "a ! slot h g = 0" using assms(3) by simp
  define e where "e = (LEAST e. a ! slot h e = 0)"
  have "a ! slot h e = 0" unfolding e_def using z by (rule LeastI)
  moreover have "a ! slot h d \<noteq> 0" if "d < e" for d using that not_less_Least unfolding e_def by blast
  moreover have "e \<le> g" unfolding e_def using z by (rule Least_le)
  moreover have "g < BITVEC_NINT" by (simp add: g_def)
  ultimately show thesis using assms that [of e] by (auto simp: free_run_def)
qed

lemma hash_ok_run:
  assumes "hash_ok s n a" "h < BITVEC_NINT"
  obtains e where "free_run a h e" "e < BITVEC_NINT"
proof -
  have "\<exists>k < BITVEC_NINT. a ! k = 0"
  proof (rule ccontr)
    assume "\<not> ?thesis"
    then have "{k. k < BITVEC_NINT \<and> a ! k \<noteq> 0} = {..< BITVEC_NINT}" by auto
    then show False using assms(1) by (auto simp: hash_ok_def)
  qed
  then show thesis using free_run_ex [of a _ h] assms that by (auto simp: hash_ok_def)
qed

lemma hash_member:
  assumes "hash_ok s n a" "free_run a (home i) e" "i \<noteq> 0"
  shows "(\<exists>d < e. a ! slot (home i) d = i) \<longleftrightarrow> i \<in> set a"
proof
  assume "\<exists>d < e. a ! slot (home i) d = i"
  then show "i \<in> set a" using assms(1) by (metis hash_ok_def nth_mem slot_less)
next
  assume "i \<in> set a"
  then obtain k where k: "k < BITVEC_NINT" "a ! k = i" using assms(1) by (auto simp: hash_ok_def in_set_conv_nth)
  then obtain g where g: "k = slot (home i) g" "\<forall>d < g. a ! slot (home i) d \<noteq> 0"
    using assms(1,3) by (auto simp: hash_ok_def)
  have "g < e" using g k assms(2,3) by (metis free_run_def linorder_neqE_nat)
  then show "\<exists>d < e. a ! slot (home i) d = i" using g k by auto
qed

lemma set_list_update_zero:
  "k < length a \<Longrightarrow> a ! k = 0 \<Longrightarrow> v \<noteq> 0 \<Longrightarrow> v \<in> set (a[k := i]) \<longleftrightarrow> v = i \<or> v \<in> set a"
  by (auto simp: in_set_conv_nth nth_list_update)

lemma hash_insert:
  assumes "hash_ok s n a" "free_run a (home i) e" "i \<notin> set a" "0 < i" "i \<le> s" "Suc n < BITVEC_NINT"
  shows "hash_ok s (Suc n) (a[slot (home i) e := i])"
proof -
  let ?k = "slot (home i) e" let ?b = "a[?k := i]"
  have a: "length a = BITVEC_NINT" "a ! ?k = 0" "\<forall>d < e. a ! slot (home i) d \<noteq> 0"
    using assms(2) by (auto simp: free_run_def)
  have nz: "a ! j \<noteq> 0 \<Longrightarrow> ?b ! j \<noteq> 0" for j using a assms(4) by (cases "j = ?k") auto
  have "{k. k < BITVEC_NINT \<and> ?b ! k \<noteq> 0} = insert ?k {k. k < BITVEC_NINT \<and> a ! k \<noteq> 0}"
    using a assms(4) by (auto simp: nth_list_update)
  then have c: "card {k. k < BITVEC_NINT \<and> ?b ! k \<noteq> 0} = Suc n"
    using assms(1) a(2) by (simp add: hash_ok_def)
  have d: "j = k" if "j < BITVEC_NINT" "k < BITVEC_NINT" "?b ! j \<noteq> 0" "?b ! j = ?b ! k" for j k
  proof -
    have m: "a ! l \<noteq> i" if "l < BITVEC_NINT" for l using that assms(3) a(1) nth_mem [of l a] by auto
    have "a ! j \<noteq> 0 \<longrightarrow> a ! j = a ! k \<longrightarrow> j = k" using that(1,2) assms(1) by (simp add: hash_ok_def)
    then show ?thesis using that m [of j] m [of k] a(1) by (cases "j = ?k"; cases "k = ?k") auto
  qed
  have r: "\<exists>e. k = slot (home (?b ! k)) e \<and> (\<forall>d < e. ?b ! slot (home (?b ! k)) d \<noteq> 0)"
    if "k < BITVEC_NINT" "?b ! k \<noteq> 0" for k
  proof -
    have "\<exists>g. k = slot (home (?b ! k)) g \<and> (\<forall>d < g. a ! slot (home (?b ! k)) d \<noteq> 0)"
    proof (cases "k = ?k")
      case True
      then have v: "?b ! k = i" using a(1) by simp
      show ?thesis unfolding v using a(3) True by blast
    next
      case False
      then have "?b ! k = a ! k" by simp
      then show ?thesis using that assms(1) unfolding hash_ok_def by (simp only:) blast
    qed
    then show ?thesis using nz by blast
  qed
  have m: "\<forall>v \<in> set ?b. v \<le> s"
    using assms(1,5) set_update_subset_insert [of a ?k i] by (auto simp: hash_ok_def)
  have l: "length ?b = BITVEC_NINT" using a(1) by simp
  show ?thesis unfolding hash_ok_def
    by (intro conjI allI impI) (rule l, rule c [symmetric], rule assms(6), rule m, elim conjE, rule d, assumption+, rule r, assumption+)
qed

lemma hash_test_ok:
  "hash_ok s n a \<Longrightarrow> hash_test BITVEC_NINT a (BITVEC_HASH i) (i + 1) = Ret (Suc i \<in> set a)"
  using hash_ok_run [of s n a "home (Suc i)"] hash_test_run [of a "home (Suc i)" _ BITVEC_NINT "Suc i"]
    hash_member [of s n a "Suc i"]
  by (simp add: home_def BITVEC_HASH_def) metis

lemma hash_empty_ok: "hash_ok s 0 (replicate BITVEC_NINT 0)"
  by (simp add: hash_ok_def)

section \<open>Invariant and contents\<close>

inductive bitvec_wf :: "bitvec \<Rightarrow> bool" where
  bitmap: "s \<le> BITVEC_NBIT \<Longrightarrow> length a = BITVEC_NELEM \<Longrightarrow> bitvec_wf (Bitvec s n 0 (aBitmap a))"
| hash: "BITVEC_NBIT < s \<Longrightarrow> s < 2 ^ 32 \<Longrightarrow> hash_ok s n a \<Longrightarrow> bitvec_wf (Bitvec s n 0 (aHash a))"
| sub: "BITVEC_NBIT < s \<Longrightarrow> s < 2 ^ 32 \<Longrightarrow> length subs = BITVEC_NPTR \<Longrightarrow> d = (s + 61) div 62 \<Longrightarrow>
    (\<And>q. Some q \<in> set subs \<Longrightarrow> bitvec_wf q \<and> iSize q = d) \<Longrightarrow> bitvec_wf (Bitvec s n d (apSub subs))"

inductive_cases bitmap_wfE: "bitvec_wf (Bitvec s n d (aBitmap a))"
inductive_cases hash_wfE: "bitvec_wf (Bitvec s n d (aHash a))"
inductive_cases sub_wfE: "bitvec_wf (Bitvec s n d (apSub subs))"

text \<open>Whether the bit with the zero-based number \<open>i\<close> is set.\<close>

definition has :: "bitvec \<Rightarrow> nat \<Rightarrow> bool" where
  "has p i = (test_at p i = Ret True)"

primrec nodes :: "bitvec \<Rightarrow> int" and nodes_u :: "bitvec_u \<Rightarrow> int" where
  "nodes (Bitvec s n d u) = 1 + nodes_u u"
| "nodes_u (aBitmap a) = 0"
| "nodes_u (aHash a) = 0"
| "nodes_u (apSub subs) = sum_list (map (case_option 0 id) (map (map_option nodes) subs))"

lemma and_single: "(b :: byte) AND 2 ^ k \<noteq> 0 \<longleftrightarrow> bit b k"
  using and_exp_eq_0_iff_not_bit [of b k] by simp

lemma bit_single: "bit (2 ^ k :: byte) m \<longleftrightarrow> m = k \<and> k < 8"
  by (auto simp: bit_exp_iff)

lemma byte_index: "i < BITVEC_NBIT \<Longrightarrow> i div 8 < BITVEC_NELEM"
  by (simp add: less_mult_imp_div_less)

lemma test_bitmap:
  "s \<le> BITVEC_NBIT \<Longrightarrow> length a = BITVEC_NELEM \<Longrightarrow> i < BITVEC_NBIT \<Longrightarrow>
   test_at (Bitvec s n 0 (aBitmap a)) i = Ret (bit (a ! (i div 8)) (i mod 8))"
  using byte_index [of i] by (simp add: test_at.simps bitmap_test_def rd_def and_single)

lemma test_hash:
  "BITVEC_NBIT < s \<Longrightarrow> hash_ok s k a \<Longrightarrow> test_at (Bitvec s n 0 (aHash a)) i = Ret (Suc i \<in> set a)"
  using hash_test_ok [of s k a i] by (simp add: test_at.simps)

lemma divisor_pos: "BITVEC_NBIT < s \<Longrightarrow> 0 < (s + 61) div 62"
  by (simp add: div_greater_zero_iff)

lemma bin_less: "i < (s :: nat) \<Longrightarrow> i div ((s + 61) div 62) < 62"
proof -
  assume i: "i < s"
  have "s \<le> 62 * ((s + 61) div 62)" by linarith
  then have "i < 62 * ((s + 61) div 62)" using i by linarith
  then show ?thesis by (simp add: less_mult_imp_div_less)
qed

lemma test_sub:
  assumes "BITVEC_NBIT < s" "length subs = BITVEC_NPTR" "d = (s + 61) div 62" "i < s"
  shows "test_at (Bitvec s n d (apSub subs)) i =
    (case subs ! (i div d) of None \<Rightarrow> Ret False | Some q \<Rightarrow> test_at q (i mod d))"
  using bin_less [OF assms(4)] divisor_pos [OF assms(1)] assms
  by (subst test_at.simps) (simp add: rd_def cong: option.case_cong)

lemma test_total: "bitvec_wf p \<Longrightarrow> i < iSize p \<Longrightarrow> \<exists>b. test_at p i = Ret b"
proof (induction arbitrary: i rule: bitvec_wf.induct)
  case (bitmap s a n)
  then show ?case using test_bitmap [of s a i n] by auto
next
  case (hash s n a)
  then show ?case using test_hash [of s n a n i] by auto
next
  case (sub s subs d n)
  have "i mod d < d" using divisor_pos [OF sub(1)] sub(4) by simp
  moreover have "subs ! (i div d) \<in> set subs" using bin_less [of i s] sub by simp
  ultimately show ?case using test_sub [of s subs d i n] sub by (auto split: option.split)
qed

lemma has_test: "bitvec_wf p \<Longrightarrow> i < iSize p \<Longrightarrow> test_at p i = Ret (has p i)"
  using test_total [of p i] by (auto simp: has_def)

lemma has_bitmap:
  "s \<le> BITVEC_NBIT \<Longrightarrow> length a = BITVEC_NELEM \<Longrightarrow> i < s \<Longrightarrow>
   has (Bitvec s n 0 (aBitmap a)) i = bit (a ! (i div 8)) (i mod 8)"
  by (simp add: has_def test_bitmap)

lemma has_hash:
  "BITVEC_NBIT < s \<Longrightarrow> hash_ok s k a \<Longrightarrow> has (Bitvec s n 0 (aHash a)) i = (Suc i \<in> set a)"
  by (simp add: has_def test_hash)

lemma has_sub:
  "BITVEC_NBIT < s \<Longrightarrow> length subs = BITVEC_NPTR \<Longrightarrow> d = (s + 61) div 62 \<Longrightarrow> i < s \<Longrightarrow>
   has (Bitvec s n d (apSub subs)) i = (case subs ! (i div d) of None \<Rightarrow> False | Some q \<Rightarrow> has q (i mod d))"
  by (simp add: has_def test_sub split: option.split)

section \<open>Setting a bit\<close>

text \<open>What a call that sets bit \<open>i\<close> may do: it returns, keeps the invariant and the size, its nodes are
  the blocks it allocated, and it adds the bit. Without memory it may lose bits, but never adds another.\<close>

definition set_spec :: "bitvec \<Rightarrow> nat \<Rightarrow> heap \<Rightarrow> set_result \<Rightarrow> bool" where
  "set_spec p i h r = (\<exists>rc p' h'. r = Ret (rc, p', h') \<and> rc \<in> {SQLITE_OK, SQLITE_NOMEM} \<and>
     bitvec_wf p' \<and> iSize p' = iSize p \<and> (iDivisor p \<noteq> 0 \<longrightarrow> iDivisor p' \<noteq> 0) \<and>
     live h' - live h = nodes p' - nodes p \<and> (outcomes h = [] \<longrightarrow> rc = SQLITE_OK \<and> outcomes h' = []) \<and>
     (\<forall>j < iSize p. has p' j \<longrightarrow> j = i \<or> has p j) \<and>
     (rc = SQLITE_OK \<longrightarrow> (\<forall>j < iSize p. j = i \<or> has p j \<longrightarrow> has p' j)))"

lemma set_specI:
  assumes "r = Ret (rc, p', h')" "rc \<in> {SQLITE_OK, SQLITE_NOMEM}" "bitvec_wf p'" "iSize p' = iSize p"
    "iDivisor p \<noteq> 0 \<longrightarrow> iDivisor p' \<noteq> 0" "live h' - live h = nodes p' - nodes p"
    "outcomes h = [] \<longrightarrow> rc = SQLITE_OK \<and> outcomes h' = []"
    "\<And>j. j < iSize p \<Longrightarrow> has p' j \<Longrightarrow> j = i \<or> has p j"
    "\<And>j. rc = SQLITE_OK \<Longrightarrow> j < iSize p \<Longrightarrow> j = i \<or> has p j \<Longrightarrow> has p' j"
  shows "set_spec p i h r"
  unfolding set_spec_def using assms by blast

lemma div_mod_inj: "j div k = i div k \<Longrightarrow> j mod k = i mod k \<Longrightarrow> j = (i :: nat)"
  by (metis div_mult_mod_eq)

lemma bitmap_set_spec:
  assumes "s \<le> BITVEC_NBIT" "length a = BITVEC_NELEM" "i < s"
  shows "set_spec (Bitvec s n 0 (aBitmap a)) i h
    (cbind (bitmap_set (Bitvec s n 0 (aBitmap a)) i) (\<lambda>p. Ret (SQLITE_OK, p, h)))"
proof (rule set_specI)
  let ?b = "a[i div 8 := a ! (i div 8) OR push_bit (i mod 8) 1]"
  have l: "i div 8 < BITVEC_NELEM" using assms by simp
  show "cbind (bitmap_set (Bitvec s n 0 (aBitmap a)) i) (\<lambda>p. Ret (SQLITE_OK, p, h)) =
      Ret (SQLITE_OK, Bitvec s n 0 (aBitmap ?b), h)"
    using l assms by (simp add: bitmap_set_def rd_def)
  show "bitvec_wf (Bitvec s n 0 (aBitmap ?b))" using assms by (intro bitvec_wf.bitmap) simp_all
  have b: "has (Bitvec s n 0 (aBitmap ?b)) j \<longleftrightarrow> j = i \<or> has (Bitvec s n 0 (aBitmap a)) j" if "j < s" for j
    using that assms l div_mod_inj [of j 8 i]
    by (auto simp: has_bitmap nth_list_update bit_or_iff bit_single)
  show "has (Bitvec s n 0 (aBitmap ?b)) j \<Longrightarrow> j = i \<or> has (Bitvec s n 0 (aBitmap a)) j"
    if "j < iSize (Bitvec s n 0 (aBitmap a))" for j using that b by simp
  show "j = i \<or> has (Bitvec s n 0 (aBitmap a)) j \<Longrightarrow> has (Bitvec s n 0 (aBitmap ?b)) j"
    if "j < iSize (Bitvec s n 0 (aBitmap a))" for j using that b by simp
qed simp_all

lemma hash_put_spec:
  assumes "BITVEC_NBIT < s" "s < 2 ^ 32" "hash_ok s n a" "i < s" "Suc i \<notin> set a"
    "free_run a (home (Suc i)) e" "Suc n < BITVEC_NINT"
  shows "set_spec (Bitvec s n 0 (aHash a)) i h
    (Ret (SQLITE_OK, hash_put (Bitvec s n 0 (aHash a)) a (slot (home (Suc i)) e) (Suc i), h))"
proof (rule set_specI)
  let ?b = "a[slot (home (Suc i)) e := Suc i]"
  show "Ret (SQLITE_OK, hash_put (Bitvec s n 0 (aHash a)) a (slot (home (Suc i)) e) (Suc i), h) =
      Ret (SQLITE_OK, Bitvec s (Suc n) 0 (aHash ?b), h)" by (simp add: hash_put_def)
  have k: "hash_ok s (Suc n) ?b" using assms by (intro hash_insert) auto
  show "bitvec_wf (Bitvec s (Suc n) 0 (aHash ?b))" using assms k by (intro bitvec_wf.hash) simp_all
  have b: "has (Bitvec s (Suc n) 0 (aHash ?b)) j \<longleftrightarrow> j = i \<or> has (Bitvec s n 0 (aHash a)) j" for j
    using has_hash [OF assms(1) k] has_hash [OF assms(1,3)] assms(6)
      set_list_update_zero [of "slot (home (Suc i)) e" a "Suc j" "Suc i"]
    by (auto simp: free_run_def)
  show "has (Bitvec s (Suc n) 0 (aHash ?b)) j \<Longrightarrow> j = i \<or> has (Bitvec s n 0 (aHash a)) j" for j
    using b by simp
  show "j = i \<or> has (Bitvec s n 0 (aHash a)) j \<Longrightarrow> has (Bitvec s (Suc n) 0 (aHash ?b)) j" for j
    using b by simp
qed simp_all

lemma nodes_update:
  "k < length subs \<Longrightarrow> nodes_u (apSub (subs[k := Some q])) =
     nodes_u (apSub subs) + nodes q - (case subs ! k of None \<Rightarrow> 0 | Some q' \<Rightarrow> nodes q')"
proof (induction subs arbitrary: k)
  case (Cons s subs)
  then show ?case by (cases k) (auto split: option.split)
qed simp

lemma zero_bitvec_wf: "s < 2 ^ 32 \<Longrightarrow> bitvec_wf (zero_bitvec s)"
  unfolding zero_bitvec_def using hash_empty_ok [of s] by (auto intro: bitvec_wf.intros)

lemma zero_bitvec_simps [simp]:
  "iSize (zero_bitvec s) = s" "nodes (zero_bitvec s) = 1"
  by (simp_all add: zero_bitvec_def)

lemma zero_bitvec_has: "i < s \<Longrightarrow> \<not> has (zero_bitvec s) i"
  using has_hash [OF _ hash_empty_ok, of s 0 i] by (auto simp: zero_bitvec_def has_bitmap)

lemma nodes_Bitvec: "nodes (Bitvec s n d u) = 1 + nodes_u u"
  by simp

lemma divided_eq:
  "divided (Bitvec s n d u) = Bitvec s n ((s + 61) div 62) (apSub (replicate BITVEC_NPTR None))"
  by (simp add: divided_def)

lemma divided_facts:
  assumes "BITVEC_NBIT < s" "s < 2 ^ 32"
  shows "bitvec_wf (divided (Bitvec s n d u))" "nodes (divided (Bitvec s n d u)) = 1"
    "iSize (divided (Bitvec s n d u)) = s" "iDivisor (divided (Bitvec s n d u)) \<noteq> 0"
    "i < s \<Longrightarrow> \<not> has (divided (Bitvec s n d u)) i"
proof -
  note e = divided_eq [of s n d u]
  show "bitvec_wf (divided (Bitvec s n d u))" unfolding e using assms by (intro bitvec_wf.sub) auto
  show "nodes (divided (Bitvec s n d u)) = 1" unfolding e by (simp add: sum_list_replicate)
  show "iSize (divided (Bitvec s n d u)) = s" unfolding e by simp
  show "iDivisor (divided (Bitvec s n d u)) \<noteq> 0" unfolding e using divisor_pos [OF assms(1)] by simp
  show "i < s \<Longrightarrow> \<not> has (divided (Bitvec s n d u)) i"
    unfolding e using bin_less [of i s] assms by (subst has_sub) auto
qed

text \<open>Setting a list of bits one after another, with the result codes joined.\<close>

definition loop_spec :: "bitvec \<Rightarrow> nat set \<Rightarrow> int \<Rightarrow> heap \<Rightarrow> set_result \<Rightarrow> bool" where
  "loop_spec p I rc h r = (\<exists>rc' p' h'. r = Ret (rc', p', h') \<and> rc' \<in> {SQLITE_OK, SQLITE_NOMEM} \<and>
     bitvec_wf p' \<and> iSize p' = iSize p \<and> iDivisor p' \<noteq> 0 \<and>
     live h' - live h = nodes p' - nodes p \<and> (outcomes h = [] \<longrightarrow> rc' = rc \<and> outcomes h' = []) \<and>
     (\<forall>j < iSize p. has p' j \<longrightarrow> Suc j \<in> I \<or> has p j) \<and>
     (rc' = SQLITE_OK \<longrightarrow> rc = SQLITE_OK \<and> (\<forall>j < iSize p. Suc j \<in> I \<or> has p j \<longrightarrow> has p' j)))"

lemma or_codes: "rc \<in> {0, 7 :: int} \<Longrightarrow> rc' \<in> {0, 7} \<Longrightarrow> rc OR rc' \<in> {0, 7} \<and> (rc OR rc' = 0 \<longleftrightarrow> rc = 0 \<and> rc' = 0) \<and> (rc' = 0 \<longrightarrow> rc OR rc' = rc)"
  by auto

lemma rehash_loop_spec:
  assumes f: "\<And>q v h. bitvec_wf q \<Longrightarrow> iSize q = s \<Longrightarrow> iDivisor q \<noteq> 0 \<Longrightarrow> 0 < v \<Longrightarrow> v \<le> s \<Longrightarrow> set_spec q (v - 1) h (f q v h)"
  shows "bitvec_wf p \<Longrightarrow> iSize p = s \<Longrightarrow> iDivisor p \<noteq> 0 \<Longrightarrow> rc \<in> {SQLITE_OK, SQLITE_NOMEM} \<Longrightarrow> \<forall>v \<in> set vs. v \<le> s \<Longrightarrow>
    loop_spec p (set vs) rc h (rehash_loop f vs rc p h)"
proof (induction vs arbitrary: rc p h)
  case Nil
  then show ?case by (auto simp: loop_spec_def)
next
  case (Cons v vs)
  show ?case
  proof (cases "v = 0")
    case True
    have "loop_spec p (set vs) rc h (rehash_loop f vs rc p h)" using Cons by (intro Cons.IH) auto
    then show ?thesis using True by (auto simp: loop_spec_def)
  next
    case False
    have "set_spec p (v - 1) h (f p v h)" using Cons.prems False by (intro f) auto
    then obtain rc1 p1 h1 where r: "f p v h = Ret (rc1, p1, h1)" "rc1 \<in> {SQLITE_OK, SQLITE_NOMEM}" "bitvec_wf p1"
      "iSize p1 = s" "iDivisor p1 \<noteq> 0" "live h1 - live h = nodes p1 - nodes p"
      and o: "outcomes h = [] \<longrightarrow> rc1 = SQLITE_OK \<and> outcomes h1 = []"
      and j1: "\<forall>j < s. has p1 j \<longrightarrow> j = v - 1 \<or> has p j"
      and j2: "rc1 = SQLITE_OK \<longrightarrow> (\<forall>j < s. j = v - 1 \<or> has p j \<longrightarrow> has p1 j)"
      unfolding set_spec_def using Cons.prems(2,3) by blast
    note c = or_codes [OF Cons.prems(4) r(2)]
    have "loop_spec p1 (set vs) (rc OR rc1) h1 (rehash_loop f vs (rc OR rc1) p1 h1)"
      using r c Cons.prems by (intro Cons.IH) auto
    then obtain rc2 p2 h2 where l: "rehash_loop f vs (rc OR rc1) p1 h1 = Ret (rc2, p2, h2)"
      "rc2 \<in> {SQLITE_OK, SQLITE_NOMEM}" "bitvec_wf p2" "iSize p2 = s" "iDivisor p2 \<noteq> 0"
      "live h2 - live h1 = nodes p2 - nodes p1"
      and o2: "outcomes h1 = [] \<longrightarrow> rc2 = rc OR rc1 \<and> outcomes h2 = []"
      and k1: "\<forall>j < s. has p2 j \<longrightarrow> Suc j \<in> set vs \<or> has p1 j"
      and k2: "rc2 = SQLITE_OK \<longrightarrow> rc OR rc1 = SQLITE_OK \<and> (\<forall>j < s. Suc j \<in> set vs \<or> has p1 j \<longrightarrow> has p2 j)"
      unfolding loop_spec_def r(4) by blast
    have e: "rehash_loop f (v # vs) rc p h = Ret (rc2, p2, h2)" using r(1) l(1) False by simp
    have v: "Suc j = v \<longleftrightarrow> j = v - 1" for j using False by auto
    have J1: "\<forall>j < s. has p2 j \<longrightarrow> Suc j \<in> set (v # vs) \<or> has p j" using j1 k1 v by (metis list.set_intros)
    have J2: "rc2 = SQLITE_OK \<longrightarrow> rc = SQLITE_OK \<and> (\<forall>j < s. Suc j \<in> set (v # vs) \<or> has p j \<longrightarrow> has p2 j)"
      using j2 k2 c v by (metis set_ConsD)
    have O: "outcomes h = [] \<longrightarrow> rc2 = rc \<and> outcomes h2 = []" using o o2 c by metis
    have L: "live h2 - live h = nodes p2 - nodes p" using l(6) r(6) by linarith
    show ?thesis unfolding loop_spec_def e Cons.prems(2) using l(2-5) L O J1 J2 by blast
  qed
qed

function lv :: "nat \<Rightarrow> nat" where
  "lv s = (if s \<le> BITVEC_NBIT then 0 else Suc (lv ((s + 61) div 62)))"
  by pat_completeness auto
termination by (relation "measure id") auto

declare lv.simps [simp del]

lemma lv_le: "s \<le> BITVEC_NBIT * 62 ^ k \<Longrightarrow> lv s \<le> k"
proof (induction k arbitrary: s)
  case 0 then show ?case by (simp add: lv.simps)
next
  case (Suc k)
  have "(s + 61) div 62 \<le> BITVEC_NBIT * 62 ^ k"
  proof -
    have "s + 61 < Suc (BITVEC_NBIT * 62 ^ k) * 62" using Suc.prems by simp
    then show ?thesis using less_mult_imp_div_less by fastforce
  qed
  then have "lv ((s + 61) div 62) \<le> k" by (rule Suc.IH)
  then show ?case by (subst lv.simps) simp
qed

definition fuel_ok :: "nat \<Rightarrow> bitvec \<Rightarrow> bool" where
  "fuel_ok n p = ((if iDivisor p = 0 then Suc (2 * lv (iSize p)) else 2 * lv (iSize p)) \<le> n)"

lemma fuel_enough: "iSize p < 2 ^ 32 \<Longrightarrow> fuel_ok 9 p"
  using lv_le [of "iSize p" 4] by (simp add: fuel_ok_def)

lemma hash_present_spec:
  assumes "BITVEC_NBIT < s" "s < 2 ^ 32" "hash_ok s n a" "Suc i \<in> set a"
  shows "set_spec (Bitvec s n 0 (aHash a)) i h (Ret (SQLITE_OK, Bitvec s n 0 (aHash a), h))"
  using assms has_hash [OF assms(1,3)] by (intro set_specI) (auto intro: bitvec_wf.hash)

lemma rehash_spec:
  assumes f: "\<And>q v h. bitvec_wf q \<Longrightarrow> iSize q = s \<Longrightarrow> iDivisor q \<noteq> 0 \<Longrightarrow> 0 < v \<Longrightarrow> v \<le> s \<Longrightarrow> set_spec q (v - 1) h (f q v h)"
    and p: "p = Bitvec s n 0 (aHash a)" and s: "BITVEC_NBIT < s" "s < 2 ^ 32" "hash_ok s n a" "i < s"
  shows "set_spec p i h (bitvec_set_rehash f p a (Suc i) h)"
proof -
  obtain ok h0 where al: "c_alloc h = (ok, h0)" by (cases "c_alloc h")
  have wf: "bitvec_wf p" unfolding p using s by (intro bitvec_wf.hash)
  note lv0 = c_alloc_live [OF al]
  show ?thesis
  proof (cases ok)
    case False
    have "outcomes h \<noteq> []" using al False by (auto simp: c_alloc_def)
    then show ?thesis using False al lv0 wf
      by (intro set_specI [of _ SQLITE_NOMEM p h0]) (auto simp: bitvec_set_rehash_def)
  next
    case True
    have o0: "outcomes h = [] \<longrightarrow> outcomes h0 = []" using al by (auto simp: c_alloc_def)
    let ?d = "divided p"
    note d = divided_facts [OF s(1,2), where n = n and d = 0 and u = "aHash a", folded p]
    have "set_spec ?d (Suc i - 1) h0 (f ?d (Suc i) h0)" using d s(4) by (intro f) auto
    then obtain rc1 p1 h1 where r: "f ?d (Suc i) h0 = Ret (rc1, p1, h1)" "rc1 \<in> {SQLITE_OK, SQLITE_NOMEM}"
      "bitvec_wf p1" "iSize p1 = s" "iDivisor p1 \<noteq> 0" "live h1 - live h0 = nodes p1 - 1"
      and o: "outcomes h0 = [] \<longrightarrow> rc1 = SQLITE_OK \<and> outcomes h1 = []"
      and j1: "\<forall>j < s. has p1 j \<longrightarrow> j = i" and j2: "rc1 = SQLITE_OK \<longrightarrow> has p1 i"
      unfolding set_spec_def using d s(4) by auto
    have "\<forall>v \<in> set a. v \<le> s" using s(3) by (simp add: hash_ok_def)
    then have "loop_spec p1 (set a) rc1 h1 (rehash_loop f a rc1 p1 h1)"
      using r by (intro rehash_loop_spec [OF f]) auto
    then obtain rc2 p2 h2 where l: "rehash_loop f a rc1 p1 h1 = Ret (rc2, p2, h2)"
      "rc2 \<in> {SQLITE_OK, SQLITE_NOMEM}" "bitvec_wf p2" "iSize p2 = s" "iDivisor p2 \<noteq> 0"
      "live h2 - live h1 = nodes p2 - nodes p1"
      and o2: "outcomes h1 = [] \<longrightarrow> rc2 = rc1 \<and> outcomes h2 = []"
      and k1: "\<forall>j < s. has p2 j \<longrightarrow> Suc j \<in> set a \<or> has p1 j"
      and k2: "rc2 = SQLITE_OK \<longrightarrow> rc1 = SQLITE_OK \<and> (\<forall>j < s. Suc j \<in> set a \<or> has p1 j \<longrightarrow> has p2 j)"
      unfolding loop_spec_def r(4) by blast
    have m: "has p j \<longleftrightarrow> Suc j \<in> set a" for j unfolding p by (rule has_hash [OF s(1,3)])
    have e: "bitvec_set_rehash f p a (Suc i) h = Ret (rc2, p2, c_free h2)"
      using al True r(1) l(1) by (simp add: bitvec_set_rehash_def)
    show ?thesis
      using l(2-6) r(6) lv0 True o o0 o2 j1 j2 k1 k2 m
      by (intro set_specI [OF e]) (auto simp: p)
  qed
qed

lemma hash_set_spec:
  assumes f: "\<And>q v h. bitvec_wf q \<Longrightarrow> iSize q = s \<Longrightarrow> iDivisor q \<noteq> 0 \<Longrightarrow> 0 < v \<Longrightarrow> v \<le> s \<Longrightarrow> set_spec q (v - 1) h (f q v h)"
    and p: "p = Bitvec s n 0 (aHash a)" and s: "BITVEC_NBIT < s" "s < 2 ^ 32" "hash_ok s n a" "i < s"
  shows "set_spec p i h (hash_set f p i h)"
proof -
  obtain e where e: "free_run a (home (Suc i)) e" "e < BITVEC_NINT" using hash_ok_run [OF s(3), of "home (Suc i)"] by auto
  have k: "BITVEC_HASH i = home (Suc i)" by (simp add: BITVEC_HASH_def home_def)
  note mem = hash_member [OF s(3) e(1)]
  note rh = rehash_spec [where f = f and i = i, OF f p s]
  show ?thesis
  proof (cases "a ! home (Suc i) = 0")
    case True
    then have e0: "e = 0" using e(1) by (cases e) (auto dest: free_run_Suc)
    then have "Suc i \<notin> set a" using mem by simp
    then show ?thesis
      using True rh hash_put_spec [OF s(1-4) _ e(1)] e0 rd_free [OF e(1)] slot_0 [of "home (Suc i)"]
      by (auto simp: hash_set_def p k Let_def)
  next
    case False
    note pr = hash_probe_run [OF e(1) False, of BITVEC_NINT "Suc i"]
    show ?thesis
    proof (cases "Suc i \<in> set a")
      case True
      then show ?thesis using False mem pr hash_present_spec [OF s(1-3) True] e rd_free [OF e(1)]
        by (simp add: hash_set_def p k Let_def)
    next
      case F: False
      then show ?thesis using False mem pr hash_put_spec [OF s(1-4) F e(1)] rh e rd_free [OF e(1)]
        by (auto simp: hash_set_def p k Let_def)
    qed
  qed
qed

lemma u32_dec_Suc [simp]: "w < 2 ^ 32 \<Longrightarrow> u32_dec (Suc w) = w"
proof -
  assume w: "w < 2 ^ 32"
  have "Suc w + 2 ^ 32 - 1 = w + 2 ^ 32" by simp
  then show ?thesis using w unfolding u32_dec_def by simp
qed

lemma sub_set_spec:
  assumes f: "\<And>q i h. bitvec_wf q \<Longrightarrow> iSize q = d \<Longrightarrow> i < d \<Longrightarrow> set_spec q i h (f q i h)"
    and wf: "bitvec_wf p" and p: "p = Bitvec s n d (apSub subs)" and i: "i < s"
  shows "set_spec p i h (sub_set f p i h)"
proof -
  from wf have s: "BITVEC_NBIT < s" "s < 2 ^ 32" "length subs = BITVEC_NPTR" "d = (s + 61) div 62"
    and q: "\<And>q. Some q \<in> set subs \<Longrightarrow> bitvec_wf q \<and> iSize q = d"
    unfolding p by (auto elim: sub_wfE)
  let ?b = "i div d" let ?i = "i mod d"
  have b: "?b < length subs" using bin_less [OF i] s by simp
  have d: "0 < d" "d < 2 ^ 32" using s divisor_pos [OF s(1)] by auto
  have mod: "?i < d" using d by simp
  define sl where "sl = subs ! ?b"
  define old where "old j = (case sl of None \<Rightarrow> False | Some q \<Rightarrow> has q j)" for j
  obtain c h0 where ch: "(case sl of None \<Rightarrow> sqlite3BitvecCreate d h | Some q \<Rightarrow> (Some q, h)) = (c, h0)" by fastforce
  show ?thesis
  proof (cases c)
    case None
    then have "outcomes h \<noteq> [] \<and> live h0 = live h"
      using ch c_alloc_live [of h] by (auto simp: sqlite3BitvecCreate_def c_alloc_def Let_def split: option.split_asm prod.split_asm if_split_asm list.split_asm)
    moreover have "sub_set f p i h = Ret (SQLITE_NOMEM, p, h0)"
      using ch None b by (simp add: sub_set_def p rd_def sl_def Let_def cong: option.case_cong)
    ultimately show ?thesis using wf by (intro set_specI [of _ SQLITE_NOMEM p h0]) auto
  next
    case (Some q0)
    have q0: "bitvec_wf q0 \<and> iSize q0 = d \<and> (\<forall>j < d. has q0 j \<longleftrightarrow> old j) \<and>
        live h0 - live h = (case sl of None \<Rightarrow> 1 | Some q \<Rightarrow> 0) \<and> (outcomes h = [] \<longrightarrow> outcomes h0 = []) \<and>
        nodes q0 = (case sl of None \<Rightarrow> 1 | Some q \<Rightarrow> nodes q)"
    proof (cases sl)
      case None
      then show ?thesis using ch Some zero_bitvec_wf [OF d(2)] zero_bitvec_has [of _ d] c_alloc_live [of h]
        by (auto simp: sqlite3BitvecCreate_def old_def c_alloc_def Let_def split: prod.split_asm if_split_asm list.split_asm)
    next
      case (Some q1)
      then have "Some q1 \<in> set subs" using b nth_mem [of ?b subs] by (simp add: sl_def)
      then show ?thesis using ch \<open>c = Some q0\<close> Some q by (auto simp: old_def)
    qed
    then have "set_spec q0 ?i h0 (f q0 ?i h0)" using mod by (intro f) auto
    then obtain rc q1 h1 where r: "f q0 ?i h0 = Ret (rc, q1, h1)" "rc \<in> {SQLITE_OK, SQLITE_NOMEM}"
      "bitvec_wf q1" "iSize q1 = d" "live h1 - live h0 = nodes q1 - nodes q0"
      and o1: "outcomes h0 = [] \<longrightarrow> rc = SQLITE_OK \<and> outcomes h1 = []"
      and j1: "\<forall>j < d. has q1 j \<longrightarrow> j = ?i \<or> has q0 j"
      and j2: "rc = SQLITE_OK \<longrightarrow> (\<forall>j < d. j = ?i \<or> has q0 j \<longrightarrow> has q1 j)"
      unfolding set_spec_def using q0 by auto
    let ?p = "Bitvec s n d (apSub (subs[?b := Some q1]))"
    have e: "sub_set f p i h = Ret (rc, ?p, h1)"
      using ch Some r(1) b by (simp add: sub_set_def p rd_def sl_def Let_def cong: option.case_cong)
    have wf': "bitvec_wf ?p" using s r(3,4) q by (intro bitvec_wf.sub) (auto dest: set_update_subset_insert [THEN subsetD])
    have hp: "has ?p j = (if j div d = ?b then has q1 (j mod d) else has p j)" if "j < s" for j
      using that s b unfolding p by (subst (1 2) has_sub) (auto simp: nth_list_update)
    have ho: "has p j = old (j mod d)" if "j < s" "j div d = ?b" for j
      using that s unfolding p by (subst has_sub) (auto simp: old_def sl_def split: option.split)
    have nd: "nodes ?p = nodes p + nodes q1 - (case sl of None \<Rightarrow> 0 | Some q \<Rightarrow> nodes q)"
      using nodes_update [OF b, of q1] unfolding p nodes_Bitvec sl_def by simp
    have md: "j mod d < d" for j using d by simp
    show ?thesis
    proof (rule set_specI [OF e r(2) wf'])
      show "live h1 - live h = nodes ?p - nodes p" using nd q0 r(5) by (auto split: option.split_asm)
      show "outcomes h = [] \<longrightarrow> rc = SQLITE_OK \<and> outcomes h1 = []" using q0 o1 by blast
      show "j = i \<or> has p j" if "j < iSize p" "has ?p j" for j
        using that hp [of j] ho [of j] j1 md [of j] q0 div_mod_inj [of j d i] unfolding p by (auto split: if_split_asm)
      show "has ?p j" if "rc = SQLITE_OK" "j < iSize p" "j = i \<or> has p j" for j
        using that hp [of j] ho [of j] j2 md [of j] q0 unfolding p by (auto split: if_split_asm)
    qed (simp_all add: p)
  qed
qed

lemma set_at_spec:
  "bitvec_wf p \<Longrightarrow> i < iSize p \<Longrightarrow> fuel_ok n p \<Longrightarrow> set_spec p i h (set_at n p i h)"
proof (induction n arbitrary: p i h)
  case 0
  from 0(3) have z: "iDivisor p \<noteq> 0 \<and> lv (iSize p) = 0" by (auto simp: fuel_ok_def split: if_split_asm)
  from 0(1) z show ?case by (cases rule: bitvec_wf.cases) (auto simp: lv.simps)
next
  case (Suc n)
  from Suc.prems(1) show ?case
  proof (cases rule: bitvec_wf.cases)
    case (bitmap s a k)
    then show ?thesis using bitmap_set_spec [of s a i k h] Suc.prems(2) by simp
  next
    case (hash s k a)
    have "set_spec q (v - 1) h (set_at n q (u32_dec v) h)"
      if "bitvec_wf q" "iSize q = s" "iDivisor q \<noteq> 0" "0 < v" "v \<le> s" for q v h
    proof -
      have "u32_dec v = v - 1" using that(4,5) hash(3) u32_dec_Suc [of "v - 1"] by simp
      moreover have "fuel_ok n q" using that Suc.prems(3) hash by (simp add: fuel_ok_def)
      ultimately show ?thesis using that by (auto intro: Suc.IH)
    qed
    from hash_set_spec [where f = "\<lambda>p i. set_at n p (u32_dec i)" and i = i, OF this hash(1-4)]
    show ?thesis using Suc.prems(2) hash by simp
  next
    case (sub s subs d k)
    have l: "lv s = Suc (lv d)" using sub by (subst lv.simps) simp
    have "set_spec q i h (set_at n q i h)" if "bitvec_wf q" "iSize q = d" "i < d" for q i h
    proof -
      have "fuel_ok n q" using that Suc.prems(3) l sub divisor_pos [of s] by (auto simp: fuel_ok_def split: if_split_asm)
      then show ?thesis using that by (auto intro: Suc.IH)
    qed
    from sub_set_spec [where f = "set_at n", OF this Suc.prems(1) sub(1)]
    show ?thesis using Suc.prems(2) sub divisor_pos [of s] by simp
  qed
qed

section \<open>Clearing a bit\<close>

lemma distinct_nonzero:
  "(\<forall>j < length a. \<forall>k < length a. a ! j \<noteq> 0 \<and> a ! j = a ! k \<longrightarrow> j = k) \<Longrightarrow> distinct (filter (\<lambda>v. v \<noteq> (0 :: nat)) a)"
proof (induction a)
  case (Cons x a)
  have "distinct (filter (\<lambda>v. v \<noteq> 0) a)"
  proof (rule Cons.IH, intro allI impI)
    fix j k assume "j < length a" "k < length a" "a ! j \<noteq> 0 \<and> a ! j = a ! k"
    then show "j = k" using Cons.prems [rule_format, of "Suc j" "Suc k"] by simp
  qed
  moreover have "x \<notin> set a" if "x \<noteq> 0"
  proof
    assume "x \<in> set a"
    then obtain k where "k < length a" "a ! k = x" by (auto simp: in_set_conv_nth)
    then show False using Cons.prems [rule_format, of 0 "Suc k"] that by simp
  qed
  ultimately show ?case by simp
qed simp

lemma hash_ok_values:
  assumes "hash_ok s n a"
  shows "distinct (filter (\<lambda>v. v \<noteq> 0) a)" "length (filter (\<lambda>v. v \<noteq> 0) a) = n"
  using assms distinct_nonzero [of a] by (auto simp: hash_ok_def length_filter_conv_card)

lemma clear_hash_loop_ok:
  assumes "hash_ok s n a" "\<forall>v \<in> set vs. v \<le> s" "distinct (filter (\<lambda>v. v \<noteq> 0) vs)"
    "\<forall>v \<in> set vs. v \<noteq> 0 \<longrightarrow> v \<notin> set a" "n + length (filter (\<lambda>v. v \<noteq> 0) vs) < BITVEC_NINT"
  shows "\<exists>n' a'. clear_hash_loop vs i n a = Ret (n', a') \<and> hash_ok s n' a' \<and>
    (\<forall>v. v \<noteq> 0 \<longrightarrow> (v \<in> set a' \<longleftrightarrow> v \<in> set a \<or> v \<in> set vs \<and> v \<noteq> Suc i))"
  using assms
proof (induction vs arbitrary: n a)
  case (Cons v vs)
  show ?case
  proof (cases "v = 0 \<or> v = Suc i")
    case True
    have "\<exists>n' a'. clear_hash_loop vs i n a = Ret (n', a') \<and> hash_ok s n' a' \<and>
      (\<forall>v. v \<noteq> 0 \<longrightarrow> (v \<in> set a' \<longleftrightarrow> v \<in> set a \<or> v \<in> set vs \<and> v \<noteq> Suc i))"
      using Cons.prems by (intro Cons.IH) (auto split: if_split_asm)
    then show ?thesis using True by auto
  next
    case False
    obtain e where e: "free_run a (home v) e" "e < BITVEC_NINT" using hash_ok_run [OF Cons.prems(1), of "home v"] by auto
    let ?b = "a[slot (home v) e := v]"
    have f: "hash_free BITVEC_NINT a (BITVEC_HASH (v - 1)) = Ret (slot (home v) e)"
      using hash_free_run [OF e] by (simp add: BITVEC_HASH_def home_def)
    have k: "hash_ok s (Suc n) ?b" using Cons.prems False by (intro hash_insert [OF _ e(1)]) auto
    have m: "w \<in> set ?b \<longleftrightarrow> w = v \<or> w \<in> set a" if "w \<noteq> 0" for w
      using that e(1) set_list_update_zero [of "slot (home v) e" a w v] by (simp add: free_run_def)
    have "\<exists>n' a'. clear_hash_loop vs i (Suc n) ?b = Ret (n', a') \<and> hash_ok s n' a' \<and>
      (\<forall>w. w \<noteq> 0 \<longrightarrow> (w \<in> set a' \<longleftrightarrow> w \<in> set ?b \<or> w \<in> set vs \<and> w \<noteq> Suc i))"
      using Cons.prems False m k by (intro Cons.IH) auto
    then show ?thesis using False f m by auto
  qed
qed auto

definition clear_spec :: "bitvec \<Rightarrow> nat \<Rightarrow> bitvec cres \<Rightarrow> bool" where
  "clear_spec p i r = (\<exists>p'. r = Ret p' \<and> bitvec_wf p' \<and> iSize p' = iSize p \<and> nodes p' = nodes p \<and>
     (\<forall>j < iSize p. has p' j \<longleftrightarrow> j \<noteq> i \<and> has p j))"

lemma clear_at_spec: "bitvec_wf p \<Longrightarrow> i < iSize p \<Longrightarrow> clear_spec p i (clear_at p i)"
proof (induction arbitrary: i rule: bitvec_wf.induct)
  case (bitmap s a n)
  let ?b = "a[i div 8 := a ! (i div 8) AND NOT (2 ^ (i mod 8))]"
  have l: "i div 8 < BITVEC_NELEM" using byte_index [of i] bitmap by simp
  then have e: "clear_at (Bitvec s n 0 (aBitmap a)) i = Ret (Bitvec s n 0 (aBitmap ?b))"
    using bitmap by (simp add: clear_at.simps rd_def)
  have "has (Bitvec s n 0 (aBitmap ?b)) j \<longleftrightarrow> j \<noteq> i \<and> has (Bitvec s n 0 (aBitmap a)) j" if "j < s" for j
    using that bitmap l div_mod_inj [of j 8 i]
    by (auto simp: has_bitmap nth_list_update bit_and_iff bit_not_iff bit_single possible_bit_word)
  then show ?case unfolding clear_spec_def e using bitmap by (auto intro: bitvec_wf.bitmap)
next
  case (hash s n a)
  note v = hash_ok_values [OF hash(3)]
  have z: "set (replicate BITVEC_NINT 0) = {0 :: nat}" by (simp add: set_replicate_conv_if)
  have "\<exists>n' a'. clear_hash_loop a i 0 (replicate BITVEC_NINT 0) = Ret (n', a') \<and> hash_ok s n' a' \<and>
    (\<forall>v. v \<noteq> 0 \<longrightarrow> (v \<in> set a' \<longleftrightarrow> v \<in> set (replicate BITVEC_NINT 0) \<or> v \<in> set a \<and> v \<noteq> Suc i))"
    using hash(3) v by (intro clear_hash_loop_ok hash_empty_ok) (auto simp: hash_ok_def z)
  then obtain n' a' where r: "clear_hash_loop a i 0 (replicate BITVEC_NINT 0) = Ret (n', a')" "hash_ok s n' a'"
    "\<forall>v. v \<noteq> 0 \<longrightarrow> (v \<in> set a' \<longleftrightarrow> v \<in> set a \<and> v \<noteq> Suc i)" unfolding z by auto
  then have e: "clear_at (Bitvec s n 0 (aHash a)) i = Ret (Bitvec s n' 0 (aHash a'))"
    using hash by (simp add: clear_at.simps)
  show ?case unfolding clear_spec_def e using hash r has_hash [OF hash(1) r(2)] has_hash [OF hash(1,3)]
    by (auto intro: bitvec_wf.hash)
next
  case (sub s subs d n)
  let ?p = "Bitvec s n d (apSub subs)" let ?b = "i div d" let ?i = "i mod d"
  have d: "0 < d" using divisor_pos [OF sub(1)] sub(4) by simp
  have b: "?b < length subs" using bin_less [of i s] sub by simp
  have wf: "bitvec_wf ?p" using sub by (intro bitvec_wf.sub) auto
  have md: "j mod d < d" for j using d by simp
  show ?case
  proof (cases "subs ! ?b")
    case None
    have "clear_at ?p i = Ret ?p" using None b d by (simp add: clear_at.simps rd_def)
    moreover have "\<not> has ?p i" using None sub by (subst has_sub) auto
    ultimately show ?thesis unfolding clear_spec_def using wf by auto
  next
    case (Some q)
    have q: "bitvec_wf q" "iSize q = d" and IH: "\<And>i. i < iSize q \<Longrightarrow> clear_spec q i (clear_at q i)"
      using sub(5) [of q] Some b nth_mem [of ?b subs] by auto
    obtain q' where r: "clear_at q ?i = Ret q'" "bitvec_wf q'" "iSize q' = d" "nodes q' = nodes q"
      and h: "\<forall>j < d. has q' j \<longleftrightarrow> j \<noteq> ?i \<and> has q j"
      using IH [of ?i] q md unfolding clear_spec_def by auto
    let ?p' = "Bitvec s n d (apSub (subs[?b := Some q']))"
    have e: "clear_at ?p i = Ret ?p'" using Some b d r by (simp add: clear_at.simps rd_def)
    have wf': "bitvec_wf ?p'" using sub r by (intro bitvec_wf.sub) (auto dest: set_update_subset_insert [THEN subsetD])
    have "nodes ?p' = nodes ?p" using nodes_update [OF b, of q'] Some r by (simp only: nodes_Bitvec) simp
    moreover have "has ?p' j \<longleftrightarrow> j \<noteq> i \<and> has ?p j" if "j < s" for j
    proof -
      have "has ?p' j = (if j div d = ?b then has q' (j mod d) else has ?p j)"
        using that sub b by (subst (1 2) has_sub) (auto simp: nth_list_update)
      moreover have "j div d = ?b \<Longrightarrow> has ?p j = has q (j mod d)"
        using that sub Some by (subst has_sub) auto
      ultimately show ?thesis using h md [of j] div_mod_inj [of j d i] by auto
    qed
    ultimately show ?thesis unfolding clear_spec_def e using wf' by auto
  qed
qed

section \<open>Destroying\<close>

definition destroy_spec :: "int \<Rightarrow> (heap \<Rightarrow> heap cres) \<Rightarrow> bool" where
  "destroy_spec k f = (\<forall>h. \<exists>h'. f h = Ret h' \<and> live h' = live h - k \<and> outcomes h' = outcomes h)"

lemma destroy_list_spec:
  "(\<And>q. Some q \<in> set subs \<Longrightarrow> destroy_spec (nodes q) (bitvec_destroy q)) \<Longrightarrow>
   destroy_spec (nodes_u (apSub subs)) (destroy_list (map (map_option bitvec_destroy) subs))"
proof (induction subs)
  case Nil then show ?case by (simp add: destroy_spec_def)
next
  case (Cons s subs)
  have IH: "destroy_spec (nodes_u (apSub subs)) (destroy_list (map (map_option bitvec_destroy) subs))"
    using Cons by auto
  show ?case
  proof (cases s)
    case None
    then show ?thesis using IH by (auto simp: destroy_spec_def)
  next
    case (Some q)
    then have q: "destroy_spec (nodes q) (bitvec_destroy q)" using Cons by auto
    show ?thesis unfolding destroy_spec_def
    proof
      fix h
      obtain h1 where h1: "bitvec_destroy q h = Ret h1" "live h1 = live h - nodes q" "outcomes h1 = outcomes h"
        using q by (auto simp: destroy_spec_def)
      obtain h2 where h2: "destroy_list (map (map_option bitvec_destroy) subs) h1 = Ret h2"
        "live h2 = live h1 - nodes_u (apSub subs)" "outcomes h2 = outcomes h1"
        using IH unfolding destroy_spec_def by blast
      show "\<exists>h'. destroy_list (map (map_option bitvec_destroy) (s # subs)) h = Ret h' \<and>
          live h' = live h - nodes_u (apSub (s # subs)) \<and> outcomes h' = outcomes h"
        using h1 h2 Some by auto
    qed
  qed
qed

lemma destroy_ok: "bitvec_wf p \<Longrightarrow> destroy_spec (nodes p) (bitvec_destroy p)"
proof (induction rule: bitvec_wf.induct)
  case (sub s subs d n)
  have "destroy_spec (nodes_u (apSub subs)) (destroy_list (map (map_option bitvec_destroy) subs))"
    using sub by (intro destroy_list_spec) auto
  then show ?case using divisor_pos [OF sub(1)] sub(4) unfolding destroy_spec_def nodes_Bitvec
    by (auto simp: cres_simps) (metis c_free_live c_free_outcomes diff_diff_eq2 diff_add_eq_diff_diff_swap)
qed (simp_all add: destroy_spec_def)

section \<open>Interface of a set of bits\<close>

text \<open>
  What the pager and the b-tree of SQLite rely on: a bounded set with test, set and clear. The lemma for
  clients says what the set contains after any sequence of operations.
\<close>

datatype bit_op = SetBit nat | ClearBit nat

fun bit_of :: "bit_op \<Rightarrow> nat" where
  "bit_of (SetBit i) = i"
| "bit_of (ClearBit i) = i"

fun apply_op :: "bit_op \<Rightarrow> nat set \<Rightarrow> nat set" where
  "apply_op (SetBit i) A = insert i A"
| "apply_op (ClearBit i) A = A - {i}"

locale bit_set =
  fixes test :: "'s \<Rightarrow> nat \<Rightarrow> bool cres"
    and setb :: "'s \<Rightarrow> nat \<Rightarrow> heap \<Rightarrow> (int \<times> 's \<times> heap) cres"
    and clr :: "'s \<Rightarrow> nat \<Rightarrow> 's cres"
    and invar :: "'s \<Rightarrow> bool"
    and limit :: "'s \<Rightarrow> nat"
    and contents :: "'s \<Rightarrow> nat set"
  assumes test_ok: "invar s \<Longrightarrow> i < 2 ^ 32 \<Longrightarrow> test s i = Ret (i \<in> contents s)"
    and set_ok: "invar s \<Longrightarrow> 0 < i \<Longrightarrow> i \<le> limit s \<Longrightarrow> outcomes h = [] \<Longrightarrow>
      \<exists>s' h'. setb s i h = Ret (SQLITE_OK, s', h') \<and> invar s' \<and> limit s' = limit s \<and> outcomes h' = [] \<and>
        contents s' = insert i (contents s)"
    and clear_ok: "invar s \<Longrightarrow> 0 < i \<Longrightarrow> i \<le> limit s \<Longrightarrow>
      \<exists>s'. clr s i = Ret s' \<and> invar s' \<and> limit s' = limit s \<and> contents s' = contents s - {i}"
begin

primrec run :: "bit_op list \<Rightarrow> 's \<Rightarrow> heap \<Rightarrow> ('s \<times> heap) cres" where
  "run [] s h = Ret (s, h)"
| "run (oper # ops) s h =
     (case oper of
        SetBit i \<Rightarrow> cbind (setb s i h) (\<lambda>(rc, s, h). run ops s h)
      | ClearBit i \<Rightarrow> cbind (clr s i) (\<lambda>s. run ops s h))"

lemma run_ok:
  "invar s \<Longrightarrow> outcomes h = [] \<Longrightarrow> \<forall>oper \<in> set ops. 0 < bit_of oper \<and> bit_of oper \<le> limit s \<Longrightarrow>
   \<exists>s' h'. run ops s h = Ret (s', h') \<and> invar s' \<and> limit s' = limit s \<and> outcomes h' = [] \<and>
     contents s' = fold apply_op ops (contents s)"
proof (induction ops arbitrary: s h)
  case (Cons oper ops)
  show ?case
  proof (cases oper)
    case (SetBit i)
    then obtain s1 h1 where r: "setb s i h = Ret (SQLITE_OK, s1, h1)" "invar s1" "limit s1 = limit s"
      "outcomes h1 = []" "contents s1 = insert i (contents s)" using set_ok [of s i h] Cons.prems by auto
    then show ?thesis using Cons.IH [of s1 h1] Cons.prems SetBit by auto
  next
    case (ClearBit i)
    then obtain s1 where r: "clr s i = Ret s1" "invar s1" "limit s1 = limit s"
      "contents s1 = contents s - {i}" using clear_ok [of s i] Cons.prems by auto
    then show ?thesis using Cons.IH [of s1 h] Cons.prems ClearBit by auto
  qed
qed simp

end

definition bv_invar :: "bitvec option \<Rightarrow> bool" where
  "bv_invar p = (case p of None \<Rightarrow> False | Some p \<Rightarrow> bitvec_wf p)"

definition bv_limit :: "bitvec option \<Rightarrow> nat" where
  "bv_limit p = (case p of None \<Rightarrow> 0 | Some p \<Rightarrow> iSize p)"

definition bv_contents :: "bitvec option \<Rightarrow> nat set" where
  "bv_contents p = (case p of None \<Rightarrow> {} | Some p \<Rightarrow> {i. 0 < i \<and> i \<le> iSize p \<and> has p (i - 1)})"

lemma wf_size: "bitvec_wf p \<Longrightarrow> iSize p < 2 ^ 32"
  by (cases p rule: bitvec_wf.cases) auto

lemma set_top:
  assumes "bitvec_wf p" "0 < i" "i \<le> iSize p"
  obtains rc p' h' where "sqlite3BitvecSet (Some p) i h = Ret (rc, Some p', h')" "rc \<in> {SQLITE_OK, SQLITE_NOMEM}"
    "bitvec_wf p'" "iSize p' = iSize p" "live h' - live h = nodes p' - nodes p"
    "outcomes h = [] \<longrightarrow> rc = SQLITE_OK \<and> outcomes h' = []"
    "bv_contents (Some p') \<subseteq> insert i (bv_contents (Some p))"
    "rc = SQLITE_OK \<longrightarrow> bv_contents (Some p') = insert i (bv_contents (Some p))"
proof -
  have d: "u32_dec i = i - 1" using assms wf_size [OF assms(1)] u32_dec_Suc [of "i - 1"] by simp
  have "set_spec p (i - 1) h (set_at 9 p (i - 1) h)"
    using assms by (intro set_at_spec fuel_enough wf_size) auto
  then obtain rc p' h' where r: "set_at 9 p (i - 1) h = Ret (rc, p', h')" "rc \<in> {SQLITE_OK, SQLITE_NOMEM}"
    "bitvec_wf p'" "iSize p' = iSize p" "live h' - live h = nodes p' - nodes p"
    "outcomes h = [] \<longrightarrow> rc = SQLITE_OK \<and> outcomes h' = []"
    and j1: "\<forall>j < iSize p. has p' j \<longrightarrow> j = i - 1 \<or> has p j"
    and j2: "rc = SQLITE_OK \<longrightarrow> (\<forall>j < iSize p. j = i - 1 \<or> has p j \<longrightarrow> has p' j)"
    unfolding set_spec_def by blast
  have "k = i \<or> has p (k - 1)" if "0 < k" "k \<le> iSize p" "has p' (k - 1)" for k
  proof -
    have "k - 1 < iSize p" "k - 1 = i - 1 \<longleftrightarrow> k = i" using that assms(2) by linarith+
    then show ?thesis using j1 that by auto
  qed
  then have s: "bv_contents (Some p') \<subseteq> insert i (bv_contents (Some p))"
    using r(4) by (auto simp: bv_contents_def)
  have "has p' (k - 1)" if "rc = SQLITE_OK" "0 < k" "k \<le> iSize p" "k = i \<or> has p (k - 1)" for k
  proof -
    have "k - 1 < iSize p" using that by linarith
    then show ?thesis using that j2 by auto
  qed
  then have "rc = SQLITE_OK \<longrightarrow> insert i (bv_contents (Some p)) \<subseteq> bv_contents (Some p')"
    using r(4) assms by (auto simp: bv_contents_def)
  then show thesis using that [of rc p' h'] r s d by (simp add: sqlite3BitvecSet_def) blast
qed

lemma clear_top:
  assumes "bitvec_wf p" "0 < i" "i \<le> iSize p"
  shows "\<exists>p'. sqlite3BitvecClear (Some p) i = Ret (Some p') \<and> bitvec_wf p' \<and> iSize p' = iSize p \<and> nodes p' = nodes p \<and>
    bv_contents (Some p') = bv_contents (Some p) - {i}"
proof -
  have d: "u32_dec i = i - 1" using assms wf_size [OF assms(1)] u32_dec_Suc [of "i - 1"] by simp
  have lt: "i - 1 < iSize p" using assms by linarith
  obtain p' where r: "clear_at p (i - 1) = Ret p'" "bitvec_wf p'" "iSize p' = iSize p" "nodes p' = nodes p"
    and h: "\<forall>j < iSize p. has p' j \<longleftrightarrow> j \<noteq> i - 1 \<and> has p j"
    using clear_at_spec [OF assms(1) lt] unfolding clear_spec_def by auto
  have "has p' (k - 1) \<longleftrightarrow> k \<noteq> i \<and> has p (k - 1)" if "0 < k" "k \<le> iSize p" for k
  proof -
    have "k - 1 < iSize p" "k - 1 = i - 1 \<longleftrightarrow> k = i" using that assms(2) by linarith+
    then show ?thesis using h by auto
  qed
  then have "bv_contents (Some p') = bv_contents (Some p) - {i}" using r(3) by (auto simp: bv_contents_def)
  then show ?thesis using r d by (simp add: sqlite3BitvecClear_def)
qed

lemma test_top:
  assumes "bitvec_wf p" "i < 2 ^ 32"
  shows "sqlite3BitvecTest (Some p) i = Ret (i \<in> bv_contents (Some p))"
proof (cases "0 < i \<and> i \<le> iSize p")
  case True
  then have "u32_dec i = i - 1" "i - 1 < iSize p" using assms u32_dec_Suc [of "i - 1"] by auto
  then show ?thesis using True has_test [OF assms(1), of "i - 1"]
    by (auto simp: sqlite3BitvecTest_def sqlite3BitvecTestNotNull_def bv_contents_def Let_def)
next
  case False
  then have "u32_dec i \<ge> iSize p"
    using assms wf_size [OF assms(1)] u32_dec_Suc [of "i - 1"] by (cases i) (auto simp: u32_dec_def)
  then show ?thesis using False
    by (auto simp: sqlite3BitvecTest_def sqlite3BitvecTestNotNull_def bv_contents_def)
qed

interpretation bv: bit_set sqlite3BitvecTest sqlite3BitvecSet sqlite3BitvecClear bv_invar bv_limit bv_contents
proof
  fix s and i :: nat and h :: heap
  { assume "bv_invar s" "i < 2 ^ 32"
    then show "sqlite3BitvecTest s i = Ret (i \<in> bv_contents s)"
      using test_top by (auto simp: bv_invar_def split: option.split_asm) }
  { assume s: "bv_invar s" "0 < i" "i \<le> bv_limit s" "outcomes h = []"
    then obtain p where p: "s = Some p" "bitvec_wf p" "i \<le> iSize p"
      by (auto simp: bv_invar_def bv_limit_def split: option.split_asm)
    show "\<exists>s' h'. sqlite3BitvecSet s i h = Ret (SQLITE_OK, s', h') \<and> bv_invar s' \<and> bv_limit s' = bv_limit s \<and>
        outcomes h' = [] \<and> bv_contents s' = insert i (bv_contents s)"
      by (rule set_top [OF p(2) s(2) p(3), of h]) (use s p in \<open>auto simp: bv_invar_def bv_limit_def\<close>) }
  { assume s: "bv_invar s" "0 < i" "i \<le> bv_limit s"
    then obtain p where p: "s = Some p" "bitvec_wf p" "i \<le> iSize p"
      by (auto simp: bv_invar_def bv_limit_def split: option.split_asm)
    show "\<exists>s'. sqlite3BitvecClear s i = Ret s' \<and> bv_invar s' \<and> bv_limit s' = bv_limit s \<and> bv_contents s' = bv_contents s - {i}"
      using clear_top [OF p(2) s(2) p(3)] p(1) by (auto simp: bv_invar_def bv_limit_def) }
qed

lemma create_top:
  assumes "sqlite3BitvecCreate n h = (Some p, h')" "n < 2 ^ 32"
  shows "bitvec_wf p \<and> iSize p = n \<and> bv_contents (Some p) = {} \<and> live h' = live h + nodes p \<and> (outcomes h = [] \<longrightarrow> outcomes h' = [])"
  using assms zero_bitvec_wf [OF assms(2)] zero_bitvec_has [of _ n] c_alloc_live [of h]
  by (auto simp: sqlite3BitvecCreate_def bv_contents_def c_alloc_def Let_def Suc_le_lessD split: prod.split_asm if_split_asm list.split_asm)

text \<open>C8: refinement of a set, over any sequence of operations. A bitmap created for \<open>n\<close> bits and then
  changed by any sequence of \<^verbatim>\<open>sqlite3BitvecSet\<close> and \<^verbatim>\<open>sqlite3BitvecClear\<close> on bits 1 to \<open>n\<close>, whichever
  of the three representations it goes through, is such that every \<^verbatim>\<open>sqlite3BitvecTest\<close> returns, and
  answers whether the bit is in the set that the same operations give on mathematical sets. No call
  faults, runs out of its bounds or reports an error while memory lasts.\<close>

theorem bitvec_refines_set:
  assumes "sqlite3BitvecCreate n h = (Some p, h0)" "n < 2 ^ 32" "outcomes h = []"
    and "\<forall>oper \<in> set ops. 0 < bit_of oper \<and> bit_of oper \<le> n"
  shows "\<exists>p' h'. bv.run ops (Some p) h0 = Ret (p', h') \<and>
    (\<forall>i < 2 ^ 32. sqlite3BitvecTest p' i = Ret (i \<in> fold apply_op ops {}))"
proof -
  note c = create_top [OF assms(1,2)]
  then have "\<exists>p' h'. bv.run ops (Some p) h0 = Ret (p', h') \<and> bv_invar p' \<and> bv_limit p' = bv_limit (Some p) \<and>
      outcomes h' = [] \<and> bv_contents p' = fold apply_op ops (bv_contents (Some p))"
    using assms by (intro bv.run_ok) (auto simp: bv_invar_def bv_limit_def)
  then show ?thesis using c bv.test_ok by metis
qed

theorem bitvec_refines_set_witness:
  "\<exists>p' h'. bv.run [SetBit 7, SetBit 4000, ClearBit 7] (Some (zero_bitvec 5000)) \<lparr>outcomes = [], live = 1\<rparr> = Ret (p', h') \<and>
     sqlite3BitvecTest p' 4000 = Ret True \<and> sqlite3BitvecTest p' 7 = Ret False"
proof -
  have c: "sqlite3BitvecCreate 5000 \<lparr>outcomes = [], live = 0\<rparr> = (Some (zero_bitvec 5000), \<lparr>outcomes = [], live = 1\<rparr>)"
    by (simp add: sqlite3BitvecCreate_def c_alloc_def)
  obtain p' h' where "bv.run [SetBit 7, SetBit 4000, ClearBit 7] (Some (zero_bitvec 5000)) \<lparr>outcomes = [], live = 1\<rparr> = Ret (p', h')"
    and t: "\<forall>i < 2 ^ 32. sqlite3BitvecTest p' i = Ret (i \<in> fold apply_op [SetBit 7, SetBit 4000, ClearBit 7] {})"
    using bitvec_refines_set [OF c, of "[SetBit 7, SetBit 4000, ClearBit 7]"] by auto
  then show ?thesis using t [rule_format, of 4000] t [rule_format, of 7] by auto
qed

text \<open>setting one bit, memory failures included. The call always returns, with \<^verbatim>\<open>SQLITE_OK\<close> or
  \<^verbatim>\<open>SQLITE_NOMEM\<close>; the bitmap stays well-formed with the same size; the blocks allocated are the nodes
  it gained; no bit but \<open>i\<close> is ever added; and after \<^verbatim>\<open>SQLITE_OK\<close> the set is the old one with \<open>i\<close>.\<close>

theorem bitvec_set_total:
  assumes "bitvec_wf p" "0 < i" "i \<le> iSize p"
  shows "\<exists>rc p' h'. sqlite3BitvecSet (Some p) i h = Ret (rc, Some p', h') \<and> rc \<in> {SQLITE_OK, SQLITE_NOMEM} \<and>
    bitvec_wf p' \<and> iSize p' = iSize p \<and> live h' - live h = nodes p' - nodes p \<and>
    bv_contents (Some p') \<subseteq> insert i (bv_contents (Some p)) \<and>
    (rc = SQLITE_OK \<longrightarrow> bv_contents (Some p') = insert i (bv_contents (Some p)))"
  by (rule set_top [OF assms, of h]) blast

theorem bitvec_set_total_witness:
  "\<exists>rc p' h'. sqlite3BitvecSet (Some (zero_bitvec 100)) 42 \<lparr>outcomes = [False], live = 1\<rparr> = Ret (rc, Some p', h') \<and>
     bitvec_wf p' \<and> iSize p' = 100"
  using bitvec_set_total [OF zero_bitvec_wf, of 100 42 "\<lparr>outcomes = [False], live = 1\<rparr>"] by auto

lemma run_blocks:
  "bitvec_wf p \<Longrightarrow> \<forall>oper \<in> set ops. 0 < bit_of oper \<and> bit_of oper \<le> iSize p \<Longrightarrow>
   \<exists>p' h'. bv.run ops (Some p) h = Ret (Some p', h') \<and> bitvec_wf p' \<and> live h' - live h = nodes p' - nodes p"
proof (induction ops arbitrary: p h)
  case (Cons oper ops)
  show ?case
  proof (cases oper)
    case (SetBit i)
    then have i: "0 < i" "i \<le> iSize p" using Cons.prems by auto
    obtain rc p1 h1 where r: "sqlite3BitvecSet (Some p) i h = Ret (rc, Some p1, h1)" "bitvec_wf p1" "iSize p1 = iSize p"
      "live h1 - live h = nodes p1 - nodes p" by (rule set_top [OF Cons.prems(1) i])
    then show ?thesis using Cons.IH [of p1 h1] Cons.prems SetBit by fastforce
  next
    case (ClearBit i)
    then have i: "0 < i" "i \<le> iSize p" using Cons.prems by auto
    obtain p1 where r: "sqlite3BitvecClear (Some p) i = Ret (Some p1)" "bitvec_wf p1" "iSize p1 = iSize p" "nodes p1 = nodes p"
      using clear_top [OF Cons.prems(1) i] by blast
    then show ?thesis using Cons.IH [of p1 h] Cons.prems ClearBit by fastforce
  qed
qed simp

text \<open>C25: destroying a bitmap returns every block it ever took: after any sequence of operations the
  destructor frees as many blocks as the creation and the operations allocated.\<close>

theorem bitvec_lifecycle:
  assumes "sqlite3BitvecCreate n h = (Some p, h0)" "n < 2 ^ 32"
    and "\<forall>oper \<in> set ops. 0 < bit_of oper \<and> bit_of oper \<le> n"
  shows "\<exists>p' h1 h2. bv.run ops (Some p) h0 = Ret (p', h1) \<and> sqlite3BitvecDestroy p' h1 = Ret h2 \<and> live h2 = live h"
proof -
  note c = create_top [OF assms(1,2)]
  then obtain p' h1 where r: "bv.run ops (Some p) h0 = Ret (Some p', h1)" "bitvec_wf p'"
    "live h1 - live h0 = nodes p' - nodes p" using run_blocks [of p ops h0] assms(3) by auto
  obtain h2 where "bitvec_destroy p' h1 = Ret h2" "live h2 = live h1 - nodes p'"
    using destroy_ok [OF r(2)] unfolding destroy_spec_def by blast
  then show ?thesis using r c by (auto simp: sqlite3BitvecDestroy_def)
qed

theorem bitvec_lifecycle_witness:
  "\<exists>p' h1 h2. bv.run [SetBit 3, ClearBit 9] (Some (zero_bitvec 9)) \<lparr>outcomes = [], live = 1\<rparr> = Ret (p', h1) \<and>
     sqlite3BitvecDestroy p' h1 = Ret h2 \<and> live h2 = 0"
proof -
  have "sqlite3BitvecCreate 9 \<lparr>outcomes = [], live = 0\<rparr> = (Some (zero_bitvec 9), \<lparr>outcomes = [], live = 1\<rparr>)"
    by (simp add: sqlite3BitvecCreate_def c_alloc_def)
  from bitvec_lifecycle [OF this, of "[SetBit 3, ClearBit 9]"] show ?thesis by simp
qed

section \<open>Losing bits\<close>

lemma divided_set_nomem:
  assumes "BITVEC_NBIT < s" "i < s" "outcomes h = False # bs" "d = divided (Bitvec s n 0 (aHash a))"
  shows "set_at (Suc k) d i h = Ret (SQLITE_NOMEM, d, h\<lparr>outcomes := bs\<rparr>)"
  using assms(1-3) bin_less [of i s] divisor_pos [of s] unfolding assms(4) divided_eq
  by (simp add: sub_set_def rd_def sqlite3BitvecCreate_def c_alloc_def Let_def)

lemma rehash_loop_nomem:
  assumes "BITVEC_NBIT < s" "s < 2 ^ 32" "d = divided (Bitvec s n 0 (aHash a))"
  shows "\<forall>v \<in> set vs. v \<le> s \<Longrightarrow> outcomes h = replicate (length (filter (\<lambda>v. v \<noteq> 0) vs)) False @ bs \<Longrightarrow>
    rehash_loop (\<lambda>p i. set_at (Suc k) p (u32_dec i)) vs SQLITE_NOMEM d h = Ret (SQLITE_NOMEM, d, h\<lparr>outcomes := bs\<rparr>)"
proof (induction vs arbitrary: h)
  case Nil then show ?case by simp
next
  case (Cons v vs)
  show ?case
  proof (cases v)
    case 0 then show ?thesis using Cons by simp
  next
    case (Suc w)
    then have "u32_dec v = w" "w < s" using Cons.prems(1) assms(2) by auto
    then show ?thesis
      using Suc Cons divided_set_nomem [OF assms(1) _ _ assms(3), of w h "replicate (length (filter (\<lambda>v. v \<noteq> 0) vs)) False @ bs" k]
      by (simp del: set_at.simps)
  qed
qed

text \<open>running out of memory while a full hash table is split loses the whole set. When the table
  holds at least 62 values, the new one collides, the scratch copy is allocated and then no
  sub-bitmap can be, \<^verbatim>\<open>sqlite3BitvecSet\<close> returns \<^verbatim>\<open>SQLITE_NOMEM\<close> and every bit that was set is gone.\<close>

theorem bitvec_nomem_loses_bits:
  assumes "bitvec_wf (Bitvec s n 0 (aHash a))" "BITVEC_MXHASH \<le> n" "i < s" "Suc i \<notin> set a" "a ! BITVEC_HASH i \<noteq> 0"
    and "outcomes h = True # replicate (Suc n) False"
  shows "\<exists>p' h'. sqlite3BitvecSet (Some (Bitvec s n 0 (aHash a))) (Suc i) h = Ret (SQLITE_NOMEM, Some p', h') \<and>
    (\<forall>j < 2 ^ 32. sqlite3BitvecTest (Some p') j = Ret False)"
proof -
  from assms(1) have s: "BITVEC_NBIT < s" "s < 2 ^ 32" "hash_ok s n a" by (auto elim: hash_wfE)
  let ?p = "Bitvec s n 0 (aHash a)" let ?d = "divided ?p"
  let ?f = "\<lambda>p i. set_at (Suc 7) p (u32_dec i)"
  obtain e where e: "free_run a (home (Suc i)) e" "e < BITVEC_NINT" using hash_ok_run [OF s(3), of "home (Suc i)"] by auto
  have k: "BITVEC_HASH i = home (Suc i)" by (simp add: BITVEC_HASH_def home_def)
  have nz: "a ! home (Suc i) \<noteq> 0" using assms(5) k by simp
  have pr: "hash_probe BITVEC_NINT a (home (Suc i)) (Suc i) = Ret (Some (slot (home (Suc i)) e))"
    using hash_probe_run [OF e(1) nz, of BITVEC_NINT "Suc i"] hash_member [OF s(3) e(1)] assms(4) e(2) by simp
  let ?h = "h\<lparr>outcomes := replicate (Suc n) False, live := live h + 1\<rparr>"
  let ?h1 = "?h\<lparr>outcomes := replicate n False\<rparr>"
  have d1: "?f ?d (Suc i) ?h = Ret (SQLITE_NOMEM, ?d, ?h1)"
    using divided_set_nomem [OF s(1) assms(3) _ refl, where h = ?h and bs = "replicate n False" and n = n and a = a and k = 7]
      assms(3) s(2) by (simp del: set_at.simps)
  have "\<forall>v \<in> set a. v \<le> s" using s(3) by (simp add: hash_ok_def)
  then have d2: "rehash_loop ?f a SQLITE_NOMEM ?d ?h1 = Ret (SQLITE_NOMEM, ?d, ?h1\<lparr>outcomes := []\<rparr>)"
    using hash_ok_values(2) [OF s(3)] by (intro rehash_loop_nomem [OF s(1,2) refl]) auto
  have "set_at 9 ?p i h = hash_set ?f ?p i h"
    using set_at.simps(2) [of 8 ?p i h] s(1) by (simp del: set_at.simps)
  also have "\<dots> = Ret (SQLITE_NOMEM, ?d, c_free (?h1\<lparr>outcomes := []\<rparr>))"
    using nz pr d1 d2 assms(2,6) rd_free [OF e(1)]
    by (simp add: hash_set_def k Let_def bitvec_set_rehash_def c_alloc_def del: set_at.simps)
  finally have "set_at 9 ?p i h = Ret (SQLITE_NOMEM, ?d, c_free (?h1\<lparr>outcomes := []\<rparr>))" .
  moreover have "u32_dec (Suc i) = i" using assms(3) s(2) by simp
  ultimately have r: "sqlite3BitvecSet (Some ?p) (Suc i) h = Ret (SQLITE_NOMEM, Some ?d, c_free (?h1\<lparr>outcomes := []\<rparr>))"
    by (simp add: sqlite3BitvecSet_def)
  have d: "bitvec_wf ?d" "bv_contents (Some ?d) = {}"
    using divided_facts [OF s(1,2), where n = n and d = 0 and u = "aHash a"] by (auto simp: bv_contents_def)
  show ?thesis using r test_top [OF d(1)] d(2) by auto
qed

lemma full_table: "hash_ok 5000 62 ([1 ..< 63] @ replicate 62 0)"
proof -
  let ?a = "[1 ..< 63] @ replicate 62 0"
  have n: "?a ! k = (if k < 62 then Suc k else 0)" if "k < BITVEC_NINT" for k
    using that by (auto simp: nth_append)
  have "{k. k < BITVEC_NINT \<and> ?a ! k \<noteq> 0} = {..< 62}" using n by (auto split: if_split_asm)
  moreover have "\<exists>e. k = slot (home (?a ! k)) e \<and> (\<forall>d < e. ?a ! slot (home (?a ! k)) d \<noteq> 0)"
    if "k < BITVEC_NINT" "?a ! k \<noteq> 0" for k
    using that n by (intro exI [of _ 0]) (auto simp: slot_def home_def split: if_split_asm)
  ultimately show ?thesis unfolding hash_ok_def using n by (auto split: if_split_asm)
qed

theorem bitvec_nomem_loses_bits_witness:
  "\<exists>p' h'. sqlite3BitvecSet (Some (Bitvec 5000 62 0 (aHash ([1 ..< 63] @ replicate 62 0)))) 125
     \<lparr>outcomes = True # replicate 63 False, live = 1\<rparr> = Ret (SQLITE_NOMEM, Some p', h') \<and>
     sqlite3BitvecTest (Some p') 1 = Ret False"
proof -
  have wf: "bitvec_wf (Bitvec 5000 62 0 (aHash ([1 ..< 63] @ replicate 62 0)))"
    using full_table by (intro bitvec_wf.hash) simp_all
  have "\<exists>p' h'. sqlite3BitvecSet (Some (Bitvec 5000 62 0 (aHash ([1 ..< 63] @ replicate 62 0)))) (Suc 124)
     \<lparr>outcomes = True # replicate 63 False, live = 1\<rparr> = Ret (SQLITE_NOMEM, Some p', h') \<and>
     (\<forall>j < 2 ^ 32. sqlite3BitvecTest (Some p') j = Ret False)"
    by (rule bitvec_nomem_loses_bits [OF wf]) (simp_all add: BITVEC_HASH_def nth_append)
  then show ?thesis by auto
qed

end
