(* ===== verification/Sqlite_Hash.thy ===== *)
theory Sqlite_Hash
  imports C_Prelude
begin

text \<open>
  The hash table of SQLite (\<^verbatim>\<open>hash.c\<close>, \<^verbatim>\<open>hash.h\<close>), with the case-insensitive comparison of \<^verbatim>\<open>util.c\<close> and the
  case table of \<^verbatim>\<open>global.c\<close> it relies on. The schema of a database is kept in such tables: they map the
  names of tables, indices, triggers and functions to objects.

  All elements are on one doubly linked list, and a bucket is a pointer into this list with a
  number of elements. The list is modelled as it is: a \<open>memory\<close> maps addresses to elements, and
  every access through a pointer is an access to it that faults when nothing is there.
  The bucket array is a list inside the \<open>Hash\<close> record. A key is the object that \<^verbatim>\<open>pKey\<close> points to; reading past its
  end faults. The data pointers are opaque, with \<open>None\<close> for \<^verbatim>\<open>NULL\<close>.
\<close>

section \<open>Keys\<close>

definition sqlite3UpperToLower :: "byte list" where
  "sqlite3UpperToLower = [
      0, 1, 2, 3, 4, 5, 6, 7, 8, 9, 10, 11, 12, 13, 14, 15, 16, 17,
      18, 19, 20, 21, 22, 23, 24, 25, 26, 27, 28, 29, 30, 31, 32, 33, 34, 35,
      36, 37, 38, 39, 40, 41, 42, 43, 44, 45, 46, 47, 48, 49, 50, 51, 52, 53,
      54, 55, 56, 57, 58, 59, 60, 61, 62, 63, 64, 97, 98, 99, 100, 101, 102, 103,
      104, 105, 106, 107, 108, 109, 110, 111, 112, 113, 114, 115, 116, 117, 118, 119, 120, 121,
      122, 91, 92, 93, 94, 95, 96, 97, 98, 99, 100, 101, 102, 103, 104, 105, 106, 107,
      108, 109, 110, 111, 112, 113, 114, 115, 116, 117, 118, 119, 120, 121, 122, 123, 124, 125,
      126, 127, 128, 129, 130, 131, 132, 133, 134, 135, 136, 137, 138, 139, 140, 141, 142, 143,
      144, 145, 146, 147, 148, 149, 150, 151, 152, 153, 154, 155, 156, 157, 158, 159, 160, 161,
      162, 163, 164, 165, 166, 167, 168, 169, 170, 171, 172, 173, 174, 175, 176, 177, 178, 179,
      180, 181, 182, 183, 184, 185, 186, 187, 188, 189, 190, 191, 192, 193, 194, 195, 196, 197,
      198, 199, 200, 201, 202, 203, 204, 205, 206, 207, 208, 209, 210, 211, 212, 213, 214, 215,
      216, 217, 218, 219, 220, 221, 222, 223, 224, 225, 226, 227, 228, 229, 230, 231, 232, 233,
      234, 235, 236, 237, 238, 239, 240, 241, 242, 243, 244, 245, 246, 247, 248, 249, 250, 251,
      252, 253, 254, 255
   ]"

definition UpperToLower :: "byte \<Rightarrow> byte" where
  "UpperToLower c = sqlite3UpperToLower ! unat c"

fun sqlite3StrICmp :: "byte list \<Rightarrow> byte list \<Rightarrow> int cres" where
  "sqlite3StrICmp (a # as) (b # bs) =
     (let c = uint (UpperToLower a) - uint (UpperToLower b)
      in if c \<noteq> 0 \<or> a = 0 then Ret c else sqlite3StrICmp as bs)"
| "sqlite3StrICmp _ _ = Fault"

fun strHash_loop :: "u32 \<Rightarrow> byte list \<Rightarrow> u32 cres" where
  "strHash_loop h [] = Fault"
| "strHash_loop h (c # z) =
     (if c = 0 then Ret h else strHash_loop ((h + ucast (UpperToLower c)) * 0x9e3779b1) z)"

definition strHash :: "byte list \<Rightarrow> u32 cres" where
  "strHash z = strHash_loop 0 z"

section \<open>Elements, buckets and memory\<close>

record 'v HashElem =
  elem_next :: "addr option"
  elem_prev :: "addr option"
  elem_data :: "'v option"
  elem_pKey :: "byte list"

record ht =
  ht_count :: int
  ht_chain :: "addr option"

record Hash =
  htsize :: u32
  hcount :: u32
  first :: "addr option"
  ht_array :: "ht list option"

text \<open>
  The memory holds the elements that are allocated, by address, the address of the next block and the
  contents it happens to have, and the allocator of \<open>C_Prelude\<close>.
\<close>

record 'v memory =
  elems :: "addr \<rightharpoonup> 'v HashElem"
  fresh :: addr
  garbage :: "'v HashElem"
  hp :: heap

definition deref :: "'v memory \<Rightarrow> addr option \<Rightarrow> 'v HashElem cres" where
  "deref m p = (case p of None \<Rightarrow> Fault | Some a \<Rightarrow> oget (elems m a))"

definition upd_elem :: "'v memory \<Rightarrow> addr option \<Rightarrow> ('v HashElem \<Rightarrow> 'v HashElem) \<Rightarrow> 'v memory cres" where
  "upd_elem m p f = cbind (deref m p) (\<lambda>e. Ret (m\<lparr>elems := (elems m)(the p \<mapsto> f e)\<rparr>))"

abbreviation set_next :: "'v memory \<Rightarrow> addr option \<Rightarrow> addr option \<Rightarrow> 'v memory cres" where
  "set_next m p q \<equiv> upd_elem m p (\<lambda>e. e\<lparr>elem_next := q\<rparr>)"

abbreviation set_prev :: "'v memory \<Rightarrow> addr option \<Rightarrow> addr option \<Rightarrow> 'v memory cres" where
  "set_prev m p q \<equiv> upd_elem m p (\<lambda>e. e\<lparr>elem_prev := q\<rparr>)"

text \<open>\<^verbatim>\<open>sqlite3Malloc\<close> refuses empty and huge blocks without asking the allocator.\<close>

definition sqlite3Malloc :: "int \<Rightarrow> 'v memory \<Rightarrow> bool \<times> 'v memory" where
  "sqlite3Malloc n m =
     (if n = 0 \<or> 0x7fffff00 \<le> n then (False, m)
      else let (ok, h) = c_alloc (hp m) in (ok, m\<lparr>hp := h\<rparr>))"

definition malloc_elem :: "'v memory \<Rightarrow> addr option \<times> 'v memory" where
  "malloc_elem m =
     (let (ok, m) = sqlite3Malloc 32 m
      in if ok then (Some (fresh m), m\<lparr>elems := (elems m)(fresh m \<mapsto> garbage m), fresh := fresh m + 1\<rparr>)
         else (None, m))"

definition free_elem :: "'v memory \<Rightarrow> addr option \<Rightarrow> 'v memory cres" where
  "free_elem m p =
     cbind (deref m p) (\<lambda>_. Ret (m\<lparr>elems := (elems m)(the p := None), hp := c_free (hp m)\<rparr>))"

definition free_ht :: "'v memory \<Rightarrow> ht list option \<Rightarrow> 'v memory" where
  "free_ht m t = (case t of None \<Rightarrow> m | Some _ \<Rightarrow> m\<lparr>hp := c_free (hp m)\<rparr>)"

definition int_add :: "int \<Rightarrow> int \<Rightarrow> int cres" where
  "int_add x y = (if - (2 ^ 31) \<le> x + y \<and> x + y < 2 ^ 31 then Ret (x + y) else Fault)"

definition entry :: "Hash \<Rightarrow> nat \<Rightarrow> ht cres" where
  "entry pH i = (case ht_array pH of None \<Rightarrow> Fault | Some t \<Rightarrow> rd t (int i))"

definition set_entry :: "Hash \<Rightarrow> nat \<Rightarrow> ht \<Rightarrow> Hash" where
  "set_entry pH i e = pH\<lparr>ht_array := map_option (\<lambda>t. t[i := e]) (ht_array pH)\<rparr>"

section \<open>Operations\<close>

definition sqlite3HashInit :: Hash where
  "sqlite3HashInit = \<lparr>htsize = 0, hcount = 0, first = None, ht_array = None\<rparr>"

fun clear_elems :: "nat \<Rightarrow> 'v memory \<Rightarrow> addr option \<Rightarrow> 'v memory cres" where
  "clear_elems n m None = Ret m"
| "clear_elems 0 m (Some a) = Diverge"
| "clear_elems (Suc n) m (Some a) =
     cbind (deref m (Some a)) (\<lambda>e.
     cbind (free_elem m (Some a)) (\<lambda>m. clear_elems n m (elem_next e)))"

definition sqlite3HashClear :: "Hash \<Rightarrow> 'v memory \<Rightarrow> (Hash \<times> 'v memory) cres" where
  "sqlite3HashClear pH m =
     (let elem = first pH;
          m = free_ht m (ht_array pH);
          pH' = pH\<lparr>first := None, ht_array := None, htsize := 0\<rparr>
      in cbind (clear_elems (unat (hcount pH)) m elem) (\<lambda>m. Ret (pH'\<lparr>hcount := 0\<rparr>, m)))"

text \<open>Linking a new element: into a bucket before its first element, or at the front of the list.\<close>

definition bucket_push :: "Hash \<Rightarrow> nat option \<Rightarrow> addr \<Rightarrow> (addr option \<times> Hash) cres" where
  "bucket_push pH pEntry pNew = (case pEntry of
       None \<Rightarrow> Ret (None, pH)
     | Some i \<Rightarrow> cbind (entry pH i) (\<lambda>e. cbind (int_add (ht_count e) 1) (\<lambda>c.
         Ret (if ht_count e \<noteq> 0 then ht_chain e else None,
              set_entry pH i (e\<lparr>ht_count := c, ht_chain := Some pNew\<rparr>)))))"

definition link_before :: "Hash \<Rightarrow> addr option \<Rightarrow> addr \<Rightarrow> 'v memory \<Rightarrow> (Hash \<times> 'v memory) cres" where
  "link_before pH pHead pNew m =
     cbind (set_next m (Some pNew) pHead) (\<lambda>m.
     cbind (deref m pHead) (\<lambda>h.
     cbind (set_prev m (Some pNew) (elem_prev h)) (\<lambda>m.
     cbind (if elem_prev h \<noteq> None
            then cbind (set_next m (elem_prev h) (Some pNew)) (\<lambda>m. Ret (pH, m))
            else Ret (pH\<lparr>first := Some pNew\<rparr>, m)) (\<lambda>(pH, m).
     cbind (set_prev m pHead (Some pNew)) (\<lambda>m. Ret (pH, m))))))"

definition link_front :: "Hash \<Rightarrow> addr \<Rightarrow> 'v memory \<Rightarrow> (Hash \<times> 'v memory) cres" where
  "link_front pH pNew m =
     cbind (set_next m (Some pNew) (first pH)) (\<lambda>m.
     cbind (if first pH \<noteq> None then set_prev m (first pH) (Some pNew) else Ret m) (\<lambda>m.
     cbind (set_prev m (Some pNew) None) (\<lambda>m. Ret (pH\<lparr>first := Some pNew\<rparr>, m))))"

definition insertElement ::
    "Hash \<Rightarrow> nat option \<Rightarrow> addr \<Rightarrow> 'v memory \<Rightarrow> (Hash \<times> 'v memory) cres" where
  "insertElement pH pEntry pNew m =
     cbind (bucket_push pH pEntry pNew) (\<lambda>(pHead, pH).
       if pHead \<noteq> None then link_before pH pHead pNew m else link_front pH pNew m)"

text \<open>\<^verbatim>\<open>h % htsize\<close>, which is undefined for 0.\<close>

definition umod :: "u32 \<Rightarrow> u32 \<Rightarrow> u32 cres" where
  "umod x y = (if y = 0 then Fault else Ret (x mod y))"

fun rehash_elems :: "nat \<Rightarrow> Hash \<Rightarrow> addr option \<Rightarrow> 'v memory \<Rightarrow> (Hash \<times> 'v memory) cres" where
  "rehash_elems n pH None m = Ret (pH, m)"
| "rehash_elems 0 pH (Some a) m = Diverge"
| "rehash_elems (Suc n) pH (Some a) m =
     cbind (deref m (Some a)) (\<lambda>e.
     cbind (strHash (elem_pKey e)) (\<lambda>s.
     cbind (umod s (htsize pH)) (\<lambda>h.
     cbind (insertElement pH (Some (unat h)) a m) (\<lambda>(pH, m). rehash_elems n pH (elem_next e) m))))"

text \<open>
  Resizing. \<open>msz n\<close> is the size \<^verbatim>\<open>sqlite3MallocSize\<close> reports for a block of \<open>n\<close> bytes; a bucket has 16 bytes.
\<close>

abbreviation (input) SQLITE_MALLOC_SOFT_LIMIT :: int where "SQLITE_MALLOC_SOFT_LIMIT \<equiv> 1024"

definition rehash :: "(int \<Rightarrow> int) \<Rightarrow> Hash \<Rightarrow> u32 \<Rightarrow> 'v memory \<Rightarrow> (bool \<times> Hash \<times> 'v memory) cres" where
  "rehash msz pH new_size m =
     (let new_size = (if uint new_size * 16 > SQLITE_MALLOC_SOFT_LIMIT
                      then of_int (SQLITE_MALLOC_SOFT_LIMIT div 16) else new_size)
      in if new_size = htsize pH then Ret (False, pH, m)
         else let (ok, m) = sqlite3Malloc (uint new_size * 16) m
           in if \<not> ok then Ret (False, pH, m)
              else let m = free_ht m (ht_array pH);
                       n = nat (msz (uint new_size * 16) div 16);
                       elem = first pH;
                       pH' = pH\<lparr>ht_array := Some (replicate n \<lparr>ht_count = 0, ht_chain = None\<rparr>),
                                htsize := of_nat n, first := None\<rparr>
                in cbind (rehash_elems (unat (hcount pH)) pH' elem m) (\<lambda>(pH, m). Ret (True, pH, m)))"

text \<open>Searching. A count that is not the number of elements left runs into a null pointer or below \<^verbatim>\<open>INT_MIN\<close>.\<close>

function find_loop :: "'v memory \<Rightarrow> byte list \<Rightarrow> int \<Rightarrow> addr option \<Rightarrow> addr option cres" where
  "find_loop m pKey count elem =
     (if count = 0 then Ret None
      else if count \<le> - (2 ^ 31) then Fault
      else cbind (deref m elem) (\<lambda>e.
           cbind (sqlite3StrICmp (elem_pKey e) pKey) (\<lambda>c.
             if c = 0 then Ret elem else find_loop m pKey (count - 1) (elem_next e))))"
  by pat_completeness auto
termination
  by (relation "measure (\<lambda>(m, k, count, e). nat (count + 2 ^ 31))") auto

definition findElementWithHash ::
    "Hash \<Rightarrow> byte list \<Rightarrow> 'v memory \<Rightarrow> (addr option \<times> u32) cres" where
  "findElementWithHash pH pKey m =
     cbind (if ht_array pH \<noteq> None
            then cbind (strHash pKey) (\<lambda>s. cbind (umod s (htsize pH)) (\<lambda>h.
                 cbind (entry pH (unat h)) (\<lambda>e. Ret (h, ht_chain e, ht_count e))))
            else Ret (0, first pH, c_int (uint (hcount pH)))) (\<lambda>(h, elem, count).
     cbind (find_loop m pKey count elem) (\<lambda>p. Ret (p, h)))"

definition unlink_elem :: "Hash \<Rightarrow> addr option \<Rightarrow> 'v memory \<Rightarrow> (Hash \<times> 'v memory) cres" where
  "unlink_elem pH elem m =
     cbind (deref m elem) (\<lambda>e.
     cbind (if elem_prev e \<noteq> None
            then cbind (set_next m (elem_prev e) (elem_next e)) (\<lambda>m. Ret (pH, m))
            else Ret (pH\<lparr>first := elem_next e\<rparr>, m)) (\<lambda>(pH, m).
     cbind (if elem_next e \<noteq> None then set_prev m (elem_next e) (elem_prev e) else Ret m) (\<lambda>m.
     Ret (pH, m))))"

definition bucket_drop :: "Hash \<Rightarrow> addr option \<Rightarrow> u32 \<Rightarrow> 'v memory \<Rightarrow> Hash cres" where
  "bucket_drop pH elem h m =
     (if ht_array pH \<noteq> None
      then cbind (deref m elem) (\<lambda>e. cbind (entry pH (unat h)) (\<lambda>b.
           cbind (int_add (ht_count b) (- 1)) (\<lambda>c.
             Ret (set_entry pH (unat h)
               \<lparr>ht_count = c, ht_chain = (if ht_chain b = elem then elem_next e else ht_chain b)\<rparr>))))
      else Ret pH)"

definition removeElementGivenHash ::
    "Hash \<Rightarrow> addr option \<Rightarrow> u32 \<Rightarrow> 'v memory \<Rightarrow> (Hash \<times> 'v memory) cres" where
  "removeElementGivenHash pH elem h m =
     cbind (unlink_elem pH elem m) (\<lambda>(pH, m).
     cbind (bucket_drop pH elem h m) (\<lambda>pH.
     cbind (free_elem m elem) (\<lambda>m.
       let pH = pH\<lparr>hcount := hcount pH - 1\<rparr>
       in if hcount pH = 0 then sqlite3HashClear pH m else Ret (pH, m))))"

definition sqlite3HashFind :: "Hash \<Rightarrow> byte list \<Rightarrow> 'v memory \<Rightarrow> 'v option cres" where
  "sqlite3HashFind pH pKey m =
     cbind (findElementWithHash pH pKey m) (\<lambda>(elem, h).
       if elem \<noteq> None then cbind (deref m elem) (\<lambda>e. Ret (elem_data e)) else Ret None)"

text \<open>A new element, after \<^verbatim>\<open>findElementWithHash\<close> has not found the key: the table grows first when it is crowded.\<close>

definition insert_grow ::
    "(int \<Rightarrow> int) \<Rightarrow> Hash \<Rightarrow> byte list \<Rightarrow> u32 \<Rightarrow> 'v memory \<Rightarrow> (u32 \<times> Hash \<times> 'v memory) cres" where
  "insert_grow msz pH pKey h m =
     (if 10 \<le> hcount pH \<and> 2 * htsize pH < hcount pH
      then cbind (rehash msz pH (hcount pH * 2) m) (\<lambda>(resized, pH, m).
             if resized then cbind (strHash pKey) (\<lambda>s. cbind (umod s (htsize pH)) (\<lambda>h. Ret (h, pH, m)))
             else Ret (h, pH, m))
      else Ret (h, pH, m))"

definition insert_new ::
    "(int \<Rightarrow> int) \<Rightarrow> Hash \<Rightarrow> byte list \<Rightarrow> 'v option \<Rightarrow> u32 \<Rightarrow> 'v memory \<Rightarrow> ('v option \<times> Hash \<times> 'v memory) cres" where
  "insert_new msz pH pKey data h m =
     (case malloc_elem m of
        (None, m) \<Rightarrow> Ret (data, pH, m)
      | (Some a, m) \<Rightarrow>
          cbind (upd_elem m (Some a) (\<lambda>e. e\<lparr>elem_pKey := pKey, elem_data := data\<rparr>)) (\<lambda>m.
          cbind (insert_grow msz (pH\<lparr>hcount := hcount pH + 1\<rparr>) pKey h m) (\<lambda>(h, pH, m).
          cbind (insertElement pH (if ht_array pH \<noteq> None then Some (unat h) else None) a m) (\<lambda>(pH, m).
          Ret (None, pH, m)))))"

definition sqlite3HashInsert ::
    "(int \<Rightarrow> int) \<Rightarrow> Hash \<Rightarrow> byte list \<Rightarrow> 'v option \<Rightarrow> 'v memory \<Rightarrow> ('v option \<times> Hash \<times> 'v memory) cres" where
  "sqlite3HashInsert msz pH pKey data m =
     cbind (findElementWithHash pH pKey m) (\<lambda>(elem, h).
       if elem \<noteq> None
       then cbind (deref m elem) (\<lambda>e.
            if data = None
            then cbind (removeElementGivenHash pH elem h m) (\<lambda>(pH, m). Ret (elem_data e, pH, m))
            else cbind (upd_elem m elem (\<lambda>e. e\<lparr>elem_data := data, elem_pKey := pKey\<rparr>)) (\<lambda>m.
                 Ret (elem_data e, pH, m)))
       else if data = None then Ret (None, pH, m)
       else insert_new msz pH pKey data h m)"

text \<open>The loop over all elements that \<^verbatim>\<open>hash.h\<close> describes, collecting the data.\<close>

fun hash_walk :: "nat \<Rightarrow> 'v memory \<Rightarrow> addr option \<Rightarrow> 'v option list cres" where
  "hash_walk n m None = Ret []"
| "hash_walk 0 m (Some a) = Diverge"
| "hash_walk (Suc n) m (Some a) =
     cbind (deref m (Some a)) (\<lambda>e. cbind (hash_walk n m (elem_next e)) (\<lambda>ds. Ret (elem_data e # ds)))"

definition sqliteHashFirst :: "Hash \<Rightarrow> addr option" where
  "sqliteHashFirst pH = first pH"

section \<open>Keys up to case\<close>

text \<open>Two keys are the same key when they agree, up to their terminator, after mapping to lower case.\<close>

definition zstr :: "byte list \<Rightarrow> bool" where
  "zstr k \<longleftrightarrow> 0 \<in> set k"

definition low :: "byte list \<Rightarrow> byte list" where
  "low k = map UpperToLower (takeWhile (\<lambda>c. c \<noteq> 0) k)"

definition hash_of :: "byte list \<Rightarrow> u32" where
  "hash_of k = foldl (\<lambda>h c. (h + ucast c) * 0x9e3779b1) 0 k"

definition ascii_lower :: "byte \<Rightarrow> byte" where
  "ascii_lower c = (if 65 \<le> c \<and> c \<le> 90 then c + 32 else c)"

lemma case_table: "sqlite3UpperToLower = map (\<lambda>n. ascii_lower (of_nat n)) [0..<256]"
  by code_simp

lemma UpperToLower_ascii: "UpperToLower c = ascii_lower c"
proof -
  have "unat c < 256" using unsigned_less [of c, where 'a = nat] by simp
  then have "UpperToLower c = ascii_lower (of_nat (unat c))"
    unfolding UpperToLower_def case_table by (simp del: upt_rec_numeral)
  then show ?thesis by simp
qed

lemma UpperToLower_zero [simp]: "UpperToLower c = 0 \<longleftrightarrow> c = 0"
proof -
  have "65 \<le> c \<Longrightarrow> c \<le> 90 \<Longrightarrow> unat (c + 32) = unat c + 32"
    by (subst unat_add_lem [THEN iffD1]) (auto simp: word_le_nat_alt)
  then show ?thesis by (force simp: UpperToLower_ascii ascii_lower_def)
qed

lemma StrICmp_ok:
  "zstr a \<Longrightarrow> zstr b \<Longrightarrow> \<exists>c. sqlite3StrICmp a b = Ret c \<and> (c = 0 \<longleftrightarrow> low a = low b)"
proof (induction a b rule: sqlite3StrICmp.induct)
  case (1 x xs y ys)
  have u: "uint v - uint w = 0 \<longleftrightarrow> v = w" for v w :: byte by (simp add: word_uint_eq_iff)
  consider "x = 0" | "x \<noteq> 0" "UpperToLower x \<noteq> UpperToLower y" | "x \<noteq> 0" "UpperToLower x = UpperToLower y" by blast
  then show ?case
  proof cases
    case 1
    have "UpperToLower 0 = UpperToLower y \<longleftrightarrow> y = 0" using UpperToLower_zero [of y] UpperToLower_zero [of 0] by metis
    then show ?thesis using 1 by (simp add: Let_def low_def word_uint_eq_iff [symmetric])
  next
    case 2
    then show ?thesis by (simp add: Let_def low_def word_uint_eq_iff [symmetric] split: if_splits)
  next
    case 3
    then have "y \<noteq> 0" using UpperToLower_zero by metis
    then show ?thesis using 3 1 by (simp add: Let_def low_def zstr_def)
  qed
qed (auto simp: zstr_def)

lemma StrICmp_less:
  "zstr a \<Longrightarrow> zstr b \<Longrightarrow> sqlite3StrICmp a b = Ret c \<Longrightarrow> c < 0 \<longleftrightarrow> (low a, low b) \<in> lexord {(x, y). x < y}"
proof (induction a b rule: sqlite3StrICmp.induct)
  case (1 x xs y ys)
  have z: "UpperToLower 0 = 0" by simp
  have lt: "uint v - uint w < 0 \<longleftrightarrow> v < w" for v w :: byte by (simp add: word_less_def)
  consider "x = 0" | "x \<noteq> 0" "UpperToLower x \<noteq> UpperToLower y" | "x \<noteq> 0" "UpperToLower x = UpperToLower y" by blast
  then show ?case
  proof cases
    case 1
    have "(0 :: byte) < UpperToLower y \<longleftrightarrow> y \<noteq> 0" by (simp add: word_gt_0)
    then show ?thesis using 1 \<open>sqlite3StrICmp (x # xs) (y # ys) = Ret c\<close> lt [of 0 "UpperToLower y"]
      by (auto simp: Let_def low_def z)
  next
    case 2
    then have "c = uint (UpperToLower x) - uint (UpperToLower y)"
      using \<open>sqlite3StrICmp (x # xs) (y # ys) = Ret c\<close> by (simp add: Let_def word_uint_eq_iff [symmetric])
    then show ?thesis using 2 lt [of "UpperToLower x" "UpperToLower y"] by (auto simp: low_def z)
  next
    case 3
    then have "y \<noteq> 0" using UpperToLower_zero by metis
    then show ?thesis using 3 1 by (simp add: Let_def low_def zstr_def)
  qed
qed (auto simp: zstr_def)

lemma strHash_loop_ok:
  "zstr k \<Longrightarrow> strHash_loop h k = Ret (foldl (\<lambda>h c. (h + ucast c) * 0x9e3779b1) h (low k))"
  by (induction h k rule: strHash_loop.induct) (auto simp: zstr_def low_def)

lemma strHash_ok: "zstr k \<Longrightarrow> strHash k = Ret (hash_of (low k))"
  by (simp add: strHash_def hash_of_def strHash_loop_ok)

section \<open>Doubly linked lists\<close>

definition lk :: "addr list \<Rightarrow> addr option \<Rightarrow> addr option" where
  "lk as q = (case as of [] \<Rightarrow> q | b # _ \<Rightarrow> Some b)"

lemma lk_simps [simp]: "lk [] q = q" "lk (a # as) q = Some a"
  by (simp_all add: lk_def)

lemma lk_append: "lk (xs @ ys) q = lk xs (lk ys q)"
  by (cases xs) simp_all

lemma lk_None_iff [simp]: "lk as None = None \<longleftrightarrow> as = []"
  by (cases as) simp_all

text \<open>A segment from predecessor \<open>p\<close> to successor \<open>q\<close>, and a path that only uses the successor links.\<close>

fun dseg :: "(addr \<rightharpoonup> 'v HashElem) \<Rightarrow> addr option \<Rightarrow> addr list \<Rightarrow> addr option \<Rightarrow> bool" where
  "dseg E p [] q \<longleftrightarrow> True"
| "dseg E p (a # as) q \<longleftrightarrow>
     (\<exists>e. E a = Some e \<and> elem_prev e = p \<and> elem_next e = lk as q) \<and> dseg E (Some a) as q"

fun npath :: "(addr \<rightharpoonup> 'v HashElem) \<Rightarrow> addr list \<Rightarrow> bool" where
  "npath E [] \<longleftrightarrow> True"
| "npath E (a # as) \<longleftrightarrow> (\<exists>e. E a = Some e \<and> elem_next e = lk as None) \<and> npath E as"

definition lst :: "addr option \<Rightarrow> addr list \<Rightarrow> addr option" where
  "lst p as = (if as = [] then p else Some (last as))"

lemma lst_simps [simp]: "lst p [] = p" "lst p (a # as) = lst (Some a) as" "lst p (as @ [a]) = Some a"
  by (simp_all add: lst_def)

lemma dseg_append: "dseg E p (xs @ ys) q \<longleftrightarrow> dseg E p xs (lk ys q) \<and> dseg E (lst p xs) ys q"
  by (induction xs arbitrary: p) (auto simp: lk_append)

lemma dseg_cong: "(\<And>a. a \<in> set xs \<Longrightarrow> E' a = E a) \<Longrightarrow> dseg E' p xs q = dseg E p xs q"
  by (induction xs arbitrary: p) auto

lemma dseg_upd [simp]: "a \<notin> set xs \<Longrightarrow> dseg (E(a := v)) p xs q = dseg E p xs q"
  by (rule dseg_cong) auto

lemma npath_cong: "(\<And>a. a \<in> set xs \<Longrightarrow> E' a = E a) \<Longrightarrow> npath E' xs = npath E xs"
  by (induction xs) auto

lemma dseg_npath: "dseg E p xs None \<Longrightarrow> npath E xs"
  by (induction xs arbitrary: p) auto

lemma dseg_mem: "dseg E p xs q \<Longrightarrow> a \<in> set xs \<Longrightarrow> \<exists>e. E a = Some e"
  by (induction xs arbitrary: p) auto

text \<open>What a change of links keeps: everything outside \<open>A\<close>, and data and keys everywhere.\<close>

definition pay :: "'v HashElem \<Rightarrow> 'v option \<times> byte list" where
  "pay e = (elem_data e, elem_pKey e)"

lemma pay_link [simp]: "pay (e\<lparr>elem_next := q\<rparr>) = pay e" "pay (e\<lparr>elem_prev := q\<rparr>) = pay e"
  by (simp_all add: pay_def)

definition relinked :: "addr set \<Rightarrow> 'v memory \<Rightarrow> 'v memory \<Rightarrow> bool" where
  "relinked A m m' \<longleftrightarrow>
     m' = m\<lparr>elems := elems m'\<rparr> \<and>
     (\<forall>a. map_option pay (elems m' a) = map_option pay (elems m a)) \<and>
     (\<forall>a. a \<notin> A \<longrightarrow> elems m' a = elems m a)"

lemma relinked_refl: "relinked A m m"
  by (simp add: relinked_def)

lemma relinked_trans: "relinked A m m' \<Longrightarrow> relinked A m' m'' \<Longrightarrow> relinked A m m''"
  unfolding relinked_def by (metis memory.select_convs memory.surjective memory.update_convs(1))

lemma relinked_mono: "relinked A m m' \<Longrightarrow> A \<subseteq> B \<Longrightarrow> relinked B m m'"
  unfolding relinked_def by blast

lemma relinked_upd:
  assumes "elems m a = Some e" "pay e' = pay e" "a \<in> A"
  shows "relinked A m (m\<lparr>elems := (elems m)(a \<mapsto> e')\<rparr>)"
  using assms by (simp add: relinked_def)

lemma deref_Some [simp]: "elems m a = Some e \<Longrightarrow> deref m (Some a) = Ret e"
  by (simp add: deref_def oget_def)

lemma upd_elem_Some [simp]:
  "elems m a = Some e \<Longrightarrow> upd_elem m (Some a) f = Ret (m\<lparr>elems := (elems m)(a \<mapsto> f e)\<rparr>)"
  by (simp add: upd_elem_def)

text \<open>Linking an element in front of another one.\<close>

lemma link_before_ok:
  assumes seg: "dseg (elems m) None (xs @ h # zs) None" and dist: "distinct (xs @ h # zs)"
    and new: "a \<notin> set (xs @ h # zs)" "elems m a = Some e"
  shows "\<exists>m'. link_before pH (Some h) a m =
            Ret (if xs = [] then pH\<lparr>first := Some a\<rparr> else pH, m') \<and>
          relinked (insert a (set (xs @ h # zs))) m m' \<and> dseg (elems m') None (xs @ a # h # zs) None"
proof -
  obtain eh where h: "elems m h = Some eh" "elem_prev eh = lst None xs" "elem_next eh = lk zs None"
    and zs: "dseg (elems m) (Some h) zs None" and xs: "dseg (elems m) None xs (Some h)"
    using seg by (auto simp: dseg_append)
  have ah: "a \<noteq> h" using new by auto
  show ?thesis
  proof (cases xs rule: rev_cases)
    case Nil
    then show ?thesis using h ah new zs dist
      by (auto simp: link_before_def relinked_def)
  next
    case (snoc ys p)
    then obtain ep where p: "elems m p = Some ep" "elem_prev ep = lst None ys" "elem_next ep = Some h"
      and ys: "dseg (elems m) None ys (Some p)"
      using xs by (auto simp: dseg_append)
    have d: "p \<noteq> h" "p \<noteq> a" using snoc dist new by auto
    show ?thesis using h ah new zs dist p ys d snoc
      by (auto simp: link_before_def relinked_def dseg_append lk_append)
  qed
qed

lemma link_front_ok:
  assumes seg: "dseg (elems m) None ps None" and dist: "distinct ps" and f: "first pH = lk ps None"
    and new: "a \<notin> set ps" "elems m a = Some e"
  shows "\<exists>m'. link_front pH a m = Ret (pH\<lparr>first := Some a\<rparr>, m') \<and>
          relinked (insert a (set ps)) m m' \<and> dseg (elems m') None (a # ps) None"
proof (cases ps)
  case Nil
  then show ?thesis using f new by (auto simp: link_front_def relinked_def)
next
  case (Cons h zs)
  then show ?thesis using f new seg dist
    by (auto simp: link_front_def relinked_def)
qed

lemma unlink_ok:
  assumes seg: "dseg (elems m) None (xs @ a # zs) None" and dist: "distinct (xs @ a # zs)"
    and f: "first pH = lk (xs @ a # zs) None"
  shows "\<exists>m'. unlink_elem pH (Some a) m = Ret (pH\<lparr>first := lk (xs @ zs) None\<rparr>, m') \<and>
          relinked (set (xs @ zs)) m m' \<and> dseg (elems m') None (xs @ zs) None \<and>
          (\<exists>e. elems m' a = Some e \<and> elem_next e = lk zs None)"
proof -
  obtain ea where a: "elems m a = Some ea" "elem_prev ea = lst None xs" "elem_next ea = lk zs None"
    and zs: "dseg (elems m) (Some a) zs None" and xs: "dseg (elems m) None xs (Some a)"
    using seg by (auto simp: dseg_append)
  show ?thesis
  proof (cases xs rule: rev_cases)
    case Nil
    show ?thesis
    proof (cases zs)
      case (Cons z zs')
      then show ?thesis using Nil a zs dist f by (auto simp: unlink_elem_def relinked_def)
    qed (use Nil a f in \<open>auto simp: unlink_elem_def relinked_def\<close>)
  next
    case (snoc ys p)
    then obtain ep where p: "elems m p = Some ep" "elem_prev ep = lst None ys" "elem_next ep = Some a"
      and ys: "dseg (elems m) None ys (Some p)"
      using xs by (auto simp: dseg_append)
    have pH: "pH = pH\<lparr>first := lk (xs @ zs) None\<rparr>"
      using f snoc by (cases ys) (simp_all add: lk_append)
    show ?thesis
    proof (cases zs)
      case Nil
      then show ?thesis using snoc p ys a dist pH
        by (auto simp: unlink_elem_def relinked_def dseg_append lk_append)
    next
      case (Cons z zs')
      then show ?thesis using snoc p ys a dist pH zs
        by (auto simp: unlink_elem_def relinked_def dseg_append lk_append)
    qed
  qed
qed

section \<open>Buckets\<close>

text \<open>
  Bucket \<open>i\<close> of the list \<open>ps\<close> under the bucket function \<open>f\<close>: its elements are next to each other,
  their number is in the entry, and the entry points to the first of them. The pointer of an empty
  bucket is arbitrary; after a removal it points into another bucket.
\<close>

definition bucket :: "(addr \<Rightarrow> nat) \<Rightarrow> addr list \<Rightarrow> nat \<Rightarrow> ht \<Rightarrow> bool" where
  "bucket f ps i b \<longleftrightarrow>
     (\<exists>us vs. ps = us @ filter (\<lambda>a. f a = i) ps @ vs) \<and>
     ht_count b = int (length (filter (\<lambda>a. f a = i) ps)) \<and>
     (\<forall>x xs. filter (\<lambda>a. f a = i) ps = x # xs \<longrightarrow> ht_chain b = Some x)"

lemma bucket_cong: "(\<And>a. a \<in> set ps \<Longrightarrow> f a = g a) \<Longrightarrow> bucket f ps i b = bucket g ps i b"
  unfolding bucket_def by (simp cong: filter_cong)

lemma bucketI:
  assumes "ps = us @ ws @ vs" "\<And>a. a \<in> set ps \<Longrightarrow> f a = i \<longleftrightarrow> a \<in> set ws" "distinct ps"
    and "ht_count b = int (length ws)" "\<And>x xs. ws = x # xs \<Longrightarrow> ht_chain b = Some x"
  shows "bucket f ps i b"
proof -
  have "filter (\<lambda>a. f a = i) ps = filter (\<lambda>a. a \<in> set ws) ps"
    by (rule filter_cong) (use assms(2) in auto)
  also have "\<dots> = ws"
  proof -
    have "filter (\<lambda>a. a \<in> set ws) us = []" "filter (\<lambda>a. a \<in> set ws) vs = []"
      using assms(1,3) by (auto simp: filter_empty_conv)
    then show ?thesis using assms(1) by simp
  qed
  finally show ?thesis unfolding bucket_def using assms(1,4,5) by auto
qed

lemma bucketE:
  assumes "bucket f ps i b"
  obtains us ws vs where "ps = us @ ws @ vs" "\<And>a. a \<in> set ps \<Longrightarrow> f a = i \<longleftrightarrow> a \<in> set ws"
    "ht_count b = int (length ws)" "\<And>x xs. ws = x # xs \<Longrightarrow> ht_chain b = Some x"
proof -
  define ws where "ws = filter (\<lambda>a. f a = i) ps"
  obtain us vs where "ps = us @ ws @ vs" using assms unfolding bucket_def ws_def by blast
  moreover have "\<And>a. a \<in> set ps \<Longrightarrow> f a = i \<longleftrightarrow> a \<in> set ws" by (simp add: ws_def)
  ultimately show thesis using assms that [of us ws vs] unfolding bucket_def ws_def by blast
qed

text \<open>An element outside a contiguous part is before it or after it.\<close>

lemma split_around:
  "xs @ y # zs = us @ ws @ vs \<Longrightarrow> y \<notin> set ws \<Longrightarrow>
     (\<exists>r. xs = us @ ws @ r \<and> vs = r @ y # zs) \<or> (\<exists>r. us = xs @ y # r \<and> zs = r @ ws @ vs)"
  by (auto simp: append_eq_append_conv2 append_eq_Cons_conv Cons_eq_append_conv)

lemma bucket_front:
  assumes b: "bucket f ps j b" and a: "a \<notin> set ps" "f a \<noteq> j" and d: "distinct ps"
  shows "bucket f (a # ps) j b"
proof -
  obtain us ws vs where w: "ps = us @ ws @ vs" "\<And>a. a \<in> set ps \<Longrightarrow> f a = j \<longleftrightarrow> a \<in> set ws"
    "ht_count b = int (length ws)" "\<And>x xs. ws = x # xs \<Longrightarrow> ht_chain b = Some x"
    using b by (rule bucketE) blast
  show ?thesis
    by (rule bucketI [of _ "a # us" ws vs]) (use w a d in auto)
qed

lemma bucket_other:
  assumes b: "bucket f (xs @ h # zs) j b" and a: "a \<notin> set (xs @ h # zs)" "f a \<noteq> j" "f h \<noteq> j"
    and d: "distinct (xs @ h # zs)"
  shows "bucket f (xs @ a # h # zs) j b"
proof -
  obtain us ws vs where w: "xs @ h # zs = us @ ws @ vs"
    "\<And>a. a \<in> set (xs @ h # zs) \<Longrightarrow> f a = j \<longleftrightarrow> a \<in> set ws"
    "ht_count b = int (length ws)" "\<And>x xs. ws = x # xs \<Longrightarrow> ht_chain b = Some x"
    using b by (rule bucketE) blast
  have h: "h \<notin> set ws" using w(2) [of h] a by simp
  have m: "\<And>c. c \<in> set (xs @ a # h # zs) \<Longrightarrow> f c = j \<longleftrightarrow> c \<in> set ws"
    using w(1,2) a by (metis (no_types, lifting) Un_iff in_set_conv_decomp insert_iff list.set(2) set_append)
  from split_around [OF w(1) h] show ?thesis
  proof (elim disjE exE conjE)
    fix r assume r: "xs = us @ ws @ r" "vs = r @ h # zs"
    show ?thesis
      by (rule bucketI [of _ us ws "r @ a # h # zs"]) (use r m w(3,4) a d in auto)
  next
    fix r assume r: "us = xs @ h # r" "zs = r @ ws @ vs"
    show ?thesis
      by (rule bucketI [of _ "xs @ a # h # r" ws vs]) (use r m w(3,4) a d in auto)
  qed
qed

lemma bucket_push_front:
  assumes b: "bucket f ps i b" "ht_count b = 0" and a: "a \<notin> set ps" "f a = i" and d: "distinct ps"
  shows "bucket f (a # ps) i \<lparr>ht_count = 1, ht_chain = Some a\<rparr>"
  by (rule bucketI [of _ "[]" "[a]" ps]) (use b a d in \<open>auto simp: bucket_def filter_empty_conv\<close>)

lemma bucket_push_before:
  assumes b: "bucket f ps i b" "ht_count b \<noteq> 0" and a: "a \<notin> set ps" "f a = i" and d: "distinct ps"
  shows "\<exists>xs h zs. ps = xs @ h # zs \<and> f h = i \<and> ht_chain b = Some h \<and>
    bucket f (xs @ a # h # zs) i \<lparr>ht_count = ht_count b + 1, ht_chain = Some a\<rparr>"
proof -
  obtain us ws vs where w: "ps = us @ ws @ vs" "\<And>a. a \<in> set ps \<Longrightarrow> f a = i \<longleftrightarrow> a \<in> set ws"
    "ht_count b = int (length ws)" "\<And>x xs. ws = x # xs \<Longrightarrow> ht_chain b = Some x"
    using b(1) by (rule bucketE) blast
  then obtain h ws' where ws: "ws = h # ws'" using b(2) by (cases ws) auto
  have "bucket f (us @ a # h # ws' @ vs) i \<lparr>ht_count = ht_count b + 1, ht_chain = Some a\<rparr>"
  proof (rule bucketI [of _ us "a # ws" vs])
    show "f c = i \<longleftrightarrow> c \<in> set (a # ws)" if "c \<in> set (us @ a # h # ws' @ vs)" for c
      using that w(2) [of c] a ws w(1) by auto
  qed (use ws w(1,3) a d in auto)
  moreover have "f h = i" "ht_chain b = Some h" using w(1,4) w(2) [of h] ws by auto
  ultimately show ?thesis using ws w(1)
    by (intro exI [of _ us] exI [of _ h] exI [of _ "ws' @ vs"]) simp
qed

lemma bucket_remove_other:
  assumes b: "bucket f (xs @ a # zs) j b" and a: "f a \<noteq> j" and d: "distinct (xs @ a # zs)"
  shows "bucket f (xs @ zs) j b"
proof -
  obtain us ws vs where w: "xs @ a # zs = us @ ws @ vs"
    "\<And>c. c \<in> set (xs @ a # zs) \<Longrightarrow> f c = j \<longleftrightarrow> c \<in> set ws"
    "ht_count b = int (length ws)" "\<And>x xs. ws = x # xs \<Longrightarrow> ht_chain b = Some x"
    using b by (rule bucketE) blast
  have h: "a \<notin> set ws" using w(2) [of a] a by simp
  have m: "\<And>c. c \<in> set (xs @ zs) \<Longrightarrow> f c = j \<longleftrightarrow> c \<in> set ws" using w(2) by simp
  from split_around [OF w(1) h] show ?thesis
  proof (elim disjE exE conjE)
    fix r assume r: "xs = us @ ws @ r" "vs = r @ a # zs"
    show ?thesis by (rule bucketI [of _ us ws "r @ zs"]) (use r m w(3,4) d in auto)
  next
    fix r assume r: "us = xs @ a # r" "zs = r @ ws @ vs"
    show ?thesis by (rule bucketI [of _ "xs @ r" ws vs]) (use r m w(3,4) d in auto)
  qed
qed

lemma bucket_remove:
  assumes b: "bucket f (xs @ a # zs) i b" and a: "f a = i" and d: "distinct (xs @ a # zs)"
  shows "0 < ht_count b"
    and "bucket f (xs @ zs) i
          \<lparr>ht_count = ht_count b - 1, ht_chain = (if ht_chain b = Some a then lk zs None else ht_chain b)\<rparr>"
proof -
  obtain us ws vs where w: "xs @ a # zs = us @ ws @ vs"
    "\<And>c. c \<in> set (xs @ a # zs) \<Longrightarrow> f c = i \<longleftrightarrow> c \<in> set ws"
    "ht_count b = int (length ws)" "\<And>x xs. ws = x # xs \<Longrightarrow> ht_chain b = Some x"
    using b by (rule bucketE) blast
  have "a \<in> set ws" using w(2) [of a] a by simp
  then obtain w1 w2 where ws: "ws = w1 @ a # w2" by (auto simp: in_set_conv_decomp)
  have nin: "a \<notin> set xs" "a \<notin> set zs" using d by auto
  have "xs @ a # zs = (us @ w1) @ a # (w2 @ vs)" using w(1) ws by simp
  then have e: "xs = us @ w1" "zs = w2 @ vs"
    by (auto simp only: append_Cons_eq_iff [OF nin])
  show "0 < ht_count b" using w(3) ws by simp
  show "bucket f (xs @ zs) i
      \<lparr>ht_count = ht_count b - 1, ht_chain = (if ht_chain b = Some a then lk zs None else ht_chain b)\<rparr>"
  proof (rule bucketI [of _ us "w1 @ w2" vs])
    show "f c = i \<longleftrightarrow> c \<in> set (w1 @ w2)" if "c \<in> set (xs @ zs)" for c
      using that w(2) [of c] ws d by auto
    show "ht_chain \<lparr>ht_count = ht_count b - 1,
        ht_chain = (if ht_chain b = Some a then lk zs None else ht_chain b)\<rparr> = Some x"
      if "w1 @ w2 = x # ys" for x ys
      using that w(4) ws d e by (cases w1) auto
  qed (use e ws w(3) d in auto)
qed

section \<open>The invariant of the list and its buckets\<close>

definition key_at :: "(addr \<rightharpoonup> 'v HashElem) \<Rightarrow> addr \<Rightarrow> byte list" where
  "key_at E a = (case E a of None \<Rightarrow> [] | Some e \<Rightarrow> low (elem_pKey e))"

definition data_at :: "(addr \<rightharpoonup> 'v HashElem) \<Rightarrow> addr \<Rightarrow> 'v option" where
  "data_at E a = (case E a of None \<Rightarrow> None | Some e \<Rightarrow> elem_data e)"

definition slot_of :: "u32 \<Rightarrow> (addr \<rightharpoonup> 'v HashElem) \<Rightarrow> addr \<Rightarrow> nat" where
  "slot_of n E a = unat (hash_of (key_at E a) mod n)"

definition table_ok :: "Hash \<Rightarrow> (addr \<rightharpoonup> 'v HashElem) \<Rightarrow> addr list \<Rightarrow> bool" where
  "table_ok pH E ps = (case ht_array pH of
       None \<Rightarrow> htsize pH = 0
     | Some t \<Rightarrow> htsize pH \<noteq> 0 \<and> length t = unat (htsize pH) \<and>
         (\<forall>i < length t. bucket (slot_of (htsize pH) E) ps i (t ! i)))"

definition chain_ok :: "Hash \<Rightarrow> (addr \<rightharpoonup> 'v HashElem) \<Rightarrow> addr list \<Rightarrow> bool" where
  "chain_ok pH E ps \<longleftrightarrow>
     dseg E None ps None \<and> first pH = lk ps None \<and> distinct ps \<and> table_ok pH E ps"

definition same_shape :: "Hash \<Rightarrow> Hash \<Rightarrow> bool" where
  "same_shape pH pH' \<longleftrightarrow> htsize pH' = htsize pH \<and> hcount pH' = hcount pH \<and>
     (ht_array pH' = None \<longleftrightarrow> ht_array pH = None)"

lemma relinked_at:
  assumes "relinked A m m'"
  shows "key_at (elems m') = key_at (elems m)" "data_at (elems m') = data_at (elems m)"
proof -
  have p: "map_option pay (elems m' a) = map_option pay (elems m a)" for a
    using assms by (simp add: relinked_def)
  have "key_at E a = (case map_option pay (E a) of None \<Rightarrow> [] | Some (d, k) \<Rightarrow> low k)"
    "data_at E a = (case map_option pay (E a) of None \<Rightarrow> None | Some (d, k) \<Rightarrow> d)"
    for E :: "addr \<rightharpoonup> 'a HashElem" and a
    by (simp_all add: key_at_def data_at_def pay_def split: option.splits)
  then show "key_at (elems m') = key_at (elems m)" "data_at (elems m') = data_at (elems m)"
    unfolding fun_eq_iff by (simp_all only: p simp_thms)
qed

lemma relinked_slot: "relinked A m m' \<Longrightarrow> slot_of n (elems m') = slot_of n (elems m)"
  by (simp add: slot_of_def relinked_at fun_eq_iff)

lemma slot_of_less: "n \<noteq> 0 \<Longrightarrow> slot_of n E a < unat n"
  unfolding slot_of_def by (simp add: unat_mod unat_gt_0)

lemma umod_slot: "E a = Some e \<Longrightarrow> n \<noteq> 0 \<Longrightarrow> umod (hash_of (low (elem_pKey e))) n = Ret (hash_of (key_at E a) mod n)"
  by (simp add: umod_def key_at_def)

lemma entry_Some: "ht_array pH = Some t \<Longrightarrow> i < length t \<Longrightarrow> entry pH i = Ret (t ! i)"
  by (simp add: entry_def rd_def)

lemma table_okE:
  assumes "table_ok pH E ps" "ht_array pH = Some t"
  shows "htsize pH \<noteq> 0" "length t = unat (htsize pH)"
    "i < length t \<Longrightarrow> bucket (slot_of (htsize pH) E) ps i (t ! i)"
  using assms by (auto simp: table_ok_def)

text \<open>Replacing one bucket and the list, when the other buckets stay valid.\<close>

lemma table_ok_set:
  assumes ok: "table_ok pH E ps" "ht_array pH = Some t"
    and new: "bucket (slot_of (htsize pH) E) ps' i b" "i < length t"
    and other: "\<And>j c. j \<noteq> i \<Longrightarrow> bucket (slot_of (htsize pH) E) ps j c \<Longrightarrow> bucket (slot_of (htsize pH) E) ps' j c"
  shows "table_ok (set_entry pH i b) E ps'"
  using table_okE [OF ok] ok(2) new other
  by (auto simp: table_ok_def set_entry_def nth_list_update)

lemma set_entry_simps [simp]:
  "first (set_entry pH i b) = first pH" "htsize (set_entry pH i b) = htsize pH"
  "hcount (set_entry pH i b) = hcount pH" "ht_array (set_entry pH i b) = None \<longleftrightarrow> ht_array pH = None"
  by (simp_all add: set_entry_def)

lemma table_ok_cong:
  "ht_array pH' = ht_array pH \<Longrightarrow> htsize pH' = htsize pH \<Longrightarrow>
   (\<And>a. a \<in> set ps \<Longrightarrow> key_at E' a = key_at E a) \<Longrightarrow> table_ok pH' E' ps = table_ok pH E ps"
  unfolding table_ok_def by (auto split: option.splits simp: slot_of_def cong: bucket_cong)

lemma insert_in_bucket:
  assumes ok: "chain_ok pH (elems m) ps" and t: "ht_array pH = Some t"
    and new: "a \<notin> set ps" "elems m a = Some e" and i: "i = slot_of (htsize pH) (elems m) a"
    and small: "length ps < 2 ^ 31 - 1"
  shows "\<exists>pH' m' ps'. insertElement pH (Some i) a m = Ret (pH', m') \<and> chain_ok pH' (elems m') ps' \<and>
           set ps' = insert a (set ps) \<and> relinked (insert a (set ps)) m m' \<and> same_shape pH pH'"
proof -
  let ?f = "slot_of (htsize pH) (elems m)"
  have seg: "dseg (elems m) None ps None" "first pH = lk ps None" "distinct ps" and tab: "table_ok pH (elems m) ps"
    using ok by (auto simp: chain_ok_def)
  note tb = table_okE [OF tab t]
  have il: "i < length t" using i tb(1,2) slot_of_less by simp
  have b: "bucket ?f ps i (t ! i)" using tb(3) il by blast
  have fa: "?f a = i" using i by simp
  have "length (filter (\<lambda>a. ?f a = i) ps) < 2 ^ 31 - 1"
    using length_filter_le [of "\<lambda>a. ?f a = i" ps] small by linarith
  then have c: "int_add (ht_count (t ! i)) 1 = Ret (ht_count (t ! i) + 1)"
    using b by (simp add: int_add_def bucket_def)
  let ?b = "\<lparr>ht_count = ht_count (t ! i) + 1, ht_chain = Some a\<rparr>"
  let ?H = "set_entry pH i ?b"
  have eb: "(t ! i)\<lparr>ht_count := ht_count (t ! i) + 1, ht_chain := Some a\<rparr> = ?b" by simp
  have push: "bucket_push pH (Some i) a =
      Ret (if ht_count (t ! i) \<noteq> 0 then ht_chain (t ! i) else None, ?H)"
    unfolding bucket_push_def by (simp add: entry_Some [OF t il] c eb)
  show ?thesis
  proof (cases "ht_count (t ! i) = 0")
    case True
    obtain m' where m': "link_front ?H a m = Ret (?H\<lparr>first := Some a\<rparr>, m')"
        "relinked (insert a (set ps)) m m'" "dseg (elems m') None (a # ps) None"
      using link_front_ok [OF seg(1,3) _ new, of ?H] seg(2) by auto
    have bb: "bucket ?f (a # ps) i ?b"
      using bucket_push_front [OF b True new(1) fa seg(3)] True by simp
    have "table_ok ?H (elems m) (a # ps)"
      by (rule table_ok_set [OF tab t bb il]) (use bucket_front new(1) fa seg(3) in auto)
    then have "table_ok (?H\<lparr>first := Some a\<rparr>) (elems m') (a # ps)"
      by (subst table_ok_cong [where pH = ?H and E = "elems m"]) (auto simp: relinked_at [OF m'(2)])
    then have "chain_ok (?H\<lparr>first := Some a\<rparr>) (elems m') (a # ps)"
      using m' new seg by (simp add: chain_ok_def)
    then show ?thesis using m' push True
      by (intro exI [of _ "?H\<lparr>first := Some a\<rparr>"] exI [of _ m'] exI [of _ "a # ps"])
        (simp add: insertElement_def same_shape_def)
  next
    case False
    obtain xs h zs where x: "ps = xs @ h # zs" "?f h = i" "ht_chain (t ! i) = Some h"
        "bucket ?f (xs @ a # h # zs) i ?b"
      using bucket_push_before [OF b False new(1) fa seg(3)] by blast
    let ?ps = "xs @ a # h # zs" and ?H' = "if xs = [] then ?H\<lparr>first := Some a\<rparr> else ?H"
    obtain m' where m': "link_before ?H (Some h) a m = Ret (?H', m')"
        "relinked (insert a (set ps)) m m'" "dseg (elems m') None ?ps None"
      using link_before_ok [of m xs h zs a e ?H] seg new x(1) by auto
    have "table_ok ?H (elems m) ?ps"
      by (rule table_ok_set [OF tab t x(4) il])
        (use bucket_other [of ?f xs h zs _ _ a] new(1) fa seg(3) x(1,2) in auto)
    then have "table_ok ?H' (elems m') ?ps"
      by (subst table_ok_cong [where pH = ?H and E = "elems m"]) (auto simp: relinked_at [OF m'(2)])
    moreover have "first ?H' = lk ?ps None" using seg(2) x(1) by (cases xs) (auto simp: lk_append)
    ultimately have "chain_ok ?H' (elems m') ?ps"
      using m'(3) new seg x(1) by (auto simp: chain_ok_def)
    then show ?thesis using m'(1,2) push False x(1,3)
      by (intro exI [of _ ?H'] exI [of _ m'] exI [of _ ?ps]) (auto simp: insertElement_def same_shape_def)
  qed
qed

lemma insert_no_table:
  assumes ok: "chain_ok pH (elems m) ps" and t: "ht_array pH = None"
    and new: "a \<notin> set ps" "elems m a = Some e"
  shows "\<exists>pH' m' ps'. insertElement pH None a m = Ret (pH', m') \<and> chain_ok pH' (elems m') ps' \<and>
           set ps' = insert a (set ps) \<and> relinked (insert a (set ps)) m m' \<and> same_shape pH pH'"
proof -
  have seg: "dseg (elems m) None ps None" "first pH = lk ps None" "distinct ps" "table_ok pH (elems m) ps"
    using ok by (auto simp: chain_ok_def)
  obtain m' where m': "link_front pH a m = Ret (pH\<lparr>first := Some a\<rparr>, m')"
      "relinked (insert a (set ps)) m m'" "dseg (elems m') None (a # ps) None"
    using link_front_ok [OF seg(1,3,2) new] by auto
  then show ?thesis using seg t new
    by (intro exI [of _ "pH\<lparr>first := Some a\<rparr>"] exI [of _ m'] exI [of _ "a # ps"])
      (simp add: insertElement_def bucket_push_def same_shape_def chain_ok_def table_ok_def)
qed

text \<open>Rebuilding the list in the order of the new buckets.\<close>

definition zkeys :: "(addr \<rightharpoonup> 'v HashElem) \<Rightarrow> addr set \<Rightarrow> bool" where
  "zkeys E A \<longleftrightarrow> (\<forall>a \<in> A. \<exists>e. E a = Some e \<and> zstr (elem_pKey e) \<and> elem_data e \<noteq> None)"

lemma relinked_zkeys: "relinked B m m' \<Longrightarrow> zkeys (elems m) A \<Longrightarrow> zkeys (elems m') A"
  unfolding zkeys_def
proof
  fix a assume r: "relinked B m m'" and z: "\<forall>a \<in> A. \<exists>e. elems m a = Some e \<and> zstr (elem_pKey e) \<and> elem_data e \<noteq> None" and a: "a \<in> A"
  obtain e where e: "elems m a = Some e" "zstr (elem_pKey e)" "elem_data e \<noteq> None" using z a by blast
  have "map_option pay (elems m' a) = Some (pay e)" using r e by (simp add: relinked_def)
  then show "\<exists>e. elems m' a = Some e \<and> zstr (elem_pKey e) \<and> elem_data e \<noteq> None"
    using e by (auto simp: pay_def)
qed

lemma rehash_elems_ok:
  assumes "chain_ok pH (elems m) ns" "ht_array pH \<noteq> None" "npath (elems m) rest"
    "distinct (ns @ rest)" "zkeys (elems m) (set rest)" "length ns + length rest < 2 ^ 31"
    "length rest \<le> n"
  shows "\<exists>pH' m' ps'. rehash_elems n pH (lk rest None) m = Ret (pH', m') \<and> chain_ok pH' (elems m') ps' \<and>
           set ps' = set (ns @ rest) \<and> relinked (set (ns @ rest)) m m' \<and> same_shape pH pH'"
  using assms
proof (induction rest arbitrary: n pH m ns)
  case Nil
  then show ?case by (intro exI [of _ pH] exI [of _ m] exI [of _ ns]) (simp add: relinked_refl same_shape_def)
next
  case (Cons a rest)
  obtain k where n: "n = Suc k" "length rest \<le> k" using Cons.prems(7) by (cases n) auto
  obtain e where e: "elems m a = Some e" "zstr (elem_pKey e)" "elem_next e = lk rest None"
    using Cons.prems(3,5) by (auto simp: zkeys_def)
  obtain t where t: "ht_array pH = Some t" using Cons.prems(2) by auto
  have n0: "htsize pH \<noteq> 0" using Cons.prems(1) t by (auto simp: chain_ok_def table_ok_def)
  have a: "a \<notin> set ns" "a \<notin> set rest" using Cons.prems(4) by auto
  let ?h = "hash_of (key_at (elems m) a) mod htsize pH"
  obtain pH1 m1 ns1 where i: "insertElement pH (Some (unat ?h)) a m = Ret (pH1, m1)" "chain_ok pH1 (elems m1) ns1"
      "set ns1 = insert a (set ns)" "relinked (insert a (set ns)) m m1" "same_shape pH pH1"
    using insert_in_bucket [OF Cons.prems(1) t a(1) e(1) refl] Cons.prems(6) by (auto simp: slot_of_def)
  have d: "distinct ns1" "distinct ns" using i(2) Cons.prems(4) by (auto simp: chain_ok_def)
  have len: "length ns1 = Suc (length ns)"
    using distinct_card [OF d(1)] distinct_card [OF d(2)] i(3) a by simp
  have same: "elems m1 c = elems m c" if "c \<in> set rest" for c
    using that i(4) Cons.prems(4) by (auto simp: relinked_def)
  have "\<exists>pH' m' ps'. rehash_elems k pH1 (lk rest None) m1 = Ret (pH', m') \<and> chain_ok pH' (elems m') ps' \<and>
           set ps' = set (ns1 @ rest) \<and> relinked (set (ns1 @ rest)) m1 m' \<and> same_shape pH1 pH'"
  proof (rule Cons.IH [OF i(2)])
    show "npath (elems m1) rest" using Cons.prems(3) same by (simp cong: npath_cong)
    show "zkeys (elems m1) (set rest)" using Cons.prems(5) same by (simp add: zkeys_def)
  qed (use i(3,5) t d(1) Cons.prems(4,6) n(2) len in \<open>auto simp: same_shape_def\<close>)
  then obtain pH' m' ps' where r: "rehash_elems k pH1 (lk rest None) m1 = Ret (pH', m')" "chain_ok pH' (elems m') ps'"
      "set ps' = set (ns1 @ rest)" "relinked (set (ns1 @ rest)) m1 m'" "same_shape pH1 pH'" by blast
  have "relinked (set (ns @ a # rest)) m m'"
    by (rule relinked_trans [OF relinked_mono [OF i(4)] relinked_mono [OF r(4)]]) (use i(3) in auto)
  moreover have "rehash_elems n pH (lk (a # rest) None) m = Ret (pH', m')"
    using n e i(1) r(1) n0 by (simp add: strHash_ok umod_slot [of "elems m" a, OF e(1)])
  ultimately show ?case using r i(3,5)
    by (intro exI [of _ pH'] exI [of _ m'] exI [of _ ps']) (auto simp: same_shape_def)
qed

section \<open>The representation of a table\<close>

text \<open>
  \<open>base\<close> holds the elements that belong to others and \<open>L\<close> counts their blocks: a table owns one block for
  each of its elements and one for its bucket array.
\<close>

definition store_ok :: "(addr \<rightharpoonup> 'v HashElem) \<Rightarrow> 'v memory \<Rightarrow> addr list \<Rightarrow> bool" where
  "store_ok base m ps \<longleftrightarrow> (\<forall>a. a \<notin> set ps \<longrightarrow> elems m a = base a) \<and>
     (\<forall>a \<in> set ps. base a = None) \<and> (\<forall>a \<ge> fresh m. elems m a = None)"

definition table_blocks :: "Hash \<Rightarrow> int" where
  "table_blocks pH = (if ht_array pH = None then 0 else 1)"

definition hash_rep :: "(addr \<rightharpoonup> 'v HashElem) \<Rightarrow> int \<Rightarrow> Hash \<Rightarrow> 'v memory \<Rightarrow> addr list \<Rightarrow> bool" where
  "hash_rep base L pH m ps \<longleftrightarrow>
     chain_ok pH (elems m) ps \<and> unat (hcount pH) = length ps \<and> zkeys (elems m) (set ps) \<and>
     inj_on (key_at (elems m)) (set ps) \<and> store_ok base m ps \<and>
     live (hp m) = L + int (length ps) + table_blocks pH"

definition tab :: "(addr \<rightharpoonup> 'v HashElem) \<Rightarrow> addr list \<Rightarrow> byte list \<Rightarrow> 'v option" where
  "tab E ps = map_of (map (\<lambda>a. (key_at E a, the (data_at E a))) ps)"

lemma tab_found:
  assumes "inj_on (key_at E) (set ps)" "zkeys E (set ps)" "a \<in> set ps"
  shows "tab E ps (key_at E a) = data_at E a"
  using assms
proof (induction ps)
  case (Cons b ps)
  obtain e where "E a = Some e" "elem_data e \<noteq> None" using Cons.prems(2,3) by (auto simp: zkeys_def)
  then have "Some (the (data_at E a)) = data_at E a" by (simp add: data_at_def)
  moreover have "a \<noteq> b \<Longrightarrow> key_at E a \<noteq> key_at E b" using Cons.prems(1,3) by (auto simp: inj_on_def)
  ultimately show ?case using Cons by (cases "a = b") (auto simp: tab_def zkeys_def)
qed simp

lemma tab_absent: "(\<And>a. a \<in> set ps \<Longrightarrow> key_at E a \<noteq> k) \<Longrightarrow> tab E ps k = None"
  by (force simp: tab_def map_of_eq_None_iff)

text \<open>The table of a list is determined by its elements.\<close>

lemma tab_eqI:
  assumes "inj_on (key_at E) (set ps)" "zkeys E (set ps)"
    and "\<And>a. a \<in> set ps \<Longrightarrow> T (key_at E a) = data_at E a"
    and "\<And>k. (\<And>a. a \<in> set ps \<Longrightarrow> key_at E a \<noteq> k) \<Longrightarrow> T k = None"
  shows "tab E ps = T"
proof
  fix k
  show "tab E ps k = T k"
  proof (cases "\<exists>a \<in> set ps. key_at E a = k")
    case True
    then show ?thesis using tab_found [OF assms(1,2)] assms(3) by auto
  next
    case False
    then show ?thesis using tab_absent [of ps E k] assms(4) [of k] by auto
  qed
qed

lemma hash_repD:
  assumes "hash_rep base L pH m ps"
  shows "chain_ok pH (elems m) ps" "unat (hcount pH) = length ps" "zkeys (elems m) (set ps)"
    "inj_on (key_at (elems m)) (set ps)" "store_ok base m ps" "live (hp m) = L + int (length ps) + table_blocks pH"
    "dseg (elems m) None ps None" "first pH = lk ps None" "distinct ps" "table_ok pH (elems m) ps"
  using assms by (auto simp: hash_rep_def chain_ok_def)

section \<open>Finding\<close>

declare find_loop.simps [simp del]

lemma find_loop_ok:
  assumes "dseg (elems m) p ws q" "zkeys (elems m) (set ws)" "zstr k" "length ws < 2 ^ 31"
    "ws \<noteq> [] \<Longrightarrow> c = lk ws q"
  shows "find_loop m k (int (length ws)) c = Ret (find (\<lambda>a. key_at (elems m) a = low k) ws)"
  using assms
proof (induction ws arbitrary: p c)
  case Nil
  then show ?case by (simp add: find_loop.simps)
next
  case (Cons a ws)
  obtain e where e: "elems m a = Some e" "elem_next e = lk ws q" "zstr (elem_pKey e)"
    using Cons.prems(1,2) by (auto simp: zkeys_def)
  obtain r where r: "sqlite3StrICmp (elem_pKey e) k = Ret r" "r = 0 \<longleftrightarrow> low (elem_pKey e) = low k"
    using StrICmp_ok [OF e(3) Cons.prems(3)] by blast
  have c: "c = Some a" using Cons.prems(5) by simp
  have "find_loop m k (int (length ws)) (elem_next e) = Ret (find (\<lambda>a. key_at (elems m) a = low k) ws)"
    using Cons.prems e(2) by (intro Cons.IH) (auto simp: zkeys_def)
  moreover have "key_at (elems m) a = low (elem_pKey e)" using e by (simp add: key_at_def)
  ultimately show ?case using e r c by (subst find_loop.simps) simp
qed

lemma find_Some_iff2: "find P xs = Some a \<Longrightarrow> a \<in> set xs \<and> P a"
  by (induction xs) (auto split: if_splits)

definition found :: "(addr \<rightharpoonup> 'v HashElem) \<Rightarrow> addr list \<Rightarrow> byte list \<Rightarrow> addr option \<Rightarrow> bool" where
  "found E ps k p = (case p of None \<Rightarrow> \<forall>a \<in> set ps. key_at E a \<noteq> k
     | Some a \<Rightarrow> a \<in> set ps \<and> key_at E a = k)"

lemma found_find: "found E ps k (find (\<lambda>a. key_at E a = k) ps)"
  by (auto simp: found_def find_None_iff dest: find_Some_iff2 split: option.splits)

lemma find_element_ok:
  assumes rep: "hash_rep base L pH m ps" and k: "zstr k" and small: "length ps < 2 ^ 31"
  shows "\<exists>p h. findElementWithHash pH k m = Ret (p, h) \<and> found (elems m) ps (low k) p \<and>
           (ht_array pH \<noteq> None \<longrightarrow> h = hash_of (low k) mod htsize pH)"
proof (cases "ht_array pH")
  case None
  have "uint (hcount pH) = int (length ps)" using hash_repD(2) [OF rep] by (metis of_nat_unat)
  moreover from this have "c_int (uint (hcount pH)) = uint (hcount pH)" using small by (intro c_int_id) auto
  ultimately show ?thesis
    using None find_loop_ok [OF hash_repD(7,3) [OF rep] k small] hash_repD(8) [OF rep] found_find [of "elems m" ps "low k"]
    by (auto simp: findElementWithHash_def)
next
  case (Some t)
  note tb = table_okE [OF hash_repD(10) [OF rep] Some]
  let ?h = "hash_of (low k) mod htsize pH" and ?f = "slot_of (htsize pH) (elems m)"
  have h: "unat ?h < length t" using tb(1,2) by (simp add: unat_mod unat_gt_0)
  obtain us ws vs where w: "ps = us @ ws @ vs" "\<And>a. a \<in> set ps \<Longrightarrow> ?f a = unat ?h \<longleftrightarrow> a \<in> set ws"
    "ht_count (t ! unat ?h) = int (length ws)" "\<And>x xs. ws = x # xs \<Longrightarrow> ht_chain (t ! unat ?h) = Some x"
    using tb(3) [OF h] by (rule bucketE) blast
  have "find_loop m k (int (length ws)) (ht_chain (t ! unat ?h)) = Ret (find (\<lambda>a. key_at (elems m) a = low k) ws)"
  proof (rule find_loop_ok)
    show "dseg (elems m) (lst None us) ws (lk vs None)" using hash_repD(7) [OF rep] w(1) by (simp add: dseg_append)
    show "zkeys (elems m) (set ws)" using hash_repD(3) [OF rep] w(1) by (auto simp: zkeys_def)
    show "ht_chain (t ! unat ?h) = lk ws (lk vs None)" if "ws \<noteq> []" using that w(4) by (cases ws) auto
  qed (use k small w(1) in auto)
  moreover have "found (elems m) ps (low k) (find (\<lambda>a. key_at (elems m) a = low k) ws)"
  proof -
    have "key_at (elems m) a = low k \<Longrightarrow> ?f a = unat ?h" for a by (simp add: slot_of_def)
    then show ?thesis using found_find [of "elems m" ws "low k"] w(1,2)
      by (auto simp: found_def split: option.splits)
  qed
  ultimately show ?thesis using Some k tb(1) w(3) h
    by (auto simp: findElementWithHash_def strHash_ok umod_def entry_Some [OF Some])
qed

section \<open>Clearing and removing\<close>

lemma clear_elems_ok:
  "npath (elems m) ps \<Longrightarrow> distinct ps \<Longrightarrow> length ps \<le> n \<Longrightarrow>
   \<exists>m'. clear_elems n m (lk ps None) = Ret m' \<and> elems m' = (\<lambda>a. if a \<in> set ps then None else elems m a) \<and>
     fresh m' = fresh m \<and> outcomes (hp m') = outcomes (hp m) \<and> live (hp m') = live (hp m) - int (length ps)"
proof (induction ps arbitrary: n m)
  case Nil
  then show ?case by simp
next
  case (Cons a ps)
  obtain k where n: "n = Suc k" "length ps \<le> k" using Cons.prems(3) by (cases n) auto
  obtain e where e: "elems m a = Some e" "elem_next e = lk ps None" using Cons.prems(1) by auto
  let ?m = "m\<lparr>elems := (elems m)(a := None), hp := c_free (hp m)\<rparr>"
  have "npath (elems ?m) ps = npath (elems m) ps" by (rule npath_cong) (use Cons.prems(2) in auto)
  then have "npath (elems ?m) ps" using Cons.prems(1) by simp
  from Cons.IH [OF this _ n(2)] obtain m' where
    "clear_elems k ?m (lk ps None) = Ret m'" "elems m' = (\<lambda>c. if c \<in> set ps then None else elems ?m c)"
    "fresh m' = fresh ?m" "outcomes (hp m') = outcomes (hp ?m)" "live (hp m') = live (hp ?m) - int (length ps)"
    using Cons.prems(2) by auto
  then show ?case using n e
    by (intro exI [of _ m']) (auto simp: free_elem_def fun_eq_iff)
qed

lemma init_rep:
  "store_ok base m [] \<Longrightarrow> live (hp m) = L \<Longrightarrow> hash_rep base L sqlite3HashInit m []"
  by (simp add: hash_rep_def sqlite3HashInit_def chain_ok_def table_ok_def zkeys_def table_blocks_def)

lemma free_ht_simps [simp]:
  "elems (free_ht m t) = elems m" "fresh (free_ht m t) = fresh m" "outcomes (hp (free_ht m t)) = outcomes (hp m)"
  "live (hp (free_ht m t)) = live (hp m) - (if t = None then 0 else 1)"
  by (simp_all add: free_ht_def split: option.splits)

lemma clear_ok:
  assumes rep: "hash_rep base L pH m ps"
  shows "\<exists>m'. sqlite3HashClear pH m = Ret (sqlite3HashInit, m') \<and> hash_rep base L sqlite3HashInit m' [] \<and>
           outcomes (hp m') = outcomes (hp m)"
proof -
  let ?m = "free_ht m (ht_array pH)"
  have "npath (elems ?m) ps" using dseg_npath [OF hash_repD(7) [OF rep]] by simp
  from clear_elems_ok [OF this hash_repD(9) [OF rep], of "unat (hcount pH)"] hash_repD(2) [OF rep]
  obtain m' where m': "clear_elems (unat (hcount pH)) ?m (lk ps None) = Ret m'"
    "elems m' = (\<lambda>a. if a \<in> set ps then None else elems m a)"
    "fresh m' = fresh m" "outcomes (hp m') = outcomes (hp m)" "live (hp m') = live (hp ?m) - int (length ps)"
    by (force simp: fun_eq_iff)
  have "store_ok base m' []" using hash_repD(5) [OF rep] m'(2,3) by (auto simp: store_ok_def)
  moreover have "live (hp m') = L" using hash_repD(6) [OF rep] m'(5) by (simp add: table_blocks_def)
  ultimately have "hash_rep base L sqlite3HashInit m' []" by (rule init_rep)
  then show ?thesis using m'(1,4) hash_repD(8) [OF rep]
    by (simp add: sqlite3HashClear_def sqlite3HashInit_def Let_def)
qed

lemma bucket_drop_ok:
  assumes tab: "table_ok pH E (xs @ a # zs)" and d: "distinct (xs @ a # zs)"
    and a: "elems m a = Some e" "elem_next e = lk zs None"
    and h: "ht_array pH \<noteq> None \<Longrightarrow> h = hash_of (key_at E a) mod htsize pH"
    and small: "length (xs @ a # zs) < 2 ^ 31"
  shows "\<exists>pH'. bucket_drop pH (Some a) h m = Ret pH' \<and> table_ok pH' E (xs @ zs) \<and>
           first pH' = first pH \<and> same_shape pH pH'"
proof (cases "ht_array pH")
  case None
  then show ?thesis using tab by (simp add: bucket_drop_def same_shape_def table_ok_def)
next
  case (Some t)
  note tb = table_okE [OF tab Some]
  let ?f = "slot_of (htsize pH) E"
  have hf: "?f a = unat h" using h Some by (simp add: slot_of_def)
  have il: "unat h < length t" using slot_of_less [OF tb(1), of E a] tb(2) hf by simp
  note b = tb(3) [OF il]
  have "length (filter (\<lambda>c. ?f c = unat h) (xs @ a # zs)) < 2 ^ 31"
    using length_filter_le [of "\<lambda>c. ?f c = unat h" "xs @ a # zs"] small by linarith
  then have lt: "ht_count (t ! unat h) < 2 ^ 31" using b by (auto simp: bucket_def)
  let ?b = "\<lparr>ht_count = ht_count (t ! unat h) - 1,
     ht_chain = (if ht_chain (t ! unat h) = Some a then lk zs None else ht_chain (t ! unat h))\<rparr>"
  have c: "int_add (ht_count (t ! unat h)) (- 1) = Ret (ht_count (t ! unat h) - 1)"
    using bucket_remove(1) [OF b hf d] lt by (simp add: int_add_def)
  have "table_ok (set_entry pH (unat h) ?b) E (xs @ zs)"
    by (rule table_ok_set [OF tab Some bucket_remove(2) [OF b hf d] il])
      (use bucket_remove_other d hf in metis)
  then show ?thesis using Some a c il
    by (intro exI [of _ "set_entry pH (unat h) ?b"])
      (simp add: bucket_drop_def entry_Some [OF Some] same_shape_def)
qed

lemma table_ok_same:
  "table_ok pH E ps \<Longrightarrow> (\<And>a. a \<in> set ps \<Longrightarrow> key_at E' a = key_at E a) \<Longrightarrow> ht_array pH' = ht_array pH \<Longrightarrow>
   htsize pH' = htsize pH \<Longrightarrow> table_ok pH' E' ps"
  using table_ok_cong [of pH' pH ps E' E] by simp

lemma at_other [simp]:
  "c \<noteq> a \<Longrightarrow> key_at (E(a := v)) c = key_at E c" "c \<noteq> a \<Longrightarrow> data_at (E(a := v)) c = data_at E c"
  by (simp_all add: key_at_def data_at_def)

lemma relinkedD:
  assumes "relinked A m m'"
  shows "fresh m' = fresh m" "hp m' = hp m" "a \<notin> A \<Longrightarrow> elems m' a = elems m a"
    "elems m' a = None \<longleftrightarrow> elems m a = None"
proof -
  have "m' = m\<lparr>elems := elems m'\<rparr>" using assms by (simp add: relinked_def)
  then have "fresh m' = fresh (m\<lparr>elems := elems m'\<rparr>)" "hp m' = hp (m\<lparr>elems := elems m'\<rparr>)" by metis+
  then show "fresh m' = fresh m" "hp m' = hp m" by simp_all
  show "a \<notin> A \<Longrightarrow> elems m' a = elems m a" using assms by (simp add: relinked_def)
  have "map_option pay (elems m' a) = map_option pay (elems m a)" using assms by (simp add: relinked_def)
  then show "elems m' a = None \<longleftrightarrow> elems m a = None" by (metis option.map_disc_iff)
qed

lemma remove_ok:
  assumes rep: "hash_rep base L pH m ps" and a: "a \<in> set ps" and small: "length ps < 2 ^ 31"
    and h: "ht_array pH \<noteq> None \<Longrightarrow> h = hash_of (key_at (elems m) a) mod htsize pH"
  shows "\<exists>pH' m' ps'. removeElementGivenHash pH (Some a) h m = Ret (pH', m') \<and> hash_rep base L pH' m' ps' \<and>
           outcomes (hp m') = outcomes (hp m) \<and> set ps' = set ps - {a} \<and>
           (\<forall>c \<in> set ps'. key_at (elems m') c = key_at (elems m) c \<and> data_at (elems m') c = data_at (elems m) c)"
proof -
  note R = hash_repD [OF rep]
  obtain xs zs where ps: "ps = xs @ a # zs" using a by (auto simp: in_set_conv_decomp)
  have d: "distinct (xs @ a # zs)" using R(9) ps by simp
  let ?H = "pH\<lparr>first := lk (xs @ zs) None\<rparr>"
  obtain m1 e where m1: "unlink_elem pH (Some a) m = Ret (?H, m1)" "relinked (set (xs @ zs)) m m1"
      "dseg (elems m1) None (xs @ zs) None" and e: "elems m1 a = Some e" "elem_next e = lk zs None"
    using unlink_ok [of m xs a zs pH] R(7,8) ps d by auto
  have tH: "table_ok ?H (elems m) (xs @ a # zs)" by (rule table_ok_same [OF R(10) [unfolded ps]]) simp_all
  obtain pH2 where p2: "bucket_drop ?H (Some a) h m1 = Ret pH2" "table_ok pH2 (elems m) (xs @ zs)"
      "first pH2 = first ?H" "same_shape ?H pH2"
    using bucket_drop_ok [OF tH d e, of h] h small ps by auto
  let ?m2 = "m1\<lparr>elems := (elems m1)(a := None), hp := c_free (hp m1)\<rparr>" and ?H3 = "pH2\<lparr>hcount := hcount pH2 - 1\<rparr>"
  have keys: "key_at (elems ?m2) c = key_at (elems m) c" "data_at (elems ?m2) c = data_at (elems m) c"
    if "c \<in> set (xs @ zs)" for c
  proof -
    have "c \<noteq> a" using that d by auto
    then show "key_at (elems ?m2) c = key_at (elems m) c" "data_at (elems ?m2) c = data_at (elems m) c"
      using relinked_at [OF m1(2)] by simp_all
  qed
  have cnt: "unat (hcount ?H3) = length (xs @ zs)"
  proof -
    have u: "unat (hcount pH2) = Suc (length (xs @ zs))" using R(2) p2(4) ps by (simp add: same_shape_def)
    then have "1 \<le> hcount pH2" by (simp add: word_le_nat_alt)
    then show ?thesis using u by (simp add: unat_sub)
  qed
  have rep2: "hash_rep base L ?H3 ?m2 (xs @ zs)"
    unfolding hash_rep_def
  proof (intro conjI)
    have "table_ok ?H3 (elems ?m2) (xs @ zs)" by (rule table_ok_same [OF p2(2)]) (use keys in auto)
    then show "chain_ok ?H3 (elems ?m2) (xs @ zs)" using m1(3) p2(3) d by (auto simp: chain_ok_def)
    have "zkeys (elems m1) (set ps)" by (rule relinked_zkeys [OF m1(2) R(3)])
    then show "zkeys (elems ?m2) (set (xs @ zs))" using d ps by (auto simp: zkeys_def)
    have "inj_on (key_at (elems m)) (set (xs @ zs))" using R(4) ps by (auto simp: inj_on_def)
    then show "inj_on (key_at (elems ?m2)) (set (xs @ zs))" 
      using keys(1) inj_on_cong [of "set (xs @ zs)" "key_at (elems ?m2)" "key_at (elems m)"] by blast
    show "store_ok base ?m2 (xs @ zs)"
      using R(5) relinkedD [OF m1(2)] ps d by (auto simp: store_ok_def)
    show "live (hp ?m2) = L + int (length (xs @ zs)) + table_blocks ?H3"
      using R(6) relinkedD [OF m1(2)] ps p2(4) by (simp add: table_blocks_def same_shape_def)
  qed (use cnt in blast)
  have red: "removeElementGivenHash pH (Some a) h m =
      (if hcount ?H3 = 0 then sqlite3HashClear ?H3 ?m2 else Ret (?H3, ?m2))"
    using m1(1) p2(1) e by (simp add: removeElementGivenHash_def free_elem_def Let_def)
  have st: "set (xs @ zs) = set ps - {a}" using d ps by auto
  have oc: "outcomes (hp ?m2) = outcomes (hp m)" using relinkedD [OF m1(2)] by simp
  show ?thesis
  proof (cases "hcount ?H3 = 0")
    case True
    then have e: "xs @ zs = []" using cnt by (metis length_0_conv unsigned_0)
    obtain m' where "sqlite3HashClear ?H3 ?m2 = Ret (sqlite3HashInit, m')"
        "hash_rep base L sqlite3HashInit m' []" "outcomes (hp m') = outcomes (hp ?m2)"
      using clear_ok [OF rep2] by blast
    then show ?thesis using red True oc st e
      by (intro exI [of _ sqlite3HashInit] exI [of _ m'] exI [of _ "[]"]) auto
  next
    case False
    then show ?thesis using red rep2 oc st keys
      by (intro exI [of _ ?H3] exI [of _ ?m2] exI [of _ "xs @ zs"]) auto
  qed
qed

section \<open>Growing\<close>

text \<open>What the code relies on of \<^verbatim>\<open>sqlite3MallocSize\<close>: a block is at least as large as was asked for, and its size is an \<^verbatim>\<open>int\<close>.\<close>

definition msz_ok :: "(int \<Rightarrow> int) \<Rightarrow> bool" where
  "msz_ok msz \<longleftrightarrow> (\<forall>n. 0 \<le> n \<and> n \<le> 1024 \<longrightarrow> n \<le> msz n \<and> msz n < 2 ^ 31)"

lemma malloc_cases:
  assumes "sqlite3Malloc n m = (ok, m')"
  shows "elems m' = elems m" "fresh m' = fresh m" "garbage m' = garbage m"
    "live (hp m') = live (hp m) + (if ok then 1 else 0)" "set (outcomes (hp m')) \<subseteq> set (outcomes (hp m))"
    "ok \<Longrightarrow> n \<noteq> 0" "\<not> ok \<Longrightarrow> 0 < n \<Longrightarrow> n < 0x7fffff00 \<Longrightarrow> False \<in> set (outcomes (hp m))"
  using assms by (auto simp: sqlite3Malloc_def c_alloc_def split: if_splits list.splits prod.splits)

lemma rehash_ok:
  assumes ok: "chain_ok pH (elems m) ps" and z: "zkeys (elems m) (set ps)" and msz: "msz_ok msz"
    and small: "length ps < 2 ^ 31" "length ps \<le> unat (hcount pH)"
  shows "\<exists>r pH' m0 m' ps'. rehash msz pH new_size m = Ret (r, pH', m') \<and> chain_ok pH' (elems m') ps' \<and>
           set ps' = set ps \<and> relinked (set ps) m0 m' \<and> elems m0 = elems m \<and> fresh m0 = fresh m \<and>
           live (hp m0) = live (hp m) + table_blocks pH' - table_blocks pH \<and>
           set (outcomes (hp m0)) \<subseteq> set (outcomes (hp m)) \<and> hcount pH' = hcount pH \<and>
           (if r then ht_array pH' \<noteq> None else pH' = pH)"
proof -
  define n where "n = (if uint new_size * 16 > 1024 then 64 else new_size)"
  have n16: "uint n * 16 \<le> 1024" by (simp add: n_def)
  obtain r m0 where al: "sqlite3Malloc (uint n * 16) m = (r, m0)" by fastforce
  note A = malloc_cases [OF al]
  show ?thesis
  proof (cases "n = htsize pH \<or> \<not> r")
    case True
    let ?m = "if n = htsize pH then m else m0"
    have "rehash msz pH new_size m = Ret (False, pH, ?m)"
      using True al unfolding rehash_def Let_def by (auto simp: n_def)
    then show ?thesis using ok A True
      by (intro exI [of _ False] exI [of _ pH] exI [of _ ?m] exI [of _ ps])
        (auto simp: relinked_refl)
  next
    case False
    let ?k = "nat (msz (uint n * 16) div 16)"
    have "uint n * 16 \<le> msz (uint n * 16)" "msz (uint n * 16) < 2 ^ 31" "0 < uint n"
      using msz n16 A(6) False uint_ge_0 [of n] by (auto simp: msz_ok_def order.strict_iff_order)
    then have k: "0 < ?k" "?k < 2 ^ 32" by (simp_all add: nat_less_iff)
    have k32: "unat (of_nat ?k :: u32) = ?k" using k(2) by (simp add: unat_of_nat)
    let ?m = "free_ht m0 (ht_array pH)"
    let ?H = "pH\<lparr>ht_array := Some (replicate ?k \<lparr>ht_count = 0, ht_chain = None\<rparr>),
       htsize := of_nat ?k, first := None\<rparr>"
    have c0: "chain_ok ?H (elems ?m) []"
      using k k32 by (auto simp: chain_ok_def table_ok_def bucket_def unat_eq_zero [symmetric])
    have np: "npath (elems ?m) ps" using ok A(1) dseg_npath by (auto simp: chain_ok_def)
    obtain pH' m' ps' where r: "rehash_elems (unat (hcount pH)) ?H (lk ps None) ?m = Ret (pH', m')"
        "chain_ok pH' (elems m') ps'" "set ps' = set ps" "relinked (set ps) ?m m'" "same_shape ?H pH'"
      using rehash_elems_ok [OF c0 _ np, of "unat (hcount pH)"] ok z small A(1) by (auto simp: chain_ok_def)
    have "rehash msz pH new_size m = Ret (True, pH', m')"
      using False al r(1) ok unfolding rehash_def Let_def by (auto simp: n_def chain_ok_def)
    then show ?thesis using r A False
      by (intro exI [of _ True] exI [of _ pH'] exI [of _ ?m] exI [of _ m'] exI [of _ ps'])
        (auto simp: same_shape_def table_blocks_def)
  qed
qed

lemma insert_grow_ok:
  assumes ok: "chain_ok pH (elems m) ps" and z: "zkeys (elems m) (set ps)" and msz: "msz_ok msz"
    and small: "length ps < 2 ^ 31" "length ps \<le> unat (hcount pH)" and k: "zstr k"
    and h: "ht_array pH \<noteq> None \<Longrightarrow> h = hash_of (low k) mod htsize pH"
  shows "\<exists>h' pH' m0 m' ps'. insert_grow msz pH k h m = Ret (h', pH', m') \<and> chain_ok pH' (elems m') ps' \<and>
           set ps' = set ps \<and> relinked (set ps) m0 m' \<and> elems m0 = elems m \<and> fresh m0 = fresh m \<and>
           live (hp m0) = live (hp m) + table_blocks pH' - table_blocks pH \<and>
           set (outcomes (hp m0)) \<subseteq> set (outcomes (hp m)) \<and> hcount pH' = hcount pH \<and>
           (ht_array pH' \<noteq> None \<longrightarrow> h' = hash_of (low k) mod htsize pH')"
proof (cases "10 \<le> hcount pH \<and> 2 * htsize pH < hcount pH")
  case False
  then show ?thesis using ok h
    by (intro exI [of _ h] exI [of _ pH] exI [of _ m] exI [of _ ps]) (auto simp: insert_grow_def relinked_refl)
next
  case True
  obtain r pH' m0 m' ps' where R: "rehash msz pH (hcount pH * 2) m = Ret (r, pH', m')" "chain_ok pH' (elems m') ps'"
     "set ps' = set ps" "relinked (set ps) m0 m'" "elems m0 = elems m" "fresh m0 = fresh m"
     "live (hp m0) = live (hp m) + table_blocks pH' - table_blocks pH"
     "set (outcomes (hp m0)) \<subseteq> set (outcomes (hp m))" "hcount pH' = hcount pH"
     "if r then ht_array pH' \<noteq> None else pH' = pH"
    using rehash_ok [OF ok z msz small] by blast
  have n0: "r \<Longrightarrow> htsize pH' \<noteq> 0" using R(2,10) by (auto simp: chain_ok_def table_ok_def)
  let ?h = "if r then hash_of (low k) mod htsize pH' else h"
  have "insert_grow msz pH k h m = Ret (?h, pH', m')"
    using True R(1) n0 k by (simp add: insert_grow_def strHash_ok umod_def)
  then show ?thesis using R h
    by (intro exI [of _ ?h] exI [of _ pH'] exI [of _ m0] exI [of _ m'] exI [of _ ps']) (auto split: if_splits)
qed

section \<open>Inserting and finding\<close>

lemma malloc_elem_cases:
  assumes "malloc_elem m = (p, m')"
  shows "set (outcomes (hp m')) \<subseteq> set (outcomes (hp m)) \<and>
    (case p of None \<Rightarrow> elems m' = elems m \<and> fresh m' = fresh m \<and> live (hp m') = live (hp m) \<and> False \<in> set (outcomes (hp m))
     | Some a \<Rightarrow> a = fresh m \<and> fresh m' = fresh m + 1 \<and> elems m' = (elems m)(a \<mapsto> garbage m) \<and> live (hp m') = live (hp m) + 1)"
proof -
  obtain ok m1 where s: "sqlite3Malloc 32 m = (ok, m1)" by fastforce
  show ?thesis using assms malloc_cases [OF s] s by (cases ok) (auto simp: malloc_elem_def)
qed

lemma link_new_ok:
  assumes ok: "chain_ok pH (elems m) ps" and new: "a \<notin> set ps" "elems m a = Some e" and small: "length ps < 2 ^ 31 - 1"
    and h: "ht_array pH \<noteq> None \<Longrightarrow> h = hash_of (key_at (elems m) a) mod htsize pH"
  shows "\<exists>pH' m' ps'. insertElement pH (if ht_array pH \<noteq> None then Some (unat h) else None) a m = Ret (pH', m') \<and>
           chain_ok pH' (elems m') ps' \<and> set ps' = insert a (set ps) \<and> relinked (insert a (set ps)) m m' \<and> same_shape pH pH'"
proof (cases "ht_array pH")
  case None
  then show ?thesis using insert_no_table [OF ok None new] by simp
next
  case (Some t)
  then show ?thesis using insert_in_bucket [OF ok Some new _ small, of "unat h"] h by (simp add: slot_of_def)
qed

lemma insert_new_ok:
  assumes rep: "hash_rep base L pH m ps" and k: "zstr k" and absent: "\<forall>a \<in> set ps. key_at (elems m) a \<noteq> low k"
    and small: "length ps < 2 ^ 31 - 1" and msz: "msz_ok msz"
    and h: "ht_array pH \<noteq> None \<Longrightarrow> h = hash_of (low k) mod htsize pH"
  shows "\<exists>r pH' m' ps'. insert_new msz pH k (Some v) h m = Ret (r, pH', m') \<and> hash_rep base L pH' m' ps' \<and>
     set (outcomes (hp m')) \<subseteq> set (outcomes (hp m)) \<and> length ps' \<le> Suc (length ps) \<and>
     (r = None \<and> tab (elems m') ps' = (tab (elems m) ps)(low k \<mapsto> v) \<or>
      r = Some v \<and> tab (elems m') ps' = tab (elems m) ps \<and> False \<in> set (outcomes (hp m)))"
proof -
  note R = hash_repD [OF rep]
  obtain p m1 where al: "malloc_elem m = (p, m1)" by fastforce
  note A = malloc_elem_cases [OF al]
  show ?thesis
  proof (cases p)
    case None
    have "hash_rep base L pH m1 ps" using A None R by (auto simp: hash_rep_def store_ok_def)
    then show ?thesis using A None al
      by (intro exI [of _ "Some v"] exI [of _ pH] exI [of _ m1] exI [of _ ps]) (simp add: insert_new_def)
  next
    case (Some a)
    let ?e = "(garbage m)\<lparr>elem_pKey := k, elem_data := Some v\<rparr>"
    let ?m2 = "m1\<lparr>elems := (elems m1)(a \<mapsto> ?e)\<rparr>" and ?H = "pH\<lparr>hcount := hcount pH + 1\<rparr>"
    have E2: "elems ?m2 = (elems m)(a \<mapsto> ?e)" and fresh_a: "a = fresh m" using A Some by auto
    have fr: "elems m a = None" using R(5) fresh_a by (auto simp: store_ok_def)
    have nin: "a \<notin> set ps" using dseg_mem [OF R(7), of a] fr by auto
    have keys: "key_at (elems ?m2) c = (if c = a then low k else key_at (elems m) c)"
      "data_at (elems ?m2) c = (if c = a then Some v else data_at (elems m) c)" for c
      unfolding E2 by (simp_all add: key_at_def data_at_def)
    have "table_ok ?H (elems ?m2) ps" by (rule table_ok_same [OF R(10)]) (use keys nin in auto)
    then have ok2: "chain_ok ?H (elems ?m2) ps" using R(7,8,9) nin unfolding chain_ok_def E2 by simp
    have z2: "zkeys (elems ?m2) (insert a (set ps))" using R(3) nin k unfolding E2 by (auto simp: zkeys_def)
    have cnt: "unat (hcount ?H) = Suc (length ps)"
      using R(2) small by (simp add: unat_word_ariths)
    obtain h' pH3 m0 m3 ps3 where G: "insert_grow msz ?H k h ?m2 = Ret (h', pH3, m3)" "chain_ok pH3 (elems m3) ps3"
        "set ps3 = set ps" "relinked (set ps) m0 m3" "elems m0 = elems ?m2" "fresh m0 = fresh ?m2"
        "live (hp m0) = live (hp ?m2) + table_blocks pH3 - table_blocks ?H"
        "set (outcomes (hp m0)) \<subseteq> set (outcomes (hp ?m2))" "hcount pH3 = hcount ?H"
        "ht_array pH3 \<noteq> None \<longrightarrow> h' = hash_of (low k) mod htsize pH3"
      using insert_grow_ok [OF ok2 _ msz _ _ k, of h] z2 h small cnt by (fastforce simp: zkeys_def)
    have len3: "length ps3 = length ps"
      using G(2,3) R(9) distinct_card by (metis chain_ok_def)
    have e3: "elems m3 a = Some ?e" using relinkedD(3) [OF G(4)] nin G(5) E2 by simp
    have k3: "key_at (elems m3) a = low k" using e3 by (simp add: key_at_def)
    obtain pH4 m4 ps4 where I: "insertElement pH3 (if ht_array pH3 \<noteq> None then Some (unat h') else None) a m3 = Ret (pH4, m4)"
        "chain_ok pH4 (elems m4) ps4" "set ps4 = insert a (set ps)" "relinked (insert a (set ps)) m3 m4" "same_shape pH3 pH4"
      using link_new_ok [OF G(2) _ e3, of h'] nin G(3,10) small len3 k3 by auto
    have rl: "relinked (insert a (set ps)) m0 m4"
      by (rule relinked_trans [OF relinked_mono [OF G(4)] I(4)]) auto
    have keys4: "key_at (elems m4) c = (if c = a then low k else key_at (elems m) c)"
      "data_at (elems m4) c = (if c = a then Some v else data_at (elems m) c)" for c
      unfolding relinked_at [OF rl] G(5) by (rule keys)+
    have len4: "length ps4 = Suc (length ps)"
      using I(2,3) R(9) nin distinct_card by (metis card.insert chain_ok_def finite_set)
    have inj: "inj_on (key_at (elems m4)) (set ps4)"
      using R(4) absent nin unfolding I(3) by (auto simp: inj_on_def keys4)
    have z4: "zkeys (elems m4) (set ps4)" using relinked_zkeys [OF rl] z2 G(5) I(3) by simp
    have rep4: "hash_rep base L pH4 m4 ps4"
      unfolding hash_rep_def
    proof (intro conjI)
      show "unat (hcount pH4) = length ps4" using cnt len4 I(5) G(9) by (simp add: same_shape_def)
      show "store_ok base m4 ps4"
        using R(5) relinkedD [OF rl] G(5,6) I(3) A Some fr nin by (auto simp: store_ok_def)
      show "live (hp m4) = L + int (length ps4) + table_blocks pH4"
        using R(6) relinkedD(2) [OF rl] G(7) A Some len4 I(5) by (simp add: same_shape_def table_blocks_def)
    qed (use I(2) z4 inj in auto)
    have "tab (elems m4) ps4 = (tab (elems m) ps)(low k \<mapsto> v)"
    proof (rule tab_eqI [OF inj z4])
      show "((tab (elems m) ps)(low k \<mapsto> v)) (key_at (elems m4) c) = data_at (elems m4) c" if "c \<in> set ps4" for c
        using that absent tab_found [OF R(4,3)] unfolding I(3) keys4 by auto
      show "((tab (elems m) ps)(low k \<mapsto> v)) x = None" if "\<And>c. c \<in> set ps4 \<Longrightarrow> key_at (elems m4) c \<noteq> x" for x
      proof -
        have "x \<noteq> low k" "\<And>c. c \<in> set ps \<Longrightarrow> key_at (elems m) c \<noteq> x"
          using that nin unfolding I(3) keys4 by (metis insertI1, metis insertI2)
        then show ?thesis using tab_absent [of ps "elems m" x] by simp
      qed
    qed
    moreover have "insert_new msz pH k (Some v) h m = Ret (None, pH4, m4)"
      using al Some A G(1) I(1) by (simp add: insert_new_def)
    moreover have "set (outcomes (hp m4)) \<subseteq> set (outcomes (hp m))"
      using relinkedD(2) [OF rl] G(8) A by auto
    ultimately show ?thesis using rep4 len4
      by (intro exI [of _ None] exI [of _ pH4] exI [of _ m4] exI [of _ ps4]) simp
  qed
qed

lemma replace_ok:
  fixes v :: 'v
  assumes rep: "hash_rep base L pH m ps" and a: "a \<in> set ps" "elems m a = Some e" and k: "zstr k" "key_at (elems m) a = low k"
  defines "m' \<equiv> m\<lparr>elems := (elems m)(a \<mapsto> e\<lparr>elem_data := Some v, elem_pKey := k\<rparr>)\<rparr>"
  shows "hash_rep base L pH m' ps" "tab (elems m') ps = (tab (elems m) ps)(low k \<mapsto> v)"
proof -
  note R = hash_repD [OF rep]
  have keys: "key_at (elems m') c = key_at (elems m) c" "data_at (elems m') c = (if c = a then Some v else data_at (elems m) c)" for c
    using a k unfolding m'_def by (auto simp: key_at_def data_at_def)
  have seg: "dseg (elems m') p xs q = dseg (elems m) p xs q" for p xs q
    using a by (induction xs arbitrary: p) (auto simp: m'_def)
  have z: "zkeys (elems m') (set ps)" using R(3) k by (auto simp: zkeys_def m'_def)
  have inj: "inj_on (key_at (elems m')) (set ps)" using R(4) by (simp add: keys inj_on_def)
  have "table_ok pH (elems m') ps" by (rule table_ok_same [OF R(10)]) (use keys in auto)
  then have "chain_ok pH (elems m') ps" using R(7,8,9) seg by (simp add: chain_ok_def)
  moreover have "store_ok base m' ps" using R(5) a by (fastforce simp: store_ok_def m'_def)
  moreover have "hp m' = hp m" by (simp add: m'_def)
  ultimately show "hash_rep base L pH m' ps" using R(2,6) z inj by (simp add: hash_rep_def)
  show "tab (elems m') ps = (tab (elems m) ps)(low k \<mapsto> v)"
  proof (rule tab_eqI [OF inj z])
    show "((tab (elems m) ps)(low k \<mapsto> v)) (key_at (elems m') c) = data_at (elems m') c" if "c \<in> set ps" for c
      using that tab_found [OF R(4,3) that] k(2) R(4) a(1) by (auto simp: keys inj_on_def)
    show "((tab (elems m) ps)(low k \<mapsto> v)) x = None" if "\<And>c. c \<in> set ps \<Longrightarrow> key_at (elems m') c \<noteq> x" for x
      using that a(1) k(2) tab_absent [of ps "elems m" x] by (auto simp: keys)
  qed
qed

lemma remove_tab:
  assumes rep: "hash_rep base L pH m ps" "hash_rep base L pH' m' ps'" and a: "a \<in> set ps" "set ps' = set ps - {a}"
    and same: "\<forall>c \<in> set ps'. key_at (elems m') c = key_at (elems m) c \<and> data_at (elems m') c = data_at (elems m) c"
  shows "tab (elems m') ps' = (tab (elems m) ps)(key_at (elems m) a := None)"
proof -
  note R = hash_repD [OF rep(1)] and R' = hash_repD [OF rep(2)]
  show ?thesis
  proof (rule tab_eqI [OF R'(4,3)])
    show "((tab (elems m) ps)(key_at (elems m) a := None)) (key_at (elems m') c) = data_at (elems m') c" if "c \<in> set ps'" for c
      using that same a tab_found [OF R(4,3), of c] R(4) by (auto simp: inj_on_def)
    show "((tab (elems m) ps)(key_at (elems m) a := None)) x = None" if "\<And>c. c \<in> set ps' \<Longrightarrow> key_at (elems m') c \<noteq> x" for x
    proof (cases "x = key_at (elems m) a")
      case False
      then have "\<And>c. c \<in> set ps \<Longrightarrow> key_at (elems m) c \<noteq> x" using that same a(2) by (metis DiffI singletonD)
      then show ?thesis using tab_absent [of ps "elems m" x] by simp
    qed simp
  qed
qed

lemma find_ok:
  assumes rep: "hash_rep base L pH m ps" and k: "zstr k" and small: "length ps < 2 ^ 31"
  shows "sqlite3HashFind pH k m = Ret (tab (elems m) ps (low k))"
proof -
  note R = hash_repD [OF rep]
  obtain p h where f: "findElementWithHash pH k m = Ret (p, h)" "found (elems m) ps (low k) p"
    using find_element_ok [OF rep k small] by blast
  show ?thesis
  proof (cases p)
    case None
    then show ?thesis using f tab_absent [of ps "elems m" "low k"] by (simp add: sqlite3HashFind_def found_def)
  next
    case (Some a)
    then have a: "a \<in> set ps" "key_at (elems m) a = low k" using f(2) by (auto simp: found_def)
    obtain e where "elems m a = Some e" using dseg_mem [OF R(7) a(1)] by blast
    then show ?thesis using f(1) Some tab_found [OF R(4,3) a(1)] a(2) by (simp add: sqlite3HashFind_def data_at_def)
  qed
qed

section \<open>The table as a map\<close>

text \<open>
  The contract: a map from keys up to case to data. Inserting \<open>NULL\<close> removes, and an insertion of a new key
  may fail, which the result shows; \<open>oom\<close> tells whether allocations can fail at all.
\<close>

datatype 'v hash_op = Insert "byte list" "'v option" | Find "byte list" | Clear

inductive table_step ::
    "bool \<Rightarrow> 'v hash_op \<Rightarrow> (byte list \<rightharpoonup> 'v) \<Rightarrow> 'v option \<Rightarrow> (byte list \<rightharpoonup> 'v) \<Rightarrow> bool" for oom where
  found: "table_step oom (Find k) T (T (low k)) T"
| clear: "table_step oom Clear T None Map.empty"
| replace: "T (low k) = Some old \<Longrightarrow> table_step oom (Insert k (Some v)) T (Some old) (T(low k \<mapsto> v))"
| remove: "table_step oom (Insert k None) T (T (low k)) (T(low k := None))"
| insert: "T (low k) = None \<Longrightarrow> table_step oom (Insert k (Some v)) T None (T(low k \<mapsto> v))"
| failed: "T (low k) = None \<Longrightarrow> oom \<Longrightarrow> table_step oom (Insert k (Some v)) T (Some v) T"

inductive_simps table_step_simps:
  "table_step oom (Insert k (Some v)) T r T'" "table_step oom (Insert k None) T r T'"
  "table_step oom (Find k) T r T'" "table_step oom Clear T r T'"

fun hash_step :: "(int \<Rightarrow> int) \<Rightarrow> 'v hash_op \<Rightarrow> Hash \<times> 'v memory \<Rightarrow> ('v option \<times> Hash \<times> 'v memory) cres" where
  "hash_step msz (Insert k d) (pH, m) = sqlite3HashInsert msz pH k d m"
| "hash_step msz (Find k) (pH, m) = cbind (sqlite3HashFind pH k m) (\<lambda>r. Ret (r, pH, m))"
| "hash_step msz Clear (pH, m) = cbind (sqlite3HashClear pH m) (\<lambda>(pH, m). Ret (None, pH, m))"

fun op_ok :: "'v hash_op \<Rightarrow> bool" where
  "op_ok (Insert k d) = zstr k"
| "op_ok (Find k) = zstr k"
| "op_ok Clear = True"

definition hash_rel :: "(addr \<rightharpoonup> 'v HashElem) \<Rightarrow> int \<Rightarrow> bool \<Rightarrow> nat \<Rightarrow> Hash \<times> 'v memory \<Rightarrow> (byte list \<rightharpoonup> 'v) \<Rightarrow> bool" where
  "hash_rel base L oom n s T \<longleftrightarrow>
     (\<exists>ps. hash_rep base L (fst s) (snd s) ps \<and> T = tab (elems (snd s)) ps \<and> length ps + n < 2 ^ 31 \<and>
       (False \<in> set (outcomes (hp (snd s))) \<longrightarrow> oom))"

lemma insert_simulates:
  assumes rep: "hash_rep base L pH m ps" and k: "zstr k" and small: "length ps < 2 ^ 31 - 1" and msz: "msz_ok msz"
  shows "\<exists>r pH' m' ps'. sqlite3HashInsert msz pH k d m = Ret (r, pH', m') \<and> hash_rep base L pH' m' ps' \<and>
     set (outcomes (hp m')) \<subseteq> set (outcomes (hp m)) \<and> length ps' \<le> Suc (length ps) \<and>
     table_step (False \<in> set (outcomes (hp m))) (Insert k d) (tab (elems m) ps) r (tab (elems m') ps')"
proof -
  note R = hash_repD [OF rep]
  have sm: "length ps < 2 ^ 31" using small by simp
  obtain p h where f: "findElementWithHash pH k m = Ret (p, h)" "found (elems m) ps (low k) p"
      "ht_array pH \<noteq> None \<longrightarrow> h = hash_of (low k) mod htsize pH"
    using find_element_ok [OF rep k sm] by blast
  show ?thesis
  proof (cases p)
    case None
    then have ab: "\<forall>a \<in> set ps. key_at (elems m) a \<noteq> low k" using f(2) by (simp add: found_def)
    then have T: "tab (elems m) ps (low k) = None" using tab_absent [of ps "elems m" "low k"] by blast
    show ?thesis
    proof (cases d)
      case (Some v)
      have "\<exists>r pH' m' ps'. insert_new msz pH k d h m = Ret (r, pH', m') \<and> hash_rep base L pH' m' ps' \<and>
          set (outcomes (hp m')) \<subseteq> set (outcomes (hp m)) \<and> length ps' \<le> Suc (length ps) \<and>
          table_step (False \<in> set (outcomes (hp m))) (Insert k d) (tab (elems m) ps) r (tab (elems m') ps')"
        using insert_new_ok [OF rep k ab small msz, of h v] f(3) T Some by (fastforce intro: table_step.insert table_step.failed)
      then show ?thesis using f(1) None Some by (simp add: sqlite3HashInsert_def)
    next
      case [simp]: None
      have "table_step (False \<in> set (outcomes (hp m))) (Insert k None) (tab (elems m) ps) None (tab (elems m) ps)"
        using table_step.remove [of _ k "tab (elems m) ps"] T by (simp add: fun_upd_idem)
      then show ?thesis using f(1) \<open>p = None\<close> rep
        by (intro exI [of _ None] exI [of _ pH] exI [of _ m] exI [of _ ps]) (simp add: sqlite3HashInsert_def)
    qed
  next
    case (Some a)
    then have a: "a \<in> set ps" "key_at (elems m) a = low k" using f(2) by (auto simp: found_def)
    obtain e where e: "elems m a = Some e" "elem_data e \<noteq> None" using R(3) a(1) by (auto simp: zkeys_def)
    have T: "tab (elems m) ps (low k) = elem_data e"
      using tab_found [OF R(4,3) a(1)] a(2) e by (simp add: data_at_def)
    show ?thesis
    proof (cases d)
      case None
      obtain pH' m' ps' where r: "removeElementGivenHash pH (Some a) h m = Ret (pH', m')" "hash_rep base L pH' m' ps'"
          "outcomes (hp m') = outcomes (hp m)" "set ps' = set ps - {a}"
          "\<forall>c \<in> set ps'. key_at (elems m') c = key_at (elems m) c \<and> data_at (elems m') c = data_at (elems m) c"
        using remove_ok [OF rep a(1) sm, of h] f(3) a(2) by auto
      have "length ps' \<le> length ps"
        using r(2,4) R(9) hash_repD(9) [OF r(2)] distinct_card card_Diff1_le by (metis)
      moreover have "table_step (False \<in> set (outcomes (hp m))) (Insert k None) (tab (elems m) ps) (elem_data e) (tab (elems m') ps')"
        using table_step.remove [of _ k "tab (elems m) ps"] T remove_tab [OF rep r(2) a(1) r(4,5)] a(2) by simp
      ultimately show ?thesis using f(1) Some None e r(1-3)
        by (intro exI [of _ "elem_data e"] exI [of _ pH'] exI [of _ m'] exI [of _ ps']) (simp add: sqlite3HashInsert_def)
    next
      case d: (Some v)
      let ?m = "m\<lparr>elems := (elems m)(a \<mapsto> e\<lparr>elem_data := Some v, elem_pKey := k\<rparr>)\<rparr>"
      obtain old where old: "elem_data e = Some old" using e by auto
      have "table_step (False \<in> set (outcomes (hp m))) (Insert k d) (tab (elems m) ps) (elem_data e) (tab (elems ?m) ps)"
        using replace_ok(2) [OF rep a(1) e(1) k a(2), of v] table_step.replace [of "tab (elems m) ps" k old] T old d by simp
      then show ?thesis using f(1) Some d e replace_ok(1) [OF rep a(1) e(1) k a(2), of v]
        by (intro exI [of _ "elem_data e"] exI [of _ pH] exI [of _ ?m] exI [of _ ps]) (simp add: sqlite3HashInsert_def)
    qed
  qed
qed

lemma table_step_oom: "table_step oom x T r T' \<Longrightarrow> (oom \<longrightarrow> oom') \<Longrightarrow> table_step oom' x T r T'"
  by (induction rule: table_step.induct) (auto intro: table_step.intros)

lemma hash_step_simulates:
  assumes msz: "msz_ok msz" and rel: "hash_rel base L oom (Suc n) s T" and ok: "op_ok x"
  shows "\<exists>r s' T'. hash_step msz x s = Ret (r, s') \<and> table_step oom x T r T' \<and> hash_rel base L oom n s' T'"
proof -
  obtain pH m where s: "s = (pH, m)" by (cases s)
  obtain ps where ps: "hash_rep base L pH m ps" "T = tab (elems m) ps" "length ps + Suc n < 2 ^ 31"
      "False \<in> set (outcomes (hp m)) \<longrightarrow> oom"
    using rel s by (auto simp: hash_rel_def)
  show ?thesis
  proof (cases x)
    case (Insert k d)
    then obtain r pH' m' ps' where i: "sqlite3HashInsert msz pH k d m = Ret (r, pH', m')" "hash_rep base L pH' m' ps'"
        "set (outcomes (hp m')) \<subseteq> set (outcomes (hp m))" "length ps' \<le> Suc (length ps)"
        "table_step (False \<in> set (outcomes (hp m))) x T r (tab (elems m') ps')"
      using insert_simulates [OF ps(1) _ _ msz, of k d] ok ps(2,3) by auto
    then show ?thesis using s ps(3,4) Insert table_step_oom [OF i(5) ps(4)]
      by (intro exI [of _ r] exI [of _ "(pH', m')"] exI [of _ "tab (elems m') ps'"])
        (auto simp: hash_rel_def intro!: exI [of _ ps'])
  next
    case (Find k)
    then have "hash_step msz x s = Ret (T (low k), s)" "table_step oom x T (T (low k)) T"
      using s ps(2,3) find_ok [OF ps(1), of k] ok table_step.found [of oom k T] by auto
    moreover have "hash_rel base L oom n s T" using s ps by (auto simp: hash_rel_def intro!: exI [of _ ps])
    ultimately show ?thesis by blast
  next
    case Clear
    obtain m' where c: "sqlite3HashClear pH m = Ret (sqlite3HashInit, m')" "hash_rep base L sqlite3HashInit m' []"
        "outcomes (hp m') = outcomes (hp m)"
      using clear_ok [OF ps(1)] by blast
    have "tab (elems m') [] = Map.empty" by (simp add: tab_def)
    then show ?thesis using s ps(3,4) c Clear table_step.clear [of oom T]
      by (auto simp: hash_rel_def intro!: exI [of _ "[]"])
  qed
qed

interpretation hsim: forward_simulation "hash_step msz" "table_step oom"
    "\<lambda>n s T. msz_ok msz \<and> hash_rel base L oom n s T" op_ok for msz oom base L
  by unfold_locales (use hash_step_simulates in blast)

lemma walk_ok:
  "npath (elems m) ps \<Longrightarrow> length ps \<le> n \<Longrightarrow> hash_walk n m (lk ps None) = Ret (map (data_at (elems m)) ps)"
proof (induction ps arbitrary: n)
  case Nil
  then show ?case by simp
next
  case (Cons a ps)
  then show ?case by (cases n) (auto simp: data_at_def)
qed

text \<open>A run from an empty table, for any contents of the rest of the memory.\<close>

definition memory_ok :: "'v memory \<Rightarrow> bool" where
  "memory_ok m \<longleftrightarrow> (\<forall>a \<ge> fresh m. elems m a = None)"

lemma run_from_empty:
  assumes "msz_ok msz" "memory_ok m" "list_all op_ok ops" "length ops < 2 ^ 31"
  shows "\<exists>rs pH' m' ps. run_steps (hash_step msz) ops (sqlite3HashInit, m) = Ret (rs, pH', m') \<and>
    spec_steps (table_step (False \<in> set (outcomes (hp m)))) ops Map.empty rs (tab (elems m') ps) \<and>
    hash_rep (elems m) (live (hp m)) pH' m' ps \<and> length ps < 2 ^ 31"
proof -
  have "store_ok (elems m) m []" using assms(2) by (simp add: store_ok_def memory_ok_def)
  then have "hash_rep (elems m) (live (hp m)) sqlite3HashInit m []" by (rule init_rep) simp
  then have "hash_rel (elems m) (live (hp m)) (False \<in> set (outcomes (hp m))) (length ops + 0) (sqlite3HashInit, m) Map.empty"
    using assms(4) by (auto simp: hash_rel_def tab_def intro!: exI [of _ "[]"])
  then obtain rs s' T where "run_steps (hash_step msz) ops (sqlite3HashInit, m) = Ret (rs, s')"
      "spec_steps (table_step (False \<in> set (outcomes (hp m)))) ops Map.empty rs T"
      "hash_rel (elems m) (live (hp m)) (False \<in> set (outcomes (hp m))) 0 s' T"
    using hsim.steps_simulate [of msz "elems m" "live (hp m)" _ ops 0] assms(1,3) by blast
  then show ?thesis by (cases s') (auto simp: hash_rel_def)
qed

text \<open>C9: For every sequence of insertions, removals, searches and clearings from an empty hash
  table, in any memory and with any pattern of failing allocations, no operation faults or runs on,
  the results are those of a map from keys up to ASCII case to data (an insertion of a new key may report failure and
  then leaves the map as it is, only if some allocation can fail), and afterwards a search for any key returns
  what the map holds. This covers the linear search, the growth and rebuilding of the buckets and their removal.\<close>

theorem hash_refines_map:
  assumes "msz_ok msz" "memory_ok m" "list_all op_ok ops" "length ops < 2 ^ 31"
  shows "\<exists>rs pH' m' T. run_steps (hash_step msz) ops (sqlite3HashInit, m) = Ret (rs, pH', m') \<and>
    spec_steps (table_step (False \<in> set (outcomes (hp m)))) ops Map.empty rs T \<and>
    (\<forall>k. zstr k \<longrightarrow> sqlite3HashFind pH' k m' = Ret (T (low k)))"
  using run_from_empty [OF assms] find_ok by blast

text \<open>C30: After any such sequence, clearing the table frees every block it has allocated, the
  bucket array included, exactly once and leaves all other memory as it was before.\<close>

theorem hash_lifecycle:
  assumes "msz_ok msz" "memory_ok m" "list_all op_ok ops" "length ops < 2 ^ 31"
  shows "\<exists>rs pH' m' m''. run_steps (hash_step msz) ops (sqlite3HashInit, m) = Ret (rs, pH', m') \<and>
    sqlite3HashClear pH' m' = Ret (sqlite3HashInit, m'') \<and> elems m'' = elems m \<and> live (hp m'') = live (hp m)"
proof -
  obtain rs pH' m' ps where r: "run_steps (hash_step msz) ops (sqlite3HashInit, m) = Ret (rs, pH', m')"
      "hash_rep (elems m) (live (hp m)) pH' m' ps"
    using run_from_empty [OF assms] by blast
  then obtain m'' where m'': "sqlite3HashClear pH' m' = Ret (sqlite3HashInit, m'')"
      "hash_rep (elems m) (live (hp m)) sqlite3HashInit m'' []"
    using clear_ok by blast
  have "elems m'' = elems m" "live (hp m'') = live (hp m)"
    using hash_repD(5,6) [OF m''(2)] by (auto simp: store_ok_def table_blocks_def sqlite3HashInit_def)
  then show ?thesis using r(1) m''(1) by blast
qed

text \<open>C31: After any such sequence, the loop over the elements that the header file describes ends after as
  many steps as the table counts elements, and sees the data of every key of the map exactly once.\<close>

theorem hash_iteration:
  assumes "msz_ok msz" "memory_ok m" "list_all op_ok ops" "length ops < 2 ^ 31"
  shows "\<exists>rs pH' m' T ks. run_steps (hash_step msz) ops (sqlite3HashInit, m) = Ret (rs, pH', m') \<and>
    spec_steps (table_step (False \<in> set (outcomes (hp m)))) ops Map.empty rs T \<and>
    hash_walk (unat (hcount pH')) m' (sqliteHashFirst pH') = Ret (map T ks) \<and>
    distinct ks \<and> set ks = dom T \<and> length ks = unat (hcount pH')"
proof -
  obtain rs pH' m' ps where r: "run_steps (hash_step msz) ops (sqlite3HashInit, m) = Ret (rs, pH', m')"
      "spec_steps (table_step (False \<in> set (outcomes (hp m)))) ops Map.empty rs (tab (elems m') ps)"
      "hash_rep (elems m) (live (hp m)) pH' m' ps"
    using run_from_empty [OF assms] by blast
  note R = hash_repD [OF r(3)]
  let ?ks = "map (key_at (elems m')) ps"
  have "map (data_at (elems m')) ps = map (tab (elems m') ps) ?ks" using tab_found [OF R(4,3)] by simp
  then have "hash_walk (unat (hcount pH')) m' (sqliteHashFirst pH') = Ret (map (tab (elems m') ps) ?ks)"
    using walk_ok [OF dseg_npath [OF R(7)], of "unat (hcount pH')"] R(2,8) by (simp add: sqliteHashFirst_def)
  moreover have "distinct ?ks" "length ?ks = unat (hcount pH')" using R(2,4,9) by (simp_all add: distinct_map)
  moreover have "set ?ks = dom (tab (elems m') ps)" by (auto simp: tab_def dom_map_of_conv_image_fst image_image)
  ultimately show ?thesis using r(1,2) by blast
qed

definition sample_memory :: "nat memory" where
  "sample_memory = \<lparr>elems = [3 \<mapsto> \<lparr>elem_next = None, elem_prev = None, elem_data = Some 9, elem_pKey = [0]\<rparr>], fresh = 4,
     garbage = \<lparr>elem_next = Some 77, elem_prev = Some 78, elem_data = None, elem_pKey = []\<rparr>,
     hp = \<lparr>outcomes = [True, False], live = 1\<rparr>\<rparr>"

definition sample_ops :: "nat hash_op list" where
  "sample_ops = map (\<lambda>i. Insert [of_nat i + 65, 66, 0] (Some i)) [0..<20] @ [Find [97, 98, 0, 5], Insert [67, 98, 0] None, Clear]"

lemma sample_hash: "msz_ok (\<lambda>n. n + 15)" "memory_ok sample_memory" "list_all op_ok sample_ops" "length sample_ops < 2 ^ 31"
  by (simp_all add: msz_ok_def memory_ok_def sample_memory_def sample_ops_def zstr_def list_all_iff)

theorem hash_refines_map_witness:
  "\<exists>rs pH' m' T. run_steps (hash_step (\<lambda>n. n + 15)) sample_ops (sqlite3HashInit, sample_memory) = Ret (rs, pH', m') \<and>
    spec_steps (table_step (False \<in> set (outcomes (hp sample_memory)))) sample_ops Map.empty rs T \<and>
    (\<forall>k. zstr k \<longrightarrow> sqlite3HashFind pH' k m' = Ret (T (low k)))"
  by (rule hash_refines_map [OF sample_hash])

theorem hash_lifecycle_witness:
  "\<exists>rs pH' m' m''. run_steps (hash_step (\<lambda>n. n + 15)) sample_ops (sqlite3HashInit, sample_memory) = Ret (rs, pH', m') \<and>
    sqlite3HashClear pH' m' = Ret (sqlite3HashInit, m'') \<and> elems m'' = elems sample_memory \<and>
    live (hp m'') = live (hp sample_memory)"
  by (rule hash_lifecycle [OF sample_hash])

theorem hash_iteration_witness:
  "\<exists>rs pH' m' T ks. run_steps (hash_step (\<lambda>n. n + 15)) sample_ops (sqlite3HashInit, sample_memory) = Ret (rs, pH', m') \<and>
    spec_steps (table_step (False \<in> set (outcomes (hp sample_memory)))) sample_ops Map.empty rs T \<and>
    hash_walk (unat (hcount pH')) m' (sqliteHashFirst pH') = Ret (map T ks) \<and>
    distinct ks \<and> set ks = dom T \<and> length ks = unat (hcount pH')"
  by (rule hash_iteration [OF sample_hash])

text \<open>Comparing two keys without regard to case stays inside both strings; its sign is the
  order of the strings in lower case, it is zero exactly when they agree up to ASCII case, and such
  keys have the same hash.\<close>

theorem stricmp_order:
  assumes "zstr a" "zstr b"
  shows "\<exists>c. sqlite3StrICmp a b = Ret c \<and>
    (c = 0 \<longleftrightarrow> map ascii_lower (takeWhile (\<lambda>x. x \<noteq> 0) a) = map ascii_lower (takeWhile (\<lambda>x. x \<noteq> 0) b)) \<and>
    (c < 0 \<longleftrightarrow> (map ascii_lower (takeWhile (\<lambda>x. x \<noteq> 0) a), map ascii_lower (takeWhile (\<lambda>x. x \<noteq> 0) b)) \<in> lexord {(x, y). x < y}) \<and>
    (c = 0 \<longrightarrow> strHash a = strHash b)"
proof -
  have l: "map ascii_lower (takeWhile (\<lambda>x. x \<noteq> 0) z) = low z" for z
    by (simp add: low_def UpperToLower_ascii)
  show ?thesis unfolding l using StrICmp_ok [OF assms] StrICmp_less [OF assms] strHash_ok assms by fastforce
qed

theorem stricmp_order_witness:
  "\<exists>c. sqlite3StrICmp [84, 97, 0] [116, 66, 0] = Ret c \<and>
    (c = 0 \<longleftrightarrow> map ascii_lower (takeWhile (\<lambda>x. x \<noteq> 0) [84, 97, 0]) = map ascii_lower (takeWhile (\<lambda>x. x \<noteq> 0) [116, 66, 0])) \<and>
    (c < 0 \<longleftrightarrow> (map ascii_lower (takeWhile (\<lambda>x. x \<noteq> 0) [84, 97, 0]), map ascii_lower (takeWhile (\<lambda>x. x \<noteq> 0) [116, 66, 0])) \<in> lexord {(x, y). x < y}) \<and>
    (c = 0 \<longrightarrow> strHash [84, 97, 0] = strHash [116, 66, 0])"
  by (rule stricmp_order) (simp_all add: zstr_def)


end
