(* ===== verification/Sqlite_Num.thy ===== *)
theory Sqlite_Num
  imports Complex_Main Sqlite_Hash "HOL-Library.Signed_Division"
begin

unbundle bit_operations_syntax

text \<open>
  Numbers and strings of SQLite (\<^verbatim>\<open>util.c\<close>, with the character classes of \<^verbatim>\<open>global.c\<close>): the 64-bit arithmetic
  that detects overflow, the conversion of text in any of the three encodings to integers, hexadecimal
  literals, quoted names. A string argument is the object it points into; \<^verbatim>\<open>char\<close> is signed, as on the platforms the
  application is built for.
\<close>

section \<open>Character classes\<close>

definition sqlite3CtypeMap :: "byte list" where
  "sqlite3CtypeMap = [
      0x00, 0x00, 0x00, 0x00, 0x00, 0x00, 0x00, 0x00, 0x00, 0x01, 0x01, 0x01, 0x01, 0x01, 0x00, 0x00,
      0x00, 0x00, 0x00, 0x00, 0x00, 0x00, 0x00, 0x00, 0x00, 0x00, 0x00, 0x00, 0x00, 0x00, 0x00, 0x00,
      0x01, 0x00, 0x80, 0x00, 0x40, 0x00, 0x00, 0x80, 0x00, 0x00, 0x00, 0x00, 0x00, 0x00, 0x00, 0x00,
      0x0c, 0x0c, 0x0c, 0x0c, 0x0c, 0x0c, 0x0c, 0x0c, 0x0c, 0x0c, 0x00, 0x00, 0x00, 0x00, 0x00, 0x00,
      0x00, 0x0a, 0x0a, 0x0a, 0x0a, 0x0a, 0x0a, 0x02, 0x02, 0x02, 0x02, 0x02, 0x02, 0x02, 0x02, 0x02,
      0x02, 0x02, 0x02, 0x02, 0x02, 0x02, 0x02, 0x02, 0x02, 0x02, 0x02, 0x80, 0x00, 0x00, 0x00, 0x40,
      0x80, 0x2a, 0x2a, 0x2a, 0x2a, 0x2a, 0x2a, 0x22, 0x22, 0x22, 0x22, 0x22, 0x22, 0x22, 0x22, 0x22,
      0x22, 0x22, 0x22, 0x22, 0x22, 0x22, 0x22, 0x22, 0x22, 0x22, 0x22, 0x00, 0x00, 0x00, 0x00, 0x00,
      0x40, 0x40, 0x40, 0x40, 0x40, 0x40, 0x40, 0x40, 0x40, 0x40, 0x40, 0x40, 0x40, 0x40, 0x40, 0x40,
      0x40, 0x40, 0x40, 0x40, 0x40, 0x40, 0x40, 0x40, 0x40, 0x40, 0x40, 0x40, 0x40, 0x40, 0x40, 0x40,
      0x40, 0x40, 0x40, 0x40, 0x40, 0x40, 0x40, 0x40, 0x40, 0x40, 0x40, 0x40, 0x40, 0x40, 0x40, 0x40,
      0x40, 0x40, 0x40, 0x40, 0x40, 0x40, 0x40, 0x40, 0x40, 0x40, 0x40, 0x40, 0x40, 0x40, 0x40, 0x40,
      0x40, 0x40, 0x40, 0x40, 0x40, 0x40, 0x40, 0x40, 0x40, 0x40, 0x40, 0x40, 0x40, 0x40, 0x40, 0x40,
      0x40, 0x40, 0x40, 0x40, 0x40, 0x40, 0x40, 0x40, 0x40, 0x40, 0x40, 0x40, 0x40, 0x40, 0x40, 0x40,
      0x40, 0x40, 0x40, 0x40, 0x40, 0x40, 0x40, 0x40, 0x40, 0x40, 0x40, 0x40, 0x40, 0x40, 0x40, 0x40,
      0x40, 0x40, 0x40, 0x40, 0x40, 0x40, 0x40, 0x40, 0x40, 0x40, 0x40, 0x40, 0x40, 0x40, 0x40, 0x40
   ]"

definition sqlite3Isspace :: "byte \<Rightarrow> bool" where
  "sqlite3Isspace x \<longleftrightarrow> sqlite3CtypeMap ! unat x AND 0x01 \<noteq> 0"

definition sqlite3Isxdigit :: "byte \<Rightarrow> bool" where
  "sqlite3Isxdigit x \<longleftrightarrow> sqlite3CtypeMap ! unat x AND 0x08 \<noteq> 0"

definition sqlite3Isquote :: "byte \<Rightarrow> bool" where
  "sqlite3Isquote x \<longleftrightarrow> sqlite3CtypeMap ! unat x AND 0x80 \<noteq> 0"

section \<open>Arithmetic on 64-bit integers\<close>

abbreviation (input) LARGEST_INT64 :: int where "LARGEST_INT64 \<equiv> 0x7fffffffffffffff"
abbreviation (input) SMALLEST_INT64 :: int where "SMALLEST_INT64 \<equiv> - 1 - LARGEST_INT64"

text \<open>The value of an expression of type \<^verbatim>\<open>i64\<close>: overflow is undefined.\<close>

definition i64 :: "int \<Rightarrow> int cres" where
  "i64 x = (if SMALLEST_INT64 \<le> x \<and> x \<le> LARGEST_INT64 then Ret x else Fault)"

text \<open>Each function gives its return value and \<^verbatim>\<open>*pA\<close> afterwards.\<close>

definition sqlite3AddInt64 :: "int \<Rightarrow> int \<Rightarrow> (int \<times> int) cres" where
  "sqlite3AddInt64 iA iB =
     cbind (if iB \<ge> 0
            then if iA > 0 then cbind (i64 (LARGEST_INT64 - iA)) (\<lambda>d. Ret (d < iB)) else Ret False
            else if iA < 0
              then cbind (i64 (iA + LARGEST_INT64)) (\<lambda>s. cbind (i64 (- s)) (\<lambda>d.
                   cbind (i64 (iB + 1)) (\<lambda>b. Ret (d > b))))
              else Ret False) (\<lambda>over.
     if over then Ret (1, iA) else cbind (i64 (iA + iB)) (\<lambda>r. Ret (0, r)))"

definition sqlite3SubInt64 :: "int \<Rightarrow> int \<Rightarrow> (int \<times> int) cres" where
  "sqlite3SubInt64 iA iB =
     (if iB = SMALLEST_INT64
      then if iA \<ge> 0 then Ret (1, iA) else cbind (i64 (iA - iB)) (\<lambda>r. Ret (0, r))
      else cbind (i64 (- iB)) (\<lambda>b. sqlite3AddInt64 iA b))"

definition sqlite3MulInt64 :: "int \<Rightarrow> int \<Rightarrow> (int \<times> int) cres" where
  "sqlite3MulInt64 iA iB =
     cbind (if iB > 0 then Ret (iA > LARGEST_INT64 sdiv iB \<or> iA < SMALLEST_INT64 sdiv iB)
            else if iB < 0
              then if iA > 0 then Ret (iB < SMALLEST_INT64 sdiv iA)
                   else if iA < 0
                     then if iB = SMALLEST_INT64 \<or> iA = SMALLEST_INT64 then Ret True
                          else cbind (i64 (- iA)) (\<lambda>a. cbind (i64 (- iB)) (\<lambda>b. Ret (a > LARGEST_INT64 sdiv b)))
                     else Ret False
              else Ret False) (\<lambda>over.
     if over then Ret (1, iA) else cbind (i64 (iA * iB)) (\<lambda>r. Ret (0, r)))"

definition sqlite3AbsInt32 :: "int \<Rightarrow> int cres" where
  "sqlite3AbsInt32 x =
     (if x \<ge> 0 then Ret x else if x = - 0x80000000 then Ret 0x7fffffff else int_add (- x) 0)"

section \<open>Decimal text\<close>

abbreviation (input) SQLITE_UTF8 :: int where "SQLITE_UTF8 \<equiv> 1"
abbreviation (input) SQLITE_UTF16LE :: int where "SQLITE_UTF16LE \<equiv> 2"
abbreviation (input) SQLITE_UTF16BE :: int where "SQLITE_UTF16BE \<equiv> 3"

text \<open>\<^verbatim>\<open>"922337203685477580"\<close>, the first eighteen digits of 2^63.\<close>

definition pow63 :: "int list" where
  "pow63 = [57, 50, 50, 51, 51, 55, 50, 48, 51, 54, 56, 53, 52, 55, 55, 53, 56, 48]"

fun compare_digits :: "byte list \<Rightarrow> int \<Rightarrow> int \<Rightarrow> int \<Rightarrow> int list \<Rightarrow> int cres" where
  "compare_digits z zNum incr i [] = Ret 0"
| "compare_digits z zNum incr i (d # ds) =
     cbind (rd z (zNum + i * incr)) (\<lambda>b.
       let c = (sint b - d) * 10 in if c = 0 then compare_digits z zNum incr (i + 1) ds else Ret c)"

definition compare2pow63 :: "byte list \<Rightarrow> int \<Rightarrow> int \<Rightarrow> int cres" where
  "compare2pow63 z zNum incr =
     cbind (compare_digits z zNum incr 0 pow63) (\<lambda>c.
       if c = 0 then cbind (rd z (zNum + 18 * incr)) (\<lambda>b. Ret (sint b - 56)) else Ret c)"

text \<open>The first unit of UTF-16 text whose high byte is not zero.\<close>

function utf16_end :: "byte list \<Rightarrow> int \<Rightarrow> int \<Rightarrow> int cres" where
  "utf16_end z nBytes i =
     (if i < nBytes then cbind (rd z i) (\<lambda>b. if b = 0 then utf16_end z nBytes (i + 2) else Ret i) else Ret i)"
  by pat_completeness auto
termination
  by (relation "measure (\<lambda>(z, l, i). nat (l - i))") auto

text \<open>\<^verbatim>\<open>while( zNum<zEnd && P(*zNum) ) zNum+=incr;\<close> the step is 1 or 2.\<close>

function skip_while :: "(byte \<Rightarrow> bool) \<Rightarrow> byte list \<Rightarrow> int \<Rightarrow> int \<Rightarrow> int \<Rightarrow> int cres" where
  "skip_while P z zEnd incr zNum =
     (if zNum < zEnd \<and> 0 < incr
      then cbind (rd z zNum) (\<lambda>b. if P b then skip_while P z zEnd incr (zNum + incr) else Ret zNum)
      else Ret zNum)"
  by pat_completeness auto
termination
  by (relation "measure (\<lambda>(P, z, e, k, p). nat (e - p))") auto

function digits_loop :: "byte list \<Rightarrow> int \<Rightarrow> int \<Rightarrow> int \<Rightarrow> int \<Rightarrow> u64 \<Rightarrow> (int \<times> u64) cres" where
  "digits_loop z zEnd incr zNum i u =
     (if zNum + i < zEnd \<and> 0 < incr
      then cbind (rd z (zNum + i)) (\<lambda>b.
             if 48 \<le> sint b \<and> sint b \<le> 57
             then digits_loop z zEnd incr zNum (i + incr) (u * 10 + of_int (sint b) - 48)
             else Ret (i, u))
      else Ret (i, u))"
  by pat_completeness auto
termination
  by (relation "measure (\<lambda>(z, e, k, p, i, u). nat (e - (p + i)))") auto

definition atoi_encoding :: "byte list \<Rightarrow> int \<Rightarrow> int \<Rightarrow> (int \<times> bool \<times> int \<times> int) cres" where
  "atoi_encoding z nBytes enc =
     (if enc = SQLITE_UTF8 then Ret (1, False, nBytes, 0)
      else cbind (utf16_end z nBytes (3 - enc)) (\<lambda>i. Ret (2, i < nBytes, i XOR 1, enc AND 1)))"

definition atoi_sign :: "byte list \<Rightarrow> int \<Rightarrow> int \<Rightarrow> int \<Rightarrow> (bool \<times> int) cres" where
  "atoi_sign z zEnd incr zNum =
     (if zNum < zEnd
      then cbind (rd z zNum) (\<lambda>b.
             Ret (if b = 45 then (True, zNum + incr) else if b = 43 then (False, zNum + incr) else (False, zNum)))
      else Ret (False, zNum))"

definition atoi_value :: "bool \<Rightarrow> u64 \<Rightarrow> int cres" where
  "atoi_value neg u =
     (if uint u > LARGEST_INT64 then Ret (if neg then SMALLEST_INT64 else LARGEST_INT64)
      else if neg then i64 (- uint u) else Ret (uint u))"

definition sqlite3Atoi64 :: "byte list \<Rightarrow> int \<Rightarrow> int \<Rightarrow> (int \<times> int) cres" where
  "sqlite3Atoi64 z nBytes enc =
     cbind (atoi_encoding z nBytes enc) (\<lambda>(incr, nonNum, zEnd, zNum).
     cbind (skip_while sqlite3Isspace z zEnd incr zNum) (\<lambda>zNum.
     cbind (atoi_sign z zEnd incr zNum) (\<lambda>(neg, zStart).
     cbind (skip_while (\<lambda>b. b = 48) z zEnd incr zStart) (\<lambda>zNum.
     cbind (digits_loop z zEnd incr zNum 0 0) (\<lambda>(i, u).
     cbind (atoi_value neg u) (\<lambda>pNum.
     if zNum + i < zEnd \<or> (i = 0 \<and> zStart = zNum) \<or> i > 19 * incr \<or> nonNum then Ret (1, pNum)
     else if i < 19 * incr then Ret (0, pNum)
     else cbind (compare2pow63 z zNum incr) (\<lambda>c.
       if c < 0 then Ret (0, pNum) else if c > 0 then Ret (1, pNum)
       else Ret (if neg then 0 else 2, pNum))))))))"

section \<open>Hexadecimal text and 32-bit integers\<close>

definition sqlite3Strlen30 :: "byte list option \<Rightarrow> int cres" where
  "sqlite3Strlen30 z = (case z of None \<Rightarrow> Ret 0
     | Some s \<Rightarrow> if zstr s then Ret (0x3fffffff AND c_int (int (length (takeWhile (\<lambda>b. b \<noteq> 0) s)))) else Fault)"

definition sqlite3HexToInt :: "int \<Rightarrow> byte" where
  "sqlite3HexToInt h = of_int ((h + 9 * (1 AND drop_bit 6 h)) AND 0xf)"

text \<open>Loops over a string that stop at a character at the latest at its terminator; the string is what is left to read.\<close>

fun skip_zeros :: "byte list \<Rightarrow> byte list cres" where
  "skip_zeros [] = Fault"
| "skip_zeros (b # z) = (if b = 48 then skip_zeros z else Ret (b # z))"

fun hex_loop :: "byte list \<Rightarrow> int \<Rightarrow> u64 \<Rightarrow> (int \<times> u64 \<times> byte) cres" where
  "hex_loop [] k u = Fault"
| "hex_loop (b # z) k u =
     (if sqlite3Isxdigit b then hex_loop z (k + 1) (u * 16 + ucast (sqlite3HexToInt (sint b))) else Ret (k, u, b))"

definition sqlite3DecOrHexToI64 :: "byte list \<Rightarrow> (int \<times> int) cres" where
  "sqlite3DecOrHexToI64 z =
     cbind (rd z 0) (\<lambda>z0.
     cbind (if z0 = 48 then cbind (rd z 1) (\<lambda>z1. Ret (z1 = 120 \<or> z1 = 88)) else Ret False) (\<lambda>hex.
     if hex then cbind (skip_zeros (drop 2 z)) (\<lambda>zi.
            cbind (hex_loop zi 0 0) (\<lambda>(k, u, b). Ret (if b = 0 \<and> k \<le> 16 then 0 else 1, sint u)))
     else cbind (sqlite3Strlen30 (Some z)) (\<lambda>n. sqlite3Atoi64 z n SQLITE_UTF8)))"

fun hex32_loop :: "byte list \<Rightarrow> int \<Rightarrow> u32 \<Rightarrow> (u32 \<times> byte) cres" where
  "hex32_loop [] i u = Fault"
| "hex32_loop (b # z) i u =
     (if sqlite3Isxdigit b \<and> i < 8 then hex32_loop z (i + 1) (u * 16 + ucast (sqlite3HexToInt (sint b))) else Ret (u, b))"

function int32_loop :: "byte list \<Rightarrow> int \<Rightarrow> int \<Rightarrow> (int \<times> int) cres" where
  "int32_loop z i v =
     (if i < 11 then (case z of [] \<Rightarrow> Fault
        | b # z \<Rightarrow> if 0 \<le> sint b - 48 \<and> sint b - 48 \<le> 9 then int32_loop z (i + 1) (v * 10 + (sint b - 48)) else Ret (i, v))
      else Ret (i, v))"
  by pat_completeness auto
termination
  by (relation "measure (\<lambda>(z, i, v). length z)") auto

text \<open>\<open>None\<close> when the function returns 0, \<open>Some v\<close> when it stores \<open>v\<close> and returns 1.\<close>

definition getint32_dec :: "bool \<Rightarrow> byte list \<Rightarrow> int option cres" where
  "getint32_dec neg z =
     cbind (skip_zeros z) (\<lambda>z.
     cbind (int32_loop z 0 0) (\<lambda>(i, v).
       if i > 10 then Ret None
       else if v - (if neg then 1 else 0) > 2147483647 then Ret None
       else Ret (Some (c_int (if neg then - v else v)))))"

definition getint32_hex :: "byte list \<Rightarrow> int option cres" where
  "getint32_hex z =
     cbind (skip_zeros z) (\<lambda>z.
     cbind (hex32_loop z 0 0) (\<lambda>(u, b).
       Ret (if u AND 0x80000000 = 0 \<and> \<not> sqlite3Isxdigit b then Some (sint u) else None)))"

definition sqlite3GetInt32 :: "byte list \<Rightarrow> int option cres" where
  "sqlite3GetInt32 zNum =
     cbind (rd zNum 0) (\<lambda>z0.
     if z0 = 45 then getint32_dec True (drop 1 zNum)
     else if z0 = 43 then getint32_dec False (drop 1 zNum)
     else cbind (if z0 = 48
                 then cbind (rd zNum 1) (\<lambda>z1. if z1 = 120 \<or> z1 = 88
                      then cbind (rd zNum 2) (\<lambda>z2. Ret (sqlite3Isxdigit z2)) else Ret False)
                 else Ret False) (\<lambda>hex.
       if hex then getint32_hex (drop 2 zNum) else getint32_dec False zNum))"

definition sqlite3Atoi :: "byte list option \<Rightarrow> int cres" where
  "sqlite3Atoi z = (case z of None \<Rightarrow> Ret 0
     | Some s \<Rightarrow> cbind (sqlite3GetInt32 s) (\<lambda>r. Ret (case r of None \<Rightarrow> 0 | Some v \<Rightarrow> v)))"

function hex_blob_loop :: "byte list \<Rightarrow> int \<Rightarrow> int \<Rightarrow> byte list \<Rightarrow> (int \<times> byte list) cres" where
  "hex_blob_loop z n i zBlob =
     (if i < n
      then cbind (rd z i) (\<lambda>a. cbind (rd z (i + 1)) (\<lambda>b.
           cbind (wr_bytes zBlob (i div 2) [ucast (push_bit 4 (ucast (sqlite3HexToInt (sint a)) :: u32) OR ucast (sqlite3HexToInt (sint b)))]) (\<lambda>zBlob.
           hex_blob_loop z n (i + 2) zBlob)))
      else Ret (i, zBlob))"
  by pat_completeness auto
termination
  by (relation "measure (\<lambda>(z, n, i, b). nat (n - i))") auto

text \<open>The block has \<open>n/2 + 1\<close> bytes, here with the contents \<open>junk\<close> it happens to have.\<close>

definition sqlite3HexToBlob :: "byte \<Rightarrow> byte list \<Rightarrow> int \<Rightarrow> heap \<Rightarrow> (byte list option \<times> heap) cres" where
  "sqlite3HexToBlob junk z n h =
     (let (ok, h) = c_alloc h
      in if \<not> ok then Ret (None, h)
         else cbind (hex_blob_loop z (n - 1) 0 (replicate (nat (n div 2 + 1)) junk)) (\<lambda>(i, zBlob).
              cbind (wr_bytes zBlob (i div 2) [0]) (\<lambda>zBlob. Ret (Some zBlob, h))))"

section \<open>Quoted names\<close>

function dequote_loop :: "byte \<Rightarrow> byte list \<Rightarrow> int \<Rightarrow> int \<Rightarrow> byte list cres" where
  "dequote_loop quote z i j =
     (if i < int (length z)
      then cbind (rd z i) (\<lambda>c.
        if c = quote
        then cbind (rd z (i + 1)) (\<lambda>d.
               if d = quote then cbind (wr_bytes z j [quote]) (\<lambda>z. dequote_loop quote z (i + 2) (j + 1))
               else wr_bytes z j [0])
        else cbind (wr_bytes z j [c]) (\<lambda>z. dequote_loop quote z (i + 1) (j + 1)))
      else Fault)"
  by pat_completeness auto
termination
  by (relation "measure (\<lambda>(q, z, i, j). nat (int (length z) - i))") (auto dest: wr_bytes_length)

definition sqlite3Dequote :: "byte list option \<Rightarrow> byte list option cres" where
  "sqlite3Dequote z = (case z of None \<Rightarrow> Ret None
     | Some z \<Rightarrow> cbind (rd z 0) (\<lambda>quote.
         if \<not> sqlite3Isquote quote then Ret (Some z)
         else cbind (dequote_loop (if quote = 91 then 93 else quote) z 1 0) (\<lambda>z. Ret (Some z))))"

section \<open>Logarithmic estimates\<close>

definition logest_add_table :: "int list" where
  "logest_add_table = [10, 10, 9, 9, 8, 8, 7, 7, 7, 6, 6, 6, 5, 5, 5, 4, 4, 4, 4, 3, 3, 3, 3, 3, 3, 2, 2, 2, 2, 2, 2, 2]"

definition i16 :: "int \<Rightarrow> int" where
  "i16 x = signed_take_bit 15 x"

definition sqlite3LogEstAdd :: "int \<Rightarrow> int \<Rightarrow> int cres" where
  "sqlite3LogEstAdd a b =
     (if a \<ge> b
      then if a > b + 49 then Ret a else if a > b + 31 then Ret (i16 (a + 1))
           else cbind (rd logest_add_table (a - b)) (\<lambda>x. Ret (i16 (a + x)))
      else if b > a + 49 then Ret b else if b > a + 31 then Ret (i16 (b + 1))
           else cbind (rd logest_add_table (b - a)) (\<lambda>x. Ret (i16 (b + x))))"

definition logest_table :: "int list" where
  "logest_table = [0, 2, 3, 5, 6, 7, 8, 9]"

fun logest_up :: "nat \<Rightarrow> u64 \<Rightarrow> int \<Rightarrow> (u64 \<times> int) cres" where
  "logest_up n x y =
     (if x < 8 then (case n of 0 \<Rightarrow> Diverge | Suc n \<Rightarrow> logest_up n (push_bit 1 x) (i16 (y - 10))) else Ret (x, y))"

fun logest_down :: "nat \<Rightarrow> nat \<Rightarrow> u64 \<Rightarrow> u64 \<Rightarrow> int \<Rightarrow> (u64 \<times> int) cres" where
  "logest_down n k bound x y =
     (if x > bound then (case n of 0 \<Rightarrow> Diverge
        | Suc n \<Rightarrow> logest_down n k bound (drop_bit k x) (i16 (y + 10 * int k))) else Ret (x, y))"

definition sqlite3LogEst :: "u64 \<Rightarrow> int cres" where
  "sqlite3LogEst x =
     (if x < 8
      then if x < 2 then Ret 0
           else cbind (logest_up 64 x 40) (\<lambda>(x, y). cbind (rd logest_table (uint (x AND 7))) (\<lambda>a. Ret (i16 (a + y - 10))))
      else cbind (logest_down 64 4 255 x 40) (\<lambda>(x, y).
           cbind (logest_down 64 1 15 x y) (\<lambda>(x, y).
           cbind (rd logest_table (uint (x AND 7))) (\<lambda>a. Ret (i16 (a + y - 10))))))"

section \<open>Arithmetic: exact or refused\<close>

definition in_i64 :: "int \<Rightarrow> bool" where
  "in_i64 x \<longleftrightarrow> - (2 ^ 63) \<le> x \<and> x < 2 ^ 63"

lemma i64_in: "in_i64 x \<Longrightarrow> i64 x = Ret x"
  by (simp add: i64_def in_i64_def)

lemma div_less_mult: "0 < b \<Longrightarrow> L div b < a \<longleftrightarrow> L < a * b" for a b L :: int
proof -
  assume b: "0 < b"
  have "a \<le> L div b \<longleftrightarrow> a * b \<le> L"
  proof
    assume "a \<le> L div b"
    then have "a * b \<le> L div b * b" using b by (intro mult_right_mono) auto
    also have "\<dots> \<le> L" using b pos_mod_sign [of b L] by (simp add: minus_mod_eq_div_mult [symmetric])
    finally show "a * b \<le> L" .
  next
    assume "a * b \<le> L"
    then have "a * b div b \<le> L div b" using b by (intro zdiv_mono1) auto
    then show "a \<le> L div b" using b by simp
  qed
  then show ?thesis by linarith
qed

lemma sdiv_pos: "0 \<le> a \<Longrightarrow> 0 < b \<Longrightarrow> a sdiv b = a div b" for a b :: int
  by (cases "a = 0") (auto simp: signed_divide_int_def sgn_if)

lemma sdiv_neg: "a < 0 \<Longrightarrow> 0 < b \<Longrightarrow> a sdiv b = - ((- a) div b)" for a b :: int
  by (auto simp: signed_divide_int_def sgn_if)

lemma add_int64:
  "in_i64 a \<Longrightarrow> in_i64 b \<Longrightarrow> sqlite3AddInt64 a b = Ret (if in_i64 (a + b) then (0, a + b) else (1, a))"
  by (auto simp: sqlite3AddInt64_def i64_def in_i64_def)

lemma sub_int64:
  "in_i64 a \<Longrightarrow> in_i64 b \<Longrightarrow> sqlite3SubInt64 a b = Ret (if in_i64 (a - b) then (0, a - b) else (1, a))"
proof (cases "b = - (2 ^ 63)")
  case True
  assume "in_i64 a"
  with True show ?thesis by (auto simp: sqlite3SubInt64_def i64_def in_i64_def)
next
  case False
  assume "in_i64 a" "in_i64 b"
  moreover from this False have "in_i64 (- b)" by (auto simp: in_i64_def)
  ultimately show ?thesis using False by (simp add: sqlite3SubInt64_def i64_in add_int64)
qed

lemma mul_overflow_pos:
  assumes "0 < b" "in_i64 a"
  shows "a > LARGEST_INT64 sdiv b \<or> a < SMALLEST_INT64 sdiv b \<longleftrightarrow> \<not> in_i64 (a * b)"
proof -
  have "LARGEST_INT64 sdiv b < a \<longleftrightarrow> LARGEST_INT64 < a * b"
    using assms by (simp add: sdiv_pos div_less_mult)
  moreover have "a < SMALLEST_INT64 sdiv b \<longleftrightarrow> a * b < SMALLEST_INT64"
  proof -
    have "a < SMALLEST_INT64 sdiv b \<longleftrightarrow> 2 ^ 63 div b < - a" using assms by (simp add: sdiv_pos) linarith
    also have "\<dots> \<longleftrightarrow> 2 ^ 63 < - a * b" using assms by (intro div_less_mult) simp
    finally show ?thesis by simp linarith
  qed
  ultimately show ?thesis by (auto simp: in_i64_def)
qed

lemma mul_int64:
  assumes "in_i64 a" "in_i64 b"
  shows "sqlite3MulInt64 a b = Ret (if in_i64 (a * b) then (0, a * b) else (1, a))"
proof -
  consider "0 < b" | "b < 0" "0 < a" | "b < 0" "a < 0" | "b = 0 \<or> b < 0 \<and> a = 0" by linarith
  then show ?thesis
  proof cases
    case 1
    then show ?thesis using mul_overflow_pos [OF 1 assms(1)] by (simp add: sqlite3MulInt64_def i64_in)
  next
    case 2
    have "a * b < 0" using 2 by (simp add: mult_pos_neg)
    then have "a * b < 2 ^ 63" by (rule less_trans) simp
    moreover have "b < SMALLEST_INT64 sdiv a \<longleftrightarrow> \<not> in_i64 (b * a)"
      using mul_overflow_pos [OF 2(2) assms(2)] 2 \<open>a * b < 2 ^ 63\<close>
      by (auto simp: in_i64_def sdiv_pos mult.commute dest: div_less_mult [THEN iffD1, rotated])
    ultimately show ?thesis using 2 by (simp add: sqlite3MulInt64_def i64_in mult.commute)
  next
    case 3
    show ?thesis
    proof (cases "a = - (2 ^ 63) \<or> b = - (2 ^ 63)")
      case True
      have "1 \<le> - a" "1 \<le> - b" using 3 by auto
      then have "- a \<le> (- a) * (- b)" "- b \<le> (- a) * (- b)"
        using mult_left_mono [of 1 "- b" "- a"] mult_right_mono [of 1 "- a" "- b"] by simp_all
      then have "\<not> in_i64 (a * b)" using True by (auto simp: in_i64_def)
      then show ?thesis using 3 True by (auto simp: sqlite3MulInt64_def)
    next
      case False
      then have i: "in_i64 (- a)" "in_i64 (- b)" using assms by (auto simp: in_i64_def)
      have p: "0 < a * b" using 3 by (simp add: mult_neg_neg)
      have "LARGEST_INT64 sdiv (- b) < - a \<longleftrightarrow> LARGEST_INT64 < - a * - b"
        using 3 div_less_mult [of "- b" LARGEST_INT64 "- a"] sdiv_pos [of LARGEST_INT64 "- b"] by (simp del: sdiv_minus_eq)
      then have "- a > LARGEST_INT64 sdiv (- b) \<longleftrightarrow> \<not> in_i64 (a * b)" using p by (auto simp: in_i64_def)
      then show ?thesis using 3 False i by (simp add: sqlite3MulInt64_def i64_in)
    qed
  next
    case 4
    then show ?thesis using assms by (auto simp: sqlite3MulInt64_def i64_def in_i64_def)
  qed
qed

text \<open>C21: The checked 64-bit operations of SQLite are exact: they return 0 and the mathematical sum,
  difference or product when it is a 64-bit integer, return 1 and leave the operand unchanged when it is not, and
  never overflow on the way; the absolute value of a 32-bit integer is exact but for the smallest one.\<close>

theorem int64_arith_exact:
  assumes "in_i64 a" "in_i64 b" "- (2 ^ 31) \<le> x" "x < 2 ^ 31"
  shows "sqlite3AddInt64 a b = Ret (if in_i64 (a + b) then (0, a + b) else (1, a)) \<and>
    sqlite3SubInt64 a b = Ret (if in_i64 (a - b) then (0, a - b) else (1, a)) \<and>
    sqlite3MulInt64 a b = Ret (if in_i64 (a * b) then (0, a * b) else (1, a)) \<and>
    sqlite3AbsInt32 x = Ret (min \<bar>x\<bar> 0x7fffffff)"
  using assms add_int64 sub_int64 mul_int64 by (auto simp: sqlite3AbsInt32_def int_add_def)

theorem int64_arith_exact_witness:
  "sqlite3AddInt64 (2 ^ 62) (2 ^ 62) = Ret (if in_i64 (2 ^ 62 + 2 ^ 62) then (0, 2 ^ 62 + 2 ^ 62) else (1, 2 ^ 62)) \<and>
    sqlite3SubInt64 (2 ^ 62) (2 ^ 62) = Ret (if in_i64 (2 ^ 62 - 2 ^ 62) then (0, 2 ^ 62 - 2 ^ 62) else (1, 2 ^ 62)) \<and>
    sqlite3MulInt64 (2 ^ 62) (2 ^ 62) = Ret (if in_i64 (2 ^ 62 * 2 ^ 62) then (0, 2 ^ 62 * 2 ^ 62) else (1, 2 ^ 62)) \<and>
    sqlite3AbsInt32 (- 7) = Ret (min \<bar>- 7\<bar> 0x7fffffff)"
  by (rule int64_arith_exact) (simp_all add: in_i64_def)

section \<open>Decimal numbers\<close>

definition isdig :: "byte \<Rightarrow> bool" where
  "isdig b \<longleftrightarrow> 48 \<le> sint b \<and> sint b \<le> 57"

definition dig :: "byte \<Rightarrow> int" where
  "dig b = sint b - 48"

text \<open>The number that follows \<open>v\<close> when the digits \<open>xs\<close> are appended to it.\<close>

definition dec_from :: "int \<Rightarrow> int list \<Rightarrow> int" where
  "dec_from v xs = foldl (\<lambda>v x. v * 10 + x) v xs"

lemma dec_from_simps [simp]: "dec_from v [] = v" "dec_from v (x # xs) = dec_from (v * 10 + x) xs"
  by (simp_all add: dec_from_def)

definition digits :: "int list \<Rightarrow> bool" where
  "digits xs \<longleftrightarrow> (\<forall>x \<in> set xs. 0 \<le> x \<and> x \<le> 9)"

lemma digits_simps [simp]: "digits []" "digits (x # xs) \<longleftrightarrow> 0 \<le> x \<and> x \<le> 9 \<and> digits xs"
  by (auto simp: digits_def)

lemma dec_from_bounds:
  "digits xs \<Longrightarrow> v * 10 ^ length xs \<le> dec_from v xs \<and> dec_from v xs < (v + 1) * 10 ^ length xs"
proof (induction xs arbitrary: v)
  case (Cons x xs)
  let ?p = "10 ^ length xs :: int"
  have "0 \<le> x * ?p" "x * ?p \<le> 9 * ?p" using Cons.prems by (auto intro!: mult_right_mono)
  moreover have "(v * 10 + x) * ?p \<le> dec_from (v * 10 + x) xs" "dec_from (v * 10 + x) xs < (v * 10 + x + 1) * ?p"
    using Cons.IH [of "v * 10 + x"] Cons.prems by auto
  ultimately have "10 * (v * ?p) \<le> dec_from (v * 10 + x) xs" "dec_from (v * 10 + x) xs < 10 * (v * ?p) + 10 * ?p"
    unfolding distrib_right by linarith+
  then show ?case by (simp add: algebra_simps)
qed simp

lemma dec_from_less:
  assumes "v < w" "digits xs" "digits ys" "length xs = length ys"
  shows "dec_from v xs < dec_from w ys"
proof -
  have "(v + 1) * 10 ^ length ys \<le> w * 10 ^ length ys" using assms(1) by (intro mult_right_mono) auto
  then show ?thesis 
    using dec_from_bounds [OF assms(2), of v] dec_from_bounds [OF assms(3), of w] unfolding assms(4) by linarith
qed

lemma dec_from_append: "dec_from v (xs @ ys) = dec_from (dec_from v xs) ys"
  by (simp add: dec_from_def)

lemma dec_zeros: "dec_from 0 (dropWhile (\<lambda>x. x = 0) xs) = dec_from 0 xs"
  by (induction xs) auto

section \<open>Text behind a moving pointer\<close>

text \<open>From \<open>p\<close> in steps of \<open>incr\<close>, and before \<open>zEnd\<close>, the characters are \<open>cs\<close>.\<close>

fun text_at :: "byte list \<Rightarrow> int \<Rightarrow> int \<Rightarrow> int \<Rightarrow> byte list \<Rightarrow> bool" where
  "text_at z zEnd incr p [] \<longleftrightarrow> zEnd \<le> p"
| "text_at z zEnd incr p (c # cs) \<longleftrightarrow> p < zEnd \<and> rd z p = Ret c \<and> text_at z zEnd incr (p + incr) cs"

lemma text_at_more: "text_at z zEnd incr p cs \<Longrightarrow> p < zEnd \<longleftrightarrow> cs \<noteq> []"
  by (cases cs) auto

lemma text_at_drop:
  "text_at z zEnd incr p cs \<Longrightarrow> n \<le> length cs \<Longrightarrow> text_at z zEnd incr (p + incr * int n) (drop n cs)"
proof (induction n arbitrary: p cs)
  case (Suc n)
  then obtain c cs' where "cs = c # cs'" by (cases cs) auto
  then show ?case using Suc.IH [of "p + incr" cs'] Suc.prems by (simp add: algebra_simps)
qed simp

declare skip_while.simps [simp del] digits_loop.simps [simp del] utf16_end.simps [simp del]

lemma skip_while_ok:
  "text_at z zEnd incr p cs \<Longrightarrow> 0 < incr \<Longrightarrow>
   skip_while P z zEnd incr p = Ret (p + incr * int (length (takeWhile P cs)))"
  by (induction cs arbitrary: p) (subst skip_while.simps, auto simp: algebra_simps)+

lemma dropWhile_drop: "dropWhile P xs = drop (length (takeWhile P xs)) xs"
  by (induction xs) auto

lemma skip_text:
  "text_at z zEnd incr p cs \<Longrightarrow> text_at z zEnd incr (p + incr * int (length (takeWhile P cs))) (dropWhile P cs)"
  unfolding dropWhile_drop by (rule text_at_drop) (simp_all add: length_takeWhile_le)

lemma digits_loop_ok:
  "text_at z zEnd incr (p + i) cs \<Longrightarrow> 0 < incr \<Longrightarrow>
   digits_loop z zEnd incr p i u =
     Ret (i + incr * int (length (takeWhile isdig cs)),
          foldl (\<lambda>u b. u * 10 + of_int (sint b) - 48) u (takeWhile isdig cs))"
proof (induction cs arbitrary: i u)
  case Nil
  then show ?case by (subst digits_loop.simps) simp
next
  case (Cons c cs)
  then show ?case by (subst digits_loop.simps [folded isdig_def]) (auto simp: algebra_simps)
qed

lemma uint_digits:
  "uint (foldl (\<lambda>u b. u * 10 + of_int (sint b) - 48) (of_int v :: u64) ds) = dec_from v (map dig ds) mod 2 ^ 64"
proof (induction ds arbitrary: v)
  case (Cons b ds)
  have "(of_int v :: u64) * 10 + of_int (sint b) - 48 = of_int (v * 10 + dig b)" by (simp add: dig_def)
  then show ?case using Cons [of "v * 10 + dig b"] by (simp only: foldl_Cons list.map dec_from_simps)
qed (simp add: uint_word_of_int)

section \<open>Comparison with 2^63\<close>

lemma compare_digits_ok:
  "text_at z zEnd incr (p + i * incr) (xs @ rest) \<Longrightarrow> length xs = length ds \<Longrightarrow>
   digits (map dig xs) \<Longrightarrow> digits (map (\<lambda>d. d - 48) ds) \<Longrightarrow>
   \<exists>c. compare_digits z p incr i ds = Ret c \<and>
     (c = 0 \<longrightarrow> map dig xs = map (\<lambda>d. d - 48) ds) \<and>
     (c < 0 \<longrightarrow> dec_from v (map dig xs) < dec_from v (map (\<lambda>d. d - 48) ds)) \<and>
     (c > 0 \<longrightarrow> dec_from v (map dig xs) > dec_from v (map (\<lambda>d. d - 48) ds))"
proof (induction ds arbitrary: xs i v)
  case (Cons d ds)
  then obtain x xs' where xs: "xs = x # xs'" by (cases xs) auto
  have rd: "rd z (p + i * incr) = Ret x" using Cons.prems(1) xs by simp
  note x = dig_def [of x]
  show ?case
  proof (cases "sint x = d")
    case True
    have "text_at z zEnd incr (p + (i + 1) * incr) (xs' @ rest)"
      using Cons.prems(1) xs by (simp add: algebra_simps)
    from Cons.IH [OF this, of "v * 10 + dig x"] show ?thesis
      using Cons.prems(2-4) xs rd True x by (simp add: Let_def)
  next
    case False
    have "sint x < d \<Longrightarrow> dec_from (v * 10 + dig x) (map dig xs') < dec_from (v * 10 + (d - 48)) (map (\<lambda>d. d - 48) ds)"
      using Cons.prems(2-4) xs x by (intro dec_from_less) auto
    moreover have "d < sint x \<Longrightarrow> dec_from (v * 10 + (d - 48)) (map (\<lambda>d. d - 48) ds) < dec_from (v * 10 + dig x) (map dig xs')"
      using Cons.prems(2-4) xs x by (intro dec_from_less) auto
    ultimately show ?thesis using xs rd False by (simp add: Let_def)
  qed
qed simp

lemma compare2pow63_ok:
  assumes t: "text_at z zEnd incr p xs" and len: "length xs = 19" and d: "digits (map dig xs)"
  shows "\<exists>c. compare2pow63 z p incr = Ret c \<and> sgn c = sgn (dec_from 0 (map dig xs) - 2 ^ 63)"
proof -
  obtain ys y where xs: "xs = ys @ [y]" "length ys = 18"
    using len by (cases xs rule: rev_cases) auto
  have p63: "dec_from 0 (map (\<lambda>d. d - 48) pow63) = 922337203685477580" by (simp add: pow63_def)
  have t0: "text_at z zEnd incr (p + 0 * incr) (ys @ [y])" using t xs by simp
  have dy: "digits (map dig ys)" "0 \<le> dig y" "dig y \<le> 9" using d xs by (auto simp: digits_def)
  obtain c where c: "compare_digits z p incr 0 pow63 = Ret c"
     "c = 0 \<longrightarrow> map dig ys = map (\<lambda>d. d - 48) pow63"
     "c < 0 \<longrightarrow> dec_from 0 (map dig ys) < dec_from 0 (map (\<lambda>d. d - 48) pow63)"
     "c > 0 \<longrightarrow> dec_from 0 (map dig ys) > dec_from 0 (map (\<lambda>d. d - 48) pow63)"
    using compare_digits_ok [OF t0 _ dy(1), of pow63 0] xs(2) by (auto simp: pow63_def)
  have v: "dec_from 0 (map dig xs) = dec_from 0 (map dig ys) * 10 + dig y" using xs by (simp add: dec_from_append)
  have y: "rd z (p + 18 * incr) = Ret y" using text_at_drop [OF t, of 18] xs by (simp add: mult.commute)
  show ?thesis
  proof (cases "c = 0")
    case True
    then have "dec_from 0 (map dig xs) - 2 ^ 63 = dig y - 8" using c(2) p63 v by simp
    then show ?thesis using c(1) True y by (simp add: compare2pow63_def dig_def)
  next
    case False
    then have "c < 0 \<and> dec_from 0 (map dig xs) - 2 ^ 63 < 0 \<or> c > 0 \<and> dec_from 0 (map dig xs) - 2 ^ 63 > 0"
      using c(3,4) p63 v dy by auto
    then show ?thesis using c(1) False by (auto simp: compare2pow63_def sgn_if)
  qed
qed

section \<open>What \<^verbatim>\<open>sqlite3Atoi64\<close> computes\<close>

text \<open>
  The characters of the text: in UTF-16 the low bytes of the units before the first one with a high byte,
  and whether there is such a unit.
\<close>

definition atoi_text :: "byte list \<Rightarrow> int \<Rightarrow> int \<Rightarrow> bool \<times> byte list" where
  "atoi_text z nBytes enc =
     (if enc = SQLITE_UTF8 then (False, take (nat nBytes) z)
      else let n = nat nBytes div 2;
               m = length (takeWhile (\<lambda>b. b = 0) (map (\<lambda>k. z ! (2 * k + nat (3 - enc))) [0..<n]))
           in (m < n, map (\<lambda>k. z ! (2 * k + nat (enc - 2))) [0..<m]))"

text \<open>Sign, digits and what follows the digits.\<close>

definition split_sign :: "byte list \<Rightarrow> bool \<times> byte list" where
  "split_sign cs = (case cs of [] \<Rightarrow> (False, [])
     | c # r \<Rightarrow> if c = 45 then (True, r) else if c = 43 then (False, r) else (False, cs))"

definition number_text :: "byte list \<Rightarrow> bool \<times> byte list \<times> byte list" where
  "number_text cs = (let (neg, r) = split_sign (dropWhile sqlite3Isspace cs)
     in (neg, takeWhile isdig r, dropWhile isdig r))"

definition number_value :: "bool \<Rightarrow> byte list \<Rightarrow> int" where
  "number_value neg ds = (if neg then - dec_from 0 (map dig ds) else dec_from 0 (map dig ds))"

definition atoi_code :: "bool \<Rightarrow> byte list \<Rightarrow> int" where
  "atoi_code nonNum cs = (case number_text cs of (neg, ds, rest) \<Rightarrow>
     if nonNum \<or> ds = [] \<or> rest \<noteq> [] then 1
     else if in_i64 (number_value neg ds) then 0
     else if number_value neg ds = 2 ^ 63 then 2 else 1)"

definition clamp64 :: "int \<Rightarrow> int" where
  "clamp64 x = max (- (2 ^ 63)) (min (2 ^ 63 - 1) x)"

text \<open>The number stored: the digits are accumulated in 64 bits without a sign.\<close>

definition atoi_stored :: "bool \<Rightarrow> byte list \<Rightarrow> int" where
  "atoi_stored neg ds = (let u = dec_from 0 (map dig ds) mod 2 ^ 64 in clamp64 (if neg then - u else u))"

lemma text_at_bytes:
  "0 \<le> p \<Longrightarrow> nat p \<le> n \<Longrightarrow> n \<le> length z \<Longrightarrow> text_at z (int n) 1 p (take (n - nat p) (drop (nat p) z))"
proof (induction "n - nat p" arbitrary: p)
  case (Suc k)
  have "nat p < length z" "nat (p + 1) = Suc (nat p)" using Suc by (simp_all add: nat_add_distrib)
  then have "take (n - nat p) (drop (nat p) z) = z ! nat p # take (n - nat (p + 1)) (drop (nat (p + 1)) z)"
    using Suc.hyps(2) by (metis Cons_nth_drop_Suc Suc_diff_Suc diff_Suc_Suc take_Suc_Cons zero_less_Suc zero_less_diff Suc_eq_plus1 diff_add_inverse2 diff_diff_left)
  moreover have "k = n - nat (p + 1)" "nat (p + 1) \<le> n"
    using Suc.hyps(2) \<open>nat (p + 1) = Suc (nat p)\<close> by auto
  ultimately show ?case using Suc by (auto simp: rd_def)
qed (auto simp: le_nat_iff)

lemma rd_nat: "n < length z \<Longrightarrow> rd z (int n) = Ret (z ! n)"
  by (simp add: rd_def)

text \<open>Every second byte.\<close>

lemma text_at_units:
  assumes "h < 2" "2 * n \<le> length z"
  shows "k \<le> m \<Longrightarrow> m \<le> n \<Longrightarrow>
    text_at z (int (2 * m + h)) 2 (int (2 * k + h)) (map (\<lambda>k. z ! (2 * k + h)) [k..<m])"
proof (induction "m - k" arbitrary: k)
  case (Suc d)
  then have "[k..<m] = k # [Suc k..<m]" by (simp add: upt_rec)
  moreover have "text_at z (int (2 * m + h)) 2 (int (2 * Suc k + h)) (map (\<lambda>k. z ! (2 * k + h)) [Suc k..<m])"
    using Suc by (intro Suc.hyps(1)) auto
  moreover have "int (2 * k + h) + 2 = int (2 * Suc k + h)" by simp
  moreover have "rd z (int (2 * k + h)) = Ret (z ! (2 * k + h))" using Suc assms by (intro rd_nat) linarith
  moreover have "int (2 * k + h) < int (2 * m + h)" using Suc.hyps(2) by simp
  ultimately show ?case by (simp only: list.map text_at.simps simp_thms)
qed simp

lemma utf16_end_ok:
  assumes "h < 2" "2 * n \<le> length z"
  shows "k \<le> n \<Longrightarrow> utf16_end z (int (2 * n)) (int (2 * k + h)) =
    Ret (int (2 * (k + length (takeWhile (\<lambda>b. b = 0) (map (\<lambda>k. z ! (2 * k + h)) [k..<n]))) + h))"
proof (induction "n - k" arbitrary: k)
  case 0
  then show ?case using assms by (subst utf16_end.simps) simp
next
  case (Suc d)
  then have u: "[k..<n] = k # [Suc k..<n]" by (simp add: upt_rec)
  have r: "rd z (int (2 * k + h)) = Ret (z ! (2 * k + h))" using Suc assms by (intro rd_nat) linarith
  have e: "int (2 * k + h) + 2 = int (2 * Suc k + h)" by simp
  have i: "utf16_end z (int (2 * n)) (int (2 * Suc k + h)) =
      Ret (int (2 * (Suc k + length (takeWhile (\<lambda>b. b = 0) (map (\<lambda>k. z ! (2 * k + h)) [Suc k..<n]))) + h))"
    using Suc by (intro Suc.hyps(1)) auto
  have lt: "int (2 * k + h) < int (2 * n)" using Suc assms by simp
  show ?case
    by (subst utf16_end.simps) (simp only: lt r e i u if_True cbind.simps list.map takeWhile.simps split: if_split, auto)
qed

lemma atoi_encoding_ok:
  assumes enc: "enc \<in> {1, 2, 3}" and n: "0 \<le> nBytes" "nBytes \<le> int (length z)" and even: "enc \<noteq> 1 \<Longrightarrow> even nBytes"
  shows "\<exists>incr zEnd p. atoi_encoding z nBytes enc = Ret (incr, fst (atoi_text z nBytes enc), zEnd, p) \<and>
    (incr = 1 \<or> incr = 2) \<and> text_at z zEnd incr p (snd (atoi_text z nBytes enc))"
proof (cases "enc = 1")
  case True
  have "text_at z nBytes 1 0 (take (nat nBytes) z)" using text_at_bytes [of 0 "nat nBytes" z] n by simp
  then show ?thesis using True by (simp add: atoi_encoding_def atoi_text_def)
next
  case False
  define k where "k = nat nBytes div 2"
  have k: "nBytes = 2 * int k" using even [OF False] n(1) by (auto simp: k_def elim!: evenE)
  let ?h = "nat (3 - enc)" and ?l = "nat (enc - 2)"
  have h: "?h < 2" "?l < 2" "int ?h = 3 - enc" "int ?l = enc - 2" and len: "2 * k \<le> length z" using enc False n k by auto
  let ?m = "length (takeWhile (\<lambda>b. b = 0) (map (\<lambda>i. z ! (2 * i + ?h)) [0..<k]))"
  have m: "?m \<le> k" using length_takeWhile_le [of "\<lambda>b. b = 0" "map (\<lambda>i. z ! (2 * i + ?h)) [0..<k]"] by simp
  have u: "utf16_end z nBytes (3 - enc) = Ret (int (2 * ?m + ?h))"
    using utf16_end_ok [OF h(1) len, of 0] h(3) k by simp
  have x: "int (2 * ?m + ?h) XOR 1 = int (2 * ?m + ?l)" "enc AND 1 = int ?l"
  proof -
    have "(2 * j) XOR 1 = 2 * j + 1" "(2 * j + 1) XOR 1 = 2 * j" for j :: int
      by (simp_all add: xor_one_eq)
    moreover have "enc = 2 \<or> enc = 3" using enc False by auto
    ultimately show "int (2 * ?m + ?h) XOR 1 = int (2 * ?m + ?l)" "enc AND 1 = int ?l" by auto
  qed
  have t: "text_at z (int (2 * ?m + ?l)) 2 (int ?l) (map (\<lambda>i. z ! (2 * i + ?l)) [0..<?m])"
    using text_at_units [OF h(2) len, of 0 ?m] m by simp
  have lt: "int (2 * ?m + ?h) < nBytes \<longleftrightarrow> ?m < k" using k h(1) m by auto
  have tx: "atoi_text z nBytes enc = (?m < k, map (\<lambda>i. z ! (2 * i + ?l)) [0..<?m])"
    using False unfolding atoi_text_def Let_def k_def by simp
  have "atoi_encoding z nBytes enc = Ret (2, ?m < k, int (2 * ?m + ?l), int ?l)"
    unfolding atoi_encoding_def u cbind.simps lt x using False by simp
  then show ?thesis using t tx by simp
qed

lemma atoi_sign_ok:
  "text_at z zEnd incr p cs \<Longrightarrow> \<exists>p'. atoi_sign z zEnd incr p = Ret (fst (split_sign cs), p') \<and>
     text_at z zEnd incr p' (snd (split_sign cs))"
  by (cases cs) (auto simp: atoi_sign_def split_sign_def)

lemma atoi_value_ok:
  assumes "uint u = d"
  shows "atoi_value neg u = Ret (clamp64 (if neg then - d else d))"
  using assms uint_ge_0 [of u] by (auto simp: atoi_value_def clamp64_def i64_def)

lemma isdig_digits: "digits (map dig (takeWhile isdig cs))"
  by (auto simp: digits_def dig_def isdig_def dest: set_takeWhileD)

lemma zero_dig: "isdig 48" "dig b = 0 \<longleftrightarrow> b = 48" "dig 48 = 0"
proof -
  have "sint (48 :: byte) = 48" by simp
  then show "isdig 48" by (simp add: isdig_def)
  have "dig b = 0 \<longleftrightarrow> sint b = sint (48 :: byte)" by (simp add: dig_def)
  then show "dig b = 0 \<longleftrightarrow> b = 48" using signed_word_eqI [of b 48] by auto
  show "dig 48 = 0" by (simp add: dig_def)
qed

lemma skip_zeros_split:
  defines "Z \<equiv> \<lambda>b :: byte. b = 48"
  shows "takeWhile isdig (dropWhile Z r) = dropWhile Z (takeWhile isdig r)"
    "dropWhile isdig (dropWhile Z r) = dropWhile isdig r"
    "dec_from 0 (map dig (takeWhile isdig (dropWhile Z r))) = dec_from 0 (map dig (takeWhile isdig r))"
    "takeWhile isdig (dropWhile Z r) = [] \<and> takeWhile Z r = [] \<longleftrightarrow> takeWhile isdig r = []"
  by (induction r) (auto simp: Z_def zero_dig)

lemma leading_digit:
  assumes "takeWhile isdig (dropWhile (\<lambda>b. b = 48) r) = c # ds"
  shows "1 \<le> dig c"
proof -
  have "dropWhile (\<lambda>b. b = 48) r \<noteq> []" using assms by (metis list.distinct(1) takeWhile.simps(1))
  then have "c \<noteq> 48" using hd_dropWhile [of "\<lambda>b. b = 48" r] assms by (cases "dropWhile (\<lambda>b. b = 48) r") (auto split: if_splits)
  moreover have "0 \<le> dig c" using isdig_digits [of "dropWhile (\<lambda>b. b = 48) r"] assms by simp
  ultimately show ?thesis using zero_dig(2) [of c] by linarith
qed

text \<open>The digits after the leading zeros decide: fewer than nineteen always fit, more never do.\<close>

lemma dec_bound: "digits xs \<Longrightarrow> 0 \<le> dec_from 0 xs" "digits xs \<Longrightarrow> dec_from 0 xs < 10 ^ length xs"
  using dec_from_bounds [of xs 0] by auto

lemma few_digits: "digits xs \<Longrightarrow> length xs < 19 \<Longrightarrow> dec_from 0 xs < 2 ^ 63"
proof -
  assume d: "digits xs" "length xs < 19"
  have "dec_from 0 xs < 10 ^ length xs" using d(1) by (rule dec_bound)
  also have "(10 :: int) ^ length xs \<le> 10 ^ 18" using d(2) by (intro power_increasing) auto
  also have "(10 :: int) ^ 18 < 2 ^ 63" by simp
  finally show ?thesis .
qed

lemma many_digits:
  assumes "digits (x # xs)" "1 \<le> x" "19 < length (x # xs)"
  shows "2 ^ 63 < dec_from 0 (x # xs)"
proof -
  have "(2 :: int) ^ 63 < 10 ^ 19" by simp
  also have "(10 :: int) ^ 19 \<le> 10 ^ length xs" using assms(3) by (intro power_increasing) auto
  also have "10 ^ length xs \<le> x * 10 ^ length xs" using assms(2) mult_right_mono [of 1 x "10 ^ length xs"] by simp
  also have "x * 10 ^ length xs \<le> dec_from x xs" using dec_from_bounds [of xs x] assms(1) by simp
  finally show ?thesis by simp
qed

lemma nineteen_digits: "digits xs \<Longrightarrow> length xs \<le> 19 \<Longrightarrow> dec_from 0 xs < 2 ^ 64"
proof -
  assume d: "digits xs" "length xs \<le> 19"
  have "dec_from 0 xs < 10 ^ length xs" using d(1) by (rule dec_bound)
  also have "(10 :: int) ^ length xs \<le> 10 ^ 19" using d(2) by (intro power_increasing) auto
  also have "(10 :: int) ^ 19 < 2 ^ 64" by simp
  finally show ?thesis .
qed

lemma sgn_cases:
  assumes "sgn c = sgn (x :: int)"
  shows "c < 0 \<longleftrightarrow> x < 0" "c > 0 \<longleftrightarrow> x > 0" "c = 0 \<longleftrightarrow> x = 0"
  using assms by (auto simp: sgn_if split: if_splits)

lemma atoi64_ok:
  assumes t: "text_at z zEnd incr p cs" and incr: "0 < incr" and enc: "atoi_encoding z nBytes enc = Ret (incr, nonNum, zEnd, p)"
    and nt: "number_text cs = (neg, ds, rest)"
  shows "sqlite3Atoi64 z nBytes enc = Ret (atoi_code nonNum cs, atoi_stored neg ds)"
proof -
  let ?Z = "\<lambda>b :: byte. b = 48"
  define cs1 where "cs1 = dropWhile sqlite3Isspace cs"
  obtain p1 where s1: "skip_while sqlite3Isspace z zEnd incr p = Ret p1" "text_at z zEnd incr p1 cs1"
    using skip_while_ok [OF t incr] skip_text [OF t] by (auto simp: cs1_def)
  obtain p2 r where s2: "atoi_sign z zEnd incr p1 = Ret (neg, p2)" "text_at z zEnd incr p2 r" "split_sign cs1 = (neg, r)"
    using atoi_sign_ok [OF s1(2)] nt by (cases "split_sign cs1") (auto simp: number_text_def cs1_def)
  have ds: "ds = takeWhile isdig r" "rest = dropWhile isdig r" using nt s2(3) by (auto simp: number_text_def cs1_def)
  define r' where "r' = dropWhile ?Z r"
  define ds' where "ds' = takeWhile isdig r'"
  let ?p3 = "p2 + incr * int (length (takeWhile ?Z r))" and ?i = "incr * int (length ds')"
  have s3: "skip_while ?Z z zEnd incr p2 = Ret ?p3" "text_at z zEnd incr ?p3 r'"
    using skip_while_ok [OF s2(2) incr] skip_text [OF s2(2)] by (auto simp: r'_def)
  note sp = skip_zeros_split [of r, folded r'_def ds'_def, folded ds'_def]
  have dig': "digits (map dig ds')" unfolding ds'_def by (rule isdig_digits)
  obtain u where s4: "digits_loop z zEnd incr ?p3 0 0 = Ret (?i, u)"
      "uint u = dec_from 0 (map dig ds') mod 2 ^ 64"
    using digits_loop_ok [of z zEnd incr ?p3 0 r' 0] s3(2) incr uint_digits [of 0 ds'] by (simp add: ds'_def)
  obtain v where v: "atoi_value neg u = Ret v" "v = clamp64 (if neg then - uint u else uint u)"
    using atoi_value_ok by blast
  have same: "dec_from 0 (map dig ds') = dec_from 0 (map dig ds)" using sp(3) ds(1) by (simp add: r'_def ds'_def)
  have t5: "text_at z zEnd incr (?p3 + ?i) rest"
    using skip_text [OF s3(2), of isdig] sp(2) ds(2) by (simp add: ds'_def r'_def)
  have e1: "?p3 + ?i < zEnd \<longleftrightarrow> rest \<noteq> []" using text_at_more [OF t5] .
  have e2: "?i = 0 \<and> p2 = ?p3 \<longleftrightarrow> ds = []" using sp(4) ds(1) incr by (auto simp: ds'_def r'_def)
  have e3: "?i > 19 * incr \<longleftrightarrow> length ds' > 19" "?i < 19 * incr \<longleftrightarrow> length ds' < 19"
    using incr by (simp_all add: mult.commute)
  let ?n = "dec_from 0 (map dig ds)"
  have n0: "0 \<le> ?n" using dec_bound(1) [OF dig'] same by simp
  have code: "sqlite3Atoi64 z nBytes enc =
     (if rest \<noteq> [] \<or> ds = [] \<or> length ds' > 19 \<or> nonNum then Ret (1, v)
      else if length ds' < 19 then Ret (0, v)
      else cbind (compare2pow63 z ?p3 incr) (\<lambda>c.
        if c < 0 then Ret (0, v) else if c > 0 then Ret (1, v) else Ret (if neg then 0 else 2, v)))"
    unfolding sqlite3Atoi64_def using enc s1(1) s2(1) s3(1) s4(1) v(1) e1 e2 e3 by simp
  have val: "v = atoi_stored neg ds"
    using v(2) s4(2) same by (simp add: atoi_stored_def Let_def)
  have "sqlite3Atoi64 z nBytes enc = Ret (atoi_code nonNum cs, v)"
  proof (cases "rest \<noteq> [] \<or> ds = [] \<or> nonNum")
    case True
    then show ?thesis using code nt by (auto simp: atoi_code_def)
  next
    case False
    then have ac: "atoi_code nonNum cs = (if in_i64 (number_value neg ds) then 0 else if number_value neg ds = 2 ^ 63 then 2 else 1)"
      using nt by (simp add: atoi_code_def)
    consider "length ds' < 19" | "length ds' > 19" | "length ds' = 19" by linarith
    then show ?thesis
    proof cases
      case 1
      then have "?n < 2 ^ 63" using few_digits [OF dig'] same by simp
      then have "in_i64 (number_value neg ds)" using n0 by (auto simp: number_value_def in_i64_def)
      then show ?thesis using code False 1 ac by simp
    next
      case 2
      then obtain c ds'' where c: "ds' = c # ds''" by (cases ds') auto
      then have "1 \<le> dig c" using leading_digit [of r c ds''] by (simp add: ds'_def r'_def)
      then have "2 ^ 63 < ?n" using many_digits [of "dig c" "map dig ds''"] 2 dig' same c by simp
      then have "\<not> in_i64 (number_value neg ds)" "number_value neg ds \<noteq> 2 ^ 63" by (auto simp: number_value_def in_i64_def)
      then show ?thesis using code False 2 ac by simp
    next
      case 3
      have "dropWhile isdig r' = []" using False sp(2) ds(2) by (metis r'_def)
      then have "r' = ds'" by (metis append_Nil2 ds'_def takeWhile_dropWhile_id)
      then obtain c where c: "compare2pow63 z ?p3 incr = Ret c" "sgn c = sgn (?n - 2 ^ 63)"
        using compare2pow63_ok [of z zEnd incr ?p3 ds'] s3(2) 3 dig' same by auto
      note sc = sgn_cases [OF c(2)]
      have "atoi_code nonNum cs = (if c < 0 then 0 else if c > 0 then 1 else if neg then 0 else 2)"
        unfolding ac using sc n0 by (auto simp: number_value_def in_i64_def)
      then show ?thesis using code False 3 c(1) by simp
    qed
  qed
  then show ?thesis using val by blast
qed

text \<open>As long as the digits denote a number below \<open>2\<^sup>64\<close> it is stored as it is or, when it does not fit, clamped.\<close>

lemma atoi_stored_clamped:
  assumes "dec_from 0 (map dig ds) < 2 ^ 64" "ds = takeWhile isdig r"
  shows "atoi_stored neg ds = clamp64 (number_value neg ds)"
proof -
  have "0 \<le> dec_from 0 (map dig ds)" unfolding assms(2) by (rule dec_bound(1) [OF isdig_digits])
  then show ?thesis using assms(1) by (simp add: atoi_stored_def number_value_def Let_def)
qed

text \<open>C20: \<^verbatim>\<open>sqlite3Atoi64\<close> on text in UTF-8, or in either UTF-16 with an even number of bytes, stays inside the
  text and classifies it exactly: 0 when it is white space, an optional sign and digits that denote a 64-bit integer;
  2 for 9223372036854775808; 1 for everything else. What it stores is fixed for every text: the number the digits
  denote modulo \<open>2\<^sup>64\<close>, with the sign, clamped to the 64-bit range. As long as the digits denote a number below \<open>2\<^sup>64\<close>,
  so in particular with code 0 or 2, this is the number itself, clamped, also when other text follows; of longer
  numbers, which have code 1, it is the wrapped one.\<close>

theorem atoi64_exact:
  assumes "enc \<in> {1, 2, 3}" "0 \<le> nBytes" "nBytes \<le> int (length z)" "enc \<noteq> 1 \<longrightarrow> even nBytes"
    and "atoi_text z nBytes enc = (nonNum, cs)" "number_text cs = (neg, ds, rest)"
  shows "sqlite3Atoi64 z nBytes enc = Ret (atoi_code nonNum cs, atoi_stored neg ds) \<and>
    (dec_from 0 (map dig ds) < 2 ^ 64 \<longrightarrow> atoi_stored neg ds = clamp64 (number_value neg ds))"
proof
  obtain incr zEnd p where e: "atoi_encoding z nBytes enc = Ret (incr, nonNum, zEnd, p)" "0 < incr" "text_at z zEnd incr p cs"
    using atoi_encoding_ok [of enc nBytes z] assms(1-5) by auto
  then show "sqlite3Atoi64 z nBytes enc = Ret (atoi_code nonNum cs, atoi_stored neg ds)"
    using atoi64_ok [OF e(3,2,1) assms(6)] by blast
  obtain r where "ds = takeWhile isdig r" using assms(6) by (auto simp: number_text_def split: prod.splits)
  then show "dec_from 0 (map dig ds) < 2 ^ 64 \<longrightarrow> atoi_stored neg ds = clamp64 (number_value neg ds)"
    using atoi_stored_clamped by blast
qed

text \<open>\<^verbatim>\<open>" -12"\<close> in UTF-16BE.\<close>

theorem atoi64_exact_witness:
  "sqlite3Atoi64 [0, 32, 0, 45, 0, 49, 0, 50] 8 3 = Ret (atoi_code False [32, 45, 49, 50], atoi_stored True [49, 50]) \<and>
   atoi_code False [32, 45, 49, 50] = 0 \<and> atoi_stored True [49, 50] = -12"
proof -
  have "atoi_text [0, 32, 0, 45, 0, 49, 0, 50] 8 3 = (False, [32, 45, 49, 50])" by code_simp
  moreover have "number_text [32, 45, 49, 50] = (True, [49, 50], [])" by code_simp
  moreover have "atoi_code False [32, 45, 49, 50] = 0" "atoi_stored True [49, 50] = -12" by code_simp+
  ultimately show ?thesis using atoi64_exact [of 3 8 "[0, 32, 0, 45, 0, 49, 0, 50]" False "[32, 45, 49, 50]" True "[49, 50]" "[]"] by simp
qed

text \<open>Twenty digits: \<open>2\<^sup>64 + 5\<close> is stored as 5.\<close>

lemma atoi64_wraps:
  "sqlite3Atoi64 [49, 56, 52, 52, 54, 55, 52, 52, 48, 55, 51, 55, 48, 57, 53, 53, 49, 54, 50, 49] 20 1 = Ret (1, 5)"
  by code_simp

text \<open>On UTF-16BE text with an odd number of bytes, whose last byte is zero, the end is rounded up and
  \<^verbatim>\<open>sqlite3Atoi64\<close> reads the byte behind the text.\<close>

theorem atoi64_odd_utf16be: "sqlite3Atoi64 [0] 1 3 = Fault"
  by code_simp

section \<open>Hexadecimal digits\<close>

lemma all_bytes: "list_all P (map of_nat [0..<256]) \<Longrightarrow> P (b :: byte)"
proof -
  assume "list_all P (map of_nat [0..<256])"
  moreover have "b \<in> set (map of_nat [0..<256])"
    using unsigned_less [of b, where 'a = nat] by (auto intro!: image_eqI [of _ _ "unat b"])
  ultimately show "P b" unfolding list_all_iff by blast
qed

definition hexval :: "byte \<Rightarrow> int" where
  "hexval b = (if 97 \<le> uint b then uint b - 87 else if 65 \<le> uint b then uint b - 55 else uint b - 48)"

lemma ctype_space: "sqlite3Isspace b \<longleftrightarrow> b = 32 \<or> 9 \<le> b \<and> b \<le> 13"
  by (rule all_bytes [of "\<lambda>b. sqlite3Isspace b \<longleftrightarrow> b = 32 \<or> 9 \<le> b \<and> b \<le> 13"]) code_simp

lemma ctype_quote: "sqlite3Isquote b \<longleftrightarrow> b = 34 \<or> b = 39 \<or> b = 91 \<or> b = 96"
  by (rule all_bytes [of "\<lambda>b. sqlite3Isquote b \<longleftrightarrow> b = 34 \<or> b = 39 \<or> b = 91 \<or> b = 96"]) code_simp

lemma ctype_xdigit:
  "sqlite3Isxdigit b \<longleftrightarrow> 48 \<le> uint b \<and> uint b \<le> 57 \<or> 65 \<le> uint b \<and> uint b \<le> 70 \<or> 97 \<le> uint b \<and> uint b \<le> 102"
  by (rule all_bytes [of "\<lambda>b. sqlite3Isxdigit b \<longleftrightarrow> 48 \<le> uint b \<and> uint b \<le> 57 \<or> 65 \<le> uint b \<and> uint b \<le> 70 \<or>
        97 \<le> uint b \<and> uint b \<le> 102"]) code_simp

lemma hex_to_int: "sqlite3Isxdigit b \<Longrightarrow> sqlite3HexToInt (sint b) = of_int (hexval b)"
  by (rule all_bytes [of "\<lambda>b. sqlite3Isxdigit b \<longrightarrow> sqlite3HexToInt (sint b) = of_int (hexval b)", rule_format]) code_simp

lemma hexval_range: "sqlite3Isxdigit b \<Longrightarrow> 0 \<le> hexval b \<and> hexval b < 16"
  by (auto simp: ctype_xdigit hexval_def)

lemma hexval_zero: "sqlite3Isxdigit b \<Longrightarrow> hexval b = 0 \<longleftrightarrow> b = 48"
  by (rule all_bytes [of "\<lambda>b. sqlite3Isxdigit b \<longrightarrow> hexval b = 0 \<longleftrightarrow> b = 48", rule_format]) code_simp

lemma xdigit_zero: "sqlite3Isxdigit 48" "\<not> sqlite3Isxdigit 0" "hexval 48 = 0"
  by (simp_all add: ctype_xdigit hexval_def)

definition hex_from :: "int \<Rightarrow> byte list \<Rightarrow> int" where
  "hex_from v bs = foldl (\<lambda>v b. v * 16 + hexval b) v bs"

lemma hex_from_simps [simp]: "hex_from v [] = v" "hex_from v (b # bs) = hex_from (v * 16 + hexval b) bs"
  by (simp_all add: hex_from_def)

lemma hex_from_bounds:
  "\<forall>b \<in> set bs. sqlite3Isxdigit b \<Longrightarrow> v * 16 ^ length bs \<le> hex_from v bs \<and> hex_from v bs < (v + 1) * 16 ^ length bs"
proof (induction bs arbitrary: v)
  case (Cons b bs)
  let ?p = "16 ^ length bs :: int"
  have "0 \<le> hexval b * ?p" "hexval b * ?p \<le> 15 * ?p"
    using hexval_range [of b] Cons.prems by (auto intro!: mult_right_mono)
  moreover have "(v * 16 + hexval b) * ?p \<le> hex_from (v * 16 + hexval b) bs"
      "hex_from (v * 16 + hexval b) bs < (v * 16 + hexval b + 1) * ?p"
    using Cons.IH [of "v * 16 + hexval b"] Cons.prems by auto
  ultimately have "16 * (v * ?p) \<le> hex_from (v * 16 + hexval b) bs" "hex_from (v * 16 + hexval b) bs < 16 * (v * ?p) + 16 * ?p"
    unfolding distrib_right by linarith+
  then show ?case by (simp add: algebra_simps)
qed simp

lemma skip_zeros_ok: "zstr z \<Longrightarrow> skip_zeros z = Ret (dropWhile (\<lambda>b. b = 48) z)"
  by (induction z) (auto simp: zstr_def)

lemma zstr_drop_zeros: "zstr z \<Longrightarrow> zstr (dropWhile (\<lambda>b. b = 48) z)"
  by (induction z) (auto simp: zstr_def)

text \<open>The hexadecimal digits of a string, and what ends them.\<close>

lemma hex_loop_ok:
  "zstr z \<Longrightarrow> hex_loop z k (of_int v) =
     Ret (k + int (length (takeWhile sqlite3Isxdigit z)), of_int (hex_from v (takeWhile sqlite3Isxdigit z)),
          hd (dropWhile sqlite3Isxdigit z))"
proof (induction z arbitrary: k v)
  case (Cons b z)
  show ?case
  proof (cases "sqlite3Isxdigit b")
    case True
    then have z: "zstr z" using Cons.prems xdigit_zero(2) by (auto simp: zstr_def)
    have "ucast (sqlite3HexToInt (sint b)) = (of_int (hexval b) :: u64)"
      using True hexval_range [OF True] by (simp add: hex_to_int unsigned_of_int ucast_eq take_bit_int_eq_self)
    then have "(of_int v :: u64) * 16 + ucast (sqlite3HexToInt (sint b)) = of_int (v * 16 + hexval b)" by simp
    then show ?thesis using Cons.IH [OF z, of "k + 1" "v * 16 + hexval b"] True by simp
  qed simp
qed (simp add: zstr_def)

lemma hex_zeros_split:
  defines "Z \<equiv> \<lambda>b :: byte. b = 48"
  shows "hex_from 0 (takeWhile sqlite3Isxdigit (dropWhile Z r)) = hex_from 0 (takeWhile sqlite3Isxdigit r)"
    "dropWhile sqlite3Isxdigit (dropWhile Z r) = dropWhile sqlite3Isxdigit r"
  by (induction r) (auto simp: Z_def xdigit_zero)

lemma hex_leading:
  assumes "takeWhile sqlite3Isxdigit (dropWhile (\<lambda>b. b = 48) r) = c # hs"
  shows "16 ^ length hs \<le> hex_from 0 (c # hs)"
proof -
  have x: "\<forall>b \<in> set (c # hs). sqlite3Isxdigit b" using assms by (metis set_takeWhileD)
  have "dropWhile (\<lambda>b. b = 48) r \<noteq> []" using assms by (metis list.distinct(1) takeWhile.simps(1))
  then have "c \<noteq> 48" using hd_dropWhile [of "\<lambda>b. b = 48" r] assms by (cases "dropWhile (\<lambda>b. b = 48) r") (auto split: if_splits)
  then have "1 \<le> hexval c" using hexval_zero [of c] hexval_range [of c] x by auto
  then have "16 ^ length hs \<le> hexval c * 16 ^ length hs" using mult_right_mono [of 1 "hexval c" "16 ^ length hs"] by simp
  also have "\<dots> \<le> hex_from (hexval c) hs" using hex_from_bounds [of hs "hexval c"] x by auto
  finally show ?thesis by simp
qed

text \<open>How many significant digits there are tells how large the number is.\<close>

lemma hex_size:
  "length (takeWhile sqlite3Isxdigit (dropWhile (\<lambda>b. b = 48) r)) \<le> n \<longleftrightarrow>
   hex_from 0 (takeWhile sqlite3Isxdigit r) < 16 ^ n"
proof -
  let ?hs = "takeWhile sqlite3Isxdigit (dropWhile (\<lambda>b. b = 48) r)"
  have x: "\<forall>b \<in> set ?hs. sqlite3Isxdigit b" by (auto dest: set_takeWhileD)
  have "length ?hs \<le> n \<longleftrightarrow> hex_from 0 ?hs < 16 ^ n"
  proof
    assume n: "length ?hs \<le> n"
    have "hex_from 0 ?hs < 16 ^ length ?hs" using hex_from_bounds [OF x, of 0] by simp
    also have "\<dots> \<le> 16 ^ n" using n by (intro power_increasing) auto
    finally show "hex_from 0 ?hs < 16 ^ n" .
  next
    assume n: "hex_from 0 ?hs < 16 ^ n"
    show "length ?hs \<le> n"
    proof (cases ?hs)
      case (Cons c hs)
      have "(16 :: int) ^ length hs < 16 ^ n" using hex_leading [OF Cons] n unfolding Cons by (rule le_less_trans)
      then have "length hs < n" by (rule power_less_imp_less_exp [rotated]) simp
      then show ?thesis using Cons by simp
    qed simp
  qed
  then show ?thesis by (simp only: hex_zeros_split(1))
qed

lemma hex_nonneg: "0 \<le> hex_from 0 (takeWhile sqlite3Isxdigit r)"
  using hex_from_bounds [of "takeWhile sqlite3Isxdigit r" 0] by (auto dest: set_takeWhileD)

section \<open>Integer literals\<close>

definition hex_literal :: "byte list \<Rightarrow> bool" where
  "hex_literal z \<longleftrightarrow> (\<exists>x r. z = 48 # x # r \<and> (x = 120 \<or> x = 88))"

lemma hex_test:
  assumes "zstr z"
  shows "cbind (rd z 0) (\<lambda>z0. cbind (if z0 = 48 then cbind (rd z 1) (\<lambda>z1. Ret (z1 = 120 \<or> z1 = 88)) else Ret False) f) =
    f (hex_literal z)"
proof -
  obtain a r where z: "z = a # r" using assms by (cases z) (auto simp: zstr_def)
  show ?thesis
  proof (cases "a = 48")
    case True
    then obtain b r' where "r = b # r'" using assms z by (cases r) (auto simp: zstr_def)
    then show ?thesis using z True by (auto simp: hex_literal_def rd_def)
  qed (use z in \<open>auto simp: hex_literal_def\<close>)
qed

lemma zstr_drop2: "zstr z \<Longrightarrow> hex_literal z \<Longrightarrow> zstr (drop 2 z)"
  by (auto simp: zstr_def hex_literal_def)

lemma strlen30_ok:
  assumes "zstr z" "length z < 2 ^ 30"
  shows "sqlite3Strlen30 (Some z) = Ret (int (length (takeWhile (\<lambda>b. b \<noteq> 0) z)))"
proof -
  let ?n = "int (length (takeWhile (\<lambda>b. b \<noteq> 0) z))"
  have "length (takeWhile (\<lambda>b. b \<noteq> 0) z) < 2 ^ 30"
    using length_takeWhile_le [of "\<lambda>b. b \<noteq> 0" z] assms(2) by (rule le_less_trans)
  then have "?n < 2 ^ 30" by simp
  moreover have "0x3fffffff AND ?n = take_bit 30 ?n" by (simp add: take_bit_eq_mask mask_eq_exp_minus_1 and.commute)
  ultimately show ?thesis using assms(1) by (simp add: sqlite3Strlen30_def c_int_id take_bit_int_eq_self)
qed

text \<open>C34: \<^verbatim>\<open>sqlite3DecOrHexToI64\<close> reads a hexadecimal literal as the 64-bit pattern its digits denote,
  whatever number of leading zeros it has, and accepts it exactly when nothing follows the digits and they fit 64 bits; any
  other text it reads as \<^verbatim>\<open>sqlite3Atoi64\<close> does.\<close>

theorem literal_exact:
  assumes "zstr z" "length z < 2 ^ 30"
  shows "sqlite3DecOrHexToI64 z =
    (if hex_literal z
     then let hs = takeWhile sqlite3Isxdigit (drop 2 z)
       in Ret (if hd (dropWhile sqlite3Isxdigit (drop 2 z)) = 0 \<and> hex_from 0 hs < 2 ^ 64 then 0 else 1,
               signed_take_bit 63 (hex_from 0 hs))
     else sqlite3Atoi64 z (int (length (takeWhile (\<lambda>b. b \<noteq> 0) z))) 1)"
proof (cases "hex_literal z")
  case True
  let ?r = "dropWhile (\<lambda>b. b = 48) (drop 2 z)"
  note z2 = zstr_drop2 [OF assms(1) True]
  have l: "length (takeWhile sqlite3Isxdigit ?r) \<le> 16 \<longleftrightarrow> hex_from 0 (takeWhile sqlite3Isxdigit (drop 2 z)) < 2 ^ 64"
    using hex_size [of "drop 2 z" 16] by simp
  have h: "hex_loop ?r 0 0 = Ret (int (length (takeWhile sqlite3Isxdigit ?r)),
      of_int (hex_from 0 (takeWhile sqlite3Isxdigit (drop 2 z))), hd (dropWhile sqlite3Isxdigit (drop 2 z)))"
    using hex_loop_ok [OF zstr_drop_zeros [OF z2], of 0 0] by (simp add: hex_zeros_split)
  have "sint (of_int v :: u64) = signed_take_bit 63 v" for v by (simp add: signed_of_int)
  then show ?thesis using True l
    unfolding sqlite3DecOrHexToI64_def hex_test [OF assms(1)] by (simp add: skip_zeros_ok [OF z2] h Let_def)
next
  case False
  then show ?thesis unfolding sqlite3DecOrHexToI64_def hex_test [OF assms(1)] by (simp add: strlen30_ok [OF assms])
qed

definition sample_literal :: "byte list" where
  "sample_literal = [48, 120, 48, 102, 70, 0]"

theorem literal_exact_witness:
  "sqlite3DecOrHexToI64 sample_literal =
    (if hex_literal sample_literal
     then let hs = takeWhile sqlite3Isxdigit (drop 2 sample_literal)
       in Ret (if hd (dropWhile sqlite3Isxdigit (drop 2 sample_literal)) = 0 \<and> hex_from 0 hs < 2 ^ 64 then 0 else 1,
               signed_take_bit 63 (hex_from 0 hs))
     else sqlite3Atoi64 sample_literal (int (length (takeWhile (\<lambda>b. b \<noteq> 0) sample_literal))) 1)"
  by (rule literal_exact) (simp_all add: sample_literal_def zstr_def)

section \<open>32-bit integers\<close>

declare int32_loop.simps [simp del] hex_blob_loop.simps [simp del] dequote_loop.simps [simp del]

lemma zero_not_dig: "\<not> isdig 0"
  by (simp add: isdig_def)

lemma int32_loop_ok:
  "zstr z \<Longrightarrow> i \<le> 11 \<Longrightarrow> int32_loop z i v =
     Ret (i + int (length (take (nat (11 - i)) (takeWhile isdig z))),
          dec_from v (map dig (take (nat (11 - i)) (takeWhile isdig z))))"
proof (induction z arbitrary: i v)
  case (Cons b z)
  have step: "int32_loop (b # z) i v = (if i < 11 then
      if isdig b then int32_loop z (i + 1) (v * 10 + dig b) else Ret (i, v) else Ret (i, v))"
    by (subst int32_loop.simps) (simp add: isdig_def dig_def)
  show ?case
  proof (cases "isdig b \<and> i < 11")
    case True
    then have z: "zstr z" using Cons.prems zero_not_dig by (auto simp: zstr_def)
    have n: "nat (11 - i) = Suc (nat (11 - (i + 1)))" using True by linarith
    show ?thesis using Cons.IH [OF z, of "i + 1" "v * 10 + dig b"] True step unfolding n by simp
  qed (use step Cons.prems in auto)
qed (simp add: zstr_def)

definition in_i32 :: "int \<Rightarrow> bool" where
  "in_i32 x \<longleftrightarrow> - (2 ^ 31) \<le> x \<and> x < 2 ^ 31"

lemma eleven_digits:
  assumes "digits (x # xs)" "1 \<le> x" "10 < length (x # xs)"
  shows "2 ^ 31 < dec_from 0 (x # xs)"
proof -
  have "(2 :: int) ^ 31 < 10 ^ 10" by simp
  also have "(10 :: int) ^ 10 \<le> 10 ^ length xs" using assms(3) by (intro power_increasing) auto
  also have "10 ^ length xs \<le> x * 10 ^ length xs" using assms(2) mult_right_mono [of 1 x "10 ^ length xs"] by simp
  also have "x * 10 ^ length xs \<le> dec_from x xs" using dec_from_bounds [of xs x] assms(1) by simp
  finally show ?thesis by simp
qed

lemma getint32_dec_ok:
  assumes "zstr z"
  shows "getint32_dec neg z =
    Ret (let v = number_value neg (takeWhile isdig z) in if in_i32 v then Some v else None)"
proof -
  let ?r = "dropWhile (\<lambda>b. b = 48) z"
  define ds where "ds = takeWhile isdig ?r"
  have dg: "digits (map dig ds)" unfolding ds_def by (rule isdig_digits)
  have v: "dec_from 0 (map dig ds) = dec_from 0 (map dig (takeWhile isdig z))"
    unfolding ds_def by (rule skip_zeros_split)
  have n0: "0 \<le> dec_from 0 (map dig ds)" by (rule dec_bound [OF dg])
  have l: "int32_loop ?r 0 0 = Ret (int (length (take 11 ds)), dec_from 0 (map dig (take 11 ds)))"
    using int32_loop_ok [OF zstr_drop_zeros [OF assms], of 0 0] by (simp add: ds_def)
  show ?thesis
  proof (cases "length ds > 10")
    case True
    then obtain c ds' where c: "ds = c # ds'" by (cases ds) auto
    then have "1 \<le> dig c" using leading_digit [of z c ds'] by (simp add: ds_def)
    then have "2 ^ 31 < dec_from 0 (map dig ds)" using eleven_digits [of "dig c" "map dig ds'"] True dg c by simp
    then have "\<not> in_i32 (number_value neg (takeWhile isdig z))" using v by (auto simp: number_value_def in_i32_def)
    then show ?thesis using True l by (simp add: getint32_dec_def skip_zeros_ok [OF assms] Let_def)
  next
    case False
    then have t: "take 11 ds = ds" by simp
    have "in_i32 x \<Longrightarrow> c_int x = x" for x by (simp add: in_i32_def c_int_id)
    then show ?thesis using False l n0 unfolding t v
      by (auto simp: getint32_dec_def skip_zeros_ok [OF assms] Let_def number_value_def in_i32_def c_int_id)
  qed
qed

lemma hex32_loop_ok:
  "zstr z \<Longrightarrow> 0 \<le> i \<Longrightarrow> i \<le> 8 \<Longrightarrow> hex32_loop z i (of_int v) =
     (let hs = takeWhile sqlite3Isxdigit z; n = nat (8 - i)
      in Ret (of_int (hex_from v (take n hs)), z ! length (take n hs)))"
proof (induction z arbitrary: i v)
  case (Cons b z)
  show ?case
  proof (cases "sqlite3Isxdigit b \<and> i < 8")
    case True
    then have z: "zstr z" using Cons.prems xdigit_zero(2) by (auto simp: zstr_def)
    have "ucast (sqlite3HexToInt (sint b)) = (of_int (hexval b) :: u32)"
      using True hexval_range [of b] by (simp add: hex_to_int unsigned_of_int ucast_eq take_bit_int_eq_self)
    then have s: "(of_int v :: u32) * 16 + ucast (sqlite3HexToInt (sint b)) = of_int (v * 16 + hexval b)" by simp
    have n: "nat (8 - i) = Suc (nat (8 - (i + 1)))" using True by linarith
    show ?thesis using Cons.IH [OF z, of "i + 1" "v * 16 + hexval b"] True Cons.prems s unfolding n by (simp add: Let_def)
  qed (use Cons.prems in \<open>auto simp: Let_def\<close>)
qed (simp add: zstr_def)

lemma top_bit: "bit (u :: u32) 31 \<longleftrightarrow> 2 ^ 31 \<le> uint u"
proof -
  have lt: "0 \<le> uint u" "uint u < 2 ^ 32" using uint_lt2p [of u] by simp_all
  have "uint u div 2 ^ 31 = (if 2 ^ 31 \<le> uint u then 1 else 0)"
    using lt int_div_pos_eq [of "uint u" "2 ^ 31" 1 "uint u - 2 ^ 31"] by (simp add: div_pos_pos_trivial)
  then have "bit (uint u) 31 \<longleftrightarrow> 2 ^ 31 \<le> uint u" unfolding bit_iff_odd by simp
  then show ?thesis by (simp add: bit_uint_iff)
qed

lemma getint32_hex_ok:
  assumes "zstr z"
  shows "getint32_hex z =
    Ret (let v = hex_from 0 (takeWhile sqlite3Isxdigit z) in if in_i32 v then Some v else None)"
proof -
  let ?r = "dropWhile (\<lambda>b. b = 48) z"
  define hs where "hs = takeWhile sqlite3Isxdigit ?r"
  have v: "hex_from 0 hs = hex_from 0 (takeWhile sqlite3Isxdigit z)" unfolding hs_def by (rule hex_zeros_split)
  have n0: "0 \<le> hex_from 0 hs" unfolding hs_def by (rule hex_nonneg)
  note zr = zstr_drop_zeros [OF assms]
  have l: "hex32_loop ?r 0 0 = Ret (of_int (hex_from 0 (take 8 hs)), ?r ! length (take 8 hs))"
    using hex32_loop_ok [OF zr, of 0 0] by (simp add: hs_def Let_def)
  have ends: "sqlite3Isxdigit (?r ! length (take 8 hs)) \<longleftrightarrow> 8 < length hs"
  proof (cases "8 < length hs")
    case True
    have "hs ! 8 \<in> set hs" using True by (rule nth_mem)
    then have "sqlite3Isxdigit (hs ! 8)" unfolding hs_def by (rule set_takeWhileD [THEN conjunct2])
    moreover have "?r ! 8 = hs ! 8" using True unfolding hs_def by (simp add: takeWhile_nth)
    ultimately show ?thesis using True by simp
  next
    case False
    have "length hs < length ?r" using zr xdigit_zero(2) unfolding hs_def zstr_def
      by (metis length_takeWhile_le nat_less_le set_takeWhileD takeWhile_eq_take take_all order_refl)
    then have "\<not> sqlite3Isxdigit (?r ! length hs)" unfolding hs_def by (rule nth_length_takeWhile)
    then show ?thesis using False by simp
  qed
  show ?thesis
  proof (cases "8 < length hs")
    case True
    then have "\<not> hex_from 0 hs < 16 ^ 8" using hex_size [of z 8] by (simp add: hs_def hex_zeros_split)
    then have "\<not> in_i32 (hex_from 0 hs)" by (simp add: in_i32_def)
    then show ?thesis using l ends True v by (simp add: getint32_hex_def skip_zeros_ok [OF assms] Let_def)
  next
    case False
    then have lt: "hex_from 0 hs < 2 ^ 32" using hex_size [of z 8] by (simp add: hs_def hex_zeros_split)
    let ?u = "of_int (hex_from 0 hs) :: u32"
    have u: "uint ?u = hex_from 0 hs" using lt n0 by (simp add: take_bit_int_eq_self unsigned_of_int)
    have "?u AND 0x80000000 = 0 \<longleftrightarrow> \<not> bit ?u 31" using and_exp_eq_0_iff_not_bit [of ?u 31] by simp
    also have "bit ?u 31 \<longleftrightarrow> 2 ^ 31 \<le> uint ?u" by (rule top_bit)
    finally have "?u AND 0x80000000 = 0 \<longleftrightarrow> in_i32 (hex_from 0 hs)" using u n0 by (auto simp: in_i32_def)
    moreover have "in_i32 (hex_from 0 hs) \<Longrightarrow> sint ?u = hex_from 0 hs"
      using n0 by (simp add: in_i32_def signed_of_int signed_take_bit_int_eq_self)
    ultimately show ?thesis using l ends False v
      by (auto simp: getint32_hex_def skip_zeros_ok [OF assms] Let_def)
  qed
qed

definition hex_int32 :: "byte list \<Rightarrow> bool" where
  "hex_int32 z \<longleftrightarrow> (\<exists>x h r. z = 48 # x # h # r \<and> (x = 120 \<or> x = 88) \<and> sqlite3Isxdigit h)"

definition int32_ref :: "byte list \<Rightarrow> int" where
  "int32_ref z = (if hex_int32 z then hex_from 0 (takeWhile sqlite3Isxdigit (drop 2 z))
     else let (neg, r) = split_sign z in number_value neg (takeWhile isdig r))"

text \<open>\<^verbatim>\<open>sqlite3GetInt32\<close> on a string returns the integer written at its start, in hexadecimal or as an
  optional sign and decimal digits, exactly when it is a 32-bit integer; otherwise it returns nothing. A string that does not
  start with a number gives 0. \<^verbatim>\<open>sqlite3Atoi\<close> returns the same integer, and 0 when there is none.\<close>

theorem getint32_exact:
  assumes "zstr z"
  shows "sqlite3GetInt32 z = Ret (if in_i32 (int32_ref z) then Some (int32_ref z) else None) \<and>
    sqlite3Atoi (Some z) = Ret (if in_i32 (int32_ref z) then int32_ref z else 0)"
proof -
  obtain a r where z: "z = a # r" using assms by (cases z) (auto simp: zstr_def)
  have zr: "a \<noteq> 0 \<Longrightarrow> zstr r" using assms z by (auto simp: zstr_def)
  have "sqlite3GetInt32 z = Ret (if in_i32 (int32_ref z) then Some (int32_ref z) else None)"
  proof (cases "a = 45 \<or> a = 43")
    case True
    then have "\<not> hex_int32 z" using z by (auto simp: hex_int32_def)
    then show ?thesis using True z zr
      by (auto simp: sqlite3GetInt32_def getint32_dec_ok int32_ref_def split_sign_def Let_def)
  next
    case F1: False
    have dec: "\<not> hex_int32 z \<Longrightarrow> getint32_dec False z = Ret (if in_i32 (int32_ref z) then Some (int32_ref z) else None)"
      using F1 z assms by (simp add: getint32_dec_ok int32_ref_def split_sign_def Let_def)
    show ?thesis
    proof (cases "hex_literal z")
      case True
      then obtain x r' where r: "a = 48" "r = x # r'" "x = 120 \<or> x = 88" using z by (auto simp: hex_literal_def)
      have zr': "zstr r'" using assms z r by (auto simp: zstr_def)
      then obtain h r'' where r': "r' = h # r''" by (cases r') (auto simp: zstr_def)
      have "hex_int32 z \<longleftrightarrow> sqlite3Isxdigit h" using z r r' by (auto simp: hex_int32_def)
      moreover have "rd z 1 = Ret x" "rd z 2 = Ret h" using z r r' by (simp_all add: rd_def)
      moreover have "drop 2 z = r'" using z r by simp
      ultimately show ?thesis using z r dec zr' F1
        by (auto simp: sqlite3GetInt32_def getint32_hex_ok int32_ref_def Let_def)
    next
      case False
      then have n: "\<not> hex_int32 z" by (auto simp: hex_int32_def hex_literal_def)
      show ?thesis
      proof (cases "a = 48")
        case True
        then obtain x r' where r: "r = x # r'" using zr by (cases r) (auto simp: zstr_def)
        then show ?thesis using False True z dec [OF n] F1 by (auto simp: sqlite3GetInt32_def hex_literal_def rd_def)
      qed (use z dec [OF n] F1 in \<open>auto simp: sqlite3GetInt32_def\<close>)
    qed
  qed
  then show ?thesis by (simp add: sqlite3Atoi_def)
qed

text \<open>\<^verbatim>\<open>"-0012z"\<close>\<close>

theorem getint32_exact_witness:
  "sqlite3GetInt32 [45, 48, 48, 49, 50, 122, 0] =
     Ret (if in_i32 (int32_ref [45, 48, 48, 49, 50, 122, 0]) then Some (int32_ref [45, 48, 48, 49, 50, 122, 0]) else None) \<and>
    sqlite3Atoi (Some [45, 48, 48, 49, 50, 122, 0]) =
     Ret (if in_i32 (int32_ref [45, 48, 48, 49, 50, 122, 0]) then int32_ref [45, 48, 48, 49, 50, 122, 0] else 0)"
  by (rule getint32_exact) (simp add: zstr_def)

section \<open>Blob literals\<close>

fun unhex :: "byte list \<Rightarrow> byte list" where
  "unhex (a # b # r) = of_int (hexval a * 16 + hexval b) # unhex r"
| "unhex _ = []"

definition hexchar :: "int \<Rightarrow> byte" where
  "hexchar v = of_int (if v < 10 then 48 + v else 87 + v)"

definition hex2 :: "byte \<Rightarrow> byte list" where
  "hex2 b = [hexchar (uint b div 16), hexchar (uint b mod 16)]"

lemma nibble_join:
  assumes "0 \<le> a" "a < 16" "0 \<le> b" "b < (16 :: int)"
  shows "ucast (push_bit 4 (ucast (of_int a :: byte) :: u32) OR ucast (of_int b :: byte)) = (of_int (a * 16 + b) :: byte)"
proof -
  have "list_all (\<lambda>a. list_all (\<lambda>b. ucast (push_bit 4 (ucast (of_int a :: byte) :: u32) OR ucast (of_int b :: byte)) =
      (of_int (a * 16 + b) :: byte)) [0..15]) [0..15]"
    by code_simp
  then show ?thesis using assms by (simp add: list_all_iff)
qed

lemma wr_at: "wr_bytes (xs @ y # ys) (int (length xs)) [v] = Ret (xs @ v # ys)"
  by (simp add: wr_bytes_def)

lemma rd_at: "i = int (length xs) \<Longrightarrow> rd (xs @ y # ys) i = Ret y"
  by simp

lemma length_unhex: "length (unhex hs) = length hs div 2"
  by (induction hs rule: unhex.induct) auto

lemma hex_blob_loop_ok:
  "list_all sqlite3Isxdigit hs \<Longrightarrow> even (length hs) \<Longrightarrow> length pre = 2 * length out \<Longrightarrow> length hs div 2 \<le> length blank \<Longrightarrow>
   hex_blob_loop (pre @ hs @ rest) (int (length pre + length hs) - 1) (int (length pre)) (out @ blank) =
     Ret (int (length pre + length hs), out @ unhex hs @ drop (length hs div 2) blank)"
proof (induction hs arbitrary: pre out blank rule: unhex.induct)
  case (1 a b r)
  obtain c blank' where bl: "blank = c # blank'" using "1.prems"(4) by (cases blank) auto
  let ?z = "pre @ (a # b # r) @ rest" and ?n = "int (length pre + length (a # b # r)) - 1"
  have r1: "rd ?z (int (length pre)) = Ret a" by simp
  have r2: "rd ?z (int (length pre) + 1) = Ret b"
    using rd_at [of "int (length pre) + 1" "pre @ [a]" b "r @ rest"] by simp
  have j: "int (length pre) div 2 = int (length out)" using "1.prems"(3) by simp
  have byte: "ucast (push_bit 4 (ucast (sqlite3HexToInt (sint a)) :: u32) OR ucast (sqlite3HexToInt (sint b))) =
      (of_int (hexval a * 16 + hexval b) :: byte)"
    using "1.prems"(1) hexval_range [of a] hexval_range [of b] by (simp add: hex_to_int nibble_join)
  have step: "hex_blob_loop ?z ?n (int (length pre)) (out @ blank) =
      hex_blob_loop ?z ?n (int (length pre) + 2) (out @ of_int (hexval a * 16 + hexval b) # blank')"
    unfolding bl by (subst hex_blob_loop.simps) (simp only: r1 r2 byte j cbind.simps wr_at, simp)
  have "hex_blob_loop ((pre @ [a, b]) @ r @ rest) (int (length (pre @ [a, b]) + length r) - 1) (int (length (pre @ [a, b])))
      ((out @ [of_int (hexval a * 16 + hexval b)]) @ blank') =
     Ret (int (length (pre @ [a, b]) + length r), (out @ [of_int (hexval a * 16 + hexval b)]) @ unhex r @ drop (length r div 2) blank')"
    using "1.prems" bl by (intro "1.IH") auto
  then show ?case using step bl by (simp add: add.commute add.left_commute)
qed (auto simp: hex_blob_loop.simps)

lemma hexchar_ok:
  "0 \<le> v \<Longrightarrow> v < 16 \<Longrightarrow> sqlite3Isxdigit (hexchar v) \<and> hexval (hexchar v) = v"
proof -
  have "list_all (\<lambda>v. sqlite3Isxdigit (hexchar v) \<and> hexval (hexchar v) = v) [0..15]" by code_simp
  then show "0 \<le> v \<Longrightarrow> v < 16 \<Longrightarrow> ?thesis" by (simp add: list_all_iff)
qed

lemma unhex_hex2: "unhex (concat (map hex2 bs)) = bs \<and> list_all sqlite3Isxdigit (concat (map hex2 bs)) \<and>
    length (concat (map hex2 bs)) = 2 * length bs"
proof (induction bs)
  case (Cons b bs)
  have "0 \<le> uint b div 16" "uint b div 16 < 16" using uint_byte_bounds [of b]
    by (simp_all add: pos_imp_zdiv_nonneg_iff div_less_mult)
  then have "hexval (hexchar (uint b div 16)) = uint b div 16" "hexval (hexchar (uint b mod 16)) = uint b mod 16"
    "sqlite3Isxdigit (hexchar (uint b div 16))" "sqlite3Isxdigit (hexchar (uint b mod 16))"
    using hexchar_ok [of "uint b div 16"] hexchar_ok [of "uint b mod 16"] uint_byte_bounds [of b] by auto
  then show ?case using Cons by (simp add: hex2_def)
qed simp

lemma hex_to_blob_ok:
  assumes "list_all sqlite3Isxdigit hs" "even (length hs)" "c_alloc h = (ok, h')"
  shows "sqlite3HexToBlob junk (hs @ rest) (int (length hs)) h = Ret (if ok then Some (unhex hs @ [0]) else None, h')"
proof -
  obtain k where k: "length hs = 2 * k" using assms(2) by blast
  let ?blank = "replicate (nat (int (length hs) div 2 + 1)) junk"
  have b: "?blank = replicate k junk @ [junk]" using k by (simp add: nat_add_distrib replicate_append_same)
  have l: "hex_blob_loop (hs @ rest) (int (length hs) - 1) 0 ?blank = Ret (int (length hs), unhex hs @ [junk])"
    using hex_blob_loop_ok [OF assms(1,2), of "[]" "[]" ?blank rest] k unfolding b by simp
  have w: "wr_bytes (unhex hs @ [junk]) (int (length hs) div 2) [0] = Ret (unhex hs @ [0])"
    using wr_at [of "unhex hs" junk "[]" 0] k by (simp add: length_unhex)
  show ?thesis by (simp add: sqlite3HexToBlob_def assms(3) l w)
qed

text \<open>\<^verbatim>\<open>sqlite3HexToBlob\<close> decodes the digits of a blob literal, in either case, into exactly the block it
  allocates, with a terminator behind them, and gives up only when there is no memory; the digits of any
  bytes are decoded to these bytes.\<close>

theorem hex_blob_exact:
  assumes "list_all sqlite3Isxdigit hs" "even (length hs)" "c_alloc h = (ok, h')"
  shows "sqlite3HexToBlob junk (hs @ rest) (int (length hs)) h = Ret (if ok then Some (unhex hs @ [0]) else None, h') \<and>
    sqlite3HexToBlob junk (concat (map hex2 bs) @ rest) (int (2 * length bs)) h = Ret (if ok then Some (bs @ [0]) else None, h')"
  using hex_to_blob_ok [OF assms] hex_to_blob_ok [of "concat (map hex2 bs)", OF _ _ assms(3)] unhex_hex2 [of bs] by simp

theorem hex_blob_exact_witness:
  "sqlite3HexToBlob 7 ([52, 65, 102, 102] @ [39, 0]) (int (length [52, 65, 102, 102 :: byte])) \<lparr>outcomes = [], live = 0\<rparr> =
      Ret (if True then Some (unhex [52, 65, 102, 102] @ [0]) else None, \<lparr>outcomes = [], live = 1\<rparr>) \<and>
    sqlite3HexToBlob 7 (concat (map hex2 [74, 255]) @ [39, 0]) (int (2 * length [74, 255 :: byte])) \<lparr>outcomes = [], live = 0\<rparr> =
      Ret (if True then Some ([74, 255] @ [0]) else None, \<lparr>outcomes = [], live = 1\<rparr>)"
  by (rule hex_blob_exact) (simp_all add: ctype_xdigit c_alloc_def)

section \<open>Removing quotes\<close>

text \<open>A name in quotes: every closing quote inside it is doubled.\<close>

definition escaped :: "byte \<Rightarrow> byte list \<Rightarrow> byte list" where
  "escaped q s = concat (map (\<lambda>x. if x = q then [q, q] else [x]) s)"

lemma dequote_steps:
  "rd z i = Ret c \<Longrightarrow> c \<noteq> q \<Longrightarrow> wr_bytes z j [c] = Ret z' \<Longrightarrow> dequote_loop q z i j = dequote_loop q z' (i + 1) (j + 1)"
  "rd z i = Ret q \<Longrightarrow> rd z (i + 1) = Ret q \<Longrightarrow> wr_bytes z j [q] = Ret z' \<Longrightarrow>
     dequote_loop q z i j = dequote_loop q z' (i + 2) (j + 1)"
proof -
  have lt: "rd z i = Ret c \<Longrightarrow> i < int (length z)" for c by (simp add: rd_Ret_iff)
  show "rd z i = Ret c \<Longrightarrow> c \<noteq> q \<Longrightarrow> wr_bytes z j [c] = Ret z' \<Longrightarrow> dequote_loop q z i j = dequote_loop q z' (i + 1) (j + 1)"
    using lt [of c] by (subst dequote_loop.simps [of q z i j]) simp
  show "rd z i = Ret q \<Longrightarrow> rd z (i + 1) = Ret q \<Longrightarrow> wr_bytes z j [q] = Ret z' \<Longrightarrow>
      dequote_loop q z i j = dequote_loop q z' (i + 2) (j + 1)"
    using lt [of q] by (subst dequote_loop.simps [of q z i j]) simp
qed

lemma dequote_loop_ok:
  "d \<noteq> q \<Longrightarrow> gap \<noteq> [] \<Longrightarrow>
   \<exists>r. dequote_loop q (out @ gap @ escaped q s @ q # d # tail) (int (length out + length gap)) (int (length out)) =
     Ret (out @ s @ 0 # r) \<and> length (out @ s @ 0 # r) = length (out @ gap @ escaped q s @ q # d # tail)"
proof (induction s arbitrary: out gap)
  case Nil
  obtain g gap' where g: "gap = g # gap'" using Nil by (cases gap) auto
  let ?z = "out @ gap @ q # d # tail"
  have r1: "rd ?z (int (length out + length gap)) = Ret q" using rd_at [of _ "out @ gap" q "d # tail"] by simp
  have r2: "rd ?z (int (length out + length gap) + 1) = Ret d" using rd_at [of _ "out @ gap @ [q]" d tail] by (simp add: add.commute)
  have "dequote_loop q ?z (int (length out + length gap)) (int (length out)) = wr_bytes ?z (int (length out)) [0]"
    by (subst dequote_loop.simps) (use Nil(1) in \<open>simp add: r1 r2 del: of_nat_add\<close>)
  then show ?case using wr_at [of out g "gap' @ q # d # tail" 0] g by (simp add: escaped_def)
next
  case (Cons x s)
  obtain g gap' where g: "gap = g # gap'" using Cons.prems by (cases gap) auto
  let ?t = "escaped q s @ q # d # tail" and ?e = "if x = q then [q, q] else [x]"
  let ?z = "out @ gap @ ?e @ ?t"
  have z: "out @ gap @ escaped q (x # s) @ q # d # tail = ?z" by (simp add: escaped_def)
  have w: "wr_bytes ?z (int (length out)) [x] = Ret ((out @ [x]) @ (gap' @ ?e) @ ?t)"
    using wr_at [of out g "gap' @ ?e @ ?t" x] g by simp
  have r1: "rd ?z (int (length out + length gap)) = Ret x"
    using rd_at [of _ "out @ gap" x "tl ?e @ ?t"] by (simp split: if_splits)
  have r2: "x = q \<Longrightarrow> rd ?z (int (length out + length gap) + 1) = Ret q"
    using rd_at [of _ "out @ gap @ [q]" q ?t] by (simp add: add.commute)
  have lt: "int (length out + length gap) < int (length ?z)" by simp
  have step: "dequote_loop q ?z (int (length out + length gap)) (int (length out)) =
      dequote_loop q ((out @ [x]) @ (gap' @ ?e) @ ?t) (int (length (out @ [x]) + length (gap' @ ?e))) (int (length (out @ [x])))"
  proof -
    have i: "int (length (out @ [x]) + length (gap' @ ?e)) = int (length out + length gap) + int (length ?e)"
      "int (length (out @ [x])) = int (length out) + 1"
      using g by simp_all
    show ?thesis
    proof (cases "x = q")
      case True
      then show ?thesis unfolding i using dequote_steps(2) [of ?z "int (length out + length gap)" q, OF _ r2 [OF True]] r1 w by simp
    next
      case False
      then show ?thesis unfolding i using dequote_steps(1) [OF r1 False w] by simp
    qed
  qed
  show ?case unfolding z step using Cons.IH [OF Cons.prems(1), of "gap' @ ?e" "out @ [x]"] g by (auto split: if_splits)
qed

text \<open>C35: \<^verbatim>\<open>sqlite3Dequote\<close> turns a name in double quotes, single quotes, back quotes or brackets, with every closing
  quote inside it doubled, into the name followed by a terminator, inside the object it was given; it leaves names
  without quotes and null pointers alone.\<close>

theorem dequote_exact:
  assumes "sqlite3Isquote q" "cl = (if q = 91 then 93 else q)" "d \<noteq> cl" "\<not> sqlite3Isquote x"
  shows "(\<exists>r. sqlite3Dequote (Some (q # escaped cl s @ cl # d # tail)) = Ret (Some (s @ 0 # r)) \<and>
      length (s @ 0 # r) = length (q # escaped cl s @ cl # d # tail)) \<and>
    sqlite3Dequote (Some (x # tail)) = Ret (Some (x # tail)) \<and> sqlite3Dequote None = Ret None"
  using assms dequote_loop_ok [of d cl "[q]" "[]" s tail] by (auto simp: sqlite3Dequote_def)

theorem dequote_exact_witness:
  "(\<exists>r. sqlite3Dequote (Some (91 # escaped 93 [97, 93] @ 93 # 0 # [1])) = Ret (Some ([97, 93] @ 0 # r)) \<and>
      length ([97, 93 :: byte] @ 0 # r) = length (91 # escaped 93 [97, 93] @ 93 # 0 # [1])) \<and>
    sqlite3Dequote (Some (97 # [1])) = Ret (Some (97 # [1])) \<and> sqlite3Dequote None = Ret None"
  by (rule dequote_exact) (simp_all add: ctype_quote)

section \<open>Logarithmic estimates\<close>

lemma i16_id: "- (2 ^ 15) \<le> x \<Longrightarrow> x < 2 ^ 15 \<Longrightarrow> i16 x = x"
  by (simp add: i16_def signed_take_bit_int_eq_self_iff)

lemma unat_drop: "unat (drop_bit k (x :: u64)) = unat x div 2 ^ k"
  by (simp add: unat_drop_bit_eq drop_bit_nat_def)

declare logest_down.simps [simp del] logest_up.simps [simp del]

text \<open>Each loop divides by a power of two until the bound is reached, but not below 8.\<close>

lemma logest_down_ok:
  assumes k: "0 < k" "k \<le> 4" and bound: "15 \<le> bound" "\<And>x :: u64. bound < x \<Longrightarrow> 8 \<le> unat (drop_bit k x)"
  shows "unat x < 2 ^ b \<Longrightarrow> b \<le> n \<Longrightarrow> 0 \<le> y \<Longrightarrow> y + 10 * int b \<le> 2000 \<Longrightarrow> 8 \<le> unat x \<Longrightarrow>
    \<exists>t. logest_down n k bound x y = Ret (drop_bit t x, y + 10 * int t) \<and> drop_bit t x \<le> bound \<and>
      8 \<le> unat (drop_bit t x) \<and> t \<le> b"
proof (induction n arbitrary: x y b)
  case 0
  then show ?case by simp
next
  case (Suc n)
  show ?case
  proof (cases "bound < x")
    case False
    then show ?thesis using Suc.prems by (subst logest_down.simps) (auto intro!: exI [of _ 0])
  next
    case True
    have "16 \<le> unat x" using True bound(1) by (simp add: word_le_nat_alt word_less_nat_alt)
    then have "(2 :: nat) ^ 4 < 2 ^ b" using Suc.prems(1) by simp
    then have b: "4 < b" by (rule power_less_imp_less_exp [rotated]) simp
    let ?x = "drop_bit k x"
    have "unat x div 2 ^ k < 2 ^ (b - k)"
      using Suc.prems(1) b k(2) by (simp add: less_mult_imp_div_less power_add [symmetric])
    then have lt: "unat ?x < 2 ^ (b - k)" by (simp add: unat_drop)
    have y: "i16 (y + 10 * int k) = y + 10 * int k" using Suc.prems(3,4) k(2) b by (intro i16_id) auto
    have bn: "b - k \<le> n" using Suc.prems(2) k(1) by simp
    obtain t where t: "logest_down n k bound ?x (y + 10 * int k) = Ret (drop_bit t ?x, y + 10 * int k + 10 * int t)"
        "drop_bit t ?x \<le> bound" "8 \<le> unat (drop_bit t ?x)" "t \<le> b - k"
      using Suc.IH [OF lt bn, of "y + 10 * int k"] Suc.prems b k bound(2) [OF True] by (auto simp: of_nat_diff)
    then show ?thesis using True y b k(2)
      by (subst logest_down.simps) (auto simp: algebra_simps intro!: exI [of _ "k + t"])
  qed
qed

lemma drop_ge: "bound < x \<Longrightarrow> unat bound + 1 = 8 * 2 ^ k \<Longrightarrow> 8 \<le> unat (drop_bit k x)" for x bound :: u64
proof -
  assume "bound < x" "unat bound + 1 = 8 * 2 ^ k"
  then have "8 * 2 ^ k \<le> unat x" by (simp add: word_less_nat_alt)
  then have "8 * 2 ^ k div 2 ^ k \<le> unat x div 2 ^ k" by (rule div_le_mono)
  then show ?thesis by (simp add: unat_drop)
qed

lemma logest_large:
  assumes "8 \<le> unat x"
  shows "\<exists>t. sqlite3LogEst x = Ret (10 * int (t + 3) + logest_table ! (unat x div 2 ^ t - 8)) \<and>
    8 \<le> unat x div 2 ^ t \<and> unat x div 2 ^ t < 16"
proof -
  have x64: "unat x < 2 ^ 64" using unsigned_less [of x, where 'a = nat] by simp
  have "255 < x \<Longrightarrow> 8 \<le> unat (drop_bit 4 x)" for x :: u64
  proof -
    assume "255 < x"
    then have "256 div 16 \<le> unat x div 16" by (intro div_le_mono) (simp add: word_less_nat_alt)
    then show ?thesis by (simp add: unat_drop)
  qed
  then obtain s where s: "logest_down 64 4 255 x 40 = Ret (drop_bit s x, 40 + 10 * int s)"
      "8 \<le> unat (drop_bit s x)" "s \<le> 64"
    using logest_down_ok [of 4 255 x 64 64 40] x64 assms by auto
  have xs: "unat (drop_bit s x) < 2 ^ 64" using unsigned_less [of "drop_bit s x", where 'a = nat] by simp
  obtain t where t: "logest_down 64 1 15 (drop_bit s x) (40 + 10 * int s) = Ret (drop_bit t (drop_bit s x), 40 + 10 * int s + 10 * int t)"
      "drop_bit t (drop_bit s x) \<le> 15" "8 \<le> unat (drop_bit t (drop_bit s x))" "t \<le> 64"
    using logest_down_ok [of 1 15 "drop_bit s x" 64 64 "40 + 10 * int s"] drop_ge [of 15 _ 1] xs s(2,3) by auto
  let ?d = "drop_bit (s + t) x"
  have d: "drop_bit t (drop_bit s x) = ?d" by (simp add: add.commute)
  have r: "8 \<le> unat ?d" "unat ?d < 16" using t(2,3) unfolding d by (simp_all add: word_le_nat_alt)
  have a: "uint (?d AND 7) = int (unat ?d - 8)"
  proof -
    have "?d AND 7 = take_bit 3 ?d" by (simp add: take_bit_eq_mask mask_eq_exp_minus_1)
    then have "unat (?d AND 7) = unat ?d mod 8" by (simp add: take_bit_eq_mod unat_mod)
    also have "\<dots> = unat ?d - 8" using r by (simp add: mod_if)
    finally show ?thesis by (metis of_nat_unat)
  qed
  have len: "length logest_table = 8" by (simp add: logest_table_def)
  have rdt: "rd logest_table (uint (?d AND 7)) = Ret (logest_table ! (unat ?d - 8))"
    unfolding a using r len by (intro rd_nat) simp
  have "\<forall>a \<in> set logest_table. 0 \<le> a \<and> a \<le> 9" by (simp add: logest_table_def)
  then have tr: "0 \<le> logest_table ! (unat ?d - 8)" "logest_table ! (unat ?d - 8) \<le> 9"
    using r len by (auto simp: nth_mem)
  have "i16 (logest_table ! (unat ?d - 8) + (40 + 10 * int s + 10 * int t) - 10) = 10 * int (s + t + 3) + logest_table ! (unat ?d - 8)"
    using tr s(3) t(4) by (subst i16_id) auto
  moreover have "\<not> x < 8" using assms by (simp add: word_less_nat_alt)
  ultimately have "sqlite3LogEst x = Ret (10 * int (s + t + 3) + logest_table ! (unat ?d - 8))"
    unfolding sqlite3LogEst_def using s(1) t(1) unfolding d by (simp add: rdt)
  then show ?thesis using r unfolding unat_drop by blast
qed

lemma logest_small_values:
  "sqlite3LogEst 1 = Ret 0" "sqlite3LogEst 2 = Ret 10" "sqlite3LogEst 3 = Ret 16" "sqlite3LogEst 4 = Ret 20"
  "sqlite3LogEst 5 = Ret 23" "sqlite3LogEst 6 = Ret 26" "sqlite3LogEst 7 = Ret 28"
  by code_simp+

text \<open>A number with all but its four leading bits cleared.\<close>

fun four_bits :: "nat \<Rightarrow> nat" where
  "four_bits n = (if n < 16 then n else 2 * four_bits (n div 2))"

declare four_bits.simps [simp del]

lemma log2_power: "log 2 ((2 :: real) ^ k) = real k"
  by (simp add: log_nat_power)

lemma round_log:
  assumes z: "0 < z" and lo: "2 ^ (2 * n) < 2 * z ^ 20" and hi: "z ^ 20 < (2 :: real) ^ (2 * n + 1)"
  shows "round (10 * log 2 z) = int n"
proof (rule round_unique')
  have "log 2 (2 ^ (2 * n)) < log 2 (2 * z ^ 20)" using z lo by (subst log_less_cancel_iff) auto
  then have l: "2 * real n < 1 + 20 * log 2 z" unfolding log2_power using z by (simp add: log_mult log_nat_power)
  have "log 2 (z ^ 20) < log 2 (2 ^ (2 * n + 1))" using z hi by (subst log_less_cancel_iff) auto
  then have "20 * log 2 z < 2 * real n + 1" unfolding log2_power using z by (simp add: log_nat_power)
  then show "\<bar>10 * log 2 z - of_int (int n)\<bar> < 1 / 2" using l unfolding of_int_of_nat_eq abs_less_iff by linarith
qed

lemma round_shift: "round (of_int k + y) = k + round (y :: real)"
proof -
  have "of_int k + y + 1 / 2 = y + 1 / 2 + of_int k" by simp
  then show ?thesis unfolding round_def by (simp only: floor_add_int [symmetric])
qed

lemma round_log_scaled:
  assumes "0 < z"
  shows "round (10 * log 2 (z * 2 ^ k)) = 10 * int k + round (10 * log 2 z)"
  using round_shift [of "10 * int k" "10 * log 2 z"] assms by (simp add: log_mult log2_power algebra_simps)

lemma four_bits_div: "8 \<le> n div 2 ^ t \<Longrightarrow> n div 2 ^ t < 16 \<Longrightarrow> four_bits n = n div 2 ^ t * 2 ^ t"
proof (induction t arbitrary: n)
  case 0
  then show ?case by (subst four_bits.simps) simp
next
  case (Suc t)
  have d: "n div 2 ^ Suc t = n div 2 div 2 ^ t" by (simp add: div_mult2_eq)
  have "8 * 2 ^ Suc t \<le> n div 2 ^ Suc t * 2 ^ Suc t" using Suc.prems(1) by (rule mult_le_mono1)
  also have "\<dots> \<le> n" by (rule div_times_less_eq_dividend)
  finally have "8 * 2 ^ Suc t \<le> n" .
  moreover have "(16 :: nat) \<le> 8 * 2 ^ Suc t" by simp
  ultimately have "16 \<le> n" by (rule order_trans [rotated])
  then show ?case using Suc.IH [of "n div 2"] Suc.prems unfolding d by (subst four_bits.simps) simp
qed

text \<open>The entries of the table are the nearest integers.\<close>

lemma logest_table_nearest:
  assumes "8 \<le> q" "q < 16"
  shows "round (10 * log 2 (real q / 8)) = logest_table ! (q - 8)"
proof -
  consider "q = 8" | "q = 9" | "q = 10" | "q = 11" | "q = 12" | "q = 13" | "q = 14" | "q = 15" using assms by linarith
  then show ?thesis
  proof cases
    case 1 show ?thesis using round_log [of "8 / 8" 0] by (simp add: 1 logest_table_def)
  next
    case 2 show ?thesis using round_log [of "9 / 8" 2] by (simp add: 2 logest_table_def power_divide)
  next
    case 3 show ?thesis using round_log [of "10 / 8" 3] by (simp add: 3 logest_table_def power_divide)
  next
    case 4 show ?thesis using round_log [of "11 / 8" 5] by (simp add: 4 logest_table_def power_divide)
  next
    case 5 show ?thesis using round_log [of "12 / 8" 6] by (simp add: 5 logest_table_def power_divide)
  next
    case 6 show ?thesis using round_log [of "13 / 8" 7] by (simp add: 6 logest_table_def power_divide)
  next
    case 7 show ?thesis using round_log [of "14 / 8" 8] by (simp add: 7 logest_table_def power_divide)
  next
    case 8 show ?thesis using round_log [of "15 / 8" 9] by (simp add: 8 logest_table_def power_divide)
  qed
qed

lemma logest_small_rounds:
  assumes "1 \<le> n" "n < 8"
  shows "sqlite3LogEst (of_nat n) = Ret (round (10 * log 2 (real n)))"
proof -
  consider "n = 1" | "n = 2" | "n = 3" | "n = 4" | "n = 5" | "n = 6" | "n = 7" using assms by linarith
  then show ?thesis
  proof cases
    case 1 then show ?thesis by (simp add: logest_small_values)
  next
    case 2 then show ?thesis using round_log [of 2 10] by (simp add: logest_small_values)
  next
    case 3 then show ?thesis using round_log [of 3 16] by (simp add: logest_small_values)
  next
    case 4 then show ?thesis using round_log [of 4 20] by (simp add: logest_small_values)
  next
    case 5 then show ?thesis using round_log [of 5 23] by (simp add: logest_small_values)
  next
    case 6 then show ?thesis using round_log [of 6 26] by (simp add: logest_small_values)
  next
    case 7 then show ?thesis using round_log [of 7 28] by (simp add: logest_small_values)
  qed
qed

lemma logest_rounds:
  assumes "x \<noteq> 0"
  shows "sqlite3LogEst x = Ret (round (10 * log 2 (real (four_bits (unat x)))))"
proof (cases "8 \<le> unat x")
  case True
  obtain t where t: "sqlite3LogEst x = Ret (10 * int (t + 3) + logest_table ! (unat x div 2 ^ t - 8))"
      "8 \<le> unat x div 2 ^ t" "unat x div 2 ^ t < 16"
    using logest_large [OF True] by blast
  let ?q = "unat x div 2 ^ t"
  have "real (four_bits (unat x)) = real ?q / 8 * 2 ^ (t + 3)"
    using four_bits_div [OF t(2,3)] by (simp add: power_add)
  moreover have "0 < real ?q / 8" using t(2) by simp
  ultimately have "round (10 * log 2 (real (four_bits (unat x)))) = 10 * int (t + 3) + round (10 * log 2 (real ?q / 8))"
    using round_log_scaled [of "real ?q / 8" "t + 3"] by (simp only:)
  then show ?thesis using t logest_table_nearest [OF t(2,3)] by simp
next
  case False
  have "1 \<le> unat x" using assms by (simp add: Suc_le_eq unat_gt_0)
  moreover have "four_bits (unat x) = unat x" using False by (subst four_bits.simps) simp
  ultimately show ?thesis using logest_small_rounds [of "unat x"] False by simp
qed

text \<open>For each difference \<open>d\<close> below 50 a fraction \<open>p / q\<close> with \<open>p / q \<le> 2 powr (- d / 10) \<le> (p + 1) / q\<close>, close enough
  to fix the rounded logarithm.\<close>

definition add_brackets :: "(nat \<times> nat) list" where
  "add_brackets =
    [(15, 15), (55, 59), (9, 11), (17, 21), (7, 10), (7, 10), (7, 12), (7, 12), (8, 14), (8, 16), (7,
     15), (13, 28), (5, 13), (5, 13), (6, 16), (4, 14), (4, 14), (4, 14), (4, 14), (5, 22), (3, 15), (3,
     15), (3, 15), (3, 15), (25, 132), (2, 16), (2, 16), (2, 16), (2, 16), (2, 16), (2, 16), (2, 18), (5,
     55), (1, 19), (1, 19), (1, 19), (1, 19), (1, 19), (1, 19), (1, 19), (1, 19), (1, 19), (1, 19), (1,
     20), (1, 22), (1, 23), (1, 25), (1, 26), (1, 28), (0, 29)]"

definition logest_inc :: "nat \<Rightarrow> int" where
  "logest_inc d = (if 49 < d then 0 else if 31 < d then 1 else logest_add_table ! d)"

definition inc_bracketed :: "nat \<Rightarrow> nat \<Rightarrow> nat \<Rightarrow> nat \<Rightarrow> bool" where
  "inc_bracketed n d p q = (0 < q \<and> p ^ 10 * 2 ^ d \<le> q ^ 10 \<and> q ^ 10 \<le> (p + 1) ^ 10 * 2 ^ d \<and>
     2 ^ (2 * n) * q ^ 20 < 2 * (q + p) ^ 20 \<and> (q + p + 1) ^ 20 < 2 ^ (2 * n + 1) * q ^ 20)"

lemma bracketed_round:
  assumes "inc_bracketed n d p q"
  shows "round (10 * log 2 (1 + 2 powr (- real d / 10))) = int n"
proof -
  define w where "w = 2 powr (- real d / 10)"
  have w0: "0 < w" by (simp add: w_def)
  have "w ^ 10 = 2 powr (- real d)" unfolding w_def by (subst powr_power) simp_all
  then have w: "0 < w" "w ^ 10 * 2 ^ d = 1" using w0 by (simp_all add: powr_minus powr_realpow)
  have q: "0 < q" and n: "p ^ 10 * 2 ^ d \<le> q ^ 10" "q ^ 10 \<le> (p + 1) ^ 10 * 2 ^ d"
    "2 ^ (2 * n) * q ^ 20 < 2 * (q + p) ^ 20" "(q + p + 1) ^ 20 < 2 ^ (2 * n + 1) * q ^ 20"
    using assms by (simp_all only: inc_bracketed_def)
  have r: "real p ^ 10 * 2 ^ d \<le> real q ^ 10" "real q ^ 10 \<le> (real p + 1) ^ 10 * 2 ^ d"
    "2 ^ (2 * n) * real q ^ 20 < 2 * (real q + real p) ^ 20" "(real q + real p + 1) ^ 20 < 2 ^ (2 * n + 1) * real q ^ 20"
    using n [folded of_nat_le_iff [where 'a = real] of_nat_less_iff [where 'a = real]]
    by (simp_all only: of_nat_mult of_nat_power of_nat_add of_nat_numeral of_nat_1)
  have qw: "(real q * w) ^ 10 * 2 ^ d = real q ^ 10" using w(2) by (simp add: power_mult_distrib mult.assoc)
  have lo: "real p \<le> real q * w"
    proof (rule power_le_imp_le_base [of _ 9])
    have "real p ^ 10 * 2 ^ d \<le> (real q * w) ^ 10 * 2 ^ d" unfolding qw by (rule r(1))
    then show "real p ^ Suc 9 \<le> (real q * w) ^ Suc 9" by simp
  qed (use w(1) in simp)
  have hi: "real q * w \<le> real p + 1"
    proof (rule power_le_imp_le_base [of _ 9])
    have "(real q * w) ^ 10 * 2 ^ d \<le> (real p + 1) ^ 10 * 2 ^ d" unfolding qw by (rule r(2))
    then show "(real q * w) ^ Suc 9 \<le> (real p + 1) ^ Suc 9" by simp
  qed simp
  define z where "z = 1 + w"
  have qz: "real q + real p \<le> real q * z" "real q * z \<le> real q + real p + 1" using lo hi by (simp_all add: z_def algebra_simps)
  have p: "(real q * z) ^ 20 = real q ^ 20 * z ^ 20" by (simp add: power_mult_distrib)
  have "(real q + real p) ^ 20 \<le> real q ^ 20 * z ^ 20" "real q ^ 20 * z ^ 20 \<le> (real q + real p + 1) ^ 20"
    unfolding p [symmetric] using qz w(1) by (auto intro!: power_mono simp: z_def)
  then have "real q ^ 20 * 2 ^ (2 * n) < real q ^ 20 * (2 * z ^ 20)" "real q ^ 20 * z ^ 20 < real q ^ 20 * 2 ^ (2 * n + 1)"
    using r(3,4) unfolding mult.commute [of "real q ^ 20"] mult.assoc by linarith+
  then have "2 ^ (2 * n) < 2 * z ^ 20" "z ^ 20 < 2 ^ (2 * n + 1)"
    using q by (simp_all only: mult_less_cancel_left_pos zero_less_power of_nat_0_less_iff)
  moreover have "0 < z" using w(1) by (simp add: z_def)
  ultimately show ?thesis using round_log [of z n] unfolding z_def w_def by blast
qed

definition bracket_holds :: "nat \<Rightarrow> bool" where
  "bracket_holds d = (case add_brackets ! d of (p, q) \<Rightarrow>
     inc_bracketed (if d = 49 then 0 else nat (logest_inc d)) d p q)"

lemma brackets_ok: "d < 50 \<Longrightarrow> bracket_holds d"
proof -
  have "list_all bracket_holds [0..<50]"
    by (simp add: upt_rec bracket_holds_def add_brackets_def inc_bracketed_def logest_inc_def logest_add_table_def
        numeral_2_eq_2 [symmetric])
  then show "d < 50 \<Longrightarrow> bracket_holds d" unfolding list_all_iff set_upt by simp
qed

lemma inc_nearest:
  assumes "d < 50"
  shows "round (10 * log 2 (1 + 2 powr (- real d / 10))) = (if d = 49 then 0 else logest_inc d)"
proof -
  obtain p q where pq: "add_brackets ! d = (p, q)" by force
  have "inc_bracketed (if d = 49 then 0 else nat (logest_inc d)) d p q"
    using brackets_ok [OF assms] unfolding bracket_holds_def pq prod.case .
  note r = bracketed_round [OF this]
  have "\<forall>v \<in> set logest_add_table. 0 \<le> v" "length logest_add_table = 32" by (simp_all add: logest_add_table_def)
  then have "0 \<le> logest_inc d" by (simp add: logest_inc_def)
  then show ?thesis unfolding r by simp
qed

lemma inc_far:
  assumes "50 \<le> d"
  shows "round (10 * log 2 (1 + 2 powr (- real d / 10))) = 0"
proof -
  define w where "w = 2 powr (- real d / 10)"
  have "w \<le> 2 powr (- 5)" unfolding w_def using assms by (intro powr_mono) auto
  also have "2 powr (- 5) = (1 / 32 :: real)" by (simp add: powr_minus powr_numeral)
  finally have w: "w \<le> 1 / 32" "0 < w" by (simp_all add: w_def)
  have "(1 + w) ^ 20 \<le> (33 / 32) ^ 20" using w by (intro power_mono) auto
  also have "(33 / 32 :: real) ^ 20 < 2" by (simp add: power_divide)
  finally have "(1 + w) ^ 20 < 2" .
  moreover have "1 < 2 * (1 + w) ^ 20" using one_le_power [of "1 + w" 20] w by linarith
  moreover have "0 < 1 + w" using w by linarith
  ultimately have "round (10 * log 2 (1 + w)) = 0" using round_log [of "1 + w" 0] by simp
  then show ?thesis by (simp only: w_def)
qed

text \<open>What is added to the larger estimate, and the sum it stands for.\<close>

lemma logest_add_value:
  assumes "b \<le> a" "- (2 ^ 15) \<le> b" "a < 2 ^ 15"
  shows "sqlite3LogEstAdd a b = Ret (i16 (a + logest_inc (nat (a - b))))"
    "sqlite3LogEstAdd b a = Ret (i16 (a + logest_inc (nat (a - b))))"
proof -
  have "length logest_add_table = 32" by (simp add: logest_add_table_def)
  then have r: "rd logest_add_table (a - b) = Ret (logest_add_table ! nat (a - b))" if "a - b \<le> 31"
    using that assms by (simp add: rd_def)
  have "i16 a = a" using assms by (simp add: i16_id)
  then show "sqlite3LogEstAdd a b = Ret (i16 (a + logest_inc (nat (a - b))))"
    using assms r by (auto simp: sqlite3LogEstAdd_def logest_inc_def)
  moreover have "sqlite3LogEstAdd b a = sqlite3LogEstAdd a b" by (cases "a = b") (use assms in \<open>auto simp: sqlite3LogEstAdd_def\<close>)
  ultimately show "sqlite3LogEstAdd b a = Ret (i16 (a + logest_inc (nat (a - b))))" by simp
qed

lemma log_sum_larger:
  assumes "b \<le> a"
  shows "round (10 * log 2 (2 powr (real_of_int a / 10) + 2 powr (real_of_int b / 10))) =
    a + round (10 * log 2 (1 + 2 powr (- real (nat (a - b)) / 10)))"
proof -
  let ?w = "2 powr (- real (nat (a - b)) / 10)"
  have "2 powr (real_of_int a / 10) * ?w = 2 powr (real_of_int b / 10)"
    using assms by (simp add: powr_add [symmetric] field_simps)
  then have "2 powr (real_of_int a / 10) + 2 powr (real_of_int b / 10) = 2 powr (real_of_int a / 10) * (1 + ?w)"
    by (simp add: algebra_simps)
  moreover have "0 < 1 + ?w" by (intro add_pos_pos) auto
  ultimately have "10 * log 2 (2 powr (real_of_int a / 10) + 2 powr (real_of_int b / 10)) = of_int a + 10 * log 2 (1 + ?w)"
    by (simp add: log_mult)
  then show ?thesis by (simp only: round_shift)
qed

lemma logest_add_sum:
  assumes "b \<le> a" "- (2 ^ 15) \<le> b" "a < 2 ^ 15"
  shows "a + logest_inc (nat (a - b)) =
    round (10 * log 2 (2 powr (real_of_int a / 10) + 2 powr (real_of_int b / 10))) + (if a - b = 49 then 1 else 0)"
proof (cases "a - b < 50")
  case True
  then have "nat (a - b) < 50" "nat (a - b) = 49 \<longleftrightarrow> a - b = 49" using assms by auto
  then show ?thesis unfolding log_sum_larger [OF assms(1)] using inc_nearest [of "nat (a - b)"]
    by (auto simp: logest_inc_def)
next
  case False
  then show ?thesis unfolding log_sum_larger [OF assms(1)] using inc_far [of "nat (a - b)"]
    by (auto simp: logest_inc_def)
qed

text \<open>C36: \<^verbatim>\<open>sqlite3LogEst\<close> gives 0 for 0 and for every other 64-bit number exactly ten times the binary
  logarithm of the number with all but its four leading bits cleared, rounded to the nearest integer;
  \<^verbatim>\<open>sqlite3LogEstAdd\<close> of any two 16-bit estimates, in either order, gives exactly the estimate of the sum of the quantities they stand for,
  ten times the binary logarithm of \<open>2 powr (a / 10) + 2 powr (b / 10)\<close> rounded to the nearest integer, as a
  16-bit integer, and one more when the two differ by 49.\<close>

theorem logest_exact:
  assumes "- (2 ^ 15) \<le> a" "a < 2 ^ 15" "- (2 ^ 15) \<le> b" "b < 2 ^ 15"
  shows "sqlite3LogEst x = Ret (if x = 0 then 0 else round (10 * log 2 (real (four_bits (unat x))))) \<and>
    sqlite3LogEstAdd a b =
      Ret (i16 (round (10 * log 2 (2 powr (real_of_int a / 10) + 2 powr (real_of_int b / 10))) +
        (if \<bar>a - b\<bar> = 49 then 1 else 0)))"
proof
  show "sqlite3LogEst x = Ret (if x = 0 then 0 else round (10 * log 2 (real (four_bits (unat x)))))"
  proof (cases "x = 0")
    case True
    then show ?thesis by (simp add: sqlite3LogEst_def)
  next
    case False
    then show ?thesis using logest_rounds [OF False] by simp
  qed
  show "sqlite3LogEstAdd a b =
      Ret (i16 (round (10 * log 2 (2 powr (real_of_int a / 10) + 2 powr (real_of_int b / 10))) +
        (if \<bar>a - b\<bar> = 49 then 1 else 0)))"
  proof (cases "b \<le> a")
    case True
    then show ?thesis using logest_add_value(1) [OF True] logest_add_sum [OF True] assms by simp
  next
    case False
    then have ab: "a \<le> b" by simp
    show ?thesis using logest_add_value(2) [OF ab] logest_add_sum [OF ab] assms False
      by (auto simp: add.commute)
  qed
qed

text \<open>The estimate of 1000, 99, is that of 960, and 99 and 66 add up to 100.\<close>

theorem logest_exact_witness:
  "sqlite3LogEst 1000 = Ret (round (10 * log 2 960)) \<and> round (10 * log 2 960) = (99 :: int) \<and>
   sqlite3LogEstAdd 99 66 = Ret (i16 (round (10 * log 2 (2 powr (99 / 10) + 2 powr (66 / 10))))) \<and>
   i16 (round (10 * log 2 (2 powr (99 / 10) + 2 powr (66 / 10)))) = 100"
proof -
  have "four_bits (unat (1000 :: u64)) = 960" by (simp add: four_bits.simps)
  moreover have "sqlite3LogEst 1000 = Ret 99" "sqlite3LogEstAdd 99 66 = Ret 100" by code_simp+
  ultimately show ?thesis using logest_exact [of 99 66 1000] by simp
qed

end
