(* ===== verification/Sqlite_RowSet.thy ===== *)
theory Sqlite_RowSet
  imports C_Prelude "HOL-Library.Tree"
begin

unbundle bit_operations_syntax

text \<open>
  Row sets (\<^verbatim>\<open>rowset.c\<close> of SQLite): sets of rowids for the \<^verbatim>\<open>OR\<close> optimisation and for deletions. Entries are
  collected on a linked list; on demand the list is sorted in place by a bottom-up merge sort that drops
  duplicates, and either read out in order or turned into balanced search trees, which are kept on
  a list, the forest, like the digits of a binary counter. The same objects serve as list cells, tree nodes and forest
  cells, so the memory is explicit: a map from addresses to entries, and every access through a pointer that is
  not there faults.
\<close>

section \<open>Entries, chunks and memory\<close>

record RowSetEntry =
  rs_v :: int
  rs_right :: "addr option"
  rs_left :: "addr option"

text \<open>
  The chunks of a row set are given by the addresses of their first entries, newest first. A fresh block has
  arbitrary contents.
\<close>

record RowSet =
  pChunk :: "addr list"
  pEntry :: "addr option"
  pLast :: "addr option"
  pFresh :: addr
  pForest :: "addr option"
  nFresh :: nat
  rsFlags :: "16 word"
  iBatch :: int

record rsmem =
  ents :: "addr \<rightharpoonup> RowSetEntry"
  next_addr :: addr
  junk :: "addr \<Rightarrow> RowSetEntry"
  rs_hp :: heap
  mallocFailed :: bool

abbreviation (input) ROWSET_SORTED :: "16 word" where "ROWSET_SORTED \<equiv> 1"
abbreviation (input) ROWSET_NEXT :: "16 word" where "ROWSET_NEXT \<equiv> 2"

definition ROWSET_ENTRY_PER_CHUNK :: nat where
  "ROWSET_ENTRY_PER_CHUNK = 42"

definition ent :: "rsmem \<Rightarrow> addr option \<Rightarrow> RowSetEntry cres" where
  "ent m p = (case p of None \<Rightarrow> Fault | Some a \<Rightarrow> oget (ents m a))"

definition upd_ent :: "rsmem \<Rightarrow> addr option \<Rightarrow> (RowSetEntry \<Rightarrow> RowSetEntry) \<Rightarrow> rsmem cres" where
  "upd_ent m p f = cbind (ent m p) (\<lambda>e. Ret (m\<lparr>ents := (ents m)(the p \<mapsto> f e)\<rparr>))"

abbreviation set_right :: "rsmem \<Rightarrow> addr option \<Rightarrow> addr option \<Rightarrow> rsmem cres" where
  "set_right m p q \<equiv> upd_ent m p (\<lambda>e. e\<lparr>rs_right := q\<rparr>)"

abbreviation set_left :: "rsmem \<Rightarrow> addr option \<Rightarrow> addr option \<Rightarrow> rsmem cres" where
  "set_left m p q \<equiv> upd_ent m p (\<lambda>e. e\<lparr>rs_left := q\<rparr>)"

text \<open>\<^verbatim>\<open>pSpace\<close> has room for the row set, 56 bytes, and the entries behind it, which start at address \<open>space\<close>.\<close>

definition sqlite3RowSetInit :: "addr \<Rightarrow> nat \<Rightarrow> RowSet" where
  "sqlite3RowSetInit space N = \<lparr>pChunk = [], pEntry = None, pLast = None, pFresh = space, pForest = None,
     nFresh = (N - 56) div 24 mod 65536, rsFlags = ROWSET_SORTED, iBatch = 0\<rparr>"

fun free_chunks :: "addr list \<Rightarrow> rsmem \<Rightarrow> rsmem" where
  "free_chunks [] m = m"
| "free_chunks (c # cs) m = free_chunks cs
     (m\<lparr>ents := (\<lambda>a. if c \<le> a \<and> a < c + ROWSET_ENTRY_PER_CHUNK then None else ents m a), rs_hp := c_free (rs_hp m)\<rparr>)"

definition sqlite3RowSetClear :: "RowSet \<Rightarrow> rsmem \<Rightarrow> RowSet \<times> rsmem" where
  "sqlite3RowSetClear p m =
     (p\<lparr>pChunk := [], nFresh := 0, pEntry := None, pLast := None, pForest := None, rsFlags := ROWSET_SORTED\<rparr>,
      free_chunks (pChunk p) m)"

definition new_chunk :: "RowSet \<Rightarrow> rsmem \<Rightarrow> bool \<times> RowSet \<times> rsmem" where
  "new_chunk p m = (let (ok, h) = c_alloc (rs_hp m) in
     if \<not> ok then (False, p, m\<lparr>rs_hp := h, mallocFailed := True\<rparr>)
     else let c = next_addr m in
       (True, p\<lparr>pChunk := c # pChunk p, pFresh := c, nFresh := ROWSET_ENTRY_PER_CHUNK\<rparr>,
        m\<lparr>rs_hp := h, next_addr := c + ROWSET_ENTRY_PER_CHUNK,
          ents := (\<lambda>a. if c \<le> a \<and> a < c + ROWSET_ENTRY_PER_CHUNK then Some (junk m a) else ents m a)\<rparr>))"

definition rowSetEntryAlloc :: "RowSet \<Rightarrow> rsmem \<Rightarrow> addr option \<times> RowSet \<times> rsmem" where
  "rowSetEntryAlloc p m =
     (let (ok, p, m) = (if nFresh p = 0 then new_chunk p m else (True, p, m))
      in if \<not> ok then (None, p, m)
         else (Some (pFresh p), p\<lparr>nFresh := nFresh p - 1, pFresh := pFresh p + 1\<rparr>, m))"

text \<open>The new entry goes to the end of the list.\<close>

definition append_entry :: "RowSet \<Rightarrow> addr \<Rightarrow> int \<Rightarrow> rsmem \<Rightarrow> (RowSet \<times> rsmem) cres" where
  "append_entry p a rowid m =
     cbind (upd_ent m (Some a) (\<lambda>e. e\<lparr>rs_v := rowid, rs_right := None\<rparr>)) (\<lambda>m.
     cbind (if pLast p \<noteq> None
            then cbind (ent m (pLast p)) (\<lambda>l.
                 let p = (if rowid \<le> rs_v l then p\<lparr>rsFlags := rsFlags p AND NOT ROWSET_SORTED\<rparr> else p)
                 in cbind (set_right m (pLast p) (Some a)) (\<lambda>m. Ret (p, m)))
            else Ret (p\<lparr>pEntry := Some a\<rparr>, m)) (\<lambda>(p, m).
     Ret (p\<lparr>pLast := Some a\<rparr>, m)))"

definition sqlite3RowSetInsert :: "RowSet \<Rightarrow> int \<Rightarrow> rsmem \<Rightarrow> (RowSet \<times> rsmem) cres" where
  "sqlite3RowSetInsert p rowid m =
     (case rowSetEntryAlloc p m of
        (None, p, m) \<Rightarrow> Ret (p, m)
      | (Some a, p, m) \<Rightarrow> append_entry p a rowid m)"

section \<open>Merging and sorting\<close>

text \<open>
  \<^verbatim>\<open>pTail\<close> points to the local variable \<^verbatim>\<open>head\<close> at first, which is \<open>None\<close> here; \<open>hR\<close> is \<^verbatim>\<open>head.pRight\<close>.
\<close>

definition put_tail :: "rsmem \<Rightarrow> addr option \<Rightarrow> addr option \<Rightarrow> addr option \<Rightarrow> (addr option \<times> rsmem) cres" where
  "put_tail m hR pTail q =
     (if pTail = None then Ret (q, m) else cbind (set_right m pTail q) (\<lambda>m. Ret (hR, m)))"

fun merge_loop ::
    "nat \<Rightarrow> rsmem \<Rightarrow> addr option \<Rightarrow> addr option \<Rightarrow> addr option \<Rightarrow> addr option \<Rightarrow> (addr option \<times> rsmem) cres" where
  "merge_loop 0 m hR pTail pA pB = Diverge"
| "merge_loop (Suc n) m hR pTail pA pB =
     cbind (ent m pA) (\<lambda>a. cbind (ent m pB) (\<lambda>b.
     if rs_v a \<le> rs_v b
     then cbind (if rs_v a < rs_v b then cbind (put_tail m hR pTail pA) (\<lambda>(hR, m). Ret (hR, pA, m))
                 else Ret (hR, pTail, m)) (\<lambda>(hR, pTail, m).
          cbind (ent m pA) (\<lambda>a.
          if rs_right a = None then put_tail m hR pTail pB
          else merge_loop n m hR pTail (rs_right a) pB))
     else cbind (put_tail m hR pTail pB) (\<lambda>(hR, m).
          cbind (ent m pB) (\<lambda>b.
          if rs_right b = None then put_tail m hR pB pA
          else merge_loop n m hR pB pA (rs_right b)))))"

text \<open>The bound of a loop over entries is the number of addresses in use so far.\<close>

definition rowSetEntryMerge :: "rsmem \<Rightarrow> addr option \<Rightarrow> addr option \<Rightarrow> (addr option \<times> rsmem) cres" where
  "rowSetEntryMerge m pA pB = merge_loop (next_addr m) m None None pA pB"

text \<open>One entry goes through the buckets from \<^verbatim>\<open>aBucket[i]\<close> on, as a carry through the digits of a counter.\<close>

fun bucket_in :: "rsmem \<Rightarrow> addr option list \<Rightarrow> addr option \<Rightarrow> (addr option list \<times> rsmem) cres" where
  "bucket_in m [] pIn = Fault"
| "bucket_in m (b # bs) pIn =
     (if b = None then Ret (pIn # bs, m)
      else cbind (rowSetEntryMerge m b pIn) (\<lambda>(pIn, m). cbind (bucket_in m bs pIn) (\<lambda>(bs, m). Ret (None # bs, m))))"

fun sort_loop :: "nat \<Rightarrow> rsmem \<Rightarrow> addr option \<Rightarrow> addr option list \<Rightarrow> (addr option list \<times> rsmem) cres" where
  "sort_loop n m None aBucket = Ret (aBucket, m)"
| "sort_loop 0 m (Some a) aBucket = Diverge"
| "sort_loop (Suc n) m (Some a) aBucket =
     cbind (ent m (Some a)) (\<lambda>e.
     cbind (set_right m (Some a) None) (\<lambda>m.
     cbind (bucket_in m aBucket (Some a)) (\<lambda>(aBucket, m). sort_loop n m (rs_right e) aBucket)))"

fun sort_join :: "rsmem \<Rightarrow> addr option \<Rightarrow> addr option list \<Rightarrow> (addr option \<times> rsmem) cres" where
  "sort_join m pIn [] = Ret (pIn, m)"
| "sort_join m pIn (b # bs) =
     (if b = None then sort_join m pIn bs
      else if pIn \<noteq> None then cbind (rowSetEntryMerge m pIn b) (\<lambda>(pIn, m). sort_join m pIn bs)
      else sort_join m b bs)"

definition rowSetEntrySort :: "rsmem \<Rightarrow> addr option \<Rightarrow> (addr option \<times> rsmem) cres" where
  "rowSetEntrySort m pIn =
     cbind (sort_loop (next_addr m) m pIn (replicate 40 None)) (\<lambda>(aBucket, m).
       sort_join m (hd aBucket) (tl aBucket))"

section \<open>Trees\<close>

fun tree_to_list :: "nat \<Rightarrow> rsmem \<Rightarrow> addr option \<Rightarrow> (addr option \<times> addr option \<times> rsmem) cres" where
  "tree_to_list 0 m pIn = Diverge"
| "tree_to_list (Suc n) m pIn =
     cbind (ent m pIn) (\<lambda>e.
     cbind (if rs_left e \<noteq> None
            then cbind (tree_to_list n m (rs_left e)) (\<lambda>(pFirst, p, m).
                 cbind (set_right m p pIn) (\<lambda>m. Ret (pFirst, m)))
            else Ret (pIn, m)) (\<lambda>(pFirst, m).
     cbind (ent m pIn) (\<lambda>e.
     if rs_right e \<noteq> None
     then cbind (tree_to_list n m (rs_right e)) (\<lambda>(p, pLast, m).
          cbind (set_right m pIn p) (\<lambda>m. Ret (pFirst, pLast, m)))
     else Ret (pFirst, pIn, m))))"

definition rowSetTreeToList :: "rsmem \<Rightarrow> addr option \<Rightarrow> (addr option \<times> addr option \<times> rsmem) cres" where
  "rowSetTreeToList m pIn = tree_to_list (next_addr m) m pIn"

text \<open>The root of the tree and \<^verbatim>\<open>*ppList\<close> afterwards.\<close>

fun rowSetNDeepTree :: "rsmem \<Rightarrow> addr option \<Rightarrow> nat \<Rightarrow> (addr option \<times> addr option \<times> rsmem) cres" where
  "rowSetNDeepTree m pList iDepth =
     (if pList = None then Ret (None, pList, m)
      else if 1 < iDepth
      then cbind (rowSetNDeepTree m pList (iDepth - 1)) (\<lambda>(pLeft, p, m).
           if p = None then Ret (pLeft, p, m)
           else cbind (set_left m p pLeft) (\<lambda>m.
                cbind (ent m p) (\<lambda>e.
                cbind (rowSetNDeepTree m (rs_right e) (iDepth - 1)) (\<lambda>(r, pList, m).
                cbind (set_right m p r) (\<lambda>m. Ret (p, pList, m))))))
      else cbind (ent m pList) (\<lambda>e.
           cbind (upd_ent m pList (\<lambda>e. e\<lparr>rs_left := None, rs_right := None\<rparr>)) (\<lambda>m.
           Ret (pList, rs_right e, m))))"

fun list_to_tree_loop :: "nat \<Rightarrow> rsmem \<Rightarrow> addr option \<Rightarrow> addr option \<Rightarrow> nat \<Rightarrow> (addr option \<times> rsmem) cres" where
  "list_to_tree_loop n m p None iDepth = Ret (p, m)"
| "list_to_tree_loop 0 m p (Some a) iDepth = Diverge"
| "list_to_tree_loop (Suc n) m pLeft (Some a) iDepth =
     cbind (ent m (Some a)) (\<lambda>e.
     cbind (set_left m (Some a) pLeft) (\<lambda>m.
     cbind (rowSetNDeepTree m (rs_right e) iDepth) (\<lambda>(r, pList, m).
     cbind (set_right m (Some a) r) (\<lambda>m.
     list_to_tree_loop n m (Some a) pList (iDepth + 1)))))"

definition rowSetListToTree :: "rsmem \<Rightarrow> addr option \<Rightarrow> (addr option \<times> rsmem) cres" where
  "rowSetListToTree m pList =
     cbind (ent m pList) (\<lambda>e.
     cbind (upd_ent m pList (\<lambda>e. e\<lparr>rs_left := None, rs_right := None\<rparr>)) (\<lambda>m.
     list_to_tree_loop (next_addr m) m pList (rs_right e) 1))"

section \<open>Reading in order and testing\<close>

definition sqlite3RowSetNext :: "RowSet \<Rightarrow> rsmem \<Rightarrow> (int option \<times> RowSet \<times> rsmem) cres" where
  "sqlite3RowSetNext p m =
     cbind (if rsFlags p AND ROWSET_NEXT = 0
            then cbind (if rsFlags p AND ROWSET_SORTED = 0
                        then cbind (rowSetEntrySort m (pEntry p)) (\<lambda>(q, m). Ret (p\<lparr>pEntry := q\<rparr>, m))
                        else Ret (p, m)) (\<lambda>(p, m).
                 Ret (p\<lparr>rsFlags := rsFlags p OR (ROWSET_SORTED OR ROWSET_NEXT)\<rparr>, m))
            else Ret (p, m)) (\<lambda>(p, m).
     if pEntry p \<noteq> None
     then cbind (ent m (pEntry p)) (\<lambda>e.
          let p = p\<lparr>pEntry := rs_right e\<rparr>;
              (p, m) = (if pEntry p = None then sqlite3RowSetClear p m else (p, m))
          in Ret (Some (rs_v e), p, m))
     else Ret (None, p, m))"

text \<open>
  The loop over the forest: the sorted list goes into the first empty tree, after the trees before it have been merged
  into it. \<open>prev\<close> is what \<^verbatim>\<open>ppPrevTree\<close> points into: the last cell, or \<open>None\<close> for \<^verbatim>\<open>pRowSet->pForest\<close>.
\<close>

fun forest_loop ::
    "nat \<Rightarrow> rsmem \<Rightarrow> addr option \<Rightarrow> addr option \<Rightarrow> addr option \<Rightarrow> (addr option \<times> addr option \<times> addr option \<times> rsmem) cres" where
  "forest_loop n m prev None p = Ret (prev, None, p, m)"
| "forest_loop 0 m prev (Some a) p = Diverge"
| "forest_loop (Suc n) m prev (Some a) p =
     cbind (ent m (Some a)) (\<lambda>e.
     if rs_left e = None
     then cbind (rowSetListToTree m p) (\<lambda>(t, m).
          cbind (set_left m (Some a) t) (\<lambda>m. Ret (Some a, Some a, p, m)))
     else cbind (rowSetTreeToList m (rs_left e)) (\<lambda>(pAux, pTail, m).
          cbind (set_left m (Some a) None) (\<lambda>m.
          cbind (rowSetEntryMerge m pAux p) (\<lambda>(p, m).
          cbind (ent m (Some a)) (\<lambda>e. forest_loop n m (Some a) (rs_right e) p)))))"

text \<open>\<^verbatim>\<open>*ppPrevTree = pTree\<close>.\<close>

definition put_prev :: "RowSet \<Rightarrow> addr option \<Rightarrow> addr option \<Rightarrow> rsmem \<Rightarrow> (RowSet \<times> rsmem) cres" where
  "put_prev q prev pTree m =
     (if prev = None then Ret (q\<lparr>pForest := pTree\<rparr>, m) else cbind (set_right m prev pTree) (\<lambda>m. Ret (q, m)))"

definition new_tree :: "RowSet \<Rightarrow> addr option \<Rightarrow> addr option \<Rightarrow> rsmem \<Rightarrow> (RowSet \<times> rsmem) cres" where
  "new_tree q prev p m =
     (case rowSetEntryAlloc q m of (pTree, q, m) \<Rightarrow>
        cbind (put_prev q prev pTree m) (\<lambda>(q, m).
        if pTree \<noteq> None
        then cbind (upd_ent m pTree (\<lambda>e. e\<lparr>rs_v := 0, rs_right := None\<rparr>)) (\<lambda>m.
             cbind (rowSetListToTree m p) (\<lambda>(t, m).
             cbind (set_left m pTree t) (\<lambda>m. Ret (q, m))))
        else Ret (q, m)))"

definition new_batch :: "RowSet \<Rightarrow> rsmem \<Rightarrow> (RowSet \<times> rsmem) cres" where
  "new_batch q m =
     (if pEntry q \<noteq> None
      then cbind (if rsFlags q AND ROWSET_SORTED = 0 then rowSetEntrySort m (pEntry q) else Ret (pEntry q, m)) (\<lambda>(p, m).
           cbind (forest_loop (next_addr m) m None (pForest q) p) (\<lambda>(prev, pTree, p, m).
           cbind (if pTree = None then new_tree q prev p m else Ret (q, m)) (\<lambda>(q, m).
           Ret (q\<lparr>pEntry := None, pLast := None, rsFlags := rsFlags q OR ROWSET_SORTED\<rparr>, m))))
      else Ret (q, m))"

fun tree_search :: "nat \<Rightarrow> rsmem \<Rightarrow> int \<Rightarrow> addr option \<Rightarrow> bool cres" where
  "tree_search n m iRowid None = Ret False"
| "tree_search 0 m iRowid (Some a) = Diverge"
| "tree_search (Suc n) m iRowid (Some a) =
     cbind (ent m (Some a)) (\<lambda>e.
     if rs_v e < iRowid then tree_search n m iRowid (rs_right e)
     else if rs_v e > iRowid then tree_search n m iRowid (rs_left e)
     else Ret True)"

fun forest_search :: "nat \<Rightarrow> rsmem \<Rightarrow> int \<Rightarrow> addr option \<Rightarrow> bool cres" where
  "forest_search n m iRowid None = Ret False"
| "forest_search 0 m iRowid (Some a) = Diverge"
| "forest_search (Suc n) m iRowid (Some a) =
     cbind (ent m (Some a)) (\<lambda>e.
     cbind (tree_search (next_addr m) m iRowid (rs_left e)) (\<lambda>r.
     if r then Ret True else forest_search n m iRowid (rs_right e)))"

definition sqlite3RowSetTest :: "RowSet \<Rightarrow> int \<Rightarrow> int \<Rightarrow> rsmem \<Rightarrow> (bool \<times> RowSet \<times> rsmem) cres" where
  "sqlite3RowSetTest q b iRowid m =
     cbind (if b \<noteq> iBatch q then cbind (new_batch q m) (\<lambda>(q, m). Ret (q\<lparr>iBatch := b\<rparr>, m)) else Ret (q, m)) (\<lambda>(q, m).
     cbind (forest_search (next_addr m) m iRowid (pForest q)) (\<lambda>r. Ret (r, q, m)))"

section \<open>Lists of entries\<close>

fun rpath :: "(addr \<rightharpoonup> RowSetEntry) \<Rightarrow> addr option \<Rightarrow> addr list \<Rightarrow> addr option \<Rightarrow> bool" where
  "rpath E p [] q \<longleftrightarrow> p = q"
| "rpath E p (a # as) q \<longleftrightarrow> p = Some a \<and> (\<exists>e. E a = Some e \<and> rpath E (rs_right e) as q)"

abbreviation rlist :: "(addr \<rightharpoonup> RowSetEntry) \<Rightarrow> addr option \<Rightarrow> addr list \<Rightarrow> bool" where
  "rlist E p as \<equiv> rpath E p as None"

lemma rpath_append: "rpath E p (xs @ ys) q \<longleftrightarrow> (\<exists>r. rpath E p xs r \<and> rpath E r ys q)"
  by (induction xs arbitrary: p) auto

lemma rpath_cong: "(\<And>a. a \<in> set xs \<Longrightarrow> E' a = E a) \<Longrightarrow> rpath E' p xs q = rpath E p xs q"
  by (induction xs arbitrary: p) auto

lemma rpath_upd [simp]: "a \<notin> set xs \<Longrightarrow> rpath (E(a := v)) p xs q = rpath E p xs q"
  by (rule rpath_cong) auto

lemma rpath_mem: "rpath E p xs q \<Longrightarrow> a \<in> set xs \<Longrightarrow> \<exists>e. E a = Some e"
  by (induction xs arbitrary: p) auto

lemma rlist_None [simp]: "rlist E None xs \<longleftrightarrow> xs = []"
  by (cases xs) auto

lemma rlist_Some: "rlist E (Some a) xs \<longleftrightarrow> (\<exists>e as. xs = a # as \<and> E a = Some e \<and> rlist E (rs_right e) as)"
  by (cases xs) auto

text \<open>Changes of links inside \<open>A\<close>.\<close>

definition rs_step :: "addr set \<Rightarrow> rsmem \<Rightarrow> rsmem \<Rightarrow> bool" where
  "rs_step A m m' \<longleftrightarrow> m' = m\<lparr>ents := ents m'\<rparr> \<and> (\<forall>a. a \<notin> A \<longrightarrow> ents m' a = ents m a) \<and>
     (\<forall>a. map_option rs_v (ents m' a) = map_option rs_v (ents m a))"

lemma rs_step_refl: "rs_step A m m"
  by (simp add: rs_step_def)

lemma rs_step_trans: "rs_step A m m' \<Longrightarrow> rs_step A m' m'' \<Longrightarrow> rs_step A m m''"
  unfolding rs_step_def by (metis rsmem.select_convs rsmem.surjective rsmem.update_convs(1))

lemma rs_step_mono: "rs_step A m m' \<Longrightarrow> A \<subseteq> B \<Longrightarrow> rs_step B m m'"
  unfolding rs_step_def by blast

lemma rs_step_upd:
  "ents m a = Some e \<Longrightarrow> rs_v (f e) = rs_v e \<Longrightarrow> a \<in> A \<Longrightarrow> rs_step A m (m\<lparr>ents := (ents m)(a \<mapsto> f e)\<rparr>)"
  by (simp add: rs_step_def)

lemma rs_stepD:
  assumes "rs_step A m m'"
  shows "next_addr m' = next_addr m" "rs_hp m' = rs_hp m" "mallocFailed m' = mallocFailed m" "junk m' = junk m"
    "a \<notin> A \<Longrightarrow> ents m' a = ents m a" "ents m' a = None \<longleftrightarrow> ents m a = None"
proof -
  have "m' = m\<lparr>ents := ents m'\<rparr>" using assms by (simp add: rs_step_def)
  then have "next_addr m' = next_addr (m\<lparr>ents := ents m'\<rparr>)" "rs_hp m' = rs_hp (m\<lparr>ents := ents m'\<rparr>)"
    "mallocFailed m' = mallocFailed (m\<lparr>ents := ents m'\<rparr>)" "junk m' = junk (m\<lparr>ents := ents m'\<rparr>)" by metis+
  then show "next_addr m' = next_addr m" "rs_hp m' = rs_hp m" "mallocFailed m' = mallocFailed m" "junk m' = junk m"
    by simp_all
  show "a \<notin> A \<Longrightarrow> ents m' a = ents m a" using assms by (simp add: rs_step_def)
  have "map_option rs_v (ents m' a) = map_option rs_v (ents m a)" using assms by (simp add: rs_step_def)
  then show "ents m' a = None \<longleftrightarrow> ents m a = None" by (metis option.map_disc_iff)
qed

lemma rs_step_path: "rs_step A m m' \<Longrightarrow> A \<inter> set xs = {} \<Longrightarrow> rpath (ents m') p xs q = rpath (ents m) p xs q"
  by (rule rpath_cong) (auto simp: rs_step_def)

definition vals :: "(addr \<rightharpoonup> RowSetEntry) \<Rightarrow> addr list \<Rightarrow> int list" where
  "vals E as = map (\<lambda>a. rs_v (the (E a))) as"

lemma vals_simps [simp]: "vals E [] = []" "vals E (a # as) = rs_v (the (E a)) # vals E as"
  "vals E (as @ bs) = vals E as @ vals E bs"
  by (simp_all add: vals_def)

lemma vals_cong: "(\<And>a. a \<in> set as \<Longrightarrow> E' a = E a) \<Longrightarrow> vals E' as = vals E as"
  by (simp add: vals_def)

lemma rs_step_val:
  assumes "rs_step A m m'"
  shows "rs_v (the (ents m' a)) = rs_v (the (ents m a))" "vals (ents m') as = vals (ents m) as"
proof -
  have v: "rs_v (the (ents m' a)) = rs_v (the (ents m a))" for a
  proof -
    have "map_option rs_v (ents m' a) = map_option rs_v (ents m a)" using assms by (simp add: rs_step_def)
    then show ?thesis by (cases "ents m a"; cases "ents m' a") auto
  qed
  then show "rs_v (the (ents m' a)) = rs_v (the (ents m a))" "vals (ents m') as = vals (ents m) as"
    by (simp_all add: vals_def)
qed

abbreviation strict :: "int list \<Rightarrow> bool" where
  "strict xs \<equiv> sorted_wrt (<) xs"

lemma strict_distinct: "strict (vals E as) \<Longrightarrow> distinct as"
  by (induction as) (auto simp: vals_def)

lemma ent_Some [simp]: "ents m a = Some e \<Longrightarrow> ent m (Some a) = Ret e"
  by (simp add: ent_def oget_def)

lemma upd_ent_Some [simp]: "ents m a = Some e \<Longrightarrow> upd_ent m (Some a) f = Ret (m\<lparr>ents := (ents m)(a \<mapsto> f e)\<rparr>)"
  by (simp add: upd_ent_def)

section \<open>Merging\<close>

text \<open>The entries linked so far, up to \<^verbatim>\<open>pTail\<close>.\<close>

definition tail_ok :: "(addr \<rightharpoonup> RowSetEntry) \<Rightarrow> addr option \<Rightarrow> addr option \<Rightarrow> addr list \<Rightarrow> bool" where
  "tail_ok E hR pTail ts \<longleftrightarrow>
     (if ts = [] then pTail = None else pTail = Some (last ts) \<and> (\<exists>x. rpath E hR ts x))"

lemma put_tail_ok:
  assumes "tail_ok (ents m) hR pTail ts" "distinct ts"
  shows "\<exists>hR' m'. put_tail m hR pTail q = Ret (hR', m') \<and> rs_step (set ts) m m' \<and> rpath (ents m') hR' ts q"
proof (cases ts rule: rev_cases)
  case Nil
  then show ?thesis using assms by (auto simp: put_tail_def tail_ok_def rs_step_refl)
next
  case (snoc us t)
  then obtain x e where "pTail = Some t" "rpath (ents m) hR us (Some t)" "ents m t = Some e"
    using assms(1) by (auto simp: tail_ok_def rpath_append)
  then show ?thesis using snoc assms(2) by (auto simp: put_tail_def rpath_append rs_step_def)
qed

lemma tail_ok_snoc:
  "rpath E hR ts (Some a) \<Longrightarrow> E a = Some e \<Longrightarrow> tail_ok E hR (Some a) (ts @ [a])"
  by (auto simp: tail_ok_def rpath_append)

definition merged :: "rsmem \<Rightarrow> addr option \<Rightarrow> rsmem \<Rightarrow> addr list \<Rightarrow> addr list \<Rightarrow> addr list \<Rightarrow> bool" where
  "merged m h m' ts as bs \<longleftrightarrow> (\<exists>cs. rs_step (set ts \<union> set as \<union> set bs) m m' \<and> rlist (ents m') h (ts @ cs) \<and>
     set cs \<subseteq> set as \<union> set bs \<and> strict (vals (ents m) cs) \<and>
     set (vals (ents m) cs) = set (vals (ents m) as) \<union> set (vals (ents m) bs))"

lemma mergedI:
  "rs_step (set ts \<union> set as \<union> set bs) m m' \<Longrightarrow> rlist (ents m') h (ts @ cs) \<Longrightarrow> set cs \<subseteq> set as \<union> set bs \<Longrightarrow>
   strict (vals (ents m) cs) \<Longrightarrow> set (vals (ents m) cs) = set (vals (ents m) as) \<union> set (vals (ents m) bs) \<Longrightarrow>
   merged m h m' ts as bs"
  unfolding merged_def by blast

text \<open>Appending the smaller head to the tail, then the rest of the merge.\<close>

lemma merged_Cons:
  assumes m1: "rs_step (set ts) m m1" and r: "merged m1 h m' (ts @ [a]) as bs"
    and less: "\<forall>v \<in> set (vals (ents m) as) \<union> set (vals (ents m) bs). rs_v (the (ents m a)) < v"
  shows "merged m h m' ts (a # as) bs"
proof -
  obtain cs where c: "rs_step (set (ts @ [a]) \<union> set as \<union> set bs) m1 m'" "rlist (ents m') h ((ts @ [a]) @ cs)"
      "set cs \<subseteq> set as \<union> set bs" "strict (vals (ents m1) cs)"
      "set (vals (ents m1) cs) = set (vals (ents m1) as) \<union> set (vals (ents m1) bs)"
    using r unfolding merged_def by blast
  note v = rs_step_val(2) [OF m1]
  show ?thesis
  proof (rule mergedI [of _ _ _ _ _ _ "a # cs"])
    show "rs_step (set ts \<union> set (a # as) \<union> set bs) m m'"
      by (rule rs_step_trans [OF rs_step_mono [OF m1] rs_step_mono [OF c(1)]]) auto
  qed (use c less v in auto)
qed

lemma merged_sym: "merged m h m' ts as bs \<Longrightarrow> merged m h m' ts bs as"
  unfolding merged_def by (auto simp: Un_commute Un_left_commute)

lemma merged_drop:
  assumes "merged m h m' ts as bs" "rs_v (the (ents m a)) \<in> set (vals (ents m) bs)"
  shows "merged m h m' ts (a # as) bs"
proof -
  obtain cs where c: "rs_step (set ts \<union> set as \<union> set bs) m m'" "rlist (ents m') h (ts @ cs)"
      "set cs \<subseteq> set as \<union> set bs" "strict (vals (ents m) cs)"
      "set (vals (ents m) cs) = set (vals (ents m) as) \<union> set (vals (ents m) bs)"
    using assms(1) unfolding merged_def by blast
  show ?thesis
  proof (rule mergedI [of _ _ _ _ _ _ cs])
    show "rs_step (set ts \<union> set (a # as) \<union> set bs) m m'" by (rule rs_step_mono [OF c(1)]) auto
  qed (use c assms(2) in auto)
qed

text \<open>One round that takes the head \<open>a\<close> of one list: \<open>L\<close> is the rest of the loop.\<close>

lemma merge_take:
  assumes t: "tail_ok (ents m) hR pTail ts" and d: "distinct (ts @ (a # as) @ bs)"
    and a: "ents m a = Some e" "rlist (ents m) (rs_right e) as" and b: "rlist (ents m) q bs" "strict (vals (ents m) bs)"
    and less: "\<forall>v \<in> set (vals (ents m) as) \<union> set (vals (ents m) bs). rs_v e < v"
    and L: "\<And>m1 h1. rs_step (set ts) m m1 \<Longrightarrow> tail_ok (ents m1) h1 (Some a) (ts @ [a]) \<Longrightarrow> as \<noteq> [] \<Longrightarrow>
      rlist (ents m1) (rs_right e) as \<Longrightarrow> rlist (ents m1) q bs \<Longrightarrow>
      \<exists>h m'. L m1 h1 = Ret (h, m') \<and> merged m1 h m' (ts @ [a]) as bs"
  shows "\<exists>h1 m1 h m'. put_tail m hR pTail (Some a) = Ret (h1, m1) \<and> ents m1 a = Some e \<and>
    (if rs_right e = None then put_tail m1 h1 (Some a) q else L m1 h1) = Ret (h, m') \<and> merged m h m' ts (a # as) bs"
proof -
  have "distinct ts" using d by simp
  then obtain h1 m1 where p: "put_tail m hR pTail (Some a) = Ret (h1, m1)" "rs_step (set ts) m m1" "rpath (ents m1) h1 ts (Some a)"
    using put_tail_ok [OF t] by blast
  have dis: "a \<notin> set ts" "set ts \<inter> set as = {}" "set ts \<inter> set bs = {}" using d by auto
  have E1: "ents m1 a = Some e" "rlist (ents m1) (rs_right e) as" "rlist (ents m1) q bs" "vals (ents m1) xs = vals (ents m) xs" for xs
    using rs_stepD(5) [OF p(2)] rs_step_path [OF p(2)] rs_step_val(2) [OF p(2)] a b dis by auto
  have t1: "tail_ok (ents m1) h1 (Some a) (ts @ [a])" by (rule tail_ok_snoc [OF p(3) E1(1)])
  have "\<exists>h m'. (if rs_right e = None then put_tail m1 h1 (Some a) q else L m1 h1) = Ret (h, m') \<and> merged m1 h m' (ts @ [a]) as bs"
  proof (cases "rs_right e")
    case None
    then have "as = []" using a by simp
    have d1: "distinct (ts @ [a])" "set (ts @ [a]) \<inter> set bs = {}" using d by auto
    obtain h m' where r: "put_tail m1 h1 (Some a) q = Ret (h, m')" "rs_step (set (ts @ [a])) m1 m'" "rpath (ents m') h (ts @ [a]) q"
      using put_tail_ok [OF t1 d1(1)] by blast
    have "rlist (ents m') h ((ts @ [a]) @ bs)"
      using r(3) rs_step_path [OF r(2) d1(2)] E1(3) by (auto simp: rpath_append)
    then have "merged m1 h m' (ts @ [a]) as bs"
      by (intro mergedI [of _ _ _ _ _ _ bs] rs_step_mono [OF r(2)]) (use E1(4) b(2) \<open>as = []\<close> in auto)
    then show ?thesis using r(1) None by simp
  next
    case (Some r)
    then have "as \<noteq> []" using a by auto
    then show ?thesis using L [OF p(2) t1 _ E1(2,3)] Some by simp
  qed
  then show ?thesis using p(1) E1(1) merged_Cons [OF p(2)] less a(1) by (metis option.sel)
qed

text \<open>Equal heads: the entry of the first list is dropped.\<close>

lemma merge_skip:
  assumes t: "tail_ok (ents m) hR pTail ts" and d: "distinct (ts @ (a # as) @ bs)"
    and a: "ents m a = Some e" "rlist (ents m) (rs_right e) as" and b: "rlist (ents m) q bs" "strict (vals (ents m) bs)"
    and eq: "rs_v e \<in> set (vals (ents m) bs)"
    and L: "as \<noteq> [] \<Longrightarrow> \<exists>h m'. L = Ret (h, m') \<and> merged m h m' ts as bs"
  shows "\<exists>h m'. (if rs_right e = None then put_tail m hR pTail q else L) = Ret (h, m') \<and> merged m h m' ts (a # as) bs"
proof (cases "rs_right e")
  case None
  then have "as = []" using a by simp
  have dis: "distinct ts" "set ts \<inter> set bs = {}" using d by auto
  obtain h m' where r: "put_tail m hR pTail q = Ret (h, m')" "rs_step (set ts) m m'" "rpath (ents m') h ts q"
    using put_tail_ok [OF t dis(1)] by blast
  have "rlist (ents m') h (ts @ bs)"
    using r(3) rs_step_path [OF r(2) dis(2)] b by (auto simp: rpath_append)
  then have "merged m h m' ts as bs"
    by (intro mergedI [of _ _ _ _ _ _ bs] rs_step_mono [OF r(2)]) (use b(2) \<open>as = []\<close> in auto)
  then show ?thesis using r(1) None eq a(1) by (auto intro: merged_drop)
next
  case (Some r)
  then have "as \<noteq> []" using a by auto
  then show ?thesis using L Some eq a(1) by (auto intro!: merged_drop)
qed

lemma merge_loop_ok:
  assumes "rlist (ents m) pA as" "rlist (ents m) pB bs" "as \<noteq> []" "bs \<noteq> []"
    "strict (vals (ents m) as)" "strict (vals (ents m) bs)" "distinct (ts @ as @ bs)"
    "tail_ok (ents m) hR pTail ts" "length as + length bs \<le> n"
  shows "\<exists>h m'. merge_loop n m hR pTail pA pB = Ret (h, m') \<and> merged m h m' ts as bs"
  using assms
proof (induction n arbitrary: m hR pTail pA pB as bs ts)
  case (Suc n)
  obtain a as' ea where a: "as = a # as'" "pA = Some a" "ents m a = Some ea" "rlist (ents m) (rs_right ea) as'"
    using Suc.prems(1,3) by (cases as) auto
  obtain b bs' eb where b: "bs = b # bs'" "pB = Some b" "ents m b = Some eb" "rlist (ents m) (rs_right eb) bs'"
    using Suc.prems(2,4) by (cases bs) auto
  have d: "distinct (ts @ (a # as') @ bs)" "distinct (ts @ (b # bs') @ as)" using Suc.prems(7) a(1) b(1) by auto
  consider "rs_v ea < rs_v eb" | "rs_v ea = rs_v eb" | "rs_v eb < rs_v ea" by linarith
  then show ?case
  proof cases
    case 1
    have "\<exists>h1 m1 h m'. put_tail m hR pTail (Some a) = Ret (h1, m1) \<and> ents m1 a = Some ea \<and>
      (if rs_right ea = None then put_tail m1 h1 (Some a) pB else merge_loop n m1 h1 (Some a) (rs_right ea) pB) = Ret (h, m') \<and>
      merged m h m' ts (a # as') bs"
      using Suc.prems(4-7,9) a b 1
      by (intro merge_take [OF Suc.prems(8) d(1) a(3,4) Suc.prems(2,6)] Suc.IH) (auto simp: rs_step_val)
    then show ?thesis using 1 a b by auto
  next
    case 2
    have "\<exists>h m'. (if rs_right ea = None then put_tail m hR pTail pB else merge_loop n m hR pTail (rs_right ea) pB) = Ret (h, m') \<and>
      merged m h m' ts (a # as') bs"
      using Suc.prems a b 2
      by (intro merge_skip [OF Suc.prems(8) d(1) a(3,4) Suc.prems(2,6)] Suc.IH) auto
    then show ?thesis using 2 a b by auto
  next
    case 3
    have "\<exists>h1 m1 h m'. put_tail m hR pTail (Some b) = Ret (h1, m1) \<and> ents m1 b = Some eb \<and>
      (if rs_right eb = None then put_tail m1 h1 (Some b) pA else merge_loop n m1 h1 (Some b) pA (rs_right eb)) = Ret (h, m') \<and>
      merged m h m' ts (b # bs') as"
    proof (rule merge_take [OF Suc.prems(8) d(2) b(3,4) Suc.prems(1,5)])
      fix m1 h1 assume m1: "rs_step (set ts) m m1" "tail_ok (ents m1) h1 (Some b) (ts @ [b])" "bs' \<noteq> []"
        "rlist (ents m1) (rs_right eb) bs'" "rlist (ents m1) pA as"
      then show "\<exists>h m'. merge_loop n m1 h1 (Some b) pA (rs_right eb) = Ret (h, m') \<and> merged m1 h m' (ts @ [b]) bs' as"
        using Suc.IH [of m1 pA as "rs_right eb" bs' "ts @ [b]" h1 "Some b"] Suc.prems(3-7,9) b
        by (auto simp: rs_step_val intro: merged_sym)
    qed (use 3 a b Suc.prems(5,6) in auto)
    then show ?thesis using 3 a b by (auto intro: merged_sym)
  qed
qed simp

text \<open>Every entry lies below the next address to be handed out.\<close>

abbreviation bounded_ents :: "rsmem \<Rightarrow> bool" where
  "bounded_ents m \<equiv> \<forall>a. ents m a \<noteq> None \<longrightarrow> a < next_addr m"

lemma distinct_bound: "distinct xs \<Longrightarrow> (\<And>x. x \<in> set xs \<Longrightarrow> x < n) \<Longrightarrow> length xs \<le> (n :: nat)"
  by (metis card_lessThan card_mono distinct_card finite_lessThan lessThan_iff subsetI)

lemma rlist_bound: "rlist (ents m) p as \<Longrightarrow> bounded_ents m \<Longrightarrow> distinct as \<Longrightarrow> length as \<le> next_addr m"
  by (rule distinct_bound) (auto dest!: rpath_mem)

lemma bounded_step: "rs_step A m m' \<Longrightarrow> bounded_ents m \<Longrightarrow> bounded_ents m'"
  by (auto simp: rs_stepD)

text \<open>\<open>sl m p A V\<close>: a strictly increasing list from \<open>p\<close> with entries in \<open>A\<close> and the values \<open>V\<close>.\<close>

definition sl :: "rsmem \<Rightarrow> addr option \<Rightarrow> addr set \<Rightarrow> int set \<Rightarrow> bool" where
  "sl m p A V \<longleftrightarrow> (\<exists>as. rlist (ents m) p as \<and> strict (vals (ents m) as) \<and> V = set (vals (ents m) as) \<and> set as \<subseteq> A)"

lemma sl_None [simp]: "sl m None A V \<longleftrightarrow> V = {}"
  by (auto simp: sl_def)

lemma sl_empty [simp]: "sl m p A {} \<longleftrightarrow> p = None"
  by (auto simp: sl_def vals_def)

lemma sl_mono: "sl m p A V \<Longrightarrow> A \<subseteq> B \<Longrightarrow> sl m p B V"
  unfolding sl_def by blast

lemma sl_cong:
  assumes "\<forall>a \<in> A. ents m' a = ents m a" "sl m p A V"
  shows "sl m' p A V"
proof -
  obtain as where a: "rlist (ents m) p as" "strict (vals (ents m) as)" "V = set (vals (ents m) as)" "set as \<subseteq> A"
    using assms(2) unfolding sl_def by blast
  have "rlist (ents m') p as" using a(1) rpath_cong [of as "ents m'" "ents m"] assms(1) a(4) by blast
  moreover have "vals (ents m') as = vals (ents m) as" by (rule vals_cong) (use assms(1) a(4) in auto)
  ultimately show ?thesis unfolding sl_def using a(2-4) by (intro exI [of _ as]) simp
qed

lemma sl_frame: "rs_step B m m' \<Longrightarrow> A \<inter> B = {} \<Longrightarrow> sl m p A V \<Longrightarrow> sl m' p A V"
  by (rule sl_cong) (auto simp: rs_step_def)

lemma rowSetEntryMerge_ok:
  assumes a: "sl m pA A V" "V \<noteq> {}" and b: "sl m pB B W" "W \<noteq> {}" and d: "A \<inter> B = {}" and bd: "bounded_ents m"
  shows "\<exists>h m'. rowSetEntryMerge m pA pB = Ret (h, m') \<and> rs_step (A \<union> B) m m' \<and> sl m' h (A \<union> B) (V \<union> W)"
proof -
  obtain as bs where l: "rlist (ents m) pA as" "strict (vals (ents m) as)" "V = set (vals (ents m) as)" "set as \<subseteq> A"
      "rlist (ents m) pB bs" "strict (vals (ents m) bs)" "W = set (vals (ents m) bs)" "set bs \<subseteq> B"
    using a(1) b(1) unfolding sl_def by blast
  have ne: "as \<noteq> []" "bs \<noteq> []" using a(2) b(2) l(3,7) by auto
  have dis: "distinct ([] @ as @ bs)" using l(2,4,6,8) d strict_distinct by auto
  have "length (as @ bs) \<le> next_addr m"
    by (rule distinct_bound) (use dis l(1,5) bd in \<open>auto dest!: rpath_mem\<close>)
  then have "length as + length bs \<le> next_addr m" by simp
  then obtain h m' where r: "rowSetEntryMerge m pA pB = Ret (h, m')" "merged m h m' [] as bs"
    using merge_loop_ok [OF l(1,5) ne l(2,6) dis, of None None] 
    by (metis append_Nil rowSetEntryMerge_def tail_ok_def)
  then obtain cs where c: "rs_step (set as \<union> set bs) m m'" "rlist (ents m') h cs" "set cs \<subseteq> set as \<union> set bs"
      "strict (vals (ents m) cs)" "set (vals (ents m) cs) = V \<union> W"
    using l(3,7) by (auto simp: merged_def)
  have "sl m' h (A \<union> B) (V \<union> W)"
    unfolding sl_def rs_step_val(2) [OF c(1)]
    by (rule exI [of _ cs], intro conjI c(2,4) c(5) [symmetric]) (use c(3) l(4,8) in blast)
  moreover have "rs_step (A \<union> B) m m'" by (rule rs_step_mono [OF c(1)]) (use l(4,8) in auto)
  ultimately show ?thesis using r(1) by blast
qed

section \<open>Sorting\<close>

text \<open>The buckets are the digits of a binary counter of the entries taken so far.\<close>

fun bval :: "addr option list \<Rightarrow> nat" where
  "bval [] = 0"
| "bval (b # bs) = (if b = None then 0 else 1) + 2 * bval bs"

fun bks :: "rsmem \<Rightarrow> addr option list \<Rightarrow> addr set \<Rightarrow> int set \<Rightarrow> bool" where
  "bks m [] A V \<longleftrightarrow> V = {}"
| "bks m (b # bs) A V \<longleftrightarrow> (\<exists>A1 A2 V1 V2. A1 \<union> A2 \<subseteq> A \<and> A1 \<inter> A2 = {} \<and> V = V1 \<union> V2 \<and> sl m b A1 V1 \<and> bks m bs A2 V2)"

lemma bks_frame: "rs_step B m m' \<Longrightarrow> A \<inter> B = {} \<Longrightarrow> bks m bs A V \<Longrightarrow> bks m' bs A V"
proof (induction bs arbitrary: A V)
  case (Cons b bs)
  then obtain A1 A2 V1 V2 where s: "A1 \<union> A2 \<subseteq> A" "A1 \<inter> A2 = {}" "V = V1 \<union> V2" "sl m b A1 V1" "bks m bs A2 V2" by auto
  have "sl m' b A1 V1" "bks m' bs A2 V2" using s Cons.prems(2)
    by (intro sl_frame [OF Cons.prems(1)] Cons.IH [OF Cons.prems(1)]; blast)+
  then show ?case using s by auto
qed simp

lemma bucket_in_ok:
  assumes "bks m bs A V" "sl m p B W" "W \<noteq> {}" "A \<inter> B = {}" "bounded_ents m" "bval bs + 1 < 2 ^ length bs"
  shows "\<exists>bs' m'. bucket_in m bs p = Ret (bs', m') \<and> rs_step (A \<union> B) m m' \<and> bks m' bs' (A \<union> B) (V \<union> W) \<and>
    bval bs' = bval bs + 1 \<and> length bs' = length bs"
  using assms
proof (induction bs arbitrary: m p A B V W)
  case (Cons b bs)
  then obtain A1 A2 V1 V2 where s: "A1 \<union> A2 \<subseteq> A" "A1 \<inter> A2 = {}" "V = V1 \<union> V2" "sl m b A1 V1" "bks m bs A2 V2" by auto
  show ?case
  proof (cases b)
    case None
    have "bks m (p # bs) (A \<union> B) (V \<union> W)"
      unfolding bks.simps
      by (rule exI [of _ B], rule exI [of _ A2], rule exI [of _ W], rule exI [of _ V2])
        (use s None Cons.prems in auto)
    moreover have "p \<noteq> None" using Cons.prems(2,3) by auto
    ultimately show ?thesis using None by (auto simp: rs_step_refl)
  next
    case (Some c)
    then have V1: "V1 \<noteq> {}" using s(4) by auto
    have "A1 \<inter> B = {}" using s(1) Cons.prems(4) by blast
    then obtain h m1 where r: "rowSetEntryMerge m b p = Ret (h, m1)" "rs_step (A1 \<union> B) m m1" "sl m1 h (A1 \<union> B) (V1 \<union> W)"
      using rowSetEntryMerge_ok [OF s(4) V1 Cons.prems(2,3)] Cons.prems(5) by blast
    have b2: "bks m1 bs A2 V2" by (rule bks_frame [OF r(2) _ s(5)]) (use s Cons.prems(4) in blast)
    have "\<exists>bs' m'. bucket_in m1 bs h = Ret (bs', m') \<and> rs_step (A2 \<union> (A1 \<union> B)) m1 m' \<and>
        bks m' bs' (A2 \<union> (A1 \<union> B)) (V2 \<union> (V1 \<union> W)) \<and> bval bs' = bval bs + 1 \<and> length bs' = length bs"
      using Cons.prems(6) s Cons.prems(3,4) Some bounded_step [OF r(2) Cons.prems(5)]
      by (intro Cons.IH [OF b2 r(3)]) auto
    then obtain bs' m' where i: "bucket_in m1 bs h = Ret (bs', m')" "rs_step (A2 \<union> (A1 \<union> B)) m1 m'"
        "bks m' bs' (A2 \<union> (A1 \<union> B)) (V2 \<union> (V1 \<union> W))" "bval bs' = bval bs + 1" "length bs' = length bs" by blast
    have "bks m' (None # bs') (A \<union> B) (V \<union> W)"
      unfolding bks.simps
      by (rule exI [of _ "{}"], rule exI [of _ "A2 \<union> (A1 \<union> B)"], rule exI [of _ "{}"], rule exI [of _ "V2 \<union> (V1 \<union> W)"])
        (use s i in auto)
    moreover have "rs_step (A \<union> B) m m'"
      by (rule rs_step_trans [OF rs_step_mono [OF r(2)] rs_step_mono [OF i(2)]]) (use s in auto)
    ultimately show ?thesis using r(1) i Some by simp
  qed
qed simp

lemma sort_loop_ok:
  assumes "rlist (ents m) p as" "distinct as" "bks m bs A V" "A \<inter> set as = {}" "bounded_ents m"
    "bval bs + length as < 2 ^ length bs" "length as \<le> n"
  shows "\<exists>bs' m'. sort_loop n m p bs = Ret (bs', m') \<and> rs_step (A \<union> set as) m m' \<and>
    bks m' bs' (A \<union> set as) (V \<union> set (vals (ents m) as)) \<and> length bs' = length bs"
  using assms
proof (induction as arbitrary: n m p bs A V)
  case Nil
  then show ?case by (cases n) (auto simp: rs_step_refl)
next
  case (Cons a as)
  then obtain e k where a: "p = Some a" "ents m a = Some e" "rlist (ents m) (rs_right e) as" "n = Suc k" "a \<notin> set as"
    by (cases n) auto
  define m1 where "m1 = m\<lparr>ents := (ents m)(a \<mapsto> e\<lparr>rs_right := None\<rparr>)\<rparr>"
  have s1: "rs_step {a} m m1" unfolding m1_def by (rule rs_step_upd) (use a in auto)
  have b1: "bks m1 bs A V" by (rule bks_frame [OF s1 _ Cons.prems(3)]) (use Cons.prems(4) in auto)
  have l1: "sl m1 (Some a) {a} {rs_v e}" unfolding sl_def by (intro exI [of _ "[a]"]) (simp add: m1_def)
  have "\<exists>bs' m'. bucket_in m1 bs (Some a) = Ret (bs', m') \<and> rs_step (A \<union> {a}) m1 m' \<and>
      bks m' bs' (A \<union> {a}) (V \<union> {rs_v e}) \<and> bval bs' = bval bs + 1 \<and> length bs' = length bs"
    using Cons.prems(4,6) bounded_step [OF s1 Cons.prems(5)] by (intro bucket_in_ok [OF b1 l1]) auto
  then obtain bs2 m2 where i: "bucket_in m1 bs (Some a) = Ret (bs2, m2)" "rs_step (A \<union> {a}) m1 m2"
      "bks m2 bs2 (A \<union> {a}) (V \<union> {rs_v e})" "bval bs2 = bval bs + 1" "length bs2 = length bs" by blast
  have s2: "rs_step (A \<union> {a}) m m2" by (rule rs_step_trans [OF rs_step_mono [OF s1] i(2)]) auto
  have l2: "rlist (ents m2) (rs_right e) as" using rs_step_path [OF s2, of as] a Cons.prems(4) by auto
  have "\<exists>bs' m'. sort_loop k m2 (rs_right e) bs2 = Ret (bs', m') \<and> rs_step ((A \<union> {a}) \<union> set as) m2 m' \<and>
      bks m' bs' ((A \<union> {a}) \<union> set as) ((V \<union> {rs_v e}) \<union> set (vals (ents m2) as)) \<and> length bs' = length bs2"
    using Cons.prems a(4,5) i(4,5) bounded_step [OF s2 Cons.prems(5)] by (intro Cons.IH [OF l2 _ i(3)]) auto
  then obtain bs' m' where r: "sort_loop k m2 (rs_right e) bs2 = Ret (bs', m')" "rs_step ((A \<union> {a}) \<union> set as) m2 m'"
      "bks m' bs' ((A \<union> {a}) \<union> set as) ((V \<union> {rs_v e}) \<union> set (vals (ents m2) as))" "length bs' = length bs2" by blast
  have "rs_step (A \<union> set (a # as)) m m'"
    by (rule rs_step_trans [OF rs_step_mono [OF s2] rs_step_mono [OF r(2)]]) auto
  then show ?case using a r i rs_step_val(2) [OF s2, of as] by (simp add: m1_def)
qed

lemma sort_join_ok:
  assumes "sl m p A V" "bks m bs B W" "A \<inter> B = {}" "bounded_ents m"
  shows "\<exists>h m'. sort_join m p bs = Ret (h, m') \<and> rs_step (A \<union> B) m m' \<and> sl m' h (A \<union> B) (V \<union> W)"
  using assms
proof (induction bs arbitrary: m p A B V W)
  case Nil
  then show ?case by (auto simp: rs_step_refl intro: sl_mono)
next
  case (Cons b bs)
  then obtain A1 A2 V1 V2 where s: "A1 \<union> A2 \<subseteq> B" "A1 \<inter> A2 = {}" "W = V1 \<union> V2" "sl m b A1 V1" "bks m bs A2 V2" by auto
  have wk: "\<exists>h m'. X = Ret (h, m') \<and> rs_step (A \<union> B) m m' \<and> sl m' h (A \<union> B) (V \<union> W)"
    if "\<exists>h m'. X = Ret (h, m') \<and> rs_step (A' \<union> A2) m1 m' \<and> sl m' h (A' \<union> A2) (V \<union> V1 \<union> V2)"
       "rs_step (A \<union> B) m m1" "A' \<union> A2 \<subseteq> A \<union> B" for X A' m1
    using that s(3) by (metis rs_step_mono rs_step_trans sl_mono sup_assoc)
  show ?case
  proof (cases "b = None \<or> p = None")
    case True
    then have "\<exists>h m'. sort_join m (if b = None then p else b) bs = Ret (h, m') \<and> rs_step ((A \<union> A1) \<union> A2) m m' \<and>
        sl m' h ((A \<union> A1) \<union> A2) (V \<union> V1 \<union> V2)"
      using s Cons.prems by (intro Cons.IH [OF _ s(5)]) (auto intro: sl_mono)
    moreover have "(A \<union> A1) \<union> A2 \<subseteq> A \<union> B" using s(1) by blast
    moreover have "sort_join m p (b # bs) = sort_join m (if b = None then p else b) bs" using True by auto
    ultimately show ?thesis using wk [OF _ rs_step_refl] by presburger
  next
    case False
    then have ne: "V \<noteq> {}" "V1 \<noteq> {}" using Cons.prems(1) s(4) by auto
    have "A \<inter> A1 = {}" using s(1) Cons.prems(3) by blast
    then obtain h m1 where r: "rowSetEntryMerge m p b = Ret (h, m1)" "rs_step (A \<union> A1) m m1" "sl m1 h (A \<union> A1) (V \<union> V1)"
      using rowSetEntryMerge_ok [OF Cons.prems(1) ne(1) s(4) ne(2)] Cons.prems(4) by blast
    have b2: "bks m1 bs A2 V2" by (rule bks_frame [OF r(2) _ s(5)]) (use s Cons.prems(3) in blast)
    have "\<exists>h' m'. sort_join m1 h bs = Ret (h', m') \<and> rs_step ((A \<union> A1) \<union> A2) m1 m' \<and> sl m' h' ((A \<union> A1) \<union> A2) (V \<union> V1 \<union> V2)"
      using s Cons.prems(3) bounded_step [OF r(2) Cons.prems(4)] by (intro Cons.IH [OF r(3) b2]) auto
    moreover have "rs_step (A \<union> B) m m1" "(A \<union> A1) \<union> A2 \<subseteq> A \<union> B" by (rule rs_step_mono [OF r(2)]) (use s(1) in auto)
    moreover have "sort_join m p (b # bs) = sort_join m1 h bs" using False r(1) by auto
    ultimately show ?thesis using wk [of _ "A \<union> A1" m1] by presburger
  qed
qed

lemma bval_replicate [simp]: "bval (replicate n None) = 0"
  by (induction n) auto

lemma bks_replicate [simp]: "bks m (replicate n None) {} {}"
  by (induction n) auto

lemma rowSetEntrySort_ok:
  assumes l: "rlist (ents m) p as" "distinct as" and bd: "bounded_ents m" "next_addr m < 2 ^ 40"
  shows "\<exists>h m'. rowSetEntrySort m p = Ret (h, m') \<and> rs_step (set as) m m' \<and> sl m' h (set as) (set (vals (ents m) as))"
proof -
  have len: "length as \<le> next_addr m" by (rule rlist_bound [OF l(1) bd(1) l(2)])
  have "\<exists>bs' m'. sort_loop (next_addr m) m p (replicate 40 None) = Ret (bs', m') \<and> rs_step ({} \<union> set as) m m' \<and>
      bks m' bs' ({} \<union> set as) ({} \<union> set (vals (ents m) as)) \<and> length bs' = length (replicate 40 (None :: addr option))"
    using len bd by (intro sort_loop_ok [OF l]) auto
  then obtain bs m1 where r: "sort_loop (next_addr m) m p (replicate 40 None) = Ret (bs, m1)" "rs_step (set as) m m1"
      "bks m1 bs (set as) (set (vals (ents m) as))" "length bs = 40" by auto
  obtain b bs' where b: "bs = b # bs'" using r(4) by (cases bs) auto
  obtain A1 A2 V1 V2 where s: "A1 \<union> A2 \<subseteq> set as" "A1 \<inter> A2 = {}" "set (vals (ents m) as) = V1 \<union> V2" "sl m1 b A1 V1" "bks m1 bs' A2 V2"
    using r(3) unfolding b bks.simps by blast
  obtain h m' where j: "sort_join m1 b bs' = Ret (h, m')" "rs_step (A1 \<union> A2) m1 m'" "sl m' h (A1 \<union> A2) (V1 \<union> V2)"
    using sort_join_ok [OF s(4,5,2) bounded_step [OF r(2) bd(1)]] by blast
  have "rs_step (set as) m m'" by (rule rs_step_trans [OF r(2) rs_step_mono [OF j(2) s(1)]])
  then show ?thesis using r(1) j(1) sl_mono [OF j(3) s(1)] s(3) b by (simp add: rowSetEntrySort_def)
qed

section \<open>Trees of entries\<close>

fun rtree :: "(addr \<rightharpoonup> RowSetEntry) \<Rightarrow> addr option \<Rightarrow> addr tree \<Rightarrow> bool" where
  "rtree E p Leaf \<longleftrightarrow> p = None"
| "rtree E p (Node l a r) \<longleftrightarrow> p = Some a \<and> (\<exists>e. E a = Some e \<and> rtree E (rs_left e) l \<and> rtree E (rs_right e) r)"

lemma rtree_cong: "(\<And>a. a \<in> set_tree t \<Longrightarrow> E' a = E a) \<Longrightarrow> rtree E' p t = rtree E p t"
  by (induction t arbitrary: p) auto

lemma rtree_mem: "rtree E p t \<Longrightarrow> a \<in> set_tree t \<Longrightarrow> E a \<noteq> None"
  by (induction t arbitrary: p) auto

lemma rtree_None [simp]: "rtree E None t \<longleftrightarrow> t = Leaf"
  by (cases t) auto

lemma rs_step_tree: "rs_step A m m' \<Longrightarrow> A \<inter> set_tree t = {} \<Longrightarrow> rtree (ents m') p t = rtree (ents m) p t"
  by (rule rtree_cong) (auto simp: rs_step_def)

text \<open>
  A tree of depth \<open>d\<close> takes \<open>2\<^sup>d - 1\<close> entries from the front of the list, all there are if there are fewer.
\<close>

definition took :: "rsmem \<Rightarrow> rsmem \<Rightarrow> addr option \<Rightarrow> addr option \<Rightarrow> nat \<Rightarrow> addr list \<Rightarrow> bool" where
  "took m m' root rest d as \<longleftrightarrow> (\<exists>t ys. as = inorder t @ ys \<and> rtree (ents m') root t \<and> rlist (ents m') rest ys \<and>
     rs_step (set_tree t) m m' \<and> height t \<le> d \<and> 2 ^ height t \<le> 2 * size t + 1 \<and>
     (as \<noteq> [] \<longrightarrow> t \<noteq> Leaf) \<and> (ys \<noteq> [] \<longrightarrow> size t = 2 ^ d - 1))"

declare rowSetNDeepTree.simps [simp del]

lemma NDeepTree_simps:
  "rowSetNDeepTree m None d = Ret (None, None, m)"
  "rowSetNDeepTree m (Some a) (Suc 0) = cbind (ent m (Some a)) (\<lambda>e.
     cbind (upd_ent m (Some a) (\<lambda>e. e\<lparr>rs_left := None, rs_right := None\<rparr>)) (\<lambda>m. Ret (Some a, rs_right e, m)))"
  "0 < d \<Longrightarrow> rowSetNDeepTree m (Some a) (Suc d) = cbind (rowSetNDeepTree m (Some a) d) (\<lambda>(pLeft, p, m).
     if p = None then Ret (pLeft, p, m)
     else cbind (set_left m p pLeft) (\<lambda>m. cbind (ent m p) (\<lambda>e.
       cbind (rowSetNDeepTree m (rs_right e) d) (\<lambda>(r, pList, m). cbind (set_right m p r) (\<lambda>m. Ret (p, pList, m))))))"
  subgoal by (subst rowSetNDeepTree.simps) simp
  subgoal by (subst rowSetNDeepTree.simps) simp
  subgoal by (subst rowSetNDeepTree.simps) (simp cong: if_cong)
  done

lemma NDeepTree_1:
  assumes "rlist (ents m) p (a # as)" "distinct (a # as)"
  shows "\<exists>root rest m'. cbind (ent m p) (\<lambda>e. cbind (upd_ent m p (\<lambda>e. e\<lparr>rs_left := None, rs_right := None\<rparr>)) (\<lambda>m.
    Ret (p, rs_right e, m))) = Ret (root, rest, m') \<and> took m m' root rest 1 (a # as)"
proof -
  obtain e where e: "p = Some a" "ents m a = Some e" "rlist (ents m) (rs_right e) as" using assms(1) by auto
  let ?m = "m\<lparr>ents := (ents m)(a \<mapsto> e\<lparr>rs_left := None, rs_right := None\<rparr>)\<rparr>"
  have "took m ?m (Some a) (rs_right e) 1 (a # as)"
    unfolding took_def
    by (rule exI [of _ "Node Leaf a Leaf"], rule exI [of _ as]) (use e assms(2) in \<open>auto simp: rs_step_def\<close>)
  then show ?thesis using e by simp
qed

text \<open>The middle entry \<open>a\<close> with the tree before it and the tree after it.\<close>

lemma full_Node:
  assumes "size t = 2 ^ d - 1" "height t \<le> d" "height tr \<le> d"
  shows "2 ^ height (Node t a tr) \<le> 2 * size (Node t a tr) + 1" "size tr = 2 ^ d - 1 \<Longrightarrow> size (Node t a tr) = 2 ^ Suc d - 1"
proof -
  have "(2 :: nat) ^ height (Node t a tr) \<le> 2 ^ Suc d" using assms(2,3) by (intro power_increasing) auto
  moreover have s: "size t + 1 = 2 ^ d" using assms(1) by simp
  moreover have "2 ^ Suc d \<le> 2 * size (Node t a tr) + 1" using s by simp
  ultimately show "2 ^ height (Node t a tr) \<le> 2 * size (Node t a tr) + 1" by linarith
  assume "size tr = 2 ^ d - 1"
  then have "size tr + 1 = 2 ^ d" by simp
  then show "size (Node t a tr) = 2 ^ Suc d - 1" using s by simp
qed

lemma took_Node:
  assumes l: "rtree (ents m1) pl t" "rs_step (set_tree t) m m1" "size t = 2 ^ d - 1" "height t \<le> d"
    and a: "ents m1 a = Some e" and d: "distinct (inorder t @ a # as)"
    and r: "took (m1\<lparr>ents := (ents m1)(a \<mapsto> e\<lparr>rs_left := pl\<rparr>)\<rparr>) m2 pr rest d as"
  shows "\<exists>e2. ents m2 a = Some e2 \<and>
    took m (m2\<lparr>ents := (ents m2)(a \<mapsto> e2\<lparr>rs_right := pr\<rparr>)\<rparr>) (Some a) rest (Suc d) (inorder t @ a # as)"
proof -
  let ?m1 = "m1\<lparr>ents := (ents m1)(a \<mapsto> e\<lparr>rs_left := pl\<rparr>)\<rparr>"
  obtain tr ys where t: "as = inorder tr @ ys" "rtree (ents m2) pr tr" "rlist (ents m2) rest ys"
      "rs_step (set_tree tr) ?m1 m2" "height tr \<le> d" "ys \<noteq> [] \<longrightarrow> size tr = 2 ^ d - 1"
    using r unfolding took_def by blast
  have dis: "a \<notin> set_tree t" "a \<notin> set_tree tr" "a \<notin> set ys" "set_tree t \<inter> set_tree tr = {}"
    using d t(1) by auto
  have a2: "ents m2 a = Some (e\<lparr>rs_left := pl\<rparr>)" using rs_stepD(5) [OF t(4) dis(2)] by simp
  let ?e = "e\<lparr>rs_left := pl, rs_right := pr\<rparr>" and ?m2 = "m2\<lparr>ents := (ents m2)(a \<mapsto> e\<lparr>rs_left := pl, rs_right := pr\<rparr>)\<rparr>"
  have pl: "rtree ((ents m2)(a \<mapsto> ?e)) pl t"
    using l(1) rs_stepD(5) [OF t(4)] dis by (subst rtree_cong [of t _ "ents m1"]) (auto simp: disjoint_iff)
  have pr: "rtree ((ents m2)(a \<mapsto> ?e)) pr tr" using t(2) dis by (subst rtree_cong [of tr _ "ents m2"]) auto
  have step: "rs_step (set_tree (Node t a tr)) m ?m2"
  proof (rule rs_step_trans [OF rs_step_mono [OF l(2)]])
    have s1: "rs_step (set_tree (Node t a tr)) m1 ?m1" by (rule rs_step_upd) (use a in auto)
    have s3: "rs_step (set_tree (Node t a tr)) m2 ?m2"
      using rs_step_upd [of m2 a _ "rs_right_update (\<lambda>_. pr)" "set_tree (Node t a tr)"] a2 by simp
    have s2: "rs_step (set_tree (Node t a tr)) ?m1 m2" by (rule rs_step_mono [OF t(4)]) auto
    show "rs_step (set_tree (Node t a tr)) m1 ?m2" by (rule rs_step_trans [OF rs_step_trans [OF s1 s2] s3])
  qed auto
  have "took m ?m2 (Some a) rest (Suc d) (inorder t @ a # as)"
    unfolding took_def
  proof (rule exI [of _ "Node t a tr"], rule exI [of _ ys], intro conjI)
    show "inorder t @ a # as = inorder \<langle>t, a, tr\<rangle> @ ys" using t(1) by simp
    show "rtree (ents ?m2) (Some a) \<langle>t, a, tr\<rangle>" using pl pr by simp
    show "rlist (ents ?m2) rest ys" using t(3) dis by simp
    show "height \<langle>t, a, tr\<rangle> \<le> Suc d" using t(5) l(4) by simp
    show "2 ^ height \<langle>t, a, tr\<rangle> \<le> 2 * size \<langle>t, a, tr\<rangle> + 1" by (rule full_Node(1) [OF l(3,4) t(5)])
    show "ys \<noteq> [] \<longrightarrow> size \<langle>t, a, tr\<rangle> = 2 ^ Suc d - 1" using t(6) full_Node(2) [OF l(3,4) t(5)] by blast
  qed (use step in simp_all)
  then show ?thesis using a2 by simp
qed

lemma rowSetNDeepTree_ok:
  assumes "rlist (ents m) p as" "distinct as" "0 < d"
  shows "\<exists>root rest m'. rowSetNDeepTree m p d = Ret (root, rest, m') \<and> took m m' root rest d as"
  using assms
proof (induction d arbitrary: m p as)
  case (Suc d)
  show ?case
  proof (cases as)
    case Nil
    have "took m m None None (Suc d) []" unfolding took_def by (auto intro!: exI [of _ Leaf] rs_step_refl)
    then show ?thesis using Suc.prems Nil by (auto simp: NDeepTree_simps)
  next
    case (Cons a as')
    then have p: "p = Some a" using Suc.prems by auto
    consider "d = 0" | "0 < d" by auto
    then show ?thesis
    proof cases
      case 1
      then show ?thesis using NDeepTree_1 [of m p a as'] Suc.prems Cons p by (simp add: NDeepTree_simps)
    next
      case 2
      obtain pl q m1 where l: "rowSetNDeepTree m p d = Ret (pl, q, m1)" "took m m1 pl q d as"
        using Suc.IH Suc.prems 2 by blast
      then obtain t ys where t: "as = inorder t @ ys" "rtree (ents m1) pl t" "rlist (ents m1) q ys"
          "rs_step (set_tree t) m m1" "height t \<le> d" "t \<noteq> Leaf" "ys \<noteq> [] \<longrightarrow> size t = 2 ^ d - 1" "2 ^ height t \<le> 2 * size t + 1"
        using Cons by (auto simp: took_def)
      show ?thesis
      proof (cases ys)
        case Nil
        have "took m m1 pl q (Suc d) as" unfolding took_def using t Nil by (intro exI [of _ t] exI [of _ ys]) auto
        then show ?thesis using l(1) p 2 t(3) Nil by (simp add: NDeepTree_simps)
      next
        case (Cons b ys')
        then obtain e where e: "q = Some b" "ents m1 b = Some e" "rlist (ents m1) (rs_right e) ys'" using t(3) by auto
        let ?m1 = "m1\<lparr>ents := (ents m1)(b \<mapsto> e\<lparr>rs_left := pl\<rparr>)\<rparr>"
        have d: "distinct (inorder t @ b # ys')" "b \<notin> set ys'" "distinct ys'" using Suc.prems(2) t(1) Cons by auto
        have l1: "rlist (ents ?m1) (rs_right e) ys'" using e(3) d(2) by simp
        obtain pr rest m2 where r: "rowSetNDeepTree ?m1 (rs_right e) d = Ret (pr, rest, m2)" "took ?m1 m2 pr rest d ys'"
          using Suc.IH [OF l1 d(3) 2] by blast
        then show ?thesis
          using took_Node [OF t(2,4) _ t(5) e(2) d(1) r(2)] t(1,7) Cons l(1) p 2 e by (auto simp: NDeepTree_simps)
      qed
    qed
  qed
qed simp

lemma list_to_tree_ok:
  assumes "rtree (ents m) p t" "size t = 2 ^ d - 1" "height t \<le> d" "0 < d" "2 ^ height t \<le> 2 * size t + 1"
    "rlist (ents m) q as" "distinct (inorder t @ as)" "length as \<le> n" "t \<noteq> Leaf"
  shows "\<exists>root m' t'. list_to_tree_loop n m p q d = Ret (root, m') \<and> rtree (ents m') root t' \<and>
    inorder t' = inorder t @ as \<and> rs_step (set (inorder t @ as)) m m' \<and> 2 ^ height t' \<le> 2 * size t' + 1"
  using assms
proof (induction n arbitrary: m p q t d as)
  case 0
  then show ?case by (auto simp: rs_step_refl)
next
  case (Suc n)
  show ?case
  proof (cases as)
    case Nil
    then show ?thesis using Suc.prems by (auto simp: rs_step_refl)
  next
    case (Cons a as')
    then obtain e where e: "q = Some a" "ents m a = Some e" "rlist (ents m) (rs_right e) as'" using Suc.prems(6) by auto
    let ?m1 = "m\<lparr>ents := (ents m)(a \<mapsto> e\<lparr>rs_left := p\<rparr>)\<rparr>"
    have d: "distinct (inorder t @ a # as')" "a \<notin> set as'" "distinct as'" using Suc.prems(7) Cons by auto
    have l1: "rlist (ents ?m1) (rs_right e) as'" using e(3) d(2) by simp
    obtain pr rest m2 where r: "rowSetNDeepTree ?m1 (rs_right e) d = Ret (pr, rest, m2)" "took ?m1 m2 pr rest d as'"
      using rowSetNDeepTree_ok [OF l1 d(3) Suc.prems(4)] by blast
    obtain e2 where e2: "ents m2 a = Some e2"
        "took m (m2\<lparr>ents := (ents m2)(a \<mapsto> e2\<lparr>rs_right := pr\<rparr>)\<rparr>) (Some a) rest (Suc d) (inorder t @ as)"
      using took_Node [OF Suc.prems(1) rs_step_refl Suc.prems(2,3) e(2) d(1) r(2)] Cons by blast
    define m3 where "m3 = m2\<lparr>ents := (ents m2)(a \<mapsto> e2\<lparr>rs_right := pr\<rparr>)\<rparr>"
    obtain t2 ys where t: "inorder t @ as = inorder t2 @ ys" "rtree (ents m3) (Some a) t2" "rlist (ents m3) rest ys"
        "rs_step (set_tree t2) m m3" "height t2 \<le> Suc d" "t2 \<noteq> Leaf" "ys \<noteq> [] \<longrightarrow> size t2 = 2 ^ Suc d - 1"
        "2 ^ height t2 \<le> 2 * size t2 + 1"
      using e2(2) Cons unfolding m3_def [symmetric] by (auto simp: took_def)
    have eq: "list_to_tree_loop (Suc n) m p q d = list_to_tree_loop n m3 (Some a) rest (Suc d)"
      using e r(1) e2(1) by (simp add: m3_def)
    have sub: "set_tree t2 \<subseteq> set (inorder t @ as)" using t(1) by (metis set_append set_inorder sup_ge1)
    show ?thesis
    proof (cases ys)
      case Nil
      then show ?thesis using eq t rs_step_mono [OF t(4) sub] by (cases n) auto
    next
      case (Cons y ys')
      have "length (inorder t @ as) = length (inorder t2 @ ys)" by (simp only: t(1))
      then have "size t + length as = 2 ^ Suc d - 1 + length ys" using t(7) Cons by simp
      moreover have "size t + 1 = 2 ^ d" using Suc.prems(2) by simp
      ultimately have "length ys \<le> n" using Suc.prems(8) by simp
      then have "\<exists>root m' t'. list_to_tree_loop n m3 (Some a) rest (Suc d) = Ret (root, m') \<and> rtree (ents m') root t' \<and>
          inorder t' = inorder t2 @ ys \<and> rs_step (set (inorder t2 @ ys)) m3 m' \<and> 2 ^ height t' \<le> 2 * size t' + 1"
        using t Cons Suc.prems(7) by (intro Suc.IH) auto
      then show ?thesis using eq t(1) rs_step_mono [OF t(4) sub] by (auto intro: rs_step_trans)
    qed
  qed
qed

text \<open>\<open>st m p A V\<close>: a search tree from \<open>p\<close> with entries in \<open>A\<close> and the values \<open>V\<close>.\<close>

definition st :: "rsmem \<Rightarrow> addr option \<Rightarrow> addr set \<Rightarrow> int set \<Rightarrow> bool" where
  "st m p A V \<longleftrightarrow> (\<exists>t. rtree (ents m) p t \<and> strict (vals (ents m) (inorder t)) \<and> V = set (vals (ents m) (inorder t)) \<and>
     set_tree t \<subseteq> A \<and> 2 ^ height t \<le> 2 * size t + 1)"

lemma st_None [simp]: "st m None A V \<longleftrightarrow> V = {}"
  by (auto simp: st_def)

lemma st_empty [simp]: "st m p A {} \<longleftrightarrow> p = None"
proof
  assume "st m p A {}"
  then obtain t where "rtree (ents m) p t" "{} = set (vals (ents m) (inorder t))" unfolding st_def by blast
  then show "p = None" by (cases t) auto
qed simp

lemma st_cong:
  assumes "\<forall>a \<in> A. ents m' a = ents m a" "st m p A V"
  shows "st m' p A V"
proof -
  obtain t where t: "rtree (ents m) p t" "strict (vals (ents m) (inorder t))" "V = set (vals (ents m) (inorder t))"
      "set_tree t \<subseteq> A" "2 ^ height t \<le> 2 * size t + 1"
    using assms(2) unfolding st_def by blast
  have "rtree (ents m') p t" using t(1) rtree_cong [of t "ents m'" "ents m"] assms(1) t(4) by blast
  moreover have "vals (ents m') (inorder t) = vals (ents m) (inorder t)" by (rule vals_cong) (use assms(1) t(4) in auto)
  ultimately show ?thesis unfolding st_def using t(2-5) by (intro exI [of _ t]) simp
qed

lemma st_frame: "rs_step B m m' \<Longrightarrow> A \<inter> B = {} \<Longrightarrow> st m p A V \<Longrightarrow> st m' p A V"
  by (rule st_cong) (auto simp: rs_step_def)

lemma st_mono: "st m p A V \<Longrightarrow> A \<subseteq> B \<Longrightarrow> st m p B V"
proof -
  assume "st m p A V" "A \<subseteq> B"
  then obtain t where "rtree (ents m) p t" "strict (vals (ents m) (inorder t))" "V = set (vals (ents m) (inorder t))"
      "set_tree t \<subseteq> B" "2 ^ height t \<le> 2 * size t + 1"
    unfolding st_def by auto
  then show "st m p B V" unfolding st_def by (intro exI conjI)
qed

lemma rowSetListToTree_ok:
  assumes l: "sl m p A V" "V \<noteq> {}" and bd: "bounded_ents m"
  shows "\<exists>root m'. rowSetListToTree m p = Ret (root, m') \<and> rs_step A m m' \<and> st m' root A V"
proof -
  obtain as where as: "rlist (ents m) p as" "strict (vals (ents m) as)" "V = set (vals (ents m) as)" "set as \<subseteq> A"
    using l(1) unfolding sl_def by blast
  then obtain a as' e where a: "as = a # as'" "p = Some a" "ents m a = Some e" "rlist (ents m) (rs_right e) as'"
    using l(2) by (cases as) auto
  have dis: "distinct as" using as(2) by (rule strict_distinct)
  define m1 where "m1 = m\<lparr>ents := (ents m)(a \<mapsto> e\<lparr>rs_left := None, rs_right := None\<rparr>)\<rparr>"
  have s1: "rs_step (set as) m m1" unfolding m1_def by (rule rs_step_upd) (use a in auto)
  have len: "length as' \<le> next_addr m1" using rlist_bound [OF as(1) bd dis] rs_stepD(1) [OF s1] a(1) by simp
  have r1: "rtree (ents m1) p (Node Leaf a Leaf)" "rlist (ents m1) (rs_right e) as'"
    using a dis by (simp_all add: m1_def)
  obtain root m' t where r: "list_to_tree_loop (next_addr m1) m1 p (rs_right e) 1 = Ret (root, m')" "rtree (ents m') root t"
      "inorder t = as" "rs_step (set as) m1 m'" "2 ^ height t \<le> 2 * size t + 1"
    using list_to_tree_ok [OF r1(1) _ _ _ _ r1(2) _ len, of 1] dis a(1) by auto
  have s: "rs_step (set as) m m'" by (rule rs_step_trans [OF s1 r(4)])
  have "set_tree t = set as" using r(3) by (metis set_inorder)
  then have "st m' root A V"
    unfolding st_def rs_step_val(2) [OF s] using r as by (intro exI [of _ t]) simp
  then show ?thesis using r(1) a rs_step_mono [OF s as(4)] by (auto simp: rowSetListToTree_def m1_def)
qed

lemma tree_to_list_ok:
  assumes "rtree (ents m) p t" "t \<noteq> Leaf" "distinct (inorder t)" "height t \<le> n"
  shows "\<exists>f m'. tree_to_list n m p = Ret (f, Some (last (inorder t)), m') \<and> rs_step (set_tree t) m m' \<and>
    rlist (ents m') f (inorder t)"
  using assms
proof (induction n arbitrary: m p t)
  case (Suc n)
  then obtain l a r e where t: "t = Node l a r" "p = Some a" "ents m a = Some e" "rtree (ents m) (rs_left e) l" "rtree (ents m) (rs_right e) r"
    by (cases t) auto
  have dis: "a \<notin> set_tree l" "a \<notin> set_tree r" "set_tree l \<inter> set_tree r = {}" "distinct (inorder l)" "distinct (inorder r)"
    using Suc.prems(3) t(1) by auto
  have hs: "height l \<le> n" "height r \<le> n" using Suc.prems(4) t(1) by auto
  have "\<exists>f m1. (if rs_left e \<noteq> None then cbind (tree_to_list n m (rs_left e)) (\<lambda>(pFirst, p, m).
      cbind (set_right m p (Some a)) (\<lambda>m. Ret (pFirst, m))) else Ret (Some a, m)) = Ret (f, m1) \<and>
      rs_step (set_tree l) m m1 \<and> rpath (ents m1) f (inorder l) (Some a)"
  proof (cases "l = Leaf")
    case False
    obtain f m1 where i: "tree_to_list n m (rs_left e) = Ret (f, Some (last (inorder l)), m1)" "rs_step (set_tree l) m m1"
        "rlist (ents m1) f (inorder l)"
      using Suc.IH [OF t(4) False dis(4) hs(1)] by blast
    obtain us u where u: "inorder l = us @ [u]" using False by (metis inorder.simps(1) neq_Leaf_iff inorder.simps(2) append_is_Nil_conv not_Cons_self2 rev_exhaust)
    then obtain eu where eu: "rpath (ents m1) f us (Some u)" "ents m1 u = Some eu" using i(3) by (auto simp: rpath_append)
    have ul: "u \<in> set_tree l" "u \<notin> set us" using u dis(4) by (metis in_set_conv_decomp set_inorder, simp)
    have s: "rs_step (set_tree l) m (m1\<lparr>ents := (ents m1)(u \<mapsto> eu\<lparr>rs_right := Some a\<rparr>)\<rparr>)"
      using rs_step_trans [OF i(2) rs_step_upd [OF eu(2) _ ul(1), of "rs_right_update (\<lambda>_. Some a)"]] by simp
    have "rs_left e \<noteq> None" using t(4) False by (cases l) auto
    then show ?thesis using i(1) s eu u ul(2) by (auto simp: rpath_append)
  qed (use t(4) in \<open>auto simp: rs_step_refl\<close>)
  then obtain f m1 where L: "(if rs_left e \<noteq> None then cbind (tree_to_list n m (rs_left e)) (\<lambda>(pFirst, p, m).
      cbind (set_right m p (Some a)) (\<lambda>m. Ret (pFirst, m))) else Ret (Some a, m)) = Ret (f, m1)"
      "rs_step (set_tree l) m m1" "rpath (ents m1) f (inorder l) (Some a)" by blast
  have a1: "ents m1 a = Some e" "rtree (ents m1) (rs_right e) r"
    using rs_stepD(5) [OF L(2) dis(1)] t(3,5) rs_step_tree [OF L(2) dis(3)] by auto
  show ?case
  proof (cases "r = Leaf")
    case True
    then show ?thesis using L a1 t rs_step_mono [OF L(2), of "set_tree t"] by (auto simp: rpath_append)
  next
    case False
    obtain g m2 where i: "tree_to_list n m1 (rs_right e) = Ret (g, Some (last (inorder r)), m2)" "rs_step (set_tree r) m1 m2"
        "rlist (ents m2) g (inorder r)"
      using Suc.IH [OF a1(2) False dis(5) hs(2)] by blast
    have a2: "ents m2 a = Some e" using rs_stepD(5) [OF i(2) dis(2)] a1(1) by simp
    define m3 where "m3 = m2\<lparr>ents := (ents m2)(a \<mapsto> e\<lparr>rs_right := g\<rparr>)\<rparr>"
    have s23: "rs_step (set_tree t) m2 m3" unfolding m3_def by (rule rs_step_upd) (use a2 t(1) in auto)
    have s: "rs_step (set_tree t) m m3"
      by (rule rs_step_trans [OF rs_step_trans [OF rs_step_mono [OF L(2)] rs_step_mono [OF i(2)]] s23]) (use t(1) in auto)
    have "rpath (ents m2) f (inorder l) (Some a)" using L(3) rs_step_path [OF i(2), of "inorder l"] dis(3) by auto
    then have "rlist (ents m3) f (inorder t)"
      using i(3) dis(1,2) t(1) by (auto simp: m3_def rpath_append)
    moreover have "rs_right e \<noteq> None" using a1(2) False by (cases r) auto
    moreover have "last (inorder t) = last (inorder r)" using False t(1) by (cases r) auto
    ultimately show ?thesis using L(1) a1 i(1) a2 s t by (auto simp: m3_def)
  qed
qed simp

lemma rtree_bound:
  assumes "rtree (ents m) p t" "distinct (inorder t)" "bounded_ents m"
  shows "height t \<le> next_addr m"
proof -
  have "length (inorder t) \<le> next_addr m"
    by (rule distinct_bound [OF assms(2)]) (use assms(3) rtree_mem [OF assms(1)] in auto)
  then show ?thesis using height_le_size_tree [of t] by simp
qed

lemma rowSetTreeToList_ok:
  assumes "st m p A V" "V \<noteq> {}" "bounded_ents m"
  shows "\<exists>f l m'. rowSetTreeToList m p = Ret (f, l, m') \<and> rs_step A m m' \<and> sl m' f A V"
proof -
  obtain t where t: "rtree (ents m) p t" "strict (vals (ents m) (inorder t))" "V = set (vals (ents m) (inorder t))" "set_tree t \<subseteq> A"
    using assms(1) unfolding st_def by blast
  have d: "distinct (inorder t)" using t(2) by (rule strict_distinct)
  have "t \<noteq> Leaf" using t(3) assms(2) by auto
  then obtain f m' where r: "rowSetTreeToList m p = Ret (f, Some (last (inorder t)), m')" "rs_step (set_tree t) m m'" "rlist (ents m') f (inorder t)"
    using tree_to_list_ok [OF t(1) _ d rtree_bound [OF t(1) d assms(3)]] unfolding rowSetTreeToList_def by blast
  have "sl m' f A V" unfolding sl_def rs_step_val(2) [OF r(2)] using r(3) t by (intro exI [of _ "inorder t"]) simp
  then show ?thesis using r(1) rs_step_mono [OF r(2) t(4)] by blast
qed

lemma tree_search_path:
  assumes "rtree (ents m) p t" "strict (vals (ents m) (inorder t))" "height t \<le> n"
  shows "tree_search n m r p = Ret (r \<in> set (vals (ents m) (inorder t)))"
  using assms
proof (induction n arbitrary: p t)
  case (Suc n)
  show ?case
  proof (cases t)
    case Leaf
    then show ?thesis using Suc.prems by simp
  next
    case (Node tl a tr)
    then obtain e where e: "p = Some a" "ents m a = Some e" "rtree (ents m) (rs_left e) tl" "rtree (ents m) (rs_right e) tr"
      using Suc.prems(1) by auto
    have ord: "strict (vals (ents m) (inorder tl))" "strict (vals (ents m) (inorder tr))"
        "\<forall>v \<in> set (vals (ents m) (inorder tl)). v < rs_v e" "\<forall>v \<in> set (vals (ents m) (inorder tr)). rs_v e < v"
      using Suc.prems(2) e(2) unfolding Node by (auto simp: sorted_wrt_append)
    have h: "height tl \<le> n" "height tr \<le> n" using Suc.prems(3) Node by auto
    consider "rs_v e < r" | "r < rs_v e" | "r = rs_v e" by linarith
    then show ?thesis
      by cases (use Suc.IH [OF e(3) ord(1) h(1)] Suc.IH [OF e(4) ord(2) h(2)] e Node ord(3,4) in auto)
  qed
qed simp

lemma tree_search_ok: "st m p A V \<Longrightarrow> bounded_ents m \<Longrightarrow> tree_search (next_addr m) m r p = Ret (r \<in> V)"
  unfolding st_def by (elim exE conjE) (simp add: tree_search_path rtree_bound strict_distinct)

section \<open>The forest\<close>

text \<open>The cells \<open>fs\<close> of the forest from \<open>p\<close>; their trees have entries in \<open>A\<close> and the values \<open>S\<close>.\<close>

fun frst :: "rsmem \<Rightarrow> addr option \<Rightarrow> addr list \<Rightarrow> addr set \<Rightarrow> int set \<Rightarrow> bool" where
  "frst m p [] A S \<longleftrightarrow> p = None \<and> S = {}"
| "frst m p (c # fs) A S \<longleftrightarrow> p = Some c \<and> (\<exists>e A1 A2 S1 S2. ents m c = Some e \<and> A1 \<union> A2 \<subseteq> A \<and> A1 \<inter> A2 = {} \<and>
     S = S1 \<union> S2 \<and> st m (rs_left e) A1 S1 \<and> frst m (rs_right e) fs A2 S2)"

lemma frst_rlist: "frst m p fs A S \<Longrightarrow> rlist (ents m) p fs"
  by (induction fs arbitrary: p A S) auto

lemma frst_cong: "\<forall>a \<in> A \<union> set fs. ents m' a = ents m a \<Longrightarrow> frst m p fs A S \<Longrightarrow> frst m' p fs A S"
proof (induction fs arbitrary: p A S)
  case (Cons c fs)
  obtain e A1 A2 S1 S2 where s: "p = Some c" "ents m c = Some e" "A1 \<union> A2 \<subseteq> A" "A1 \<inter> A2 = {}" "S = S1 \<union> S2"
      "st m (rs_left e) A1 S1" "frst m (rs_right e) fs A2 S2"
    using Cons.prems(2) unfolding frst.simps by blast
  have "st m' (rs_left e) A1 S1" by (rule st_cong [OF _ s(6)]) (use Cons.prems(1) s(3) in auto)
  moreover have "frst m' (rs_right e) fs A2 S2" by (rule Cons.IH [OF _ s(7)]) (use Cons.prems(1) s(3) in auto)
  moreover have "ents m' c = Some e" using Cons.prems(1) s(2) by simp
  ultimately show ?case unfolding frst.simps using s(1,3-5) by (intro conjI exI)
qed simp

lemma frst_frame: "rs_step B m m' \<Longrightarrow> A \<inter> B = {} \<Longrightarrow> set fs \<inter> B = {} \<Longrightarrow> frst m p fs A S \<Longrightarrow> frst m' p fs A S"
  by (rule frst_cong) (auto simp: rs_step_def)

lemma forest_search_ok:
  assumes "frst m p fs A S" "bounded_ents m" "length fs \<le> n"
  shows "forest_search n m r p = Ret (r \<in> S)"
  using assms
proof (induction fs arbitrary: n p A S)
  case Nil
  then show ?case by (cases n) auto
next
  case (Cons c fs)
  obtain e A1 A2 S1 S2 where s: "p = Some c" "ents m c = Some e" "S = S1 \<union> S2"
      "st m (rs_left e) A1 S1" "frst m (rs_right e) fs A2 S2"
    using Cons.prems(1) unfolding frst.simps by blast
  obtain k where k: "n = Suc k" "length fs \<le> k" using Cons.prems(3) by (cases n) auto
  show ?case using tree_search_ok [OF s(4) Cons.prems(2), of r] Cons.IH [OF s(5) Cons.prems(2) k(2)] s(1-3) k(1) by auto
qed

text \<open>Giving the first cell another tree.\<close>

lemma frst_set_left:
  assumes c: "ents m c = Some e" and t: "st m q A1 S1" and f: "frst m (rs_right e) fs A2 S2"
    and d: "c \<notin> A1" "c \<notin> A2" "c \<notin> set fs" "A1 \<inter> A2 = {}"
  shows "frst (m\<lparr>ents := (ents m)(c \<mapsto> e\<lparr>rs_left := q\<rparr>)\<rparr>) (Some c) (c # fs) (A1 \<union> A2) (S1 \<union> S2)"
proof -
  let ?m = "m\<lparr>ents := (ents m)(c \<mapsto> e\<lparr>rs_left := q\<rparr>)\<rparr>"
  have s: "rs_step {c} m ?m" by (rule rs_step_upd [OF c]) auto
  have "st ?m q A1 S1" by (rule st_frame [OF s _ t]) (use d in auto)
  moreover have "frst ?m (rs_right e) fs A2 S2" by (rule frst_frame [OF s _ _ f]) (use d in auto)
  ultimately show ?thesis unfolding frst.simps using d(4)
    by (intro conjI exI [of _ "e\<lparr>rs_left := q\<rparr>"] exI [of _ A1] exI [of _ A2] exI [of _ S1] exI [of _ S2]) simp_all
qed

lemma frst_mono: "frst m p fs A S \<Longrightarrow> A \<subseteq> B \<Longrightarrow> frst m p fs B S"
proof (cases fs)
  case (Cons c fs')
  assume "frst m p fs A S" "A \<subseteq> B"
  then obtain e A1 A2 S1 S2 where "p = Some c" "ents m c = Some e" "A1 \<union> A2 \<subseteq> B" "A1 \<inter> A2 = {}" "S = S1 \<union> S2"
      "st m (rs_left e) A1 S1" "frst m (rs_right e) fs' A2 S2"
    unfolding Cons frst.simps by (elim conjE exE, metis order_trans)
  then show "frst m p fs B S" unfolding Cons frst.simps by (intro conjI exI)
qed auto

text \<open>
  The list ends up in a tree of the forest, or all trees of the forest have been merged into it.
\<close>

definition put_in :: "rsmem \<Rightarrow> addr option \<Rightarrow> addr list \<Rightarrow> addr option \<Rightarrow> addr set \<Rightarrow> int set \<Rightarrow> addr option \<times> addr option \<times> addr option \<times> rsmem \<Rightarrow> bool" where
  "put_in m q fs prev A V = (\<lambda>(prev', pTree, p', m'). rs_step (A \<union> set fs) m m' \<and>
     (if pTree \<noteq> None then frst m' q fs A V
      else prev' = (if fs = [] then prev else Some (last fs)) \<and> frst m' q fs {} {} \<and> sl m' p' A V))"

text \<open>A cell receives the list as its tree.\<close>

lemma forest_plant:
  assumes c: "ents m c = Some e" and f: "frst m (rs_right e) fs A S" and l: "sl m p B W" "W \<noteq> {}" and bd: "bounded_ents m"
    and d: "c \<notin> A" "c \<notin> B" "c \<notin> set fs" "A \<inter> B = {}" "set fs \<inter> B = {}"
  shows "\<exists>t m1 m2. rowSetListToTree m p = Ret (t, m1) \<and> set_left m1 (Some c) t = Ret m2 \<and> rs_step (B \<union> {c}) m m2 \<and>
    frst m2 (Some c) (c # fs) (A \<union> B) (S \<union> W)"
proof -
  obtain t m1 where t: "rowSetListToTree m p = Ret (t, m1)" "rs_step B m m1" "st m1 t B W"
    using rowSetListToTree_ok [OF l bd] by blast
  have c1: "ents m1 c = Some e" using rs_stepD(5) [OF t(2) d(2)] c by simp
  have f1: "frst m1 (rs_right e) fs A S" by (rule frst_frame [OF t(2) d(4,5) f])
  define m2 where "m2 = m1\<lparr>ents := (ents m1)(c \<mapsto> e\<lparr>rs_left := t\<rparr>)\<rparr>"
  have "frst m2 (Some c) (c # fs) (B \<union> A) (W \<union> S)"
    unfolding m2_def by (rule frst_set_left [OF c1 t(3) f1]) (use d in auto)
  then have f2: "frst m2 (Some c) (c # fs) (A \<union> B) (S \<union> W)" by (metis Un_commute)
  have s2: "rs_step {c} m1 m2" unfolding m2_def by (rule rs_step_upd [OF c1]) auto
  have "rs_step (B \<union> {c}) m m2" by (rule rs_step_trans [OF rs_step_mono [OF t(2)] rs_step_mono [OF s2]]) auto
  then show ?thesis using t(1) c1 f2 by (intro exI [of _ t] exI [of _ m1] exI [of _ m2]) (simp_all add: m2_def)
qed

text \<open>The tree of a cell is merged into the list.\<close>

lemma forest_carry:
  assumes c: "ents m c = Some e" and t: "st m (rs_left e) A S" "S \<noteq> {}" and l: "sl m p B W" "W \<noteq> {}" and bd: "bounded_ents m"
    and d: "c \<notin> A" "c \<notin> B" "A \<inter> B = {}"
  shows "\<exists>f l m1 m2 h m3. rowSetTreeToList m (rs_left e) = Ret (f, l, m1) \<and> set_left m1 (Some c) None = Ret m2 \<and>
    rowSetEntryMerge m2 f p = Ret (h, m3) \<and> rs_step (A \<union> B \<union> {c}) m m3 \<and> ents m3 c = Some (e\<lparr>rs_left := None\<rparr>) \<and>
    sl m3 h (A \<union> B) (S \<union> W)"
proof -
  obtain f l m1 where f: "rowSetTreeToList m (rs_left e) = Ret (f, l, m1)" "rs_step A m m1" "sl m1 f A S"
    using rowSetTreeToList_ok [OF t bd] by blast
  have c1: "ents m1 c = Some e" using rs_stepD(5) [OF f(2) d(1)] c by simp
  define m2 where "m2 = m1\<lparr>ents := (ents m1)(c \<mapsto> e\<lparr>rs_left := None\<rparr>)\<rparr>"
  have s2: "rs_step {c} m1 m2" unfolding m2_def by (rule rs_step_upd [OF c1]) auto
  have s02: "rs_step (A \<union> {c}) m m2" by (rule rs_step_trans [OF rs_step_mono [OF f(2)] rs_step_mono [OF s2]]) auto
  have l2: "sl m2 f A S" by (rule sl_frame [OF s2 _ f(3)]) (use d in auto)
  have p2: "sl m2 p B W" by (rule sl_frame [OF s02 _ l(1)]) (use d in auto)
  obtain h m3 where h: "rowSetEntryMerge m2 f p = Ret (h, m3)" "rs_step (A \<union> B) m2 m3" "sl m3 h (A \<union> B) (S \<union> W)"
    using rowSetEntryMerge_ok [OF l2 t(2) p2 l(2) d(3) bounded_step [OF s02 bd]] by blast
  have "rs_step (A \<union> B \<union> {c}) m m3" by (rule rs_step_trans [OF rs_step_mono [OF s02] rs_step_mono [OF h(2)]]) auto
  moreover have "ents m3 c = Some (e\<lparr>rs_left := None\<rparr>)" using rs_stepD(5) [OF h(2), of c] d by (simp add: m2_def)
  moreover have "set_left m1 (Some c) None = Ret m2" using c1 by (simp add: m2_def)
  ultimately show ?thesis using f(1) h(1,3) by blast
qed

lemma forest_loop_ok:
  assumes "frst m q fs A S" "sl m p B W" "W \<noteq> {}" "A \<inter> B = {}" "set fs \<inter> (A \<union> B) = {}" "distinct fs" "bounded_ents m" "length fs \<le> n"
  shows "\<exists>r. forest_loop n m prev q p = Ret r \<and> put_in m q fs prev (A \<union> B) (S \<union> W) r"
  using assms
proof (induction fs arbitrary: n m prev q p A S B W)
  case Nil
  then show ?case by (cases n) (auto simp: put_in_def rs_step_refl intro: sl_mono)
next
  case (Cons c fs)
  obtain e A1 A2 S1 S2 where s: "q = Some c" "ents m c = Some e" "A1 \<union> A2 \<subseteq> A" "A1 \<inter> A2 = {}" "S = S1 \<union> S2"
      "st m (rs_left e) A1 S1" "frst m (rs_right e) fs A2 S2"
    using Cons.prems(1) unfolding frst.simps by blast
  obtain k where k: "n = Suc k" "length fs \<le> k" using Cons.prems(8) by (cases n) auto
  have d: "c \<notin> A1" "c \<notin> A2" "c \<notin> B" "c \<notin> set fs" "A1 \<inter> B = {}" "A2 \<inter> B = {}" "set fs \<inter> B = {}" "set fs \<inter> A1 = {}" "set fs \<inter> A2 = {}"
    using s(3) Cons.prems(4-6) by auto
  show ?case
  proof (cases "rs_left e")
    case None
    then have "S1 = {}" using s(6) by simp
    then have sub: "A2 \<union> B \<subseteq> A \<union> B" "S2 \<union> W = S \<union> W" "B \<union> {c} \<subseteq> A \<union> B \<union> set (c # fs)" using s(3,5) by auto
    obtain t m1 m2 where p: "rowSetListToTree m p = Ret (t, m1)" "set_left m1 (Some c) t = Ret m2" "rs_step (B \<union> {c}) m m2"
        "frst m2 (Some c) (c # fs) (A2 \<union> B) (S2 \<union> W)"
      using forest_plant [OF s(2,7) Cons.prems(2,3,7) d(2,3,4,6,7)] by blast
    have "put_in m q (c # fs) prev (A \<union> B) (S \<union> W) (Some c, Some c, p, m2)"
      using frst_mono [OF p(4) sub(1)] rs_step_mono [OF p(3) sub(3)] unfolding sub(2) s(1) put_in_def
      by (simp only: prod.case option.simps if_True simp_thms)
    then show ?thesis using k s(1,2) None p(1,2) by auto
  next
    case (Some x)
    then have S1: "S1 \<noteq> {}" using s(6) by auto
    obtain f l m1 m2 h m3 where h: "rowSetTreeToList m (rs_left e) = Ret (f, l, m1)" "set_left m1 (Some c) None = Ret m2"
        "rowSetEntryMerge m2 f p = Ret (h, m3)" "rs_step (A1 \<union> B \<union> {c}) m m3" "ents m3 c = Some (e\<lparr>rs_left := None\<rparr>)"
        "sl m3 h (A1 \<union> B) (S1 \<union> W)"
      using forest_carry [OF s(2,6) S1 Cons.prems(2,3,7) d(1,3,5)] by blast
    have f3: "frst m3 (rs_right e) fs A2 S2" by (rule frst_frame [OF h(4) _ _ s(7)]) (use d s(4) in auto)
    have "\<exists>r. forest_loop k m3 (Some c) (rs_right e) h = Ret r \<and>
        put_in m3 (rs_right e) fs (Some c) (A2 \<union> (A1 \<union> B)) (S2 \<union> (S1 \<union> W)) r"
      by (rule Cons.IH [OF f3 h(6)])
        (use S1 d s(4) Cons.prems(6) k(2) bounded_step [OF h(4) Cons.prems(7)] in auto)
    then obtain prev' pTree p' m4 where r: "forest_loop k m3 (Some c) (rs_right e) h = Ret (prev', pTree, p', m4)"
        "put_in m3 (rs_right e) fs (Some c) (A2 \<union> (A1 \<union> B)) (S2 \<union> (S1 \<union> W)) (prev', pTree, p', m4)" by auto
    have eq: "forest_loop n m prev q p = Ret (prev', pTree, p', m4)" using k s(1,2) Some h r(1) by simp
    have s34: "rs_step (A2 \<union> (A1 \<union> B) \<union> set fs) m3 m4" using r(2) by (simp add: put_in_def)
    have s04: "rs_step (A \<union> B \<union> set (c # fs)) m m4"
      by (rule rs_step_trans [OF rs_step_mono [OF h(4)] rs_step_mono [OF s34]]) (use s(3) in auto)
    have c4: "ents m4 c = Some (e\<lparr>rs_left := None\<rparr>)" using rs_stepD(5) [OF s34, of c] h(5) d by auto
    have cell: "frst m4 q (c # fs) X Y" if "frst m4 (rs_right e) fs X Y" for X Y
      unfolding frst.simps using s(1) c4 that
      by (intro conjI exI [of _ "e\<lparr>rs_left := None\<rparr>"] exI [of _ "{}"] exI [of _ X] exI [of _ "{}"] exI [of _ Y]) simp_all
    have sub: "A2 \<union> (A1 \<union> B) \<subseteq> A \<union> B" "S2 \<union> (S1 \<union> W) = S \<union> W" using s(3,5) by auto
    have "put_in m q (c # fs) prev (A \<union> B) (S \<union> W) (prev', pTree, p', m4)"
      using r(2) s04 cell frst_mono [OF cell sub(1)] sl_mono [OF _ sub(1)] sub(2)
      by (auto simp: put_in_def simp del: frst.simps split: if_splits)
    then show ?thesis using eq by blast
  qed
qed

section \<open>The depth of the trees\<close>

lemma strict_card: "strict (vals E as) \<Longrightarrow> card (set (vals E as)) = length as"
  using distinct_card [of "vals E as"] by (simp add: strict_sorted_iff vals_def)

text \<open>C27: A list of fewer than \<open>2\<^sup>k\<close> rowids in increasing order becomes a search tree in which
  a rowid is found, or found to be missing, in at most \<open>k\<close> steps.\<close>

theorem rowset_tree_depth:
  assumes "rlist (ents m) p as" "as \<noteq> []" "strict (vals (ents m) as)" "bounded_ents m" "length as < 2 ^ k"
  shows "\<exists>root m'. rowSetListToTree m p = Ret (root, m') \<and>
    (\<forall>r. tree_search k m' r root = Ret (r \<in> set (vals (ents m) as)))"
proof -
  let ?V = "set (vals (ents m) as)"
  have l: "sl m p (set as) ?V" "?V \<noteq> {}" using assms(1-3) by (auto simp: sl_def vals_def)
  obtain root m' where r: "rowSetListToTree m p = Ret (root, m')" "st m' root (set as) ?V"
    using rowSetListToTree_ok [OF l assms(4)] by blast
  then obtain t where t: "rtree (ents m') root t" "strict (vals (ents m') (inorder t))" "?V = set (vals (ents m') (inorder t))"
      "2 ^ height t \<le> 2 * size t + 1"
    unfolding st_def by blast
  have "size t = length as" using strict_card [OF t(2)] strict_card [OF assms(3)] t(3) by simp
  then have "(2 :: nat) ^ height t < 2 ^ Suc k" using t(4) assms(5) by simp
  then have "height t \<le> k" using power_less_imp_less_exp [of "2 :: nat" "height t" "Suc k"] by simp
  then show ?thesis using r(1) t tree_search_path [OF t(1,2)] by auto
qed

definition sample_rsmem :: rsmem where
  "sample_rsmem = \<lparr>ents = [7 \<mapsto> \<lparr>rs_v = 4, rs_right = Some 8, rs_left = None\<rparr>, 8 \<mapsto> \<lparr>rs_v = 6, rs_right = None, rs_left = None\<rparr>],
     next_addr = 9, junk = (\<lambda>a. \<lparr>rs_v = int a, rs_right = Some a, rs_left = Some a\<rparr>),
     rs_hp = \<lparr>outcomes = [], live = 3\<rparr>, mallocFailed = False\<rparr>"

theorem rowset_tree_depth_witness:
  "\<exists>root m'. rowSetListToTree sample_rsmem (Some 7) = Ret (root, m') \<and>
    (\<forall>r. tree_search 2 m' r root = Ret (r \<in> set (vals (ents sample_rsmem) [7, 8])))"
  by (rule rowset_tree_depth) (simp_all add: sample_rsmem_def)

end
