(* ===== verification/Sqlite_RowSet_Spec.thy ===== *)
theory Sqlite_RowSet_Spec
  imports Sqlite_RowSet
begin

unbundle bit_operations_syntax

text \<open>
  What the row sets of \<^verbatim>\<open>rowset.c\<close> promise. The invariant \<open>rs_inv\<close> divides the entries in use among the list of
  pending rowids, the cells of the forest and the trees below them, apart from the entries not yet handed out, and accounts for the
  chunks. Every operation is shown to keep it; \<open>rowset_spec\<close> is the specification with two
  sets of rowids, and the interpretation of \<open>forward_simulation\<close> carries it to sequences of calls.
\<close>

section \<open>The invariant\<close>

lemma flag_bits: "w AND 1 = 0 \<longleftrightarrow> \<not> bit w 0" "w AND 2 = 0 \<longleftrightarrow> \<not> bit w 1" for w :: "16 word"
  using and_exp_eq_0_iff_not_bit [of w 0] and_exp_eq_0_iff_not_bit [of w 1] by simp_all

lemma flag_simps [simp]:
  "(w AND - 2) AND 1 = 0" "(w AND - 2) AND 2 = 0 \<longleftrightarrow> w AND 2 = 0"
  "(w OR 3) AND 2 \<noteq> 0" "(w OR 1) AND 1 \<noteq> 0" "(w OR 1) AND 2 = 0 \<longleftrightarrow> w AND 2 = 0" for w :: "16 word"
proof -
  have b: "\<not> bit (1 :: 16 word) 1" "bit (3 :: 16 word) 1" "bit (1 :: 16 word) 0" by (simp_all add: bit_1_iff bit_numeral_rec)
  then have "(w AND NOT 1) AND 1 = 0" "(w AND NOT 1) AND 2 = 0 \<longleftrightarrow> w AND 2 = 0"
    unfolding flag_bits by (simp_all add: bit_and_iff bit_not_iff del: not_one_eq)
  then show "(w AND - 2) AND 1 = 0" "(w AND - 2) AND 2 = 0 \<longleftrightarrow> w AND 2 = 0" by simp_all
  show
    "(w OR 3) AND 2 \<noteq> 0" "(w OR 1) AND 1 \<noteq> 0" "(w OR 1) AND 2 = 0 \<longleftrightarrow> w AND 2 = 0"
    unfolding flag_bits using b by (simp_all add: bit_or_iff)
qed

definition fresh_cells :: "RowSet \<Rightarrow> addr set" where
  "fresh_cells q = {pFresh q ..< pFresh q + nFresh q}"

definition chunk_cells :: "RowSet \<Rightarrow> addr set" where
  "chunk_cells q = (\<Union>c \<in> set (pChunk q). {c ..< c + ROWSET_ENTRY_PER_CHUNK})"

text \<open>The memory: entries that do not belong to a chunk are those of \<open>D\<close>, and \<open>L\<close> other blocks are allocated.\<close>

definition chunks_ok :: "addr set \<Rightarrow> int \<Rightarrow> RowSet \<Rightarrow> rsmem \<Rightarrow> bool" where
  "chunks_ok D L q m \<longleftrightarrow> bounded_ents m \<and> dom (ents m) = D \<union> chunk_cells q \<and> D \<inter> chunk_cells q = {} \<and>
     live (rs_hp m) = L + int (length (pChunk q)) \<and> fresh_cells q \<subseteq> D \<union> chunk_cells q"

lemma chunks_okD:
  assumes "chunks_ok D L q m"
  shows "bounded_ents m" "dom (ents m) = D \<union> chunk_cells q" "D \<inter> chunk_cells q = {}"
    "live (rs_hp m) = L + int (length (pChunk q))" "fresh_cells q \<subseteq> D \<union> chunk_cells q"
  using assms unfolding chunks_ok_def by blast+

text \<open>The pending entries: in order once they are being read, a list in the order of insertion before.\<close>

definition pend_list :: "RowSet \<Rightarrow> rsmem \<Rightarrow> addr set \<Rightarrow> int set \<Rightarrow> addr list \<Rightarrow> bool" where
  "pend_list q m A P as \<longleftrightarrow> rlist (ents m) (pEntry q) as \<and> distinct as \<and> set as \<subseteq> A \<and> P = set (vals (ents m) as) \<and>
     pLast q = (if as = [] then None else Some (last as)) \<and>
     (rsFlags q AND ROWSET_SORTED \<noteq> 0 \<longrightarrow> strict (vals (ents m) as))"

definition pend :: "RowSet \<Rightarrow> rsmem \<Rightarrow> addr set \<Rightarrow> int set \<Rightarrow> bool" where
  "pend q m A P \<longleftrightarrow>
     (if rsFlags q AND ROWSET_NEXT \<noteq> 0 then sl m (pEntry q) A P else \<exists>as. pend_list q m A P as)"

definition parts_ok :: "RowSet \<Rightarrow> rsmem \<Rightarrow> addr set \<Rightarrow> addr set \<Rightarrow> addr list \<Rightarrow> int set \<Rightarrow> int set \<Rightarrow> bool" where
  "parts_ok q m A B fs S P \<longleftrightarrow> pend q m A P \<and> frst m (pForest q) fs B S \<and> distinct fs \<and>
     A \<inter> B = {} \<and> (A \<union> B) \<inter> set fs = {} \<and> (A \<union> B \<union> set fs) \<inter> fresh_cells q = {} \<and> A \<union> B \<union> set fs \<subseteq> dom (ents m)"

definition rs_inv :: "addr set \<Rightarrow> int \<Rightarrow> RowSet \<Rightarrow> rsmem \<Rightarrow> int set \<Rightarrow> int set \<Rightarrow> bool" where
  "rs_inv D L q m S P \<longleftrightarrow> chunks_ok D L q m \<and> (\<exists>A B fs. parts_ok q m A B fs S P)"

lemma rs_step_dom: "rs_step A m m' \<Longrightarrow> dom (ents m') = dom (ents m)"
  by (auto simp: rs_stepD(6) dom_def)

lemma chunks_step: "rs_step A m m' \<Longrightarrow> chunks_ok D L q m \<Longrightarrow> chunks_ok D L q m'"
  unfolding chunks_ok_def using bounded_step [of A m m'] rs_step_dom [of A m m'] rs_stepD(2) [of A m m'] by (intro conjI) auto

lemma pend_list_cong:
  assumes "\<forall>a \<in> A. ents m' a = ents m a" "pend_list q m A P as"
  shows "pend_list q m' A P as"
proof -
  have "set as \<subseteq> A" using assms(2) by (simp add: pend_list_def)
  then have "rlist (ents m') (pEntry q) as = rlist (ents m) (pEntry q) as" "vals (ents m') as = vals (ents m) as"
    using assms(1) by (auto intro!: rpath_cong vals_cong)
  then show ?thesis using assms(2) by (simp add: pend_list_def)
qed

lemma pend_cong: "\<forall>a \<in> A. ents m' a = ents m a \<Longrightarrow> pend q m A P \<Longrightarrow> pend q m' A P"
  unfolding pend_def using sl_cong pend_list_cong by (metis (full_types))

section \<open>Allocation and insertion\<close>

definition heap_after :: "heap \<Rightarrow> heap \<Rightarrow> bool" where
  "heap_after h h' \<longleftrightarrow> set (outcomes h') \<subseteq> set (outcomes h)"

lemma new_chunk_ok:
  assumes "chunks_ok D L q m"
  shows "(\<exists>h. new_chunk q m = (False, q, m\<lparr>rs_hp := h, mallocFailed := True\<rparr>) \<and> live h = live (rs_hp m) \<and>
      heap_after (rs_hp m) h \<and> False \<in> set (outcomes (rs_hp m))) \<or>
    (\<exists>q' m'. new_chunk q m = (True, q', m') \<and> q' = q\<lparr>pChunk := next_addr m # pChunk q, pFresh := next_addr m, nFresh := 42\<rparr> \<and>
      chunks_ok D L q' m' \<and> (\<forall>a \<in> dom (ents m). ents m' a = ents m a) \<and> next_addr m' = next_addr m + 42 \<and>
      fresh_cells q' \<inter> dom (ents m) = {} \<and>
      mallocFailed m' = mallocFailed m \<and> heap_after (rs_hp m) (rs_hp m'))"
proof -
  obtain ok h where al: "c_alloc (rs_hp m) = (ok, h)" by fastforce
  have lv: "live h = (if ok then live (rs_hp m) + 1 else live (rs_hp m))" by (rule c_alloc_live [OF al])
  have ho: "heap_after (rs_hp m) h" "\<not> ok \<Longrightarrow> False \<in> set (outcomes (rs_hp m))"
    using al by (auto simp: c_alloc_def heap_after_def split: list.splits)
  show ?thesis
  proof (cases ok)
    case False
    then have "new_chunk q m = (False, q, m\<lparr>rs_hp := h, mallocFailed := True\<rparr>)" using al by (simp add: new_chunk_def)
    then show ?thesis using False lv ho by auto
  next
    case True
    let ?c = "next_addr m"
    let ?q = "q\<lparr>pChunk := ?c # pChunk q, pFresh := ?c, nFresh := 42\<rparr>"
    obtain m' where m': "new_chunk q m = (True, ?q, m')" "next_addr m' = ?c + 42" "rs_hp m' = h" "mallocFailed m' = mallocFailed m"
        "ents m' = (\<lambda>a. if ?c \<le> a \<and> a < ?c + 42 then Some (junk m a) else ents m a)"
      using al True by (simp add: new_chunk_def ROWSET_ENTRY_PER_CHUNK_def Let_def)
    have b: "a < ?c" if "a \<in> dom (ents m)" for a using chunks_okD(1) [OF assms] that by auto
    have f: "fresh_cells ?q = {?c ..< ?c + 42}" "chunk_cells ?q = {?c ..< ?c + 42} \<union> chunk_cells q"
      by (auto simp: fresh_cells_def chunk_cells_def ROWSET_ENTRY_PER_CHUNK_def)
    have d: "dom (ents m') = dom (ents m) \<union> {?c ..< ?c + 42}" by (auto simp: m'(5) split: if_splits)
    note C = chunks_okD [OF assms]
    have D: "\<forall>a \<in> D. a < ?c" using b C(2) by blast
    have "chunks_ok D L ?q m'"
      unfolding chunks_ok_def f
    proof (intro conjI)
      show "bounded_ents m'"
      proof (intro allI impI)
        fix a assume "ents m' a \<noteq> None"
        then have "a \<in> dom (ents m) \<union> {?c ..< ?c + 42}" unfolding d [symmetric] by (simp add: domIff)
        then show "a < next_addr m'" using b [of a] m'(2) by fastforce
      qed
      show "dom (ents m') = D \<union> ({?c ..< ?c + 42} \<union> chunk_cells q)" unfolding d C(2) by blast
      show "D \<inter> ({?c ..< ?c + 42} \<union> chunk_cells q) = {}" using D C(3) by (auto simp: disjoint_iff)
      show "live (rs_hp m') = L + int (length (pChunk ?q))" using C(4) lv True m'(3) by simp
    qed auto
    moreover have "\<forall>a \<in> dom (ents m). ents m' a = ents m a" using b by (auto simp: m'(5) dest!: leD)
    moreover have "fresh_cells ?q \<inter> dom (ents m) = {}" using b unfolding f by fastforce
    ultimately show ?thesis using m' ho(1) by simp
  qed
qed

lemma rowSetEntryAlloc_ok:
  assumes C: "chunks_ok D L q m" and X: "X \<inter> fresh_cells q = {}" "X \<subseteq> dom (ents m)"
  shows "(\<exists>h. rowSetEntryAlloc q m = (None, q, m\<lparr>rs_hp := h, mallocFailed := True\<rparr>) \<and> live h = live (rs_hp m) \<and>
      heap_after (rs_hp m) h \<and> False \<in> set (outcomes (rs_hp m))) \<or>
    (\<exists>a q' m'. rowSetEntryAlloc q m = (Some a, q', m') \<and> q' = q\<lparr>pChunk := pChunk q', pFresh := pFresh q', nFresh := nFresh q'\<rparr> \<and>
      chunks_ok D L q' m' \<and> (\<forall>x \<in> X. ents m' x = ents m x) \<and> X \<subseteq> dom (ents m') \<and> next_addr m' \<le> next_addr m + 42 \<and>
      a \<in> dom (ents m') \<and> a \<notin> X \<and> insert a X \<inter> fresh_cells q' = {} \<and>
      mallocFailed m' = mallocFailed m \<and> heap_after (rs_hp m) (rs_hp m'))"
proof -
  have take: "\<exists>a q' m'. (Some (pFresh p), p\<lparr>nFresh := nFresh p - 1, pFresh := pFresh p + 1\<rparr>, mm) = (Some a, q', m') \<and>
      q' = p\<lparr>pChunk := pChunk q', pFresh := pFresh q', nFresh := nFresh q'\<rparr> \<and> m' = mm \<and>
      chunks_ok D L q' m' \<and> a \<in> dom (ents m') \<and> a \<notin> X \<and> insert a X \<inter> fresh_cells q' = {}"
    if p: "chunks_ok D L p mm" "X \<inter> fresh_cells p = {}" "0 < nFresh p" for p mm
  proof -
    let ?q = "p\<lparr>nFresh := nFresh p - 1, pFresh := pFresh p + 1\<rparr>"
    have f: "fresh_cells ?q \<subseteq> fresh_cells p" "pFresh p \<in> fresh_cells p" "pFresh p \<notin> fresh_cells ?q" "chunk_cells ?q = chunk_cells p"
      using p(3) by (auto simp: fresh_cells_def chunk_cells_def)
    have "chunks_ok D L ?q mm" unfolding chunks_ok_def f(4) using chunks_okD [OF p(1)] f(1) by auto
    moreover have "pFresh p \<in> dom (ents mm)" using f(2) chunks_okD(2,5) [OF p(1)] by auto
    ultimately show ?thesis using f p(2) by auto
  qed
  show ?thesis
  proof (cases "nFresh q = 0")
    case False
    then show ?thesis using take [OF C X(1)] X(2) by (auto simp: rowSetEntryAlloc_def heap_after_def)
  next
    case True
    show ?thesis using new_chunk_ok [OF C]
    proof (elim disjE exE conjE)
      fix q' m' assume n: "new_chunk q m = (True, q', m')" "q' = q\<lparr>pChunk := next_addr m # pChunk q, pFresh := next_addr m, nFresh := 42\<rparr>"
        "chunks_ok D L q' m'" "\<forall>a \<in> dom (ents m). ents m' a = ents m a" "next_addr m' = next_addr m + 42"
        "fresh_cells q' \<inter> dom (ents m) = {}" "mallocFailed m' = mallocFailed m" "heap_after (rs_hp m) (rs_hp m')"
      have d: "X \<inter> fresh_cells q' = {}" "0 < nFresh q'" using n(2,6) X(2) by auto
      have "X \<subseteq> dom (ents m')" using n(4) X(2) by (auto simp: dom_def subset_iff)
      moreover have "\<forall>x \<in> X. ents m' x = ents m x" using n(4) X(2) by blast
      ultimately show ?thesis using take [OF n(3) d] n True by (auto simp: rowSetEntryAlloc_def)
    qed (use True in \<open>auto simp: rowSetEntryAlloc_def\<close>)
  qed
qed

lemma append_entry_ok:
  assumes P: "pend_list q m A P as" and a: "ents m a = Some e" "a \<notin> A"
  shows "\<exists>q' m'. append_entry q a r m = Ret (q', m') \<and> pend_list q' m' (insert a A) (insert r P) (as @ [a]) \<and>
    (\<forall>x. x \<notin> insert a A \<longrightarrow> ents m' x = ents m x) \<and> dom (ents m') = dom (ents m) \<and> m' = m\<lparr>ents := ents m'\<rparr> \<and>
    q' = q\<lparr>pEntry := pEntry q', pLast := pLast q', rsFlags := rsFlags q'\<rparr> \<and> (rsFlags q' AND 2 = 0 \<longleftrightarrow> rsFlags q AND 2 = 0)"
proof (cases as rule: rev_cases)
  case Nil
  then have "pLast q = None" using P by (simp add: pend_list_def)
  then show ?thesis using P a Nil by (auto simp: append_entry_def pend_list_def dom_def)
next
  case (snoc us u)
  have p: "pLast q = Some u" "rlist (ents m) (pEntry q) (us @ [u])" "distinct (us @ [u])" "set (us @ [u]) \<subseteq> A"
      "P = set (vals (ents m) (us @ [u]))" "rsFlags q AND 1 \<noteq> 0 \<longrightarrow> strict (vals (ents m) (us @ [u]))"
    using P snoc by (simp_all add: pend_list_def)
  then obtain eu where u: "rpath (ents m) (pEntry q) us (Some u)" "ents m u = Some eu" by (auto simp: rpath_append)
  have d: "u \<noteq> a" "a \<notin> set us" "u \<notin> set us" using p(3,4) a(2) by auto
  define m' where "m' = m\<lparr>ents := (ents m)(a \<mapsto> e\<lparr>rs_v := r, rs_right := None\<rparr>, u \<mapsto> eu\<lparr>rs_right := Some a\<rparr>)\<rparr>"
  define q' where "q' = q\<lparr>rsFlags := (if r \<le> rs_v eu then rsFlags q AND NOT 1 else rsFlags q), pLast := Some a\<rparr>"
  have eq: "append_entry q a r m = Ret (q', m')"
    using p(1) a(1) u(2) d(1) by (simp add: append_entry_def m'_def q'_def Let_def)
  have v: "vals (ents m') us = vals (ents m) us" by (rule vals_cong) (use d in \<open>auto simp: m'_def\<close>)
  have vu: "rs_v (the (ents m' u)) = rs_v eu" "rs_v (the (ents m' a)) = r" using d by (simp_all add: m'_def)
  have sorted: "strict (vals (ents m') (as @ [a]))" if "rsFlags q' AND 1 \<noteq> 0"
  proof -
    have "rs_v eu < r" "strict (vals (ents m) us @ [rs_v eu])"
      using that p(6) u(2) by (auto simp: q'_def flag_simps split: if_splits)
    then show ?thesis using v vu snoc by (auto simp: sorted_wrt_append)
  qed
  have "pend_list q' m' (insert a A) (insert r P) (as @ [a])"
    unfolding pend_list_def
  proof (intro conjI)
    show "rlist (ents m') (pEntry q') (as @ [a])" using u(1) d snoc by (auto simp: m'_def q'_def rpath_append)
    show "insert r P = set (vals (ents m') (as @ [a]))" using p(5) v vu u(2) snoc by auto
  qed (use p a(2) snoc sorted in \<open>auto simp: q'_def\<close>)
  moreover have "dom (ents m') = dom (ents m)" using a(1) u(2) by (auto simp: m'_def)
  ultimately show ?thesis
    using eq p(4) by (intro exI [of _ q'] exI [of _ m']) (auto simp: m'_def q'_def flag_simps)
qed

definition op_frame :: "rsmem \<Rightarrow> rsmem \<Rightarrow> bool" where
  "op_frame m m' \<longleftrightarrow> next_addr m' \<le> next_addr m + 42 \<and> heap_after (rs_hp m) (rs_hp m')"

lemma failed_alloc_inv:
  assumes "rs_inv D L q m S P" "live h = live (rs_hp m)"
  shows "rs_inv D L q (m\<lparr>rs_hp := h, mallocFailed := True\<rparr>) S P"
proof -
  let ?m = "m\<lparr>rs_hp := h, mallocFailed := True\<rparr>"
  obtain A B fs where p: "parts_ok q m A B fs S P" and c: "chunks_ok D L q m" using assms(1) unfolding rs_inv_def by blast
  have "chunks_ok D L q ?m" using c assms(2) by (simp add: chunks_ok_def)
  moreover have "parts_ok q ?m A B fs S P"
    using p unfolding parts_ok_def by (auto intro: pend_cong frst_cong [of _ _ _ m])
  ultimately show ?thesis unfolding rs_inv_def by blast
qed

lemma sqlite3RowSetInsert_ok:
  assumes inv: "rs_inv D L q m S P" and w: "rsFlags q AND 2 = 0"
  shows "\<exists>q' m'. sqlite3RowSetInsert q r m = Ret (q', m') \<and> op_frame m m' \<and> rsFlags q' AND 2 = 0 \<and>
    iBatch q' = iBatch q \<and> pForest q' = pForest q \<and>
    (rs_inv D L q' m' S (insert r P) \<and> mallocFailed m' = mallocFailed m \<or>
     rs_inv D L q' m' S P \<and> mallocFailed m' \<and> False \<in> set (outcomes (rs_hp m)))"
proof -
  obtain A B fs where p: "parts_ok q m A B fs S P" and c: "chunks_ok D L q m" using inv unfolding rs_inv_def by blast
  note p' = p [unfolded parts_ok_def]
  have X: "(A \<union> B \<union> set fs) \<inter> fresh_cells q = {}" "A \<union> B \<union> set fs \<subseteq> dom (ents m)" using p' by auto
  show ?thesis using rowSetEntryAlloc_ok [OF c X]
  proof (elim disjE exE conjE)
    fix h assume "rowSetEntryAlloc q m = (None, q, m\<lparr>rs_hp := h, mallocFailed := True\<rparr>)" "live h = live (rs_hp m)"
      "heap_after (rs_hp m) h" "False \<in> set (outcomes (rs_hp m))"
    then show ?thesis using failed_alloc_inv [OF inv] w by (simp add: sqlite3RowSetInsert_def op_frame_def)
  next
    fix a q1 m1 assume al: "rowSetEntryAlloc q m = (Some a, q1, m1)"
      "q1 = q\<lparr>pChunk := pChunk q1, pFresh := pFresh q1, nFresh := nFresh q1\<rparr>" "chunks_ok D L q1 m1"
      "\<forall>x \<in> A \<union> B \<union> set fs. ents m1 x = ents m x" "A \<union> B \<union> set fs \<subseteq> dom (ents m1)" "next_addr m1 \<le> next_addr m + 42"
      "a \<in> dom (ents m1)" "a \<notin> A \<union> B \<union> set fs" "insert a (A \<union> B \<union> set fs) \<inter> fresh_cells q1 = {}"
      "mallocFailed m1 = mallocFailed m" "heap_after (rs_hp m) (rs_hp m1)"
    have q1: "pEntry q1 = pEntry q" "pLast q1 = pLast q" "pForest q1 = pForest q" "rsFlags q1 = rsFlags q" "iBatch q1 = iBatch q"
      by (subst al(2), simp)+
    obtain as where "pend_list q m A P as" using p' w by (auto simp: pend_def)
    then have "pend_list q m1 A P as" using al(4) by (auto intro: pend_list_cong)
    then have as: "pend_list q1 m1 A P as" using q1 by (simp add: pend_list_def)
    obtain e where e: "ents m1 a = Some e" using al(7) by auto
    obtain q2 m2 where r: "append_entry q1 a r m1 = Ret (q2, m2)" "pend_list q2 m2 (insert a A) (insert r P) (as @ [a])"
        "\<forall>x. x \<notin> insert a A \<longrightarrow> ents m2 x = ents m1 x" "dom (ents m2) = dom (ents m1)" "m2 = m1\<lparr>ents := ents m2\<rparr>"
        "q2 = q1\<lparr>pEntry := pEntry q2, pLast := pLast q2, rsFlags := rsFlags q2\<rparr>" "rsFlags q2 AND 2 = 0"
      using append_entry_ok [OF as e, of r] al(8) w q1 by auto
    have q2: "pForest q2 = pForest q1" "iBatch q2 = iBatch q1" "fresh_cells q2 = fresh_cells q1" "chunk_cells q2 = chunk_cells q1"
        "pChunk q2 = pChunk q1"
      by (subst r(6), simp add: fresh_cells_def chunk_cells_def)+
    have m2: "next_addr m2 = next_addr m1" "rs_hp m2 = rs_hp m1" "mallocFailed m2 = mallocFailed m1" by (subst r(5), simp)+
    have "chunks_ok D L q2 m2"
      using al(3) r(4) unfolding chunks_ok_def q2 m2 by (metis domIff)
    moreover have "frst m2 (pForest q2) fs B S"
      unfolding q2 q1 by (rule frst_cong [of _ _ _ m]) (use p' r(3) al(4,8) in auto)
    moreover have "pend q2 m2 (insert a A) (insert r P)" using r(2,7) by (auto simp: pend_def)
    ultimately have "rs_inv D L q2 m2 S (insert r P)"
      unfolding rs_inv_def parts_ok_def q2(3) r(4)
      using p' al(5,7,8,9) by (intro conjI exI [of _ "insert a A"] exI [of _ B] exI [of _ fs]) auto
    then show ?thesis
      using al(1,6,10,11) r(1,7) q1 q2 m2 by (auto simp: sqlite3RowSetInsert_def op_frame_def)
  qed
qed

section \<open>Batches\<close>

lemma frst_empty: "frst m p fs {} {} \<Longrightarrow> rlist (ents m) p fs \<and> (\<forall>c \<in> set fs. rs_left (the (ents m c)) = None)"
  by (induction fs arbitrary: p) auto

lemma frst_prefix:
  "rpath (ents m) p gs r \<Longrightarrow> \<forall>c \<in> set gs. rs_left (the (ents m c)) = None \<Longrightarrow> frst m r hs A S \<Longrightarrow> frst m p (gs @ hs) A S"
proof (induction gs arbitrary: p)
  case (Cons g gs)
  then obtain e where e: "p = Some g" "ents m g = Some e" "rs_left e = None" "frst m (rs_right e) (gs @ hs) A S" by auto
  then show ?case
    by (simp del: frst.simps add: frst.simps(2))
      (intro exI [of _ "{}"] conjI exI [of _ A] exI [of _ "{}"] exI [of _ S]; simp)
qed simp

text \<open>The link to a new cell: the list of cells now leads to \<open>a\<close>.\<close>

lemma put_prev_ok:
  assumes f: "frst m (pForest q) fs {} {}" "distinct fs"
  shows "\<exists>q' m'. put_prev q (if fs = [] then None else Some (last fs)) r m = Ret (q', m') \<and>
    rs_step (set fs) m m' \<and> rpath (ents m') (pForest q') fs r \<and> (\<forall>c \<in> set fs. rs_left (the (ents m' c)) = None) \<and>
    q' = q\<lparr>pForest := pForest q'\<rparr>"
proof (cases fs rule: rev_cases)
  case Nil
  then show ?thesis by (auto simp: put_prev_def rs_step_refl)
next
  case (snoc gs g)
  have l: "rlist (ents m) (pForest q) fs" "\<forall>c \<in> set fs. rs_left (the (ents m c)) = None" using frst_empty [OF f(1)] by auto
  then obtain eg where g: "rpath (ents m) (pForest q) gs (Some g)" "ents m g = Some eg" "rs_left eg = None"
    using snoc by (auto simp: rpath_append)
  have gn: "g \<notin> set gs" using f(2) snoc by simp
  define m' where "m' = m\<lparr>ents := (ents m)(g \<mapsto> eg\<lparr>rs_right := r\<rparr>)\<rparr>"
  have "rs_step (set fs) m m'" unfolding m'_def by (rule rs_step_upd [OF g(2)]) (use snoc in auto)
  moreover have "rpath (ents m') (pForest q) fs r" using g gn snoc by (simp add: m'_def rpath_append)
  moreover have "\<forall>c \<in> set fs. rs_left (the (ents m' c)) = None" using l(2) g(3) snoc by (simp add: m'_def)
  ultimately show ?thesis using g(2) snoc by (simp add: put_prev_def m'_def [symmetric])
qed

definition batch_frame :: "RowSet \<Rightarrow> RowSet \<Rightarrow> bool" where
  "batch_frame q q' \<longleftrightarrow> rsFlags q' = rsFlags q \<and> iBatch q' = iBatch q"

text \<open>The new cell with the list as its tree.\<close>

lemma new_cell_ok:
  assumes C: "chunks_ok D L q m" and f: "frst m (pForest q) fs {} {}" "distinct fs" and l: "sl m p A W" "W \<noteq> {}"
    and d: "A \<inter> set fs = {}" "a \<notin> A \<union> set fs" and a: "ents m a = Some e"
  shows "\<exists>q' m1 t m2 m3. put_prev q (if fs = [] then None else Some (last fs)) (Some a) m = Ret (q', m1) \<and> ents m1 a = Some e \<and>
    rowSetListToTree (m1\<lparr>ents := (ents m1)(a \<mapsto> e\<lparr>rs_v := 0, rs_right := None\<rparr>)\<rparr>) p = Ret (t, m2) \<and> set_left m2 (Some a) t = Ret m3 \<and>
    q' = q\<lparr>pForest := pForest q'\<rparr> \<and> frst m3 (pForest q') (fs @ [a]) A W \<and> chunks_ok D L q m3 \<and>
    next_addr m3 = next_addr m \<and> rs_hp m3 = rs_hp m \<and> mallocFailed m3 = mallocFailed m \<and> dom (ents m3) = dom (ents m)"
proof -
  obtain q' m1 where k: "put_prev q (if fs = [] then None else Some (last fs)) (Some a) m = Ret (q', m1)"
      "rs_step (set fs) m m1" "rpath (ents m1) (pForest q') fs (Some a)" "\<forall>c \<in> set fs. rs_left (the (ents m1 c)) = None" "q' = q\<lparr>pForest := pForest q'\<rparr>"
    using put_prev_ok [OF f] by blast
  have a1: "ents m1 a = Some e" using rs_stepD(5) [OF k(2), of a] d(2) a by simp
  let ?e = "e\<lparr>rs_v := 0, rs_right := None\<rparr>"
  define m2 where "m2 = m1\<lparr>ents := (ents m1)(a \<mapsto> e\<lparr>rs_v := 0, rs_right := None\<rparr>)\<rparr>"
  have a2: "ents m2 a = Some ?e" "frst m2 (rs_right ?e) [] {} {}" by (simp_all add: m2_def)
  have "\<forall>x \<in> A. ents m2 x = ents m x" using rs_stepD(5) [OF k(2)] d by (auto simp: m2_def disjoint_iff)
  then have l2: "sl m2 p A W" using l(1) by (rule sl_cong)
  have dm: "dom (ents m2) = dom (ents m)" using rs_step_dom [OF k(2)] a1 by (auto simp: m2_def)
  have m2: "next_addr m2 = next_addr m" "rs_hp m2 = rs_hp m" "mallocFailed m2 = mallocFailed m" using rs_stepD [OF k(2)] by (simp_all add: m2_def)
  have C2: "chunks_ok D L q m2" using C unfolding chunks_ok_def dm m2 by (metis dm domIff)
  have da: "a \<notin> {}" "a \<notin> A" "a \<notin> set []" "{} \<inter> A = {}" "set [] \<inter> A = {}" using d(2) by auto
  obtain t m3 m4 where t: "rowSetListToTree m2 p = Ret (t, m3)" "set_left m3 (Some a) t = Ret m4" "rs_step (A \<union> {a}) m2 m4"
      "frst m4 (Some a) [a] ({} \<union> A) ({} \<union> W)"
    using forest_plant [OF a2 l2 l(2) chunks_okD(1) [OF C2] da] by blast
  have same: "ents m4 x = ents m1 x" if "x \<in> set fs" for x
    using rs_stepD(5) [OF t(3), of x] that d by (auto simp: m2_def)
  have "rpath (ents m4) (pForest q') fs (Some a)" using k(3) rpath_cong [of fs "ents m4" "ents m1"] same by blast
  then have "frst m4 (pForest q') (fs @ [a]) A W" using frst_prefix [of m4 _ fs "Some a" "[a]"] k(4) same t(4) by simp
  then show ?thesis
    using k(1,5) a1 t(1,2) chunks_step [OF t(3) C2] rs_stepD(1-3) [OF t(3)] rs_step_dom [OF t(3)] m2 dm
    by (intro exI [of _ q'] exI [of _ m1] exI [of _ t] exI [of _ m3] exI [of _ m4]) (simp add: m2_def)
qed

lemma new_tree_ok:
  assumes C: "chunks_ok D L q m" and f: "frst m (pForest q) fs {} {}" "distinct fs" and l: "sl m p A W" "W \<noteq> {}"
    and d: "A \<inter> set fs = {}" "(A \<union> set fs) \<inter> fresh_cells q = {}" "A \<union> set fs \<subseteq> dom (ents m)"
  shows "\<exists>q' m'. new_tree q (if fs = [] then None else Some (last fs)) p m = Ret (q', m') \<and> op_frame m m' \<and> batch_frame q q' \<and>
    chunks_ok D L q' m' \<and>
    ((\<exists>a. frst m' (pForest q') (fs @ [a]) A W \<and> a \<notin> A \<union> set fs \<and> insert a (A \<union> set fs) \<inter> fresh_cells q' = {} \<and>
        insert a (A \<union> set fs) \<subseteq> dom (ents m') \<and> mallocFailed m' = mallocFailed m) \<or>
     (frst m' (pForest q') fs {} {} \<and> fresh_cells q' = fresh_cells q \<and> set fs \<subseteq> dom (ents m') \<and>
        mallocFailed m' \<and> False \<in> set (outcomes (rs_hp m))))"
  using rowSetEntryAlloc_ok [OF C d(2,3)]
proof (elim disjE exE conjE)
  fix h assume al: "rowSetEntryAlloc q m = (None, q, m\<lparr>rs_hp := h, mallocFailed := True\<rparr>)" "live h = live (rs_hp m)"
    "heap_after (rs_hp m) h" "False \<in> set (outcomes (rs_hp m))"
  let ?m = "m\<lparr>rs_hp := h, mallocFailed := True\<rparr>"
  have fm: "frst ?m (pForest q) fs {} {}" by (rule frst_cong [OF _ f(1)]) simp
  have C1: "chunks_ok D L q ?m" using C al(2) by (simp add: chunks_ok_def)
  obtain q' m' where k: "put_prev q (if fs = [] then None else Some (last fs)) None ?m = Ret (q', m')"
      "rs_step (set fs) ?m m'" "rlist (ents m') (pForest q') fs" "\<forall>c \<in> set fs. rs_left (the (ents m' c)) = None" "q' = q\<lparr>pForest := pForest q'\<rparr>"
    using put_prev_ok [OF fm f(2)] by blast
  have q': "fresh_cells q' = fresh_cells q" "batch_frame q q'" "chunks_ok D L q' m'"
    using chunks_step [OF k(2) C1] by (subst k(5), simp add: fresh_cells_def chunk_cells_def chunks_ok_def batch_frame_def)+
  have "frst m' (pForest q') fs {} {}" using frst_prefix [OF k(3,4), of "[]"] by simp
  moreover have "set fs \<subseteq> dom (ents m')" using rs_step_dom [OF k(2)] d(3) by simp
  ultimately show ?thesis
    using al k(1) q' rs_stepD(1-3) [OF k(2)] by (auto simp: new_tree_def op_frame_def)
next
  fix a q1 m1 assume al: "rowSetEntryAlloc q m = (Some a, q1, m1)"
    "q1 = q\<lparr>pChunk := pChunk q1, pFresh := pFresh q1, nFresh := nFresh q1\<rparr>" "chunks_ok D L q1 m1"
    "\<forall>x \<in> A \<union> set fs. ents m1 x = ents m x" "A \<union> set fs \<subseteq> dom (ents m1)" "next_addr m1 \<le> next_addr m + 42"
    "a \<in> dom (ents m1)" "a \<notin> A \<union> set fs" "insert a (A \<union> set fs) \<inter> fresh_cells q1 = {}"
    "mallocFailed m1 = mallocFailed m" "heap_after (rs_hp m) (rs_hp m1)"
  have q1: "pForest q1 = pForest q" "batch_frame q q1" by (subst al(2), simp add: batch_frame_def)+
  have f1: "frst m1 (pForest q1) fs {} {}" unfolding q1 by (rule frst_cong [OF _ f(1)]) (use al(4) in auto)
  have l1: "sl m1 p A W" by (rule sl_cong [OF _ l(1)]) (use al(4) in auto)
  obtain e where e: "ents m1 a = Some e" using al(7) by auto
  obtain q' m2 t m3 m' where k: "put_prev q1 (if fs = [] then None else Some (last fs)) (Some a) m1 = Ret (q', m2)" "ents m2 a = Some e"
      "rowSetListToTree (m2\<lparr>ents := (ents m2)(a \<mapsto> e\<lparr>rs_v := 0, rs_right := None\<rparr>)\<rparr>) p = Ret (t, m3)" "set_left m3 (Some a) t = Ret m'"
      "q' = q1\<lparr>pForest := pForest q'\<rparr>" "frst m' (pForest q') (fs @ [a]) A W" "chunks_ok D L q1 m'"
      "next_addr m' = next_addr m1" "rs_hp m' = rs_hp m1" "mallocFailed m' = mallocFailed m1" "dom (ents m') = dom (ents m1)"
    using new_cell_ok [OF al(3) f1 f(2) l1 l(2) d(1) al(8) e] by blast
  have q': "fresh_cells q' = fresh_cells q1" "batch_frame q q'" "chunks_ok D L q' m'"
    using k(7) q1(2) by (subst k(5), simp add: fresh_cells_def chunk_cells_def chunks_ok_def batch_frame_def)+
  have "new_tree q (if fs = [] then None else Some (last fs)) p m = Ret (q', m')" using al(1) k(1-4) by (simp add: new_tree_def)
  moreover have "insert a (A \<union> set fs) \<subseteq> dom (ents m')" using k(11) al(5,7) by simp
  ultimately show ?thesis using k al(6,8-11) q' by (auto simp: op_frame_def)
qed

text \<open>What one new batch does: the pending entries join the tested ones, or all is lost to a failed allocation.\<close>

definition batched :: "addr set \<Rightarrow> int \<Rightarrow> RowSet \<Rightarrow> rsmem \<Rightarrow> int set \<Rightarrow> int set \<Rightarrow> RowSet \<Rightarrow> rsmem \<Rightarrow> bool" where
  "batched D L q m S P q' m' \<longleftrightarrow> op_frame m m' \<and> rsFlags q' AND 2 = 0 \<and> iBatch q' = iBatch q \<and>
     (rs_inv D L q' m' (S \<union> P) {} \<and> mallocFailed m' = mallocFailed m \<and> (pForest q' \<noteq> None \<longleftrightarrow> pForest q \<noteq> None \<or> P \<noteq> {}) \<and>
        (P = {} \<longrightarrow> pChunk q' = pChunk q) \<or>
      rs_inv D L q' m' {} {} \<and> mallocFailed m' \<and> False \<in> set (outcomes (rs_hp m)) \<and> (pForest q' = None \<longleftrightarrow> pForest q = None))"

lemma op_frame_step: "rs_step A m m' \<Longrightarrow> op_frame m m'"
  by (simp add: op_frame_def heap_after_def rs_stepD)

lemma frst_pForest: "frst m p fs A S \<Longrightarrow> p = None \<longleftrightarrow> fs = []"
  by (cases fs) auto

text \<open>With no pending entries left.\<close>

lemma no_pending:
  assumes "chunks_ok D L q m" "frst m (pForest q) fs B S" "distinct fs" "B \<inter> set fs = {}"
    "(B \<union> set fs) \<inter> fresh_cells q = {}" "B \<union> set fs \<subseteq> dom (ents m)" "rsFlags q AND 2 = 0"
  shows "rs_inv D L (q\<lparr>pEntry := None, pLast := None, rsFlags := rsFlags q OR 1\<rparr>) m S {}"
proof -
  let ?q = "q\<lparr>pEntry := None, pLast := None, rsFlags := rsFlags q OR 1\<rparr>"
  have "pend_list ?q m {} {} []" by (simp add: pend_list_def)
  then have "pend ?q m {} {}" using assms(7) by (auto simp: pend_def)
  moreover have "fresh_cells ?q = fresh_cells q" "chunk_cells ?q = chunk_cells q" by (simp_all add: fresh_cells_def chunk_cells_def)
  ultimately show ?thesis
    unfolding rs_inv_def parts_ok_def chunks_ok_def
    using assms(2-6) chunks_okD [OF assms(1)] by (intro conjI exI [of _ "{}"] exI [of _ B] exI [of _ fs]) simp_all
qed

lemma pending_sorted:
  assumes "pend q m A P" "rsFlags q AND 2 = 0" "bounded_ents m" "next_addr m < 2 ^ 40"
  shows "\<exists>h m'. (if rsFlags q AND 1 = 0 then rowSetEntrySort m (pEntry q) else Ret (pEntry q, m)) = Ret (h, m') \<and>
    rs_step A m m' \<and> sl m' h A P"
proof -
  obtain as where as: "pend_list q m A P as" using assms(1,2) by (auto simp: pend_def)
  note a = as [unfolded pend_list_def]
  show ?thesis
  proof (cases "rsFlags q AND 1 = 0")
    case True
    have sub: "set as \<subseteq> A" using a by blast
    obtain h m' where r: "rowSetEntrySort m (pEntry q) = Ret (h, m')" "rs_step (set as) m m'" "sl m' h (set as) P"
      using rowSetEntrySort_ok [of m "pEntry q" as] a assms(3,4) by auto
    then show ?thesis using True rs_step_mono [OF r(2) sub] sl_mono [OF r(3) sub] by simp
  next
    case False
    have "sl m (pEntry q) A P" unfolding sl_def using a False by (intro exI [of _ as]) simp
    then show ?thesis using False by (simp add: rs_step_refl)
  qed
qed

lemma pending_None: "pend q m A P \<Longrightarrow> pEntry q = None \<longleftrightarrow> P = {}"
proof -
  assume p: "pend q m A P"
  show "pEntry q = None \<longleftrightarrow> P = {}"
  proof (cases "rsFlags q AND 2 = 0")
    case True
    then obtain as where "pend_list q m A P as" using p by (auto simp: pend_def)
    then show ?thesis by (cases as) (auto simp: pend_list_def)
  next
    case False
    then have "sl m (pEntry q) A P" using p by (simp add: pend_def)
    then show ?thesis by (cases "P = {}"; cases "pEntry q") auto
  qed
qed

text \<open>All trees have been merged into the list \<open>h\<close>, which goes into a new cell.\<close>

lemma new_tree_batched:
  assumes c: "chunks_ok D L q m2" and f: "frst m2 (pForest q) fs {} {}" "distinct fs" and l: "sl m2 h C (S \<union> P)" "P \<noteq> {}"
    and d: "C \<inter> set fs = {}" "(C \<union> set fs) \<inter> fresh_cells q = {}" "C \<union> set fs \<subseteq> dom (ents m2)"
    and w: "rsFlags q AND 2 = 0" and s: "rs_step X m m2"
  shows "\<exists>q' m'. new_tree q (if fs = [] then None else Some (last fs)) h m2 = Ret (q', m') \<and>
    batched D L q m S P (q'\<lparr>pEntry := None, pLast := None, rsFlags := rsFlags q' OR 1\<rparr>) m'"
proof -
  have ne: "S \<union> P \<noteq> {}" using l(2) by blast
  obtain q' m' where n: "new_tree q (if fs = [] then None else Some (last fs)) h m2 = Ret (q', m')" "op_frame m2 m'" "batch_frame q q'" "chunks_ok D L q' m'"
      "(\<exists>a. frst m' (pForest q') (fs @ [a]) C (S \<union> P) \<and> a \<notin> C \<union> set fs \<and>
         insert a (C \<union> set fs) \<inter> fresh_cells q' = {} \<and> insert a (C \<union> set fs) \<subseteq> dom (ents m') \<and> mallocFailed m' = mallocFailed m2) \<or>
       (frst m' (pForest q') fs {} {} \<and> fresh_cells q' = fresh_cells q \<and> set fs \<subseteq> dom (ents m') \<and>
         mallocFailed m' \<and> False \<in> set (outcomes (rs_hp m2)))"
    using new_tree_ok [OF c f l(1) ne d] by blast
  have w': "rsFlags q' AND 2 = 0" "iBatch q' = iBatch q" using n(3) w by (simp_all add: batch_frame_def)
  have of: "op_frame m m'" using n(2) rs_stepD(1-2) [OF s] by (simp add: op_frame_def)
  let ?q = "q'\<lparr>pEntry := None, pLast := None, rsFlags := rsFlags q' OR 1\<rparr>"
  from n(5) have "batched D L q m S P ?q m'"
  proof (elim disjE exE conjE)
    fix a assume a: "frst m' (pForest q') (fs @ [a]) C (S \<union> P)" "a \<notin> C \<union> set fs"
      "insert a (C \<union> set fs) \<inter> fresh_cells q' = {}" "insert a (C \<union> set fs) \<subseteq> dom (ents m')" "mallocFailed m' = mallocFailed m2"
    have "rs_inv D L ?q m' (S \<union> P) {}" by (rule no_pending [OF n(4) a(1)]) (use a f(2) d(1) w' in auto)
    then show ?thesis
      unfolding batched_def using of w' a(5) rs_stepD(3) [OF s] frst_pForest [OF a(1)] l(2) by auto
  next
    assume b: "frst m' (pForest q') fs {} {}" "fresh_cells q' = fresh_cells q" "set fs \<subseteq> dom (ents m')" "mallocFailed m'"
      "False \<in> set (outcomes (rs_hp m2))"
    have "rs_inv D L ?q m' {} {}" by (rule no_pending [OF n(4) b(1)]) (use b d f(2) w' in auto)
    then show ?thesis
      unfolding batched_def using of w' b rs_stepD(2) [OF s] frst_pForest [OF b(1)] frst_pForest [OF f(1)] by auto
  qed
  then show ?thesis using n(1) by blast
qed

lemma new_batch_ok:
  assumes inv: "rs_inv D L q m S P" and w: "rsFlags q AND 2 = 0" and big: "next_addr m < 2 ^ 40"
  shows "\<exists>q' m'. new_batch q m = Ret (q', m') \<and> batched D L q m S P q' m'"
proof (cases "P = {}")
  case True
  obtain A where "pend q m A P" using inv unfolding rs_inv_def parts_ok_def by blast
  then have "new_batch q m = Ret (q, m)" using pending_None [of q m A P] True by (simp add: new_batch_def)
  then show ?thesis using True inv w by (simp add: batched_def op_frame_def heap_after_def)
next
  case False
  obtain A B fs where p: "parts_ok q m A B fs S P" and c: "chunks_ok D L q m" using inv unfolding rs_inv_def by blast
  have pe: "pend q m A P" and fr: "frst m (pForest q) fs B S" and df: "distinct fs"
    and dj: "B \<inter> A = {}" "set fs \<inter> (B \<union> A) = {}" "((B \<union> A) \<union> set fs) \<inter> fresh_cells q = {}" "(B \<union> A) \<union> set fs \<subseteq> dom (ents m)"
    using p unfolding parts_ok_def by auto
  obtain h m1 where s: "(if rsFlags q AND 1 = 0 then rowSetEntrySort m (pEntry q) else Ret (pEntry q, m)) = Ret (h, m1)"
      "rs_step A m m1" "sl m1 h A P"
    using pending_sorted [OF pe w chunks_okD(1) [OF c] big] by blast
  have f1: "frst m1 (pForest q) fs B S" by (rule frst_frame [OF s(2) _ _ fr]) (use dj in auto)
  have c1: "chunks_ok D L q m1" by (rule chunks_step [OF s(2) c])
  have len: "length fs \<le> next_addr m1" by (rule rlist_bound [OF frst_rlist [OF f1] chunks_okD(1) [OF c1] df])
  obtain prev pTree h2 m2 where r: "forest_loop (next_addr m1) m1 None (pForest q) h = Ret (prev, pTree, h2, m2)"
      "put_in m1 (pForest q) fs None (B \<union> A) (S \<union> P) (prev, pTree, h2, m2)"
    using forest_loop_ok [OF f1 s(3) False dj(1,2) df chunks_okD(1) [OF c1] len, of None] by auto
  have s12: "rs_step ((B \<union> A) \<union> set fs) m1 m2" using r(2) by (simp add: put_in_def)
  have s02: "rs_step ((B \<union> A) \<union> set fs) m m2" by (rule rs_step_trans [OF rs_step_mono [OF s(2)] s12]) auto
  have c2: "chunks_ok D L q m2" by (rule chunks_step [OF s02 c])
  have dj2: "(B \<union> A) \<union> set fs \<subseteq> dom (ents m2)" using rs_step_dom [OF s02] dj(4) by simp
  have "pEntry q \<noteq> None" using pending_None [OF pe] False by simp
  then have eq: "new_batch q m = cbind (if pTree = None then new_tree q prev h2 m2 else Ret (q, m2))
      (\<lambda>(q, m). Ret (q\<lparr>pEntry := None, pLast := None, rsFlags := rsFlags q OR 1\<rparr>, m))"
    using s(1) r(1) by (simp add: new_batch_def)
  have dj3: "(B \<union> A) \<inter> set fs = {}" using dj(2) by auto
  show ?thesis
  proof (cases pTree)
    case (Some t)
    then have f2: "frst m2 (pForest q) fs (B \<union> A) (S \<union> P)" using r(2) by (simp add: put_in_def)
    then have "fs \<noteq> []" using False by (cases fs) auto
    then have "pForest q \<noteq> None" using frst_pForest [OF fr] by simp
    moreover have "rs_inv D L (q\<lparr>pEntry := None, pLast := None, rsFlags := rsFlags q OR 1\<rparr>) m2 (S \<union> P) {}"
      by (rule no_pending [OF c2 f2 df dj3 dj(3) dj2 w])
    ultimately show ?thesis
      using eq Some w False op_frame_step [OF s02] rs_stepD(3) [OF s02] by (simp add: batched_def)
  next
    case None
    then have f2: "prev = (if fs = [] then None else Some (last fs))" "frst m2 (pForest q) fs {} {}" "sl m2 h2 (B \<union> A) (S \<union> P)"
      using r(2) by (simp_all add: put_in_def)
    show ?thesis
      using new_tree_batched [OF c2 f2(2) df f2(3) False dj3 dj(3) dj2 w s02] eq None unfolding f2(1) by auto
  qed
qed

section \<open>Testing, reading and clearing\<close>

lemma batch_only [simp]: "rs_inv D L (q\<lparr>iBatch := b\<rparr>) m S P = rs_inv D L q m S P"
proof -
  have "pend_list (q\<lparr>iBatch := b\<rparr>) = pend_list q" by (intro ext) (simp add: pend_list_def)
  then have "pend (q\<lparr>iBatch := b\<rparr>) = pend q" by (intro ext) (simp add: pend_def)
  then show ?thesis by (simp add: rs_inv_def chunks_ok_def parts_ok_def fresh_cells_def chunk_cells_def)
qed

lemma search_ok:
  assumes "rs_inv D L q m S P"
  shows "forest_search (next_addr m) m r (pForest q) = Ret (r \<in> S)"
proof -
  obtain A B fs where p: "parts_ok q m A B fs S P" and c: "chunks_ok D L q m" using assms unfolding rs_inv_def by blast
  have f: "frst m (pForest q) fs B S" "distinct fs" using p unfolding parts_ok_def by auto
  show ?thesis
    by (rule forest_search_ok [OF f(1) chunks_okD(1) [OF c] rlist_bound [OF frst_rlist [OF f(1)] chunks_okD(1) [OF c] f(2)]])
qed

lemma sqlite3RowSetTest_same:
  "rs_inv D L q m S P \<Longrightarrow> sqlite3RowSetTest q (iBatch q) r m = Ret (r \<in> S, q, m)"
  by (simp add: sqlite3RowSetTest_def search_ok)

lemma sqlite3RowSetTest_new:
  assumes inv: "rs_inv D L q m S P" and w: "rsFlags q AND 2 = 0" and big: "next_addr m < 2 ^ 40" and b: "b \<noteq> iBatch q"
  shows "\<exists>S' q' m'. sqlite3RowSetTest q b r m = Ret (r \<in> S', q'\<lparr>iBatch := b\<rparr>, m') \<and> op_frame m m' \<and> rsFlags q' AND 2 = 0 \<and>
    rs_inv D L q' m' S' {} \<and>
    (S' = S \<union> P \<and> mallocFailed m' = mallocFailed m \<and> (pForest q' \<noteq> None \<longleftrightarrow> pForest q \<noteq> None \<or> P \<noteq> {}) \<and>
       (P = {} \<longrightarrow> pChunk q' = pChunk q) \<or>
     S' = {} \<and> mallocFailed m' \<and> False \<in> set (outcomes (rs_hp m)) \<and> (pForest q' = None \<longleftrightarrow> pForest q = None))"
proof -
  obtain q' m' where n: "new_batch q m = Ret (q', m')" "batched D L q m S P q' m'" using new_batch_ok [OF inv w big] by blast
  then obtain S' where S': "rs_inv D L q' m' S' {}"
      "S' = S \<union> P \<and> mallocFailed m' = mallocFailed m \<and> (pForest q' \<noteq> None \<longleftrightarrow> pForest q \<noteq> None \<or> P \<noteq> {}) \<and>
       (P = {} \<longrightarrow> pChunk q' = pChunk q) \<or>
       S' = {} \<and> mallocFailed m' \<and> False \<in> set (outcomes (rs_hp m)) \<and> (pForest q' = None \<longleftrightarrow> pForest q = None)"
    unfolding batched_def by (elim conjE disjE) (rule that, assumption, blast)+
  have "sqlite3RowSetTest q b r m = Ret (r \<in> S', q'\<lparr>iBatch := b\<rparr>, m')"
    using b n(1) search_ok [OF S'(1), of r] by (simp add: sqlite3RowSetTest_def)
  then show ?thesis using S' n(2) unfolding batched_def by (intro exI [of _ S'] exI [of _ q'] exI [of _ m']) simp
qed

lemma free_chunks_frame:
  "next_addr (free_chunks cs m) = next_addr m \<and> outcomes (rs_hp (free_chunks cs m)) = outcomes (rs_hp m) \<and>
   mallocFailed (free_chunks cs m) = mallocFailed m \<and> live (rs_hp (free_chunks cs m)) = live (rs_hp m) - int (length cs) \<and>
   ents (free_chunks cs m) = (ents m) |` (- (\<Union>c \<in> set cs. {c ..< c + ROWSET_ENTRY_PER_CHUNK}))"
proof (induction cs arbitrary: m)
  case (Cons c cs)
  let ?m = "m\<lparr>ents := (\<lambda>a. if c \<le> a \<and> a < c + ROWSET_ENTRY_PER_CHUNK then None else ents m a), rs_hp := c_free (rs_hp m)\<rparr>"
  have "ents ?m |` X = ents m |` (X - {c ..< c + ROWSET_ENTRY_PER_CHUNK})" for X
    by (rule ext) (auto simp: restrict_map_def)
  then show ?case using Cons.IH [of ?m] by (auto intro!: arg_cong [of _ _ "(|`) (ents m)"])
qed (simp add: restrict_map_def)

lemma sqlite3RowSetClear_ok:
  assumes "rs_inv D L q m S P" "sqlite3RowSetClear q m = (q', m')"
  shows "rs_inv D L q' m' {} {}" "op_frame m m'" "mallocFailed m' = mallocFailed m" "rsFlags q' AND 2 = 0" "pForest q' = None"
    "iBatch q' = iBatch q" "dom (ents m') = D" "live (rs_hp m') = L" "\<forall>a \<in> D. ents m' a = ents m a"
proof -
  have c: "chunks_ok D L q m" using assms(1) unfolding rs_inv_def by blast
  have q': "q' = q\<lparr>pChunk := [], nFresh := 0, pEntry := None, pLast := None, pForest := None, rsFlags := 1\<rparr>"
    and m': "m' = free_chunks (pChunk q) m" using assms(2) by (simp_all add: sqlite3RowSetClear_def)
  have F: "next_addr m' = next_addr m" "outcomes (rs_hp m') = outcomes (rs_hp m)" "live (rs_hp m') = L" "ents m' = ents m |` (- chunk_cells q)"
    using free_chunks_frame [of "pChunk q" m] chunks_okD(4) [OF c] by (simp_all add: m' chunk_cells_def)
  show md: "mallocFailed m' = mallocFailed m" using free_chunks_frame [of "pChunk q" m] by (simp add: m')
  show d: "dom (ents m') = D" unfolding F(4) dom_restrict chunks_okD(2) [OF c] using chunks_okD(3) [OF c] by blast
  show "live (rs_hp m') = L" by (rule F(3))
  show "op_frame m m'" using F by (simp add: op_frame_def heap_after_def)
  show "\<forall>a \<in> D. ents m' a = ents m a" unfolding F(4) using chunks_okD(3) [OF c] by (auto simp: restrict_map_def)
  show "rsFlags q' AND 2 = 0" "pForest q' = None" "iBatch q' = iBatch q" by (simp_all add: q')
  have "bounded_ents m'" using chunks_okD(1) [OF c] F by (auto simp: restrict_map_def split: if_splits)
  then have "chunks_ok D L q' m'" using d F(3) by (simp add: chunks_ok_def q' chunk_cells_def fresh_cells_def)
  moreover have "parts_ok q' m' {} {} [] {} {}"
    by (auto simp: parts_ok_def pend_def pend_list_def q' intro!: exI [of _ "[]"])
  ultimately show "rs_inv D L q' m' {} {}" unfolding rs_inv_def by blast
qed

text \<open>Reading: the list is in order from the first call on.\<close>

lemma start_reading:
  assumes inv: "rs_inv D L q m {} P" and f: "pForest q = None" and big: "next_addr m < 2 ^ 40"
  shows "\<exists>q' m' A. (if rsFlags q AND 2 = 0
     then cbind (if rsFlags q AND 1 = 0
                 then cbind (rowSetEntrySort m (pEntry q)) (\<lambda>(e, m). Ret (q\<lparr>pEntry := e\<rparr>, m))
                 else Ret (q, m)) (\<lambda>(p, m). Ret (p\<lparr>rsFlags := rsFlags p OR (1 OR 2)\<rparr>, m))
     else Ret (q, m)) = Ret (q', m') \<and> rs_step A m m' \<and> q' = q\<lparr>pEntry := pEntry q', rsFlags := rsFlags q'\<rparr> \<and>
    rsFlags q' AND 2 \<noteq> 0 \<and> parts_ok q' m' A {} [] {} P"
proof -
  obtain A B fs where p: "parts_ok q m A B fs {} P" and c: "chunks_ok D L q m" using inv unfolding rs_inv_def by blast
  then have p': "pend q m A P" "A \<inter> fresh_cells q = {}" "A \<subseteq> dom (ents m)" unfolding parts_ok_def by auto
  have parts: "parts_ok q' m' A {} [] {} P"
    if "sl m' (pEntry q') A P" "rs_step A m m'" "rsFlags q' AND 2 \<noteq> 0" "q' = q\<lparr>pEntry := pEntry q', rsFlags := rsFlags q'\<rparr>" for q' m'
  proof -
    have "pForest q' = None" "fresh_cells q' = fresh_cells q" using f by (subst that(4), simp add: fresh_cells_def)+
    then show ?thesis using that(1,3) p' rs_step_dom [OF that(2)] by (simp add: parts_ok_def pend_def)
  qed
  show ?thesis
  proof (cases "rsFlags q AND 2 = 0")
    case True
    obtain h m' where s: "(if rsFlags q AND 1 = 0 then rowSetEntrySort m (pEntry q) else Ret (pEntry q, m)) = Ret (h, m')"
        "rs_step A m m'" "sl m' h A P"
      using pending_sorted [OF p'(1) True chunks_okD(1) [OF c] big] by blast
    let ?q = "q\<lparr>pEntry := h, rsFlags := rsFlags q OR 3\<rparr>"
    have "parts_ok ?q m' A {} [] {} P" by (rule parts) (use s in simp_all)
    then show ?thesis using True s(1,2) by (intro exI [of _ ?q] exI [of _ m'] exI [of _ A]) (auto split: if_splits)
  next
    case False
    then have "parts_ok q m A {} [] {} P" using p'(1) by (intro parts) (simp_all add: pend_def rs_step_refl)
    then show ?thesis using False by (intro exI [of _ q] exI [of _ m] exI [of _ A]) (simp add: rs_step_refl)
  qed
qed

lemma sl_head:
  assumes "sl m p A V" "V \<noteq> {}"
  shows "\<exists>a e. p = Some a \<and> ents m a = Some e \<and> rs_v e = Min V \<and> sl m (rs_right e) A (V - {Min V})"
proof -
  obtain as where as: "rlist (ents m) p as" "strict (vals (ents m) as)" "V = set (vals (ents m) as)" "set as \<subseteq> A"
    using assms(1) unfolding sl_def by blast
  then obtain a as' e where a: "as = a # as'" "p = Some a" "ents m a = Some e" "rlist (ents m) (rs_right e) as'"
    using assms(2) by (cases as) auto
  have le: "\<forall>v \<in> set (vals (ents m) as'). rs_v e < v" and V: "V = insert (rs_v e) (set (vals (ents m) as'))"
    using as(2,3) a(1,3) by auto
  have mn: "Min V = rs_v e" unfolding V by (rule Min_eqI) (use le in auto)
  have "V - {Min V} = set (vals (ents m) as')" unfolding mn using V le by auto
  then have "sl m (rs_right e) A (V - {Min V})" unfolding sl_def using a as(2,4) by (intro exI [of _ as']) auto
  then show ?thesis using a mn by simp
qed

lemma sqlite3RowSetNext_ok:
  assumes inv: "rs_inv D L q m {} P" and f: "pForest q = None" and big: "next_addr m < 2 ^ 40"
  shows "\<exists>q' m'. sqlite3RowSetNext q m = Ret (if P = {} then None else Some (Min P), q', m') \<and> op_frame m m' \<and>
    rs_inv D L q' m' {} (P - {Min P}) \<and> (rsFlags q' AND 2 \<noteq> 0 \<longleftrightarrow> P = {} \<or> P \<noteq> {Min P}) \<and> pForest q' = None \<and>
    iBatch q' = iBatch q \<and> mallocFailed m' = mallocFailed m \<and>
    (P = {} \<longrightarrow> pChunk q' = pChunk q) \<and> (P = {Min P} \<longrightarrow> pChunk q' = [])"
proof -
  have c: "chunks_ok D L q m" using inv unfolding rs_inv_def by blast
  obtain q1 m1 A where s: "(if rsFlags q AND 2 = 0
     then cbind (if rsFlags q AND 1 = 0
                 then cbind (rowSetEntrySort m (pEntry q)) (\<lambda>(e, m). Ret (q\<lparr>pEntry := e\<rparr>, m))
                 else Ret (q, m)) (\<lambda>(p, m). Ret (p\<lparr>rsFlags := rsFlags p OR (1 OR 2)\<rparr>, m))
     else Ret (q, m)) = Ret (q1, m1)" "rs_step A m m1" "q1 = q\<lparr>pEntry := pEntry q1, rsFlags := rsFlags q1\<rparr>"
     "rsFlags q1 AND 2 \<noteq> 0" "parts_ok q1 m1 A {} [] {} P"
    using start_reading [OF inv f big] by blast
  have q1: "pForest q1 = None" "iBatch q1 = iBatch q" "fresh_cells q1 = fresh_cells q" "chunk_cells q1 = chunk_cells q" "pChunk q1 = pChunk q"
    using f by (subst s(3), simp add: fresh_cells_def chunk_cells_def)+
  have c1: "chunks_ok D L q1 m1" using chunks_step [OF s(2) c] by (simp add: chunks_ok_def q1)
  have l: "sl m1 (pEntry q1) A P" "A \<inter> fresh_cells q1 = {}" "A \<subseteq> dom (ents m1)" using s(4,5) by (simp_all add: parts_ok_def pend_def)
  note fr = op_frame_step [OF s(2)] rs_stepD(3) [OF s(2)]
  show ?thesis
  proof (cases "P = {}")
    case True
    then have "sqlite3RowSetNext q m = Ret (None, q1, m1)" using l(1) s(1) by (simp add: sqlite3RowSetNext_def)
    moreover have "rs_inv D L q1 m1 {} P" unfolding rs_inv_def using c1 s(5) by blast
    ultimately show ?thesis using True s(4) q1 fr by simp
  next
    case False
    obtain a e where a: "pEntry q1 = Some a" "ents m1 a = Some e" "rs_v e = Min P" "sl m1 (rs_right e) A (P - {Min P})"
      using sl_head [OF l(1) False] by blast
    let ?q = "q1\<lparr>pEntry := rs_right e\<rparr>"
    have "parts_ok ?q m1 A {} [] {} (P - {Min P})" using a(4) s(4) l q1(1) by (simp add: parts_ok_def pend_def fresh_cells_def)
    moreover have "chunks_ok D L ?q m1" using c1 by (simp add: chunks_ok_def chunk_cells_def fresh_cells_def)
    ultimately have inv1: "rs_inv D L ?q m1 {} (P - {Min P})" unfolding rs_inv_def by blast
    have last: "rs_right e = None \<longleftrightarrow> P - {Min P} = {}" using a(4) by (cases "rs_right e"; cases "P - {Min P} = {}") auto
    have eq: "sqlite3RowSetNext q m = (case (if rs_right e = None then sqlite3RowSetClear ?q m1 else (?q, m1)) of (p, m) \<Rightarrow> Ret (Some (Min P), p, m))"
      using s(1) a(1-3) by (simp add: sqlite3RowSetNext_def Let_def split: prod.splits)
    show ?thesis
    proof (cases "rs_right e")
      case None
      obtain q' m' where cl: "sqlite3RowSetClear ?q m1 = (q', m')" by fastforce
      note C = sqlite3RowSetClear_ok [OF inv1 cl]
      have "P = {Min P}" using None last False by auto
      moreover have "op_frame m m'" using C(2) fr(1) rs_stepD(1-2) [OF s(2)] by (simp add: op_frame_def)
      moreover have "sqlite3RowSetNext q m = Ret (Some (Min P), q', m')" using eq None cl by simp
      moreover have "pChunk q' = []" using cl by (auto simp: sqlite3RowSetClear_def)
      ultimately show ?thesis using C(1,3-6) False None last fr(2) q1(2) by auto
    next
      case (Some b)
      then have "P \<noteq> {Min P}" using last by auto
      then show ?thesis using Some eq inv1 False s(4) q1 fr by simp
    qed
  qed
qed

section \<open>Specification and refinement\<close>

text \<open>
  A row set holds two sets of rowids: those of earlier batches, which can be tested, and the pending ones. The
  assertions of the code are the protocol: no insertion and no test while the set is read in order, no
  reading in order once a batch has been indexed. A call against the protocol is refused.
\<close>

datatype rs_op = RsInsert int | RsTest int int | RsNext | RsClear

datatype rs_res = Refused | Done | Answer bool | Row "int option"

record rs_abs =
  indexed :: bool
  tested :: "int set"
  pending :: "int set"
  reading :: bool
  batch :: int
  failed :: bool

fun rowset_call :: "rs_op \<Rightarrow> RowSet \<times> rsmem \<Rightarrow> (rs_res \<times> RowSet \<times> rsmem) cres" where
  "rowset_call (RsInsert r) (q, m) =
     (if rsFlags q AND ROWSET_NEXT \<noteq> 0 then Ret (Refused, q, m)
      else cbind (sqlite3RowSetInsert q r m) (\<lambda>(q, m). Ret (Done, q, m)))"
| "rowset_call (RsTest b r) (q, m) =
     (if rsFlags q AND ROWSET_NEXT \<noteq> 0 then Ret (Refused, q, m)
      else cbind (sqlite3RowSetTest q b r m) (\<lambda>(x, q, m). Ret (Answer x, q, m)))"
| "rowset_call RsNext (q, m) =
     (if pForest q \<noteq> None then Ret (Refused, q, m)
      else cbind (sqlite3RowSetNext q m) (\<lambda>(x, q, m). Ret (Row x, q, m)))"
| "rowset_call RsClear (q, m) = Ret (Done, sqlite3RowSetClear q m)"

text \<open>\<open>oom\<close>: some allocation may fail. Then a rowid, or with an index all rowids, can get lost, and the flag for it is set.\<close>

fun rowset_spec :: "bool \<Rightarrow> rs_op \<Rightarrow> rs_abs \<Rightarrow> rs_res \<Rightarrow> rs_abs \<Rightarrow> bool" where
  "rowset_spec oom (RsInsert r) a x a' \<longleftrightarrow>
     (if reading a then x = Refused \<and> a' = a
      else x = Done \<and> (a' = a\<lparr>pending := insert r (pending a)\<rparr> \<or> oom \<and> a' = a\<lparr>failed := True\<rparr>))"
| "rowset_spec oom (RsTest b r) a x a' \<longleftrightarrow>
     (if reading a then x = Refused \<and> a' = a
      else x = Answer (r \<in> tested a') \<and>
        (if b = batch a then a' = a
         else a' = a\<lparr>indexed := indexed a \<or> pending a \<noteq> {}, tested := tested a \<union> pending a, pending := {}, batch := b\<rparr> \<or>
              oom \<and> a' = a\<lparr>tested := {}, pending := {}, batch := b, failed := True\<rparr>))"
| "rowset_spec oom RsNext a x a' \<longleftrightarrow>
     (if indexed a then x = Refused \<and> a' = a
      else if pending a = {} then x = Row None \<and> a' = a\<lparr>reading := True\<rparr>
      else x = Row (Some (Min (pending a))) \<and>
           a' = a\<lparr>pending := pending a - {Min (pending a)}, reading := (pending a \<noteq> {Min (pending a)})\<rparr>)"
| "rowset_spec oom RsClear a x a' \<longleftrightarrow> x = Done \<and> a' = a\<lparr>indexed := False, tested := {}, pending := {}, reading := False\<rparr>"

text \<open>With \<open>n\<close> calls to go, each of which may take one chunk, the addresses stay below the limit of the sort.\<close>

definition rowset_rel :: "addr set \<Rightarrow> int \<Rightarrow> bool \<Rightarrow> nat \<Rightarrow> RowSet \<times> rsmem \<Rightarrow> rs_abs \<Rightarrow> bool" where
  "rowset_rel D L oom n = (\<lambda>(q, m) a. rs_inv D L q m (tested a) (pending a) \<and> (pForest q \<noteq> None \<longleftrightarrow> indexed a) \<and>
     (rsFlags q AND ROWSET_NEXT \<noteq> 0 \<longleftrightarrow> reading a) \<and> iBatch q = batch a \<and> mallocFailed m = failed a \<and>
     (\<not> failed a \<and> \<not> indexed a \<and> pending a = {} \<longrightarrow> pChunk q = []) \<and>
     next_addr m + 42 * n < 2 ^ 40 \<and> (False \<in> set (outcomes (rs_hp m)) \<longrightarrow> oom))"

lemma rowset_relI:
  assumes "rs_inv D L q m (tested a) (pending a)" "pForest q \<noteq> None \<longleftrightarrow> indexed a" "rsFlags q AND 2 \<noteq> 0 \<longleftrightarrow> reading a"
    "iBatch q = batch a" "mallocFailed m = failed a" "\<not> failed a \<and> \<not> indexed a \<and> pending a = {} \<longrightarrow> pChunk q = []"
    "op_frame m0 m" "rowset_rel D L oom (Suc n) (q0, m0) a0"
  shows "rowset_rel D L oom n (q, m) a"
proof -
  have "next_addr m + 42 * n < 2 ^ 40" "False \<in> set (outcomes (rs_hp m)) \<longrightarrow> oom"
    using assms(7,8) by (auto simp: rowset_rel_def op_frame_def heap_after_def simp del: not_None_eq)
  then show ?thesis unfolding rowset_rel_def prod.case using assms(1-6) by (intro conjI)
qed

lemma rowset_relD:
  assumes "rowset_rel D L oom (Suc n) (q, m) a"
  shows "rs_inv D L q m (tested a) (pending a)" "pForest q \<noteq> None \<longleftrightarrow> indexed a" "rsFlags q AND 2 \<noteq> 0 \<longleftrightarrow> reading a"
    "iBatch q = batch a" "mallocFailed m = failed a" "next_addr m < 2 ^ 40" "False \<in> set (outcomes (rs_hp m)) \<Longrightarrow> oom"
    "rowset_rel D L oom n (q, m) a" "\<not> failed a \<and> \<not> indexed a \<and> pending a = {} \<longrightarrow> pChunk q = []"
  using assms by (simp_all add: rowset_rel_def)

lemma not_indexed: "rs_inv D L q m S P \<Longrightarrow> pForest q = None \<Longrightarrow> S = {}"
  unfolding rs_inv_def parts_ok_def using frst_pForest by fastforce

lemma insert_call:
  assumes rel: "rowset_rel D L oom (Suc n) (q, m) a"
  shows "\<exists>x s a'. rowset_call (RsInsert r) (q, m) = Ret (x, s) \<and> rowset_spec oom (RsInsert r) a x a' \<and> rowset_rel D L oom n s a'"
proof (cases "reading a")
  case True
  then show ?thesis using rowset_relD(3,8) [OF rel] by auto
next
  case False
  note R = rowset_relD [OF rel]
  obtain q' m' where i: "sqlite3RowSetInsert q r m = Ret (q', m')" "op_frame m m'" "rsFlags q' AND 2 = 0"
      "iBatch q' = iBatch q" "pForest q' = pForest q"
      "rs_inv D L q' m' (tested a) (insert r (pending a)) \<and> mallocFailed m' = mallocFailed m \<or>
       rs_inv D L q' m' (tested a) (pending a) \<and> mallocFailed m' \<and> False \<in> set (outcomes (rs_hp m))"
    using sqlite3RowSetInsert_ok [OF R(1), of r] R(3) False by blast
  have call: "rowset_call (RsInsert r) (q, m) = Ret (Done, q', m')" using i(1) R(3) False by simp
  from i(6) show ?thesis
  proof (elim disjE conjE)
    assume "rs_inv D L q' m' (tested a) (insert r (pending a))" "mallocFailed m' = mallocFailed m"
    then have "rowset_rel D L oom n (q', m') (a\<lparr>pending := insert r (pending a)\<rparr>)"
      using i R False by (intro rowset_relI [OF _ _ _ _ _ _ i(2) rel]) auto
    then show ?thesis using call False by auto
  next
    assume f: "rs_inv D L q' m' (tested a) (pending a)" "mallocFailed m'" "False \<in> set (outcomes (rs_hp m))"
    then have "rowset_rel D L oom n (q', m') (a\<lparr>failed := True\<rparr>)"
      using i R False by (intro rowset_relI [OF _ _ _ _ _ _ i(2) rel]) auto
    then show ?thesis using call False R(7) [OF f(3)] by auto
  qed
qed

lemma test_call:
  assumes rel: "rowset_rel D L oom (Suc n) (q, m) a"
  shows "\<exists>x s a'. rowset_call (RsTest b r) (q, m) = Ret (x, s) \<and> rowset_spec oom (RsTest b r) a x a' \<and> rowset_rel D L oom n s a'"
proof -
  note R = rowset_relD [OF rel]
  consider "reading a" | "\<not> reading a" "b = batch a" | "\<not> reading a" "b \<noteq> batch a" by blast
  then show ?thesis
  proof cases
    case 1
    then show ?thesis using R(3,8) by auto
  next
    case 2
    then have "rowset_call (RsTest b r) (q, m) = Ret (Answer (r \<in> tested a), q, m)"
      using sqlite3RowSetTest_same [OF R(1), of r] R(3,4) by simp
    then show ?thesis using 2 R(8) by auto
  next
    case 3
    have w: "rsFlags q AND 2 = 0" "b \<noteq> iBatch q" using R(3,4) 3 by auto
    obtain S' q' m' where t: "sqlite3RowSetTest q b r m = Ret (r \<in> S', q'\<lparr>iBatch := b\<rparr>, m')" "op_frame m m'" "rsFlags q' AND 2 = 0"
        "rs_inv D L q' m' S' {}"
        "S' = tested a \<union> pending a \<and> mallocFailed m' = mallocFailed m \<and> (pForest q' \<noteq> None \<longleftrightarrow> pForest q \<noteq> None \<or> pending a \<noteq> {}) \<and>
           (pending a = {} \<longrightarrow> pChunk q' = pChunk q) \<or>
         S' = {} \<and> mallocFailed m' \<and> False \<in> set (outcomes (rs_hp m)) \<and> (pForest q' = None \<longleftrightarrow> pForest q = None)"
      using sqlite3RowSetTest_new [OF R(1) w(1) R(6) w(2), of r] by (elim exE conjE) (rule that; assumption)
    have call: "rowset_call (RsTest b r) (q, m) = Ret (Answer (r \<in> S'), q'\<lparr>iBatch := b\<rparr>, m')" using t(1) w(1) by simp
    let ?a = "a\<lparr>indexed := pForest q' \<noteq> None, tested := S', pending := {}, batch := b, failed := mallocFailed m'\<rparr>"
    have "rowset_rel D L oom n (q'\<lparr>iBatch := b\<rparr>, m') ?a"
      using t(3,4,5) 3 R(2,5,9) by (intro rowset_relI [OF _ _ _ _ _ _ t(2) rel]) auto
    moreover have "rowset_spec oom (RsTest b r) a (Answer (r \<in> S')) ?a"
      using t(5) 3 R(2,5,7) by (cases a) auto
    ultimately show ?thesis using call by blast
  qed
qed

lemma next_call:
  assumes rel: "rowset_rel D L oom (Suc n) (q, m) a"
  shows "\<exists>x s a'. rowset_call RsNext (q, m) = Ret (x, s) \<and> rowset_spec oom RsNext a x a' \<and> rowset_rel D L oom n s a'"
proof (cases "indexed a")
  case True
  then show ?thesis using rowset_relD(2,8) [OF rel] by auto
next
  case False
  note R = rowset_relD [OF rel]
  have f: "pForest q = None" "tested a = {}" using R(2) False not_indexed [OF R(1)] by auto
  let ?P = "pending a"
  obtain q' m' where x: "sqlite3RowSetNext q m = Ret (if ?P = {} then None else Some (Min ?P), q', m')" "op_frame m m'"
      "rs_inv D L q' m' {} (?P - {Min ?P})" "rsFlags q' AND 2 \<noteq> 0 \<longleftrightarrow> ?P = {} \<or> ?P \<noteq> {Min ?P}" "pForest q' = None"
      "iBatch q' = iBatch q" "mallocFailed m' = mallocFailed m"
      "?P = {} \<longrightarrow> pChunk q' = pChunk q" "?P = {Min ?P} \<longrightarrow> pChunk q' = []"
    using sqlite3RowSetNext_ok [OF R(1) [unfolded f(2)] f(1) R(6)] by blast
  let ?a = "a\<lparr>pending := ?P - {Min ?P}, reading := (?P = {} \<or> ?P \<noteq> {Min ?P})\<rparr>"
  have "rowset_rel D L oom n (q', m') ?a"
    by (rule rowset_relI [OF _ _ _ _ _ _ x(2) rel]) (use x f False R(4,5,9) in auto)
  moreover have "rowset_spec oom RsNext a (Row (if ?P = {} then None else Some (Min ?P))) ?a" using False by (cases "?P = {}") auto
  moreover have "rowset_call RsNext (q, m) = Ret (Row (if ?P = {} then None else Some (Min ?P)), q', m')" using x(1) f(1) by simp
  ultimately show ?thesis by blast
qed

lemma clear_call:
  assumes rel: "rowset_rel D L oom (Suc n) (q, m) a"
  shows "\<exists>x s a'. rowset_call RsClear (q, m) = Ret (x, s) \<and> rowset_spec oom RsClear a x a' \<and> rowset_rel D L oom n s a'"
proof -
  note R = rowset_relD [OF rel]
  obtain q' m' where c: "sqlite3RowSetClear q m = (q', m')" by fastforce
  note C = sqlite3RowSetClear_ok [OF R(1) c]
  have "pChunk q' = []" using c by (auto simp: sqlite3RowSetClear_def)
  then have "rowset_rel D L oom n (q', m') (a\<lparr>indexed := False, tested := {}, pending := {}, reading := False\<rparr>)"
    using C R(4,5) by (intro rowset_relI [OF _ _ _ _ _ _ C(2) rel]) auto
  then show ?thesis using c by auto
qed

interpretation rsim: forward_simulation rowset_call "rowset_spec oom" "rowset_rel D L oom" "\<lambda>_. True" for oom D L
proof
  fix n s a x assume rel: "rowset_rel D L oom (Suc n) s a"
  obtain q m where s: "s = (q, m)" by fastforce
  note rel' = rel [unfolded s]
  show "\<exists>r s' a'. rowset_call x s = Ret (r, s') \<and> rowset_spec oom x a r a' \<and> rowset_rel D L oom n s' a'"
    unfolding s by (cases x) (simp_all only: insert_call [OF rel'] test_call [OF rel'] next_call [OF rel'] clear_call [OF rel'])
qed

text \<open>A new row set in \<open>N\<close> bytes of a memory in which the entries behind the header are there.\<close>

definition rowset_space_ok :: "addr \<Rightarrow> nat \<Rightarrow> rsmem \<Rightarrow> bool" where
  "rowset_space_ok space N m \<longleftrightarrow> 56 \<le> N \<and> (\<forall>a. ents m a \<noteq> None \<longrightarrow> a < next_addr m) \<and>
     (\<forall>i < (N - 56) div 24. ents m (space + i) \<noteq> None)"

definition new_rowset_abs :: "bool \<Rightarrow> rs_abs" where
  "new_rowset_abs f = \<lparr>indexed = False, tested = {}, pending = {}, reading = False, batch = 0, failed = f\<rparr>"

lemma init_rel:
  assumes sp: "rowset_space_ok space N m" and big: "next_addr m + 42 * n < 2 ^ 40"
  shows "rowset_rel (dom (ents m)) (live (rs_hp m)) (False \<in> set (outcomes (rs_hp m))) n (sqlite3RowSetInit space N, m) (new_rowset_abs (mallocFailed m))"
proof -
  let ?q = "sqlite3RowSetInit space N"
  have "fresh_cells ?q \<subseteq> dom (ents m)"
  proof
    fix a assume "a \<in> fresh_cells ?q"
    then have "space \<le> a" "a < space + (N - 56) div 24 mod 65536" by (auto simp: fresh_cells_def sqlite3RowSetInit_def)
    moreover have "(N - 56) div 24 mod 65536 \<le> (N - 56) div 24" by (rule mod_less_eq_dividend)
    ultimately have "a - space < (N - 56) div 24" "space + (a - space) = a" by linarith+
    then show "a \<in> dom (ents m)" using sp unfolding rowset_space_ok_def by (metis domIff)
  qed
  then have "chunks_ok (dom (ents m)) (live (rs_hp m)) ?q m"
    using sp by (simp add: chunks_ok_def rowset_space_ok_def chunk_cells_def sqlite3RowSetInit_def)
  moreover have "parts_ok ?q m {} {} [] {} {}"
    by (auto simp: parts_ok_def pend_def pend_list_def sqlite3RowSetInit_def intro!: exI [of _ "[]"])
  ultimately have "rs_inv (dom (ents m)) (live (rs_hp m)) ?q m {} {}" unfolding rs_inv_def by blast
  then show ?thesis using big by (simp add: rowset_rel_def new_rowset_abs_def) (simp add: sqlite3RowSetInit_def)
qed

lemma rowset_run:
  assumes "rowset_space_ok space N m" "next_addr m + 42 * length ops < 2 ^ 40"
  shows "\<exists>rs q' m' a. run_steps rowset_call ops (sqlite3RowSetInit space N, m) = Ret (rs, q', m') \<and>
    spec_steps (rowset_spec (False \<in> set (outcomes (rs_hp m)))) ops (new_rowset_abs (mallocFailed m)) rs a \<and>
    rowset_rel (dom (ents m)) (live (rs_hp m)) (False \<in> set (outcomes (rs_hp m))) 0 (q', m') a"
proof -
  have "rowset_rel (dom (ents m)) (live (rs_hp m)) (False \<in> set (outcomes (rs_hp m))) (length ops + 0)
      (sqlite3RowSetInit space N, m) (new_rowset_abs (mallocFailed m))"
    using init_rel [OF assms(1)] assms(2) by simp
  from rsim.steps_simulate [OF this] show ?thesis by (auto simp: list_all_iff)
qed

text \<open>C10: For every sequence of insertions, tests, reads in order and clearings from a new row set, in any
  memory and with any pattern of failing allocations, no call faults or runs on, and the results are those of the
  specification with two sets of rowids: an insertion adds to the pending ones, the first test of a batch moves them to the
  tested ones and answers membership there, reading takes the least pending rowid away. A rowid gets lost
  only where an allocation can fail, and then \<^verbatim>\<open>mallocFailed\<close> says so.\<close>

theorem rowset_refines:
  assumes "rowset_space_ok space N m" "next_addr m + 42 * length ops < 2 ^ 40"
  shows "\<exists>rs q' m' a. run_steps rowset_call ops (sqlite3RowSetInit space N, m) = Ret (rs, q', m') \<and>
    spec_steps (rowset_spec (False \<in> set (outcomes (rs_hp m)))) ops (new_rowset_abs (mallocFailed m)) rs a \<and>
    mallocFailed m' = failed a"
proof -
  obtain rs q' m' a where "run_steps rowset_call ops (sqlite3RowSetInit space N, m) = Ret (rs, q', m')"
      "spec_steps (rowset_spec (False \<in> set (outcomes (rs_hp m)))) ops (new_rowset_abs (mallocFailed m)) rs a"
      "rowset_rel (dom (ents m)) (live (rs_hp m)) (False \<in> set (outcomes (rs_hp m))) 0 (q', m') a"
    using rowset_run [OF assms] by blast
  then show ?thesis unfolding rowset_rel_def by blast
qed

text \<open>C26: After any such sequence, clearing the row set frees every chunk it has
  allocated and leaves the entries that were there before.\<close>

theorem rowset_lifecycle:
  assumes "rowset_space_ok space N m" "next_addr m + 42 * length ops < 2 ^ 40"
  shows "\<exists>rs q' m' q'' m''. run_steps rowset_call ops (sqlite3RowSetInit space N, m) = Ret (rs, q', m') \<and>
    sqlite3RowSetClear q' m' = (q'', m'') \<and> dom (ents m'') = dom (ents m) \<and> live (rs_hp m'') = live (rs_hp m) \<and> pChunk q'' = []"
proof -
  obtain rs q' m' a where r: "run_steps rowset_call ops (sqlite3RowSetInit space N, m) = Ret (rs, q', m')"
      "rowset_rel (dom (ents m)) (live (rs_hp m)) (False \<in> set (outcomes (rs_hp m))) 0 (q', m') a"
    using rowset_run [OF assms] by blast
  obtain q'' m'' where c: "sqlite3RowSetClear q' m' = (q'', m'')" by fastforce
  have inv: "rs_inv (dom (ents m)) (live (rs_hp m)) q' m' (tested a) (pending a)" using r(2) by (simp add: rowset_rel_def)
  have "dom (ents m'') = dom (ents m)" "live (rs_hp m'') = live (rs_hp m)"
    by (rule sqlite3RowSetClear_ok(7) [OF inv c]) (rule sqlite3RowSetClear_ok(8) [OF inv c])
  moreover have "pChunk q'' = []" using c by (auto simp: sqlite3RowSetClear_def)
  ultimately show ?thesis using r(1) c by blast
qed

lemma spec_inserts:
  assumes "\<not> reading a" "spec_steps (rowset_spec False) (map RsInsert xs @ ops) a rs a'"
  shows "\<exists>ys. rs = replicate (length xs) Done @ ys \<and> spec_steps (rowset_spec False) ops (a\<lparr>pending := set xs \<union> pending a\<rparr>) ys a'"
  using assms
proof (induction xs arbitrary: a rs)
  case (Cons x xs)
  let ?a = "a\<lparr>pending := insert x (pending a)\<rparr>"
  have "\<exists>rs'. rs = Done # rs' \<and> spec_steps (rowset_spec False) (map RsInsert xs @ ops) ?a rs' a'"
    using Cons.prems by simp
  then obtain rs' where r: "rs = Done # rs'" "spec_steps (rowset_spec False) (map RsInsert xs @ ops) ?a rs' a'" by blast
  have nr: "\<not> reading ?a" using Cons.prems(1) by simp
  obtain ys where "rs' = replicate (length xs) Done @ ys"
      "spec_steps (rowset_spec False) ops (?a\<lparr>pending := set xs \<union> pending ?a\<rparr>) ys a'"
    using Cons.IH [OF nr r(2)] by blast
  then show ?case using r(1) by (intro exI [of _ ys]) simp
qed simp

lemma spec_reads:
  assumes "finite (pending a)" "\<not> indexed a" "k = card (pending a)" "0 < k"
    "spec_steps (rowset_spec oom) (replicate k RsNext) a rs a'"
  shows "rs = map (Row \<circ> Some) (sorted_list_of_set (pending a)) \<and> pending a' = {} \<and> \<not> indexed a' \<and> failed a' = failed a"
  using assms
proof (induction k arbitrary: a rs)
  case (Suc k)
  have ne: "pending a \<noteq> {}" using Suc.prems(3) by auto
  let ?P = "pending a - {Min (pending a)}"
  let ?a = "a\<lparr>pending := ?P, reading := (pending a \<noteq> {Min (pending a)})\<rparr>"
  obtain rs' where r: "rs = Row (Some (Min (pending a))) # rs'" "spec_steps (rowset_spec oom) (replicate k RsNext) ?a rs' a'"
    using Suc.prems(2,5) ne by auto
  have k: "card ?P = k" using Suc.prems(1,3) ne by simp
  have sl: "sorted_list_of_set (pending a) = Min (pending a) # sorted_list_of_set ?P"
    using sorted_list_of_set_nonempty Suc.prems(1) ne by blast
  show ?case
  proof (cases "k = 0")
    case True
    then have "?P = {}" using k Suc.prems(1) by simp
    moreover have "pending a = {Min (pending a)}" using calculation ne by blast
    ultimately show ?thesis using True r sl Suc.prems(2) by auto
  next
    case False
    then show ?thesis using Suc.IH [of ?a rs'] r k sl Suc.prems(1,2) by auto
  qed
qed simp

text \<open>C13: Where no allocation fails, a row set into which any rowids are inserted, in any order and
  with repetitions, is read out in increasing order, each rowid once; with the last one every chunk is freed.\<close>

theorem rowset_sorts:
  assumes "rowset_space_ok space N m" "outcomes (rs_hp m) = []" "next_addr m + 84 * length xs < 2 ^ 40" "xs \<noteq> []"
    "\<not> mallocFailed m"
  shows "\<exists>q' m'. run_steps rowset_call (map RsInsert xs @ replicate (card (set xs)) RsNext) (sqlite3RowSetInit space N, m) =
      Ret (replicate (length xs) Done @ map (Row \<circ> Some) (sorted_list_of_set (set xs)), q', m') \<and>
    dom (ents m') = dom (ents m) \<and> live (rs_hp m') = live (rs_hp m)"
proof -
  let ?ops = "map RsInsert xs @ replicate (card (set xs)) RsNext"
  have len: "next_addr m + 42 * length ?ops < 2 ^ 40" using assms(3) card_length [of xs] by simp
  obtain rs q' m' a where r: "run_steps rowset_call ?ops (sqlite3RowSetInit space N, m) = Ret (rs, q', m')"
      "spec_steps (rowset_spec False) ?ops (new_rowset_abs (mallocFailed m)) rs a"
      "rowset_rel (dom (ents m)) (live (rs_hp m)) False 0 (q', m') a"
    using rowset_run [OF assms(1) len] assms(2) by auto
  have nr: "\<not> reading (new_rowset_abs (mallocFailed m))" by (simp add: new_rowset_abs_def)
  obtain ys where y: "rs = replicate (length xs) Done @ ys"
      "spec_steps (rowset_spec False) (replicate (card (set xs)) RsNext) ((new_rowset_abs (mallocFailed m))\<lparr>pending := set xs\<rparr>) ys a"
    using spec_inserts [OF nr r(2)] by (auto simp: new_rowset_abs_def)
  have e: "ys = map (Row \<circ> Some) (sorted_list_of_set (set xs))" "pending a = {}" "\<not> indexed a" "failed a = mallocFailed m"
    using spec_reads [OF _ _ _ _ y(2)] assms(4) by (simp_all add: new_rowset_abs_def card_gt_0_iff)
  have "rs_inv (dom (ents m)) (live (rs_hp m)) q' m' (tested a) {}" "pChunk q' = []"
    using r(3) e(2-4) assms(5) by (auto simp: rowset_rel_def)
  then have "dom (ents m') = dom (ents m)" "live (rs_hp m') = live (rs_hp m)"
    using chunks_okD(2,4) [of "dom (ents m)" "live (rs_hp m)" q' m'] by (auto simp: rs_inv_def chunk_cells_def)
  then show ?thesis using r(1) y(1) e(1) by blast
qed

lemma sample_rowset: "rowset_space_ok 7 104 sample_rsmem" "outcomes (rs_hp sample_rsmem) = []" "next_addr sample_rsmem = 9"
  "\<not> mallocFailed sample_rsmem"
proof -
  have "{i :: nat. i < 2} = {0, 1}" by auto
  then have "\<forall>i < 2. ents sample_rsmem (7 + i) \<noteq> None" by (simp add: sample_rsmem_def less_2_cases_iff)
  then show "rowset_space_ok 7 104 sample_rsmem" by (simp add: rowset_space_ok_def) (simp add: sample_rsmem_def)
qed (simp_all add: sample_rsmem_def)

definition sample_rowset_ops :: "rs_op list" where
  "sample_rowset_ops = [RsInsert 5, RsInsert 3, RsTest 1 5, RsInsert 9, RsTest 1 9, RsTest 2 9, RsNext, RsClear, RsNext]"

theorem rowset_refines_witness:
  "\<exists>rs q' m' a. run_steps rowset_call sample_rowset_ops (sqlite3RowSetInit 7 104, sample_rsmem) = Ret (rs, q', m') \<and>
    spec_steps (rowset_spec (False \<in> set (outcomes (rs_hp sample_rsmem)))) sample_rowset_ops (new_rowset_abs (mallocFailed sample_rsmem)) rs a \<and>
    mallocFailed m' = failed a"
  by (rule rowset_refines [OF sample_rowset(1)]) (simp add: sample_rowset sample_rowset_ops_def)

theorem rowset_lifecycle_witness:
  "\<exists>rs q' m' q'' m''. run_steps rowset_call sample_rowset_ops (sqlite3RowSetInit 7 104, sample_rsmem) = Ret (rs, q', m') \<and>
    sqlite3RowSetClear q' m' = (q'', m'') \<and> dom (ents m'') = dom (ents sample_rsmem) \<and>
    live (rs_hp m'') = live (rs_hp sample_rsmem) \<and> pChunk q'' = []"
  by (rule rowset_lifecycle [OF sample_rowset(1)]) (simp add: sample_rowset sample_rowset_ops_def)

theorem rowset_sorts_witness:
  "\<exists>q' m'. run_steps rowset_call (map RsInsert [5, 3, 5, 8] @ replicate 3 RsNext) (sqlite3RowSetInit 7 104, sample_rsmem) =
      Ret ([Done, Done, Done, Done, Row (Some 3), Row (Some 5), Row (Some 8)], q', m') \<and>
    dom (ents m') = dom (ents sample_rsmem) \<and> live (rs_hp m') = live (rs_hp sample_rsmem)"
proof -
  have c: "card (set [5, 3, 5, 8 :: int]) = 3" "sorted_list_of_set (set [5, 3, 5, 8 :: int]) = [3, 5, 8]" by code_simp+
  have d: "replicate (length [5, 3, 5, 8 :: int]) Done @ map (Row \<circ> Some) [3, 5, 8] =
      [Done, Done, Done, Done, Row (Some 3), Row (Some 5), Row (Some 8)]" by simp
  show ?thesis
    using rowset_sorts [OF sample_rowset(1,2) _ _ sample_rowset(4), of "[5, 3, 5, 8]", unfolded c d sample_rowset(3)] by simp
qed

end
