(* ===== verification/Sqlite_Utf.thy ===== *)
theory Sqlite_Utf
  imports Sqlite_Num
begin

unbundle bit_operations_syntax

text \<open>
  Characters of SQLite (\<^verbatim>\<open>utf.c\<close>): reading and writing them in UTF-8 and in both kinds of UTF-16, the
  loops that translate a text from one encoding to another, counting, and the program's self-test. A text
  is decoded by \<open>utf8_next\<close> and \<open>utf16_next\<close>, which say for any bytes what the first character is and what
  follows it; \<open>char_code\<close> is the interface of an encoding (what is written is read back), \<open>char_translation\<close>
  that of a decoder and a writer that stay inside a buffer of twice the size of the text.
\<close>

section \<open>Characters\<close>

definition sqlite3Utf8Trans1 :: "byte list" where
  "sqlite3Utf8Trans1 =
    [0x00, 0x01, 0x02, 0x03, 0x04, 0x05, 0x06, 0x07,
     0x08, 0x09, 0x0a, 0x0b, 0x0c, 0x0d, 0x0e, 0x0f,
     0x10, 0x11, 0x12, 0x13, 0x14, 0x15, 0x16, 0x17,
     0x18, 0x19, 0x1a, 0x1b, 0x1c, 0x1d, 0x1e, 0x1f,
     0x00, 0x01, 0x02, 0x03, 0x04, 0x05, 0x06, 0x07,
     0x08, 0x09, 0x0a, 0x0b, 0x0c, 0x0d, 0x0e, 0x0f,
     0x00, 0x01, 0x02, 0x03, 0x04, 0x05, 0x06, 0x07,
     0x00, 0x01, 0x02, 0x03, 0x00, 0x01, 0x00, 0x00]"

definition WRITE_UTF8 :: "u32 \<Rightarrow> byte list" where
  "WRITE_UTF8 c =
     (if c < 0x80 then [ucast (c AND 0xFF)]
      else if c < 0x800 then [0xC0 + ucast (drop_bit 6 c AND 0x1F), 0x80 + ucast (c AND 0x3F)]
      else if c < 0x10000 then
        [0xE0 + ucast (drop_bit 12 c AND 0x0F), 0x80 + ucast (drop_bit 6 c AND 0x3F), 0x80 + ucast (c AND 0x3F)]
      else
        [0xF0 + ucast (drop_bit 18 c AND 0x07), 0x80 + ucast (drop_bit 12 c AND 0x3F),
         0x80 + ucast (drop_bit 6 c AND 0x3F), 0x80 + ucast (c AND 0x3F)])"

definition WRITE_UTF16LE :: "u32 \<Rightarrow> byte list" where
  "WRITE_UTF16LE c =
     (if c \<le> 0xFFFF then [ucast (c AND 0xFF), ucast (drop_bit 8 c AND 0xFF)]
      else [ucast ((drop_bit 10 c AND 0x3F) + (drop_bit 10 (c - 0x10000) AND 0xC0)),
            ucast (0xD8 + (drop_bit 18 (c - 0x10000) AND 0x03)),
            ucast (c AND 0xFF), ucast (0xDC + (drop_bit 8 c AND 0x03))])"

definition WRITE_UTF16BE :: "u32 \<Rightarrow> byte list" where
  "WRITE_UTF16BE c =
     (if c \<le> 0xFFFF then [ucast (drop_bit 8 c AND 0xFF), ucast (c AND 0xFF)]
      else [ucast (0xD8 + (drop_bit 18 (c - 0x10000) AND 0x03)),
            ucast ((drop_bit 10 c AND 0x3F) + (drop_bit 10 (c - 0x10000) AND 0xC0)),
            ucast (0xDC + (drop_bit 8 c AND 0x03)), ucast (c AND 0xFF)])"

definition surrogates :: "u32 \<Rightarrow> u32 \<Rightarrow> u32" where
  "surrogates c c2 = (c2 AND 0x03FF) + push_bit 10 (c AND 0x003F) + push_bit 10 ((c AND 0x03C0) + 0x0040)"

text \<open>\<open>term\<close> is the parameter \<^verbatim>\<open>TERM\<close>, evaluated behind the first unit.\<close>

definition READ_UTF16LE :: "byte list \<Rightarrow> (int \<Rightarrow> bool) \<Rightarrow> int \<Rightarrow> (u32 \<times> int) cres" where
  "READ_UTF16LE z term i =
     cbind (rd z i) (\<lambda>b0. cbind (rd z (i + 1)) (\<lambda>b1.
     let c = ucast b0 + push_bit 8 (ucast b1) in
     if 0xD800 \<le> c \<and> c < 0xE000 \<and> term (i + 2)
     then cbind (rd z (i + 2)) (\<lambda>b2. cbind (rd z (i + 3)) (\<lambda>b3.
          Ret (surrogates c (ucast b2 + push_bit 8 (ucast b3)), i + 4)))
     else Ret (c, i + 2)))"

definition READ_UTF16BE :: "byte list \<Rightarrow> (int \<Rightarrow> bool) \<Rightarrow> int \<Rightarrow> (u32 \<times> int) cres" where
  "READ_UTF16BE z term i =
     cbind (rd z i) (\<lambda>b0. cbind (rd z (i + 1)) (\<lambda>b1.
     let c = push_bit 8 (ucast b0) + ucast b1 in
     if 0xD800 \<le> c \<and> c < 0xE000 \<and> term (i + 2)
     then cbind (rd z (i + 2)) (\<lambda>b2. cbind (rd z (i + 3)) (\<lambda>b3.
          Ret (surrogates c (push_bit 8 (ucast b2) + ucast b3), i + 4)))
     else Ret (c, i + 2)))"

text \<open>The loop over the continuation bytes. Without a \<open>zTerm\<close> it relies on the zero at the end of the text.\<close>

function utf8_tail :: "byte list \<Rightarrow> int option \<Rightarrow> int \<Rightarrow> u32 \<Rightarrow> (u32 \<times> int) cres" where
  "utf8_tail z zTerm i c =
     (if zTerm = Some i then Ret (c, i)
      else cbind (rd z i) (\<lambda>b.
        if b AND 0xc0 = 0x80 then utf8_tail z zTerm (i + 1) (push_bit 6 c + (0x3f AND ucast b)) else Ret (c, i)))"
  by pat_completeness auto
termination
  by (relation "measure (\<lambda>(z, t, i, c). nat (int (length z) - i))") (auto simp: rd_Ret_iff)

definition utf8_fix :: "u32 \<Rightarrow> u32" where
  "utf8_fix c = (if c < 0x80 \<or> c AND 0xFFFFF800 = 0xD800 \<or> c AND 0xFFFFFFFE = 0xFFFE then 0xFFFD else c)"

definition READ_UTF8 :: "byte list \<Rightarrow> int option \<Rightarrow> int \<Rightarrow> (u32 \<times> int) cres" where
  "READ_UTF8 z zTerm i =
     cbind (rd z i) (\<lambda>b.
     if 0xc0 \<le> b
     then cbind (rd sqlite3Utf8Trans1 (uint b - 0xc0)) (\<lambda>t.
          cbind (utf8_tail z zTerm (i + 1) (ucast t)) (\<lambda>(c, i). Ret (utf8_fix c, i)))
     else Ret (ucast b, i + 1))"

definition sqlite3Utf8Read :: "byte list \<Rightarrow> int \<Rightarrow> (u32 \<times> int) cres" where
  "sqlite3Utf8Read z i = READ_UTF8 z None i"

section \<open>Counting characters\<close>

function skip_tail :: "byte list \<Rightarrow> int \<Rightarrow> int cres" where
  "skip_tail z i = cbind (rd z i) (\<lambda>b. if b AND 0xc0 = 0x80 then skip_tail z (i + 1) else Ret i)"
  by pat_completeness auto
termination
  by (relation "measure (\<lambda>(z, i). nat (int (length z) - i))") (auto simp: rd_Ret_iff)

definition SQLITE_SKIP_UTF8 :: "byte list \<Rightarrow> int \<Rightarrow> int cres" where
  "SQLITE_SKIP_UTF8 z i = cbind (rd z i) (\<lambda>b. if 0xc0 \<le> b then skip_tail z (i + 1) else Ret (i + 1))"

text \<open>A negative \<open>nByte\<close> stands for no limit. The counter \<open>r\<close> cannot overflow before the text ends.\<close>

fun char_len :: "nat \<Rightarrow> byte list \<Rightarrow> int \<Rightarrow> int \<Rightarrow> int \<Rightarrow> int cres" where
  "char_len n z nByte i r =
     cbind (rd z i) (\<lambda>b.
     if b \<noteq> 0 \<and> (nByte < 0 \<or> i < nByte)
     then (case n of 0 \<Rightarrow> Diverge | Suc n \<Rightarrow> cbind (SQLITE_SKIP_UTF8 z i) (\<lambda>i. char_len n z nByte i (r + 1)))
     else Ret r)"

definition sqlite3Utf8CharLen :: "byte list \<Rightarrow> int \<Rightarrow> int cres" where
  "sqlite3Utf8CharLen z nByte = char_len (length z) z nByte 0 0"

text \<open>The native order of a little-endian machine.\<close>

fun byte_len :: "nat \<Rightarrow> byte list \<Rightarrow> int \<Rightarrow> int cres" where
  "byte_len 0 z i = Ret i"
| "byte_len (Suc n) z i = cbind (READ_UTF16LE z (\<lambda>_. True) i) (\<lambda>(c, i). byte_len n z i)"

definition sqlite3Utf16ByteLen :: "byte list \<Rightarrow> int \<Rightarrow> int cres" where
  "sqlite3Utf16ByteLen z nChar = byte_len (nat nChar) z 0"

text \<open>Translating in place, without the characters that are not well-formed.\<close>

fun to8_loop :: "nat \<Rightarrow> byte list \<Rightarrow> int \<Rightarrow> int \<Rightarrow> (byte list \<times> int) cres" where
  "to8_loop n z zIn zOut =
     cbind (rd z zIn) (\<lambda>b.
     if b \<noteq> 0 \<and> zOut \<le> zIn
     then (case n of 0 \<Rightarrow> Diverge
           | Suc n \<Rightarrow> cbind (sqlite3Utf8Read z zIn) (\<lambda>(c, zIn).
               if c \<noteq> 0xfffd
               then cbind (wr_bytes z zOut (WRITE_UTF8 c)) (\<lambda>z. to8_loop n z zIn (zOut + int (length (WRITE_UTF8 c))))
               else to8_loop n z zIn zOut))
     else Ret (z, zOut))"

definition sqlite3Utf8To8 :: "byte list \<Rightarrow> (int \<times> byte list) cres" where
  "sqlite3Utf8To8 z = cbind (to8_loop (length z) z 0 0) (\<lambda>(z, zOut). cbind (wr_bytes z zOut [0]) (\<lambda>z. Ret (zOut, z)))"

section \<open>Translation loops\<close>

text \<open>The four loops that read a character and write it: \<open>R\<close> and \<open>W\<close> are the macros.\<close>

fun utf_loop :: "nat \<Rightarrow> (int \<Rightarrow> (u32 \<times> int) cres) \<Rightarrow> (u32 \<Rightarrow> byte list) \<Rightarrow> int \<Rightarrow> int \<Rightarrow> byte list \<Rightarrow> int \<Rightarrow> (byte list \<times> int) cres" where
  "utf_loop n R W i zTerm zOut z =
     (if i < zTerm
      then (case n of 0 \<Rightarrow> Diverge
            | Suc n \<Rightarrow> cbind (R i) (\<lambda>(c, i). cbind (wr_bytes zOut z (W c)) (\<lambda>zOut.
                utf_loop n R W i zTerm zOut (z + int (length (W c))))))
      else Ret (zOut, z))"

definition translate_chars :: "byte list \<Rightarrow> int \<Rightarrow> int \<Rightarrow> int \<Rightarrow> byte list \<Rightarrow> (byte list \<times> int) cres" where
  "translate_chars zIn n enc desiredEnc zOut =
     (if enc = SQLITE_UTF8
      then utf_loop (nat n) (READ_UTF8 zIn (Some n))
             (if desiredEnc = SQLITE_UTF16LE then WRITE_UTF16LE else WRITE_UTF16BE) 0 n zOut 0
      else utf_loop (nat n) ((if enc = SQLITE_UTF16LE then READ_UTF16LE else READ_UTF16BE) zIn (\<lambda>i. i < n))
             WRITE_UTF8 0 n zOut 0)"

section \<open>The self-test\<close>

definition UtfSelfTest8 :: "byte list \<Rightarrow> u32 \<Rightarrow> bool cres" where
  "UtfSelfTest8 zBuf i =
     cbind (wr_bytes zBuf 0 (WRITE_UTF8 i)) (\<lambda>zBuf.
     let n = length (WRITE_UTF8 i)
     in cbind (wr_bytes zBuf (int n) [0]) (\<lambda>zBuf.
        cbind (sqlite3Utf8Read zBuf 0) (\<lambda>(c, z).
        let t = (if 0xD800 \<le> i \<and> i \<le> 0xDFFF then 0xFFFD else i);
            t = (if i AND 0xFFFFFFFE = 0xFFFE then 0xFFFD else t)
        in Ret (0 < n \<and> n \<le> 4 \<and> c = t \<and> z = int n))))"

definition UtfSelfTest16 :: "(u32 \<Rightarrow> byte list) \<Rightarrow> (byte list \<Rightarrow> (int \<Rightarrow> bool) \<Rightarrow> int \<Rightarrow> (u32 \<times> int) cres) \<Rightarrow> byte list \<Rightarrow> u32 \<Rightarrow> bool cres" where
  "UtfSelfTest16 WRITE READ zBuf i =
     (if 0xD800 \<le> i \<and> i < 0xE000 then Ret True
      else cbind (wr_bytes zBuf 0 (WRITE i)) (\<lambda>zBuf.
           let n = length (WRITE i)
           in cbind (wr_bytes zBuf (int n) [0]) (\<lambda>zBuf.
              cbind (READ zBuf (\<lambda>_. True) 0) (\<lambda>(c, z). Ret (0 < n \<and> n \<le> 4 \<and> c = i \<and> z = int n)))))"

section \<open>Decoding text\<close>

abbreviation cont :: "byte \<Rightarrow> bool" where
  "cont b \<equiv> b AND 0xc0 = 0x80"

definition lead_bits :: "byte \<Rightarrow> byte" where
  "lead_bits b = (if b < 0xe0 then b AND 0x1f else if b < 0xf0 then b AND 0x0f else if b < 0xf8 then b AND 0x07
     else if b < 0xfc then b AND 0x03 else if b < 0xfe then b AND 0x01 else 0)"

definition utf8_step :: "u32 \<Rightarrow> byte \<Rightarrow> u32" where
  "utf8_step c b = push_bit 6 c + (0x3f AND ucast b)"

text \<open>The first character of a text and what follows it.\<close>

fun utf8_next :: "byte list \<Rightarrow> u32 \<times> byte list" where
  "utf8_next [] = (0, [])"
| "utf8_next (b # bs) =
     (if 0xc0 \<le> b then (utf8_fix (foldl utf8_step (ucast (lead_bits b)) (takeWhile cont bs)), dropWhile cont bs)
      else (ucast b, bs))"

definition unit16 :: "bool \<Rightarrow> byte \<Rightarrow> byte \<Rightarrow> u32" where
  "unit16 be b0 b1 = (if be then push_bit 8 (ucast b0) + ucast b1 else ucast b0 + push_bit 8 (ucast b1))"

fun utf16_next :: "bool \<Rightarrow> byte list \<Rightarrow> u32 \<times> byte list" where
  "utf16_next be (b0 # b1 # bs) =
     (let c = unit16 be b0 b1 in
      case bs of b2 # b3 # bs' \<Rightarrow> if 0xD800 \<le> c \<and> c < 0xE000 then (surrogates c (unit16 be b2 b3), bs') else (c, bs)
      | _ \<Rightarrow> (c, bs))"
| "utf16_next be _ = (0, [])"

fun decode :: "(byte list \<Rightarrow> u32 \<times> byte list) \<Rightarrow> nat \<Rightarrow> byte list \<Rightarrow> u32 list" where
  "decode nxt n [] = []"
| "decode nxt 0 (b # bs) = []"
| "decode nxt (Suc n) (b # bs) = fst (nxt (b # bs)) # decode nxt n (snd (nxt (b # bs)))"

definition text_chars :: "(byte list \<Rightarrow> u32 \<times> byte list) \<Rightarrow> byte list \<Rightarrow> u32 list" where
  "text_chars nxt s = decode nxt (length s) s"

declare utf8_tail.simps [simp del] skip_tail.simps [simp del] char_len.simps [simp del] to8_loop.simps [simp del] utf_loop.simps [simp del]

lemma trans1: "0xc0 \<le> b \<Longrightarrow> rd sqlite3Utf8Trans1 (uint b - 0xc0) = Ret (lead_bits b)"
proof -
  have "0xc0 \<le> b \<longrightarrow> sqlite3Utf8Trans1 ! nat (uint b - 0xc0) = lead_bits b"
    by (rule all_bytes [of "\<lambda>b. 0xc0 \<le> b \<longrightarrow> sqlite3Utf8Trans1 ! nat (uint b - 0xc0) = lead_bits b"]) code_simp
  moreover assume b: "0xc0 \<le> b"
  moreover have "0xc0 \<le> uint b" "uint b < 0x100" using b by (simp_all add: word_le_def)
  ultimately show ?thesis by (subst rd_in) (auto simp: sqlite3Utf8Trans1_def)
qed

lemma utf8_tail_ok:
  "\<forall>b \<in> set cs. cont b \<Longrightarrow> (\<forall>b. zTerm \<noteq> None \<longrightarrow> the zTerm \<ge> int (length pre + length cs)) \<Longrightarrow>
   zTerm = Some (int (length pre + length cs)) \<or> (\<exists>r rs. rest = r # rs \<and> \<not> cont r) \<Longrightarrow>
   utf8_tail (pre @ cs @ rest) zTerm (int (length pre)) c = Ret (foldl utf8_step c cs, int (length pre + length cs))"
proof (induction cs arbitrary: pre c)
  case Nil
  then show ?case by (subst utf8_tail.simps) auto
next
  case (Cons b cs)
  have "utf8_tail ((pre @ [b]) @ cs @ rest) zTerm (int (length (pre @ [b]))) (utf8_step c b) =
      Ret (foldl utf8_step (utf8_step c b) cs, int (length (pre @ [b]) + length cs))"
    using Cons.prems by (intro Cons.IH) auto
  moreover have "zTerm \<noteq> Some (int (length pre))" using Cons.prems(2) by auto
  ultimately show ?case using Cons.prems(1) by (subst utf8_tail.simps) (simp add: utf8_step_def add.commute)
qed

lemma take_drop_split: "i \<le> n \<Longrightarrow> n \<le> length z \<Longrightarrow> z = take i z @ drop i (take n z) @ drop n z"
  by (metis append_take_drop_id drop_take le_add_diff_inverse take_add append_assoc)

lemma READ_UTF8_ok:
  assumes s: "drop i (take n z) = s" "s \<noteq> []" and n: "n \<le> length z"
  shows "READ_UTF8 z (Some (int n)) (int i) = Ret (fst (utf8_next s), int n - int (length (snd (utf8_next s))))"
proof -
  obtain b bs where b: "s = b # bs" using s(2) by (cases s) auto
  have i: "i < n" "length s = n - i" using s n by (auto simp: not_less)
  have z: "z = take i z @ b # bs @ drop n z" using take_drop_split [of i n z] i n s b by simp
  have r: "rd z (int i) = Ret b" using rd_app [of "take i z" b "bs @ drop n z"] z i n by simp
  show ?thesis
  proof (cases "0xc0 \<le> b")
    case False
    then show ?thesis using r b i by (simp add: READ_UTF8_def)
  next
    case True
    let ?cs = "takeWhile cont bs" and ?rs = "dropWhile cont bs"
    have z': "z = (take i z @ [b]) @ ?cs @ (?rs @ drop n z)" using z by (metis append.assoc append_Cons append_Nil takeWhile_dropWhile_id)
    have len: "length bs = length ?cs + length ?rs" by (metis length_append takeWhile_dropWhile_id)
    have pos: "int (length (take i z @ [b])) = int i + 1" using i n by simp
    have "int (length (take i z @ [b]) + length ?cs) = int n - int (length ?rs)" using pos len i b by simp
    moreover have "utf8_tail ((take i z @ [b]) @ ?cs @ (?rs @ drop n z)) (Some (int n)) (int (length (take i z @ [b]))) (ucast (lead_bits b)) =
        Ret (foldl utf8_step (ucast (lead_bits b)) ?cs, int (length (take i z @ [b]) + length ?cs))"
    proof (rule utf8_tail_ok)
      show "\<forall>b \<in> set ?cs. cont b" using set_takeWhileD by fast
      show "Some (int n) = Some (int (length (take i z @ [b]) + length ?cs)) \<or> (\<exists>r rs. ?rs @ drop n z = r # rs \<and> \<not> cont r)"
        using calculation hd_dropWhile [of cont bs] by (cases ?rs) auto
    qed (use calculation in auto)
    ultimately have "utf8_tail z (Some (int n)) (int i + 1) (ucast (lead_bits b)) =
        Ret (foldl utf8_step (ucast (lead_bits b)) ?cs, int n - int (length ?rs))"
      unfolding z' [symmetric] pos by simp
    then show ?thesis using r b True by (simp add: READ_UTF8_def trans1)
  qed
qed

lemma READ_UTF16_ok:
  assumes s: "drop i (take n z) = s" "s \<noteq> []" "even (length s)" and n: "n \<le> length z"
  shows "(if be then READ_UTF16BE else READ_UTF16LE) z (\<lambda>i. i < int n) (int i) =
    Ret (fst (utf16_next be s), int n - int (length (snd (utf16_next be s))))"
proof -
  obtain b0 b1 bs where b: "s = b0 # b1 # bs" using s(2,3) by (cases s; cases "tl s") auto
  have i: "i < n" "length s = n - i" using s n by (auto simp: not_less)
  have rd: "rd z (int i + int k) = Ret (s ! k)" if "k < length s" for k
  proof -
    have "z ! (i + k) = s ! k" using s(1) that i n by (auto simp: nth_take)
    then show ?thesis using that i n by (subst rd_in) (auto simp: nat_add_distrib)
  qed
  have r: "rd z (int i) = Ret b0" "rd z (int i + 1) = Ret b1" using rd [of 0] rd [of 1] b by auto
  show ?thesis
  proof (cases bs)
    case Nil
    then have "\<not> int i + 2 < int n" using b i by auto
    then show ?thesis using r b i Nil by (simp add: READ_UTF16BE_def READ_UTF16LE_def unit16_def Let_def)
  next
    case (Cons b2 bs2)
    then obtain b3 bs3 where b3: "bs = b2 # b3 # bs3" using s(3) b by (cases bs2) auto
    then have "rd z (int i + 2) = Ret b2" "rd z (int i + 3) = Ret b3" "int i + 2 < int n" "int n - int (length bs3) = int i + 4"
        "int n - (2 + int (length bs3)) = int i + 2"
      using rd [of 2] rd [of 3] b i by (auto simp: numeral_3_eq_3)
    then show ?thesis using r b b3 by (simp add: READ_UTF16BE_def READ_UTF16LE_def unit16_def Let_def)
  qed
qed

section \<open>The translation loops\<close>

text \<open>
  A decoder whose steps take \<open>k > 0\<close> bytes of a text, and a writer of at most \<open>2 k\<close> bytes for the character: this
  is what the sizes of the output buffers rest on. \<open>ok\<close> is what the decoder needs of the text.
\<close>

locale char_translation =
  fixes ok :: "byte list \<Rightarrow> bool" and nxt :: "byte list \<Rightarrow> u32 \<times> byte list" and W :: "u32 \<Rightarrow> byte list"
  assumes step: "ok s \<Longrightarrow> s \<noteq> [] \<Longrightarrow>
    \<exists>k. 0 < k \<and> k \<le> length s \<and> snd (nxt s) = drop k s \<and> ok (drop k s) \<and> length (W (fst (nxt s))) \<le> 2 * k"
begin

lemma decode_fuel: "ok s \<Longrightarrow> length s \<le> n \<Longrightarrow> decode nxt n s = text_chars nxt s"
proof (induction n arbitrary: s rule: less_induct)
  case (less n)
  show ?case
  proof (cases s)
    case (Cons b bs)
    then obtain k where k: "0 < k" "k \<le> length s" "snd (nxt s) = drop k s" "ok (drop k s)" using step [OF less.prems(1)] by auto
    obtain m where m: "n = Suc m" using less.prems(2) Cons by (cases n) auto
    have "decode nxt m (drop k s) = text_chars nxt (drop k s)" "decode nxt (length bs) (drop k s) = text_chars nxt (drop k s)"
      using less.prems(2) k m Cons by (intro less.IH; simp)+
    then show ?thesis using k(3) m Cons by (simp add: text_chars_def)
  qed (simp add: text_chars_def)
qed

lemma text_chars_step:
  "ok s \<Longrightarrow> s \<noteq> [] \<Longrightarrow> text_chars nxt s = fst (nxt s) # text_chars nxt (snd (nxt s))"
proof -
  assume s: "ok s" "s \<noteq> []"
  then obtain k where k: "0 < k" "k \<le> length s" "snd (nxt s) = drop k s" "ok (drop k s)" using step by blast
  obtain b bs where b: "s = b # bs" using s(2) by (cases s) auto
  have "decode nxt (length bs) (drop k s) = text_chars nxt (drop k s)" using k b by (intro decode_fuel) auto
  then show ?thesis using k(3) b by (simp add: text_chars_def)
qed

lemma output_bound: "ok s \<Longrightarrow> length (concat (map W (text_chars nxt s))) \<le> 2 * length s"
proof (induction s rule: length_induct)
  case (1 s)
  show ?case
  proof (cases "s = []")
    case False
    then obtain k where k: "0 < k" "k \<le> length s" "snd (nxt s) = drop k s" "ok (drop k s)" "length (W (fst (nxt s))) \<le> 2 * k"
      using step [OF 1(2)] by blast
    have "length (concat (map W (text_chars nxt (drop k s)))) \<le> 2 * length (drop k s)"
      using 1(1) [rule_format, of "drop k s"] k False by simp
    then show ?thesis using text_chars_step [OF 1(2) False] k by simp
  qed (simp add: text_chars_def)
qed

text \<open>The loop writes the characters of the rest \<open>s\<close> of the text behind \<open>pre\<close>.\<close>

lemma utf_loop_ok:
  assumes R: "\<forall>s. s \<noteq> [] \<and> (\<exists>i. s = drop i text) \<and> ok s \<longrightarrow>
      R (int (length text) - int (length s)) = Ret (fst (nxt s), int (length text) - int (length (snd (nxt s))))"
    and s: "s = drop i text" "ok s" "length s \<le> n" and room: "length (concat (map W (text_chars nxt s))) \<le> length rest"
  shows "utf_loop n R W (int (length text) - int (length s)) (int (length text)) (pre @ rest) (int (length pre)) =
    Ret (pre @ concat (map W (text_chars nxt s)) @ drop (length (concat (map W (text_chars nxt s)))) rest,
         int (length pre + length (concat (map W (text_chars nxt s)))))"
  using s room
proof (induction n arbitrary: s i pre rest)
  case 0
  then show ?case by (subst utf_loop.simps) (simp add: text_chars_def)
next
  case (Suc n)
  show ?case
  proof (cases "s = []")
    case True
    then show ?thesis by (subst utf_loop.simps) (simp add: text_chars_def)
  next
    case False
    obtain k where k: "0 < k" "k \<le> length s" "snd (nxt s) = drop k s" "ok (drop k s)" using step [OF Suc.prems(2) False] by blast
    let ?c = "fst (nxt s)" and ?s = "drop k s"
    let ?w = "W ?c" and ?out = "concat (map W (text_chars nxt ?s))"
    have tc: "text_chars nxt s = ?c # text_chars nxt ?s" using text_chars_step [OF Suc.prems(2) False] k(3) by simp
    then have fits: "length ?w + length ?out \<le> length rest" using Suc.prems(4) by simp
    have r: "R (int (length text) - int (length s)) = Ret (?c, int (length text) - int (length ?s))"
      using R [rule_format, of s] Suc.prems(1,2) False unfolding k(3) [symmetric] by blast
    have w: "wr_bytes (pre @ rest) (int (length pre)) ?w = Ret ((pre @ ?w) @ drop (length ?w) rest)"
      using fits by (simp add: wr_bytes_def)
    have "utf_loop n R W (int (length text) - int (length ?s)) (int (length text)) ((pre @ ?w) @ drop (length ?w) rest) (int (length (pre @ ?w))) =
        Ret ((pre @ ?w) @ ?out @ drop (length ?out) (drop (length ?w) rest), int (length (pre @ ?w) + length ?out))"
      by (rule Suc.IH [of _ "k + i"]) (use Suc.prems(1,3) k fits in auto)
    moreover have "int (length text) - int (length s) < int (length text)" using False by simp
    ultimately show ?thesis
      using r w tc by (subst utf_loop.simps) (simp add: add.commute)
  qed
qed

end

text \<open>A character code: what the writer makes of a good character is read back, in front of any text that starts clean.\<close>

locale char_code =
  fixes W :: "u32 \<Rightarrow> byte list" and nxt :: "byte list \<Rightarrow> u32 \<times> byte list" and good :: "u32 \<Rightarrow> bool" and clean :: "byte list \<Rightarrow> bool"
  assumes read_back: "good c \<Longrightarrow> clean s \<Longrightarrow> nxt (W c @ s) = (c, s)"
    and W_clean: "good c \<Longrightarrow> clean (W c @ s)" and W_nonempty: "W c \<noteq> []" and Nil_clean: "clean []"
begin

lemma encoded_clean: "\<forall>c \<in> set cs. good c \<Longrightarrow> clean (concat (map W cs))"
  by (cases cs) (simp_all add: Nil_clean W_clean)

lemma decode_encoded: "\<forall>c \<in> set cs. good c \<Longrightarrow> length (concat (map W cs)) \<le> n \<Longrightarrow> decode nxt n (concat (map W cs)) = cs"
proof (induction cs arbitrary: n)
  case (Cons c cs)
  let ?s = "concat (map W cs)"
  obtain b bs where b: "W c @ ?s = b # bs" using W_nonempty [of c] by (cases "W c") auto
  obtain m where m: "n = Suc m" "length ?s \<le> m" using Cons.prems(2) W_nonempty [of c] by (cases n; cases "W c") auto
  have "nxt (W c @ ?s) = (c, ?s)" using Cons.prems(1) by (intro read_back encoded_clean) auto
  then have "nxt (b # bs) = (c, ?s)" using b by simp
  then show ?case using Cons.IH [of m] Cons.prems(1) m b by simp
qed simp

lemma text_of_encoded: "\<forall>c \<in> set cs. good c \<Longrightarrow> text_chars nxt (concat (map W cs)) = cs"
  unfolding text_chars_def by (rule decode_encoded) auto

end

section \<open>The codes\<close>

lemma word_bits_below: "unat c < 2 ^ k \<Longrightarrow> k \<le> n \<Longrightarrow> \<not> bit (c :: u32) n"
proof -
  assume "unat c < 2 ^ k" "k \<le> n"
  note this(1)
  also have "(2 :: nat) ^ k \<le> 2 ^ n" using \<open>k \<le> n\<close> by (rule power_increasing) simp
  finally have "unat c div 2 ^ n = 0" by simp
  then have "\<not> bit (unat c) n" by (simp add: bit_iff_odd)
  then show ?thesis by (simp add: bit_unsigned_iff)
qed

lemma cont_byte:
  "cont (0x80 + ucast (x AND 0x3F))" "0x3f AND (ucast (0x80 + ucast (x AND 0x3F) :: byte) :: u32) = x AND 0x3F" for x :: u32
proof -
  have "(0x80 :: byte) AND ucast (x AND 0x3F) = 0" by (rule bits8) (simp add: bit_blast)
  then have eq: "0x80 + ucast (x AND 0x3F) = (0x80 :: byte) OR ucast (x AND 0x3F)" by (rule disjunctive_add_eq_or)
  show "cont (0x80 + ucast (x AND 0x3F))" unfolding eq by (rule bits8) (simp add: bit_blast)
  show "0x3f AND (ucast (0x80 + ucast (x AND 0x3F) :: byte) :: u32) = x AND 0x3F" unfolding eq by (rule bits32) (simp add: bit_blast)
qed

lemma step_cont: "utf8_step a (0x80 + ucast (x AND 0x3F)) = push_bit 6 a OR (x AND 0x3F)"
proof -
  have "push_bit 6 a AND (x AND 0x3F) = 0" by (rule bits32) (simp add: bit_blast)
  then show ?thesis unfolding utf8_step_def cont_byte by (rule disjunctive_add_eq_or)
qed

text \<open>A lead byte shows the bits put into it.\<close>

lemma lead_byte:
  fixes x :: u32
  shows "0xc0 \<le> (0xC0 + ucast (x AND 0x1F) :: byte)" "lead_bits (0xC0 + ucast (x AND 0x1F)) = ucast (x AND 0x1F)"
    "0xc0 \<le> (0xE0 + ucast (x AND 0x0F) :: byte)" "lead_bits (0xE0 + ucast (x AND 0x0F)) = ucast (x AND 0x0F)"
    "0xc0 \<le> (0xF0 + ucast (x AND 0x07) :: byte)" "lead_bits (0xF0 + ucast (x AND 0x07)) = ucast (x AND 0x07)"
proof -
  have lead: "(b AND 0x1f = b \<longrightarrow> 0xc0 \<le> 0xC0 + b \<and> lead_bits (0xC0 + b) = b) \<and>
      (b AND 0x0f = b \<longrightarrow> 0xc0 \<le> 0xE0 + b \<and> lead_bits (0xE0 + b) = b) \<and>
      (b AND 0x07 = b \<longrightarrow> 0xc0 \<le> 0xF0 + b \<and> lead_bits (0xF0 + b) = b)" for b :: byte
    by (rule all_bytes [of "\<lambda>b. (b AND 0x1f = b \<longrightarrow> 0xc0 \<le> 0xC0 + b \<and> lead_bits (0xC0 + b) = b) \<and>
      (b AND 0x0f = b \<longrightarrow> 0xc0 \<le> 0xE0 + b \<and> lead_bits (0xE0 + b) = b) \<and>
      (b AND 0x07 = b \<longrightarrow> 0xc0 \<le> 0xF0 + b \<and> lead_bits (0xF0 + b) = b)"]) code_simp
  have m: "(ucast (x AND 0x1F) :: byte) AND 0x1f = ucast (x AND 0x1F)" "(ucast (x AND 0x0F) :: byte) AND 0x0f = ucast (x AND 0x0F)"
      "(ucast (x AND 0x07) :: byte) AND 0x07 = ucast (x AND 0x07)"
    by ((rule bits8), (simp add: bit_blast))+
  show "0xc0 \<le> (0xC0 + ucast (x AND 0x1F) :: byte)" "lead_bits (0xC0 + ucast (x AND 0x1F)) = ucast (x AND 0x1F)"
    "0xc0 \<le> (0xE0 + ucast (x AND 0x0F) :: byte)" "lead_bits (0xE0 + ucast (x AND 0x0F)) = ucast (x AND 0x0F)"
    "0xc0 \<le> (0xF0 + ucast (x AND 0x07) :: byte)" "lead_bits (0xF0 + ucast (x AND 0x07)) = ucast (x AND 0x07)"
    using lead [of "ucast (x AND 0x1F)"] lead [of "ucast (x AND 0x0F)"] lead [of "ucast (x AND 0x07)"] m by blast+
qed

lemma lead_byte_high: "0xc0 \<le> b \<Longrightarrow> bit b 7" for b :: byte
  by (rule all_bytes [of "\<lambda>b. 0xc0 \<le> b \<longrightarrow> bit b 7", rule_format], code_simp)

definition utf8_good :: "u32 \<Rightarrow> bool" where
  "utf8_good c \<longleftrightarrow> c < 0x110000 \<and> c AND 0xFFFFF800 \<noteq> 0xD800 \<and> c AND 0xFFFFFFFE \<noteq> 0xFFFE"

definition utf8_clean :: "byte list \<Rightarrow> bool" where
  "utf8_clean s \<longleftrightarrow> s = [] \<or> \<not> cont (hd s)"

lemma take_conts:
  "\<forall>b \<in> set cs. cont b \<Longrightarrow> utf8_clean s \<Longrightarrow> takeWhile cont (cs @ s) = cs \<and> dropWhile cont (cs @ s) = s"
  by (cases s) (auto simp: utf8_clean_def)

lemma utf8_next_multi:
  "0xc0 \<le> b \<Longrightarrow> \<forall>b \<in> set cs. cont b \<Longrightarrow> utf8_clean s \<Longrightarrow>
   utf8_next (b # cs @ s) = (utf8_fix (foldl utf8_step (ucast (lead_bits b)) cs), s)"
  by (simp only: utf8_next.simps take_conts if_True)

lemma utf8_fix_id: "0x80 \<le> c \<Longrightarrow> utf8_good c \<Longrightarrow> utf8_fix c = c"
  by (auto simp: utf8_fix_def utf8_good_def)

lemma utf8_read_written:
  assumes g: "c < 0x110000" and s: "utf8_clean s"
  shows "utf8_next (WRITE_UTF8 c @ s) = (if c < 0x80 then c else utf8_fix c, s)"
proof -
  have u: "unat c < 2 ^ 21" using g by (simp add: word_less_nat_alt)
  consider "c < 0x80" | "0x80 \<le> c" "c < 0x800" | "0x800 \<le> c" "c < 0x10000" | "0x10000 \<le> c" by (meson not_le)
  then show ?thesis
  proof cases
    case 1
    then have "unat c < 2 ^ 7" by (simp add: word_less_nat_alt)
    note b = word_bits_below [OF this]
    have "ucast (ucast (c AND 0xFF) :: byte) = c" by (rule bits32) (use b in \<open>simp add: bit_blast\<close>)
    moreover have "\<not> bit (ucast (c AND 0xFF) :: byte) 7" using b by (simp add: bit_blast)
    then have "\<not> (0xc0 :: byte) \<le> ucast (c AND 0xFF)" using lead_byte_high by blast
    ultimately show ?thesis using 1 by (simp add: WRITE_UTF8_def)
  next
    case 2
    then have nc: "\<not> c < 0x80" by (simp_all add: word_less_nat_alt word_le_nat_alt)
    have "unat c < 2 ^ 11" using 2 by (simp add: word_less_nat_alt)
    note b = word_bits_below [OF this]
    have "utf8_next ((0xC0 + ucast (drop_bit 6 c AND 0x1F)) # [0x80 + ucast (c AND 0x3F)] @ s) =
        (utf8_fix (push_bit 6 (ucast (ucast (drop_bit 6 c AND 0x1F) :: byte)) OR (c AND 0x3F)), s)"
      using s by (subst utf8_next_multi) (simp_all add: lead_byte step_cont cont_byte)
    also have "push_bit 6 (ucast (ucast (drop_bit 6 c AND 0x1F) :: byte)) OR (c AND 0x3F) = c"
      by (rule bits32) (use b in \<open>simp add: bit_blast\<close>)
    finally have "utf8_next (WRITE_UTF8 c @ s) = (utf8_fix c, s)"
      using 2 nc by (simp add: WRITE_UTF8_def del: utf8_next.simps)
    then show ?thesis using nc by simp
  next
    case 3
    then have nc: "\<not> c < 0x80" "\<not> c < 0x800" by (simp_all add: word_less_nat_alt word_le_nat_alt)
    have "unat c < 2 ^ 16" using 3 by (simp add: word_less_nat_alt)
    note b = word_bits_below [OF this]
    have "utf8_next ((0xE0 + ucast (drop_bit 12 c AND 0x0F)) # [0x80 + ucast (drop_bit 6 c AND 0x3F), 0x80 + ucast (c AND 0x3F)] @ s) =
        (utf8_fix (push_bit 6 (push_bit 6 (ucast (ucast (drop_bit 12 c AND 0x0F) :: byte)) OR (drop_bit 6 c AND 0x3F)) OR (c AND 0x3F)), s)"
      using s by (subst utf8_next_multi) (simp_all add: lead_byte step_cont cont_byte)
    also have "push_bit 6 (push_bit 6 (ucast (ucast (drop_bit 12 c AND 0x0F) :: byte)) OR (drop_bit 6 c AND 0x3F)) OR (c AND 0x3F) = c"
      by (rule bits32) (use b in \<open>simp add: bit_blast\<close>)
    finally have "utf8_next (WRITE_UTF8 c @ s) = (utf8_fix c, s)"
      using 3 nc by (simp add: WRITE_UTF8_def del: utf8_next.simps)
    then show ?thesis using nc by simp
  next
    case 4
    then have nc: "\<not> c < 0x80" "\<not> c < 0x800" "\<not> c < 0x10000" by (simp_all add: word_less_nat_alt word_le_nat_alt)
    note b = word_bits_below [OF u]
    have "utf8_next ((0xF0 + ucast (drop_bit 18 c AND 0x07)) #
          [0x80 + ucast (drop_bit 12 c AND 0x3F), 0x80 + ucast (drop_bit 6 c AND 0x3F), 0x80 + ucast (c AND 0x3F)] @ s) =
        (utf8_fix (push_bit 6 (push_bit 6 (push_bit 6 (ucast (ucast (drop_bit 18 c AND 0x07) :: byte)) OR (drop_bit 12 c AND 0x3F)) OR
           (drop_bit 6 c AND 0x3F)) OR (c AND 0x3F)), s)"
      using s by (subst utf8_next_multi) (simp_all add: lead_byte step_cont cont_byte)
    also have "push_bit 6 (push_bit 6 (push_bit 6 (ucast (ucast (drop_bit 18 c AND 0x07) :: byte)) OR (drop_bit 12 c AND 0x3F)) OR
        (drop_bit 6 c AND 0x3F)) OR (c AND 0x3F) = c"
      by (rule bits32) (use b in \<open>simp add: bit_blast\<close>)
    finally have "utf8_next (WRITE_UTF8 c @ s) = (utf8_fix c, s)"
      using 4 nc by (simp add: WRITE_UTF8_def del: utf8_next.simps)
    then show ?thesis using nc by simp
  qed
qed

lemma utf8_read_back: "utf8_good c \<Longrightarrow> utf8_clean s \<Longrightarrow> utf8_next (WRITE_UTF8 c @ s) = (c, s)"
  using utf8_read_written [of c s] utf8_fix_id [of c] by (auto simp: utf8_good_def not_less)

text \<open>A character above the basic plane: \<open>u\<close> are its bits from 16 on, \<open>t = u - 1\<close> those of its surrogates, \<open>l\<close> the other bits.\<close>

lemma plane_split:
  fixes c :: u32
  assumes "0x10000 \<le> c" "c < 0x110000"
  defines "u \<equiv> drop_bit 16 c" and "l \<equiv> c AND 0xFFFF"
  shows "c = push_bit 16 u + l" "c - 0x10000 = push_bit 16 (u - 1) OR l" "unat (u - 1) < 2 ^ 4" "unat l < 2 ^ 16"
proof -
  have "push_bit 16 u AND l = 0" unfolding u_def l_def by (rule bits32) (simp add: bit_blast)
  moreover have "push_bit 16 u OR l = c" unfolding u_def l_def by (rule bits32) (simp add: bit_blast)
  ultimately show c: "c = push_bit 16 u + l" using disjunctive_add_eq_or by metis
  have "push_bit 16 (u - 1) AND l = 0" unfolding l_def by (rule bits32) (simp add: bit_blast)
  then have "push_bit 16 (u - 1) OR l = push_bit 16 (u - 1) + l" by (rule disjunctive_add_eq_or [symmetric])
  also have "\<dots> = push_bit 16 u + l - 0x10000" by (simp add: push_bit_eq_mult algebra_simps)
  finally show "c - 0x10000 = push_bit 16 (u - 1) OR l" using c by simp
  have "unat u = unat c div 65536" by (simp add: u_def drop_bit_eq_div unat_div)
  moreover have "0x10000 \<le> unat c" "unat c < 0x110000" using assms(1,2) by (simp_all add: word_le_nat_alt word_less_nat_alt)
  ultimately have "1 \<le> unat u" "unat u \<le> 16" by simp_all
  moreover from this have "unat (u - 1) = unat u - 1" by (subst unat_sub) (simp_all add: word_le_nat_alt)
  ultimately show "unat (u - 1) < 2 ^ 4" by simp
  have "l \<le> 0xFFFF" unfolding l_def by (rule word_and_le1)
  then show "unat l < 2 ^ 16" by (simp add: word_le_nat_alt)
qed

lemma surrogate_range: "x AND 0xFFFFFC00 = 0xD800 \<Longrightarrow> 0xD800 \<le> x \<and> x < 0xE000" for x :: u32
proof -
  assume x: "x AND 0xFFFFFC00 = 0xD800"
  have "x = (x AND 0xFFFFFC00) OR (x AND 0x3FF)" by (rule bits32) (simp add: bit_blast)
  moreover have "(x AND 0xFFFFFC00) AND (x AND 0x3FF) = 0" by (rule bits32) (simp add: bit_blast)
  ultimately have "x = 0xD800 + (x AND 0x3FF)" using x disjunctive_add_eq_or by metis
  moreover have "x AND 0x3FF \<le> 0x3FF" by (rule word_and_le1)
  then have "unat (x AND 0x3FF) \<le> 0x3FF" by (simp add: word_le_nat_alt)
  moreover from this have "unat (0xD800 + (x AND 0x3FF)) = 0xD800 + unat (x AND 0x3FF)" by (subst unat_add_lem [THEN iffD1]) simp_all
  ultimately show ?thesis unfolding word_le_nat_alt word_less_nat_alt by simp
qed

lemma sum_or: "x AND y = 0 \<Longrightarrow> x + y = x OR y" for x y :: u32
  by (rule disjunctive_add_eq_or)

text \<open>The two units of such a character.\<close>

lemma high_unit:
  assumes t: "unat t < 2 ^ 4" "unat l < 2 ^ 16" and c: "c = push_bit 16 u + l" "d = push_bit 16 t OR l"
  shows "(ucast (ucast ((drop_bit 10 c AND 0x3F) + (drop_bit 10 d AND 0xC0)) :: byte) :: u32) +
    push_bit 8 (ucast (ucast (0xD8 + (drop_bit 18 d AND 0x03)) :: byte)) = 0xD800 OR push_bit 6 t OR drop_bit 10 l"
proof -
  note b = word_bits_below [OF t(1)] word_bits_below [OF t(2)]
  have "push_bit 16 u AND l = 0" by (rule bits32) (use b in \<open>simp add: bit_blast\<close>)
  then have c': "c = push_bit 16 u OR l" unfolding c(1) by (rule sum_or)
  have "(drop_bit 10 c AND 0x3F) AND (drop_bit 10 d AND 0xC0) = 0" by (rule bits32) (simp add: bit_blast)
  then have 1: "(drop_bit 10 c AND 0x3F) + (drop_bit 10 d AND 0xC0) = (drop_bit 10 c AND 0x3F) OR (drop_bit 10 d AND 0xC0)" by (rule sum_or)
  have "0xD8 AND (drop_bit 18 d AND 0x03) = 0" by (rule bits32) (simp add: bit_blast)
  then have 2: "0xD8 + (drop_bit 18 d AND 0x03) = 0xD8 OR (drop_bit 18 d AND 0x03)" by (rule sum_or)
  have 3: "ucast (x :: byte) + push_bit 8 (ucast (y :: byte)) = (ucast x OR push_bit 8 (ucast y) :: u32)" for x y
    by (rule sum_or, rule bits32) (simp add: bit_blast)
  show ?thesis unfolding 1 2 3 unfolding c' c(2) by (rule bits32) (use b in \<open>simp add: bit_blast\<close>)
qed

lemma low_unit:
  assumes t: "unat l < 2 ^ 16" and c: "c = push_bit 16 u + l"
  shows "(ucast (ucast (c AND 0xFF) :: byte) :: u32) + push_bit 8 (ucast (ucast (0xDC + (drop_bit 8 c AND 0x03)) :: byte)) =
    0xDC00 OR (l AND 0x3FF)"
proof -
  note b = word_bits_below [OF t]
  have "push_bit 16 u AND l = 0" by (rule bits32) (use b in \<open>simp add: bit_blast\<close>)
  then have c': "c = push_bit 16 u OR l" unfolding c(1) by (rule sum_or)
  have "0xDC AND (drop_bit 8 c AND 0x03) = 0" by (rule bits32) (simp add: bit_blast)
  then have 2: "0xDC + (drop_bit 8 c AND 0x03) = 0xDC OR (drop_bit 8 c AND 0x03)" by (rule sum_or)
  have 3: "ucast (x :: byte) + push_bit 8 (ucast (y :: byte)) = (ucast x OR push_bit 8 (ucast y) :: u32)" for x y
    by (rule sum_or, rule bits32) (simp add: bit_blast)
  show ?thesis unfolding 2 3 unfolding c' by (rule bits32) (simp add: bit_blast)
qed

lemma join_units:
  assumes t: "unat t < 2 ^ 4" "unat l < 2 ^ 16"
  shows "surrogates (0xD800 OR push_bit 6 t OR drop_bit 10 l) (0xDC00 OR (l AND 0x3FF)) = push_bit 16 (t + 1) + l"
proof -
  note b = word_bits_below [OF t(1)] word_bits_below [OF t(2)]
  have "(0xDC00 OR (l AND 0x3FF)) AND 0x03FF = l AND 0x3FF" "(0xD800 OR push_bit 6 t OR drop_bit 10 l) AND 0x003F = drop_bit 10 l"
      "(0xD800 OR push_bit 6 t OR drop_bit 10 l) AND 0x03C0 = push_bit 6 t"
    by ((rule bits32), (use b in \<open>simp add: bit_blast\<close>))+
  then have "surrogates (0xD800 OR push_bit 6 t OR drop_bit 10 l) (0xDC00 OR (l AND 0x3FF)) =
      (l AND 0x3FF) + push_bit 10 (drop_bit 10 l) + push_bit 10 (push_bit 6 t + 0x40)" by (simp add: surrogates_def)
  also have "(l AND 0x3FF) + push_bit 10 (drop_bit 10 l) = l"
  proof -
    have "(l AND 0x3FF) AND push_bit 10 (drop_bit 10 l) = 0" by (rule bits32) (simp add: bit_blast)
    then have "(l AND 0x3FF) + push_bit 10 (drop_bit 10 l) = (l AND 0x3FF) OR push_bit 10 (drop_bit 10 l)" by (rule sum_or)
    also have "\<dots> = l" by (rule bits32) (simp add: bit_blast)
    finally show ?thesis .
  qed
  finally show ?thesis by (simp add: push_bit_eq_mult algebra_simps)
qed

definition utf16_good :: "u32 \<Rightarrow> bool" where
  "utf16_good c \<longleftrightarrow> c < 0x110000 \<and> \<not> (0xD800 \<le> c \<and> c < 0xE000)"

lemma small_units:
  "c \<le> 0xFFFF \<Longrightarrow> ucast (ucast (c AND 0xFF) :: byte) + push_bit 8 (ucast (ucast (drop_bit 8 c AND 0xFF) :: byte)) = c" for c :: u32
proof -
  assume "c \<le> 0xFFFF"
  then have "unat c < 2 ^ 16" by (simp add: word_le_nat_alt)
  note b = word_bits_below [OF this]
  have "ucast (ucast (c AND 0xFF) :: byte) AND push_bit 8 (ucast (ucast (drop_bit 8 c AND 0xFF) :: byte)) = (0 :: u32)"
    by (rule bits32) (simp add: bit_blast)
  then have "ucast (ucast (c AND 0xFF) :: byte) + push_bit 8 (ucast (ucast (drop_bit 8 c AND 0xFF) :: byte)) =
      (ucast (ucast (c AND 0xFF) :: byte) OR push_bit 8 (ucast (ucast (drop_bit 8 c AND 0xFF) :: byte)) :: u32)" by (rule sum_or)
  also have "\<dots> = c" by (rule bits32) (use b in \<open>simp add: bit_blast\<close>)
  finally show ?thesis .
qed

definition WRITE_UTF16 :: "bool \<Rightarrow> u32 \<Rightarrow> byte list" where
  "WRITE_UTF16 be = (if be then WRITE_UTF16BE else WRITE_UTF16LE)"

lemma utf16_read_back:
  assumes g: "utf16_good c"
  shows "utf16_next be (WRITE_UTF16 be c @ s) = (c, s)"
proof (cases "c \<le> 0xFFFF")
  case True
  then obtain a b where w: "WRITE_UTF16 be c = [a, b]" "unit16 be a b = c"
    using small_units [OF True] True by (cases be) (auto simp: WRITE_UTF16_def WRITE_UTF16LE_def WRITE_UTF16BE_def unit16_def add.commute)
  moreover have ns: "\<not> (0xD800 \<le> c \<and> c < 0xE000)" using g by (simp add: utf16_good_def)
  ultimately show ?thesis by (simp only: append_Cons append_Nil utf16_next.simps w Let_def if_False split: list.split) simp
next
  case False
  then have c: "0x10000 \<le> c" "c < 0x110000" using g by (simp_all add: utf16_good_def word_le_nat_alt word_less_nat_alt)
  define u where "u = drop_bit 16 c"
  define l where "l = c AND 0xFFFF"
  note p = plane_split [OF c, folded u_def l_def]
  let ?h = "0xD800 OR push_bit 6 (u - 1) OR drop_bit 10 l" and ?lo = "0xDC00 OR (l AND 0x3FF)"
  let ?w = "WRITE_UTF16 be c"
  have w: "?w = [?w ! 0, ?w ! 1, ?w ! 2, ?w ! 3]"
    using False by (simp add: WRITE_UTF16_def WRITE_UTF16LE_def WRITE_UTF16BE_def numeral_2_eq_2 numeral_3_eq_3)
  have "unit16 be (?w ! 0) (?w ! 1) = ?h" "unit16 be (?w ! 2) (?w ! 3) = ?lo"
    using high_unit [OF p(3,4,1,2)] low_unit [OF p(4,1)] False
    by (simp_all add: WRITE_UTF16_def WRITE_UTF16LE_def WRITE_UTF16BE_def unit16_def add.commute numeral_2_eq_2 numeral_3_eq_3)
  moreover have "?h AND 0xFFFFFC00 = 0xD800"
    by (rule bits32) (use word_bits_below [OF p(3)] word_bits_below [OF p(4)] in \<open>simp add: bit_blast\<close>)
  then have "0xD800 \<le> ?h \<and> ?h < 0xE000" by (rule surrogate_range)
  moreover have "surrogates ?h ?lo = c" using join_units [OF p(3,4)] p(1) by simp
  ultimately have "utf16_next be (?w ! 0 # ?w ! 1 # ?w ! 2 # ?w ! 3 # s) = (c, s)" by (simp add: Let_def)
  then show ?thesis using w by (metis append_Cons append_Nil)
qed

lemma cont_below: "cont b \<Longrightarrow> b < 0xc0" for b :: byte
  by (rule all_bytes [of "\<lambda>b. cont b \<longrightarrow> b < 0xc0", rule_format], code_simp)

lemma WRITE_UTF8_clean: "c < 0x110000 \<Longrightarrow> utf8_clean (WRITE_UTF8 c @ s)"
proof -
  assume c: "c < 0x110000"
  show ?thesis
  proof (cases "c < 0x80")
    case True
    then have "unat c < 2 ^ 7" by (simp add: word_less_nat_alt)
    note b = word_bits_below [OF this]
    have "(ucast (c AND 0xFF) :: byte) AND 0xc0 = ucast c AND 0x40" by (rule bits8) (use b in \<open>simp add: bit_blast\<close>)
    moreover have "(ucast c :: byte) AND 0x40 \<noteq> 0x80"
    proof
      assume "(ucast c :: byte) AND 0x40 = 0x80"
      then have "bit ((ucast c :: byte) AND 0x40) 7" by simp
      then show False by (simp add: bit_and_iff)
    qed
    ultimately show ?thesis using True by (simp add: utf8_clean_def WRITE_UTF8_def)
  next
    case False
    have "\<not> cont b" if "0xc0 \<le> b" for b using cont_below [of b] that by (auto simp: not_less [symmetric])
    then show ?thesis using lead_byte [of "drop_bit 6 c"] lead_byte [of "drop_bit 12 c"] lead_byte [of "drop_bit 18 c"] False
      by (simp add: utf8_clean_def WRITE_UTF8_def)
  qed
qed

interpretation utf8: char_code WRITE_UTF8 utf8_next utf8_good utf8_clean
proof
  show "utf8_next (WRITE_UTF8 c @ s) = (c, s)" if "utf8_good c" "utf8_clean s" for c s using that by (rule utf8_read_back)
  show "utf8_clean (WRITE_UTF8 c @ s)" if "utf8_good c" for c s using that by (simp add: utf8_good_def WRITE_UTF8_clean)
  show "WRITE_UTF8 c \<noteq> []" for c by (simp add: WRITE_UTF8_def)
  show "utf8_clean []" by (simp add: utf8_clean_def)
qed

interpretation utf16: char_code "WRITE_UTF16 be" "utf16_next be" utf16_good "\<lambda>_. True" for be
proof
  show "utf16_next be (WRITE_UTF16 be c @ s) = (c, s)" if "utf16_good c" for c s using that by (rule utf16_read_back)
qed (simp_all add: WRITE_UTF16_def WRITE_UTF16LE_def WRITE_UTF16BE_def)

section \<open>Growth\<close>

lemma byte_value: "unat (ucast b :: u32) = unat b" "unat b < 256" for b :: byte
proof -
  show "unat b < 256" using unsigned_less [where ?'a = nat, of b] by simp
  then show "unat (ucast b :: u32) = unat b" by (simp add: unsigned_ucast_eq take_bit_nat_eq_self)
qed

lemma lead_bits_bound: "0xc0 \<le> b \<Longrightarrow> unat (lead_bits b) < 32"
  by (rule all_bytes [of "\<lambda>b. 0xc0 \<le> b \<longrightarrow> unat (lead_bits b) < 32", rule_format], code_simp)

lemma WRITE_UTF16_length: "length (WRITE_UTF16 be c) = (if c \<le> 0xFFFF then 2 else 4)"
  by (simp add: WRITE_UTF16_def WRITE_UTF16LE_def WRITE_UTF16BE_def)

text \<open>A character that needs two units took at least three bytes.\<close>

lemma utf8_translation_step:
  assumes "s \<noteq> []"
  shows "\<exists>k. 0 < k \<and> k \<le> length s \<and> snd (utf8_next s) = drop k s \<and> length (WRITE_UTF16 be (fst (utf8_next s))) \<le> 2 * k"
proof -
  obtain b bs where b: "s = b # bs" using assms by (cases s) auto
  show ?thesis
  proof (cases "0xc0 \<le> b")
    case False
    have "(ucast b :: u32) \<le> 0xFFFF" using byte_value(2) [of b] by (simp add: word_le_nat_alt byte_value(1))
    then show ?thesis using b False by (intro exI [of _ 1]) (simp add: WRITE_UTF16_length)
  next
    case True
    let ?cs = "takeWhile cont bs" and ?c = "foldl utf8_step (ucast (lead_bits b)) (takeWhile cont bs)"
    have d: "dropWhile cont bs = drop (length ?cs) bs" "length ?cs \<le> length bs" by (simp_all add: dropWhile_eq_drop length_takeWhile_le)
    have "4 \<le> 2 * Suc (length ?cs)" if "\<not> utf8_fix ?c \<le> 0xFFFF"
    proof (rule ccontr)
      assume "\<not> ?thesis"
      then have "?cs = []" by (cases ?cs) auto
      then have "?c \<le> 0xFFFF" using lead_bits_bound [OF True] by (simp add: word_le_nat_alt byte_value)
      then show False using that by (auto simp: utf8_fix_def split: if_splits)
    qed
    then show ?thesis using b True d by (intro exI [of _ "Suc (length ?cs)"]) (auto simp: WRITE_UTF16_length)
  qed
qed

lemma surrogates_bound: "surrogates c d < 0x110000"
proof -
  have "d AND 0x03FF \<le> 0x3FF" "c AND 0x003F \<le> 0x3F" "c AND 0x03C0 \<le> 0x3C0" by (rule word_and_le1)+
  then have "unat (d AND 0x03FF) \<le> 0x3FF" "unat (c AND 0x003F) \<le> 0x3F" "unat (c AND 0x03C0) \<le> 0x3C0" by (simp_all add: word_le_nat_alt)
  then show ?thesis unfolding surrogates_def by (simp add: word_less_nat_alt push_bit_eq_mult unat_word_ariths)
qed

lemma WRITE_UTF8_length: "length (WRITE_UTF8 c) \<le> 4" "c < 0x10000 \<Longrightarrow> length (WRITE_UTF8 c) \<le> 3"
  by (simp_all add: WRITE_UTF8_def)

lemma unit16_bound: "unit16 be a b < 0x10000"
proof -
  have "unat (ucast x :: u32) < 256" for x :: byte using byte_value(2) [of x] by (simp add: byte_value(1))
  from this [of a] this [of b] show ?thesis
    by (simp add: unit16_def word_less_nat_alt push_bit_eq_mult unat_word_ariths)
qed

lemma utf16_translation_step:
  assumes "even (length s)" "s \<noteq> []"
  shows "\<exists>k. 0 < k \<and> k \<le> length s \<and> snd (utf16_next be s) = drop k s \<and> even (length (drop k s)) \<and>
    length (WRITE_UTF8 (fst (utf16_next be s))) \<le> 2 * k"
proof -
  obtain a b bs where s: "s = a # b # bs" using assms by (cases s; cases "tl s") auto
  let ?c = "unit16 be a b"
  note l = WRITE_UTF8_length(2) [OF unit16_bound, of be a b]
  show ?thesis
  proof (cases "(0xD800 \<le> ?c \<and> ?c < 0xE000) \<and> bs \<noteq> []")
    case True
    then obtain d e ds where bs: "bs = d # e # ds" using assms(1) s by (cases bs; cases "tl bs") auto
    then show ?thesis using True s assms(1) WRITE_UTF8_length(1) [of "surrogates ?c (unit16 be d e)"]
      by (intro exI [of _ 4]) (simp add: Let_def)
  next
    case False
    then have "utf16_next be s = (?c, bs)" unfolding s by (auto simp: Let_def split: list.split)
    then show ?thesis using s assms(1) l by (intro exI [of _ 2]) simp
  qed
qed

interpretation from8: char_translation "\<lambda>_. True" utf8_next "WRITE_UTF16 be" for be
  by unfold_locales (use utf8_translation_step in auto)

interpretation from16: char_translation "\<lambda>s. even (length s)" "utf16_next be" WRITE_UTF8 for be
  by unfold_locales (rule utf16_translation_step)

section \<open>Translation\<close>

fun swap_pairs :: "byte list \<Rightarrow> byte list" where
  "swap_pairs (a # b # bs) = b # a # swap_pairs bs"
| "swap_pairs bs = bs"

definition even_part :: "byte list \<Rightarrow> byte list" where
  "even_part s = take (length s - length s mod 2) s"

text \<open>The text \<open>s\<close> in another encoding.\<close>

definition transcode :: "int \<Rightarrow> int \<Rightarrow> byte list \<Rightarrow> byte list" where
  "transcode enc des s =
     (if enc = SQLITE_UTF8 then concat (map (WRITE_UTF16 (des \<noteq> SQLITE_UTF16LE)) (text_chars utf8_next s))
      else if des = SQLITE_UTF8 then concat (map WRITE_UTF8 (text_chars (utf16_next (enc \<noteq> SQLITE_UTF16LE)) (even_part s)))
      else swap_pairs s)"

lemma and_not_1: "n AND NOT 1 = n - n mod 2" for n :: int
proof -
  have "(n AND 1) AND (n AND NOT 1) = 0" by (rule bit_eqI) (auto simp: bit_simps)
  moreover have "(n AND 1) OR (n AND NOT 1) = n AND (1 OR NOT 1)" by (rule bit.conj_disj_distrib [symmetric])
  then have "(n AND 1) OR (n AND NOT 1) = n" by (simp only: bit.disj_cancel_right and.right_neutral)
  ultimately have "(n AND 1) + (n AND NOT 1) = n" using disjunctive_add_eq_or by metis
  then show ?thesis by (simp add: and_one_eq)
qed

lemma even_part_ok: "length (even_part s) = length s - length s mod 2" "even (length (even_part s))"
proof -
  show l: "length (even_part s) = length s - length s mod 2" by (simp add: even_part_def)
  show "even (length (even_part s))" unfolding l by presburger
qed

lemma swap_pairs_length: "length (swap_pairs s) = length s"
  by (induction s rule: swap_pairs.induct) simp_all

lemma transcode_bound:
  "length (transcode enc des s) \<le> 2 * length s"
  "des = SQLITE_UTF8 \<Longrightarrow> enc \<noteq> SQLITE_UTF8 \<Longrightarrow> length (transcode enc des s) \<le> 2 * length (even_part s)"
  using from8.output_bound [of "des \<noteq> SQLITE_UTF16LE" s] from16.output_bound [of "even_part s" "enc \<noteq> SQLITE_UTF16LE"] even_part_ok [of s]
  by (auto simp: transcode_def swap_pairs_length)

lemma translate_from8:
  assumes n: "n \<le> length zIn" and room: "2 * n \<le> length zOut"
  shows "translate_chars zIn (int n) SQLITE_UTF8 des zOut =
    Ret (transcode SQLITE_UTF8 des (take n zIn) @ drop (length (transcode SQLITE_UTF8 des (take n zIn))) zOut,
         int (length (transcode SQLITE_UTF8 des (take n zIn))))"
proof -
  let ?s = "take n zIn" and ?W = "WRITE_UTF16 (des \<noteq> SQLITE_UTF16LE)"
  have W: "(if des = SQLITE_UTF16LE then WRITE_UTF16LE else WRITE_UTF16BE) = ?W" by (simp add: WRITE_UTF16_def)
  have "utf_loop n (READ_UTF8 zIn (Some (int n))) ?W (int (length ?s) - int (length ?s)) (int (length ?s)) ([] @ zOut) (int (length ([] :: byte list))) =
      Ret ([] @ concat (map ?W (text_chars utf8_next ?s)) @ drop (length (concat (map ?W (text_chars utf8_next ?s)))) zOut,
           int (length ([] :: byte list) + length (concat (map ?W (text_chars utf8_next ?s)))))"
  proof (rule from8.utf_loop_ok [where i = 0])
    show "\<forall>s. s \<noteq> [] \<and> (\<exists>i. s = drop i ?s) \<and> True \<longrightarrow>
        READ_UTF8 zIn (Some (int n)) (int (length ?s) - int (length s)) =
        Ret (fst (utf8_next s), int (length ?s) - int (length (snd (utf8_next s))))"
    proof (intro allI impI)
      fix s assume s: "s \<noteq> [] \<and> (\<exists>i. s = drop i ?s) \<and> True"
      then obtain i where i: "s = drop i ?s" "s \<noteq> []" by blast
      then have "int (length ?s) - int (length s) = int i" using n by auto
      then show "READ_UTF8 zIn (Some (int n)) (int (length ?s) - int (length s)) =
          Ret (fst (utf8_next s), int (length ?s) - int (length (snd (utf8_next s))))"
        using READ_UTF8_ok [OF i(1) [symmetric] i(2) n] n by (simp add: min_def)
    qed
    show "length (concat (map ?W (text_chars utf8_next ?s))) \<le> length zOut"
      using from8.output_bound [of "des \<noteq> SQLITE_UTF16LE" ?s] room by simp
  qed (use n in simp_all)
  then show ?thesis using n by (simp add: translate_chars_def W transcode_def)
qed

lemma translate_from16:
  assumes n: "n \<le> length zIn" "even n" and enc: "enc \<noteq> SQLITE_UTF8" and room: "2 * n \<le> length zOut"
  shows "translate_chars zIn (int n) enc SQLITE_UTF8 zOut =
    Ret (transcode enc SQLITE_UTF8 (take n zIn) @ drop (length (transcode enc SQLITE_UTF8 (take n zIn))) zOut,
         int (length (transcode enc SQLITE_UTF8 (take n zIn))))"
proof -
  let ?s = "take n zIn" and ?be = "enc \<noteq> SQLITE_UTF16LE"
  let ?R = "(if ?be then READ_UTF16BE else READ_UTF16LE) zIn (\<lambda>i. i < int n)"
  have e: "even_part ?s = ?s" using n by (simp add: even_part_def min_def)
  have "utf_loop n ?R WRITE_UTF8 (int (length ?s) - int (length ?s)) (int (length ?s)) ([] @ zOut) (int (length ([] :: byte list))) =
      Ret ([] @ concat (map WRITE_UTF8 (text_chars (utf16_next ?be) ?s)) @ drop (length (concat (map WRITE_UTF8 (text_chars (utf16_next ?be) ?s)))) zOut,
           int (length ([] :: byte list) + length (concat (map WRITE_UTF8 (text_chars (utf16_next ?be) ?s)))))"
  proof (rule from16.utf_loop_ok [where i = 0])
    show "\<forall>s. s \<noteq> [] \<and> (\<exists>i. s = drop i ?s) \<and> even (length s) \<longrightarrow>
        ?R (int (length ?s) - int (length s)) = Ret (fst (utf16_next ?be s), int (length ?s) - int (length (snd (utf16_next ?be s))))"
    proof (intro allI impI)
      fix s assume s: "s \<noteq> [] \<and> (\<exists>i. s = drop i ?s) \<and> even (length s)"
      then obtain i where i: "s = drop i ?s" "s \<noteq> []" "even (length s)" by blast
      then have "int (length ?s) - int (length s) = int i" using n by auto
      then show "?R (int (length ?s) - int (length s)) = Ret (fst (utf16_next ?be s), int (length ?s) - int (length (snd (utf16_next ?be s))))"
        using READ_UTF16_ok [OF i(1) [symmetric] i(2,3) n(1), of ?be] n by (simp add: min_def)
    qed
    show "length (concat (map WRITE_UTF8 (text_chars (utf16_next ?be) ?s))) \<le> length zOut"
      using from16.output_bound [of ?s ?be] room n by (simp add: min_absorb2)
  qed (use n in \<open>simp_all add: min_def\<close>)
  then show ?thesis using n enc by (cases "enc = SQLITE_UTF16LE") (simp_all add: translate_chars_def transcode_def e min_absorb2)
qed

section \<open>Counting characters, self-tests\<close>

lemma READ_UTF8_open:
  assumes b: "b < 0xc0 \<or> dropWhile cont bs \<noteq> []"
  shows "READ_UTF8 (pre @ b # bs) None (int (length pre)) =
    Ret (fst (utf8_next (b # bs)), int (length (pre @ b # bs)) - int (length (snd (utf8_next (b # bs)))))"
proof (cases "0xc0 \<le> b")
  case False
  then show ?thesis by (simp add: READ_UTF8_def)
next
  case True
  let ?cs = "takeWhile cont bs"
  obtain r rs where r: "dropWhile cont bs = r # rs" using b True by (cases "dropWhile cont bs") (auto simp: not_less [symmetric])
  have bs: "bs = ?cs @ r # rs" using r by (metis takeWhile_dropWhile_id)
  have nr: "\<not> cont r" using hd_dropWhile [of cont bs] r by simp
  have t: "utf8_tail ((pre @ [b]) @ ?cs @ (r # rs)) None (int (length (pre @ [b]))) (ucast (lead_bits b)) =
      Ret (foldl utf8_step (ucast (lead_bits b)) ?cs, int (length (pre @ [b]) + length ?cs))"
    by (rule utf8_tail_ok) (use nr in \<open>auto dest: set_takeWhileD\<close>)
  have z: "(pre @ [b]) @ ?cs @ (r # rs) = pre @ b # bs" using bs by simp
  have pos: "int (length (pre @ [b])) = int (length pre) + 1" by simp
  have len: "int (length bs) = int (length ?cs) + int (length (r # rs))" using arg_cong [OF bs, of length] by simp
  show ?thesis using t [unfolded z of_nat_add pos] len True r by (simp add: READ_UTF8_def trans1)
qed

lemma skip_tail_ok:
  "\<forall>b \<in> set cs. cont b \<Longrightarrow> \<not> cont r \<Longrightarrow> skip_tail (pre @ cs @ r # rest) (int (length pre)) = Ret (int (length pre + length cs))"
proof (induction cs arbitrary: pre)
  case Nil
  then show ?case by (subst skip_tail.simps) simp
next
  case (Cons b cs)
  have "skip_tail ((pre @ [b]) @ cs @ r # rest) (int (length (pre @ [b]))) = Ret (int (length (pre @ [b]) + length cs))"
    by (rule Cons.IH) (use Cons.prems in auto)
  then show ?case using Cons.prems by (subst skip_tail.simps) (simp add: add.commute)
qed

lemma SKIP_ok:
  "SQLITE_SKIP_UTF8 (pre @ (b # bs) @ 0 # rest) (int (length pre)) =
   Ret (int (length (pre @ (b # bs))) - int (length (snd (utf8_next (b # bs)))))"
proof (cases "0xc0 \<le> b")
  case False
  then show ?thesis by (simp add: SQLITE_SKIP_UTF8_def)
next
  case True
  let ?cs = "takeWhile cont bs"
  obtain r rs where r: "dropWhile cont bs @ 0 # rest = r # rs" by (cases "dropWhile cont bs") auto
  have nr: "\<not> cont r" using hd_dropWhile [of cont bs] r by (cases "dropWhile cont bs") auto
  have bs: "bs @ 0 # rest = ?cs @ r # rs" using r by (metis append_assoc takeWhile_dropWhile_id)
  have t: "skip_tail ((pre @ [b]) @ ?cs @ r # rs) (int (length (pre @ [b]))) = Ret (int (length (pre @ [b]) + length ?cs))"
    by (rule skip_tail_ok) (use nr in \<open>auto dest: set_takeWhileD\<close>)
  have z: "(pre @ [b]) @ ?cs @ r # rs = pre @ (b # bs) @ 0 # rest" unfolding bs [symmetric] by simp
  have pos: "int (length (pre @ [b])) = int (length pre) + 1" by simp
  have len: "int (length bs) = int (length ?cs) + int (length (dropWhile cont bs))"
    by (simp flip: of_nat_add length_append)
  show ?thesis using t [unfolded z of_nat_add pos] len True by (simp add: SQLITE_SKIP_UTF8_def)
qed

lemma utf8_next_shorter: "\<exists>k > 0. k \<le> length (b # bs) \<and> snd (utf8_next (b # bs)) = drop k (b # bs)"
  using utf8_translation_step [of "b # bs"] by blast

lemma char_len_ok:
  "0 \<notin> set s \<Longrightarrow> nByte < 0 \<Longrightarrow> length s \<le> n \<Longrightarrow>
   char_len n (pre @ s @ 0 # rest) nByte (int (length pre)) r = Ret (r + int (length (text_chars utf8_next s)))"
proof (induction n arbitrary: pre s r)
  case 0
  then show ?case by (subst char_len.simps) (simp add: text_chars_def)
next
  case (Suc n)
  show ?case
  proof (cases s)
    case Nil
    then show ?thesis by (subst char_len.simps) (simp add: text_chars_def)
  next
    case (Cons b bs)
    obtain k where k: "0 < k" "k \<le> length s" "snd (utf8_next s) = drop k s" using utf8_next_shorter [of b bs] Cons by auto
    have tc: "text_chars utf8_next s = fst (utf8_next s) # text_chars utf8_next (drop k s)"
      using from8.text_chars_step [of s] k(3) Cons by simp
    have t: "char_len n ((pre @ take k s) @ drop k s @ 0 # rest) nByte (int (length (pre @ take k s))) (r + 1) =
        Ret (r + 1 + int (length (text_chars utf8_next (drop k s))))"
      by (rule Suc.IH) (use Suc.prems k in \<open>auto dest: in_set_dropD\<close>)
    have z: "(pre @ take k s) @ drop k s @ 0 # rest = pre @ s @ 0 # rest" by simp
    have pos: "int (length (pre @ take k s)) = int (length pre) + int k" using k by simp
    have "SQLITE_SKIP_UTF8 (pre @ s @ 0 # rest) (int (length pre)) = Ret (int (length pre) + int k)"
      using SKIP_ok [of pre b bs rest] k unfolding Cons [symmetric] by (simp add: of_nat_diff)
    moreover have "rd (pre @ s @ 0 # rest) (int (length pre)) = Ret b" using Cons by simp
    moreover have "b \<noteq> 0" using Suc.prems(1) Cons by auto
    ultimately show ?thesis using Suc.prems(2) tc t [unfolded z pos] by (subst char_len.simps) simp
  qed
qed

lemma surrogate_test: "(c AND 0xFFFFF800 = 0xD800) = (0xD800 \<le> c \<and> c \<le> 0xDFFF)" for c :: u32
proof -
  have m: "c AND 0xFFFFF800 = push_bit 11 (drop_bit 11 c)" by (rule bits32) (simp add: bit_blast)
  have d: "drop_bit 11 (c AND 0xFFFFF800) = drop_bit 11 c" by (rule bits32) (simp add: bit_blast)
  have "(c AND 0xFFFFF800 = 0xD800) = (drop_bit 11 c = 27)"
  proof
    assume "c AND 0xFFFFF800 = 0xD800"
    then show "drop_bit 11 c = 27" using d by simp
  next
    assume "drop_bit 11 c = 27"
    then show "c AND 0xFFFFF800 = 0xD800" using m by simp
  qed
  also have "\<dots> = (unat c div 2048 = 27)" by (simp add: drop_bit_eq_div word_unat_eq_iff unat_div)
  also have "\<dots> = (0xD800 \<le> unat c \<and> unat c \<le> 0xDFFF)" by (intro iffI conjI) linarith+
  finally show ?thesis by (simp add: word_le_nat_alt)
qed

lemma self_test8:
  assumes i: "i < 0x110000" and n: "5 \<le> length zBuf"
  shows "UtfSelfTest8 zBuf i = Ret True"
proof -
  let ?w = "WRITE_UTF8 i"
  have l: "0 < length ?w" "length ?w \<le> 4" using WRITE_UTF8_length(1) [of i] utf8.W_nonempty [of i] by auto
  define rest where "rest = drop (Suc (length ?w)) zBuf"
  have "wr_bytes zBuf 0 ?w = Ret (?w @ drop (length ?w) zBuf)" using l n by (simp add: wr_bytes_def)
  moreover have "wr_bytes (?w @ drop (length ?w) zBuf) (int (length ?w)) [0] = Ret (?w @ 0 # rest)"
    using l n by (simp add: wr_bytes_def rest_def)
  moreover have "utf8_next (?w @ 0 # rest) = (if i < 0x80 then i else utf8_fix i, 0 # rest)"
    by (rule utf8_read_written [OF i]) (simp add: utf8_clean_def)
  moreover obtain b bs where b: "?w @ 0 # rest = b # bs" by (cases ?w) auto
  moreover have "b < 0xc0 \<or> dropWhile cont bs \<noteq> []" using arg_cong [OF calculation(3), of snd] unfolding b
    by (cases "0xc0 \<le> b") (simp_all add: not_le del: dropWhile_eq_Nil_conv)
  then have "READ_UTF8 ([] @ b # bs) None (int (length ([] :: byte list))) =
      Ret (fst (utf8_next (b # bs)), int (length ([] @ b # bs)) - int (length (snd (utf8_next (b # bs)))))" by (rule READ_UTF8_open)
  moreover have "int (length (b # bs)) = int (length ?w) + int (length (0 # rest))" unfolding b [symmetric] by simp
  ultimately have r: "sqlite3Utf8Read (?w @ 0 # rest) 0 = Ret (if i < 0x80 then i else utf8_fix i, int (length ?w))"
    by (simp add: sqlite3Utf8Read_def del: utf8_next.simps)
  have small: "i < 0x80 \<Longrightarrow> \<not> 0xD800 \<le> i \<and> i AND 0xFFFFFFFE \<noteq> 0xFFFE"
  proof -
    assume s: "i < 0x80"
    have "i AND 0xFFFFFFFE \<le> i" by (rule word_and_le2)
    then show ?thesis using s by (auto simp: word_le_nat_alt word_less_nat_alt)
  qed
  have t: "(if i < 0x80 then i else utf8_fix i) =
      (if i AND 0xFFFFFFFE = 0xFFFE then 0xFFFD else if 0xD800 \<le> i \<and> i \<le> 0xDFFF then 0xFFFD else i)"
    using small by (auto simp: utf8_fix_def surrogate_test)
  show ?thesis
    using \<open>wr_bytes zBuf 0 ?w = _\<close> \<open>wr_bytes (?w @ drop (length ?w) zBuf) _ _ = _\<close> r l t
    by (simp add: UtfSelfTest8_def Let_def)
qed

lemma self_test16:
  assumes i: "i < 0x110000" and n: "5 \<le> length zBuf"
  shows "UtfSelfTest16 (WRITE_UTF16 be) (if be then READ_UTF16BE else READ_UTF16LE) zBuf i = Ret True"
proof (cases "0xD800 \<le> i \<and> i < 0xE000")
  case True
  then show ?thesis by (simp add: UtfSelfTest16_def)
next
  case False
  then have g: "utf16_good i" using i by (simp add: utf16_good_def)
  let ?w = "WRITE_UTF16 be i" and ?R = "if be then READ_UTF16BE else READ_UTF16LE"
  define rest where "rest = drop (Suc (length ?w)) zBuf"
  have l: "length ?w \<le> 4" "0 < length ?w" by (simp_all add: WRITE_UTF16_length)
  have w1: "wr_bytes zBuf 0 ?w = Ret (?w @ drop (length ?w) zBuf)" using l n by (simp add: wr_bytes_def)
  have w2: "wr_bytes (?w @ drop (length ?w) zBuf) (int (length ?w)) [0] = Ret (?w @ 0 # rest)" using l n by (simp add: wr_bytes_def rest_def)
  have nx: "utf16_next be ?w = (i, [])" using utf16_read_back [OF g, of be "[]"] by simp
  have "?R (?w @ 0 # rest) (\<lambda>_. True) 0 = Ret (i, int (length ?w))"
  proof (cases "i \<le> 0xFFFF")
    case True
    then have "length ?w = 2" by (simp add: WRITE_UTF16_length)
    then obtain a b where w: "?w = [a, b]" by (auto simp: numeral_2_eq_2 length_Suc_conv)
    have "rd (a # b # 0 # rest) 0 = Ret a" "rd (a # b # 0 # rest) 1 = Ret b" by (simp_all add: rd_in)
    moreover have "unit16 be a b = i" using nx unfolding w by simp
    ultimately show ?thesis using False unfolding w by (cases be) (auto simp: READ_UTF16BE_def READ_UTF16LE_def unit16_def Let_def)
  next
    case big: False
    then have "length ?w = 4" by (simp add: WRITE_UTF16_length)
    then obtain a b d e where w: "?w = [a, b, d, e]" by (auto simp: numeral_eq_Suc length_Suc_conv)
    have "rd (a # b # d # e # 0 # rest) 0 = Ret a" "rd (a # b # d # e # 0 # rest) 1 = Ret b"
        "rd (a # b # d # e # 0 # rest) 2 = Ret d" "rd (a # b # d # e # 0 # rest) 3 = Ret e" by (simp_all add: rd_in)
    moreover have "0xD800 \<le> unit16 be a b \<and> unit16 be a b < 0xE000 \<and> surrogates (unit16 be a b) (unit16 be d e) = i"
      using nx unfolding w by (auto simp: Let_def split: if_splits)
    ultimately show ?thesis unfolding w by (cases be) (auto simp: READ_UTF16BE_def READ_UTF16LE_def unit16_def Let_def)
  qed
  then show ?thesis using w1 w2 l False by (simp add: UtfSelfTest16_def Let_def)
qed

lemma good_chars: "utf8_good c \<Longrightarrow> utf16_good c"
  using surrogate_test [of c] by (auto simp: utf8_good_def utf16_good_def word_le_nat_alt word_less_nat_alt)

lemma written16_even: "even (length (concat (map (WRITE_UTF16 be) cs)))"
  by (induction cs) (simp_all add: WRITE_UTF16_length)

lemma transcode_chars:
  assumes g: "\<forall>c \<in> set cs. utf8_good c"
  shows "transcode SQLITE_UTF8 e (concat (map WRITE_UTF8 cs)) = concat (map (WRITE_UTF16 (e \<noteq> SQLITE_UTF16LE)) cs)"
    "e \<noteq> SQLITE_UTF8 \<Longrightarrow> transcode e SQLITE_UTF8 (concat (map (WRITE_UTF16 (e \<noteq> SQLITE_UTF16LE)) cs)) = concat (map WRITE_UTF8 cs)"
proof -
  let ?be = "e \<noteq> SQLITE_UTF16LE"
  show "transcode SQLITE_UTF8 e (concat (map WRITE_UTF8 cs)) = concat (map (WRITE_UTF16 ?be) cs)"
    by (simp add: transcode_def utf8.text_of_encoded [OF g])
  have "even_part (concat (map (WRITE_UTF16 ?be) cs)) = concat (map (WRITE_UTF16 ?be) cs)"
    using written16_even [of ?be cs] by (simp add: even_part_def)
  moreover have "\<forall>c \<in> set cs. utf16_good c" using g good_chars by blast
  then have "text_chars (utf16_next ?be) (concat (map (WRITE_UTF16 ?be) cs)) = cs" by (rule utf16.text_of_encoded)
  ultimately show "transcode e SQLITE_UTF8 (concat (map (WRITE_UTF16 ?be) cs)) = concat (map WRITE_UTF8 cs)" if "e \<noteq> SQLITE_UTF8"
    using that by (simp add: transcode_def)
qed

lemma nonzero_bytes: "c \<noteq> 0 \<Longrightarrow> c < 0x110000 \<Longrightarrow> 0 \<notin> set (WRITE_UTF8 c)"
proof -
  assume c: "c \<noteq> 0" "c < 0x110000"
  have k: "0x80 + ucast (x AND 0x3F) \<noteq> (0 :: byte)" for x :: u32
  proof
    assume "0x80 + ucast (x AND 0x3F) = (0 :: byte)"
    then show False using cont_byte(1) [of x] by simp
  qed
  have z: "\<not> (0xc0 :: byte) \<le> 0" by simp
  have "(ucast (c AND 0xFF) :: byte) \<noteq> 0" if "c < 0x80"
  proof
    have "unat c < 2 ^ 7" using that by (simp add: word_less_nat_alt)
    note b = word_bits_below [OF this]
    have "c = ucast (ucast (c AND 0xFF) :: byte)" by (rule bits32) (use b in \<open>simp add: bit_blast\<close>)
    also assume "(ucast (c AND 0xFF) :: byte) = 0"
    finally show False using c(1) by simp
  qed
  then show ?thesis
    using k [of c] k [of "drop_bit 6 c"] k [of "drop_bit 12 c"] lead_byte(1) [of "drop_bit 6 c"] lead_byte(3) [of "drop_bit 12 c"] lead_byte(5) [of "drop_bit 18 c"] z
    by (auto simp: WRITE_UTF8_def)
qed

text \<open>A stray continuation byte is read as a character of its own and takes two bytes when written: \<open>sqlite3Utf8To8\<close>
  overwrites the terminator and puts a new one behind the buffer.\<close>

lemma utf8to8_overruns: "sqlite3Utf8To8 [0x80, 0] = Fault"
  by code_simp

section \<open>Properties\<close>

text \<open>C12: The assertions of the program's own self-test hold for every character: what is written in UTF-8 or in
  either kind of UTF-16 is read back as that character (in UTF-8 as \<open>0xFFFD\<close> for surrogates and non-characters), in
  as many bytes as were written.\<close>

theorem utf_self_test:
  assumes "i < 0x110000" "5 \<le> length zBuf"
  shows "UtfSelfTest8 zBuf i = Ret True \<and> UtfSelfTest16 WRITE_UTF16LE READ_UTF16LE zBuf i = Ret True \<and>
    UtfSelfTest16 WRITE_UTF16BE READ_UTF16BE zBuf i = Ret True"
  using self_test8 [OF assms] self_test16 [OF assms, of False] self_test16 [OF assms, of True] by (simp_all add: WRITE_UTF16_def)

text \<open>C28: The number of characters of a terminated text that encodes the characters \<open>cs\<close> is the number of these.\<close>

theorem utf8_charlen:
  assumes "\<forall>c \<in> set cs. utf8_good c \<and> c \<noteq> 0" "nByte < 0"
  shows "sqlite3Utf8CharLen (concat (map WRITE_UTF8 cs) @ 0 # rest) nByte = Ret (int (length cs))"
proof -
  let ?s = "concat (map WRITE_UTF8 cs)"
  have g: "\<forall>c \<in> set cs. utf8_good c" using assms(1) by blast
  have "0 \<notin> set ?s" using assms(1) nonzero_bytes by (auto simp: utf8_good_def)
  then have "char_len (length (?s @ 0 # rest)) ([] @ ?s @ 0 # rest) nByte (int (length ([] :: byte list))) 0 =
      Ret (0 + int (length (text_chars utf8_next ?s)))"
    by (rule char_len_ok [OF _ assms(2)]) simp
  then show ?thesis using utf8.text_of_encoded [OF g] by (simp add: sqlite3Utf8CharLen_def)
qed

section \<open>Witnesses\<close>

definition sample_chars :: "u32 list" where
  "sample_chars = [0x68, 0x20AC, 0x1F600]"

lemma sample_chars_good: "\<forall>c \<in> set sample_chars. utf8_good c \<and> c \<noteq> 0"
  by (simp add: sample_chars_def utf8_good_def)

lemma sample_text: "concat (map WRITE_UTF8 sample_chars) = [0x68, 0xE2, 0x82, 0xAC, 0xF0, 0x9F, 0x98, 0x80]"
  by code_simp

theorem utf_self_test_witness:
  "UtfSelfTest8 (replicate 20 0xAA) 0x1F600 = Ret True \<and> UtfSelfTest16 WRITE_UTF16LE READ_UTF16LE (replicate 20 0xAA) 0x1F600 = Ret True \<and>
    UtfSelfTest16 WRITE_UTF16BE READ_UTF16BE (replicate 20 0xAA) 0x1F600 = Ret True"
  by (rule utf_self_test) simp_all

theorem utf8_charlen_witness:
  "sqlite3Utf8CharLen (concat (map WRITE_UTF8 sample_chars) @ 0 # [1, 2]) (- 1) = Ret (int (length sample_chars))"
  by (rule utf8_charlen [OF sample_chars_good]) simp

end
