(* ===== verification/Sqlite_Mem.thy ===== *)
theory Sqlite_Mem
  imports Sqlite_Utf
begin

unbundle bit_operations_syntax

text \<open>
  Values of SQLite (\<^verbatim>\<open>Mem\<close>, \<^verbatim>\<open>vdbemem.c\<close>) as far as they hold texts and blobs, and the translation of a value
  to another encoding (\<^verbatim>\<open>utf.c\<close>). The bytes of a value are in its own block or in an object somewhere else that
  may have a destructor; blocks are counted on the heap of the prelude, and every allocation may fail.
\<close>

section \<open>Values\<close>

abbreviation (input) SQLITE_TOOBIG :: int where "SQLITE_TOOBIG \<equiv> 18"

abbreviation (input) MEM_Null :: "16 word" where "MEM_Null \<equiv> 0x0001"
abbreviation (input) MEM_Str :: "16 word" where "MEM_Str \<equiv> 0x0002"
abbreviation (input) MEM_Int :: "16 word" where "MEM_Int \<equiv> 0x0004"
abbreviation (input) MEM_Real :: "16 word" where "MEM_Real \<equiv> 0x0008"
abbreviation (input) MEM_Blob :: "16 word" where "MEM_Blob \<equiv> 0x0010"
abbreviation (input) MEM_AffMask :: "16 word" where "MEM_AffMask \<equiv> 0x001f"
abbreviation (input) MEM_RowSet :: "16 word" where "MEM_RowSet \<equiv> 0x0020"
abbreviation (input) MEM_Frame :: "16 word" where "MEM_Frame \<equiv> 0x0040"
abbreviation (input) MEM_Term :: "16 word" where "MEM_Term \<equiv> 0x0200"
abbreviation (input) MEM_Dyn :: "16 word" where "MEM_Dyn \<equiv> 0x0400"
abbreviation (input) MEM_Static :: "16 word" where "MEM_Static \<equiv> 0x0800"
abbreviation (input) MEM_Ephem :: "16 word" where "MEM_Ephem \<equiv> 0x1000"
abbreviation (input) MEM_Agg :: "16 word" where "MEM_Agg \<equiv> 0x2000"
abbreviation (input) MEM_Zero :: "16 word" where "MEM_Zero \<equiv> 0x4000"
abbreviation (input) MEM_Subtype :: "16 word" where "MEM_Subtype \<equiv> 0x8000"

text \<open>Where \<^verbatim>\<open>z\<close> points: nowhere, to the block \<^verbatim>\<open>zMalloc\<close> of the value, or to an object elsewhere.\<close>

datatype zloc = ZNull | ZMalloc | ZExt "byte list"

record Mem =
  mem_flags :: "16 word"
  mem_enc :: int
  mem_n :: int
  mem_nZero :: int
  mem_z :: zloc
  zMalloc :: "byte list"
  szMalloc :: int

definition mem_bytes :: "Mem \<Rightarrow> byte list" where
  "mem_bytes p = (case mem_z p of ZNull \<Rightarrow> [] | ZMalloc \<Rightarrow> zMalloc p | ZExt bs \<Rightarrow> bs)"

definition put_mem :: "Mem \<Rightarrow> int \<Rightarrow> byte list \<Rightarrow> Mem cres" where
  "put_mem p off bs = cbind (wr_bytes (mem_bytes p) off bs) (\<lambda>zs.
     Ret (if mem_z p = ZMalloc then p\<lparr>zMalloc := zs\<rparr> else p\<lparr>mem_z := ZExt zs\<rparr>))"

text \<open>
  What the code calls outside: the real size of a block for \<open>n\<close> bytes (\<^verbatim>\<open>sqlite3DbMallocSize\<close>), the contents
  of a fresh block, and the finalizer of an aggregate, which gives the result code, the value that replaces
  the context, and the memory. A destructor \<^verbatim>\<open>xDel\<close> releases one block.
\<close>

record mem_env =
  block_size :: "int \<Rightarrow> int"
  junk_byte :: "nat \<Rightarrow> byte"
  xFinalize :: "Mem \<Rightarrow> heap \<Rightarrow> int \<times> Mem \<times> heap"
  rowset_clear :: "Mem \<Rightarrow> heap \<Rightarrow> heap"

definition new_block :: "mem_env \<Rightarrow> int \<Rightarrow> heap \<Rightarrow> byte list option \<times> heap" where
  "new_block E n h =
     (case c_alloc h of (ok, h) \<Rightarrow> (if ok then Some (map (junk_byte E) [0..<nat (block_size E n)]) else None, h))"

definition VdbeMemDynamic :: "Mem \<Rightarrow> bool" where
  "VdbeMemDynamic p \<longleftrightarrow> mem_flags p AND (MEM_Agg OR MEM_Dyn OR MEM_RowSet OR MEM_Frame) \<noteq> 0"

definition sqlite3VdbeMemFinalize :: "mem_env \<Rightarrow> Mem \<Rightarrow> heap \<Rightarrow> int \<times> Mem \<times> heap" where
  "sqlite3VdbeMemFinalize E p h =
     (case xFinalize E p h of (rc, t, h) \<Rightarrow> (rc, t, if 0 < szMalloc p then c_free h else h))"

text \<open>A frame goes to the list of frames to delete, which is not part of the value.\<close>

definition vdbeMemClearExternAndSetNull :: "mem_env \<Rightarrow> Mem \<Rightarrow> heap \<Rightarrow> Mem \<times> heap" where
  "vdbeMemClearExternAndSetNull E p h =
     (let (p, h) = (if mem_flags p AND MEM_Agg \<noteq> 0 then snd (sqlite3VdbeMemFinalize E p h) else (p, h));
          h = (if mem_flags p AND MEM_Dyn \<noteq> 0 then c_free h
               else if mem_flags p AND MEM_RowSet \<noteq> 0 then rowset_clear E p h else h)
      in (p\<lparr>mem_flags := MEM_Null\<rparr>, h))"

definition sqlite3VdbeMemSetNull :: "mem_env \<Rightarrow> Mem \<Rightarrow> heap \<Rightarrow> Mem \<times> heap" where
  "sqlite3VdbeMemSetNull E p h =
     (if VdbeMemDynamic p then vdbeMemClearExternAndSetNull E p h else (p\<lparr>mem_flags := MEM_Null\<rparr>, h))"

definition vdbeMemClear :: "mem_env \<Rightarrow> Mem \<Rightarrow> heap \<Rightarrow> Mem \<times> heap" where
  "vdbeMemClear E p h =
     (let (p, h) = (if VdbeMemDynamic p then vdbeMemClearExternAndSetNull E p h else (p, h));
          (p, h) = (if szMalloc p \<noteq> 0 then (p\<lparr>szMalloc := 0, zMalloc := []\<rparr>, c_free h) else (p, h))
      in (p\<lparr>mem_z := ZNull\<rparr>, h))"

definition sqlite3VdbeMemRelease :: "mem_env \<Rightarrow> Mem \<Rightarrow> heap \<Rightarrow> Mem \<times> heap" where
  "sqlite3VdbeMemRelease E p h = (if VdbeMemDynamic p \<or> szMalloc p \<noteq> 0 then vdbeMemClear E p h else (p, h))"

text \<open>The block for \<open>n\<close> bytes: whether the contents still have to be copied, and the block.\<close>

definition grow_block :: "mem_env \<Rightarrow> Mem \<Rightarrow> int \<Rightarrow> bool \<Rightarrow> heap \<Rightarrow> (bool \<times> Mem \<times> byte list option \<times> heap) cres" where
  "grow_block E p n bPreserve h =
     (if bPreserve \<and> 0 < szMalloc p \<and> mem_z p = ZMalloc
      then (case new_block E n h of
              (None, h) \<Rightarrow> Ret (False, p\<lparr>mem_z := ZNull\<rparr>, None, c_free h)
            | (Some b, h) \<Rightarrow> cbind (wr_bytes b 0 (take (length b) (zMalloc p))) (\<lambda>b. Ret (False, p, Some b, c_free h)))
      else let h = (if 0 < szMalloc p then c_free h else h)
           in case new_block E n h of (b, h) \<Rightarrow> Ret (bPreserve, p, b, h))"

definition sqlite3VdbeMemGrow :: "mem_env \<Rightarrow> Mem \<Rightarrow> int \<Rightarrow> bool \<Rightarrow> heap \<Rightarrow> (int \<times> Mem \<times> heap) cres" where
  "sqlite3VdbeMemGrow E p n bPreserve h =
     cbind (if szMalloc p < n
            then cbind (grow_block E p (if n < 32 then 32 else n) bPreserve h) (\<lambda>(bPreserve, p, b, h).
                 case b of
                   None \<Rightarrow> (case sqlite3VdbeMemSetNull E p h of
                              (p, h) \<Rightarrow> Ret (None, p\<lparr>mem_z := ZNull, szMalloc := 0, zMalloc := []\<rparr>, h))
                 | Some b \<Rightarrow> Ret (Some bPreserve, p\<lparr>zMalloc := b, szMalloc := int (length b)\<rparr>, h))
            else Ret (Some bPreserve, p, h)) (\<lambda>(go, p, h).
     case go of
       None \<Rightarrow> Ret (SQLITE_NOMEM, p, h)
     | Some bPreserve \<Rightarrow>
         cbind (if bPreserve \<and> mem_z p \<noteq> ZNull \<and> mem_z p \<noteq> ZMalloc
                then cbind (rd_bytes (mem_bytes p) 0 (mem_n p)) (\<lambda>bs.
                     cbind (wr_bytes (zMalloc p) 0 bs) (\<lambda>b. Ret (p\<lparr>zMalloc := b\<rparr>)))
                else Ret p) (\<lambda>p.
         let h = (if mem_flags p AND MEM_Dyn \<noteq> 0 then c_free h else h)
         in Ret (SQLITE_OK, p\<lparr>mem_z := ZMalloc, mem_flags := mem_flags p AND NOT (MEM_Dyn OR MEM_Ephem OR MEM_Static)\<rparr>, h)))"

definition sqlite3VdbeMemClearAndResize :: "mem_env \<Rightarrow> Mem \<Rightarrow> int \<Rightarrow> heap \<Rightarrow> (int \<times> Mem \<times> heap) cres" where
  "sqlite3VdbeMemClearAndResize E p szNew h =
     (if szMalloc p < szNew then sqlite3VdbeMemGrow E p szNew False h
      else Ret (SQLITE_OK, p\<lparr>mem_z := ZMalloc, mem_flags := mem_flags p AND (MEM_Null OR MEM_Int OR MEM_Real)\<rparr>, h))"

definition vdbeMemAddTerminator :: "mem_env \<Rightarrow> Mem \<Rightarrow> heap \<Rightarrow> (int \<times> Mem \<times> heap) cres" where
  "vdbeMemAddTerminator E p h =
     cbind (int_add (mem_n p) 2) (\<lambda>n.
     cbind (sqlite3VdbeMemGrow E p n True h) (\<lambda>(rc, p, h).
     if rc \<noteq> SQLITE_OK then Ret (SQLITE_NOMEM, p, h)
     else cbind (put_mem p (mem_n p) [0, 0]) (\<lambda>p.
          Ret (SQLITE_OK, p\<lparr>mem_flags := mem_flags p OR MEM_Term\<rparr>, h))))"

definition sqlite3VdbeMemNulTerminate :: "mem_env \<Rightarrow> Mem \<Rightarrow> heap \<Rightarrow> (int \<times> Mem \<times> heap) cres" where
  "sqlite3VdbeMemNulTerminate E p h =
     (if mem_flags p AND (MEM_Term OR MEM_Str) \<noteq> MEM_Str then Ret (SQLITE_OK, p, h)
      else vdbeMemAddTerminator E p h)"

definition sqlite3VdbeMemExpandBlob :: "mem_env \<Rightarrow> Mem \<Rightarrow> heap \<Rightarrow> (int \<times> Mem \<times> heap) cres" where
  "sqlite3VdbeMemExpandBlob E p h =
     cbind (int_add (mem_n p) (mem_nZero p)) (\<lambda>nByte.
     cbind (sqlite3VdbeMemGrow E p (if nByte \<le> 0 then 1 else nByte) True h) (\<lambda>(rc, p, h).
     if rc \<noteq> SQLITE_OK then Ret (SQLITE_NOMEM, p, h)
     else cbind (put_mem p (mem_n p) (replicate (nat (mem_nZero p)) 0)) (\<lambda>p.
          Ret (SQLITE_OK, p\<lparr>mem_n := mem_n p + mem_nZero p, mem_flags := mem_flags p AND NOT (MEM_Zero OR MEM_Term)\<rparr>, h))))"

definition sqlite3VdbeMemMakeWriteable :: "mem_env \<Rightarrow> Mem \<Rightarrow> heap \<Rightarrow> (int \<times> Mem \<times> heap) cres" where
  "sqlite3VdbeMemMakeWriteable E p h =
     cbind (if mem_flags p AND (MEM_Str OR MEM_Blob) \<noteq> 0
            then cbind (if mem_flags p AND MEM_Zero \<noteq> 0 then sqlite3VdbeMemExpandBlob E p h
                        else Ret (SQLITE_OK, p, h)) (\<lambda>(rc, p, h).
                 if rc \<noteq> SQLITE_OK then Ret (SQLITE_NOMEM, p, h)
                 else if szMalloc p = 0 \<or> mem_z p \<noteq> ZMalloc then vdbeMemAddTerminator E p h
                 else Ret (SQLITE_OK, p, h))
            else Ret (SQLITE_OK, p, h)) (\<lambda>(rc, p, h).
     if rc \<noteq> SQLITE_OK then Ret (SQLITE_NOMEM, p, h)
     else Ret (SQLITE_OK, p\<lparr>mem_flags := mem_flags p AND NOT MEM_Ephem\<rparr>, h))"

text \<open>The invariant that \<^verbatim>\<open>assert()\<close>s check; \<^verbatim>\<open>xDel\<close> is set with \<open>MEM_Dyn\<close>.\<close>

definition sqlite3VdbeCheckMemInvariants :: "Mem \<Rightarrow> bool" where
  "sqlite3VdbeCheckMemInvariants p \<longleftrightarrow>
     (mem_flags p AND MEM_Dyn = 0 \<or> szMalloc p = 0) \<and>
     mem_flags p AND (MEM_Int OR MEM_Real) \<noteq> (MEM_Int OR MEM_Real) \<and>
     (szMalloc p = 0 \<or> szMalloc p = int (length (zMalloc p))) \<and>
     (mem_flags p AND (MEM_Str OR MEM_Blob) \<noteq> 0 \<and> 0 < mem_n p \<longrightarrow>
       of_bool (0 < szMalloc p \<and> mem_z p = ZMalloc) + of_bool (mem_flags p AND MEM_Dyn \<noteq> 0) +
       of_bool (mem_flags p AND MEM_Ephem \<noteq> 0) + of_bool (mem_flags p AND MEM_Static \<noteq> 0) = (1 :: nat))"

section \<open>Translation\<close>

text \<open>Exchanging the bytes of the units from \<open>i\<close> on.\<close>

fun swap_loop :: "nat \<Rightarrow> Mem \<Rightarrow> int \<Rightarrow> int \<Rightarrow> Mem cres" where
  "swap_loop n p i zTerm =
     (if i < zTerm
      then (case n of 0 \<Rightarrow> Diverge
            | Suc n \<Rightarrow>
                cbind (rd (mem_bytes p) i) (\<lambda>temp. cbind (rd (mem_bytes p) (i + 1)) (\<lambda>b.
                cbind (put_mem p i [b, temp]) (\<lambda>p. swap_loop n p (i + 2) zTerm))))
      else Ret p)"

definition translate_swap :: "mem_env \<Rightarrow> Mem \<Rightarrow> int \<Rightarrow> heap \<Rightarrow> (int \<times> Mem \<times> heap) cres" where
  "translate_swap E p desiredEnc h =
     cbind (sqlite3VdbeMemMakeWriteable E p h) (\<lambda>(rc, p, h).
     if rc \<noteq> SQLITE_OK then Ret (SQLITE_NOMEM, p, h)
     else cbind (swap_loop (nat (mem_n p)) p 0 (mem_n p AND NOT 1)) (\<lambda>p.
          Ret (SQLITE_OK, p\<lparr>mem_enc := desiredEnc\<rparr>, h)))"

definition sqlite3VdbeMemTranslate :: "mem_env \<Rightarrow> Mem \<Rightarrow> int \<Rightarrow> heap \<Rightarrow> (int \<times> Mem \<times> heap) cres" where
  "sqlite3VdbeMemTranslate E p desiredEnc h =
     (if mem_enc p \<noteq> SQLITE_UTF8 \<and> desiredEnc \<noteq> SQLITE_UTF8 then translate_swap E p desiredEnc h
      else let p = (if desiredEnc = SQLITE_UTF8 then p\<lparr>mem_n := mem_n p AND NOT 1\<rparr> else p)
           in cbind (int_add (mem_n p) (mem_n p)) (\<lambda>len.
              cbind (int_add len (if desiredEnc = SQLITE_UTF8 then 1 else 2)) (\<lambda>len.
              case new_block E len h of
                (None, h) \<Rightarrow> Ret (SQLITE_NOMEM, p, h)
              | (Some zOut, h) \<Rightarrow>
                  cbind (translate_chars (mem_bytes p) (mem_n p) (mem_enc p) desiredEnc zOut) (\<lambda>(zOut, n).
                  cbind (wr_bytes zOut n (if mem_enc p = SQLITE_UTF8 then [0, 0] else [0])) (\<lambda>zOut.
                  let c = mem_flags p; (p, h) = sqlite3VdbeMemRelease E p h
                  in Ret (SQLITE_OK,
                       p\<lparr>mem_n := n, mem_flags := MEM_Str OR MEM_Term OR (c AND (MEM_AffMask OR MEM_Subtype)), mem_enc := desiredEnc,
                         mem_z := ZMalloc, zMalloc := zOut, szMalloc := int (length zOut)\<rparr>, h))))))"

definition sqlite3VdbeChangeEncoding :: "mem_env \<Rightarrow> Mem \<Rightarrow> int \<Rightarrow> heap \<Rightarrow> (int \<times> Mem \<times> heap) cres" where
  "sqlite3VdbeChangeEncoding E p desiredEnc h =
     (if mem_flags p AND MEM_Str = 0 \<or> mem_enc p = desiredEnc then Ret (SQLITE_OK, p, h)
      else sqlite3VdbeMemTranslate E p desiredEnc h)"

definition bom_of :: "byte \<Rightarrow> byte \<Rightarrow> int" where
  "bom_of b1 b2 = (if b1 = 0xFE \<and> b2 = 0xFF then SQLITE_UTF16BE else if b1 = 0xFF \<and> b2 = 0xFE then SQLITE_UTF16LE else 0)"

definition sqlite3VdbeMemHandleBom :: "mem_env \<Rightarrow> Mem \<Rightarrow> heap \<Rightarrow> (int \<times> Mem \<times> heap) cres" where
  "sqlite3VdbeMemHandleBom E p h =
     cbind (if 1 < mem_n p
            then cbind (rd (mem_bytes p) 0) (\<lambda>b1. cbind (rd (mem_bytes p) 1) (\<lambda>b2. Ret (bom_of b1 b2)))
            else Ret 0) (\<lambda>bom.
     if bom \<noteq> 0
     then cbind (sqlite3VdbeMemMakeWriteable E p h) (\<lambda>(rc, p, h).
          if rc = SQLITE_OK
          then let n = mem_n p - 2
               in cbind (rd_bytes (mem_bytes p) 2 n) (\<lambda>bs.
                  cbind (put_mem p 0 bs) (\<lambda>p.
                  cbind (put_mem p n [0, 0]) (\<lambda>p.
                  Ret (SQLITE_OK, p\<lparr>mem_n := n, mem_flags := mem_flags p OR MEM_Term, mem_enc := bom\<rparr>, h))))
          else Ret (rc, p, h))
     else Ret (SQLITE_OK, p, h))"

section \<open>Setting and copying values\<close>

definition sqlite3VdbeMemSetZeroBlob :: "mem_env \<Rightarrow> Mem \<Rightarrow> int \<Rightarrow> heap \<Rightarrow> Mem \<times> heap" where
  "sqlite3VdbeMemSetZeroBlob E p n h =
     (case sqlite3VdbeMemRelease E p h of (p, h) \<Rightarrow>
        (p\<lparr>mem_flags := MEM_Blob OR MEM_Zero, mem_n := 0, mem_nZero := (if n < 0 then 0 else n), mem_enc := SQLITE_UTF8, mem_z := ZNull\<rparr>, h))"

definition sqlite3VdbeMemTooBig :: "int \<Rightarrow> Mem \<Rightarrow> bool cres" where
  "sqlite3VdbeMemTooBig limit p =
     (if mem_flags p AND (MEM_Str OR MEM_Blob) \<noteq> 0
      then cbind (if mem_flags p AND MEM_Zero \<noteq> 0 then int_add (mem_n p) (mem_nZero p) else Ret (mem_n p)) (\<lambda>n. Ret (limit < n))
      else Ret False)"

text \<open>The part of a cell in front of \<^verbatim>\<open>zMalloc\<close>; what was the block of the source is an object elsewhere for the copy.\<close>

definition cell_part :: "Mem \<Rightarrow> Mem \<Rightarrow> Mem" where
  "cell_part pTo pFrom =
     pTo\<lparr>mem_nZero := mem_nZero pFrom, mem_flags := mem_flags pFrom, mem_enc := mem_enc pFrom, mem_n := mem_n pFrom,
         mem_z := (if mem_z pFrom = ZMalloc then ZExt (zMalloc pFrom) else mem_z pFrom)\<rparr>"

definition sqlite3VdbeMemShallowCopy :: "mem_env \<Rightarrow> Mem \<Rightarrow> Mem \<Rightarrow> 16 word \<Rightarrow> heap \<Rightarrow> Mem \<times> heap" where
  "sqlite3VdbeMemShallowCopy E pTo pFrom srcType h =
     (let (pTo, h) = (if VdbeMemDynamic pTo then vdbeMemClearExternAndSetNull E pTo h else (pTo, h));
          pTo = cell_part pTo pFrom
      in (if mem_flags pFrom AND MEM_Static = 0
          then pTo\<lparr>mem_flags := (mem_flags pTo AND NOT (MEM_Dyn OR MEM_Static OR MEM_Ephem)) OR srcType\<rparr> else pTo, h))"

definition sqlite3VdbeMemCopy :: "mem_env \<Rightarrow> Mem \<Rightarrow> Mem \<Rightarrow> heap \<Rightarrow> (int \<times> Mem \<times> heap) cres" where
  "sqlite3VdbeMemCopy E pTo pFrom h =
     (let (pTo, h) = (if VdbeMemDynamic pTo then vdbeMemClearExternAndSetNull E pTo h else (pTo, h));
          pTo = cell_part pTo pFrom;
          pTo = pTo\<lparr>mem_flags := mem_flags pTo AND NOT MEM_Dyn\<rparr>
      in if mem_flags pTo AND (MEM_Str OR MEM_Blob) \<noteq> 0 \<and> mem_flags pFrom AND MEM_Static = 0
         then sqlite3VdbeMemMakeWriteable E (pTo\<lparr>mem_flags := mem_flags pTo OR MEM_Ephem\<rparr>) h
         else Ret (SQLITE_OK, pTo, h))"

definition sqlite3VdbeMemMove :: "mem_env \<Rightarrow> Mem \<Rightarrow> Mem \<Rightarrow> heap \<Rightarrow> Mem \<times> Mem \<times> heap" where
  "sqlite3VdbeMemMove E pTo pFrom h =
     (case sqlite3VdbeMemRelease E pTo h of (pTo, h) \<Rightarrow> (pFrom, (cell_part pFrom pFrom)\<lparr>mem_flags := MEM_Null, szMalloc := 0, zMalloc := []\<rparr>, h))"

datatype destructor = SQLITE_STATIC | SQLITE_TRANSIENT | SQLITE_DYNAMIC | XDel

text \<open>The length of a UTF-16 text up to its terminator or past the limit.\<close>

function len16 :: "byte list \<Rightarrow> int \<Rightarrow> int \<Rightarrow> int cres" where
  "len16 z iLimit nByte =
     (if nByte \<le> iLimit
      then cbind (rd z nByte) (\<lambda>a. cbind (rd z (nByte + 1)) (\<lambda>b.
           if a OR b \<noteq> 0 then len16 z iLimit (nByte + 2) else Ret nByte))
      else Ret nByte)"
  by pat_completeness auto
termination
  by (relation "measure (\<lambda>(z, l, i). nat (int (length z) - i))") (auto simp: rd_Ret_iff)

definition str_length :: "byte list \<Rightarrow> int \<Rightarrow> int \<Rightarrow> int \<Rightarrow> int cres" where
  "str_length z n enc iLimit =
     (if n < 0
      then if enc = SQLITE_UTF8
           then cbind (sqlite3Strlen30 (Some z)) (\<lambda>nByte. if iLimit < nByte then int_add iLimit 1 else Ret nByte)
           else len16 z iLimit 0
      else Ret n)"

text \<open>Where the text goes: a result code and the flag for the way its memory is managed.\<close>

definition set_storage ::
    "mem_env \<Rightarrow> int \<Rightarrow> Mem \<Rightarrow> byte list \<Rightarrow> int \<Rightarrow> bool \<Rightarrow> int \<Rightarrow> destructor \<Rightarrow> heap \<Rightarrow> (int \<times> 16 word \<times> Mem \<times> heap) cres" where
  "set_storage E iLimit p z nByte isTerm enc xDel h =
     (case xDel of
        SQLITE_TRANSIENT \<Rightarrow>
          cbind (if isTerm then int_add nByte (if enc = SQLITE_UTF8 then 1 else 2) else Ret nByte) (\<lambda>nAlloc.
          if iLimit < nByte then Ret (SQLITE_TOOBIG, 0, p, h)
          else cbind (sqlite3VdbeMemClearAndResize E p (max nAlloc 32) h) (\<lambda>(rc, p, h).
               if rc \<noteq> SQLITE_OK then Ret (SQLITE_NOMEM, 0, p, h)
               else cbind (rd_bytes z 0 nAlloc) (\<lambda>bs. cbind (put_mem p 0 bs) (\<lambda>p. Ret (SQLITE_OK, 0, p, h)))))
      | SQLITE_DYNAMIC \<Rightarrow>
          (case sqlite3VdbeMemRelease E p h of (p, h) \<Rightarrow>
             Ret (SQLITE_OK, 0, p\<lparr>mem_z := ZMalloc, zMalloc := z, szMalloc := int (length z)\<rparr>, h))
      | _ \<Rightarrow>
          (case sqlite3VdbeMemRelease E p h of (p, h) \<Rightarrow>
             Ret (SQLITE_OK, if xDel = SQLITE_STATIC then MEM_Static else MEM_Dyn, p\<lparr>mem_z := ZExt z\<rparr>, h)))"

definition sqlite3VdbeMemSetStr ::
    "mem_env \<Rightarrow> int \<Rightarrow> Mem \<Rightarrow> byte list option \<Rightarrow> int \<Rightarrow> int \<Rightarrow> destructor \<Rightarrow> heap \<Rightarrow> (int \<times> Mem \<times> heap) cres" where
  "sqlite3VdbeMemSetStr E iLimit p z n enc xDel h =
     (case z of
        None \<Rightarrow> (case sqlite3VdbeMemSetNull E p h of (p, h) \<Rightarrow> Ret (SQLITE_OK, p, h))
      | Some z \<Rightarrow>
          cbind (str_length z n enc iLimit) (\<lambda>nByte.
          let flags = (if enc = 0 then MEM_Blob else MEM_Str) OR (if n < 0 then MEM_Term else 0)
          in cbind (set_storage E iLimit p z nByte (n < 0) enc xDel h) (\<lambda>(rc, how, p, h).
             if rc \<noteq> SQLITE_OK then Ret (rc, p, h)
             else let p = p\<lparr>mem_n := nByte, mem_flags := flags OR how, mem_enc := (if enc = 0 then SQLITE_UTF8 else enc)\<rparr>
                  in cbind (if mem_enc p \<noteq> SQLITE_UTF8 then sqlite3VdbeMemHandleBom E p h else Ret (SQLITE_OK, p, h)) (\<lambda>(rc, p, h).
                     Ret (if rc \<noteq> SQLITE_OK then SQLITE_NOMEM else if iLimit < nByte then SQLITE_TOOBIG else SQLITE_OK, p, h)))))"

definition null_mem :: Mem where
  "null_mem = \<lparr>mem_flags = 0, mem_enc = 0, mem_n = 0, mem_nZero = 0, mem_z = ZNull, zMalloc = [], szMalloc = 0\<rparr>"

text \<open>The result is the text in its block, \<open>None\<close> for a null pointer.\<close>

definition sqlite3Utf16to8 :: "mem_env \<Rightarrow> int \<Rightarrow> byte list option \<Rightarrow> int \<Rightarrow> int \<Rightarrow> heap \<Rightarrow> (byte list option \<times> heap) cres" where
  "sqlite3Utf16to8 E iLimit z nByte enc h =
     cbind (sqlite3VdbeMemSetStr E iLimit null_mem z nByte enc SQLITE_STATIC h) (\<lambda>(rc, m, h).
     cbind (sqlite3VdbeChangeEncoding E m SQLITE_UTF8 h) (\<lambda>(rc', m, h).
     if rc = SQLITE_NOMEM \<or> rc' = SQLITE_NOMEM
     then case sqlite3VdbeMemRelease E m h of (m, h) \<Rightarrow> Ret (None, h)
     else Ret (if mem_z m = ZNull then None else Some (mem_bytes m), h)))"

declare swap_loop.simps [simp del]

section \<open>Flags, well-formed values, balance\<close>

lemma flag_test: "(x AND 2 ^ k = 0) = (\<not> bit x k)" for x :: "16 word"
  by (rule and_exp_eq_0_iff_not_bit)

lemmas flag_tests = flag_test [of _ 1, simplified] flag_test [of _ 4, simplified] flag_test [of _ 5, simplified]
  flag_test [of _ 6, simplified] flag_test [of _ 9, simplified] flag_test [of _ 10, simplified] flag_test [of _ 11, simplified] flag_test [of _ 13, simplified]
  flag_test [of _ 14, simplified]

lemma VdbeMemDynamic_iff:
  "VdbeMemDynamic p = (bit (mem_flags p) 13 \<or> bit (mem_flags p) 10 \<or> bit (mem_flags p) 5 \<or> bit (mem_flags p) 6)"
  unfolding VdbeMemDynamic_def bit.conj_disj_distrib by (auto simp: flag_tests or_eq_0_iff simp del: or_numerals)

lemma string_test: "(x AND (MEM_Str OR MEM_Blob) = 0) = (\<not> bit x 1 \<and> \<not> bit x 4)" for x :: "16 word"
  unfolding bit.conj_disj_distrib by (auto simp: flag_tests or_eq_0_iff simp del: or_numerals)

text \<open>A block really has the size that was asked for; none is empty.\<close>

definition env_ok :: "mem_env \<Rightarrow> bool" where
  "env_ok E \<longleftrightarrow> (\<forall>n. n \<le> block_size E n \<and> 0 < block_size E n)"

text \<open>The blocks a value owns: its own, and a text with a destructor.\<close>

definition mem_blocks :: "Mem \<Rightarrow> int" where
  "mem_blocks p = (if szMalloc p = 0 then 0 else 1) + (if bit (mem_flags p) 10 then 1 else 0)"

definition mem_store_ok :: "Mem \<Rightarrow> bool" where
  "mem_store_ok p \<longleftrightarrow> szMalloc p = int (length (zMalloc p)) \<and> (mem_z p = ZMalloc \<longrightarrow> zMalloc p \<noteq> []) \<and>
     \<not> bit (mem_flags p) 5 \<and> \<not> bit (mem_flags p) 6 \<and> \<not> bit (mem_flags p) 13 \<and>
     (bit (mem_flags p) 10 \<longrightarrow> szMalloc p = 0 \<and> (\<exists>bs. mem_z p = ZExt bs))"

text \<open>A text or blob is in exactly one place: the block, an object with a destructor, an ephemeral or a static object.\<close>

definition one_home :: "Mem \<Rightarrow> bool" where
  "one_home p \<longleftrightarrow> of_bool (mem_z p = ZMalloc) + of_bool (bit (mem_flags p) 10) + of_bool (bit (mem_flags p) 12) +
     of_bool (bit (mem_flags p) 11) = (1 :: nat)"

lemma one_home_block: "mem_z p = ZMalloc \<Longrightarrow> one_home p = (\<not> bit (mem_flags p) 10 \<and> \<not> bit (mem_flags p) 11 \<and> \<not> bit (mem_flags p) 12)"
  by (auto simp: one_home_def)

definition mem_value_ok :: "Mem \<Rightarrow> bool" where
  "mem_value_ok p \<longleftrightarrow>
     (bit (mem_flags p) 1 \<or> bit (mem_flags p) 4 \<longrightarrow> 0 \<le> mem_n p \<and> mem_n p \<le> int (length (mem_bytes p))) \<and>
     (bit (mem_flags p) 1 \<longrightarrow> \<not> bit (mem_flags p) 4 \<and> mem_enc p \<in> {SQLITE_UTF8, SQLITE_UTF16LE, SQLITE_UTF16BE}) \<and>
     (bit (mem_flags p) 14 \<longrightarrow> bit (mem_flags p) 4 \<and> 0 \<le> mem_nZero p) \<and>
     ((bit (mem_flags p) 1 \<or> bit (mem_flags p) 4) \<and> 0 < mem_n p \<longrightarrow> one_home p) \<and>
     \<not> (bit (mem_flags p) 2 \<and> bit (mem_flags p) 3)"

text \<open>What every operation does to the storage: it stays well-formed, no block is lost, and only a failed allocation fails.\<close>

definition moves :: "Mem \<Rightarrow> heap \<Rightarrow> int \<Rightarrow> Mem \<Rightarrow> heap \<Rightarrow> bool" where
  "moves p h rc p' h' \<longleftrightarrow> mem_store_ok p' \<and> live h' - mem_blocks p' = live h - mem_blocks p \<and>
     (outcomes h = [] \<longrightarrow> outcomes h' = [] \<and> rc \<noteq> SQLITE_NOMEM)"

lemma moves_trans: "moves p h SQLITE_OK q g \<Longrightarrow> moves q g rc r k \<Longrightarrow> moves p h rc r k"
  by (auto simp: moves_def)

lemma moves_refl: "mem_store_ok p \<Longrightarrow> moves p h SQLITE_OK p h"
  by (simp add: moves_def)

lemma new_block_cases:
  assumes "env_ok E" "new_block E n h = (b, h')"
  obtains (ok) z where "b = Some z" "n \<le> int (length z)" "z \<noteq> []" "live h' = live h + 1" "outcomes h = [] \<Longrightarrow> outcomes h' = []"
  | (nomem) "b = None" "live h' = live h" "outcomes h \<noteq> []"
proof -
  obtain g k where c: "c_alloc h = (g, k)" by fastforce
  have "0 < block_size E n" "n \<le> block_size E n" using assms(1) by (auto simp: env_ok_def)
  then show ?thesis
    using assms(2) c ok nomem by (cases g) (auto simp: new_block_def c_alloc_def split: list.splits)
qed

lemma grow_block_ok:
  assumes E: "env_ok E" and s: "mem_store_ok p" and m: "szMalloc p < m"
  obtains bP p' b h' where "grow_block E p m bPreserve h = Ret (bP, p', b, h')"
    "live h' = live h - (if szMalloc p = 0 then 0 else 1) + (if b = None then 0 else 1)"
    "outcomes h = [] \<longrightarrow> outcomes h' = [] \<and> b \<noteq> None"
    "b = None \<Longrightarrow> p' = p \<or> p' = p\<lparr>mem_z := ZNull\<rparr> \<and> mem_z p = ZMalloc"
    "\<And>z. b = Some z \<Longrightarrow> p' = p \<and> m \<le> int (length z) \<and> z \<noteq> [] \<and> (bP \<longrightarrow> bPreserve \<and> mem_z p \<noteq> ZMalloc) \<and>
      (bPreserve \<and> \<not> bP \<longrightarrow> mem_z p = ZMalloc \<and> take (length (zMalloc p)) z = zMalloc p)"
proof (cases "bPreserve \<and> 0 < szMalloc p \<and> mem_z p = ZMalloc")
  case True
  obtain b g where nb: "new_block E m h = (b, g)" by fastforce
  from E nb show ?thesis
  proof (cases rule: new_block_cases)
    case (ok z)
    have "wr_bytes z 0 (take (length z) (zMalloc p)) = Ret (zMalloc p @ drop (length (zMalloc p)) z)"
      using ok(2) m s by (simp add: wr_bytes_def mem_store_ok_def)
    then show ?thesis using True nb ok m s by (intro that [of False p "Some (zMalloc p @ drop (length (zMalloc p)) z)" "c_free g"])
      (auto simp: grow_block_def mem_store_ok_def)
  next
    case nomem
    then show ?thesis using True nb by (intro that [of False "p\<lparr>mem_z := ZNull\<rparr>" None "c_free g"]) (auto simp: grow_block_def)
  qed
next
  case False
  define k where "k = (if 0 < szMalloc p then c_free h else h)"
  obtain b g where nb: "new_block E m k = (b, g)" by fastforce
  have k: "live k = live h - (if szMalloc p = 0 then 0 else 1)" "outcomes k = outcomes h" using s by (auto simp: k_def mem_store_ok_def)
  have r: "grow_block E p m bPreserve h = Ret (bPreserve, p, b, g)" using False nb by (auto simp: grow_block_def k_def [symmetric])
  from E nb show ?thesis
  proof (cases rule: new_block_cases)
    case (ok z)
    then show ?thesis using False k s by (intro that [OF r]) (auto simp: mem_store_ok_def)
  next
    case nomem
    then show ?thesis using False k by (intro that [OF r]) auto
  qed
qed

lemma SetNull_ok:
  assumes "mem_store_ok p"
  shows "sqlite3VdbeMemSetNull E p h = (p\<lparr>mem_flags := MEM_Null\<rparr>, if bit (mem_flags p) 10 then c_free h else h)"
  using assms by (auto simp: sqlite3VdbeMemSetNull_def VdbeMemDynamic_iff vdbeMemClearExternAndSetNull_def mem_store_ok_def flag_tests Let_def)

lemma Release_ok:
  assumes "mem_store_ok p"
  shows "sqlite3VdbeMemRelease E p h =
    (let g = (if bit (mem_flags p) 10 then c_free h else h)
     in if \<not> bit (mem_flags p) 10 \<and> szMalloc p = 0 then (p, h)
        else (p\<lparr>mem_flags := (if bit (mem_flags p) 10 then MEM_Null else mem_flags p), szMalloc := 0, zMalloc := [], mem_z := ZNull\<rparr>,
              if szMalloc p = 0 then g else c_free g))"
  using assms by (auto simp: sqlite3VdbeMemRelease_def vdbeMemClear_def VdbeMemDynamic_iff vdbeMemClearExternAndSetNull_def
      mem_store_ok_def flag_tests Let_def intro!: Mem.equality)

abbreviation grown :: "Mem \<Rightarrow> byte list \<Rightarrow> Mem" where
  "grown p z \<equiv> p\<lparr>zMalloc := z, szMalloc := int (length z), mem_z := ZMalloc,
     mem_flags := mem_flags p AND NOT (MEM_Dyn OR MEM_Ephem OR MEM_Static)\<rparr>"

abbreviation dropped :: "Mem \<Rightarrow> Mem" where
  "dropped p \<equiv> p\<lparr>mem_flags := MEM_Null, mem_z := ZNull, szMalloc := 0, zMalloc := []\<rparr>"

lemma Grow_ok:
  assumes E: "env_ok E" and s: "mem_store_ok p" and n: "0 < n"
    and keep: "bPreserve \<longrightarrow> 0 \<le> mem_n p \<and> mem_n p \<le> n \<and> mem_n p \<le> int (length (mem_bytes p))"
  obtains (ok) z g where "sqlite3VdbeMemGrow E p n bPreserve h = Ret (SQLITE_OK, grown p z, g)"
      "moves p h SQLITE_OK (grown p z) g" "n \<le> int (length z)"
      "bPreserve \<Longrightarrow> take (nat (mem_n p)) z = take (nat (mem_n p)) (mem_bytes p)"
  | (nomem) g where "sqlite3VdbeMemGrow E p n bPreserve h = Ret (SQLITE_NOMEM, dropped p, g)"
      "moves p h SQLITE_NOMEM (dropped p) g"
proof -
  note keep = keep [rule_format]
  have copy: thesis
    if r: "sqlite3VdbeMemGrow E p n bPreserve h =
        cbind (if b \<and> mem_z p \<noteq> ZNull \<and> mem_z p \<noteq> ZMalloc
               then cbind (rd_bytes (mem_bytes p) 0 (mem_n p)) (\<lambda>bs.
                    cbind (wr_bytes z 0 bs) (\<lambda>b. Ret (p\<lparr>zMalloc := b, szMalloc := int (length z)\<rparr>)))
               else Ret (p\<lparr>zMalloc := z, szMalloc := int (length z)\<rparr>)) (\<lambda>p.
        Ret (SQLITE_OK, p\<lparr>mem_z := ZMalloc, mem_flags := mem_flags p AND NOT (MEM_Dyn OR MEM_Ephem OR MEM_Static)\<rparr>,
          if bit (mem_flags p) 10 then c_free g else g))"
      and z: "n \<le> int (length z)"
      and g: "live g + (if bit (mem_flags p) 10 then 0 else 1) = live h + 1 + (if bit (mem_flags p) 10 then 0 else 1) - (if szMalloc p = 0 then 0 else 1)" "outcomes h = [] \<longrightarrow> outcomes g = []"
      and b: "b \<longrightarrow> bPreserve \<and> mem_z p \<noteq> ZMalloc" "bPreserve \<and> \<not> b \<longrightarrow> mem_z p = ZMalloc \<and> take (length (zMalloc p)) z = zMalloc p" for b z g
  proof -
    define bs where "bs = take (nat (mem_n p)) (mem_bytes p)"
    define z' where "z' = (if b \<and> mem_z p \<noteq> ZNull then bs @ drop (length bs) z else z)"
    have len: "length bs = nat (mem_n p)" if bPreserve using keep [OF that] by (auto simp: bs_def)
    have z': "length z' = length z" using len b(1) keep z by (auto simp: z'_def)
    have "rd_bytes (mem_bytes p) 0 (mem_n p) = Ret bs \<and> wr_bytes z 0 bs = Ret (bs @ drop (length bs) z)" if "b"
      using that b(1) keep z len by (auto simp: rd_bytes_def wr_bytes_def bs_def)
    then have r': "sqlite3VdbeMemGrow E p n bPreserve h = Ret (SQLITE_OK, grown p z', if bit (mem_flags p) 10 then c_free g else g)"
      unfolding r using z' b(1) by (auto simp: z'_def)
    show thesis
    proof (rule ok [OF r'])
      show "moves p h SQLITE_OK (grown p z') (if bit (mem_flags p) 10 then c_free g else g)"
        using g s n z z' by (auto simp: moves_def mem_store_ok_def mem_blocks_def bit_blast split: if_splits)
      show "n \<le> int (length z')" using z z' by simp
      assume bp: bPreserve
      show "take (nat (mem_n p)) z' = take (nat (mem_n p)) (mem_bytes p)"
      proof (cases b)
        case True
        then show ?thesis using b(1) bp len keep by (auto simp: z'_def bs_def mem_bytes_def split: zloc.splits)
      next
        case False
        then have m: "mem_z p = ZMalloc" "take (length (zMalloc p)) z = zMalloc p" using b(2) bp by auto
        moreover have "nat (mem_n p) \<le> length (zMalloc p)" using keep [OF bp] m(1) by (simp add: mem_bytes_def nat_le_iff)
        ultimately have "take (nat (mem_n p)) z = take (nat (mem_n p)) (zMalloc p)"
          by (metis min.absorb1 take_take)
        then show ?thesis using False m(1) by (simp add: z'_def mem_bytes_def)
      qed
    qed
  qed
  show thesis
  proof (cases "szMalloc p < n")
    case False
    show thesis
    proof (rule copy [of "bPreserve \<and> mem_z p \<noteq> ZMalloc" "zMalloc p" h])
      show "n \<le> int (length (zMalloc p))" using False s by (simp add: mem_store_ok_def)
      show "sqlite3VdbeMemGrow E p n bPreserve h =
        cbind (if (bPreserve \<and> mem_z p \<noteq> ZMalloc) \<and> mem_z p \<noteq> ZNull \<and> mem_z p \<noteq> ZMalloc
               then cbind (rd_bytes (mem_bytes p) 0 (mem_n p)) (\<lambda>bs.
                    cbind (wr_bytes (zMalloc p) 0 bs) (\<lambda>b. Ret (p\<lparr>zMalloc := b, szMalloc := int (length (zMalloc p))\<rparr>)))
               else Ret (p\<lparr>zMalloc := (zMalloc p), szMalloc := int (length (zMalloc p))\<rparr>)) (\<lambda>p.
        Ret (SQLITE_OK, p\<lparr>mem_z := ZMalloc, mem_flags := mem_flags p AND NOT (MEM_Dyn OR MEM_Ephem OR MEM_Static)\<rparr>,
          if bit (mem_flags p) 10 then c_free h else h))"
        using False s by (auto simp: sqlite3VdbeMemGrow_def mem_store_ok_def flag_tests intro!: arg_cong2 [of _ _ _ _ cbind] ext)
    qed (use False n s in \<open>auto simp: mem_store_ok_def\<close>)
  next
    case True
    define m where "m = (if n < 32 then 32 else n)"
    have m: "szMalloc p < m" "n \<le> m" using True by (auto simp: m_def)
    obtain bP p' b g where gb: "grow_block E p m bPreserve h = Ret (bP, p', b, g)"
        "live g = live h - (if szMalloc p = 0 then 0 else 1) + (if b = None then 0 else 1)"
        "outcomes h = [] \<longrightarrow> outcomes g = [] \<and> b \<noteq> None"
        "b = None \<Longrightarrow> p' = p \<or> p' = p\<lparr>mem_z := ZNull\<rparr> \<and> mem_z p = ZMalloc"
        "\<And>z. b = Some z \<Longrightarrow> p' = p \<and> m \<le> int (length z) \<and> z \<noteq> [] \<and> (bP \<longrightarrow> bPreserve \<and> mem_z p \<noteq> ZMalloc) \<and>
          (bPreserve \<and> \<not> bP \<longrightarrow> mem_z p = ZMalloc \<and> take (length (zMalloc p)) z = zMalloc p)"
      by (rule grow_block_ok [OF E s m(1), where bPreserve = bPreserve and h = h]) (rule that; assumption)
    show thesis
    proof (cases b)
      case None
      have s': "mem_store_ok p'" using gb(4) [OF None] s by (auto simp: mem_store_ok_def)
      have f: "mem_flags p' = mem_flags p" using gb(4) [OF None] by auto
      have r: "sqlite3VdbeMemGrow E p n bPreserve h = Ret (SQLITE_NOMEM, dropped p, if bit (mem_flags p) 10 then c_free g else g)"
        using True gb(1) gb(4) [OF None] None f by (auto simp: sqlite3VdbeMemGrow_def m_def [symmetric] SetNull_ok [OF s'])
      show thesis by (rule nomem [OF r]) (use gb(2,3) None in \<open>auto simp: moves_def mem_store_ok_def mem_blocks_def\<close>)
    next
      case (Some z)
      note z = gb(5) [OF Some]
      show thesis
      proof (rule copy [of bP z g])
        show "sqlite3VdbeMemGrow E p n bPreserve h =
          cbind (if bP \<and> mem_z p \<noteq> ZNull \<and> mem_z p \<noteq> ZMalloc
                 then cbind (rd_bytes (mem_bytes p) 0 (mem_n p)) (\<lambda>bs.
                      cbind (wr_bytes z 0 bs) (\<lambda>b. Ret (p\<lparr>zMalloc := b, szMalloc := int (length z)\<rparr>)))
                 else Ret (p\<lparr>zMalloc := z, szMalloc := int (length z)\<rparr>)) (\<lambda>p.
          Ret (SQLITE_OK, p\<lparr>mem_z := ZMalloc, mem_flags := mem_flags p AND NOT (MEM_Dyn OR MEM_Ephem OR MEM_Static)\<rparr>,
            if bit (mem_flags p) 10 then c_free g else g))"
          using True gb(1) z Some by (auto simp: sqlite3VdbeMemGrow_def m_def [symmetric] mem_bytes_def flag_tests split: zloc.splits intro!: arg_cong2 [of _ _ _ _ cbind] ext)
      qed (use z m gb(2,3) Some in auto)
    qed
  qed
qed

section \<open>Contents of a value\<close>

definition content :: "Mem \<Rightarrow> byte list" where
  "content p = take (nat (mem_n p)) (mem_bytes p) @ (if bit (mem_flags p) 14 then replicate (nat (mem_nZero p)) 0 else [])"

datatype cell = CNull | CText int "byte list" | CBlob "byte list"

definition cell_of :: "Mem \<Rightarrow> cell" where
  "cell_of p = (if bit (mem_flags p) 1 then CText (mem_enc p) (content p) else if bit (mem_flags p) 4 then CBlob (content p) else CNull)"

definition mem_ok :: "Mem \<Rightarrow> bool" where
  "mem_ok p \<longleftrightarrow> mem_store_ok p \<and> mem_value_ok p"

text \<open>The size every operation may work on without an overflow.\<close>

definition mem_small :: "Mem \<Rightarrow> bool" where
  "mem_small p \<longleftrightarrow> int (length (content p)) + 2 < 2 ^ 31"

lemma put_mem_ok:
  assumes "mem_z p = ZMalloc" "0 \<le> off" "off + int (length bs) \<le> int (length (zMalloc p))"
  shows "put_mem p off bs = Ret (p\<lparr>zMalloc := take (nat off) (zMalloc p) @ bs @ drop (nat off + length bs) (zMalloc p)\<rparr>)"
  using assms by (simp add: put_mem_def wr_bytes_def mem_bytes_def)

lemma moves_put:
  "moves p h rc q g \<Longrightarrow> length z = length (zMalloc q) \<Longrightarrow> moves p h rc (q\<lparr>zMalloc := z\<rparr>) g"
  by (auto simp: moves_def mem_store_ok_def mem_blocks_def)

lemma grown_put: "length z' = length z \<Longrightarrow> (grown p z)\<lparr>zMalloc := z'\<rparr> = grown p z'"
  by (cases p) simp

lemma moves_flags:
  "moves p h rc q g \<Longrightarrow> mem_z q = ZMalloc \<Longrightarrow> \<forall>k \<in> {5, 6, 10, 13}. \<not> bit f k \<Longrightarrow> \<forall>k \<in> {5, 6, 10, 13}. \<not> bit (mem_flags q) k \<Longrightarrow>
   moves p h rc (q\<lparr>mem_n := n, mem_flags := f\<rparr>) g"
  by (auto simp: moves_def mem_store_ok_def mem_blocks_def)

lemma dropped_ok: "mem_value_ok (dropped p)" "cell_of (dropped p) = CNull"
  by (simp_all add: mem_value_ok_def cell_of_def)

lemma moves_term: "moves p h rc q g \<Longrightarrow> moves p h rc (q\<lparr>mem_flags := mem_flags q OR MEM_Term\<rparr>) g"
  by (auto simp: moves_def mem_store_ok_def mem_blocks_def bit_blast)

lemma AddTerminator_ok:
  assumes E: "env_ok E" and s: "mem_store_ok p" and n: "0 \<le> mem_n p" "mem_n p \<le> int (length (mem_bytes p))" "mem_n p + 2 < 2 ^ 31"
  obtains (ok) z g where
      "vdbeMemAddTerminator E p h = Ret (SQLITE_OK, grown p z\<lparr>mem_flags := mem_flags (grown p z) OR MEM_Term\<rparr>, g)"
      "moves p h SQLITE_OK (grown p z\<lparr>mem_flags := mem_flags (grown p z) OR MEM_Term\<rparr>) g"
      "\<exists>zs. z = take (nat (mem_n p)) (mem_bytes p) @ [0, 0] @ zs"
  | (nomem) g where "vdbeMemAddTerminator E p h = Ret (SQLITE_NOMEM, dropped p, g)" "moves p h SQLITE_NOMEM (dropped p) g"
proof -
  have a: "int_add (mem_n p) 2 = Ret (mem_n p + 2)" using n by (simp add: int_add_def)
  have n2: "0 < mem_n p + 2" and k: "True \<longrightarrow> 0 \<le> mem_n p \<and> mem_n p \<le> mem_n p + 2 \<and> mem_n p \<le> int (length (mem_bytes p))" using n by auto
  from E s n2 k show thesis
  proof (cases rule: Grow_ok [where bPreserve = True and h = h])
    case (ok z g)
    let ?z = "take (nat (mem_n p)) (mem_bytes p) @ [0, 0] @ drop (nat (mem_n p) + 2) z"
    have "put_mem (grown p z) (mem_n (grown p z)) [0, 0] = Ret (grown p z\<lparr>zMalloc := ?z\<rparr>)"
      by (subst put_mem_ok) (use ok n in auto)
    moreover have len: "length ?z = length z" using ok(3) n by auto
    note calculation [unfolded grown_put [OF len]]
    ultimately have r: "vdbeMemAddTerminator E p h = Ret (SQLITE_OK, grown p ?z\<lparr>mem_flags := mem_flags (grown p ?z) OR MEM_Term\<rparr>, g)"
      using a ok(1) unfolding vdbeMemAddTerminator_def by simp
    have "moves p h SQLITE_OK (grown p z\<lparr>zMalloc := ?z\<rparr>) g" by (rule moves_put [OF ok(2)]) (use len in simp)
    then have "moves p h SQLITE_OK (grown p ?z) g" unfolding grown_put [OF len] .
    from moves_term [OF this] show thesis by (intro that(1) [OF r]) auto
  next
    case (nomem g)
    then show thesis using a by (intro that(2) [of g]) (simp_all add: vdbeMemAddTerminator_def)
  qed
qed

lemma ExpandBlob_ok:
  assumes E: "env_ok E" and s: "mem_store_ok p" and b: "bit (mem_flags p) 14"
    and n: "0 \<le> mem_n p" "mem_n p \<le> int (length (mem_bytes p))" "0 \<le> mem_nZero p" "mem_n p + mem_nZero p + 2 < 2 ^ 31"
  obtains (ok) z f g where
      "sqlite3VdbeMemExpandBlob E p h = Ret (SQLITE_OK, grown p z\<lparr>mem_n := mem_n p + mem_nZero p, mem_flags := f\<rparr>, g)"
      "moves p h SQLITE_OK (grown p z\<lparr>mem_n := mem_n p + mem_nZero p, mem_flags := f\<rparr>) g"
      "f = mem_flags (grown p z) AND NOT (MEM_Zero OR MEM_Term)"
      "\<exists>zs. z = content p @ zs"
  | (nomem) g where "sqlite3VdbeMemExpandBlob E p h = Ret (SQLITE_NOMEM, dropped p, g)" "moves p h SQLITE_NOMEM (dropped p) g"
proof -
  let ?n = "if mem_n p + mem_nZero p \<le> 0 then 1 else mem_n p + mem_nZero p"
  have a: "int_add (mem_n p) (mem_nZero p) = Ret (mem_n p + mem_nZero p)" using n by (simp add: int_add_def)
  have n2: "0 < ?n" and k: "True \<longrightarrow> 0 \<le> mem_n p \<and> mem_n p \<le> ?n \<and> mem_n p \<le> int (length (mem_bytes p))" using n by auto
  from E s n2 k show thesis
  proof (cases rule: Grow_ok [where bPreserve = True and h = h])
    case (ok z g)
    let ?nz = "replicate (nat (mem_nZero p)) 0"
    let ?z = "take (nat (mem_n p)) (mem_bytes p) @ ?nz @ drop (nat (mem_n p) + nat (mem_nZero p)) z"
    let ?f = "mem_flags (grown p ?z) AND NOT (MEM_Zero OR MEM_Term)"
    have z: "mem_n p + mem_nZero p \<le> int (length z)" using ok(3) by (simp split: if_splits)
    have len: "length ?z = length z" using z n(1-3) by simp
    have "take (nat (mem_n p)) z = take (nat (mem_n p)) (mem_bytes p)" using ok(4) by simp
    then have "put_mem (grown p z) (mem_n (grown p z)) ?nz = Ret (grown p z\<lparr>zMalloc := ?z\<rparr>)"
      by (subst put_mem_ok) (use z n(1,3) in simp_all)
    then have w: "put_mem (grown p z) (mem_n (grown p z)) ?nz = Ret (grown p ?z)" unfolding grown_put [OF len] .
    have r: "sqlite3VdbeMemExpandBlob E p h = Ret (SQLITE_OK, grown p ?z\<lparr>mem_n := mem_n p + mem_nZero p, mem_flags := ?f\<rparr>, g)"
      unfolding sqlite3VdbeMemExpandBlob_def a cbind.simps ok(1) using w by simp
    have "moves p h SQLITE_OK (grown p z\<lparr>zMalloc := ?z\<rparr>) g" by (rule moves_put [OF ok(2)]) (use len in simp)
    then have m: "moves p h SQLITE_OK (grown p ?z) g" unfolding grown_put [OF len] .
    have "\<forall>k \<in> {5, 6, 10, 13}. \<not> bit (mem_flags (grown p ?z)) k" "\<forall>k \<in> {5, 6, 10, 13}. \<not> bit ?f k"
      using s m by (simp_all add: mem_store_ok_def moves_def bit_blast)
    then have "moves p h SQLITE_OK (grown p ?z\<lparr>mem_n := mem_n p + mem_nZero p, mem_flags := ?f\<rparr>) g"
      by (intro moves_flags [OF m]) simp_all
    then show thesis using b by (intro that(1) [OF r]) (auto simp: content_def)
  next
    case (nomem g)
    then show thesis using a by (intro that(2) [of g]) (simp_all add: sqlite3VdbeMemExpandBlob_def)
  qed
qed

lemma content_length:
  "mem_value_ok p \<Longrightarrow> bit (mem_flags p) 1 \<or> bit (mem_flags p) 4 \<Longrightarrow>
   int (length (content p)) = mem_n p + (if bit (mem_flags p) 14 then mem_nZero p else 0)"
  by (auto simp: mem_value_ok_def content_def)

text \<open>A value whose own block starts with the contents of another value of the same kind.\<close>

definition holds :: "Mem \<Rightarrow> Mem \<Rightarrow> bool" where
  "holds q p \<longleftrightarrow> mem_z q = ZMalloc \<and> (\<exists>zs. zMalloc q = content p @ zs) \<and> mem_n q = int (length (content p)) \<and>
     \<not> bit (mem_flags q) 14 \<and> \<not> bit (mem_flags q) 10 \<and> bit (mem_flags q) 1 = bit (mem_flags p) 1 \<and>
     bit (mem_flags q) 4 = bit (mem_flags p) 4 \<and> bit (mem_flags q) 2 = bit (mem_flags p) 2 \<and> bit (mem_flags q) 3 = bit (mem_flags p) 3 \<and>
     (0 < mem_n q \<longrightarrow> \<not> bit (mem_flags q) 11 \<and> \<not> bit (mem_flags q) 12) \<and> mem_enc q = mem_enc p"

lemma holds_ok:
  assumes h: "holds q p" and v: "mem_value_ok p"
  shows "mem_value_ok q \<and> content q = content p \<and> cell_of q = cell_of p"
proof -
  obtain zs where zs: "zMalloc q = content p @ zs" using h by (auto simp: holds_def)
  have q: "mem_z q = ZMalloc" "mem_n q = int (length (content p))" "\<not> bit (mem_flags q) 14" "\<not> bit (mem_flags q) 10"
      "bit (mem_flags q) 1 = bit (mem_flags p) 1" "bit (mem_flags q) 4 = bit (mem_flags p) 4" "mem_enc q = mem_enc p"
      "bit (mem_flags q) 2 = bit (mem_flags p) 2" "bit (mem_flags q) 3 = bit (mem_flags p) 3"
      "0 < mem_n q \<longrightarrow> \<not> bit (mem_flags q) 11 \<and> \<not> bit (mem_flags q) 12" using h unfolding holds_def by blast+
  have mb: "mem_bytes q = content p @ zs" using q(1) zs by (simp add: mem_bytes_def)
  have c: "content q = content p" unfolding content_def [of q] mb using q(2,3) by simp
  have "0 \<le> mem_n q" "mem_n q \<le> int (length (mem_bytes q))" unfolding mb q(2) by simp_all
  moreover have "bit (mem_flags p) 1 \<longrightarrow> \<not> bit (mem_flags p) 4 \<and> mem_enc p \<in> {SQLITE_UTF8, SQLITE_UTF16LE, SQLITE_UTF16BE}"
      "\<not> (bit (mem_flags p) 2 \<and> bit (mem_flags p) 3)" using v by (simp_all add: mem_value_ok_def)
  ultimately have "mem_value_ok q" unfolding mem_value_ok_def one_home_block [OF q(1)] q(5-9) using q(3,4,10) by blast
  then show ?thesis using c q by (simp add: cell_of_def)
qed

lemma AddTerminator_holds:
  assumes E: "env_ok E" and p: "mem_store_ok p" "mem_value_ok p" "bit (mem_flags p) 1 \<or> bit (mem_flags p) 4" "\<not> bit (mem_flags p) 14"
    and n: "mem_small p"
  obtains (ok) q g where "vdbeMemAddTerminator E p h = Ret (SQLITE_OK, q, g)" "moves p h SQLITE_OK q g" "holds q p"
      "\<exists>zs. zMalloc q = content p @ [0, 0] @ zs"
  | (nomem) g where "vdbeMemAddTerminator E p h = Ret (SQLITE_NOMEM, dropped p, g)" "moves p h SQLITE_NOMEM (dropped p) g"
proof -
  have n1: "0 \<le> mem_n p" "mem_n p \<le> int (length (mem_bytes p))" using p by (auto simp: mem_value_ok_def)
  have n2: "mem_n p + 2 < 2 ^ 31" using content_length [OF p(2,3)] n p(4) by (simp add: mem_small_def)
  have c: "content p = take (nat (mem_n p)) (mem_bytes p)" using p(4) by (simp add: content_def)
  from E p(1) n1 n2 show thesis
  proof (cases rule: AddTerminator_ok [where h = h])
    case (ok z g)
    show thesis by (rule that(1) [OF ok(1,2)]) (use ok(3) c n1 p(4) in \<open>auto simp: holds_def bit_blast\<close>)
  next
    case nomem
    then show thesis by (rule that(2))
  qed
qed

lemma ExpandBlob_holds:
  assumes E: "env_ok E" and p: "mem_store_ok p" "mem_value_ok p" "bit (mem_flags p) 14" and n: "mem_small p"
  obtains (ok) q g where "sqlite3VdbeMemExpandBlob E p h = Ret (SQLITE_OK, q, g)" "moves p h SQLITE_OK q g" "holds q p"
  | (nomem) g where "sqlite3VdbeMemExpandBlob E p h = Ret (SQLITE_NOMEM, dropped p, g)" "moves p h SQLITE_NOMEM (dropped p) g"
proof -
  have b4: "bit (mem_flags p) 1 \<or> bit (mem_flags p) 4" using p by (auto simp: mem_value_ok_def)
  have n1: "0 \<le> mem_n p" "mem_n p \<le> int (length (mem_bytes p))" "0 \<le> mem_nZero p" using p by (auto simp: mem_value_ok_def)
  have n2: "mem_n p + mem_nZero p + 2 < 2 ^ 31" using content_length [OF p(2) b4] n p(3) by (simp add: mem_small_def)
  from E p(1,3) n1 n2 show thesis
  proof (cases rule: ExpandBlob_ok [where h = h])
    case (ok z f g)
    have "int (length (content p)) = mem_n p + mem_nZero p" using content_length [OF p(2) b4] p(3) by simp
    moreover have "\<not> bit f 14 \<and> \<not> bit f 10 \<and> \<not> bit f 11 \<and> \<not> bit f 12 \<and> bit f 1 = bit (mem_flags p) 1 \<and>
        bit f 4 = bit (mem_flags p) 4 \<and> bit f 2 = bit (mem_flags p) 2 \<and> bit f 3 = bit (mem_flags p) 3"
      unfolding ok(3) by (simp add: bit_blast)
    ultimately show thesis by (intro that(1) [OF ok(1,2)]) (use ok(4) in \<open>auto simp: holds_def\<close>)
  next
    case nomem
    then show thesis by (rule that(2))
  qed
qed

lemma moves_ephem:
  "moves p h rc q g \<Longrightarrow> moves p h rc (q\<lparr>mem_flags := mem_flags q AND NOT MEM_Ephem\<rparr>) g"
  by (auto simp: moves_def mem_store_ok_def mem_blocks_def bit_blast)

lemma mem_bytes_flags [simp]: "mem_bytes (q\<lparr>mem_flags := f\<rparr>) = mem_bytes q"
  by (simp add: mem_bytes_def split: zloc.split)

lemma content_flags: "bit f 14 = bit (mem_flags q) 14 \<Longrightarrow> content (q\<lparr>mem_flags := f\<rparr>) = content q"
  by (simp add: content_def)

lemma ephem_cell:
  "mem_value_ok q \<Longrightarrow> \<not> bit (mem_flags q) 1 \<and> \<not> bit (mem_flags q) 4 \<Longrightarrow> mem_value_ok (q\<lparr>mem_flags := mem_flags q AND NOT MEM_Ephem\<rparr>)" "cell_of (q\<lparr>mem_flags := mem_flags q AND NOT MEM_Ephem\<rparr>) = cell_of q"
  "holds q p \<Longrightarrow> holds (q\<lparr>mem_flags := mem_flags q AND NOT MEM_Ephem\<rparr>) p"
  by (simp_all add: mem_value_ok_def cell_of_def content_flags holds_def bit_blast)

lemma holds_self:
  "mem_value_ok p \<Longrightarrow> mem_z p = ZMalloc \<Longrightarrow> mem_store_ok p \<Longrightarrow> bit (mem_flags p) 1 \<or> bit (mem_flags p) 4 \<Longrightarrow> \<not> bit (mem_flags p) 14 \<Longrightarrow> holds p p"
  by (auto simp: holds_def content_def mem_value_ok_def mem_bytes_def mem_store_ok_def one_home_block intro!: exI [of _ "drop (nat (mem_n p)) (zMalloc p)"])

lemma holds_trans: "holds r q \<Longrightarrow> holds q p \<Longrightarrow> mem_value_ok p \<Longrightarrow> holds r p"
  using holds_ok [of q p] by (auto simp: holds_def)

text \<open>The value is in its own block afterwards; without a block to be had it is null.\<close>

lemma MakeWriteable_ok:
  assumes E: "env_ok E" and p: "mem_store_ok p" "mem_value_ok p" "bit (mem_flags p) 1 \<or> bit (mem_flags p) 4" and n: "mem_small p"
  obtains (ok) q g where "sqlite3VdbeMemMakeWriteable E p h = Ret (SQLITE_OK, q, g)" "moves p h SQLITE_OK q g" "holds q p"
  | (nomem) q g where "sqlite3VdbeMemMakeWriteable E p h = Ret (SQLITE_NOMEM, q, g)" "moves p h SQLITE_NOMEM q g" "mem_value_ok q" "cell_of q = CNull"
proof -
  have str: "mem_flags p AND (MEM_Str OR MEM_Blob) \<noteq> 0" using p(3) string_test [of "mem_flags p"] by blast
  show thesis
  proof (cases "bit (mem_flags p) 14")
    case True
    from E p(1,2) True n show thesis
    proof (cases rule: ExpandBlob_holds [where h = h])
      case (ok q g)
      have "szMalloc q \<noteq> 0" "mem_z q = ZMalloc" using ok(2,3) by (auto simp: moves_def mem_store_ok_def holds_def)
      then have "sqlite3VdbeMemMakeWriteable E p h = Ret (SQLITE_OK, q\<lparr>mem_flags := mem_flags q AND NOT MEM_Ephem\<rparr>, g)"
        using str True ok(1) by (simp add: sqlite3VdbeMemMakeWriteable_def flag_tests del: or_numerals)
      then show thesis by (rule that(1)) (use ok(3) moves_ephem [OF ok(2)] ephem_cell in auto)
    next
      case (nomem g)
      show thesis
        by (rule that(2) [of "dropped p" g]) (use str True nomem dropped_ok in \<open>simp_all add: sqlite3VdbeMemMakeWriteable_def flag_tests del: or_numerals\<close>)
    qed
  next
    case False
    show thesis
    proof (cases "szMalloc p = 0 \<or> mem_z p \<noteq> ZMalloc")
      case True
      from E p False n show thesis
      proof (cases rule: AddTerminator_holds [where h = h])
        case (ok q g)
        have "sqlite3VdbeMemMakeWriteable E p h = Ret (SQLITE_OK, q\<lparr>mem_flags := mem_flags q AND NOT MEM_Ephem\<rparr>, g)"
          using str False True ok(1) by (simp add: sqlite3VdbeMemMakeWriteable_def flag_tests del: or_numerals)
        then show thesis by (rule that(1)) (use ok(3) moves_ephem [OF ok(2)] ephem_cell in auto)
      next
        case (nomem g)
        show thesis
          by (rule that(2) [of "dropped p" g]) (use str True False nomem dropped_ok in \<open>simp_all add: sqlite3VdbeMemMakeWriteable_def flag_tests del: or_numerals\<close>)
      qed
    next
      case in_block: False
      have "sqlite3VdbeMemMakeWriteable E p h = Ret (SQLITE_OK, p\<lparr>mem_flags := mem_flags p AND NOT MEM_Ephem\<rparr>, h)"
        using str False in_block by (simp add: sqlite3VdbeMemMakeWriteable_def flag_tests del: or_numerals)
      then show thesis
        by (rule that(1)) (use moves_ephem [OF moves_refl [OF p(1)]] ephem_cell holds_self [OF p(2) _ p(1,3) False] in_block in auto)
    qed
  qed
qed

lemma swap_loop_ok:
  "mem_z p = ZMalloc \<Longrightarrow> zMalloc p = pre @ s @ zs \<Longrightarrow> even (length s) \<Longrightarrow> length s \<le> 2 * n \<Longrightarrow>
   swap_loop n p (int (length pre)) (int (length pre + length s)) = Ret (p\<lparr>zMalloc := pre @ swap_pairs s @ zs\<rparr>)"
proof (induction s arbitrary: n p pre rule: swap_pairs.induct)
  case (1 a b s)
  obtain m where m: "n = Suc m" "length s \<le> 2 * m" using 1(5) by (cases n) auto
  let ?p = "p\<lparr>zMalloc := (pre @ [b, a]) @ s @ zs\<rparr>"
  have r: "rd (mem_bytes p) (int (length pre)) = Ret a" "rd (mem_bytes p) (int (length pre) + 1) = Ret b"
    using rd_app [of pre a "b # s @ zs"] rd_app [of "pre @ [a]" b "s @ zs"] 1(2,3) by (simp_all add: mem_bytes_def add.commute)
  have w: "put_mem p (int (length pre)) [b, a] = Ret ?p" using 1(2,3) by (subst put_mem_ok) simp_all
  have "swap_loop m ?p (int (length (pre @ [b, a]))) (int (length (pre @ [b, a]) + length s)) =
      Ret (?p\<lparr>zMalloc := (pre @ [b, a]) @ swap_pairs s @ zs\<rparr>)"
    by (rule 1(1)) (use 1(2-4) m in auto)
  then have "swap_loop m ?p (int (length pre) + 2) (int (length pre + length (a # b # s))) = Ret (p\<lparr>zMalloc := pre @ swap_pairs (a # b # s) @ zs\<rparr>)"
    by (simp add: add.commute add.left_commute)
  then show ?case unfolding m(1) by (subst swap_loop.simps) (simp add: r w)
qed (subst swap_loop.simps, simp)+

lemma text_facts:
  assumes "mem_value_ok p" "bit (mem_flags p) 1"
  shows "\<not> bit (mem_flags p) 4" "\<not> bit (mem_flags p) 14" "0 \<le> mem_n p" "mem_n p \<le> int (length (mem_bytes p))"
    "content p = take (nat (mem_n p)) (mem_bytes p)" "int (length (content p)) = mem_n p" "mem_enc p \<in> {SQLITE_UTF8, SQLITE_UTF16LE, SQLITE_UTF16BE}"
  using assms by (auto simp: mem_value_ok_def content_def)

lemma swap_pairs_split: "even (length a) \<Longrightarrow> length b \<le> 1 \<Longrightarrow> swap_pairs (a @ b) = swap_pairs a @ b"
proof (induction a rule: swap_pairs.induct)
  case "2_1"
  then show ?case by (cases b) auto
qed auto

lemma holds_rewrite:
  "holds q p \<Longrightarrow> zMalloc q = content p @ zs \<Longrightarrow> length s = length (content p) \<Longrightarrow> mem_value_ok p \<Longrightarrow> bit (mem_flags p) 1 \<Longrightarrow> des \<in> {SQLITE_UTF8, SQLITE_UTF16LE, SQLITE_UTF16BE} \<Longrightarrow>
   mem_value_ok (q\<lparr>zMalloc := s @ zs, mem_enc := des\<rparr>) \<and> cell_of (q\<lparr>zMalloc := s @ zs, mem_enc := des\<rparr>) = CText des s"
  by (auto simp: holds_def mem_value_ok_def content_def [of "q\<lparr>zMalloc := s @ zs, mem_enc := des\<rparr>"] mem_bytes_def cell_of_def one_home_block)

lemma moves_same:
  "moves p h rc q g \<Longrightarrow> mem_flags r = mem_flags q \<Longrightarrow> mem_z r = mem_z q \<Longrightarrow> zMalloc r = zMalloc q \<Longrightarrow> szMalloc r = szMalloc q \<Longrightarrow>
   moves p h rc r g"
proof -
  assume q: "moves p h rc q g" and r: "mem_flags r = mem_flags q" "mem_z r = mem_z q" "zMalloc r = zMalloc q" "szMalloc r = szMalloc q"
  have "mem_store_ok r = mem_store_ok q" "mem_blocks r = mem_blocks q" unfolding mem_store_ok_def mem_blocks_def r by (rule refl)+
  then show ?thesis using q unfolding moves_def by argo
qed

lemma translate_swap_ok:
  assumes E: "env_ok E" and p: "mem_store_ok p" "mem_value_ok p" "bit (mem_flags p) 1" and n: "mem_small p"
    and des: "des \<in> {SQLITE_UTF8, SQLITE_UTF16LE, SQLITE_UTF16BE}"
  obtains (ok) q g where "translate_swap E p des h = Ret (SQLITE_OK, q, g)" "moves p h SQLITE_OK q g" "mem_value_ok q"
      "cell_of q = CText des (swap_pairs (content p))"
  | (nomem) q g where "translate_swap E p des h = Ret (SQLITE_NOMEM, q, g)" "moves p h SQLITE_NOMEM q g" "mem_value_ok q" "cell_of q = CNull"
proof -
  have b: "bit (mem_flags p) 1 \<or> bit (mem_flags p) 4" using p(3) by blast
  from E p(1,2) b n show thesis
  proof (cases rule: MakeWriteable_ok [where h = h])
    case (ok q g)
    obtain zs where z: "zMalloc q = content p @ zs" using ok(3) by (auto simp: holds_def)
    let ?s = "even_part (content p)" and ?r = "drop (length (content p) - length (content p) mod 2) (content p)"
    have split: "content p = ?s @ ?r" by (simp add: even_part_def)
    have nq: "mem_z q = ZMalloc" "mem_n q = int (length (content p))" using ok(3) by (auto simp: holds_def)
    have lim: "mem_n q AND NOT 1 = int (length ?s)"
      unfolding nq(2) and_not_1 even_part_ok(1) by (simp add: of_nat_diff of_nat_mod)
    have "swap_loop (nat (mem_n q)) q (int (length ([] :: byte list))) (int (length ([] :: byte list) + length ?s)) =
        Ret (q\<lparr>zMalloc := [] @ swap_pairs ?s @ (?r @ zs)\<rparr>)"
    proof (rule swap_loop_ok [OF nq(1)])
      show "zMalloc q = [] @ ?s @ (?r @ zs)" unfolding z using split by (metis append.assoc append_Nil)
      show "even (length ?s)" by (rule even_part_ok)
      show "length ?s \<le> 2 * nat (mem_n q)" unfolding nq(2) even_part_ok(1) by simp
    qed
    moreover have "length ?r \<le> 1" by simp
    then have "swap_pairs ?s @ (?r @ zs) = swap_pairs (content p) @ zs"
      using swap_pairs_split [OF even_part_ok(2), of ?r "content p"] split by simp
    ultimately have r: "translate_swap E p des h = Ret (SQLITE_OK, q\<lparr>zMalloc := swap_pairs (content p) @ zs, mem_enc := des\<rparr>, g)"
      using ok(1) lim by (simp add: translate_swap_def)
    have "moves p h SQLITE_OK (q\<lparr>zMalloc := swap_pairs (content p) @ zs, mem_enc := des\<rparr>) g"
      by (rule moves_same [OF moves_put [OF ok(2), of "swap_pairs (content p) @ zs"]]) (simp_all add: z swap_pairs_length)
    then show thesis using holds_rewrite [OF ok(3) z _ p(2,3) des, of "swap_pairs (content p)"] by (intro that(1) [OF r]) (simp_all add: swap_pairs_length)
  next
    case (nomem q g)
    then show thesis by (intro that(2) [of q g]) (simp_all add: translate_swap_def)
  qed
qed

lemma Release_live:
  assumes "mem_store_ok p" "sqlite3VdbeMemRelease E p h = (q, g)"
  shows "live g = live h - mem_blocks p" "outcomes g = outcomes h"
  using assms by (auto simp: Release_ok mem_blocks_def Let_def split: if_splits)

lemma Release_cell:
  assumes "mem_store_ok p" "sqlite3VdbeMemRelease E p h = (q, g)"
  shows "\<exists>f z. q = p\<lparr>mem_flags := f, szMalloc := 0, zMalloc := [], mem_z := z\<rparr>"
proof -
  have "szMalloc p = 0 \<Longrightarrow> zMalloc p = []" using assms(1) by (simp add: mem_store_ok_def)
  then show ?thesis using assms by (cases p) (auto simp: Release_ok Let_def split: if_splits)
qed

lemma translate_flags:
  "bit (MEM_Str OR MEM_Term OR (c AND (MEM_AffMask OR MEM_Subtype))) (Suc 0)"
  "bit (MEM_Str OR MEM_Term OR (c AND (MEM_AffMask OR MEM_Subtype))) 4 = bit c 4"
  "k \<in> {2, 3} \<Longrightarrow> bit (MEM_Str OR MEM_Term OR (c AND (MEM_AffMask OR MEM_Subtype))) k = bit c k"
  "k \<in> {5, 6, 10, 11, 12, 13, 14} \<Longrightarrow> \<not> bit (MEM_Str OR MEM_Term OR (c AND (MEM_AffMask OR MEM_Subtype))) k" for c :: "16 word"
  by (auto simp add: bit_blast)

lemma Translate_ok:
  assumes E: "env_ok E" and p: "mem_store_ok p" "mem_value_ok p" "bit (mem_flags p) 1" and n: "mem_n p \<le> 2 ^ 30 - 2"
    and des: "des \<in> {SQLITE_UTF8, SQLITE_UTF16LE, SQLITE_UTF16BE}" "des \<noteq> mem_enc p"
  obtains (ok) q g where "sqlite3VdbeMemTranslate E p des h = Ret (SQLITE_OK, q, g)" "moves p h SQLITE_OK q g" "mem_value_ok q"
      "cell_of q = CText des (transcode (mem_enc p) des (content p))"
      "mem_enc p = SQLITE_UTF8 \<or> des = SQLITE_UTF8 \<Longrightarrow> mem_z q = ZMalloc \<and> (\<exists>zs. zMalloc q =
         transcode (mem_enc p) des (content p) @ (if des = SQLITE_UTF8 then [0] else [0, 0]) @ zs)"
  | (nomem) q g where "sqlite3VdbeMemTranslate E p des h = Ret (SQLITE_NOMEM, q, g)" "moves p h SQLITE_NOMEM q g" "mem_value_ok q"
      "cell_of q = (if mem_enc p \<noteq> SQLITE_UTF8 \<and> des \<noteq> SQLITE_UTF8 then CNull
         else CText (mem_enc p) (if des = SQLITE_UTF8 then even_part (content p) else content p))"
proof (cases "mem_enc p \<noteq> SQLITE_UTF8 \<and> des \<noteq> SQLITE_UTF8")
  case True
  note t = text_facts [OF p(2,3)]
  have s: "mem_small p" using t(6) n by (simp add: mem_small_def)
  have tr: "transcode (mem_enc p) des (content p) = swap_pairs (content p)" using True by (simp add: transcode_def)
  have d: "sqlite3VdbeMemTranslate E p des h = translate_swap E p des h" using True by (simp add: sqlite3VdbeMemTranslate_def)
  from E p s des(1) show thesis
  proof (cases rule: translate_swap_ok [where h = h])
    case (ok q g)
    then show thesis using that(1) [of q g] tr d True by simp
  next
    case (nomem q g)
    then show thesis using that(2) [of q g] d True by simp
  qed
next
  case False
  note t = text_facts [OF p(2,3)]
  let ?enc = "mem_enc p" and ?out = "transcode (mem_enc p) des (content p)"
  define m where "m = (if des = SQLITE_UTF8 then length (even_part (content p)) else length (content p))"
  define p' where "p' = p\<lparr>mem_n := int m\<rparr>"
  have m: "m \<le> length (content p)" "des = SQLITE_UTF8 \<longrightarrow> even m" using even_part_ok [of "content p"] by (auto simp: m_def)
  have p'_eq: "(if des = SQLITE_UTF8 then p\<lparr>mem_n := mem_n p AND NOT 1\<rparr> else p) = p'"
  proof (cases "des = SQLITE_UTF8")
    case True
    have "mem_n p AND NOT 1 = int m" unfolding t(6) [symmetric] and_not_1 m_def using True by (simp add: even_part_ok(1) of_nat_diff of_nat_mod)
    then show ?thesis using True by (simp add: p'_def)
  next
    case False
    then show ?thesis using t(6) by (simp add: p'_def m_def)
  qed
  have mb: "mem_bytes p' = mem_bytes p" by (simp add: p'_def mem_bytes_def split: zloc.split)
  have mn: "int m \<le> 2 ^ 30 - 2" "m \<le> length (mem_bytes p)" using m(1) t n by auto
  have s': "mem_store_ok p'" "mem_blocks p' = mem_blocks p" using p(1) by (auto simp: p'_def mem_store_ok_def mem_blocks_def)
  have tk: "take m (mem_bytes p) = (if des = SQLITE_UTF8 then even_part (content p) else content p)"
    using t(5) m(1) by (auto simp: m_def even_part_def min_def)
  have tko: "transcode ?enc des (take m (mem_bytes p)) = ?out"
    unfolding tk using False des(2) even_part_ok [of "content p"] by (auto simp: transcode_def even_part_def min_def)
  let ?k = "if des = SQLITE_UTF8 then 1 else 2 :: int"
  have len: "int_add (mem_n p') (mem_n p') = Ret (2 * int m)" "int_add (2 * int m) ?k = Ret (2 * int m + ?k)"
    using mn(1) by (simp_all add: int_add_def p'_def)
  obtain b g where nb: "new_block E (2 * int m + ?k) h = (b, g)" by fastforce
  from E nb show thesis
  proof (cases rule: new_block_cases)
    case (ok zOut)
    have room: "2 * m + nat ?k \<le> length zOut" using ok(2) by (simp split: if_splits)
    have lo: "length ?out \<le> 2 * m"
      using transcode_bound(1) [of ?enc des "content p"] transcode_bound(2) [of des ?enc "content p"] des(2) by (auto simp: m_def)
    have tc: "translate_chars (mem_bytes p') (mem_n p') (mem_enc p') des zOut = Ret (?out @ drop (length ?out) zOut, int (length ?out))"
    proof (cases "?enc = SQLITE_UTF8")
      case True
      have "translate_chars (mem_bytes p) (int m) SQLITE_UTF8 des zOut = Ret (?out @ drop (length ?out) zOut, int (length ?out))"
        using translate_from8 [OF mn(2), of zOut des] room tko True by simp
      then show ?thesis unfolding mb by (simp add: p'_def True)
    next
      case F: False
      then have d: "des = SQLITE_UTF8" using False by blast
      have "translate_chars (mem_bytes p) (int m) ?enc SQLITE_UTF8 zOut = Ret (?out @ drop (length ?out) zOut, int (length ?out))"
        using translate_from16 [OF mn(2) _ F, of zOut] room tko d m(2) by simp
      then show ?thesis unfolding mb by (simp add: p'_def d)
    qed
    let ?t = "if des = SQLITE_UTF8 then [0] else [0, 0] :: byte list"
    have teq: "(if mem_enc p' = SQLITE_UTF8 then [0, 0] else [0]) = ?t" using False des(2) by (auto simp: p'_def)
    have lt: "length ?t = nat ?k" by simp
    let ?z = "?out @ ?t @ drop (length ?out + length ?t) zOut"
    have w: "wr_bytes (?out @ drop (length ?out) zOut) (int (length ?out)) ?t = Ret ?z"
      using room lo lt by (auto simp: wr_bytes_def)
    obtain r k where rel: "sqlite3VdbeMemRelease E p' g = (r, k)" by fastforce
    obtain f z where r: "r = p'\<lparr>mem_flags := f, szMalloc := 0, zMalloc := [], mem_z := z\<rparr>" using Release_cell [OF s'(1) rel] by blast
    define q where "q = r\<lparr>mem_n := int (length ?out), mem_flags := MEM_Str OR MEM_Term OR (mem_flags p' AND (MEM_AffMask OR MEM_Subtype)),
        mem_enc := des, mem_z := ZMalloc, zMalloc := ?z, szMalloc := int (length ?z)\<rparr>"
    have res: "sqlite3VdbeMemTranslate E p des h = Ret (SQLITE_OK, q, k)"
      unfolding sqlite3VdbeMemTranslate_def if_not_P [OF False] p'_eq Let_def len cbind.simps nb prod.case ok(1) option.case tc teq w rel q_def ..
    have qf: "mem_z q = ZMalloc" "zMalloc q = ?z" "szMalloc q = int (length ?z)" "mem_n q = int (length ?out)" "mem_enc q = des"
        "mem_flags q = MEM_Str OR MEM_Term OR (mem_flags p AND (MEM_AffMask OR MEM_Subtype))" by (simp_all add: q_def p'_def del: or_numerals)
    note tf = translate_flags [where c = "mem_flags p", folded qf(6)]
    have ne: "?z \<noteq> []" by simp
    have st: "mem_store_ok q" using tf(4) ne by (simp add: mem_store_ok_def qf(1-3))
    have "live k = live h + 1 - mem_blocks p" "outcomes h = [] \<longrightarrow> outcomes k = []" using Release_live [OF s'(1) rel] s'(2) ok(4,5) by auto
    moreover have "mem_blocks q = 1" using tf(4) ne by (auto simp: mem_blocks_def qf(3))
    ultimately have mv: "moves p h SQLITE_OK q k" using st by (simp add: moves_def)
    have c: "content q = ?out" using tf(4) by (simp add: content_def mem_bytes_def qf(1,2,4))
    have v: "mem_value_ok q" using tf t(1) des(1) p(2) by (simp add: mem_value_ok_def mem_bytes_def qf(1-5) one_home_block)
    have cell: "cell_of q = CText des ?out" using tf c by (simp add: cell_of_def qf(5))
    show thesis by (rule that(1) [OF res mv v cell]) (use qf(1,2) in blast)
  next
    case nomem
    have res: "sqlite3VdbeMemTranslate E p des h = Ret (SQLITE_NOMEM, p', g)"
      unfolding sqlite3VdbeMemTranslate_def if_not_P [OF False] p'_eq Let_def len cbind.simps nb prod.case nomem(1) option.case ..
    have mv: "moves p h SQLITE_NOMEM p' g" using nomem s' by (simp add: moves_def)
    have c: "content p' = take m (mem_bytes p)" using t(2) unfolding content_def mb by (simp add: p'_def)
    have v: "mem_value_ok p'" using p(2) mn(2) m(1) t(6) unfolding mem_value_ok_def mb by (auto simp: p'_def one_home_def)
    have cell: "cell_of p' = CText (mem_enc p) (take m (mem_bytes p))" using p(3) c by (simp add: cell_of_def) (simp add: p'_def)
    show thesis by (rule that(2) [OF res mv v]) (use cell tk False in simp)
  qed
qed

section \<open>Setting a value\<close>

fun bom_enc :: "byte list \<Rightarrow> int" where
  "bom_enc (a # b # bs) = bom_of a b"
| "bom_enc _ = 0"

text \<open>What a byte-order mark in front makes of a text in UTF-16.\<close>

definition strip_bom :: "int \<Rightarrow> byte list \<Rightarrow> cell" where
  "strip_bom enc s = (if bom_enc s = 0 then CText enc s else CText (bom_enc s) (drop 2 s))"

lemma bom_of_range: "bom_of a b \<in> {0, SQLITE_UTF16LE, SQLITE_UTF16BE}"
  by (simp add: bom_of_def)

lemma HandleBom_ok:
  assumes E: "env_ok E" and p: "mem_store_ok p" "mem_value_ok p" "bit (mem_flags p) 1" and n: "mem_small p"
  obtains (ok) q g where "sqlite3VdbeMemHandleBom E p h = Ret (SQLITE_OK, q, g)" "moves p h SQLITE_OK q g" "mem_value_ok q"
      "cell_of q = strip_bom (mem_enc p) (content p)"
  | (nomem) q g where "sqlite3VdbeMemHandleBom E p h = Ret (SQLITE_NOMEM, q, g)" "moves p h SQLITE_NOMEM q g" "mem_value_ok q" "cell_of q = CNull"
proof -
  note t = text_facts [OF p(2,3)]
  let ?bom = "bom_enc (content p)"
  have bom: "(if 1 < mem_n p then cbind (rd (mem_bytes p) 0) (\<lambda>b1. cbind (rd (mem_bytes p) 1) (\<lambda>b2. Ret (bom_of b1 b2))) else Ret 0) = Ret ?bom"
  proof (cases "1 < mem_n p")
    case True
    then obtain a b bs where c: "content p = a # b # bs"
      using t(6) by (cases "content p"; cases "tl (content p)") auto
    have "content p ! 0 = mem_bytes p ! 0" "content p ! 1 = mem_bytes p ! 1" using True unfolding t(5) by auto
    moreover have "mem_bytes p \<noteq> []" using True t(4) by auto
    ultimately have "rd (mem_bytes p) 0 = Ret a" "rd (mem_bytes p) 1 = Ret b" 
      using rd_in [of 0 "mem_bytes p"] rd_in [of 1 "mem_bytes p"] c True t(4) by auto
    then show ?thesis using True c by simp
  next
    case False
    then have "content p = [] \<or> (\<exists>a. content p = [a])" using t(6) by (cases "content p"; cases "tl (content p)") auto
    then show ?thesis using False by auto
  qed
  show thesis
  proof (cases "?bom = 0")
    case True
    have "sqlite3VdbeMemHandleBom E p h = Ret (SQLITE_OK, p, h)" unfolding sqlite3VdbeMemHandleBom_def bom cbind.simps using True by simp
    moreover have "cell_of p = strip_bom (mem_enc p) (content p)" using p(3) True by (simp add: cell_of_def strip_bom_def)
    ultimately show thesis using that(1) moves_refl [OF p(1)] p(2) by blast
  next
    case False
    have b: "bit (mem_flags p) 1 \<or> bit (mem_flags p) 4" using p(3) by blast
    have r0: "sqlite3VdbeMemHandleBom E p h = cbind (sqlite3VdbeMemMakeWriteable E p h) (\<lambda>(rc, p, h).
          if rc = SQLITE_OK
          then let n = mem_n p - 2
               in cbind (rd_bytes (mem_bytes p) 2 n) (\<lambda>bs.
                  cbind (put_mem p 0 bs) (\<lambda>p.
                  cbind (put_mem p n [0, 0]) (\<lambda>p.
                  Ret (SQLITE_OK, p\<lparr>mem_n := n, mem_flags := mem_flags p OR MEM_Term, mem_enc := ?bom\<rparr>, h))))
          else Ret (rc, p, h))" unfolding sqlite3VdbeMemHandleBom_def bom cbind.simps using False by simp
    from E p(1,2) b n show thesis
    proof (cases rule: MakeWriteable_ok [where h = h])
      case (ok q g)
      obtain zs where z: "zMalloc q = content p @ zs" using ok(3) by (auto simp: holds_def)
      obtain c d s where c: "content p = c # d # s" using False by (cases "content p" rule: bom_enc.cases) auto
      have nq: "mem_z q = ZMalloc" "mem_n q = 2 + int (length s)" using ok(3) c by (auto simp: holds_def)
      have rd: "rd_bytes (mem_bytes q) 2 (mem_n q - 2) = Ret s" using z c nq by (simp add: rd_bytes_def mem_bytes_def numeral_2_eq_2)
      let ?z = "s @ [0, 0] @ zs"
      have len: "length ?z = length (zMalloc q)" using z c by simp
      let ?q1 = "q\<lparr>zMalloc := s @ drop (length s) (zMalloc q)\<rparr>"
      have w1: "put_mem q 0 s = Ret ?q1" using nq z c by (subst put_mem_ok) simp_all
      have dr: "drop (2 + length s) (zMalloc q) = zs" using z c by simp
      have w2: "put_mem ?q1 (mem_n q - 2) [0, 0] = Ret (q\<lparr>zMalloc := ?z\<rparr>)"
      proof (subst put_mem_ok)
        have "drop (nat (mem_n q - 2) + length [0 :: byte, 0]) (s @ drop (length s) (zMalloc q)) = zs"
          using nq(2) dr by (simp add: add.commute)
        then show "Ret (?q1\<lparr>zMalloc := take (nat (mem_n q - 2)) (zMalloc ?q1) @ [0, 0] @ drop (nat (mem_n q - 2) + length [0 :: byte, 0]) (zMalloc ?q1)\<rparr>) =
          Ret (q\<lparr>zMalloc := ?z\<rparr>)" using nq(2) by simp
      qed (use nq z c in simp_all)
      let ?r = "q\<lparr>zMalloc := ?z, mem_n := mem_n q - 2, mem_flags := mem_flags q OR MEM_Term, mem_enc := ?bom\<rparr>"
      have res: "sqlite3VdbeMemHandleBom E p h = Ret (SQLITE_OK, ?r, g)" unfolding r0 ok(1) cbind.simps using rd w1 w2 by simp
      have "moves p h SQLITE_OK (q\<lparr>zMalloc := ?z\<rparr>) g" by (rule moves_put [OF ok(2) len])
      then have "moves p h SQLITE_OK (q\<lparr>zMalloc := ?z, mem_flags := mem_flags q OR MEM_Term\<rparr>) g" using moves_term by fastforce
      then have mv: "moves p h SQLITE_OK ?r g" by (rule moves_same) simp_all
      have hq: "bit (mem_flags q) 1" "\<not> bit (mem_flags q) 4" "\<not> bit (mem_flags q) 14" using ok(3) t p(3) by (simp_all add: holds_def)
      have hr: "\<not> bit (mem_flags q) 10" "\<not> bit (mem_flags q) 11" "\<not> bit (mem_flags q) 12" "\<not> (bit (mem_flags q) 2 \<and> bit (mem_flags q) 3)"
        using ok(3) nq(2) p(2) by (auto simp: holds_def mem_value_ok_def)
      have ct: "content ?r = s" using nq hq by (simp add: content_def mem_bytes_def bit_blast)
      have "?bom \<in> {SQLITE_UTF16LE, SQLITE_UTF16BE}" using False c bom_of_range [of c d] by auto
      then have v: "mem_value_ok ?r" using nq hq hr by (auto simp: mem_value_ok_def mem_bytes_def one_home_block bit_blast)
      have cell: "cell_of ?r = strip_bom (mem_enc p) (content p)" using hq ct False c by (simp add: cell_of_def strip_bom_def bit_blast)
      show thesis by (rule that(1) [OF res mv v cell])
    next
      case (nomem q g)
      show thesis by (rule that(2) [of q g]) (use nomem in \<open>simp_all add: r0\<close>)
    qed
  qed
qed

lemma ClearAndResize_ok:
  assumes E: "env_ok E" and s: "mem_store_ok p" and n: "0 < n"
  obtains (ok) q g where "sqlite3VdbeMemClearAndResize E p n h = Ret (SQLITE_OK, q, g)" "moves p h SQLITE_OK q g"
      "mem_z q = ZMalloc" "n \<le> int (length (zMalloc q))"
  | (nomem) g where "sqlite3VdbeMemClearAndResize E p n h = Ret (SQLITE_NOMEM, dropped p, g)" "moves p h SQLITE_NOMEM (dropped p) g"
proof (cases "szMalloc p < n")
  case True
  have k: "False \<longrightarrow> 0 \<le> mem_n p \<and> mem_n p \<le> n \<and> mem_n p \<le> int (length (mem_bytes p))" by simp
  from E s n k show thesis
  proof (cases rule: Grow_ok [where bPreserve = False and h = h])
    case (ok z g)
    then show thesis using True by (intro that(1) [of "grown p z" g]) (simp_all add: sqlite3VdbeMemClearAndResize_def)
  next
    case (nomem g)
    then show thesis using True by (intro that(2) [of g]) (simp_all add: sqlite3VdbeMemClearAndResize_def)
  qed
next
  case False
  let ?q = "p\<lparr>mem_z := ZMalloc, mem_flags := mem_flags p AND (MEM_Null OR MEM_Int OR MEM_Real)\<rparr>"
  have r: "sqlite3VdbeMemClearAndResize E p n h = Ret (SQLITE_OK, ?q, h)" using False by (simp add: sqlite3VdbeMemClearAndResize_def)
  have "moves p h SQLITE_OK ?q h" using s False n by (auto simp: moves_def mem_store_ok_def mem_blocks_def bit_blast)
  then show thesis by (rule that(1) [OF r]) (use False s in \<open>simp_all add: mem_store_ok_def\<close>)
qed

text \<open>The length of a terminated text, and the length a caller's text is taken to have.\<close>

fun strlen16 :: "byte list \<Rightarrow> nat option" where
  "strlen16 (a # b # z) = (if a = 0 \<and> b = 0 then Some 0 else map_option (\<lambda>n. n + 2) (strlen16 z))"
| "strlen16 _ = None"

definition text_length :: "byte list \<Rightarrow> int \<Rightarrow> int \<Rightarrow> int \<Rightarrow> int" where
  "text_length z n enc limit =
     (if 0 \<le> n then n
      else if enc = SQLITE_UTF8 then min (int (length (takeWhile (\<lambda>b. b \<noteq> 0) z))) (limit + 1)
      else min (int (the (strlen16 z))) (2 * (limit div 2) + 2))"

text \<open>A text may be given by its length, or be terminated.\<close>

definition str_arg :: "byte list \<Rightarrow> int \<Rightarrow> int \<Rightarrow> bool" where
  "str_arg z n enc \<longleftrightarrow> enc \<in> {0, SQLITE_UTF8, SQLITE_UTF16LE, SQLITE_UTF16BE} \<and> int (length z) < 2 ^ 30 \<and>
     (if 0 \<le> n then n \<le> int (length z) else if enc = SQLITE_UTF8 then zstr z else enc \<noteq> 0 \<and> strlen16 z \<noteq> None)"

declare len16.simps [simp del]

lemma strlen16_bound: "strlen16 z = Some k \<Longrightarrow> k + 2 \<le> length z \<and> even k"
  by (induction z arbitrary: k rule: strlen16.induct) (auto split: if_splits)

lemma len16_ok:
  "strlen16 z = Some k \<Longrightarrow> even (length pre) \<Longrightarrow> 0 \<le> limit \<Longrightarrow> int (length pre) \<le> 2 * (limit div 2) + 2 \<Longrightarrow>
   len16 (pre @ z) limit (int (length pre)) = Ret (min (int (length pre + k)) (2 * (limit div 2) + 2))"
proof (induction z arbitrary: pre k rule: strlen16.induct)
  case (1 a b z)
  have r: "rd (pre @ a # b # z) (int (length pre)) = Ret a" "rd (pre @ a # b # z) (int (length pre) + 1) = Ret b"
    using rd_app [of pre a "b # z"] rd_app [of "pre @ [a]" b z] by (simp_all add: add.commute)
  have nz: "(a OR b = 0) = (a = 0 \<and> b = 0)" by (rule or_eq_0_iff)
  show ?case
  proof (cases "int (length pre) \<le> limit")
    case False
    have "2 * (limit div 2) + 1 \<ge> limit" by presburger
    then have "int (length pre) = 2 * (limit div 2) + 2" using False 1(3,5) by presburger
    then show ?thesis using False by (subst len16.simps) simp
  next
    case True
    show ?thesis
    proof (cases "a = 0 \<and> b = 0")
      case z: True
      have "int (length pre) \<le> 2 * (limit div 2) + 2" by (rule 1(5))
      then show ?thesis using z True 1(2) r by (subst len16.simps) simp
    next
      case nz': False
      obtain j where j: "strlen16 z = Some j" "k = j + 2" using 1(2) nz' by (auto split: if_splits)
      have "even (int (length pre))" using 1(3) by simp
      then have "int (length pre) \<le> 2 * (limit div 2)" using True by presburger
      then have "int (length (pre @ [a, b])) \<le> 2 * (limit div 2) + 2" by simp
      then have "len16 ((pre @ [a, b]) @ z) limit (int (length (pre @ [a, b]))) = Ret (min (int (length (pre @ [a, b]) + j)) (2 * (limit div 2) + 2))"
        using 1(1) [OF _ j(1), of "pre @ [a, b]"] nz' 1(3,4) by (simp del: min_def)
      then show ?thesis using True nz' nz r j(2) by (subst len16.simps) (simp add: add.commute add.left_commute)
    qed
  qed
qed auto

lemma zstr_length: "zstr z \<Longrightarrow> length (takeWhile (\<lambda>b. b \<noteq> 0) z) < length z"
  by (induction z) (auto simp: zstr_def)

lemma str_length_ok:
  assumes a: "str_arg z n enc" and l: "0 \<le> limit" "limit < 2 ^ 31 - 2"
  shows "str_length z n enc limit = Ret (text_length z n enc limit)" "0 \<le> text_length z n enc limit"
    "text_length z n enc limit + (if 0 \<le> n then 0 else if enc = SQLITE_UTF8 then 1 else 2) \<le> int (length z)"
proof -
  consider (given) "0 \<le> n" | (utf8) "n < 0" "enc = SQLITE_UTF8" | (utf16) k where "n < 0" "enc \<noteq> SQLITE_UTF8" "strlen16 z = Some k"
    using a by (cases "0 \<le> n"; cases "enc = SQLITE_UTF8") (auto simp: str_arg_def not_le)
  then have "str_length z n enc limit = Ret (text_length z n enc limit) \<and> 0 \<le> text_length z n enc limit \<and>
    text_length z n enc limit + (if 0 \<le> n then 0 else if enc = SQLITE_UTF8 then 1 else 2) \<le> int (length z)"
  proof cases
    case given
    then show ?thesis using a by (simp add: str_length_def text_length_def str_arg_def)
  next
    case utf8
    have z: "zstr z" "length z < 2 ^ 30" using a utf8 by (simp_all add: str_arg_def)
    have "length (takeWhile (\<lambda>b. b \<noteq> 0) z) < length z" using z(1) by (rule zstr_length)
    then show ?thesis using utf8 l strlen30_ok [OF z] by (auto simp: str_length_def text_length_def int_add_def min_def)
  next
    case (utf16 k)
    have "len16 ([] @ z) limit (int (length ([] :: byte list))) = Ret (min (int (length ([] :: byte list) + k)) (2 * (limit div 2) + 2))"
      by (rule len16_ok [OF utf16(3)]) (use l in auto)
    then show ?thesis using utf16 l strlen16_bound [OF utf16(3)] by (auto simp: str_length_def text_length_def min_def)
  qed
  then show "str_length z n enc limit = Ret (text_length z n enc limit)" "0 \<le> text_length z n enc limit"
    "text_length z n enc limit + (if 0 \<le> n then 0 else if enc = SQLITE_UTF8 then 1 else 2) \<le> int (length z)" by blast+
qed

text \<open>What a block handed over with the text adds to the blocks of the value.\<close>

definition given :: "destructor \<Rightarrow> heap \<Rightarrow> heap" where
  "given d h = (if d = SQLITE_DYNAMIC \<or> d = XDel then h\<lparr>live := live h + 1\<rparr> else h)"

definition set_cell :: "int \<Rightarrow> byte list \<Rightarrow> cell" where
  "set_cell enc s = (if enc = 0 then CBlob s else if enc = SQLITE_UTF8 then CText enc s else strip_bom enc s)"

lemma moves_reflag:
  "moves p h rc q g \<Longrightarrow> \<forall>k \<in> {5, 6, 13}. \<not> bit f k \<Longrightarrow> bit f 10 = bit (mem_flags q) 10 \<Longrightarrow> moves p h rc (q\<lparr>mem_flags := f\<rparr>) g"
proof -
  assume q: "moves p h rc q g" and f: "\<forall>k \<in> {5, 6, 13}. \<not> bit f k" "bit f 10 = bit (mem_flags q) 10"
  have "mem_store_ok (q\<lparr>mem_flags := f\<rparr>)" using q f by (auto simp: moves_def mem_store_ok_def)
  moreover have "mem_blocks (q\<lparr>mem_flags := f\<rparr>) = mem_blocks q" using f by (simp add: mem_blocks_def)
  ultimately show ?thesis using q by (simp add: moves_def)
qed

lemma given_outcomes [simp]: "outcomes (given d h) = outcomes h"
  by (simp add: given_def)

lemma how_bits:
  fixes f :: "16 word"
  assumes "how \<in> {0, MEM_Static, MEM_Dyn}"
  shows "k \<in> {2, 3, 12} \<Longrightarrow> bit (f OR how) k = bit f k" "bit (f OR how) 10 = (bit f 10 \<or> how = MEM_Dyn)"
    "bit (f OR how) 11 = (bit f 11 \<or> how = MEM_Static)" "bit (f OR how) 1 = bit f 1" "bit (f OR how) 4 = bit f 4" "bit (f OR how) 14 = bit f 14"
    "k \<in> {5, 6, 13} \<Longrightarrow> bit (f OR how) k = bit f k"
  using assms by (auto simp: bit_blast)

lemma how_dyn: "bit (f OR MEM_Dyn) 10" "bit (f OR MEM_Static) 10 = bit f 10" for f :: "16 word"
  by (simp_all add: bit_blast)

lemma set_storage_ok:
  assumes E: "env_ok E" and s: "mem_store_ok p"
    and l: "0 \<le> l" "l + (if t then if enc = SQLITE_UTF8 then 1 else 2 else 0) \<le> int (length z)" "length z < 2 ^ 30"
    and d: "d = SQLITE_DYNAMIC \<longrightarrow> z \<noteq> []" "d = SQLITE_TRANSIENT \<longrightarrow> l \<le> limit"
  obtains (stored) how q g where "set_storage E limit p z l t enc d (given d h) = Ret (SQLITE_OK, how, q, g)"
      "how \<in> {0, MEM_Static, MEM_Dyn}" "\<And>f. \<forall>k \<in> {5, 6, 10, 13}. \<not> bit f k \<Longrightarrow> moves p h SQLITE_OK (q\<lparr>mem_flags := f OR how\<rparr>) g"
      "take (nat l) (mem_bytes q) = take (nat l) z" "l \<le> int (length (mem_bytes q))" "(mem_z q = ZMalloc) = (how = 0)"
  | (nomem) g where "set_storage E limit p z l t enc d (given d h) = Ret (SQLITE_NOMEM, 0, dropped p, g)" "moves p h SQLITE_NOMEM (dropped p) g"
proof -
  obtain r k where rel: "sqlite3VdbeMemRelease E p (given d h) = (r, k)" by fastforce
  note rl = Release_live [OF s rel]
  obtain f0 y where r: "r = p\<lparr>mem_flags := f0, szMalloc := 0, zMalloc := [], mem_z := y\<rparr>" using Release_cell [OF s rel] by blast
  have ext: thesis if d': "d = SQLITE_STATIC \<or> d = XDel"
  proof -
    let ?how = "if d = SQLITE_STATIC then MEM_Static else MEM_Dyn"
    have res: "set_storage E limit p z l t enc d (given d h) = Ret (SQLITE_OK, ?how, r\<lparr>mem_z := ZExt z\<rparr>, k)"
      using d' rel by (auto simp: set_storage_def)
    show thesis
    proof (rule stored [OF res])
      fix f :: "16 word" assume f: "\<forall>k \<in> {5, 6, 10, 13}. \<not> bit f k"
      have "mem_store_ok (r\<lparr>mem_z := ZExt z, mem_flags := f OR ?how\<rparr>)" using f how_bits(7) [of ?how _ f] by (auto simp: mem_store_ok_def r)
      moreover have "mem_blocks (r\<lparr>mem_z := ZExt z, mem_flags := f OR ?how\<rparr>) = (if d = XDel then 1 else 0)"
        using f d' how_dyn [of f] by (auto simp: mem_blocks_def r)
      ultimately show "moves p h SQLITE_OK (r\<lparr>mem_z := ZExt z, mem_flags := f OR ?how\<rparr>) k"
        using rl d' by (auto simp: moves_def given_def)
    qed (use l in \<open>auto simp: mem_bytes_def split: if_splits\<close>)
  qed
  show thesis
  proof (cases d)
    case SQLITE_STATIC
    then show thesis by (rule ext [OF disjI1])
  next
    case XDel
    then show thesis by (rule ext [OF disjI2])
  next
    case SQLITE_DYNAMIC
    let ?q = "r\<lparr>mem_z := ZMalloc, zMalloc := z, szMalloc := int (length z)\<rparr>"
    have res: "set_storage E limit p z l t enc d (given d h) = Ret (SQLITE_OK, 0, ?q, k)"
      using SQLITE_DYNAMIC rel by (simp add: set_storage_def)
    show thesis
    proof (rule stored [OF res])
      fix f :: "16 word" assume f: "\<forall>k \<in> {5, 6, 10, 13}. \<not> bit f k"
      have "mem_store_ok (?q\<lparr>mem_flags := f OR 0\<rparr>)" "mem_blocks (?q\<lparr>mem_flags := f OR 0\<rparr>) = 1"
        using f d(1) SQLITE_DYNAMIC by (simp_all add: mem_store_ok_def mem_blocks_def r)
      then show "moves p h SQLITE_OK (?q\<lparr>mem_flags := f OR 0\<rparr>) k" using rl SQLITE_DYNAMIC by (auto simp: moves_def given_def)
    qed (use l in \<open>auto simp: mem_bytes_def split: if_splits\<close>)
  next
    case SQLITE_TRANSIENT
    let ?k = "if enc = SQLITE_UTF8 then 1 else 2 :: int"
    define a where "a = (if t then l + ?k else l)"
    have a: "l \<le> a" "a \<le> int (length z)" "0 < max a 32" "0 \<le> a" using l by (auto simp: a_def split: if_splits)
    have al: "(if t then int_add l ?k else Ret l) = Ret a" using l by (auto simp: a_def int_add_def split: if_splits)
    have h: "given d h = h" using SQLITE_TRANSIENT by (simp add: given_def)
    have lim: "\<not> limit < l" using d(2) SQLITE_TRANSIENT by simp
    have r0: "set_storage E limit p z l t enc d (given d h) = cbind (sqlite3VdbeMemClearAndResize E p (max a 32) h) (\<lambda>(rc, p, h).
               if rc \<noteq> SQLITE_OK then Ret (SQLITE_NOMEM, 0, p, h)
               else cbind (rd_bytes z 0 a) (\<lambda>bs. cbind (put_mem p 0 bs) (\<lambda>p. Ret (SQLITE_OK, 0, p, h))))"
      using SQLITE_TRANSIENT unfolding set_storage_def h by (simp only: destructor.case al cbind.simps lim if_False)
    from E s a(3) show thesis
    proof (cases rule: ClearAndResize_ok [where h = h])
      case (ok q g)
      let ?bs = "take (nat a) z"
      let ?z = "?bs @ drop (length ?bs) (zMalloc q)"
      have rd: "rd_bytes z 0 a = Ret ?bs" using a by (simp add: rd_bytes_def)
      have lbs: "length ?bs = nat a" using a by simp
      have w: "put_mem q 0 ?bs = Ret (q\<lparr>zMalloc := ?z\<rparr>)" using ok(3,4) lbs a by (subst put_mem_ok) auto
      have res: "set_storage E limit p z l t enc d (given d h) = Ret (SQLITE_OK, 0, q\<lparr>zMalloc := ?z\<rparr>, g)"
        unfolding r0 ok(1) cbind.simps using rd w by simp
      have len: "length ?z = length (zMalloc q)" using ok(4) lbs by auto
      have "\<not> bit (mem_flags q) 10" using ok(2,3) by (auto simp: moves_def mem_store_ok_def)
      then have nd: "bit (mem_flags (q\<lparr>zMalloc := ?z\<rparr>)) 10 = False" by simp
      show thesis
      proof (rule stored [OF res])
        fix f :: "16 word" assume f: "\<forall>k \<in> {5, 6, 10, 13}. \<not> bit f k"
        show "moves p h SQLITE_OK (q\<lparr>zMalloc := ?z, mem_flags := f OR 0\<rparr>) g"
          by (rule moves_reflag [OF moves_put [OF ok(2) len]]) (use f nd in simp_all)
      next
        have "nat l \<le> length ?bs" using lbs a(1) by simp
        then show "take (nat l) (mem_bytes (q\<lparr>zMalloc := ?z\<rparr>)) = take (nat l) z"
          using ok(3) a(1) by (simp add: mem_bytes_def min_absorb1 nat_mono)
        show "l \<le> int (length (mem_bytes (q\<lparr>zMalloc := ?z\<rparr>)))" using ok(3,4) a(1) len by (simp add: mem_bytes_def)
      qed (use ok(3) in simp_all)
    next
      case (nomem g)
      show thesis by (rule that(2) [of g]) (use nomem in \<open>simp_all add: r0\<close>)
    qed
  qed
qed

lemma set_flags_bits:
  fixes enc n :: int
  defines "f \<equiv> (if enc = 0 then MEM_Blob else MEM_Str) OR (if n < 0 then MEM_Term else 0)"
  shows "bit f 1 = (enc \<noteq> 0)" "bit f 4 = (enc = 0)" "\<not> bit f 14" "\<forall>k \<in> {5, 6, 10, 13}. \<not> bit f k"
    "\<forall>k \<in> {2, 3, 11, 12}. \<not> bit f k"
  unfolding f_def by (auto simp: bit_blast)

lemma SetStr_ok:
  assumes E: "env_ok E" and s: "mem_store_ok p" and a: "str_arg z n enc" and l: "0 \<le> limit" "limit < 2 ^ 31 - 2"
    and d: "d = SQLITE_DYNAMIC \<longrightarrow> z \<noteq> []" "d = SQLITE_TRANSIENT \<longrightarrow> text_length z n enc limit \<le> limit"
  obtains (set) q g where
      "sqlite3VdbeMemSetStr E limit p (Some z) n enc d (given d h) = Ret (if limit < text_length z n enc limit then SQLITE_TOOBIG else SQLITE_OK, q, g)"
      "moves p h SQLITE_OK q g" "mem_value_ok q" "cell_of q = set_cell enc (take (nat (text_length z n enc limit)) z)"
  | (nomem) q g where "sqlite3VdbeMemSetStr E limit p (Some z) n enc d (given d h) = Ret (SQLITE_NOMEM, q, g)"
      "moves p h SQLITE_NOMEM q g" "mem_value_ok q" "cell_of q = CNull"
proof -
  let ?l = "text_length z n enc limit"
  note sl = str_length_ok [OF a l]
  have z: "length z < 2 ^ 30" and enc: "enc \<in> {0, SQLITE_UTF8, SQLITE_UTF16LE, SQLITE_UTF16BE}" using a by (simp_all add: str_arg_def)
  have sl': "?l + (if n < 0 then if enc = SQLITE_UTF8 then 1 else 2 else 0) \<le> int (length z)" using sl(3) by (cases "0 \<le> n") auto
  let ?f = "(if enc = 0 then MEM_Blob else MEM_Str) OR (if n < 0 then MEM_Term else 0)"
  have r0: "sqlite3VdbeMemSetStr E limit p (Some z) n enc d (given d h) =
      cbind (set_storage E limit p z ?l (n < 0) enc d (given d h)) (\<lambda>(rc, how, p, h).
             if rc \<noteq> SQLITE_OK then Ret (rc, p, h)
             else let p = p\<lparr>mem_n := ?l, mem_flags := ?f OR how, mem_enc := (if enc = 0 then SQLITE_UTF8 else enc)\<rparr>
                  in cbind (if mem_enc p \<noteq> SQLITE_UTF8 then sqlite3VdbeMemHandleBom E p h else Ret (SQLITE_OK, p, h)) (\<lambda>(rc, p, h).
                     Ret (if rc \<noteq> SQLITE_OK then SQLITE_NOMEM else if limit < ?l then SQLITE_TOOBIG else SQLITE_OK, p, h)))"
    unfolding sqlite3VdbeMemSetStr_def option.case sl(1) cbind.simps Let_def ..
  from E s sl(2) sl' z d show thesis
  proof (cases rule: set_storage_ok [where h = h])
    case (stored how q g)
    note hb = how_bits [OF stored(2), where f = ?f] and fb = set_flags_bits [of enc n]
    let ?e = "if enc = 0 then SQLITE_UTF8 else enc"
    define F where "F = ?f OR how"
    have Fb: "bit F 1 = (enc \<noteq> 0)" "bit F 4 = (enc = 0)" "\<not> bit F 14" using hb(4-6) fb(1-3) unfolding F_def by blast+
    have Fc: "bit F 10 = (how = MEM_Dyn)" "bit F 11 = (how = MEM_Static)" "\<not> bit F 12" "\<not> bit F 2"
      using hb(1) [of 2] hb(1) [of 12] hb(2,3) fb(4,5) unfolding F_def by blast+
    have home: "of_bool (mem_z q = ZMalloc) + of_bool (bit F 10) + of_bool (bit F 12) + of_bool (bit F 11) = (1 :: nat)"
      unfolding Fc(1,2) stored(6) using stored(2) Fc(3) by auto
    let ?q = "q\<lparr>mem_n := ?l, mem_flags := F, mem_enc := ?e\<rparr>"
    have mv: "moves p h SQLITE_OK ?q g" by (rule moves_same [OF stored(3) [OF fb(4)]]) (simp_all add: F_def)
    have mb: "mem_bytes ?q = mem_bytes q" by (simp add: mem_bytes_def split: zloc.split)
    have v: "mem_value_ok ?q" using Fb enc sl(2) stored(5) Fc(4) home unfolding mem_value_ok_def mb by (simp add: one_home_def) blast
    have c: "content ?q = take (nat ?l) z" using Fb(3) stored(4) unfolding content_def mb by simp
    show thesis
    proof (cases "?e \<noteq> SQLITE_UTF8")
      case False
      have "cell_of ?q = set_cell enc (take (nat ?l) z)" using Fb c False by (auto simp: cell_of_def set_cell_def)
      moreover have "sqlite3VdbeMemSetStr E limit p (Some z) n enc d (given d h) = Ret (if limit < ?l then SQLITE_TOOBIG else SQLITE_OK, ?q, g)"
        unfolding r0 stored(1) cbind.simps using False by (simp add: Let_def F_def)
      ultimately show thesis using that(1) mv v by blast
    next
      case True
      have e: "enc \<noteq> 0" "enc \<noteq> SQLITE_UTF8" "mem_enc ?q = enc" using True by auto
      have b1: "bit (mem_flags ?q) 1" using Fb e by simp
      have small: "mem_small ?q" using z c by (simp add: mem_small_def min_def)
      have r1: "sqlite3VdbeMemSetStr E limit p (Some z) n enc d (given d h) = cbind (sqlite3VdbeMemHandleBom E ?q g) (\<lambda>(rc, p, h).
          Ret (if rc \<noteq> SQLITE_OK then SQLITE_NOMEM else if limit < ?l then SQLITE_TOOBIG else SQLITE_OK, p, h))"
        unfolding r0 stored(1) cbind.simps using e by (simp add: Let_def F_def)
      have st: "mem_store_ok ?q" using mv by (simp add: moves_def)
      from E st v b1 small show thesis
      proof (cases rule: HandleBom_ok [where h = g])
        case (ok r k)
        have "cell_of r = set_cell enc (take (nat ?l) z)" unfolding ok(4) e(3) c using e by (simp add: set_cell_def)
        then show thesis using that(1) [of r k] moves_trans [OF mv ok(2)] ok(1,3) r1 by simp
      next
        case (nomem r k)
        show thesis by (rule that(2) [of r k]) (use moves_trans [OF mv nomem(2)] nomem(1,3,4) r1 in simp_all)
      qed
    qed
  next
    case (nomem g)
    show thesis by (rule that(2) [of "dropped p" g]) (use nomem dropped_ok in \<open>simp_all add: r0\<close>)
  qed
qed

text \<open>Taking the cell of another value.\<close>

lemma Clear_first:
  fixes E :: mem_env and h :: heap
  assumes "mem_store_ok p" and "q = (if VdbeMemDynamic p then vdbeMemClearExternAndSetNull E p h else (p, h))"
  shows "live (snd q) = live h - (if bit (mem_flags p) 10 then 1 else 0)" "outcomes (snd q) = outcomes h"
    "szMalloc (fst q) = szMalloc p" "zMalloc (fst q) = zMalloc p"
  using assms by (auto simp: vdbeMemClearExternAndSetNull_def VdbeMemDynamic_iff mem_store_ok_def flag_tests Let_def)

lemma cell_part_same:
  shows "mem_bytes (cell_part p q) = mem_bytes q" "content (cell_part p q) = content q" "cell_of (cell_part p q) = cell_of q"
proof -
  show mb: "mem_bytes (cell_part p q) = mem_bytes q" by (simp add: mem_bytes_def cell_part_def split: zloc.split)
  show c: "content (cell_part p q) = content q" unfolding content_def mb by (simp add: cell_part_def)
  show "cell_of (cell_part p q) = cell_of q" unfolding cell_of_def c by (simp add: cell_part_def)
qed

lemma reflag_value:
  assumes "bit f 1 = bit (mem_flags q) 1" "bit f 4 = bit (mem_flags q) 4" "bit f 14 = bit (mem_flags q) 14"
  shows "cell_of (q\<lparr>mem_flags := f\<rparr>) = cell_of q"
    "content (q\<lparr>mem_flags := f\<rparr>) = content q"
  using assms by (simp_all add: cell_of_def content_flags)

lemma Copy_ok:
  assumes E: "env_ok E" and p: "mem_store_ok p" and q: "mem_store_ok q" "mem_value_ok q" and n: "bit (mem_flags q) 1 \<or> bit (mem_flags q) 4 \<longrightarrow> mem_small q"
  obtains (ok) r g where "sqlite3VdbeMemCopy E p q h = Ret (SQLITE_OK, r, g)" "moves p h SQLITE_OK r g" "mem_value_ok r" "cell_of r = cell_of q"
  | (nomem) r g where "sqlite3VdbeMemCopy E p q h = Ret (SQLITE_NOMEM, r, g)" "moves p h SQLITE_NOMEM r g" "mem_value_ok r" "cell_of r = CNull"
proof -
  define c where "c = (if VdbeMemDynamic p then vdbeMemClearExternAndSetNull E p h else (p, h))"
  note cf = Clear_first [OF p c_def]
  let ?c = "cell_part (fst c) q"
  define r where "r = ?c\<lparr>mem_flags := mem_flags q AND NOT MEM_Dyn\<rparr>"
  define r' where "r' = r\<lparr>mem_flags := mem_flags r OR MEM_Ephem\<rparr>"
  have fl: "mem_flags ?c = mem_flags q" by (simp add: cell_part_def)
  have b: "bit (mem_flags q AND NOT MEM_Dyn) 1 = bit (mem_flags q) 1" "bit (mem_flags q AND NOT MEM_Dyn) 4 = bit (mem_flags q) 4"
      "bit (mem_flags q AND NOT MEM_Dyn) 14 = bit (mem_flags q) 14" "\<not> bit (mem_flags q AND NOT MEM_Dyn) 10"
      "bit (mem_flags q AND NOT MEM_Dyn) 11 = bit (mem_flags q) 11" "bit (mem_flags q AND NOT MEM_Dyn) 12 = bit (mem_flags q) 12"
      "bit (mem_flags q AND NOT MEM_Dyn) 2 = bit (mem_flags q) 2" "bit (mem_flags q AND NOT MEM_Dyn) 3 = bit (mem_flags q) 3"
      "k \<in> {5, 6, 13} \<Longrightarrow> bit (mem_flags q AND NOT MEM_Dyn) k = bit (mem_flags q) k" for k by (auto simp: bit_blast)
  have rv: "cell_of r = cell_of q" "content r = content q" unfolding r_def
    using reflag_value [of "mem_flags q AND NOT MEM_Dyn" ?c] b cell_part_same [of "fst c" q] fl by simp_all
  have st: "mem_store_ok r" using p q(1) b cf(3,4) by (auto simp: r_def mem_store_ok_def cell_part_def)
  have "mem_blocks r = mem_blocks p - (if bit (mem_flags p) 10 then 1 else 0)" using b(4) cf(3) by (simp add: r_def mem_blocks_def cell_part_def)
  then have mv: "moves p h SQLITE_OK r (snd c)" using st cf by (simp add: moves_def)
  have eb: "bit (mem_flags r OR MEM_Ephem) 1 = bit (mem_flags r) 1" "bit (mem_flags r OR MEM_Ephem) 4 = bit (mem_flags r) 4"
      "bit (mem_flags r OR MEM_Ephem) 14 = bit (mem_flags r) 14" "bit (mem_flags r OR MEM_Ephem) 10 = bit (mem_flags r) 10"
      "k \<in> {5, 6, 13} \<Longrightarrow> bit (mem_flags r OR MEM_Ephem) k = bit (mem_flags r) k" for k by (auto simp: bit_blast)
  have rv': "cell_of r' = cell_of q" "content r' = content q" unfolding r'_def using reflag_value [OF eb(1-3)] rv by simp_all
  have mb: "mem_bytes r = mem_bytes q" "mem_bytes r' = mem_bytes q" "mem_n r = mem_n q" "mem_enc r = mem_enc q" "mem_nZero r = mem_nZero q"
    using cell_part_same(1) [of "fst c" q] by (simp_all add: r_def r'_def) (simp_all add: cell_part_def)
  have home: "mem_z r \<noteq> ZMalloc" "mem_z r' \<noteq> ZMalloc" by (simp_all add: r_def r'_def cell_part_def)
  have mv': "moves p h SQLITE_OK r' (snd c)" unfolding r'_def
    by (rule moves_reflag [OF mv]) (use eb st in \<open>auto simp: mem_store_ok_def\<close>)
  have r0: "sqlite3VdbeMemCopy E p q h = (if mem_flags r AND (MEM_Str OR MEM_Blob) \<noteq> 0 \<and> mem_flags q AND MEM_Static = 0
      then sqlite3VdbeMemMakeWriteable E r' (snd c) else Ret (SQLITE_OK, r, snd c))"
    unfolding sqlite3VdbeMemCopy_def c_def [symmetric] by (simp add: case_prod_beta r_def r'_def fl Let_def)
  have rf: "mem_flags r = mem_flags q AND NOT MEM_Dyn" by (simp add: r_def)
  show thesis
  proof (cases "mem_flags r AND (MEM_Str OR MEM_Blob) \<noteq> 0 \<and> mem_flags q AND MEM_Static = 0")
    case False
    have "one_home r" if s: "bit (mem_flags q) 1 \<or> bit (mem_flags q) 4" "0 < mem_n q"
    proof -
      have st: "bit (mem_flags q) 11"
        using False s(1) b(1,2) string_test [of "mem_flags r"] flag_tests(7) [of "mem_flags q"] unfolding rf by blast
      have "one_home q" using q(2) s unfolding mem_value_ok_def by blast
      then have "\<not> bit (mem_flags q) 12" using st by (auto simp: one_home_def)
      then show ?thesis using home(1) st b(4,5,6) unfolding one_home_def rf by simp
    qed
    then have v: "mem_value_ok r" using q(2) unfolding mem_value_ok_def mb rf b by blast
    show thesis by (rule that(1) [OF _ mv v rv(1)]) (simp only: r0 if_not_P [OF False])
  next
    case True
    then have rb: "bit (mem_flags r) 1 \<or> bit (mem_flags r) 4" using string_test [of "mem_flags r"] by blast
    then have rb': "bit (mem_flags r') 1 \<or> bit (mem_flags r') 4" using eb(1,2) by (simp add: r'_def)
    have "mem_small q" using n rb b(1,2) by (auto simp: r_def)
    then have small: "mem_small r'" by (simp add: mem_small_def rv')
    have st': "mem_store_ok r'" using mv' by (simp add: moves_def)
    have ns: "\<not> bit (mem_flags q) 11" using True flag_tests(7) [of "mem_flags q"] by blast
    have rf': "mem_flags r' = mem_flags r OR MEM_Ephem" "mem_n r' = mem_n q" "mem_enc r' = mem_enc q" "mem_nZero r' = mem_nZero q"
      using mb(3-5) by (simp_all add: r'_def)
    have eb': "bit (mem_flags r OR MEM_Ephem) 12" "bit (mem_flags r OR MEM_Ephem) 11 = bit (mem_flags r) 11"
        "bit (mem_flags r OR MEM_Ephem) 2 = bit (mem_flags r) 2" "bit (mem_flags r OR MEM_Ephem) 3 = bit (mem_flags r) 3" by (simp_all add: bit_blast)
    have "one_home r'" unfolding one_home_def rf' eb eb' unfolding rf using home(2) ns b(4,5) eb'(1) [unfolded rf] by simp
    then have v': "mem_value_ok r'" unfolding mem_value_ok_def mb rf' eb eb' unfolding rf b using q(2) unfolding mem_value_ok_def by blast
    from E st' v' rb' small show thesis
    proof (cases rule: MakeWriteable_ok [where h = "snd c"])
      case (ok s g)
      then show thesis using that(1) [of s g] holds_ok [OF ok(3) v'] rv'(1) moves_trans [OF mv' ok(2)] True r0 by simp
    next
      case (nomem s g)
      show thesis by (rule that(2) [of s g]) (use nomem moves_trans [OF mv' nomem(2)] True r0 in simp_all)
    qed
  qed
qed

section \<open>Two values and the calls on them\<close>

text \<open>
  Two values, because values are copied and moved; \<open>MSwitch\<close> exchanges their roles. A call whose asserted
  preconditions do not hold is not made. \<open>sqlite3VdbeMemExpandBlob\<close> is called through its macro.
\<close>

datatype mem_op = MSetStr "byte list option" int int destructor | MSetNull | MZeroBlob int | MWriteable | MExpand
  | MTerminate | MEncode int | MCopy | MMove | MSwitch

abbreviation (input) NOT_CALLED :: int where "NOT_CALLED \<equiv> - 1"

definition cell_small :: "cell \<Rightarrow> bool" where
  "cell_small a = (case a of CNull \<Rightarrow> True | CText enc s \<Rightarrow> int (length s) + 2 < 2 ^ 31 | CBlob s \<Rightarrow> int (length s) + 2 < 2 ^ 31)"

definition mem_asserts :: "mem_op \<Rightarrow> cell \<Rightarrow> cell \<Rightarrow> bool" where
  "mem_asserts x a b = (case x of
       MSetStr z n enc d \<Rightarrow> (case z of None \<Rightarrow> True | Some z \<Rightarrow> str_arg z n enc \<and> (d = SQLITE_DYNAMIC \<longrightarrow> z \<noteq> []))
     | MZeroBlob n \<Rightarrow> n < 2 ^ 31
     | MWriteable \<Rightarrow> cell_small a | MExpand \<Rightarrow> cell_small a | MTerminate \<Rightarrow> cell_small a
     | MEncode e \<Rightarrow> e \<in> {SQLITE_UTF8, SQLITE_UTF16LE, SQLITE_UTF16BE} \<and>
         (case a of CText enc s \<Rightarrow> enc = e \<or> int (length s) \<le> 2 ^ 30 - 2 | _ \<Rightarrow> True)
     | MCopy \<Rightarrow> cell_small b
     | _ \<Rightarrow> True)"

definition mem_call1 :: "mem_env \<Rightarrow> int \<Rightarrow> mem_op \<Rightarrow> Mem \<Rightarrow> Mem \<Rightarrow> heap \<Rightarrow> (int \<times> Mem \<times> heap) cres" where
  "mem_call1 E limit x p q h = (case x of
       MSetStr z n enc d \<Rightarrow> sqlite3VdbeMemSetStr E limit p z n enc d (if z = None then h else given d h)
     | MSetNull \<Rightarrow> Ret (SQLITE_OK, sqlite3VdbeMemSetNull E p h)
     | MZeroBlob n \<Rightarrow> Ret (SQLITE_OK, sqlite3VdbeMemSetZeroBlob E p n h)
     | MWriteable \<Rightarrow> sqlite3VdbeMemMakeWriteable E p h
     | MExpand \<Rightarrow> if mem_flags p AND MEM_Zero \<noteq> 0 then sqlite3VdbeMemExpandBlob E p h else Ret (SQLITE_OK, p, h)
     | MTerminate \<Rightarrow> sqlite3VdbeMemNulTerminate E p h
     | MEncode e \<Rightarrow> sqlite3VdbeChangeEncoding E p e h
     | MCopy \<Rightarrow> sqlite3VdbeMemCopy E p q h
     | _ \<Rightarrow> Ret (SQLITE_OK, p, h))"

definition mem_call :: "mem_env \<Rightarrow> int \<Rightarrow> mem_op \<Rightarrow> Mem \<times> Mem \<times> heap \<Rightarrow> (int \<times> Mem \<times> Mem \<times> heap) cres" where
  "mem_call E limit x = (\<lambda>(p, q, h).
     if \<not> mem_asserts x (cell_of p) (cell_of q) then Ret (NOT_CALLED, p, q, h)
     else case x of
       MMove \<Rightarrow> Ret (SQLITE_OK, sqlite3VdbeMemMove E p q h)
     | MSwitch \<Rightarrow> Ret (SQLITE_OK, q, p, h)
     | _ \<Rightarrow> cbind (mem_call1 E limit x p q h) (\<lambda>(rc, p, h). Ret (rc, p, q, h)))"

text \<open>What a call does to the contents when memory can be had, and what is left when it cannot.\<close>

definition recode :: "int \<Rightarrow> cell \<Rightarrow> cell" where
  "recode e a = (case a of CText enc s \<Rightarrow> if enc = e then a else CText e (transcode enc e s) | _ \<Rightarrow> a)"

definition mem_result :: "int \<Rightarrow> mem_op \<Rightarrow> cell \<times> cell \<Rightarrow> int \<times> cell \<times> cell" where
  "mem_result limit x = (\<lambda>(a, b).
     if \<not> mem_asserts x a b then (NOT_CALLED, a, b)
     else case x of
       MSetStr z n enc d \<Rightarrow> (case z of None \<Rightarrow> (SQLITE_OK, CNull, b)
         | Some z \<Rightarrow> let l = text_length z n enc limit
                   in if d = SQLITE_TRANSIENT \<and> limit < l then (SQLITE_TOOBIG, a, b)
                      else (if limit < l then SQLITE_TOOBIG else SQLITE_OK, set_cell enc (take (nat l) z), b))
     | MSetNull \<Rightarrow> (SQLITE_OK, CNull, b)
     | MZeroBlob n \<Rightarrow> (SQLITE_OK, CBlob (replicate (nat n) 0), b)
     | MEncode e \<Rightarrow> (SQLITE_OK, recode e a, b)
     | MCopy \<Rightarrow> (SQLITE_OK, b, b)
     | MMove \<Rightarrow> (SQLITE_OK, b, CNull)
     | MSwitch \<Rightarrow> (SQLITE_OK, b, a)
     | _ \<Rightarrow> (SQLITE_OK, a, b))"

definition mem_fail :: "mem_op \<Rightarrow> cell \<Rightarrow> cell" where
  "mem_fail x a = (case x of
       MEncode e \<Rightarrow> (case a of CText enc s \<Rightarrow> if enc \<noteq> SQLITE_UTF8 \<and> e \<noteq> SQLITE_UTF8 then CNull
           else CText enc (if e = SQLITE_UTF8 then even_part s else s) | _ \<Rightarrow> CNull)
     | _ \<Rightarrow> CNull)"

definition allocates :: "mem_op \<Rightarrow> bool" where
  "allocates x \<longleftrightarrow> x \<notin> {MSetNull, MMove, MSwitch} \<and> (\<forall>n. x \<noteq> MZeroBlob n)"

definition mem_spec :: "bool \<Rightarrow> int \<Rightarrow> mem_op \<Rightarrow> cell \<times> cell \<Rightarrow> int \<Rightarrow> cell \<times> cell \<Rightarrow> bool" where
  "mem_spec unreliable limit x ab r ab' \<longleftrightarrow>
     (r, ab') = mem_result limit x ab \<or>
     unreliable \<and> allocates x \<and> r = SQLITE_NOMEM \<and> ab' = (mem_fail x (fst ab), snd ab)"

definition mem_rel :: "bool \<Rightarrow> int \<Rightarrow> nat \<Rightarrow> Mem \<times> Mem \<times> heap \<Rightarrow> cell \<times> cell \<Rightarrow> bool" where
  "mem_rel unreliable L n = (\<lambda>(p, q, h) (a, b). mem_store_ok p \<and> mem_value_ok p \<and> mem_store_ok q \<and> mem_value_ok q \<and> cell_of p = a \<and> cell_of q = b \<and>
     live h = mem_blocks p + mem_blocks q + L \<and> (unreliable \<or> outcomes h = []))"

lemma small_cell: "bit (mem_flags p) 1 \<or> bit (mem_flags p) 4 \<Longrightarrow> cell_small (cell_of p) = mem_small p"
  by (auto simp: cell_small_def cell_of_def mem_small_def)

lemma mem_moved:
  assumes r: "mem_rel u L n (p, q, h) (a, b)" and m: "moves p h rc p' g" and v: "mem_value_ok p'"
  shows "mem_rel u L k (p', q, g) (cell_of p', b)" "rc = SQLITE_NOMEM \<Longrightarrow> u"
  using assms by (auto simp: mem_rel_def moves_def)

lemma SetNull_moves:
  assumes "mem_store_ok p" "sqlite3VdbeMemSetNull E p h = (p', g)"
  shows "moves p h SQLITE_OK p' g" "mem_value_ok p'" "cell_of p' = CNull"
proof -
  have p: "p' = p\<lparr>mem_flags := MEM_Null\<rparr>" "g = (if bit (mem_flags p) 10 then c_free h else h)" using assms SetNull_ok by auto
  show "moves p h SQLITE_OK p' g" unfolding p using assms(1) by (auto simp: moves_def mem_store_ok_def mem_blocks_def)
  show "mem_value_ok p'" "cell_of p' = CNull" unfolding p by (simp_all add: mem_value_ok_def cell_of_def)
qed

lemma SetZeroBlob_moves:
  assumes "mem_store_ok p" "sqlite3VdbeMemSetZeroBlob E p n h = (p', g)"
  shows "moves p h SQLITE_OK p' g" "mem_value_ok p'" "cell_of p' = CBlob (replicate (nat n) 0)"
proof -
  obtain r k where rel: "sqlite3VdbeMemRelease E p h = (r, k)" by fastforce
  note rl = Release_live [OF assms(1) rel]
  obtain f z where r: "r = p\<lparr>mem_flags := f, szMalloc := 0, zMalloc := [], mem_z := z\<rparr>" using Release_cell [OF assms(1) rel] by blast
  have p: "p' = r\<lparr>mem_flags := MEM_Blob OR MEM_Zero, mem_n := 0, mem_nZero := (if n < 0 then 0 else n), mem_enc := SQLITE_UTF8, mem_z := ZNull\<rparr>" "g = k"
    using assms(2) rel by (auto simp: sqlite3VdbeMemSetZeroBlob_def)
  show "moves p h SQLITE_OK p' g" using rl by (simp add: p r moves_def mem_store_ok_def mem_blocks_def)
  show "mem_value_ok p'" "cell_of p' = CBlob (replicate (nat n) 0)" by (simp_all add: p mem_value_ok_def cell_of_def content_def mem_bytes_def)
qed

lemma NulTerminate_ok:
  assumes E: "env_ok E" and p: "mem_store_ok p" "mem_value_ok p" and n: "bit (mem_flags p) 1 \<longrightarrow> mem_small p"
  shows "\<exists>rc p' g. sqlite3VdbeMemNulTerminate E p h = Ret (rc, p', g) \<and> moves p h rc p' g \<and> mem_value_ok p' \<and>
    (rc = SQLITE_OK \<and> cell_of p' = cell_of p \<or> rc = SQLITE_NOMEM \<and> cell_of p' = CNull)"
proof (cases "mem_flags p AND (MEM_Term OR MEM_Str) = MEM_Str")
  case False
  then have "sqlite3VdbeMemNulTerminate E p h = Ret (SQLITE_OK, p, h)" by (simp add: sqlite3VdbeMemNulTerminate_def)
  then show ?thesis using moves_refl [OF p(1)] p(2) by blast
next
  case True
  then have r: "sqlite3VdbeMemNulTerminate E p h = vdbeMemAddTerminator E p h" by (simp add: sqlite3VdbeMemNulTerminate_def)
  have "bit (mem_flags p AND (MEM_Term OR MEM_Str)) 1" unfolding True by simp
  then have b: "bit (mem_flags p) 1" by (simp add: bit_and_iff)
  have b': "bit (mem_flags p) 1 \<or> bit (mem_flags p) 4" "\<not> bit (mem_flags p) 14" using b text_facts [OF p(2) b] by blast+
  have s: "mem_small p" using n b by blast
  from E p b' s show ?thesis
  proof (cases rule: AddTerminator_holds [where h = h])
    case (ok q g)
    then show ?thesis using r holds_ok [OF ok(3) p(2)] by auto
  next
    case (nomem g)
    show ?thesis unfolding r nomem(1) by (intro exI conjI) (rule refl nomem(2) dropped_ok(1) | simp add: dropped_ok)+
  qed
qed

lemma ChangeEncoding_ok:
  assumes E: "env_ok E" and p: "mem_store_ok p" "mem_value_ok p" and x: "mem_asserts (MEncode e) (cell_of p) b"
  shows "\<exists>rc p' g. sqlite3VdbeChangeEncoding E p e h = Ret (rc, p', g) \<and> moves p h rc p' g \<and> mem_value_ok p' \<and>
    (rc = SQLITE_OK \<and> cell_of p' = recode e (cell_of p) \<or> rc = SQLITE_NOMEM \<and> cell_of p' = mem_fail (MEncode e) (cell_of p))"
proof (cases "bit (mem_flags p) 1 \<and> mem_enc p \<noteq> e")
  case False
  then have "sqlite3VdbeChangeEncoding E p e h = Ret (SQLITE_OK, p, h)" by (auto simp: sqlite3VdbeChangeEncoding_def flag_tests)
  moreover have "recode e (cell_of p) = cell_of p" using False by (auto simp: recode_def cell_of_def)
  ultimately show ?thesis using moves_refl [OF p(1), of h] p(2) by (intro exI [of _ SQLITE_OK] exI [of _ p] exI [of _ h]) simp
next
  case True
  then have b: "bit (mem_flags p) 1" and ne: "e \<noteq> mem_enc p" by blast+
  note t = text_facts [OF p(2) b]
  have c: "cell_of p = CText (mem_enc p) (content p)" using b by (simp add: cell_of_def)
  have r: "sqlite3VdbeChangeEncoding E p e h = sqlite3VdbeMemTranslate E p e h" using True by (auto simp: sqlite3VdbeChangeEncoding_def flag_tests)
  have s: "mem_n p \<le> 2 ^ 30 - 2" and e: "e \<in> {SQLITE_UTF8, SQLITE_UTF16LE, SQLITE_UTF16BE}" using x ne t(6) by (auto simp: mem_asserts_def c)
  from E p b s e ne show ?thesis
  proof (cases rule: Translate_ok [where h = h])
    case (ok q g)
    show ?thesis unfolding r ok(1) by (intro exI conjI, rule refl, rule ok(2), rule ok(3), rule disjI1) (use ok(4) ne in \<open>simp add: c recode_def\<close>)
  next
    case (nomem q g)
    show ?thesis unfolding r nomem(1) by (intro exI conjI, rule refl, rule nomem(2), rule nomem(3), rule disjI2) (use nomem(4) in \<open>simp add: c mem_fail_def\<close>)
  qed
qed

lemma MakeWriteable_call:
  assumes E: "env_ok E" and p: "mem_store_ok p" "mem_value_ok p" and n: "cell_small (cell_of p)"
  shows "\<exists>rc p' g. sqlite3VdbeMemMakeWriteable E p h = Ret (rc, p', g) \<and> moves p h rc p' g \<and> mem_value_ok p' \<and>
    (rc = SQLITE_OK \<and> cell_of p' = cell_of p \<or> rc = SQLITE_NOMEM \<and> cell_of p' = CNull)"
proof (cases "bit (mem_flags p) 1 \<or> bit (mem_flags p) 4")
  case True
  have s: "mem_small p" using small_cell [OF True] n by simp
  from E p True s show ?thesis
  proof (cases rule: MakeWriteable_ok [where h = h])
    case (ok q g)
    then show ?thesis using holds_ok [OF ok(3) p(2)] by auto
  next
    case (nomem q g)
    then show ?thesis by auto
  qed
next
  case False
  then have "mem_flags p AND (MEM_Str OR MEM_Blob) = 0" using string_test [of "mem_flags p"] by blast
  then have r: "sqlite3VdbeMemMakeWriteable E p h = Ret (SQLITE_OK, p\<lparr>mem_flags := mem_flags p AND NOT MEM_Ephem\<rparr>, h)"
    unfolding sqlite3VdbeMemMakeWriteable_def by simp
  show ?thesis unfolding r
    by (intro exI conjI, rule refl, rule moves_ephem [OF moves_refl [OF p(1)]]) (use ephem_cell(1) [OF p(2)] ephem_cell(2) [of p] False in auto)
qed

lemma mem_call1_ok:
  assumes E: "env_ok E" and l: "0 \<le> limit" "limit < 2 ^ 31 - 2" and p: "mem_store_ok p" "mem_value_ok p" "mem_store_ok q" "mem_value_ok q"
    and x: "mem_asserts x (cell_of p) (cell_of q)" "x \<noteq> MMove" "x \<noteq> MSwitch"
  shows "\<exists>rc rc' p' g. mem_call1 E limit x p q h = Ret (rc, p', g) \<and> moves p h rc' p' g \<and> mem_value_ok p' \<and>
    ((rc, cell_of p', cell_of q) = mem_result limit x (cell_of p, cell_of q) \<or>
     rc = SQLITE_NOMEM \<and> rc' = SQLITE_NOMEM \<and> allocates x \<and> cell_of p' = mem_fail x (cell_of p))"
proof (cases x)
  case (MSetStr z n enc d)
  show ?thesis
  proof (cases z)
    case None
    obtain p' g where s: "sqlite3VdbeMemSetNull E p h = (p', g)" by fastforce
    show ?thesis using SetNull_moves [OF p(1) s] s x MSetStr None
      by (intro exI [of _ SQLITE_OK] exI [of _ p'] exI [of _ g]) (simp add: mem_call1_def mem_result_def sqlite3VdbeMemSetStr_def)
  next
    case (Some w)
    let ?l = "text_length w n enc limit"
    have a: "str_arg w n enc" "d = SQLITE_DYNAMIC \<longrightarrow> w \<noteq> []" using x(1) MSetStr Some by (simp_all add: mem_asserts_def)
    have m: "mem_call1 E limit x p q h = sqlite3VdbeMemSetStr E limit p (Some w) n enc d (given d h)" using MSetStr Some by (simp add: mem_call1_def)
    show ?thesis
    proof (cases "d = SQLITE_TRANSIENT \<and> limit < ?l")
      case True
      have "?l + (if n < 0 then if enc = SQLITE_UTF8 then 1 else 2 else 0) < 2 ^ 31"
        using str_length_ok(3) [OF a(1) l] a(1) by (cases "0 \<le> n") (auto simp: str_arg_def)
      then have "(if n < 0 then int_add ?l (if enc = SQLITE_UTF8 then 1 else 2) else Ret ?l) =
          Ret (?l + (if n < 0 then if enc = SQLITE_UTF8 then 1 else 2 else 0))"
        using str_length_ok(2) [OF a(1) l] by (auto simp: int_add_def)
      then have "set_storage E limit p w ?l (n < 0) enc SQLITE_TRANSIENT h = Ret (SQLITE_TOOBIG, 0, p, h)"
        using True unfolding set_storage_def destructor.case by simp
      then have "mem_call1 E limit x p q h = Ret (SQLITE_TOOBIG, p, h)"
        unfolding m sqlite3VdbeMemSetStr_def option.case str_length_ok(1) [OF a(1) l] cbind.simps using True by (simp add: given_def)
      then show ?thesis using moves_refl [OF p(1), of h] p(2) x True MSetStr Some
        by (intro exI [of _ SQLITE_TOOBIG] exI [of _ SQLITE_OK] exI [of _ p] exI [of _ h]) (simp add: mem_result_def)
    next
      case False
      then have d: "d = SQLITE_TRANSIENT \<longrightarrow> ?l \<le> limit" by auto
      from E p(1) a(1) l a(2) d show ?thesis
      proof (cases rule: SetStr_ok [where h = h])
        case (set r g)
        show ?thesis unfolding m set(1)
          by (intro exI conjI, rule refl, rule set(2), rule set(3), rule disjI1) (use set(4) x(1) False MSetStr Some in \<open>auto simp: mem_result_def Let_def\<close>)
      next
        case (nomem r g)
        show ?thesis unfolding m nomem(1)
          by (intro exI conjI, rule refl, rule nomem(2), rule nomem(3), rule disjI2) (use nomem(4) MSetStr in \<open>simp add: mem_fail_def allocates_def\<close>)
      qed
    qed
  qed
next
  case MSetNull
  obtain p' g where s: "sqlite3VdbeMemSetNull E p h = (p', g)" by fastforce
  show ?thesis using SetNull_moves [OF p(1) s] s x MSetNull
    by (intro exI [of _ SQLITE_OK] exI [of _ p'] exI [of _ g]) (simp add: mem_call1_def mem_result_def)
next
  case (MZeroBlob n)
  obtain p' g where s: "sqlite3VdbeMemSetZeroBlob E p n h = (p', g)" by fastforce
  show ?thesis using SetZeroBlob_moves [OF p(1) s] s x MZeroBlob
    by (intro exI [of _ SQLITE_OK] exI [of _ p'] exI [of _ g]) (simp add: mem_call1_def mem_result_def)
next
  case MWriteable
  have "cell_small (cell_of p)" using x(1) MWriteable by (simp add: mem_asserts_def)
  from MakeWriteable_call [OF E p(1,2) this, of h] show ?thesis using x(1) MWriteable
    by (auto simp: mem_call1_def mem_result_def mem_fail_def allocates_def)
next
  case MExpand
  have cs: "cell_small (cell_of p)" using x(1) MExpand by (simp add: mem_asserts_def)
  show ?thesis
  proof (cases "bit (mem_flags p) 14")
    case False
    then have "mem_call1 E limit x p q h = Ret (SQLITE_OK, p, h)" using MExpand by (simp add: mem_call1_def flag_tests)
    then show ?thesis using moves_refl [OF p(1), of h] p(2) x MExpand
      by (intro exI [of _ SQLITE_OK] exI [of _ p] exI [of _ h]) (simp add: mem_result_def)
  next
    case True
    then have b: "bit (mem_flags p) 1 \<or> bit (mem_flags p) 4" using p(2) by (simp add: mem_value_ok_def)
    have s: "mem_small p" using small_cell [OF b] cs by simp
    have m: "mem_call1 E limit x p q h = sqlite3VdbeMemExpandBlob E p h" using True MExpand by (simp add: mem_call1_def flag_tests)
    from E p(1,2) True s show ?thesis
    proof (cases rule: ExpandBlob_holds [where h = h])
      case (ok r g)
      show ?thesis unfolding m ok(1)
        by (intro exI conjI, rule refl, rule ok(2)) (use holds_ok [OF ok(3) p(2)] x(1) MExpand in \<open>auto simp: mem_result_def\<close>)
    next
      case (nomem g)
      show ?thesis unfolding m nomem(1)
        by (intro exI conjI, rule refl, rule nomem(2), rule dropped_ok(1), rule disjI2) (use dropped_ok(2) MExpand in \<open>simp add: mem_fail_def allocates_def\<close>)
    qed
  qed
next
  case MTerminate
  have "bit (mem_flags p) 1 \<longrightarrow> mem_small p" using small_cell [of p] x(1) MTerminate by (auto simp: mem_asserts_def)
  from NulTerminate_ok [OF E p(1,2) this, of h] show ?thesis using x(1) MTerminate
    by (auto simp: mem_call1_def mem_result_def mem_fail_def allocates_def)
next
  case (MEncode e)
  from ChangeEncoding_ok [OF E p(1,2) x(1) [unfolded MEncode], of h] show ?thesis using x(1) MEncode
    by (auto simp: mem_call1_def mem_result_def allocates_def)
next
  case MCopy
  have n: "bit (mem_flags q) 1 \<or> bit (mem_flags q) 4 \<longrightarrow> mem_small q" using small_cell [of q] x(1) MCopy by (auto simp: mem_asserts_def)
  from E p(1,3,4) n show ?thesis
  proof (cases rule: Copy_ok [where h = h])
    case (ok r g)
    then show ?thesis using x(1) MCopy by (auto simp: mem_call1_def mem_result_def)
  next
    case (nomem r g)
    then show ?thesis using x(1) MCopy by (auto simp: mem_call1_def mem_fail_def allocates_def)
  qed
qed (use x in auto)

lemma mem_call_simulates:
  assumes E: "env_ok E" and l: "0 \<le> limit" "limit < 2 ^ 31 - 2" and r: "mem_rel u L n s ab"
  shows "\<exists>r s' ab'. mem_call E limit x s = Ret (r, s') \<and> mem_spec u limit x ab r ab' \<and> mem_rel u L k s' ab'"
proof -
  obtain p q h where s: "s = (p, q, h)" by (cases s)
  obtain a b where ab: "ab = (a, b)" by (cases ab)
  have p: "mem_store_ok p" "mem_value_ok p" "mem_store_ok q" "mem_value_ok q" "cell_of p = a" "cell_of q = b" using r by (simp_all add: mem_rel_def s ab)
  have r': "mem_rel u L k (p, q, h) (a, b)" using r by (simp add: mem_rel_def s ab)
  show ?thesis
  proof (cases "mem_asserts x a b")
    case False
    then show ?thesis using r' p by (intro exI [of _ NOT_CALLED] exI [of _ s] exI [of _ ab]) (simp add: s ab mem_call_def mem_spec_def mem_result_def)
  next
    case True
    consider "x = MMove" | "x = MSwitch" | "x \<noteq> MMove" "x \<noteq> MSwitch" by blast
    then show ?thesis
    proof cases
      case 1
      obtain t g where rel: "sqlite3VdbeMemRelease E p h = (t, g)" by fastforce
      let ?q = "(cell_part q q)\<lparr>mem_flags := MEM_Null, szMalloc := 0, zMalloc := []\<rparr>"
      have m: "mem_call E limit x s = Ret (SQLITE_OK, q, ?q, g)" using True 1 p rel by (simp add: mem_call_def s sqlite3VdbeMemMove_def)
      have "mem_spec u limit x ab SQLITE_OK (b, CNull)" using True 1 by (simp add: mem_spec_def mem_result_def ab)
      moreover have "mem_rel u L k (q, ?q, g) (b, CNull)"
        using r' p(3,4) Release_live [OF p(1) rel] by (auto simp: mem_rel_def cell_part_def mem_store_ok_def mem_value_ok_def cell_of_def mem_blocks_def)
      ultimately show ?thesis using m by blast
    next
      case 2
      have "mem_rel u L k (q, p, h) (b, a)" using r' by (auto simp: mem_rel_def)
      then show ?thesis using True 2 p
        by (intro exI [of _ SQLITE_OK] exI [of _ "(q, p, h)"] exI [of _ "(b, a)"]) (simp add: s ab mem_call_def mem_spec_def mem_result_def)
    next
      case 3
      have x: "mem_asserts x (cell_of p) (cell_of q)" using True p(5,6) by simp
      obtain rc rc' p' g where c: "mem_call1 E limit x p q h = Ret (rc, p', g)" "moves p h rc' p' g" "mem_value_ok p'"
          "(rc, cell_of p', cell_of q) = mem_result limit x (cell_of p, cell_of q) \<or>
           rc = SQLITE_NOMEM \<and> rc' = SQLITE_NOMEM \<and> allocates x \<and> cell_of p' = mem_fail x (cell_of p)"
        using mem_call1_ok [OF E l p(1-4) x 3, of h] by blast
      note mm = mem_moved [OF r' c(2,3)]
      have m: "mem_call E limit x s = Ret (rc, p', q, g)" using x 3 c(1) by (cases x) (simp_all add: mem_call_def s)
      have "mem_spec u limit x ab rc (cell_of p', b)" using c(4) mm(2) p(5,6) by (auto simp: mem_spec_def ab)
      then show ?thesis using m mm(1) [of k] by blast
    qed
  qed
qed

interpretation mem_sim: forward_simulation "mem_call E limit" "mem_spec u limit"
    "\<lambda>n s a. mem_rel u L n s a \<and> env_ok E \<and> 0 \<le> limit \<and> limit < 2 ^ 31 - 2" "\<lambda>_. True" for E limit u L
proof (unfold_locales, elim conjE)
  fix n s a x assume r: "mem_rel u L (Suc n) s a" and E: "env_ok E" and l: "0 \<le> limit" "limit < 2 ^ 31 - 2"
  obtain r s' a' where "mem_call E limit x s = Ret (r, s')" "mem_spec u limit x a r a'" "mem_rel u L n s' a'"
    using mem_call_simulates [OF E l r, of x n] by blast
  then show "\<exists>r s' a'. mem_call E limit x s = Ret (r, s') \<and> mem_spec u limit x a r a' \<and>
      mem_rel u L n s' a' \<and> env_ok E \<and> 0 \<le> limit \<and> limit < 2 ^ 31 - 2" using E l by blast
qed

lemma mem_run:
  assumes E: "env_ok E" and l: "0 \<le> limit" "limit \<le> 1000000000"
  shows "\<exists>rs p q h' ab. run_steps (mem_call E limit) xs (null_mem, null_mem, h) = Ret (rs, p, q, h') \<and>
    spec_steps (mem_spec (outcomes h \<noteq> []) limit) xs (CNull, CNull) rs ab \<and> mem_rel (outcomes h \<noteq> []) (live h) 0 (p, q, h') ab"
proof -
  let ?u = "outcomes h \<noteq> []" and ?s = "(null_mem, null_mem, h)"
  have "mem_rel ?u (live h) (length xs + 0) ?s (CNull, CNull)"
    by (simp add: mem_rel_def mem_store_ok_def mem_value_ok_def cell_of_def mem_blocks_def null_mem_def)
  then have "mem_rel ?u (live h) (length xs + 0) ?s (CNull, CNull) \<and> env_ok E \<and> 0 \<le> limit \<and> limit < 2 ^ 31 - 2" using E l by simp
  from mem_sim.steps_simulate [OF this] obtain rs s ab where "run_steps (mem_call E limit) xs ?s = Ret (rs, s)"
      "spec_steps (mem_spec ?u limit) xs (CNull, CNull) rs ab" "mem_rel ?u (live h) 0 s ab" by (auto simp: list_all_iff)
  then show ?thesis by (cases s) blast
qed

lemma check_invariants: "mem_store_ok p \<Longrightarrow> mem_value_ok p \<Longrightarrow> sqlite3VdbeCheckMemInvariants p"
proof -
  assume s: "mem_store_ok p" and v: "mem_value_ok p"
  have e: "(mem_flags p AND MEM_Ephem = 0) = (\<not> bit (mem_flags p) 12)" using flag_test [of "mem_flags p" 12] by simp
  have ir: "mem_flags p AND (MEM_Int OR MEM_Real) \<noteq> (MEM_Int OR MEM_Real)"
  proof
    assume eq: "mem_flags p AND (MEM_Int OR MEM_Real) = (MEM_Int OR MEM_Real)"
    have "bit (mem_flags p AND (MEM_Int OR MEM_Real)) 2" "bit (mem_flags p AND (MEM_Int OR MEM_Real)) 3" unfolding eq by simp_all
    then show False using v by (simp add: bit_and_iff mem_value_ok_def)
  qed
  have z: "(0 < szMalloc p \<and> mem_z p = ZMalloc) = (mem_z p = ZMalloc)" using s by (auto simp: mem_store_ok_def)
  have "one_home p" if "mem_flags p AND (MEM_Str OR MEM_Blob) \<noteq> 0" "0 < mem_n p"
    using v that string_test [of "mem_flags p"] unfolding mem_value_ok_def by blast
  then show ?thesis using s ir unfolding sqlite3VdbeCheckMemInvariants_def z e flag_tests one_home_def by (auto simp: mem_store_ok_def)
qed

lemma text_cell: "cell_of p = CText e s \<Longrightarrow> bit (mem_flags p) 1 \<and> mem_enc p = e \<and> content p = s"
  by (auto simp: cell_of_def split: if_splits)

lemma encode_chars:
  assumes E: "env_ok E" and p: "mem_store_ok p" "mem_value_ok p" "cell_of p = CText SQLITE_UTF8 (concat (map WRITE_UTF8 cs))"
    and g: "\<forall>c \<in> set cs. utf8_good c" and e: "e \<in> {SQLITE_UTF16LE, SQLITE_UTF16BE}" and n: "mem_n p \<le> 1000000000" and h: "outcomes h = []"
  obtains q g where "sqlite3VdbeMemTranslate E p e h = Ret (SQLITE_OK, q, g)" "moves p h SQLITE_OK q g" "mem_value_ok q"
      "cell_of q = CText e (concat (map (WRITE_UTF16 (e \<noteq> SQLITE_UTF16LE)) cs))"
proof -
  note t = text_cell [OF p(3)]
  have b: "bit (mem_flags p) 1" using t by blast
  have s: "mem_n p \<le> 2 ^ 30 - 2" "e \<in> {SQLITE_UTF8, SQLITE_UTF16LE, SQLITE_UTF16BE}" "e \<noteq> mem_enc p" using n e t by auto
  from E p(1,2) b s show thesis
  proof (cases rule: Translate_ok [where h = h])
    case (ok q k)
    show thesis by (rule that [OF ok(1-3)]) (use ok(4) t transcode_chars(1) [OF g, of e] in simp)
  next
    case (nomem q k)
    then show thesis using h by (simp add: moves_def)
  qed
qed

lemma overlong_text:
  "2 ^ 30 \<le> mem_n p \<Longrightarrow> mem_enc p \<noteq> SQLITE_UTF8 \<Longrightarrow> sqlite3VdbeMemTranslate E p SQLITE_UTF8 h = Fault"
proof -
  assume n: "2 ^ 30 \<le> mem_n p" and e: "mem_enc p \<noteq> SQLITE_UTF8"
  have "2 ^ 30 \<le> mem_n p - mem_n p mod 2" using n by simp presburger
  then have "int_add (mem_n p AND NOT 1) (mem_n p AND NOT 1) = Fault" unfolding and_not_1 by (simp add: int_add_def)
  then show ?thesis by (simp add: sqlite3VdbeMemTranslate_def Let_def)
qed

section \<open>Properties\<close>

text \<open>C11: Any sequence of calls on two values - setting them to texts and blobs of every kind of ownership, changing
  their encoding, making them writable, terminating, expanding, copying, moving - returns without a memory error and
  does to their contents what the specification says, whatever the bytes of the texts are and whichever allocations fail.\<close>

theorem mem_refines:
  assumes "env_ok E" "0 \<le> limit" "limit \<le> 1000000000"
  shows "\<exists>rs p q h' ab. run_steps (mem_call E limit) xs (null_mem, null_mem, h) = Ret (rs, p, q, h') \<and>
    spec_steps (mem_spec (outcomes h \<noteq> []) limit) xs (CNull, CNull) rs ab \<and> cell_of p = fst ab \<and> cell_of q = snd ab"
proof -
  obtain rs p q h' ab where "run_steps (mem_call E limit) xs (null_mem, null_mem, h) = Ret (rs, p, q, h')"
      "spec_steps (mem_spec (outcomes h \<noteq> []) limit) xs (CNull, CNull) rs ab" "mem_rel (outcomes h \<noteq> []) (live h) 0 (p, q, h') ab"
    using mem_run [OF assms] by blast
  then show ?thesis unfolding mem_rel_def by (cases ab) fastforce
qed

text \<open>C16: After any such sequence both values satisfy the invariant that the program asserts of every value.\<close>

theorem mem_invariants:
  assumes "env_ok E" "0 \<le> limit" "limit \<le> 1000000000"
  shows "\<exists>rs p q h'. run_steps (mem_call E limit) xs (null_mem, null_mem, h) = Ret (rs, p, q, h') \<and>
    sqlite3VdbeCheckMemInvariants p \<and> sqlite3VdbeCheckMemInvariants q"
proof -
  obtain rs p q h' ab where r: "run_steps (mem_call E limit) xs (null_mem, null_mem, h) = Ret (rs, p, q, h')"
      "mem_rel (outcomes h \<noteq> []) (live h) 0 (p, q, h') ab"
    using mem_run [OF assms] by blast
  have "mem_store_ok p \<and> mem_value_ok p \<and> mem_store_ok q \<and> mem_value_ok q" using r(2) by (auto simp: mem_rel_def)
  then show ?thesis using r(1) check_invariants by blast
qed

text \<open>C19: Releasing both values after any such sequence frees every block that was allocated for them or handed over
  to them, once.\<close>

theorem mem_lifecycle:
  assumes "env_ok E" "0 \<le> limit" "limit \<le> 1000000000"
  shows "\<exists>rs p q h' p' q' h1 h2. run_steps (mem_call E limit) xs (null_mem, null_mem, h) = Ret (rs, p, q, h') \<and>
    sqlite3VdbeMemRelease E p h' = (p', h1) \<and> sqlite3VdbeMemRelease E q h1 = (q', h2) \<and> live h2 = live h"
proof -
  obtain rs p q h' ab where r: "run_steps (mem_call E limit) xs (null_mem, null_mem, h) = Ret (rs, p, q, h')"
      "mem_rel (outcomes h \<noteq> []) (live h) 0 (p, q, h') ab"
    using mem_run [OF assms] by blast
  have s: "mem_store_ok p" "mem_store_ok q" "live h' = mem_blocks p + mem_blocks q + live h" using r(2) by (auto simp: mem_rel_def)
  obtain p' h1 q' h2 where rel: "sqlite3VdbeMemRelease E p h' = (p', h1)" "sqlite3VdbeMemRelease E q h1 = (q', h2)" by fastforce
  show ?thesis using r(1) rel Release_live(1) [OF s(1) rel(1)] Release_live(1) [OF s(2) rel(2)] s(3) by auto
qed

text \<open>C17: A well-formed text in UTF-8 translated to UTF-16 is the same characters in UTF-16, and translated back it
  is the text again, byte for byte.\<close>

theorem utf_translate_roundtrip:
  assumes "env_ok E" "mem_ok p" "cell_of p = CText SQLITE_UTF8 (concat (map WRITE_UTF8 cs))" "\<forall>c \<in> set cs. utf8_good c"
    "e \<in> {SQLITE_UTF16LE, SQLITE_UTF16BE}" "mem_n p < 2 ^ 29" "outcomes h = []"
  shows "\<exists>q g r k. sqlite3VdbeMemTranslate E p e h = Ret (SQLITE_OK, q, g) \<and>
    cell_of q = CText e (concat (map (WRITE_UTF16 (e = SQLITE_UTF16BE)) cs)) \<and>
    sqlite3VdbeMemTranslate E q SQLITE_UTF8 g = Ret (SQLITE_OK, r, k) \<and> cell_of r = cell_of p"
proof -
  have p: "mem_store_ok p" "mem_value_ok p" "mem_n p \<le> 1000000000" using assms(2,6) by (simp_all add: mem_ok_def)
  obtain q g where q: "sqlite3VdbeMemTranslate E p e h = Ret (SQLITE_OK, q, g)" "moves p h SQLITE_OK q g" "mem_value_ok q"
      "cell_of q = CText e (concat (map (WRITE_UTF16 (e \<noteq> SQLITE_UTF16LE)) cs))"
    using encode_chars [OF assms(1) p(1,2) assms(3-5) p(3) assms(7)] by metis
  note t = text_cell [OF q(4)]
  have sq: "mem_store_ok q" "bit (mem_flags q) 1" "outcomes g = []" using q(2) t assms(7) by (simp_all add: moves_def)
  have be: "(e \<noteq> SQLITE_UTF16LE) = (e = SQLITE_UTF16BE)" "e \<noteq> SQLITE_UTF8" using assms(5) by auto
  have "int (length (content p)) = mem_n p" "content p = concat (map WRITE_UTF8 cs)"
    using text_facts(6) [OF p(2)] text_cell [OF assms(3)] by simp_all
  then have "length (content q) \<le> 2 * nat (mem_n p)"
    using transcode_bound(1) [of SQLITE_UTF8 e "content p"] transcode_chars(1) [OF assms(4), of e] t by simp
  then have n: "mem_n q \<le> 2 ^ 30 - 2" using text_facts(6) [OF q(3) sq(2)] assms(6) by simp
  have d: "SQLITE_UTF8 \<in> {SQLITE_UTF8, SQLITE_UTF16LE, SQLITE_UTF16BE}" "SQLITE_UTF8 \<noteq> mem_enc q" using t be by simp_all
  from assms(1) sq(1) q(3) sq(2) n d obtain r k where "sqlite3VdbeMemTranslate E q SQLITE_UTF8 g = Ret (SQLITE_OK, r, k)"
      "cell_of r = CText SQLITE_UTF8 (transcode (mem_enc q) SQLITE_UTF8 (content q))"
  proof (cases rule: Translate_ok [where h = g])
    case (nomem r k)
    then show ?thesis using sq(3) by (simp add: moves_def)
  qed blast
  then show ?thesis using q(1,4) t transcode_chars(2) [OF assms(4) be(2)] assms(3) unfolding be(1) by (metis (no_types, lifting))
qed

text \<open>C18: \<open>sqlite3Utf16to8\<close> gives the text of any bytes in UTF-16, whose byte-order mark decides the order, as a
  terminated text in UTF-8 in one new block, or a null pointer with nothing left allocated when memory runs out.\<close>

theorem utf16to8_exact:
  assumes E: "env_ok E" and z: "str_arg z n enc" "enc \<in> {SQLITE_UTF16LE, SQLITE_UTF16BE}" "length z \<le> 2 ^ 30 - 2"
    and l: "0 \<le> limit" "limit \<le> 1000000000"
    and t: "strip_bom enc (take (nat (text_length z n enc limit)) z) = CText e t"
  shows "\<exists>r h'. sqlite3Utf16to8 E limit (Some z) n enc h = Ret (r, h') \<and>
    (case r of None \<Rightarrow> outcomes h \<noteq> [] \<and> live h' = live h
     | Some b \<Rightarrow> live h' = live h + 1 \<and> (\<exists>zs. b = transcode e SQLITE_UTF8 t @ 0 # zs))"
proof -
  have s: "mem_store_ok null_mem" "mem_blocks null_mem = 0" "bit (mem_flags null_mem) 1 = False"
    by (simp_all add: mem_store_ok_def mem_blocks_def null_mem_def)
  have l': "limit < 2 ^ 31 - 2" using l by simp
  have d: "SQLITE_STATIC = SQLITE_DYNAMIC \<longrightarrow> z \<noteq> []" "SQLITE_STATIC = SQLITE_TRANSIENT \<longrightarrow> text_length z n enc limit \<le> limit" by simp_all
  have gv: "given SQLITE_STATIC h = h" by (simp add: given_def)
  let ?rc = "if limit < text_length z n enc limit then SQLITE_TOOBIG else SQLITE_OK"
  from E s(1) z(1) l(1) l' d show ?thesis
  proof (cases rule: SetStr_ok [where h = h])
    case (set m g)
    have c: "cell_of m = CText e t" using set(4) z(2) t by (auto simp: set_cell_def)
    note tm = text_cell [OF c]
    have sm: "mem_store_ok m" "bit (mem_flags m) 1" using set(2) tm by (simp_all add: moves_def)
    have e: "e \<noteq> SQLITE_UTF8" using t z(2) bom_of_range
      by (auto simp: strip_bom_def bom_of_def split: if_splits elim!: bom_enc.elims)
    have "length t \<le> length z" using t by (auto simp: strip_bom_def split: if_splits)
    then have n: "mem_n m \<le> 2 ^ 30 - 2" using text_facts(6) [OF set(3) sm(2)] tm z(3) by simp
    have r0: "sqlite3Utf16to8 E limit (Some z) n enc h = cbind (sqlite3VdbeMemTranslate E m SQLITE_UTF8 g) (\<lambda>(rc', m, h).
        if rc' = SQLITE_NOMEM then case sqlite3VdbeMemRelease E m h of (m, h) \<Rightarrow> Ret (None, h)
        else Ret (if mem_z m = ZNull then None else Some (mem_bytes m), h))"
      unfolding sqlite3Utf16to8_def set(1) [unfolded gv] cbind.simps prod.case
      using sm(2) tm e by (simp add: sqlite3VdbeChangeEncoding_def flag_tests)
    have d8: "SQLITE_UTF8 \<in> {SQLITE_UTF8, SQLITE_UTF16LE, SQLITE_UTF16BE}" "SQLITE_UTF8 \<noteq> mem_enc m" using tm e by simp_all
    from E sm(1) set(3) sm(2) n d8 show ?thesis
    proof (cases rule: Translate_ok [where h = g])
      case (ok q k)
      obtain zs where q: "mem_z q = ZMalloc" "zMalloc q = transcode e SQLITE_UTF8 t @ [0] @ zs" using ok(5) tm by auto
      have mv: "moves null_mem h SQLITE_OK q k" by (rule moves_trans [OF set(2) ok(2)])
      have "mem_blocks q = 1" using mv q(1) by (auto simp: moves_def mem_store_ok_def mem_blocks_def)
      then have "live k = live h + 1" using mv s(2) by (simp add: moves_def)
      then show ?thesis unfolding r0 ok(1) using q by (simp add: mem_bytes_def)
    next
      case (nomem q k)
      have mv: "moves null_mem h SQLITE_NOMEM q k" by (rule moves_trans [OF set(2) nomem(2)])
      obtain q' k' where rel: "sqlite3VdbeMemRelease E q k = (q', k')" by fastforce
      have "live k' = live h" "outcomes h \<noteq> []" using Release_live(1) [OF _ rel] mv s(2) by (auto simp: moves_def)
      then show ?thesis unfolding r0 nomem(1) using rel by simp
    qed
  next
    case (nomem m g)
    have "mem_flags m AND MEM_Str = 0" using nomem(4) by (auto simp: cell_of_def flag_tests split: if_splits)
    then have ce: "sqlite3VdbeChangeEncoding E m SQLITE_UTF8 g = Ret (SQLITE_OK, m, g)" by (simp add: sqlite3VdbeChangeEncoding_def)
    obtain q' k' where rel: "sqlite3VdbeMemRelease E m g = (q', k')" by fastforce
    have "live k' = live h" "outcomes h \<noteq> []" using Release_live(1) [OF _ rel] nomem(2) s(2) by (auto simp: moves_def)
    then show ?thesis using nomem(1) [unfolded gv] ce rel by (simp add: sqlite3Utf16to8_def)
  qed
qed

text \<open>C29: A text in UTF-8 of \<open>2 ^ 29\<close> characters or more, well inside the length limit of a value, is translated to
  UTF-16, but translating it back overflows the \<^verbatim>\<open>int\<close> that computes the size of the output.\<close>

theorem utf_translate_back_overflows:
  assumes "env_ok E" "mem_ok p" "cell_of p = CText SQLITE_UTF8 (concat (map WRITE_UTF8 cs))" "\<forall>c \<in> set cs. utf8_good c"
    "e \<in> {SQLITE_UTF16LE, SQLITE_UTF16BE}" "2 ^ 29 \<le> length cs" "mem_n p \<le> 1000000000" "outcomes h = []"
  shows "\<exists>q g. sqlite3VdbeMemTranslate E p e h = Ret (SQLITE_OK, q, g) \<and> mem_ok q \<and> sqlite3VdbeMemTranslate E q SQLITE_UTF8 g = Fault"
proof -
  have p: "mem_store_ok p" "mem_value_ok p" using assms(2) by (simp_all add: mem_ok_def)
  obtain q g where q: "sqlite3VdbeMemTranslate E p e h = Ret (SQLITE_OK, q, g)" "moves p h SQLITE_OK q g" "mem_value_ok q"
      "cell_of q = CText e (concat (map (WRITE_UTF16 (e \<noteq> SQLITE_UTF16LE)) cs))"
    using encode_chars [OF assms(1) p assms(3-5,7,8)] by metis
  note t = text_cell [OF q(4)]
  have "2 * length cs \<le> length (concat (map (WRITE_UTF16 be) cs))" for be by (induction cs) (simp_all add: WRITE_UTF16_length)
  then have "2 * length cs \<le> length (content q)" using t by simp
  then have "2 ^ 30 \<le> mem_n q" using text_facts(6) [OF q(3)] t assms(6) by simp
  moreover have "mem_enc q \<noteq> SQLITE_UTF8" using t assms(5) by auto
  ultimately have "sqlite3VdbeMemTranslate E q SQLITE_UTF8 g = Fault" by (rule overlong_text)
  moreover have "mem_ok q" using q(2,3) by (simp add: mem_ok_def moves_def)
  ultimately show ?thesis using q(1) by blast
qed

section \<open>Witnesses\<close>

definition sample_mem_env :: mem_env where
  "sample_mem_env = \<lparr>block_size = (\<lambda>n. max 1 n), junk_byte = (\<lambda>_. 0xAA), xFinalize = (\<lambda>p h. (0, p, h)), rowset_clear = (\<lambda>_ h. h)\<rparr>"

definition free_heap :: heap where
  "free_heap = \<lparr>outcomes = [], live = 0\<rparr>"

lemma sample_mem_env_ok: "env_ok sample_mem_env"
  by (auto simp: env_ok_def sample_mem_env_def less_max_iff_disj)

text \<open>The text "h\<^verbatim>\<open>U+20AC\<close>\<^verbatim>\<open>U+1F600\<close>" as a static object, and any ASCII text.\<close>

definition static_text :: "byte list \<Rightarrow> Mem" where
  "static_text s = null_mem\<lparr>mem_flags := MEM_Str OR MEM_Static, mem_enc := SQLITE_UTF8, mem_n := int (length s), mem_z := ZExt s\<rparr>"

lemma static_text_ok: "mem_ok (static_text s) \<and> cell_of (static_text s) = CText SQLITE_UTF8 s \<and> mem_n (static_text s) = int (length s)"
  by (simp add: mem_ok_def mem_store_ok_def mem_value_ok_def cell_of_def content_def mem_bytes_def static_text_def null_mem_def one_home_def)

definition sample_mem_ops :: "mem_op list" where
  "sample_mem_ops = [MSetStr (Some [0xFF, 0xFE, 0x68, 0, 0, 0]) (- 1) SQLITE_UTF16BE SQLITE_TRANSIENT, MSwitch, MCopy, MEncode SQLITE_UTF8,
     MTerminate, MSetStr (Some [0x61, 0]) 1 SQLITE_UTF8 XDel, MMove, MZeroBlob 3, MWriteable, MSetStr (Some [1, 2]) 2 0 SQLITE_DYNAMIC]"

theorem mem_refines_witness:
  "\<exists>rs p q h' ab. run_steps (mem_call sample_mem_env 1000000000) sample_mem_ops (null_mem, null_mem, free_heap) = Ret (rs, p, q, h') \<and>
    spec_steps (mem_spec (outcomes free_heap \<noteq> []) 1000000000) sample_mem_ops (CNull, CNull) rs ab \<and> cell_of p = fst ab \<and> cell_of q = snd ab"
  by (rule mem_refines [OF sample_mem_env_ok]) simp_all

theorem mem_invariants_witness:
  "\<exists>rs p q h'. run_steps (mem_call sample_mem_env 1000000000) sample_mem_ops (null_mem, null_mem, free_heap) = Ret (rs, p, q, h') \<and>
    sqlite3VdbeCheckMemInvariants p \<and> sqlite3VdbeCheckMemInvariants q"
  by (rule mem_invariants [OF sample_mem_env_ok]) simp_all

theorem mem_lifecycle_witness:
  "\<exists>rs p q h' p' q' h1 h2. run_steps (mem_call sample_mem_env 1000000000) sample_mem_ops (null_mem, null_mem, free_heap) = Ret (rs, p, q, h') \<and>
    sqlite3VdbeMemRelease sample_mem_env p h' = (p', h1) \<and> sqlite3VdbeMemRelease sample_mem_env q h1 = (q', h2) \<and> live h2 = live free_heap"
  by (rule mem_lifecycle [OF sample_mem_env_ok]) simp_all

theorem utf_translate_roundtrip_witness:
  "\<exists>q g r k. sqlite3VdbeMemTranslate sample_mem_env (static_text (concat (map WRITE_UTF8 sample_chars))) SQLITE_UTF16BE free_heap = Ret (SQLITE_OK, q, g) \<and>
    cell_of q = CText SQLITE_UTF16BE (concat (map (WRITE_UTF16 (SQLITE_UTF16BE = SQLITE_UTF16BE)) sample_chars)) \<and>
    sqlite3VdbeMemTranslate sample_mem_env q SQLITE_UTF8 g = Ret (SQLITE_OK, r, k) \<and>
    cell_of r = cell_of (static_text (concat (map WRITE_UTF8 sample_chars)))"
proof (rule utf_translate_roundtrip [OF sample_mem_env_ok])
  show "mem_n (static_text (concat (map WRITE_UTF8 sample_chars))) < 2 ^ 29"
    using static_text_ok [of "concat (map WRITE_UTF8 sample_chars)"] unfolding sample_text by simp
qed (use static_text_ok [of "concat (map WRITE_UTF8 sample_chars)"] sample_chars_good in \<open>simp_all add: free_heap_def\<close>)

theorem utf16to8_exact_witness:
  "\<exists>r h'. sqlite3Utf16to8 sample_mem_env 1000000000 (Some [0xFF, 0xFE, 0x68, 0, 0, 0]) (- 1) SQLITE_UTF16BE free_heap = Ret (r, h') \<and>
    (case r of None \<Rightarrow> outcomes free_heap \<noteq> [] \<and> live h' = live free_heap
     | Some b \<Rightarrow> live h' = live free_heap + 1 \<and> (\<exists>zs. b = transcode SQLITE_UTF16LE SQLITE_UTF8 [0x68, 0] @ 0 # zs))"
proof (rule utf16to8_exact [OF sample_mem_env_ok])
  show "strip_bom SQLITE_UTF16BE (take (nat (text_length [0xFF, 0xFE, 0x68, 0, 0, 0] (- 1) SQLITE_UTF16BE 1000000000)) [0xFF, 0xFE, 0x68, 0, 0, 0]) =
      CText SQLITE_UTF16LE [0x68, 0]" by code_simp
qed (simp_all add: str_arg_def)

lemma ascii_text: "concat (map WRITE_UTF8 (replicate n 0x61)) = replicate n 0x61"
  by (induction n) (simp_all add: WRITE_UTF8_def)

theorem utf_translate_back_overflows_witness:
  "\<exists>n q g. sqlite3VdbeMemTranslate sample_mem_env (static_text (concat (map WRITE_UTF8 (replicate n 0x61)))) SQLITE_UTF16LE free_heap = Ret (SQLITE_OK, q, g) \<and>
    mem_ok q \<and> sqlite3VdbeMemTranslate sample_mem_env q SQLITE_UTF8 g = Fault"
proof -
  define n :: nat where "n = 2 ^ 29"
  have n: "2 ^ 29 \<le> n" "int n \<le> 1000000000" by (simp_all add: n_def)
  note st = static_text_ok [of "concat (map WRITE_UTF8 (replicate n 0x61))"]
  have len: "length (concat (map WRITE_UTF8 (replicate n 0x61))) = n" unfolding ascii_text by (rule length_replicate)
  have g: "\<forall>c \<in> set (replicate n 0x61). utf8_good c" by (auto simp: utf8_good_def)
  have a: "2 ^ 29 \<le> length (replicate n (0x61 :: u32))" unfolding length_replicate by (rule n(1))
  have m: "mem_n (static_text (concat (map WRITE_UTF8 (replicate n 0x61)))) \<le> 1000000000" using st len n(2) by simp
  show ?thesis
    using utf_translate_back_overflows [OF sample_mem_env_ok conjunct1 [OF st] conjunct1 [OF conjunct2 [OF st]] g _ a m, of SQLITE_UTF16LE free_heap]
    by (auto simp: free_heap_def)
qed

end
