(* ===== verification/Pb_Wire.thy ===== *)
theory Pb_Wire
  imports C_Prelude
begin

unbundle bit_operations_syntax

text \<open>
  The wire format of nanopb (\<^verbatim>\<open>pb_encode.c\<close>, \<^verbatim>\<open>pb_decode.c\<close>), the Protocol Buffers library under the
  Firestore client: input and output streams over memory buffers, variable-length and fixed integers,
  tags, strings, skipping and substreams. The build defines \<^verbatim>\<open>PB_FIELD_32BIT\<close> and \<^verbatim>\<open>PB_ENABLE_MALLOC\<close>.

  A function that returns \<^verbatim>\<open>bool\<close> and stores a result is a function on the stream that gives \<open>Some\<close> value
  or \<open>None\<close> for \<^verbatim>\<open>false\<close>, and the stream afterwards; \<open>pb_bind\<close> is the idiom
  \<^verbatim>\<open>if (!f(...)) return false;\<close>. The streams are those of \<^verbatim>\<open>pb_istream_from_buffer\<close> and
  \<^verbatim>\<open>pb_ostream_from_buffer\<close> and the sizing stream \<^verbatim>\<open>PB_OSTREAM_SIZING\<close>, whose callback is null.
  \<open>istate\<close> holds the bytes from the read pointer to the end of the object it points into, \<open>odest\<close> what
  has been stored and \<open>oroom\<close> how many bytes of the destination object are left, so that running past
  either object is \<open>Fault\<close>. A \<^verbatim>\<open>size_t\<close> has 64 bits and a \<^verbatim>\<open>uint_fast8_t\<close> 8 bits.
\<close>

section \<open>Streams\<close>

record pb_istream =
  istate :: "byte list"
  bytes_left :: nat
  ierrmsg :: "string option"

record pb_ostream =
  ocallback :: bool
  odest :: "byte list"
  oroom :: nat
  max_size :: nat
  bytes_written :: nat
  oerrmsg :: "string option"

type_synonym ('s, 'a) pb = "'s \<Rightarrow> ('a option \<times> 's) cres"

definition pb_return :: "'a \<Rightarrow> ('s, 'a) pb" where
  "pb_return x = (\<lambda>s. Ret (Some x, s))"

definition pb_bind :: "('s, 'a) pb \<Rightarrow> ('a \<Rightarrow> ('s, 'b) pb) \<Rightarrow> ('s, 'b) pb" where
  "pb_bind m f = (\<lambda>s. cbind (m s) (\<lambda>(r, s). case r of None \<Rightarrow> Ret (None, s) | Some x \<Rightarrow> f x s))"

text \<open>\<^verbatim>\<open>PB_RETURN_ERROR\<close>: the first message stays.\<close>

definition ierror :: "string \<Rightarrow> (pb_istream, 'a) pb" where
  "ierror msg = (\<lambda>s. Ret (None, s\<lparr>ierrmsg := (case ierrmsg s of None \<Rightarrow> Some msg | m \<Rightarrow> m)\<rparr>))"

definition oerror :: "string \<Rightarrow> (pb_ostream, 'a) pb" where
  "oerror msg = (\<lambda>s. Ret (None, s\<lparr>oerrmsg := (case oerrmsg s of None \<Rightarrow> Some msg | m \<Rightarrow> m)\<rparr>))"

datatype pb_wire_type = PB_WT_VARINT | PB_WT_64BIT | PB_WT_STRING | PB_WT_32BIT | PB_WT_OTHER nat

definition wire_code :: "pb_wire_type \<Rightarrow> nat" where
  "wire_code w = (case w of PB_WT_VARINT \<Rightarrow> 0 | PB_WT_64BIT \<Rightarrow> 1 | PB_WT_STRING \<Rightarrow> 2 | PB_WT_32BIT \<Rightarrow> 5 | PB_WT_OTHER n \<Rightarrow> n)"

definition wire_type_of :: "nat \<Rightarrow> pb_wire_type" where
  "wire_type_of n = (if n = 0 then PB_WT_VARINT else if n = 1 then PB_WT_64BIT else if n = 2 then PB_WT_STRING
     else if n = 5 then PB_WT_32BIT else PB_WT_OTHER n)"

section \<open>Reading\<close>

definition pb_istream_from_buffer :: "byte list \<Rightarrow> nat \<Rightarrow> pb_istream" where
  "pb_istream_from_buffer buf bufsize = \<lparr>istate = buf, bytes_left = bufsize, ierrmsg = None\<rparr>"

definition buf_read :: "nat \<Rightarrow> (pb_istream, byte list) pb" where
  "buf_read count s =
     (if count \<le> length (istate s) then Ret (Some (take count (istate s)), s\<lparr>istate := drop count (istate s)\<rparr>)
      else Fault)"

definition pb_read :: "nat \<Rightarrow> (pb_istream, byte list) pb" where
  "pb_read count s =
     (if count = 0 then Ret (Some [], s)
      else if bytes_left s < count then ierror ''end-of-stream'' s
      else pb_bind (buf_read count) (\<lambda>bs s. Ret (Some bs, s\<lparr>bytes_left := bytes_left s - count\<rparr>)) s)"

definition pb_readbyte :: "(pb_istream, byte) pb" where
  "pb_readbyte s =
     (if bytes_left s = 0 then ierror ''end-of-stream'' s
      else pb_bind (buf_read 1) (\<lambda>bs s. Ret (Some (hd bs), s\<lparr>bytes_left := bytes_left s - 1\<rparr>)) s)"

lemma pb_readbyte_Ret:
  "pb_readbyte s = Ret (Some b, s') \<Longrightarrow> bytes_left s' < bytes_left s"
  by (auto simp: pb_readbyte_def ierror_def pb_bind_def buf_read_def split: if_split_asm)

text \<open>The loop of \<^verbatim>\<open>pb_decode_varint\<close>: \<open>bitpos\<close> and \<open>result\<close> are its variables.\<close>

function varint_loop :: "nat \<Rightarrow> u64 \<Rightarrow> (pb_istream, u64) pb" where
  "varint_loop bitpos result s =
     (if bitpos \<ge> 64 then ierror ''varint overflow'' s
      else cbind (pb_readbyte s) (\<lambda>(r, s).
        case r of None \<Rightarrow> Ret (None, s)
        | Some b \<Rightarrow>
          let result = result OR push_bit bitpos (ucast (b AND 0x7f)) in
          if b AND 0x80 \<noteq> 0 then varint_loop (bitpos + 7) result s else Ret (Some result, s)))"
  by pat_completeness auto
termination
  by (relation "measure (\<lambda>(k, r, s). bytes_left s)") (auto dest: pb_readbyte_Ret)

declare varint_loop.simps [simp del]

definition pb_decode_varint :: "(pb_istream, u64) pb" where
  "pb_decode_varint = varint_loop 0 0"

text \<open>The loop of \<^verbatim>\<open>pb_decode_varint32_eof\<close>: the result, \<open>bitpos\<close> and the last byte.\<close>

function varint32_loop :: "nat \<Rightarrow> u32 \<Rightarrow> (pb_istream, u32 \<times> nat \<times> byte) pb" where
  "varint32_loop bitpos result s =
     cbind (pb_readbyte s) (\<lambda>(r, s).
       case r of None \<Rightarrow> Ret (None, s)
       | Some b \<Rightarrow>
         if bitpos \<ge> 32 \<and> b AND 0x7f \<noteq> 0 \<and>
            (drop_bit 31 result = 0 \<or> b \<noteq> (if bitpos < 63 then 0xff else 0x01))
         then ierror ''varint overflow'' s
         else let result = (if bitpos \<ge> 32 then result else result OR push_bit bitpos (ucast (b AND 0x7f)));
                  bitpos = (bitpos + 7) mod 256 in
         if b AND 0x80 \<noteq> 0 then varint32_loop bitpos result s else Ret (Some (result, bitpos, b), s))"
  by pat_completeness auto
termination
  by (relation "measure (\<lambda>(k, r, s). bytes_left s)") (auto dest: pb_readbyte_Ret)

declare varint32_loop.simps [simp del]

text \<open>The third component says whether \<^verbatim>\<open>*eof\<close> is set.\<close>

definition pb_decode_varint32_eof :: "pb_istream \<Rightarrow> (u32 option \<times> bool \<times> pb_istream) cres" where
  "pb_decode_varint32_eof s =
     cbind (pb_readbyte s) (\<lambda>(r, s).
       case r of None \<Rightarrow> Ret (None, bytes_left s = 0, s)
       | Some b \<Rightarrow>
         if b AND 0x80 = 0 then Ret (Some (ucast b), False, s)
         else cbind (varint32_loop 7 (ucast (b AND 0x7f)) s) (\<lambda>(r, s).
           case r of None \<Rightarrow> Ret (None, False, s)
           | Some (result, bitpos, b) \<Rightarrow>
             if bitpos = 35 \<and> b AND 0x70 \<noteq> 0
             then cbind (ierror ''varint overflow'' s) (\<lambda>(r, s). Ret (r, False, s))
             else Ret (Some result, False, s)))"

definition pb_decode_varint32 :: "(pb_istream, u32) pb" where
  "pb_decode_varint32 s = cbind (pb_decode_varint32_eof s) (\<lambda>(r, eof, s). Ret (r, s))"

function pb_skip_varint :: "(pb_istream, unit) pb" where
  "pb_skip_varint s =
     cbind (pb_read 1 s) (\<lambda>(r, s').
       case r of None \<Rightarrow> Ret (None, s')
       | Some bs \<Rightarrow> if hd bs AND 0x80 \<noteq> 0 then pb_skip_varint s' else Ret (Some (), s'))"
  by pat_completeness auto
termination
  by (relation "measure bytes_left") (auto simp: pb_read_def ierror_def pb_bind_def buf_read_def split: if_split_asm)

declare pb_skip_varint.simps [simp del]

definition pb_skip_string :: "(pb_istream, unit) pb" where
  "pb_skip_string = pb_bind pb_decode_varint32 (\<lambda>length. pb_bind (pb_read (unat length)) (\<lambda>_. pb_return ()))"

text \<open>Wire type, tag and end-of-message flag; \<open>None\<close> in the first component is \<^verbatim>\<open>false\<close>.\<close>

definition pb_decode_tag :: "pb_istream \<Rightarrow> ((pb_wire_type \<times> nat) option \<times> bool \<times> pb_istream) cres" where
  "pb_decode_tag s =
     cbind (pb_decode_varint32_eof s) (\<lambda>(r, eof, s).
       case r of None \<Rightarrow> Ret (None, eof, s)
       | Some temp \<Rightarrow>
         if temp = 0 then Ret (None, True, s)
         else Ret (Some (wire_type_of (unat (temp AND 7)), unat (drop_bit 3 temp)), eof, s))"

definition pb_skip_field :: "pb_wire_type \<Rightarrow> (pb_istream, unit) pb" where
  "pb_skip_field wire_type =
     (case wire_type of
        PB_WT_VARINT \<Rightarrow> pb_skip_varint
      | PB_WT_64BIT \<Rightarrow> pb_bind (pb_read 8) (\<lambda>_. pb_return ())
      | PB_WT_STRING \<Rightarrow> pb_skip_string
      | PB_WT_32BIT \<Rightarrow> pb_bind (pb_read 4) (\<lambda>_. pb_return ())
      | PB_WT_OTHER _ \<Rightarrow> ierror ''invalid wire_type'')"

text \<open>Reading the raw bytes of a value; the result is the filled part of the buffer.\<close>

fun raw_varint_loop :: "nat \<Rightarrow> byte list \<Rightarrow> (pb_istream, byte list) pb" where
  "raw_varint_loop 0 acc s = Ret (None, s)"
| "raw_varint_loop (Suc n) acc s =
     cbind (pb_read 1 s) (\<lambda>(r, s).
       case r of None \<Rightarrow> Ret (None, s)
       | Some bs \<Rightarrow> if hd bs AND 0x80 \<noteq> 0 then raw_varint_loop n (acc @ bs) s else Ret (Some (acc @ bs), s))"

definition read_raw_value :: "pb_wire_type \<Rightarrow> nat \<Rightarrow> (pb_istream, byte list) pb" where
  "read_raw_value wire_type maxsize =
     (case wire_type of
        PB_WT_VARINT \<Rightarrow> raw_varint_loop maxsize []
      | PB_WT_64BIT \<Rightarrow> pb_read 8
      | PB_WT_32BIT \<Rightarrow> pb_read 4
      | _ \<Rightarrow> ierror ''invalid wire_type'')"

definition pb_make_string_substream :: "(pb_istream, pb_istream) pb" where
  "pb_make_string_substream =
     pb_bind pb_decode_varint32 (\<lambda>size s.
       if bytes_left s < unat size then ierror ''parent stream too short'' s
       else Ret (Some (s\<lparr>bytes_left := unat size\<rparr>), s\<lparr>bytes_left := bytes_left s - unat size\<rparr>))"

definition pb_close_string_substream :: "pb_istream \<Rightarrow> (pb_istream, unit) pb" where
  "pb_close_string_substream substream s =
     cbind (if bytes_left substream \<noteq> 0 then pb_read (bytes_left substream) substream else Ret (Some [], substream))
       (\<lambda>(r, substream).
          case r of None \<Rightarrow> Ret (None, s)
          | Some _ \<Rightarrow> Ret (Some (), s\<lparr>istate := istate substream, ierrmsg := ierrmsg substream\<rparr>))"

definition zigzag_decode :: "u64 \<Rightarrow> u64" where
  "zigzag_decode value = (if value AND 1 \<noteq> 0 then NOT (drop_bit 1 value) else drop_bit 1 value)"

definition pb_decode_svarint :: "(pb_istream, u64) pb" where
  "pb_decode_svarint = pb_bind pb_decode_varint (\<lambda>value. pb_return (zigzag_decode value))"

definition pb_decode_bool :: "(pb_istream, bool) pb" where
  "pb_decode_bool = pb_bind pb_decode_varint32 (\<lambda>value. pb_return (value \<noteq> 0))"

definition pb_decode_fixed32 :: "(pb_istream, u32) pb" where
  "pb_decode_fixed32 = pb_bind (pb_read 4) (\<lambda>bytes. pb_return
     (push_bit 0 (ucast (bytes ! 0)) OR push_bit 8 (ucast (bytes ! 1)) OR
      push_bit 16 (ucast (bytes ! 2)) OR push_bit 24 (ucast (bytes ! 3))))"

definition pb_decode_fixed64 :: "(pb_istream, u64) pb" where
  "pb_decode_fixed64 = pb_bind (pb_read 8) (\<lambda>bytes. pb_return
     (push_bit 0 (ucast (bytes ! 0)) OR push_bit 8 (ucast (bytes ! 1)) OR
      push_bit 16 (ucast (bytes ! 2)) OR push_bit 24 (ucast (bytes ! 3)) OR
      push_bit 32 (ucast (bytes ! 4)) OR push_bit 40 (ucast (bytes ! 5)) OR
      push_bit 48 (ucast (bytes ! 6)) OR push_bit 56 (ucast (bytes ! 7))))"

section \<open>Writing\<close>

definition pb_ostream_from_buffer :: "nat \<Rightarrow> nat \<Rightarrow> pb_ostream" where
  "pb_ostream_from_buffer room bufsize =
     \<lparr>ocallback = True, odest = [], oroom = room, max_size = bufsize, bytes_written = 0, oerrmsg = None\<rparr>"

definition PB_OSTREAM_SIZING :: pb_ostream where
  "PB_OSTREAM_SIZING =
     \<lparr>ocallback = False, odest = [], oroom = 0, max_size = 0, bytes_written = 0, oerrmsg = None\<rparr>"

definition buf_write :: "byte list \<Rightarrow> (pb_ostream, unit) pb" where
  "buf_write bs s =
     (if length bs \<le> oroom s then Ret (Some (), s\<lparr>odest := odest s @ bs, oroom := oroom s - length bs\<rparr>) else Fault)"

text \<open>The bytes are \<open>None\<close> for the null pointer that sizing calls pass.\<close>

definition pb_write :: "byte list option \<Rightarrow> nat \<Rightarrow> (pb_ostream, unit) pb" where
  "pb_write buf count s =
     (let total = (bytes_written s + count) mod 2 ^ 64 in
      pb_bind (\<lambda>s.
        if count > 0 \<and> ocallback s then
          if total < bytes_written s \<or> total > max_size s then oerror ''stream full'' s
          else case buf of None \<Rightarrow> Fault
               | Some buf \<Rightarrow> cbind (rd_bytes buf 0 (int count)) (\<lambda>bs. buf_write bs s)
        else Ret (Some (), s))
      (\<lambda>_ s. Ret (Some (), s\<lparr>bytes_written := total\<rparr>)) s)"

text \<open>The bytes of a number above 127: \<^verbatim>\<open>buffer\<close> has room for ten.\<close>

function varint_bytes :: "u64 \<Rightarrow> byte list" where
  "varint_bytes value =
     (if value \<noteq> 0 then ucast ((value AND 0x7f) OR 0x80) # varint_bytes (drop_bit 7 value) else [])"
  by pat_completeness auto
termination
proof (relation "measure unat")
  fix v :: u64
  assume "v \<noteq> 0"
  then show "(drop_bit 7 v, v) \<in> measure unat"
    using drop_bit_7_less [of v] by (cases "drop_bit 7 v = 0") (auto simp: unat_gt_0)
qed simp

declare varint_bytes.simps [simp del]

definition pb_encode_varint :: "u64 \<Rightarrow> (pb_ostream, unit) pb" where
  "pb_encode_varint value =
     (if value \<le> 0x7f then pb_write (Some [ucast value]) 1
      else let buffer = varint_bytes value; i = length buffer in
        if i > 10 then (\<lambda>s. Fault)
        else pb_write (Some (buffer[i - 1 := buffer ! (i - 1) AND 0x7f])) i)"

definition zigzag_encode :: "u64 \<Rightarrow> u64" where
  "zigzag_encode value = (if sint value < 0 then NOT (push_bit 1 value) else push_bit 1 value)"

definition pb_encode_svarint :: "u64 \<Rightarrow> (pb_ostream, unit) pb" where
  "pb_encode_svarint value = pb_encode_varint (zigzag_encode value)"

definition fixed32_bytes :: "u32 \<Rightarrow> byte list" where
  "fixed32_bytes val =
     [ucast (val AND 0xff), ucast (drop_bit 8 val AND 0xff), ucast (drop_bit 16 val AND 0xff),
      ucast (drop_bit 24 val AND 0xff)]"

definition pb_encode_fixed32 :: "u32 \<Rightarrow> (pb_ostream, unit) pb" where
  "pb_encode_fixed32 val = pb_write (Some (fixed32_bytes val)) 4"

definition fixed64_bytes :: "u64 \<Rightarrow> byte list" where
  "fixed64_bytes val =
     [ucast (val AND 0xff), ucast (drop_bit 8 val AND 0xff), ucast (drop_bit 16 val AND 0xff),
      ucast (drop_bit 24 val AND 0xff), ucast (drop_bit 32 val AND 0xff), ucast (drop_bit 40 val AND 0xff),
      ucast (drop_bit 48 val AND 0xff), ucast (drop_bit 56 val AND 0xff)]"

definition pb_encode_fixed64 :: "u64 \<Rightarrow> (pb_ostream, unit) pb" where
  "pb_encode_fixed64 val = pb_write (Some (fixed64_bytes val)) 8"

definition pb_encode_tag :: "pb_wire_type \<Rightarrow> u32 \<Rightarrow> (pb_ostream, unit) pb" where
  "pb_encode_tag wiretype field_number =
     pb_encode_varint (push_bit 3 (ucast field_number) OR of_nat (wire_code wiretype))"

definition pb_encode_string :: "byte list option \<Rightarrow> nat \<Rightarrow> (pb_ostream, unit) pb" where
  "pb_encode_string buffer n =
     pb_bind (pb_encode_varint (of_nat n)) (\<lambda>_. pb_write buffer n)"

section \<open>Readers that accept given bytes\<close>

text \<open>\<open>reads m bs x\<close>: on every stream whose available bytes start with \<open>bs\<close>, \<open>m\<close> returns \<open>x\<close> and has
  consumed exactly \<open>bs\<close>.\<close>

definition iwf :: "pb_istream \<Rightarrow> bool" where
  "iwf s = (bytes_left s \<le> length (istate s))"

definition avail :: "pb_istream \<Rightarrow> byte list" where
  "avail s = take (bytes_left s) (istate s)"

definition adv :: "nat \<Rightarrow> pb_istream \<Rightarrow> pb_istream" where
  "adv n s = s\<lparr>istate := drop n (istate s), bytes_left := bytes_left s - n\<rparr>"

definition reads :: "(pb_istream, 'a) pb \<Rightarrow> byte list \<Rightarrow> 'a \<Rightarrow> bool" where
  "reads m bs x = (\<forall>s rest. iwf s \<and> avail s = bs @ rest \<longrightarrow> m s = Ret (Some x, adv (length bs) s))"

lemma avail_adv: "avail (adv n s) = drop n (avail s)"
  by (simp add: avail_def adv_def drop_take)

lemma iwf_adv: "iwf s \<Longrightarrow> iwf (adv n s)"
  by (auto simp: iwf_def adv_def)

lemma adv_adv [simp]: "adv n (adv m s) = adv (m + n) s"
  by (simp add: adv_def add.commute)

lemma adv_0 [simp]: "adv 0 s = s"
  by (simp add: adv_def)

lemma avail_length: "iwf s \<Longrightarrow> length (avail s) = bytes_left s"
  by (simp add: avail_def iwf_def)

lemma avail_Cons: "iwf s \<Longrightarrow> avail s = b # bs \<Longrightarrow> 0 < bytes_left s \<and> (\<exists>tl. istate s = b # tl)"
  by (cases "istate s") (auto simp: avail_def take_Cons split: nat.split_asm)

lemma reads_return: "reads (pb_return x) [] x"
  by (simp add: reads_def pb_return_def)

lemma reads_bind: "reads m bs x \<Longrightarrow> reads (f x) bs' y \<Longrightarrow> reads (pb_bind m f) (bs @ bs') y"
  unfolding reads_def pb_bind_def
proof (intro allI impI)
  fix s rest
  assume m: "\<forall>s rest. iwf s \<and> avail s = bs @ rest \<longrightarrow> m s = Ret (Some x, adv (length bs) s)"
    and f: "\<forall>s rest. iwf s \<and> avail s = bs' @ rest \<longrightarrow> f x s = Ret (Some y, adv (length bs') s)"
    and s: "iwf s \<and> avail s = (bs @ bs') @ rest"
  have "avail (adv (length bs) s) = bs' @ rest" using s by (simp add: avail_adv)
  then have "f x (adv (length bs) s) = Ret (Some y, adv (length bs') (adv (length bs) s))"
    using f s iwf_adv by blast
  moreover have "m s = Ret (Some x, adv (length bs) s)" using m s by auto
  ultimately show "cbind (m s) (\<lambda>(r, s). case r of None \<Rightarrow> Ret (None, s) | Some x \<Rightarrow> f x s) =
      Ret (Some y, adv (length (bs @ bs')) s)" by simp
qed

lemma reads_map: "reads m bs x \<Longrightarrow> reads (pb_bind m (\<lambda>x. pb_return (g x))) bs (g x)"
  using reads_bind [of m bs x "\<lambda>x. pb_return (g x)" "[]" "g x"] reads_return [of "g x"] by simp

lemma readbyte_avail:
  "iwf s \<Longrightarrow> avail s = b # rest \<Longrightarrow> pb_readbyte s = Ret (Some b, adv 1 s)"
  using avail_Cons [of s b rest]
  by (auto simp: pb_readbyte_def pb_bind_def buf_read_def adv_def)

lemma reads_byte: "reads pb_readbyte [b] b"
  using readbyte_avail by (auto simp: reads_def)

lemma reads_read: "reads (pb_read (length bs)) bs bs"
  unfolding reads_def
proof (intro allI impI)
  fix s rest assume s: "iwf s \<and> avail s = bs @ rest"
  then have l: "length bs \<le> bytes_left s" using avail_length [of s] by auto
  then have "take (length bs) (istate s) = bs" using s by (metis append_eq_conv_conj avail_def min.absorb1 take_take)
  then show "pb_read (length bs) s = Ret (Some bs, adv (length bs) s)"
    using l s by (auto simp: pb_read_def pb_bind_def buf_read_def adv_def iwf_def)
qed

lemma reads_read_n: "length bs = n \<Longrightarrow> reads (pb_read n) bs bs"
  using reads_read by blast

section \<open>Variable-length integers\<close>

text \<open>The canonical encoding of a number.\<close>

function varint_enc :: "u64 \<Rightarrow> byte list" where
  "varint_enc v = (if v \<le> 0x7f then [ucast v] else (ucast (v AND 0x7f) OR 0x80) # varint_enc (drop_bit 7 v))"
  by pat_completeness auto
termination
proof (relation "measure unat")
  fix v :: u64
  assume "\<not> v \<le> 0x7f"
  then have "v \<noteq> 0" by auto
  then show "(drop_bit 7 v, v) \<in> measure unat"
    using drop_bit_7_less [of v] by (cases "drop_bit 7 v = 0") (auto simp: unat_gt_0)
qed simp

declare varint_enc.simps [simp del]

lemma le_7f: "v \<le> 0x7f \<longleftrightarrow> unat (v :: u64) < 128"
  by (auto simp: word_le_nat_alt)

lemma drop7_0: "drop_bit 7 v = 0 \<longleftrightarrow> unat (v :: u64) < 128"
proof -
  have "drop_bit 7 v = 0 \<longleftrightarrow> unat (drop_bit 7 v) = 0" by (simp add: unat_eq_0)
  then show ?thesis by (auto simp: unat_drop_bit_eq drop_bit_nat_def div_eq_0_iff)
qed

lemma varint_enc_nonempty [simp]: "varint_enc v \<noteq> []"
  by (subst varint_enc.simps) simp

lemma low7: "v \<le> 0x7f \<Longrightarrow> v AND 0x7f = (v :: u64)"
proof -
  assume "v \<le> 0x7f"
  then have "drop_bit 7 v = 0" by (simp only: drop7_0 le_7f)
  moreover have "(v AND 0x7f) OR push_bit 7 (drop_bit 7 v) = v" by (rule bits64) (simp add: bit_blast)
  ultimately show ?thesis by simp
qed

lemma varint_bytes_enc:
  "\<not> v \<le> 0x7f \<Longrightarrow> (varint_bytes v)[length (varint_bytes v) - 1 := varint_bytes v ! (length (varint_bytes v) - 1) AND 0x7f] = varint_enc v"
proof (induction v rule: varint_enc.induct)
  case (1 v)
  have v: "v \<noteq> 0" using 1(2) by auto
  have b: "ucast ((v AND 0x7f) OR 0x80) = (ucast (v AND 0x7f) OR 0x80 :: byte)"
    by (rule bits8) (simp add: bit_blast)
  show ?case
  proof (cases "drop_bit 7 v \<le> 0x7f")
    case True
    have d: "drop_bit 7 v \<noteq> 0" using 1(2) by (simp add: le_7f drop7_0)
    have "drop_bit 7 (drop_bit 7 v) = 0" using True by (simp only: drop7_0 le_7f)
    then have "varint_bytes (drop_bit 7 v) = [ucast ((drop_bit 7 v AND 0x7f) OR 0x80)]"
      using d by (subst varint_bytes.simps) (simp add: varint_bytes.simps [of 0])
    then have "varint_bytes v = [ucast ((v AND 0x7f) OR 0x80), ucast ((drop_bit 7 v AND 0x7f) OR 0x80)]"
      using v by (subst varint_bytes.simps) simp
    moreover have "(ucast ((drop_bit 7 v AND 0x7f) OR 0x80) AND 0x7f :: byte) = ucast (drop_bit 7 v)"
    proof -
      have "(ucast ((w AND 0x7f) OR 0x80) AND 0x7f :: byte) = ucast (w AND 0x7f)" for w :: u64
        by (rule bits8) (simp add: bit_blast)
      from this [of "drop_bit 7 v"] show ?thesis unfolding low7 [OF True] .
    qed
    ultimately show ?thesis using 1(2) True b by (simp add: varint_enc.simps [of v] varint_enc.simps [of "drop_bit 7 v"])
  next
    case False
    let ?t = "varint_bytes (drop_bit 7 v)"
    have ne: "?t \<noteq> []" using False by (subst varint_bytes.simps) auto
    have e: "varint_bytes v = ucast ((v AND 0x7f) OR 0x80) # ?t" using v by (subst varint_bytes.simps) simp
    have "(varint_bytes v)[length (varint_bytes v) - 1 := varint_bytes v ! (length (varint_bytes v) - 1) AND 0x7f] =
        ucast ((v AND 0x7f) OR 0x80) # ?t[length ?t - 1 := ?t ! (length ?t - 1) AND 0x7f]"
      unfolding e using ne by (cases ?t) auto
    also have "\<dots> = (ucast (v AND 0x7f) OR 0x80) # varint_enc (drop_bit 7 v)" using 1(1) [OF 1(2) False] b by simp
    also have "\<dots> = varint_enc v" using 1(2) by (simp add: varint_enc.simps [of v])
    finally show ?thesis .
  qed
qed

lemma length_varint_bytes: "\<not> v \<le> 0x7f \<Longrightarrow> length (varint_bytes v) = length (varint_enc v)"
  using varint_bytes_enc [of v] by (metis length_list_update)

lemma length_varint_enc: "unat v < 128 ^ Suc n \<Longrightarrow> length (varint_enc v) \<le> Suc n"
proof (induction n arbitrary: v)
  case 0 then show ?case by (subst varint_enc.simps) (simp add: le_7f)
next
  case (Suc n)
  have "unat (drop_bit 7 v) < 128 ^ Suc n" using Suc.prems by (simp add: unat_drop7 less_mult_imp_div_less mult.commute)
  then have "length (varint_enc (drop_bit 7 v)) \<le> Suc n" by (rule Suc.IH)
  then show ?case by (subst varint_enc.simps) simp
qed

lemma length_varint_enc_10: "length (varint_enc v) \<le> 10"
proof -
  have "unat v < 2 ^ 64" using unsigned_less [of v, where 'a = nat] by simp
  then have "unat v < 128 ^ Suc 9" by simp
  then show ?thesis using length_varint_enc [of v 9] by simp
qed

lemma pb_encode_varint_eq: "pb_encode_varint v = pb_write (Some (varint_enc v)) (length (varint_enc v))"
proof (cases "v \<le> 0x7f")
  case True
  then show ?thesis by (simp add: pb_encode_varint_def varint_enc.simps [of v])
next
  case False
  then show ?thesis using varint_bytes_enc [OF False] length_varint_bytes [OF False] length_varint_enc_10 [of v]
    by (simp add: pb_encode_varint_def Let_def)
qed

lemma byte_flag: "\<not> bit (ucast (v AND 0x7f) :: byte) 7" "bit (ucast (v AND 0x7f) OR 0x80 :: byte) 7"
    "(ucast ((ucast (v AND 0x7f) OR 0x80 :: byte) AND 0x7f) :: u64) = v AND 0x7f"
    "(ucast ((ucast (v AND 0x7f) :: byte) AND 0x7f) :: u64) = v AND 0x7f" for v :: u64
  by (simp_all add: bit_simps) (rule bits64, simp add: bit_blast)+

lemma split7: "push_bit k (v AND 0x7f) OR push_bit (k + 7) (drop_bit 7 v) = push_bit k (v :: u64)"
proof -
  have "(v AND 0x7f) OR push_bit 7 (drop_bit 7 v) = v" by (rule bits64) (simp add: bit_blast)
  then have "push_bit k ((v AND 0x7f) OR push_bit 7 (drop_bit 7 v)) = push_bit k v" by simp
  then show ?thesis by (simp add: push_bit_or push_bit_push_bit add.commute)
qed

lemma reads_varint_loop:
  "unat v < 2 ^ (64 - k) \<Longrightarrow> k < 64 \<Longrightarrow> reads (varint_loop k r) (varint_enc v) (r OR push_bit k v)"
proof (induction v arbitrary: k r rule: varint_enc.induct)
  case (1 v)
  show ?case
  proof (cases "v \<le> 0x7f")
    case True
    note l = low7 [OF True]
    show ?thesis unfolding reads_def
    proof (intro allI impI)
      fix s rest assume s: "iwf s \<and> avail s = varint_enc v @ rest"
      then have "avail s = ucast (v AND 0x7f) # rest" using True l by (simp add: varint_enc.simps [of v])
      then have rb: "pb_readbyte s = Ret (Some (ucast (v AND 0x7f)), adv 1 s)" using s readbyte_avail by blast
      have "varint_loop k r s = Ret (Some (r OR push_bit k (v AND 0x7f)), adv 1 s)"
        using 1(3) byte_flag(1,4) [of v] by (subst varint_loop.simps) (simp add: rb and_0x80)
      then show "varint_loop k r s = Ret (Some (r OR push_bit k v), adv (length (varint_enc v)) s)"
        using True l by (simp add: varint_enc.simps [of v])
    qed
  next
    case False
    let ?b = "ucast (v AND 0x7f) OR 0x80 :: byte" let ?w = "drop_bit 7 v"
    have k: "7 < 64 - k"
    proof (rule ccontr)
      assume "\<not> 7 < 64 - k"
      then have "(2 :: nat) ^ (64 - k) \<le> 2 ^ 7" by (intro power_increasing) auto
      then show False using 1(2) False by (simp add: le_7f)
    qed
    have w: "unat ?w < 2 ^ (64 - (k + 7))"
    proof -
      have "(2 :: nat) ^ (64 - k) = 2 ^ (64 - (k + 7)) * 2 ^ 7" by (subst power_add [symmetric], rule arg_cong [where f = "power 2"]) (use k in linarith)
      then show ?thesis using 1(2) by (simp add: unat_drop7 less_mult_imp_div_less)
    qed
    have IH: "reads (varint_loop (k + 7) (r OR push_bit k (v AND 0x7f))) (varint_enc ?w) (r OR push_bit k v)"
      using 1(1) [OF False w, of "r OR push_bit k (v AND 0x7f)"] k split7 [of k v] by (simp add: or.assoc)
    show ?thesis unfolding reads_def
    proof (intro allI impI)
      fix s rest assume s: "iwf s \<and> avail s = varint_enc v @ rest"
      have e: "varint_enc v = ?b # varint_enc ?w" using False by (simp add: varint_enc.simps [of v])
      have rb: "pb_readbyte s = Ret (Some ?b, adv 1 s)" using s e readbyte_avail by simp
      have "avail (adv 1 s) = varint_enc ?w @ rest" using s e by (simp add: avail_adv)
      then have "varint_loop (k + 7) (r OR push_bit k (v AND 0x7f)) (adv 1 s) =
          Ret (Some (r OR push_bit k v), adv (length (varint_enc ?w)) (adv 1 s))"
        using IH s iwf_adv unfolding reads_def by blast
      then show "varint_loop k r s = Ret (Some (r OR push_bit k v), adv (length (varint_enc v)) s)"
        using 1(3) byte_flag(2,3) [of v] by (subst varint_loop.simps) (simp add: rb and_0x80 e)
    qed
  qed
qed

lemma reads_varint: "reads pb_decode_varint (varint_enc v) v"
  using reads_varint_loop [of v 0 0] unsigned_less [of v, where 'a = nat] by (simp add: pb_decode_varint_def)

subsection \<open>The 32-bit reader\<close>

lemma byte_flag32: "(ucast ((ucast (v AND 0x7f) OR 0x80 :: byte) AND 0x7f) :: u32) = ucast v AND 0x7f"
    "(ucast ((ucast (v AND 0x7f) :: byte) AND 0x7f) :: u32) = ucast v AND 0x7f" for v :: u64
  by (rule bits32, simp add: bit_blast)+

lemma split7_32: "push_bit k (ucast v AND 0x7f) OR push_bit (k + 7) (ucast (drop_bit 7 v)) = push_bit k (ucast v :: u32)" for v :: u64
proof -
  have "(ucast v AND 0x7f) OR push_bit 7 (ucast (drop_bit 7 v)) = (ucast v :: u32)" by (rule bits32) (simp add: bit_blast)
  then have "push_bit k ((ucast v AND 0x7f) OR push_bit 7 (ucast (drop_bit 7 v))) = push_bit k (ucast v :: u32)" by simp
  then show ?thesis by (simp add: push_bit_or push_bit_push_bit add.commute)
qed

lemma last_nibble: "unat v < 16 \<Longrightarrow> (ucast v :: byte) AND 0x70 = 0" for v :: u64
proof -
  assume v: "unat v < 16"
  then have "unat (drop_bit 4 v) = 0" by (simp add: unat_drop_bit_eq drop_bit_nat_def)
  then have d: "drop_bit 4 v = 0" by (simp only: unat_eq_0)
  have "\<not> bit v n" if "4 \<le> n" for n
  proof -
    have "bit v n \<longleftrightarrow> bit (drop_bit 4 v) (n - 4)" using that by (simp add: bit_simps)
    then show ?thesis unfolding d by simp
  qed
  then show ?thesis by (intro bits8) (simp add: bit_blast)
qed

lemma reads_varint32_loop:
  "unat v < 2 ^ (32 - k) \<Longrightarrow> k < 32 \<Longrightarrow>
   reads (varint32_loop k r) (varint_enc v) (r OR push_bit k (ucast v), k + 7 * length (varint_enc v), last (varint_enc v)) \<and>
   (k + 7 * length (varint_enc v) = 35 \<longrightarrow> last (varint_enc v) AND 0x70 = 0) \<and> k + 7 * length (varint_enc v) < 39"
proof (induction v arbitrary: k r rule: varint_enc.induct)
  case (1 v)
  show ?case
  proof (cases "v \<le> 0x7f")
    case True
    note l = low7 [OF True]
    have e: "varint_enc v = [ucast (v AND 0x7f)]" using True l by (simp add: varint_enc.simps [of v])
    have "reads (varint32_loop k r) (varint_enc v) (r OR push_bit k (ucast v), k + 7 * length (varint_enc v), last (varint_enc v))"
      unfolding reads_def
    proof (intro allI impI)
      fix s rest assume s: "iwf s \<and> avail s = varint_enc v @ rest"
      then have rb: "pb_readbyte s = Ret (Some (ucast (v AND 0x7f)), adv 1 s)" using e readbyte_avail by simp
      have "(ucast v AND 0x7f :: u32) = ucast v"
      proof -
        have "(ucast (v AND 0x7f) :: u32) = ucast v AND 0x7f" by (rule bits32) (simp add: bit_blast)
        then show ?thesis by (simp only: l)
      qed
      then show "varint32_loop k r s = Ret (Some (r OR push_bit k (ucast v), k + 7 * length (varint_enc v), last (varint_enc v)),
          adv (length (varint_enc v)) s)"
        using 1(3) byte_flag(1) [of v] byte_flag32(2) [of v] by (subst varint32_loop.simps) (simp add: rb and_0x80 e)
    qed
    moreover have "last (varint_enc v) AND 0x70 = 0" if "k + 7 * length (varint_enc v) = 35"
      using last_nibble [of v] that 1(2) e l by simp
    ultimately show ?thesis using e 1(3) by simp
  next
    case False
    let ?b = "ucast (v AND 0x7f) OR 0x80 :: byte" let ?w = "drop_bit 7 v"
    have k: "7 < 32 - k"
    proof (rule ccontr)
      assume "\<not> 7 < 32 - k"
      then have "(2 :: nat) ^ (32 - k) \<le> 2 ^ 7" by (intro power_increasing) auto
      then show False using 1(2) False by (simp add: le_7f)
    qed
    have w: "unat ?w < 2 ^ (32 - (k + 7))"
    proof -
      have "(2 :: nat) ^ (32 - k) = 2 ^ (32 - (k + 7)) * 2 ^ 7"
        by (subst power_add [symmetric], rule arg_cong [where f = "power 2"]) (use k in linarith)
      then show ?thesis using 1(2) by (simp add: unat_drop7 less_mult_imp_div_less)
    qed
    have e: "varint_enc v = ?b # varint_enc ?w" using False by (simp add: varint_enc.simps [of v])
    have IH: "reads (varint32_loop (k + 7) (r OR push_bit k (ucast v AND 0x7f))) (varint_enc ?w)
        (r OR push_bit k (ucast v), k + 7 * length (varint_enc v), last (varint_enc v)) \<and>
      (k + 7 * length (varint_enc v) = 35 \<longrightarrow> last (varint_enc v) AND 0x70 = 0) \<and> k + 7 * length (varint_enc v) < 39"
      using 1(1) [OF False w, of "r OR push_bit k (ucast v AND 0x7f)"] k split7_32 [of k v] by (simp add: or.assoc e add.assoc)
    have "reads (varint32_loop k r) (varint_enc v) (r OR push_bit k (ucast v), k + 7 * length (varint_enc v), last (varint_enc v))"
      unfolding reads_def
    proof (intro allI impI)
      fix s rest assume s: "iwf s \<and> avail s = varint_enc v @ rest"
      have rb: "pb_readbyte s = Ret (Some ?b, adv 1 s)" using s e readbyte_avail by simp
      have "avail (adv 1 s) = varint_enc ?w @ rest" using s e by (simp add: avail_adv)
      then have "varint32_loop (k + 7) (r OR push_bit k (ucast v AND 0x7f)) (adv 1 s) =
          Ret (Some (r OR push_bit k (ucast v), k + 7 * length (varint_enc v), last (varint_enc v)), adv (length (varint_enc ?w)) (adv 1 s))"
        using IH s iwf_adv unfolding reads_def by blast
      then show "varint32_loop k r s = Ret (Some (r OR push_bit k (ucast v), k + 7 * length (varint_enc v), last (varint_enc v)),
          adv (length (varint_enc v)) s)"
        using 1(3) k byte_flag(2) [of v] byte_flag32(1) [of v] by (subst varint32_loop.simps) (simp add: rb and_0x80 e)
    qed
    then show ?thesis using IH by simp
  qed
qed

lemma varint32_eof:
  assumes "unat v < 2 ^ 32" "iwf s" "avail s = varint_enc v @ rest"
  shows "pb_decode_varint32_eof s = Ret (Some (ucast v), False, adv (length (varint_enc v)) s)"
proof (cases "v \<le> 0x7f")
  case True
  note l = low7 [OF True]
  have e: "varint_enc v = [ucast (v AND 0x7f)]" using True l by (simp add: varint_enc.simps [of v])
  then have rb: "pb_readbyte s = Ret (Some (ucast (v AND 0x7f)), adv 1 s)" using assms readbyte_avail by simp
  have "(ucast (ucast (v AND 0x7f) :: byte) :: u32) = ucast (v AND 0x7f)" by (rule bits32) (simp add: bit_blast)
  then have u: "(ucast (ucast v :: byte) :: u32) = ucast v" unfolding l .
  have "\<not> bit (ucast v :: byte) 7" using byte_flag(1) [of v] unfolding l .
  then show ?thesis using rb u unfolding e l by (simp add: pb_decode_varint32_eof_def and_0x80)
next
  case False
  let ?b = "ucast (v AND 0x7f) OR 0x80 :: byte" let ?w = "drop_bit 7 v"
  have e: "varint_enc v = ?b # varint_enc ?w" using False by (simp add: varint_enc.simps [of v])
  have rb: "pb_readbyte s = Ret (Some ?b, adv 1 s)" using assms e readbyte_avail by simp
  have a: "avail (adv 1 s) = varint_enc ?w @ rest" "iwf (adv 1 s)" using assms e iwf_adv by (simp_all add: avail_adv)
  have "unat ?w < 2 ^ (32 - 7)" using assms(1) by (simp add: unat_drop7)
  note L = reads_varint32_loop [OF this, of "ucast v AND 0x7f"]
  have sp: "(ucast v AND 0x7f) OR push_bit 7 (ucast ?w) = (ucast v :: u32)" using split7_32 [of 0 v] by simp
  have "varint32_loop 7 (ucast v AND 0x7f) (adv 1 s) =
      Ret (Some (ucast v, 7 + 7 * length (varint_enc ?w), last (varint_enc ?w)), adv (length (varint_enc ?w)) (adv 1 s))"
    using L a sp unfolding reads_def by auto
  then show ?thesis using L rb byte_flag(2) [of v] byte_flag32(1) [of v] e
    by (auto simp: pb_decode_varint32_eof_def and_0x80)
qed

lemma reads_varint32: "unat v < 2 ^ 32 \<Longrightarrow> reads pb_decode_varint32 (varint_enc v) (ucast v)"
  by (auto simp: reads_def pb_decode_varint32_def varint32_eof)

section \<open>Tags, strings and skipping\<close>

lemma unat_tag:
  assumes "f < 2 ^ 29" "w < 8"
  shows "unat (push_bit 3 (of_nat f) OR of_nat w :: u64) = 8 * f + w"
proof -
  have n: "push_bit 3 f OR w = 8 * f + w"
  proof -
    have "push_bit 3 f OR take_bit 3 w = push_bit 3 f + take_bit 3 w"
      by (rule disjunctive_add [symmetric]) (auto simp: bit_simps)
    moreover have "take_bit 3 w = w" using assms(2) by (simp add: take_bit_nat_eq_self_iff)
    ultimately show ?thesis by (simp add: push_bit_eq_mult)
  qed
  have e: "(push_bit 3 (of_nat f) OR of_nat w :: u64) = of_nat (push_bit 3 f OR w)"
    by (simp add: of_nat_or_eq of_nat_push_bit)
  have u: "k < 2 ^ 64 \<Longrightarrow> unat (of_nat k :: u64) = k" for k by (simp add: unat_of_nat)
  show ?thesis unfolding e n by (rule u) (use assms in simp)
qed

lemma tag_fields:
  assumes "f < 2 ^ 29" "w < 8" "t = (ucast (push_bit 3 (of_nat f) OR of_nat w :: u64) :: u32)"
  shows "unat (t AND 7) = w" "unat (drop_bit 3 t) = f" "t = 0 \<longleftrightarrow> f = 0 \<and> w = 0"
proof -
  have t: "unat t = 8 * f + w" using unat_tag [OF assms(1,2)] assms(1,2) unfolding assms(3)
    by (simp add: unsigned_ucast_eq take_bit_nat_def)
  have "unat (t AND 7) = unat t mod 8"
  proof -
    have "t AND 7 = take_bit 3 t" by (simp add: take_bit_eq_mask mask_eq_exp_minus_1)
    then show ?thesis by (simp add: unsigned_take_bit_eq take_bit_nat_def)
  qed
  then show "unat (t AND 7) = w" using t assms(2) by simp
  show "unat (drop_bit 3 t) = f" using t assms(2) by (simp add: unat_drop_bit_eq drop_bit_nat_def)
  show "t = 0 \<longleftrightarrow> f = 0 \<and> w = 0" using t by (auto simp: unat_eq_0 [symmetric])
qed

definition tag_bytes :: "nat \<Rightarrow> nat \<Rightarrow> byte list" where
  "tag_bytes w f = varint_enc (push_bit 3 (of_nat f) OR of_nat w)"

lemma decode_tag:
  assumes "0 < f" "f < 2 ^ 29" "w < 8" "iwf s" "avail s = tag_bytes w f @ rest"
  shows "pb_decode_tag s = Ret (Some (wire_type_of w, f), False, adv (length (tag_bytes w f)) s)"
proof -
  let ?v = "push_bit 3 (of_nat f) OR of_nat w :: u64"
  have "unat ?v < 2 ^ 32" using unat_tag [OF assms(2,3)] assms(2,3) by simp
  from varint32_eof [OF this assms(4)] have
    "pb_decode_varint32_eof s = Ret (Some (ucast ?v), False, adv (length (tag_bytes w f)) s)"
    using assms(5) by (simp add: tag_bytes_def)
  then show ?thesis using tag_fields [OF assms(2,3) refl] assms(1) by (simp add: pb_decode_tag_def)
qed

lemma skip_varint_step:
  "iwf s \<Longrightarrow> avail s = b # rest \<Longrightarrow>
   pb_skip_varint s = (if bit b 7 then pb_skip_varint (adv 1 s) else Ret (Some (), adv 1 s))"
  using reads_read [of "[b]"] by (subst pb_skip_varint.simps) (auto simp: reads_def and_0x80)

lemma reads_skip_varint: "reads pb_skip_varint (varint_enc v) ()"
proof (induction v rule: varint_enc.induct)
  case (1 v)
  show ?case unfolding reads_def
  proof (intro allI impI)
    fix s rest assume s: "iwf s \<and> avail s = varint_enc v @ rest"
    show "pb_skip_varint s = Ret (Some (), adv (length (varint_enc v)) s)"
    proof (cases "v \<le> 0x7f")
      case True
      have e: "varint_enc v = [ucast (v AND 0x7f)]" using True low7 [OF True] by (simp add: varint_enc.simps [of v])
      then show ?thesis using s skip_varint_step [of s "ucast (v AND 0x7f)" rest] byte_flag(1) [of v] by simp
    next
      case False
      have e: "varint_enc v = (ucast (v AND 0x7f) OR 0x80) # varint_enc (drop_bit 7 v)" using False by (simp add: varint_enc.simps [of v])
      have "avail (adv 1 s) = varint_enc (drop_bit 7 v) @ rest" "iwf (adv 1 s)" using s e iwf_adv by (simp_all add: avail_adv)
      then have "pb_skip_varint (adv 1 s) = Ret (Some (), adv (length (varint_enc (drop_bit 7 v))) (adv 1 s))"
        using 1 [OF False] unfolding reads_def by blast
      then show ?thesis using s e skip_varint_step [of s "ucast (v AND 0x7f) OR 0x80" "varint_enc (drop_bit 7 v) @ rest"] byte_flag(2) [of v] by simp
    qed
  qed
qed

definition string_bytes :: "byte list \<Rightarrow> byte list" where
  "string_bytes bs = varint_enc (of_nat (length bs)) @ bs"

lemma reads_length: "length bs < 2 ^ 32 \<Longrightarrow> reads pb_decode_varint32 (varint_enc (of_nat (length bs))) (of_nat (length bs))"
proof -
  assume l: "length bs < 2 ^ 32"
  then have "unat (of_nat (length bs) :: u64) < 2 ^ 32" by (simp add: unat_of_nat)
  moreover have "take_bit 64 (length bs) = length bs" using l by (simp add: take_bit_nat_eq_self_iff)
  ultimately show ?thesis using reads_varint32 [of "of_nat (length bs)"] by (simp add: unsigned_of_nat)
qed

lemma unat_length32: "length bs < 2 ^ 32 \<Longrightarrow> unat (of_nat (length bs) :: u32) = length bs"
  by (simp add: unat_of_nat)

lemma reads_skip_string: "length bs < 2 ^ 32 \<Longrightarrow> reads pb_skip_string (string_bytes bs) ()"
  unfolding pb_skip_string_def string_bytes_def
  by (rule reads_bind [OF reads_length]) (simp_all add: unat_length32 reads_map [OF reads_read, of bs "\<lambda>_. ()"])

text \<open>The value part of a field, by wire type.\<close>

datatype wire_value = VarintV u64 | Fixed64V u64 | StringV "byte list" | Fixed32V u32

fun value_bytes :: "wire_value \<Rightarrow> byte list" where
  "value_bytes (VarintV v) = varint_enc v"
| "value_bytes (Fixed64V v) = fixed64_bytes v"
| "value_bytes (StringV bs) = string_bytes bs"
| "value_bytes (Fixed32V v) = fixed32_bytes v"

fun wire_kind :: "wire_value \<Rightarrow> pb_wire_type" where
  "wire_kind (VarintV v) = PB_WT_VARINT"
| "wire_kind (Fixed64V v) = PB_WT_64BIT"
| "wire_kind (StringV bs) = PB_WT_STRING"
| "wire_kind (Fixed32V v) = PB_WT_32BIT"

definition value_ok :: "wire_value \<Rightarrow> bool" where
  "value_ok x = (case x of StringV bs \<Rightarrow> length bs < 2 ^ 32 | _ \<Rightarrow> True)"

lemma reads_skip_field: "value_ok x \<Longrightarrow> reads (pb_skip_field (wire_kind x)) (value_bytes x) ()"
  using reads_read_n [of "fixed64_bytes _" 8, THEN reads_map [where g = "\<lambda>_. ()"]]
    reads_read_n [of "fixed32_bytes _" 4, THEN reads_map [where g = "\<lambda>_. ()"]]
  by (cases x) (auto simp: pb_skip_field_def reads_skip_varint value_ok_def reads_skip_string
      fixed64_bytes_def fixed32_bytes_def)

lemma reads_fixed32: "reads pb_decode_fixed32 (fixed32_bytes v) v"
proof -
  let ?b = "fixed32_bytes v"
  have "reads pb_decode_fixed32 ?b (push_bit 0 (ucast (?b ! 0)) OR push_bit 8 (ucast (?b ! 1)) OR
      push_bit 16 (ucast (?b ! 2)) OR push_bit 24 (ucast (?b ! 3)))"
    unfolding pb_decode_fixed32_def by (rule reads_map, rule reads_read_n) (simp add: fixed32_bytes_def)
  moreover have "push_bit 0 (ucast (?b ! 0)) OR push_bit 8 (ucast (?b ! 1)) OR
      push_bit 16 (ucast (?b ! 2)) OR push_bit 24 (ucast (?b ! 3)) = v"
    by (rule bits32) (simp add: fixed32_bytes_def bit_blast)
  ultimately show ?thesis by simp
qed

lemma reads_fixed64: "reads pb_decode_fixed64 (fixed64_bytes v) v"
proof -
  let ?b = "fixed64_bytes v"
  have "reads pb_decode_fixed64 ?b (push_bit 0 (ucast (?b ! 0)) OR push_bit 8 (ucast (?b ! 1)) OR
      push_bit 16 (ucast (?b ! 2)) OR push_bit 24 (ucast (?b ! 3)) OR
      push_bit 32 (ucast (?b ! 4)) OR push_bit 40 (ucast (?b ! 5)) OR
      push_bit 48 (ucast (?b ! 6)) OR push_bit 56 (ucast (?b ! 7)))"
    unfolding pb_decode_fixed64_def by (rule reads_map, rule reads_read_n) (simp add: fixed64_bytes_def)
  moreover have "push_bit 0 (ucast (?b ! 0)) OR push_bit 8 (ucast (?b ! 1)) OR
      push_bit 16 (ucast (?b ! 2)) OR push_bit 24 (ucast (?b ! 3)) OR
      push_bit 32 (ucast (?b ! 4)) OR push_bit 40 (ucast (?b ! 5)) OR
      push_bit 48 (ucast (?b ! 6)) OR push_bit 56 (ucast (?b ! 7)) = v"
    by (rule bits64) (simp add: fixed64_bytes_def bit_blast)
  ultimately show ?thesis by simp
qed

lemma and_1: "(v :: u64) AND 1 \<noteq> 0 \<longleftrightarrow> bit v 0"
  using and_exp_eq_0_iff_not_bit [of v 0] by simp

lemma bit_double: "bit (v * 2 :: u64) n \<longleftrightarrow> 1 \<le> n \<and> n < 64 \<and> bit v (n - 1)"
  using bit_push_bit_iff [of 1 v n] by auto

lemma zigzag: "zigzag_decode (zigzag_encode v) = v"
proof (cases "sint v < 0")
  case True
  then have m: "bit v 63" using bit_last_iff [of v] by simp
  have "bit (NOT (push_bit 1 v)) 0" using bit_push_bit_iff [of 1 v 0] by (simp add: bit_not_iff)
  moreover have "NOT (drop_bit 1 (NOT (push_bit 1 v))) = v" using m by (intro bits64) (simp add: bit_blast bit_double)
  ultimately show ?thesis using True by (simp add: zigzag_encode_def zigzag_decode_def and_1)
next
  case False
  then have m: "\<not> bit v 63" using bit_last_iff [of v] by simp
  have "\<not> bit (push_bit 1 v) 0" using bit_push_bit_iff [of 1 v 0] by simp
  moreover have "drop_bit 1 (push_bit 1 v) = v" using m by (intro bits64) (simp add: bit_blast bit_double)
  ultimately show ?thesis using False by (simp add: zigzag_encode_def zigzag_decode_def and_1)
qed

section \<open>Substreams\<close>

text \<open>The way every caller uses a substream: make it, run a reader on it, close it.\<close>

definition delimited :: "(pb_istream, 'a) pb \<Rightarrow> (pb_istream, 'a) pb" where
  "delimited m = pb_bind pb_make_string_substream (\<lambda>sub s.
     cbind (m sub) (\<lambda>(r, sub). cbind (pb_close_string_substream sub s) (\<lambda>(c, s).
       Ret (case c of None \<Rightarrow> None | Some _ \<Rightarrow> r, s))))"

lemma make_substream:
  assumes "iwf s" "avail s = string_bytes bs @ rest" "length bs < 2 ^ 32"
  shows "\<exists>sub. pb_make_string_substream s = Ret (Some sub, s\<lparr>istate := istate sub, bytes_left := length rest\<rparr>) \<and>
    iwf sub \<and> avail sub = bs \<and> istate sub = drop (length (string_bytes bs) - length bs) (istate s) \<and>
    bytes_left sub = length bs \<and> ierrmsg sub = ierrmsg s"
proof -
  let ?l = "varint_enc (of_nat (length bs))" let ?s = "adv (length ?l) s"
  have r: "pb_decode_varint32 s = Ret (Some (of_nat (length bs)), ?s)"
    using reads_length [OF assms(3)] assms(1,2) unfolding reads_def string_bytes_def by auto
  have a: "avail ?s = bs @ rest" "iwf ?s" using assms iwf_adv by (simp_all add: avail_adv string_bytes_def)
  then have b: "bytes_left ?s = length bs + length rest" using avail_length [of ?s] by simp
  have t: "take (length bs) (istate ?s) = bs"
    using a(1) b unfolding avail_def by (metis append_eq_conv_conj le_add1 min.absorb1 take_take)
  let ?sub = "?s\<lparr>bytes_left := length bs\<rparr>"
  have "pb_make_string_substream s = Ret (Some ?sub, ?s\<lparr>bytes_left := length rest\<rparr>)"
    using r b assms(3) by (simp add: pb_make_string_substream_def pb_bind_def unat_length32)
  moreover have "?s\<lparr>bytes_left := length rest\<rparr> = s\<lparr>istate := istate ?sub, bytes_left := length rest\<rparr>"
    by (simp add: adv_def)
  moreover have "iwf ?sub" using a b by (simp add: iwf_def)
  moreover have "avail ?sub = bs" using t by (simp add: avail_def)
  ultimately show ?thesis by (intro exI [of _ ?sub]) (simp add: adv_def string_bytes_def)
qed

lemma reads_delimited:
  assumes "reads m bs x" "length bs < 2 ^ 32"
  shows "reads (delimited m) (string_bytes bs) x"
  unfolding reads_def
proof (intro allI impI)
  fix s rest assume s: "iwf s \<and> avail s = string_bytes bs @ rest"
  then obtain sub where sub: "pb_make_string_substream s = Ret (Some sub, s\<lparr>istate := istate sub, bytes_left := length rest\<rparr>)"
    "iwf sub" "avail sub = bs" "istate sub = drop (length (string_bytes bs) - length bs) (istate s)"
    "bytes_left sub = length bs" "ierrmsg sub = ierrmsg s" using make_substream [OF _ _ assms(2)] by blast
  have m: "m sub = Ret (Some x, adv (length bs) sub)" using assms(1) sub(2,3) by (auto simp: reads_def)
  have "bytes_left s = length (string_bytes bs) + length rest" using avail_length [of s] s by auto
  then have "s\<lparr>istate := drop (length bs) (istate sub), bytes_left := length rest, ierrmsg := ierrmsg s\<rparr> = adv (length (string_bytes bs)) s"
    using sub(4) by (simp add: adv_def string_bytes_def add.commute)
  then show "delimited m s = Ret (Some x, adv (length (string_bytes bs)) s)"
    using sub m by (cases s) (simp add: delimited_def pb_bind_def pb_close_string_substream_def adv_def)
qed

section \<open>Writers\<close>

definition put :: "byte list \<Rightarrow> pb_ostream \<Rightarrow> pb_ostream" where
  "put bs s = (if ocallback s then s\<lparr>odest := odest s @ bs, oroom := oroom s - length bs, bytes_written := bytes_written s + length bs\<rparr>
     else s\<lparr>bytes_written := bytes_written s + length bs\<rparr>)"

definition fits :: "byte list \<Rightarrow> pb_ostream \<Rightarrow> bool" where
  "fits bs s = (bytes_written s + length bs < 2 ^ 64 \<and>
     (ocallback s \<longrightarrow> bytes_written s + length bs \<le> max_size s \<and> length bs \<le> oroom s))"

definition writes :: "(pb_ostream, unit) pb \<Rightarrow> byte list \<Rightarrow> bool" where
  "writes w bs = (\<forall>s. fits bs s \<longrightarrow> w s = Ret (Some (), put bs s))"

lemma put_put: "put bs' (put bs s) = put (bs @ bs') s"
  by (simp add: put_def)

lemma fits_append: "fits (bs @ bs') s \<Longrightarrow> fits bs s \<and> fits bs' (put bs s)"
  by (auto simp: fits_def put_def)

lemma writes_bind: "writes w bs \<Longrightarrow> writes (f ()) bs' \<Longrightarrow> writes (pb_bind w f) (bs @ bs')"
  using fits_append by (auto simp: writes_def pb_bind_def put_put)

lemma writes_return: "writes (pb_return ()) []"
  by (auto simp: writes_def pb_return_def put_def)

lemma writes_write: "length bs = n \<Longrightarrow> writes (pb_write (Some bs) n) bs"
  by (auto simp: writes_def pb_write_def pb_bind_def put_def fits_def rd_bytes_def buf_write_def Let_def)

lemma writes_varint: "writes (pb_encode_varint v) (varint_enc v)"
  by (simp add: pb_encode_varint_eq writes_write)

lemma writes_tag: "f < 2 ^ 29 \<Longrightarrow> writes (pb_encode_tag w (of_nat f)) (tag_bytes (wire_code w) f)"
proof -
  assume "f < 2 ^ 29"
  then have "take_bit 32 f = f" by (simp add: take_bit_nat_eq_self_iff)
  then have "(ucast (of_nat f :: u32) :: u64) = of_nat f" by (simp add: unsigned_of_nat)
  then show ?thesis using writes_varint by (simp add: pb_encode_tag_def tag_bytes_def)
qed

lemma writes_string: "writes (pb_encode_string (Some bs) (length bs)) (string_bytes bs)"
  unfolding pb_encode_string_def string_bytes_def by (intro writes_bind writes_varint writes_write) simp

lemma writes_fixed32: "writes (pb_encode_fixed32 v) (fixed32_bytes v)"
  by (simp add: pb_encode_fixed32_def writes_write fixed32_bytes_def)

lemma writes_fixed64: "writes (pb_encode_fixed64 v) (fixed64_bytes v)"
  by (simp add: pb_encode_fixed64_def writes_write fixed64_bytes_def)

section \<open>Bounds\<close>

text \<open>
  An operation on a stream keeps an invariant when on every stream that satisfies it the operation
  returns, and the stream afterwards satisfies it and is reachable from the one before.
\<close>

locale stream_invariant =
  fixes invar :: "'s \<Rightarrow> bool" and step :: "'s \<Rightarrow> 's \<Rightarrow> bool"
  assumes step_refl: "step s s"
    and step_trans: "step s s' \<Longrightarrow> step s' s'' \<Longrightarrow> step s s''"
begin

definition keeps :: "('s, 'a) pb \<Rightarrow> bool" where
  "keeps m = (\<forall>s. invar s \<longrightarrow> (\<exists>r s'. m s = Ret (r, s') \<and> invar s' \<and> step s s'))"

lemma keepsE:
  assumes "keeps m" "invar s"
  obtains r s' where "m s = Ret (r, s')" "invar s'" "step s s'"
  using assms by (auto simp: keeps_def)

lemma keeps_return: "keeps (pb_return x)"
  using step_refl by (auto simp: keeps_def pb_return_def)

lemma keeps_bind: "keeps m \<Longrightarrow> (\<And>x. keeps (f x)) \<Longrightarrow> keeps (pb_bind m f)"
  unfolding keeps_def
proof (intro allI impI)
  fix s
  assume m: "\<forall>s. invar s \<longrightarrow> (\<exists>r s'. m s = Ret (r, s') \<and> invar s' \<and> step s s')"
    and f: "\<And>x. \<forall>s. invar s \<longrightarrow> (\<exists>r s'. f x s = Ret (r, s') \<and> invar s' \<and> step s s')"
    and s: "invar s"
  from m s obtain r s1 where r: "m s = Ret (r, s1)" "invar s1" "step s s1" by blast
  show "\<exists>r s'. pb_bind m f s = Ret (r, s') \<and> invar s' \<and> step s s'"
  proof (cases r)
    case None then show ?thesis using r by (auto simp: pb_bind_def)
  next
    case (Some x)
    from f [of x] r(2) obtain r' s2 where "f x s1 = Ret (r', s2)" "invar s2" "step s1 s2" by blast
    then show ?thesis using r Some step_trans by (auto simp: pb_bind_def)
  qed
qed

end

definition istep :: "pb_istream \<Rightarrow> pb_istream \<Rightarrow> bool" where
  "istep s s' = (\<exists>k \<le> bytes_left s. istate s' = drop k (istate s) \<and> bytes_left s' = bytes_left s - k)"

definition owf :: "pb_ostream \<Rightarrow> bool" where
  "owf s = (bytes_written s < 2 ^ 64 \<and> (ocallback s \<longrightarrow> bytes_written s \<le> max_size s \<and> max_size s < 2 ^ 64 \<and>
     max_size s - bytes_written s \<le> oroom s))"

interpretation ist: stream_invariant iwf istep
proof
  show "istep s s" for s by (auto simp: istep_def)
  show "istep s s' \<Longrightarrow> istep s' s'' \<Longrightarrow> istep s s''" for s s' s''
    unfolding istep_def by (elim exE conjE) (rule_tac x = "k + ka" in exI, auto simp: add.commute)
qed

lemma istep_left: "istep s s' \<Longrightarrow> bytes_left s' \<le> bytes_left s"
  by (auto simp: istep_def)

lemma iwf_istep: "iwf s \<Longrightarrow> istep s s' \<Longrightarrow> iwf s'"
  by (auto simp: istep_def iwf_def)

lemma istep_adv: "n \<le> bytes_left s \<Longrightarrow> istep s (adv n s)"
  by (auto simp: istep_def adv_def)

lemma keeps_ierror: "ist.keeps (ierror msg)"
  by (auto simp: ist.keeps_def ierror_def iwf_def istep_def intro: exI [of _ 0])

lemma read_cases:
  assumes "iwf s"
  shows "pb_read n s = (if n \<le> bytes_left s then Ret (Some (take n (istate s)), adv n s) else ierror ''end-of-stream'' s)"
  using assms by (auto simp: pb_read_def pb_bind_def buf_read_def iwf_def adv_def)

lemma readbyte_cases:
  assumes "iwf s"
  shows "pb_readbyte s = (if 0 < bytes_left s then Ret (Some (hd (istate s)), adv 1 s) else ierror ''end-of-stream'' s)"
  using assms by (cases "istate s") (auto simp: pb_readbyte_def pb_bind_def buf_read_def iwf_def adv_def)

lemma keeps_read: "ist.keeps (pb_read n)"
proof -
  have "\<exists>r s'. pb_read n s = Ret (r, s') \<and> iwf s' \<and> istep s s'" if "iwf s" for s
    using that keeps_ierror [of "''end-of-stream''"] iwf_adv [of s n] istep_adv [of n s]
    by (auto simp: read_cases ist.keeps_def)
  then show ?thesis by (simp add: ist.keeps_def)
qed

lemma keeps_readbyte: "ist.keeps pb_readbyte"
proof -
  have "\<exists>r s'. pb_readbyte s = Ret (r, s') \<and> iwf s' \<and> istep s s'" if "iwf s" for s
    using that keeps_ierror [of "''end-of-stream''"] iwf_adv [of s 1] istep_adv [of 1 s]
    by (auto simp: readbyte_cases ist.keeps_def Suc_le_eq)
  then show ?thesis by (simp add: ist.keeps_def)
qed

context stream_invariant
begin

text \<open>The same for one run, so that loops go through by their own induction.\<close>

definition within :: "'s \<Rightarrow> ('r \<times> 's) cres \<Rightarrow> bool" where
  "within s res = (\<exists>r s'. res = Ret (r, s') \<and> invar s' \<and> step s s')"

lemma keeps_within: "keeps m \<longleftrightarrow> (\<forall>s. invar s \<longrightarrow> within s (m s))"
  by (simp add: keeps_def within_def)

lemma within_Ret: "invar s \<Longrightarrow> within s (Ret (r, s))"
  using step_refl by (auto simp: within_def)

lemma within_bind:
  assumes "within s m" "\<And>r s'. m = Ret (r, s') \<Longrightarrow> invar s' \<Longrightarrow> step s s' \<Longrightarrow> within s' (f (r, s'))"
  shows "within s (cbind m f)"
proof -
  obtain r s1 where r: "m = Ret (r, s1)" "invar s1" "step s s1" using assms(1) by (auto simp: within_def)
  from assms(2) [OF this] obtain q s2 where "f (r, s1) = Ret (q, s2)" "invar s2" "step s1 s2"
    by (auto simp: within_def)
  then show ?thesis using r step_trans by (auto simp: within_def)
qed

end

lemma within_ierror: "iwf s \<Longrightarrow> ist.within s (ierror msg s)"
  using keeps_ierror by (auto simp: ist.keeps_within)

lemma within_readbyte: "iwf s \<Longrightarrow> ist.within s (pb_readbyte s)"
  using keeps_readbyte by (auto simp: ist.keeps_within)

lemma within_read: "iwf s \<Longrightarrow> ist.within s (pb_read n s)"
  using keeps_read by (auto simp: ist.keeps_within)

lemma within_varint_loop: "iwf s \<Longrightarrow> ist.within s (varint_loop k v s)"
proof (induction k v s rule: varint_loop.induct)
  case (1 k v s)
  then show ?case
    by (subst varint_loop.simps)
       (auto simp: Let_def intro!: ist.within_bind within_readbyte within_ierror ist.within_Ret split: option.split)
qed

lemma within_varint32_loop: "iwf s \<Longrightarrow> ist.within s (varint32_loop k v s)"
proof (induction k v s rule: varint32_loop.induct)
  case (1 k v s)
  then show ?case
    by (subst varint32_loop.simps)
       (auto simp: Let_def intro!: ist.within_bind within_readbyte within_ierror ist.within_Ret split: option.split)
qed

lemma within_skip_varint: "iwf s \<Longrightarrow> ist.within s (pb_skip_varint s)"
proof (induction s rule: pb_skip_varint.induct)
  case (1 s)
  then show ?case
    by (subst pb_skip_varint.simps) (auto intro!: ist.within_bind within_read ist.within_Ret split: option.split)
qed

lemma within_raw_loop: "iwf s \<Longrightarrow> ist.within s (raw_varint_loop n acc s)"
  by (induction n acc s rule: raw_varint_loop.induct)
     (auto intro!: ist.within_bind within_read ist.within_Ret split: option.split)

lemma varint32_eof_within:
  assumes "iwf s"
  shows "\<exists>r eof s'. pb_decode_varint32_eof s = Ret (r, eof, s') \<and> iwf s' \<and> istep s s'"
proof -
  have "ist.within s (cbind (pb_decode_varint32_eof s) (\<lambda>(r, eof, s'). Ret ((r, eof), s')))"
    unfolding pb_decode_varint32_eof_def
    using assms
    by (auto simp: cbind_assoc split_def intro!: ist.within_bind within_readbyte within_varint32_loop within_ierror ist.within_Ret split: option.split)
  then show ?thesis by (cases "pb_decode_varint32_eof s") (auto simp: ist.within_def)
qed

lemma keeps_varint: "ist.keeps pb_decode_varint"
  by (simp add: ist.keeps_within pb_decode_varint_def within_varint_loop)

lemma keeps_varint32: "ist.keeps pb_decode_varint32"
proof -
  have "\<exists>r s'. pb_decode_varint32 s = Ret (r, s') \<and> iwf s' \<and> istep s s'" if "iwf s" for s
    using varint32_eof_within [OF that] by (auto simp: pb_decode_varint32_def)
  then show ?thesis by (simp add: ist.keeps_def)
qed

lemma keeps_skip_field: "ist.keeps (pb_skip_field w)"
  unfolding pb_skip_field_def pb_skip_string_def
  by (cases w) (auto intro!: ist.keeps_bind keeps_read ist.keeps_return keeps_varint32 keeps_ierror
      simp: within_skip_varint ist.keeps_within [of pb_skip_varint])

lemma keeps_raw_value: "ist.keeps (read_raw_value w n)"
  unfolding read_raw_value_def
  by (cases w) (auto intro!: keeps_read keeps_ierror simp: within_raw_loop ist.keeps_within [of "raw_varint_loop n []"])

lemmas reader_keeps = keeps_read keeps_readbyte keeps_varint keeps_varint32 keeps_skip_field keeps_raw_value
  ist.keeps_return ist.keeps_bind

lemma keeps_fixed: "ist.keeps pb_decode_fixed32" "ist.keeps pb_decode_fixed64"
    "ist.keeps pb_decode_svarint" "ist.keeps pb_decode_bool"
  unfolding pb_decode_fixed32_def pb_decode_fixed64_def pb_decode_svarint_def pb_decode_bool_def
  by (intro reader_keeps)+

lemma make_substream_cases:
  assumes "iwf s" "pb_make_string_substream s = Ret (Some sub, p)"
  shows "iwf sub" "istate p = istate sub" "ierrmsg p = ierrmsg sub"
    "istep s (p\<lparr>bytes_left := bytes_left p + bytes_left sub\<rparr>)"
    "bytes_left p + bytes_left sub \<le> length (istate sub)"
proof -
  obtain n s1 where n: "pb_decode_varint32 s = Ret (Some n, s1)" "\<not> bytes_left s1 < unat n"
    "sub = s1\<lparr>bytes_left := unat n\<rparr>" "p = s1\<lparr>bytes_left := bytes_left s1 - unat n\<rparr>"
    using assms(2) by (auto simp: pb_make_string_substream_def pb_bind_def ierror_def elim!: cbind_RetE
        split: option.split_asm if_split_asm)
  have s1: "iwf s1" "istep s s1" using ist.keepsE [OF keeps_varint32 assms(1)] n(1) by auto
  show "iwf sub" "istate p = istate sub" "ierrmsg p = ierrmsg sub"
    "bytes_left p + bytes_left sub \<le> length (istate sub)" using n(2) s1(1) by (auto simp: n(3,4) iwf_def)
  show "istep s (p\<lparr>bytes_left := bytes_left p + bytes_left sub\<rparr>)" using s1(2) n(2) by (simp add: n(3,4) istep_def)
qed

lemma close_substream_eq:
  assumes "iwf sub"
  shows "pb_close_string_substream sub p = Ret (Some (), p\<lparr>istate := drop (bytes_left sub) (istate sub), ierrmsg := ierrmsg sub\<rparr>)"
  using assms by (auto simp: pb_close_string_substream_def read_cases adv_def)

text \<open>Whatever a reader does with the substream, fail or succeed, the parent goes on behind it.\<close>

lemma delimited_within:
  assumes "iwf s" "pb_make_string_substream s = Ret (Some sub, p)" "m sub = Ret (r, sub')" "iwf sub'" "istep sub sub'"
  shows "delimited m s = Ret (r, p\<lparr>istate := drop (bytes_left sub) (istate p), ierrmsg := ierrmsg sub'\<rparr>)"
proof -
  note c = make_substream_cases [OF assms(1,2)]
  obtain k where k: "k \<le> bytes_left sub" "istate sub' = drop k (istate sub)" "bytes_left sub' = bytes_left sub - k"
    using assms(5) by (auto simp: istep_def)
  have "drop (bytes_left sub') (istate sub') = drop (bytes_left sub) (istate p)" using k c(2) by simp
  then show ?thesis using assms close_substream_eq [OF assms(4), of p] by (simp add: delimited_def pb_bind_def)
qed


lemma keeps_delimited:
  assumes "ist.keeps m"
  shows "ist.keeps (delimited m)"
  unfolding ist.keeps_within
proof (intro allI impI)
  fix s assume s: "iwf s"
  obtain r s1 where r: "pb_decode_varint32 s = Ret (r, s1)" "iwf s1" "istep s s1"
    using ist.keepsE [OF keeps_varint32 s] by blast
  consider (none) "r = None" | (short) n where "r = Some n" "bytes_left s1 < unat n" | (ok) n where "r = Some n" "\<not> bytes_left s1 < unat n"
    by (cases r) auto
  then show "ist.within s (delimited m s)"
  proof cases
    case none then show ?thesis using r by (auto simp: delimited_def pb_bind_def pb_make_string_substream_def ist.within_def)
  next
    case short
    have "ist.within s1 (ierror msg s1 :: ('a option \<times> pb_istream) cres)" for msg using r(2) by (rule within_ierror)
    then show ?thesis using r short ist.step_trans
      by (fastforce simp: delimited_def pb_bind_def pb_make_string_substream_def ist.within_def ierror_def)
  next
    case (ok n)
    let ?sub = "s1\<lparr>bytes_left := unat n\<rparr>" let ?p = "s1\<lparr>bytes_left := bytes_left s1 - unat n\<rparr>"
    have mk: "pb_make_string_substream s = Ret (Some ?sub, ?p)" using r(1) ok by (simp add: pb_make_string_substream_def pb_bind_def)
    obtain q sub' where q: "m ?sub = Ret (q, sub')" "iwf sub'" "istep ?sub sub'"
      using ist.keepsE [OF assms make_substream_cases(1) [OF s mk]] by blast
    let ?t = "?p\<lparr>istate := drop (bytes_left ?sub) (istate ?p), ierrmsg := ierrmsg sub'\<rparr>"
    have e: "delimited m s = Ret (q, ?t)" using delimited_within [OF s mk, of m q sub'] q by blast
    have "istep s1 ?t" using ok(2) by (auto simp: istep_def intro!: exI [of _ "unat n"])
    then have "istep s ?t" using r(3) ist.step_trans by blast
    moreover have "iwf ?t" using \<open>istep s1 ?t\<close> r(2) iwf_istep by blast
    ultimately show ?thesis using e by (auto simp: ist.within_def)
  qed
qed

section \<open>Clients of a stream\<close>

text \<open>
  What a client of the reading interface can do with a stream: a sequence of calls that stops at the
  first failure, with nested delimited parts.
\<close>

datatype read_op = RTag | RVarint | RVarint32 | RSvarint | RBool | RFixed32 | RFixed64 | RBytes nat
  | RSkip pb_wire_type | RRaw pb_wire_type nat | RDelimited "read_op list"

definition ignore :: "(pb_istream, 'a) pb \<Rightarrow> (pb_istream, unit) pb" where
  "ignore m = pb_bind m (\<lambda>_. pb_return ())"

definition read_tag :: "(pb_istream, pb_wire_type \<times> nat) pb" where
  "read_tag s = cbind (pb_decode_tag s) (\<lambda>(r, eof, s). Ret (r, s))"

fun run_read :: "read_op \<Rightarrow> (pb_istream, unit) pb" and run_reads :: "read_op list \<Rightarrow> (pb_istream, unit) pb" where
  "run_read RTag = ignore read_tag"
| "run_read RVarint = ignore pb_decode_varint"
| "run_read RVarint32 = ignore pb_decode_varint32"
| "run_read RSvarint = ignore pb_decode_svarint"
| "run_read RBool = ignore pb_decode_bool"
| "run_read RFixed32 = ignore pb_decode_fixed32"
| "run_read RFixed64 = ignore pb_decode_fixed64"
| "run_read (RBytes n) = ignore (pb_read n)"
| "run_read (RSkip w) = pb_skip_field w"
| "run_read (RRaw w n) = ignore (read_raw_value w n)"
| "run_read (RDelimited ops) = delimited (run_reads ops)"
| "run_reads [] = pb_return ()"
| "run_reads (x # xs) = pb_bind (run_read x) (\<lambda>_. run_reads xs)"

lemma keeps_read_tag: "ist.keeps read_tag"
proof -
  have "\<exists>r s'. read_tag s = Ret (r, s') \<and> iwf s' \<and> istep s s'" if "iwf s" for s
    using varint32_eof_within [OF that] by (auto simp: read_tag_def pb_decode_tag_def split: option.split)
  then show ?thesis by (simp add: ist.keeps_def)
qed

lemma keeps_ignore: "ist.keeps m \<Longrightarrow> ist.keeps (ignore m)"
  unfolding ignore_def by (intro reader_keeps)

lemma keeps_run: "ist.keeps (run_read x)" "ist.keeps (run_reads xs)"
  by (induction x and xs rule: run_read_run_reads.induct)
     (simp_all add: keeps_ignore keeps_read_tag keeps_fixed keeps_delimited reader_keeps)

text \<open>C15: Reading never runs past the buffer. Whatever sequence of calls a client makes on a stream over a
  buffer of at least the announced size, nested delimited parts included and whatever the bytes are, every
  call returns, with true or false, and the stream then stands \<open>k\<close> bytes into the buffer for some \<open>k\<close>
  within the announced size, with exactly the rest of that size left to read.\<close>

theorem pb_reader_safe:
  assumes "n \<le> length buf"
  shows "\<exists>r s k. run_reads ops (pb_istream_from_buffer buf n) = Ret (r, s) \<and> k \<le> n \<and>
    istate s = drop k buf \<and> bytes_left s = n - k"
proof -
  have "iwf (pb_istream_from_buffer buf n)" using assms by (simp add: iwf_def pb_istream_from_buffer_def)
  from ist.keepsE [OF keeps_run(2) this] show ?thesis
    by (metis istep_def pb_istream_from_buffer_def pb_istream.select_convs(1,2))
qed

theorem pb_reader_safe_witness:
  "\<exists>r s k. run_reads [RTag, RDelimited [RVarint, RSkip PB_WT_STRING], RFixed32] (pb_istream_from_buffer [0x0a, 0x03, 0xff] 3) = Ret (r, s) \<and>
    k \<le> 3 \<and> istate s = drop k [0x0a, 0x03, 0xff] \<and> bytes_left s = 3 - k"
  by (rule pb_reader_safe) simp

section \<open>Writers stay in their buffer\<close>

datatype write_op = WVarint u64 | WSvarint u64 | WFixed32 u32 | WFixed64 u64 | WTag pb_wire_type u32
  | WBytes "byte list" | WString "byte list"

fun run_write :: "write_op \<Rightarrow> (pb_ostream, unit) pb" where
  "run_write (WVarint v) = pb_encode_varint v"
| "run_write (WSvarint v) = pb_encode_svarint v"
| "run_write (WFixed32 v) = pb_encode_fixed32 v"
| "run_write (WFixed64 v) = pb_encode_fixed64 v"
| "run_write (WTag w f) = pb_encode_tag w f"
| "run_write (WBytes bs) = pb_write (Some bs) (length bs)"
| "run_write (WString bs) = pb_encode_string (Some bs) (length bs)"

fun write_bytes :: "write_op \<Rightarrow> byte list" where
  "write_bytes (WVarint v) = varint_enc v"
| "write_bytes (WSvarint v) = varint_enc (zigzag_encode v)"
| "write_bytes (WFixed32 v) = fixed32_bytes v"
| "write_bytes (WFixed64 v) = fixed64_bytes v"
| "write_bytes (WTag w f) = varint_enc (push_bit 3 (ucast f) OR of_nat (wire_code w))"
| "write_bytes (WBytes bs) = bs"
| "write_bytes (WString bs) = string_bytes bs"

fun run_writes :: "write_op list \<Rightarrow> (pb_ostream, unit) pb" where
  "run_writes [] = pb_return ()"
| "run_writes (x # xs) = pb_bind (run_write x) (\<lambda>_. run_writes xs)"

lemma writes_run: "writes (run_write x) (write_bytes x)"
  by (cases x) (simp_all add: writes_varint pb_encode_svarint_def writes_fixed32 writes_fixed64 pb_encode_tag_def
      writes_write writes_string)

lemma writes_runs: "writes (run_writes xs) (concat (map write_bytes xs))"
  by (induction xs) (auto intro: writes_return writes_bind writes_run)

definition full :: "pb_ostream \<Rightarrow> pb_ostream" where
  "full s = s\<lparr>oerrmsg := (case oerrmsg s of None \<Rightarrow> Some ''stream full'' | m \<Rightarrow> m)\<rparr>"

text \<open>\<open>emits w bs\<close>: the writer stores \<open>bs\<close> when they fit, and otherwise stops after a prefix that does.\<close>

definition emits :: "(pb_ostream, unit) pb \<Rightarrow> byte list \<Rightarrow> bool" where
  "emits w bs = (\<forall>s. owf s \<and> ocallback s \<longrightarrow>
     (if bytes_written s + length bs \<le> max_size s then w s = Ret (Some (), put bs s)
      else \<exists>k < length bs. bytes_written s + k \<le> max_size s \<and> w s = Ret (None, full (put (take k bs) s))))"

lemma owf_put: "owf s \<Longrightarrow> ocallback s \<Longrightarrow> bytes_written s + length bs \<le> max_size s \<Longrightarrow> owf (put bs s)"
  by (auto simp: owf_def put_def)

lemma put_Nil [simp]: "put [] s = s"
  by (simp add: put_def)

lemma put_sel [simp]: "ocallback (put bs s) = ocallback s" "max_size (put bs s) = max_size s"
    "bytes_written (put bs s) = bytes_written s + length bs"
  by (simp_all add: put_def)

lemma total_overflow:
  assumes "b < 2 ^ 64" "n < 2 ^ 64" "m < b + n"
  shows "m < (b + n) mod 2 ^ 64 \<or> (b + n) mod 2 ^ 64 < (b :: nat)"
proof (cases "b + n < 2 ^ 64")
  case False
  then have "(b + n) mod 2 ^ 64 = b + n - 2 ^ 64" using assms by (simp add: le_mod_geq)
  then have "(b + n) mod 2 ^ 64 < b" using assms(2) False by simp
  then show ?thesis ..
qed (use assms in simp)

lemma emits_write:
  assumes "length bs = n" "n < 2 ^ 64"
  shows "emits (pb_write (Some bs) n) bs"
  unfolding emits_def
proof (intro allI impI)
  fix s assume s: "owf s \<and> ocallback s"
  show "if bytes_written s + length bs \<le> max_size s then pb_write (Some bs) n s = Ret (Some (), put bs s)
      else \<exists>k < length bs. bytes_written s + k \<le> max_size s \<and> pb_write (Some bs) n s = Ret (None, full (put (take k bs) s))"
  proof (cases "bytes_written s + length bs \<le> max_size s")
    case True
    then have "fits bs s" using s by (auto simp: fits_def owf_def)
    then show ?thesis using True writes_write [OF assms(1)] by (simp add: writes_def)
  next
    case False
    have "0 < n" using False s assms(1) by (cases n) (auto simp: owf_def)
    moreover have "max_size s < (bytes_written s + n) mod 2 ^ 64 \<or> (bytes_written s + n) mod 2 ^ 64 < bytes_written s"
      using False s assms by (intro total_overflow) (auto simp: owf_def)
    ultimately have "pb_write (Some bs) n s = Ret (None, full s)"
      using s by (auto simp: pb_write_def pb_bind_def Let_def oerror_def full_def)
    then show ?thesis using False s \<open>0 < n\<close> assms(1) by (auto simp: owf_def intro!: exI [of _ 0])
  qed
qed

lemma emits_bind:
  assumes w: "emits w bs" and f: "emits (f ()) bs'"
  shows "emits (pb_bind w f) (bs @ bs')"
  unfolding emits_def
proof (intro allI impI)
  fix s assume s: "owf s \<and> ocallback s"
  let ?b = "bytes_written s" let ?m = "max_size s"
  let ?goal = "\<lambda>k. k < length (bs @ bs') \<and> ?b + k \<le> ?m \<and> pb_bind w f s = Ret (None, full (put (take k (bs @ bs')) s))"
  consider (fit) "?b + length (bs @ bs') \<le> ?m" | (snd) "?b + length bs \<le> ?m" "\<not> ?b + length (bs @ bs') \<le> ?m"
    | (fst) "\<not> ?b + length bs \<le> ?m" by linarith
  then show "if ?b + length (bs @ bs') \<le> ?m then pb_bind w f s = Ret (Some (), put (bs @ bs') s) else \<exists>k. ?goal k"
  proof cases
    case fit
    then have "w s = Ret (Some (), put bs s)" using w s by (simp add: emits_def)
    moreover have "f () (put bs s) = Ret (Some (), put bs' (put bs s))"
      using f s fit owf_put [of s bs] by (simp add: emits_def)
    ultimately show ?thesis using fit by (simp add: pb_bind_def put_put)
  next
    case snd
    then have e: "w s = Ret (Some (), put bs s)" using w s by (simp add: emits_def)
    obtain k where "k < length bs'" "?b + length bs + k \<le> ?m" "f () (put bs s) = Ret (None, full (put (take k bs') (put bs s)))"
      using f [unfolded emits_def, rule_format, of "put bs s"] s snd owf_put [of s bs] by (auto simp: add.assoc split: if_split_asm)
    then have "?goal (length bs + k)" using e by (simp add: pb_bind_def put_put)
    then have "\<exists>k. ?goal k" ..
    then show ?thesis using snd(2) by (simp only: if_False)
  next
    case fst
    then obtain k where k: "k < length bs" "?b + k \<le> ?m" "w s = Ret (None, full (put (take k bs) s))"
      using w [unfolded emits_def, rule_format, of s] s by auto
    then have "?goal k" by (simp add: pb_bind_def)
    then have "\<exists>k. ?goal k" ..
    moreover have "\<not> ?b + length (bs @ bs') \<le> ?m" using fst by simp
    ultimately show ?thesis by (simp only: if_False)
  qed
qed

lemma emits_return: "emits (pb_return ()) []"
  by (simp add: emits_def pb_return_def owf_def)

lemma emits_varint: "emits (pb_encode_varint v) (varint_enc v)"
  using length_varint_enc_10 [of v] by (simp add: pb_encode_varint_eq emits_write)

definition write_ok :: "write_op \<Rightarrow> bool" where
  "write_ok x = (case x of WBytes bs \<Rightarrow> length bs < 2 ^ 64 | WString bs \<Rightarrow> length bs < 2 ^ 64 | _ \<Rightarrow> True)"

lemma emits_run: "write_ok x \<Longrightarrow> emits (run_write x) (write_bytes x)"
  by (cases x) (simp_all add: emits_varint emits_write emits_bind pb_encode_svarint_def pb_encode_tag_def write_ok_def
      pb_encode_fixed32_def pb_encode_fixed64_def fixed32_bytes_def fixed64_bytes_def pb_encode_string_def string_bytes_def)

lemma emits_runs: "list_all write_ok xs \<Longrightarrow> emits (run_writes xs) (concat (map write_bytes xs))"
  by (induction xs) (auto intro: emits_return emits_bind emits_run)

text \<open>C32: Writing stays in the buffer and is all or a prefix. A sequence of writing calls on a stream over a
  buffer of \<open>n\<close> bytes always returns. It succeeds exactly when the whole encoding has at most \<open>n\<close> bytes, and
  then the buffer holds the encoding; otherwise the message is \<open>stream full\<close> and the buffer holds a
  prefix of the encoding that fits. In both cases \<^verbatim>\<open>bytes_written\<close> is the number of stored bytes.\<close>

theorem pb_writer_bounded:
  assumes "list_all write_ok ops" "n \<le> room" "n < 2 ^ 64"
  shows "\<exists>r s k. run_writes ops (pb_ostream_from_buffer room n) = Ret (r, s) \<and>
    odest s = take k (concat (map write_bytes ops)) \<and> bytes_written s = length (odest s) \<and> length (odest s) \<le> n \<and>
    (r = Some () \<longleftrightarrow> length (concat (map write_bytes ops)) \<le> n) \<and>
    (case r of Some _ \<Rightarrow> odest s = concat (map write_bytes ops) \<and> oerrmsg s = None | None \<Rightarrow> oerrmsg s = Some ''stream full'')"
proof -
  let ?s = "pb_ostream_from_buffer room n" let ?bs = "concat (map write_bytes ops)"
  have s: "owf ?s \<and> ocallback ?s" using assms by (simp add: owf_def pb_ostream_from_buffer_def)
  have p: "bytes_written ?s = 0" "max_size ?s = n" by (simp_all add: pb_ostream_from_buffer_def)
  note E = emits_runs [OF assms(1), unfolded emits_def, rule_format, OF s, unfolded p]
  show ?thesis
  proof (cases "length ?bs \<le> n")
    case True
    have "run_writes ops ?s = Ret (Some (), put ?bs ?s)" using E True by simp
    then show ?thesis using True by (auto simp: put_def pb_ostream_from_buffer_def intro: exI [of _ "length ?bs"])
  next
    case False
    then obtain k where "k < length ?bs" "k \<le> n" "run_writes ops ?s = Ret (None, full (put (take k ?bs) ?s))" using E by auto
    then show ?thesis using False
      by (intro exI [of _ None] exI [of _ "full (put (take k ?bs) ?s)"] exI [of _ k])
         (simp add: put_def full_def pb_ostream_from_buffer_def)
  qed
qed

theorem pb_writer_bounded_witness:
  "\<exists>r s k. run_writes [WTag PB_WT_STRING 1, WString [0x61, 0x62]] (pb_ostream_from_buffer 8 3) = Ret (r, s) \<and>
    odest s = take k (concat (map write_bytes [WTag PB_WT_STRING 1, WString [0x61, 0x62]])) \<and>
    bytes_written s = length (odest s) \<and> length (odest s) \<le> 3 \<and>
    (r = Some () \<longleftrightarrow> length (concat (map write_bytes [WTag PB_WT_STRING 1, WString [0x61, 0x62]])) \<le> 3) \<and>
    (case r of Some _ \<Rightarrow> odest s = concat (map write_bytes [WTag PB_WT_STRING 1, WString [0x61, 0x62]]) \<and> oerrmsg s = None
     | None \<Rightarrow> oerrmsg s = Some ''stream full'')"
  by (rule pb_writer_bounded) (simp_all add: write_ok_def)

text \<open>C33: The sizing pass is exact. Running the same calls on the sizing stream, which stores nothing,
  succeeds and counts a number of bytes for which a buffer of just that size is enough, and is
  filled completely, in the second pass.\<close>

theorem pb_sizing_exact:
  assumes "list_all write_ok ops" "length (concat (map write_bytes ops)) < 2 ^ 64"
  shows "\<exists>n s. run_writes ops PB_OSTREAM_SIZING = Ret (Some (), PB_OSTREAM_SIZING\<lparr>bytes_written := n\<rparr>) \<and>
    run_writes ops (pb_ostream_from_buffer n n) = Ret (Some (), s) \<and> oroom s = 0 \<and> length (odest s) = n"
proof -
  let ?bs = "concat (map write_bytes ops)"
  have "fits ?bs PB_OSTREAM_SIZING" "fits ?bs (pb_ostream_from_buffer (length ?bs) (length ?bs))"
    using assms(2) by (simp_all add: fits_def PB_OSTREAM_SIZING_def pb_ostream_from_buffer_def)
  then show ?thesis using writes_runs [of ops] unfolding writes_def
    by (intro exI [of _ "length ?bs"] exI [of _ "put ?bs (pb_ostream_from_buffer (length ?bs) (length ?bs))"])
       (simp add: put_def PB_OSTREAM_SIZING_def pb_ostream_from_buffer_def)
qed

theorem pb_sizing_exact_witness:
  "\<exists>n s. run_writes [WFixed64 7, WBytes [1, 2, 3]] PB_OSTREAM_SIZING = Ret (Some (), PB_OSTREAM_SIZING\<lparr>bytes_written := n\<rparr>) \<and>
    run_writes [WFixed64 7, WBytes [1, 2, 3]] (pb_ostream_from_buffer n n) = Ret (Some (), s) \<and> oroom s = 0 \<and> length (odest s) = n"
  by (rule pb_sizing_exact) (simp_all add: write_ok_def fixed64_bytes_def)

section \<open>Round trips\<close>

lemma iwf_from_buffer: "n \<le> length buf \<Longrightarrow> iwf (pb_istream_from_buffer buf n)"
  and avail_from_buffer: "avail (pb_istream_from_buffer buf n) = take n buf"
  by (simp_all add: iwf_def avail_def pb_istream_from_buffer_def)

lemma reads_from_buffer:
  assumes "reads m bs x"
  shows "m (pb_istream_from_buffer (bs @ rest) (length (bs @ rest))) =
    Ret (Some x, pb_istream_from_buffer rest (length rest))"
proof -
  let ?s = "pb_istream_from_buffer (bs @ rest) (length (bs @ rest))"
  have "m ?s = Ret (Some x, adv (length bs) ?s)"
    using assms iwf_from_buffer [of "length (bs @ rest)" "bs @ rest"] avail_from_buffer [of "bs @ rest" "length (bs @ rest)"]
    unfolding reads_def by (metis order_refl take_all_iff)
  then show ?thesis by (simp add: adv_def pb_istream_from_buffer_def)
qed

lemma writes_buffer:
  assumes "writes w bs" "length bs \<le> n" "n \<le> room" "n < 2 ^ 64"
  shows "w (pb_ostream_from_buffer room n) = Ret (Some (), put bs (pb_ostream_from_buffer room n))"
    and "odest (put bs (pb_ostream_from_buffer room n)) = bs"
  using assms by (auto simp: writes_def fits_def put_def pb_ostream_from_buffer_def)

text \<open>A value of every wire type: how it is written, and how it is read back.\<close>

fun put_value :: "wire_value \<Rightarrow> (pb_ostream, unit) pb" where
  "put_value (VarintV v) = pb_encode_varint v"
| "put_value (Fixed64V v) = pb_encode_fixed64 v"
| "put_value (StringV bs) = pb_encode_string (Some bs) (length bs)"
| "put_value (Fixed32V v) = pb_encode_fixed32 v"

definition get_string :: "(pb_istream, byte list) pb" where
  "get_string = delimited (\<lambda>s. pb_read (bytes_left s) s)"

fun get_value :: "pb_wire_type \<Rightarrow> (pb_istream, wire_value) pb" where
  "get_value PB_WT_VARINT = pb_bind pb_decode_varint (\<lambda>v. pb_return (VarintV v))"
| "get_value PB_WT_64BIT = pb_bind pb_decode_fixed64 (\<lambda>v. pb_return (Fixed64V v))"
| "get_value PB_WT_STRING = pb_bind get_string (\<lambda>v. pb_return (StringV v))"
| "get_value PB_WT_32BIT = pb_bind pb_decode_fixed32 (\<lambda>v. pb_return (Fixed32V v))"
| "get_value (PB_WT_OTHER n) = ierror ''invalid wire_type''"

lemma writes_value: "writes (put_value x) (value_bytes x)"
  by (cases x) (simp_all add: writes_varint writes_fixed32 writes_fixed64 writes_string)

lemma reads_string: "length bs < 2 ^ 32 \<Longrightarrow> reads get_string (string_bytes bs) bs"
  unfolding get_string_def reads_def
proof (intro allI impI)
  fix s rest
  assume l: "length bs < 2 ^ 32" and s: "iwf s \<and> avail s = string_bytes bs @ rest"
  obtain sub where sub: "pb_make_string_substream s = Ret (Some sub, s\<lparr>istate := istate sub, bytes_left := length rest\<rparr>)"
    "iwf sub" "avail sub = bs" "istate sub = drop (length (string_bytes bs) - length bs) (istate s)"
    "bytes_left sub = length bs" "ierrmsg sub = ierrmsg s" using make_substream [OF _ _ l] s by blast
  have r: "pb_read (bytes_left sub) sub = Ret (Some bs, adv (length bs) sub)"
    using reads_read [of bs] sub(2,3,5) by (auto simp: reads_def)
  have "istep sub (adv (length bs) sub)" using istep_adv sub(5) by simp
  note d = delimited_within [OF conjunct1 [OF s] sub(1), of "\<lambda>s. pb_read (bytes_left s) s", OF r iwf_adv [OF sub(2)] this]
  have "bytes_left s = length (string_bytes bs) + length rest" using avail_length [of s] s by auto
  then show "delimited (\<lambda>s. pb_read (bytes_left s) s) s = Ret (Some bs, adv (length (string_bytes bs)) s)"
    unfolding d using sub(4,5,6) by (cases s) (simp add: adv_def string_bytes_def add.commute)
qed

lemma reads_value: "value_ok x \<Longrightarrow> reads (get_value (wire_kind x)) (value_bytes x) x"
  using reads_varint reads_fixed32 reads_fixed64 reads_string
  by (cases x) (auto simp: value_ok_def intro!: reads_map)

text \<open>A field is its tag and its value.\<close>

definition put_field :: "nat \<times> wire_value \<Rightarrow> (pb_ostream, unit) pb" where
  "put_field fx = pb_bind (pb_encode_tag (wire_kind (snd fx)) (of_nat (fst fx))) (\<lambda>_. put_value (snd fx))"

text \<open>A reader that knows the fields in \<open>known\<close> and skips the others, as \<^verbatim>\<open>pb_decode\<close> does.\<close>

definition get_known :: "nat list \<Rightarrow> (pb_istream, (nat \<times> wire_value) option) pb" where
  "get_known known = pb_bind read_tag (\<lambda>(w, f).
     if f \<in> set known then pb_bind (get_value w) (\<lambda>x. pb_return (Some (f, x)))
     else pb_bind (pb_skip_field w) (\<lambda>_. pb_return None))"

primrec repeat_pb :: "nat \<Rightarrow> ('s, 'a option) pb \<Rightarrow> ('s, 'a list) pb" where
  "repeat_pb 0 m = pb_return []"
| "repeat_pb (Suc n) m = pb_bind m (\<lambda>x. pb_bind (repeat_pb n m) (\<lambda>xs. pb_return
     (case x of None \<Rightarrow> xs | Some x \<Rightarrow> x # xs)))"

primrec put_fields :: "(nat \<times> wire_value) list \<Rightarrow> (pb_ostream, unit) pb" where
  "put_fields [] = pb_return ()"
| "put_fields (x # xs) = pb_bind (put_field x) (\<lambda>_. put_fields xs)"

definition field_bytes :: "nat \<times> wire_value \<Rightarrow> byte list" where
  "field_bytes fx = tag_bytes (wire_code (wire_kind (snd fx))) (fst fx) @ value_bytes (snd fx)"

definition field_ok :: "nat \<times> wire_value \<Rightarrow> bool" where
  "field_ok fx = (0 < fst fx \<and> fst fx < 2 ^ 29 \<and> value_ok (snd fx))"

lemma wire_kind_code: "wire_code (wire_kind x) < 8" "wire_type_of (wire_code (wire_kind x)) = wire_kind x"
  by (cases x; simp add: wire_code_def wire_type_of_def)+

lemma reads_tag: "0 < f \<Longrightarrow> f < 2 ^ 29 \<Longrightarrow> reads read_tag (tag_bytes (wire_code (wire_kind x)) f) (wire_kind x, f)"
  using decode_tag [OF _ _ wire_kind_code(1) [of x]] wire_kind_code(2) [of x] by (simp add: reads_def read_tag_def)

lemma writes_field: "field_ok fx \<Longrightarrow> writes (put_field fx) (field_bytes fx)"
  unfolding put_field_def field_bytes_def field_ok_def by (intro writes_bind writes_tag writes_value) simp

lemma writes_fields: "list_all field_ok xs \<Longrightarrow> writes (put_fields xs) (concat (map field_bytes xs))"
  by (induction xs) (auto intro: writes_return writes_bind writes_field)

lemma reads_known:
  "field_ok fx \<Longrightarrow> reads (get_known known) (field_bytes fx) (if fst fx \<in> set known then Some fx else None)"
  unfolding get_known_def field_bytes_def field_ok_def
  by (rule reads_bind, rule reads_tag [of _ "snd fx"])
     (use reads_map [OF reads_value, of "snd fx" "\<lambda>x. Some (fst fx, x)"]
        reads_map [OF reads_skip_field, of "snd fx" "\<lambda>x. None"] in auto)

lemma reads_repeat:
  "list_all field_ok xs \<Longrightarrow> reads (repeat_pb (length xs) (get_known known)) (concat (map field_bytes xs))
     (filter (\<lambda>fx. fst fx \<in> set known) xs)"
proof (induction xs)
  case Nil then show ?case by (simp add: reads_return)
next
  case (Cons x xs)
  let ?g = "\<lambda>ys. case (if fst x \<in> set known then Some x else None) of None \<Rightarrow> ys | Some x \<Rightarrow> x # ys"
  have "reads (pb_bind (repeat_pb (length xs) (get_known known)) (\<lambda>ys. pb_return (?g ys)))
      (concat (map field_bytes xs)) (?g (filter (\<lambda>fx. fst fx \<in> set known) xs))"
    using Cons by (intro reads_map) simp
  note r = reads_bind [of _ "field_bytes x" _ "\<lambda>x. pb_bind (repeat_pb (length xs) (get_known known)) (\<lambda>ys. pb_return
      (case x of None \<Rightarrow> ys | Some x \<Rightarrow> x # ys))", OF reads_known this]
  show ?case using r Cons.prems by (simp split: if_splits)
qed

text \<open>C14: What is written can be read back, and unknown fields do no harm. Fields with any numbers below
  \<open>2\<^sup>29\<close> and values of any wire type, written one after the other into a buffer with enough room, are
  read back by a client that knows only some of the field numbers: it gets exactly the fields it
  knows, in their order, it skips exactly the bytes of the others, and the stream stands behind the last
  field.\<close>

theorem pb_fields_roundtrip:
  assumes "list_all field_ok xs" "length (concat (map field_bytes xs)) \<le> n" "n < 2 ^ 64"
  shows "\<exists>s. put_fields xs (pb_ostream_from_buffer n n) = Ret (Some (), s) \<and>
    repeat_pb (length xs) (get_known known) (pb_istream_from_buffer (odest s @ rest) (length (odest s @ rest))) =
      Ret (Some (filter (\<lambda>fx. fst fx \<in> set known) xs), pb_istream_from_buffer rest (length rest))"
  using writes_buffer [OF writes_fields [OF assms(1)] assms(2) order_refl assms(3)]
    reads_from_buffer [OF reads_repeat [OF assms(1), of known]] by metis

theorem pb_fields_roundtrip_witness:
  "\<exists>s. put_fields [(1, VarintV 300), (7, StringV [0x61]), (2, Fixed32V 9)] (pb_ostream_from_buffer 64 64) = Ret (Some (), s) \<and>
    repeat_pb (length [(1 :: nat, VarintV 300), (7, StringV [0x61]), (2, Fixed32V 9)]) (get_known [1, 2])
      (pb_istream_from_buffer (odest s @ [0]) (length (odest s @ [0]))) =
      Ret (Some (filter (\<lambda>fx. fst fx \<in> set [1, 2]) [(1, VarintV 300), (7, StringV [0x61]), (2, Fixed32V 9)]),
        pb_istream_from_buffer [0] (length [0 :: byte]))"
proof (rule pb_fields_roundtrip)
  show "list_all field_ok [(1, VarintV 300), (7, StringV [0x61]), (2, Fixed32V 9)]"
    by (simp add: field_ok_def value_ok_def)
  show "length (concat (map field_bytes [(1, VarintV 300), (7, StringV [0x61]), (2, Fixed32V 9)])) \<le> 64"
    by code_simp
qed simp

lemma reads_svarint: "reads pb_decode_svarint (varint_enc (zigzag_encode v)) v"
  using reads_map [OF reads_varint [of "zigzag_encode v"], of zigzag_decode] by (simp add: pb_decode_svarint_def zigzag)

lemma reads_u32: "reads pb_decode_varint32 (varint_enc (ucast w)) w" for w :: u32
proof -
  have "unat (ucast w :: u64) < 2 ^ 32"
    using unsigned_less [of w, where 'a = nat] by (simp add: unsigned_ucast_eq take_bit_nat_eq_self)
  moreover have "(ucast (ucast w :: u64) :: u32) = w" by (rule bits32) (simp add: bit_blast)
  ultimately show ?thesis using reads_varint32 [of "ucast w"] by simp
qed

text \<open>Numbers survive the wire: the unsigned and the zigzag encoding of all 64 bits take at most ten bytes and are decoded
  to the same number, and the 32-bit reader used for tags and lengths agrees on every number below
  \<open>2\<^sup>32\<close>; each reader consumes exactly the encoding.\<close>

theorem pb_number_roundtrip:
  assumes "10 \<le> n" "n < 2 ^ 64"
  shows "(\<exists>s. pb_encode_varint v (pb_ostream_from_buffer n n) = Ret (Some (), s) \<and>
      pb_decode_varint (pb_istream_from_buffer (odest s @ rest) (length (odest s @ rest))) =
        Ret (Some v, pb_istream_from_buffer rest (length rest))) \<and>
    (\<exists>s. pb_encode_svarint v (pb_ostream_from_buffer n n) = Ret (Some (), s) \<and>
      pb_decode_svarint (pb_istream_from_buffer (odest s @ rest) (length (odest s @ rest))) =
        Ret (Some v, pb_istream_from_buffer rest (length rest))) \<and>
    (\<exists>s. pb_encode_varint (ucast (w :: u32)) (pb_ostream_from_buffer n n) = Ret (Some (), s) \<and>
      pb_decode_varint32 (pb_istream_from_buffer (odest s @ rest) (length (odest s @ rest))) =
        Ret (Some w, pb_istream_from_buffer rest (length rest)))"
proof (intro conjI)
  have "length (varint_enc v) \<le> n" for v using length_varint_enc_10 [of v] assms(1) by simp
  note wr = writes_buffer [OF writes_varint this order_refl assms(2)]
  show "\<exists>s. pb_encode_varint v (pb_ostream_from_buffer n n) = Ret (Some (), s) \<and>
      pb_decode_varint (pb_istream_from_buffer (odest s @ rest) (length (odest s @ rest))) =
        Ret (Some v, pb_istream_from_buffer rest (length rest))"
    using wr [of v] reads_from_buffer [OF reads_varint [of v]] by metis
  show "\<exists>s. pb_encode_svarint v (pb_ostream_from_buffer n n) = Ret (Some (), s) \<and>
      pb_decode_svarint (pb_istream_from_buffer (odest s @ rest) (length (odest s @ rest))) =
        Ret (Some v, pb_istream_from_buffer rest (length rest))"
    using wr [of "zigzag_encode v"] reads_from_buffer [OF reads_svarint [of v]] unfolding pb_encode_svarint_def by metis
  show "\<exists>s. pb_encode_varint (ucast w) (pb_ostream_from_buffer n n) = Ret (Some (), s) \<and>
      pb_decode_varint32 (pb_istream_from_buffer (odest s @ rest) (length (odest s @ rest))) =
        Ret (Some w, pb_istream_from_buffer rest (length rest))"
    using wr [of "ucast w"] reads_from_buffer [OF reads_u32 [of w]] by metis
qed

theorem pb_number_roundtrip_witness:
  "\<exists>s. pb_encode_svarint (- 3) (pb_ostream_from_buffer 10 10) = Ret (Some (), s) \<and>
      pb_decode_svarint (pb_istream_from_buffer (odest s @ []) (length (odest s @ []))) =
        Ret (Some (- 3), pb_istream_from_buffer [] (length ([] :: byte list)))"
  using pb_number_roundtrip [of 10 "- 3" "[]"] by simp

section \<open>The 32-bit reader on long input\<close>

text \<open>The position counter of the 32-bit reader has 8 bits and no limit is tested. After 37 bytes
  it has come round to 3, so a number written with 37 continuation bytes of zeros and a last byte 1, which the
  64-bit reader rejects as an overflow, is accepted and read as 8.\<close>

theorem pb_varint32_wraps:
  "pb_decode_varint32 (pb_istream_from_buffer (replicate 37 0x80 @ [1]) 38) = Ret (Some 8, pb_istream_from_buffer [] 0) \<and>
   (\<exists>s. pb_decode_varint (pb_istream_from_buffer (replicate 37 0x80 @ [1]) 38) = Ret (None, s) \<and> ierrmsg s = Some ''varint overflow'')"
proof
  show "pb_decode_varint32 (pb_istream_from_buffer (replicate 37 0x80 @ [1]) 38) = Ret (Some 8, pb_istream_from_buffer [] 0)"
    by code_simp
  have "(case pb_decode_varint (pb_istream_from_buffer (replicate 37 0x80 @ [1]) 38) of Ret (None, s) \<Rightarrow> ierrmsg s = Some ''varint overflow'' | _ \<Rightarrow> False)"
    by code_simp
  then show "\<exists>s. pb_decode_varint (pb_istream_from_buffer (replicate 37 0x80 @ [1]) 38) = Ret (None, s) \<and> ierrmsg s = Some ''varint overflow''"
    by (auto split: cres.split_asm option.split_asm)
qed

section \<open>Delimited parts and packed arrays\<close>

lemma reads_length_n: "n < 2 ^ 32 \<Longrightarrow> reads pb_decode_varint32 (varint_enc (of_nat n)) (of_nat n)"
  using reads_length [of "replicate n 0"] by simp

text \<open>A delimited part is isolated. A length prefix \<open>n\<close> is followed by \<open>bs\<close>. When \<open>bs\<close> has that many bytes,
  then whatever calls the client makes inside the part, and whether they succeed or fail, the
  enclosing stream afterwards stands exactly behind the \<open>n\<close> bytes. When it does not, the call fails with
  its message before anything of \<open>bs\<close> is read.\<close>

theorem pb_delimited_isolated:
  assumes "n < 2 ^ 32"
  shows "if n \<le> length bs
    then \<exists>r m. run_read (RDelimited ops) (pb_istream_from_buffer (varint_enc (of_nat n) @ bs) (length (varint_enc (of_nat n) @ bs))) =
      Ret (r, (pb_istream_from_buffer (drop n bs) (length bs - n))\<lparr>ierrmsg := m\<rparr>)
    else run_read (RDelimited ops) (pb_istream_from_buffer (varint_enc (of_nat n) @ bs) (length (varint_enc (of_nat n) @ bs))) =
      Ret (None, (pb_istream_from_buffer bs (length bs))\<lparr>ierrmsg := Some ''parent stream too short''\<rparr>)"
proof -
  let ?s = "pb_istream_from_buffer (varint_enc (of_nat n) @ bs) (length (varint_enc (of_nat n) @ bs))"
  let ?t = "pb_istream_from_buffer bs (length bs)"
  note r = reads_from_buffer [OF reads_length_n [OF assms], of bs]
  have u: "unat (of_nat n :: u32) = n" using assms by (simp add: unat_of_nat)
  have i: "iwf ?s" by (simp add: iwf_from_buffer)
  show ?thesis
  proof (cases "n \<le> length bs")
    case True
    let ?sub = "?t\<lparr>bytes_left := n\<rparr>" let ?p = "?t\<lparr>bytes_left := length bs - n\<rparr>"
    have mk: "pb_make_string_substream ?s = Ret (Some ?sub, ?p)"
      using r u True by (simp add: pb_make_string_substream_def pb_bind_def pb_istream_from_buffer_def)
    obtain q sub' where q: "run_reads ops ?sub = Ret (q, sub')" "iwf sub'" "istep ?sub sub'"
      using ist.keepsE [OF keeps_run(2) make_substream_cases(1) [OF i mk]] by blast
    have "run_read (RDelimited ops) ?s = Ret (q, ?p\<lparr>istate := drop (bytes_left ?sub) (istate ?p), ierrmsg := ierrmsg sub'\<rparr>)"
      using delimited_within [OF i mk, of "run_reads ops" q sub'] q by simp
    then show ?thesis using True by (auto simp: pb_istream_from_buffer_def)
  next
    case False
    then show ?thesis using r u by (simp add: delimited_def pb_make_string_substream_def pb_bind_def pb_istream_from_buffer_def ierror_def)
  qed
qed

theorem pb_delimited_isolated_witness:
  "if 2 \<le> length [0xff, 0xff, 5 :: byte]
    then \<exists>r m. run_read (RDelimited [RVarint]) (pb_istream_from_buffer (varint_enc (of_nat 2) @ [0xff, 0xff, 5]) (length (varint_enc (of_nat 2) @ [0xff, 0xff, 5]))) =
      Ret (r, (pb_istream_from_buffer (drop 2 [0xff, 0xff, 5]) (length [0xff, 0xff, 5 :: byte] - 2))\<lparr>ierrmsg := m\<rparr>)
    else run_read (RDelimited [RVarint]) (pb_istream_from_buffer (varint_enc (of_nat 2) @ [0xff, 0xff, 5]) (length (varint_enc (of_nat 2) @ [0xff, 0xff, 5]))) =
      Ret (None, (pb_istream_from_buffer [0xff, 0xff, 5] (length [0xff, 0xff, 5 :: byte]))\<lparr>ierrmsg := Some ''parent stream too short''\<rparr>)"
  by (rule pb_delimited_isolated) simp

text \<open>Reading one number at an offset of a buffer, as a number and the bytes it took.\<close>

definition varint_at :: "byte list \<Rightarrow> nat \<Rightarrow> (u64 \<times> nat) option" where
  "varint_at bs off =
     (case pb_decode_varint (pb_istream_from_buffer (drop off bs) (length bs - off)) of
        Ret (Some v, s) \<Rightarrow> Some (v, length bs - off - bytes_left s)
      | _ \<Rightarrow> None)"

interpretation pbv: varint_code varint_enc varint_at "\<lambda>_. True"
proof
  show "varint_at (pre @ varint_enc v @ rest) (length pre) = Some (v, length (varint_enc v))" for v pre rest
    using reads_from_buffer [OF reads_varint [of v], of rest] by (simp add: varint_at_def pb_istream_from_buffer_def)
qed simp

end
