(* ===== verification/Spec2Isabelle.thy ===== *)
theory Spec2Isabelle
  imports RK_Recover RK_Api Sqlite_Bitvec Sqlite_Num Sqlite_RowSet_Spec Sqlite_Mem Pb_Wire
begin

text \<open>
  Verification of C code in the dependency tree of this application. The application itself is Swift; the
  C code it is built with is under \<^verbatim>\<open>src/text/Pods\<close>. Three parts of it are modelled here, those that decide
  what the application can read back from its stored data: SQLiteRepairKit, which recovers rows from a damaged
  database, data structures and formats of SQLite itself, and the wire format of nanopb, in which the
  Firestore client stores and sends its documents.

  \<^bold>\<open>Parts and theories.\<close>

  \<^item> \<^verbatim>\<open>C_Prelude\<close>: outcomes of C code (\<open>cres\<close>: a value, \<open>Fault\<close> for undefined behaviour, \<open>Diverge\<close> for a
    loop that goes on past its bound), \<^verbatim>\<open>int\<close> arithmetic, bytes and big-endian numbers, reads and writes in an
    object, the heap (a script of the outcomes of the coming allocations and the number of live
    blocks), and the interfaces \<open>varint_code\<close> of a variable-length code and \<open>forward_simulation\<close> of a component with
    state and its specification.
  \<^item> \<^verbatim>\<open>RK_Util\<close> (\<^verbatim>\<open>sqliterk_util.c\<close>): integers and varints as SQLiteRepairKit reads them, result codes.
  \<^item> \<^verbatim>\<open>RK_Values\<close> (\<^verbatim>\<open>sqliterk_values.c\<close>): the growing array of values of a row, as \<open>record\<close>s with an explicit
    union; interface \<open>value_sink\<close>.
  \<^item> \<^verbatim>\<open>RK_Column\<close> (\<^verbatim>\<open>sqliterk_column.c\<close>): a row: rowid, values, overflow pages.
  \<^item> \<^verbatim>\<open>RK_Os\<close> (\<^verbatim>\<open>sqliterk_os.c\<close>): files and allocation; the operating system is a file system and a script of
    short, interrupted and failed reads; interface \<open>file_reader\<close>.
  \<^item> \<^verbatim>\<open>RK_Crypto\<close> (\<^verbatim>\<open>sqliterk_crypto.c\<close>): the calls of the cipher library, which is a parameter.
  \<^item> \<^verbatim>\<open>RK_Pager\<close> (\<^verbatim>\<open>sqliterk_pager.c\<close>): opening a database, its header, pages and their statuses; interface
    \<open>status_store\<close>.
  \<^item> \<^verbatim>\<open>RK_Btree\<close>, \<^verbatim>\<open>RK_Walk\<close> (\<^verbatim>\<open>sqliterk_btree.c\<close>, \<^verbatim>\<open>sqliterk.c\<close>): b-tree objects and the record format; the walk over
    pages, cells, payloads and overflow chains, the notifications and the repair object.
  \<^item> \<^verbatim>\<open>RK_Safety\<close>, \<^verbatim>\<open>RK_Recover\<close>: what the walk leaves behind and what it delivers.
  \<^item> \<^verbatim>\<open>RK_Api\<close> (\<^verbatim>\<open>sqliterk_api.c\<close>): the public interface.
  \<^item> \<^verbatim>\<open>Sqlite_Varint\<close> (\<^verbatim>\<open>util.c\<close> of SQLite): the varints and four-byte integers that SQLite writes.
  \<^item> \<^verbatim>\<open>Sqlite_Bitvec\<close> (\<^verbatim>\<open>bitvec.c\<close> of SQLite): bit vectors as bitmap, hash table or tree of bit vectors.
  \<^item> \<^verbatim>\<open>Sqlite_Hash\<close> (\<^verbatim>\<open>hash.c\<close>, \<^verbatim>\<open>hash.h\<close> of SQLite): the hash table over a doubly linked list in an explicit store.
  \<^item> \<^verbatim>\<open>Sqlite_Num\<close> (\<^verbatim>\<open>util.c\<close>, \<^verbatim>\<open>global.c\<close> of SQLite): checked 64-bit arithmetic, text to integers, hexadecimal and
    blob literals, quoted names, logarithmic estimates.
  \<^item> \<^verbatim>\<open>Sqlite_RowSet\<close>, \<^verbatim>\<open>Sqlite_RowSet_Spec\<close> (\<^verbatim>\<open>rowset.c\<close> of SQLite): sets of rowids as a linked list, sorted in place, and a
    forest of search trees over the same entries in an explicit store; the specification and the refinement.
  \<^item> \<^verbatim>\<open>Sqlite_Utf\<close> (\<^verbatim>\<open>utf.c\<close> of SQLite): characters in UTF-8 and both kinds of UTF-16, the translation loops, counting
    and the self-test; interfaces \<open>char_code\<close> of an encoding and \<open>char_translation\<close> of a decoder with a writer.
  \<^item> \<^verbatim>\<open>Sqlite_Mem\<close> (\<^verbatim>\<open>vdbemem.c\<close>, \<^verbatim>\<open>utf.c\<close> of SQLite): values that hold texts and blobs, as \<open>record\<close>s with the flags of the
    code and a place for the bytes; their memory, copies, encodings and byte-order marks.
  \<^item> \<^verbatim>\<open>Pb_Wire\<close> (\<^verbatim>\<open>pb_encode.c\<close>, \<^verbatim>\<open>pb_decode.c\<close> of nanopb): streams, integers, tags, strings, substreams;
    interface \<open>stream_invariant\<close>.

  \<^bold>\<open>How code becomes definitions.\<close> A struct is a \<open>record\<close>, an enum or a tagged union a \<open>datatype\<close>, a C function a
  definition of the same name. Pointers that may be null are options, an object a list of
  bytes, a pointer into it an offset. State is passed explicitly: the heap through every function that allocates, the
  whole repair object through the walk. A function that returns a code and stores results gives both. An
  early return or a jump to the cleanup is a branch; undefined behaviour is \<open>Fault\<close>, so that a theorem that a
  call returns also says that it stays inside its objects.

  \<^bold>\<open>What the lemmas show.\<close> For the values, columns, files, pager and cipher: each operation on every
  branch, what it allocates and releases, allocation failures included. For the formats: that the readers are inverse to
  the writers and where they are not. For the walk: that it releases what it allocates, changes
  nothing of the pager but page statuses and the integrity flag that goes with them, and delivers every row of a stored table in order. For bit vectors: that they
  refine a set of numbers through all changes of representation. For the hash table: that it refines a map with
  keys up to ASCII case through the growth of its buckets, and owns exactly its blocks. For row sets: that the sorting, the
  building of trees and the search implement two sets of rowids, that rowids come out in order and each once, that trees are as shallow as they can be,
  and that every chunk is freed. For texts: that characters and well-formed texts survive every
  translation, that translating any bytes stays inside the output buffer, that calls on values do to the contents what their
  specification says while the asserted invariant holds, and that every block is freed once. For numbers and names: that the conversions compute the number
  or name that is written, accept exactly what fits and stay inside the text (in UTF-16 for texts of whole units), that longer digit strings are stored wrapped, and that the logarithmic estimates are
  the nearest integers with one exception. For nanopb: that reading never leaves the buffer,
  writing stores the encoding or a prefix of it that fits, and what is written is read back.

  \<^bold>\<open>Bounds.\<close> The page parser takes a bound on its depth and on the length of an overflow chain, since the
  code has none; the number of pages of the table is enough for a table that is stored without cycles. A larger bound never changes
  a run that returned. Setting a bit takes nine levels:
  each level divides the size by the number of sub-vectors, 62, and the sizes have 32 bits. Probing takes as
  many steps as the hash has slots. The loops over the list of a hash table take as many steps as the table
  counts elements, those over the entries of a row set as many as there are addresses below the next fresh one; that they
  need no more is part of what is shown. The merge sort of a row set has forty buckets, which is enough for fewer than \<open>2\<^sup>40\<close>
  entries; the theorems on row sets ask for addresses below this limit. The length limit
  of values is at most \<open>10\<^sup>9\<close>, the default; the theorems on translation ask for the sizes below which the
  size of the output does not overflow, and one shows that the limit allows larger ones. All other loops are bounded by the data they consume.

  \<^bold>\<open>Not modelled.\<close> Logging; the C++ output of SQLiteRepairKit; the test driver of the bit vectors; values that are
  numbers, their conversion to and from text, and values of expressions; the rest of SQLite
  and SQLCipher; custom stream callbacks and the message layer of nanopb (field descriptions over raw
  structures); BoringSSL; the C++ libraries (gRPC, abseil, leveldb, Firestore); the Swift and Objective-C code.
\<close>

end
